(* ===== verification/PB_Prelude.thy ===== *)
theory PB_Prelude
  imports Main "HOL-Library.Word"
begin

text \<open>
  Prelude of the nanopb and base64 models: the machine types, the two result
  shapes of the C code (a value or \<open>false\<close> together with the mutated stream; an
  outcome that also records undefined behaviour and exhausted fuel), byte
  sequences in little-endian order, and the byte-addressed memory in which the
  message structures live.
\<close>

unbundle bit_operations_syntax

type_synonym byte = "8 word"
type_synonym u32 = "32 word"
type_synonym u64 = "64 word"

named_theorems stream_simps \<open>how the stream operations change each stream field\<close>
named_theorems heap_simps \<open>reads of the memory after a write\<close>

subsection \<open>C functions that return \<open>false\<close> on an error\<close>

text \<open>
  A C function that returns \<open>bool\<close>, delivers a value through a pointer and
  mutates a stream is a function into \<open>'a option \<times> 's\<close>: \<open>None\<close> is
  \<open>return false\<close>, and the stream is the mutated one in both cases.
  \<open>on_ok r f\<close> is the C idiom \<open>if (!r) return false; f\<close>.
\<close>

definition on_ok :: "'a option \<times> 's \<Rightarrow> ('a \<Rightarrow> 's \<Rightarrow> 'b option \<times> 's) \<Rightarrow> 'b option \<times> 's" where
  "on_ok r f = (case r of (None, s) \<Rightarrow> (None, s) | (Some a, s) \<Rightarrow> f a s)"

lemma on_ok_simps [simp]:
  "on_ok (None, s) f = (None, s)"
  "on_ok (Some a, s) f = f a s"
  by (simp_all add: on_ok_def)

lemma on_ok_cong [fundef_cong]:
  "r = r' \<Longrightarrow> (\<And>a s. r' = (Some a, s) \<Longrightarrow> f a s = f' a s) \<Longrightarrow> on_ok r f = on_ok r' f'"
  by (auto simp: on_ok_def split: option.splits prod.splits)

lemma on_ok_split:
  "P (on_ok r f) \<longleftrightarrow>
     (\<forall>s. r = (None, s) \<longrightarrow> P (None, s)) \<and> (\<forall>a s. r = (Some a, s) \<longrightarrow> P (f a s))"
  by (auto simp: on_ok_def split: option.splits prod.splits)

lemma on_ok_split_asm:
  "P (on_ok r f) \<longleftrightarrow>
     \<not> ((\<exists>s. r = (None, s) \<and> \<not> P (None, s)) \<or> (\<exists>a s. r = (Some a, s) \<and> \<not> P (f a s)))"
  by (auto simp: on_ok_def split: option.splits prod.splits)

lemmas on_ok_splits = on_ok_split on_ok_split_asm

lemma on_ok_SomeE:
  assumes "on_ok r f = (Some b, t)"
  obtains a s where "r = (Some a, s)" and "f a s = (Some b, t)"
  using assms by (auto split: on_ok_splits)

subsection \<open>Outcomes: results, undefined behaviour, exhausted fuel\<close>

text \<open>
  Functions that recurse through message descriptors or through code supplied by
  the user return an \<open>outcome\<close>: \<open>Ret\<close> is an ordinary return (of \<open>true\<close> or
  \<open>false\<close> with the state), \<open>Undefined\<close> marks a step that C leaves undefined (a
  shift by the width, an array index out of range, a call through a null
  pointer) and \<open>OutOfFuel\<close> marks exhausted fuel.
\<close>

datatype 'a outcome = Ret 'a | Undefined | OutOfFuel

definition on_ret :: "'a outcome \<Rightarrow> ('a \<Rightarrow> 'b outcome) \<Rightarrow> 'b outcome" where
  "on_ret r f = (case r of Ret a \<Rightarrow> f a | Undefined \<Rightarrow> Undefined | OutOfFuel \<Rightarrow> OutOfFuel)"

lemma on_ret_simps [simp]:
  "on_ret (Ret a) f = f a"
  "on_ret Undefined f = Undefined"
  "on_ret OutOfFuel f = OutOfFuel"
  by (simp_all add: on_ret_def)

lemma on_ret_cong [fundef_cong]:
  "r = r' \<Longrightarrow> (\<And>a. r' = Ret a \<Longrightarrow> f a = f' a) \<Longrightarrow> on_ret r f = on_ret r' f'"
  by (cases r') auto

lemma on_ret_RetE:
  assumes "on_ret r f = Ret b"
  obtains a where "r = Ret a" and "f a = Ret b"
  using assms by (cases r) auto

lemma on_ret_split:
  "P (on_ret r f) \<longleftrightarrow>
     (\<forall>a. r = Ret a \<longrightarrow> P (f a)) \<and> (r = Undefined \<longrightarrow> P Undefined) \<and> (r = OutOfFuel \<longrightarrow> P OutOfFuel)"
  by (cases r) auto

lemma on_ret_split_asm:
  "P (on_ret r f) \<longleftrightarrow>
     \<not> ((\<exists>a. r = Ret a \<and> \<not> P (f a)) \<or> (r = Undefined \<and> \<not> P Undefined) \<or> (r = OutOfFuel \<and> \<not> P OutOfFuel))"
  by (cases r) auto

lemmas on_ret_splits = on_ret_split on_ret_split_asm

subsection \<open>Little-endian byte sequences\<close>

fun to_le :: "nat \<Rightarrow> nat \<Rightarrow> byte list" where
  "to_le 0 v = []"
| "to_le (Suc n) v = word_of_nat v # to_le n (v div 256)"

fun of_le :: "byte list \<Rightarrow> nat" where
  "of_le [] = 0"
| "of_le (b # bs) = unat b + 256 * of_le bs"

lemma length_to_le [simp]: "length (to_le n v) = n"
  by (induction n v rule: to_le.induct) auto

lemma unat_byte_less [simp]: "unat (b :: byte) < 256"
  using unsigned_less [of b] by simp

lemma of_le_bound: "of_le bs < 256 ^ length bs"
proof (induction bs)
  case (Cons b bs)
  define P :: nat where "P = 256 ^ length bs"
  have "of_le bs + 1 \<le> P" using Cons by (simp add: P_def)
  then have "unat b + 256 * of_le bs < 256 * P" using unat_byte_less [of b] by linarith
  then show ?case by (simp add: P_def)
qed simp

lemma unat_byte_of_nat: "unat (word_of_nat v :: byte) = v mod 256"
  by (simp add: unat_of_nat)

lemma of_le_to_le: "of_le (to_le n v) = v mod 256 ^ n"
proof (induction n v rule: to_le.induct)
  case (2 n v)
  have "v mod (256 * 256 ^ n) = v mod 256 + 256 * (v div 256 mod 256 ^ n)"
    by (simp add: mod_mult2_eq)
  with 2 show ?case by (simp add: unat_byte_of_nat)
qed simp

lemma to_le_of_le: "to_le (length bs) (of_le bs) = bs"
proof (induction bs)
  case (Cons b bs)
  have b: "unat b < 256" by simp
  then have "(unat b + 256 * of_le bs) div 256 = of_le bs" by simp
  moreover have "(word_of_nat (unat b + 256 * of_le bs) :: byte) = b"
    by (simp only: word_unat_eq_iff unat_byte_of_nat) (simp add: b)
  ultimately show ?case using Cons by simp
qed simp

subsection \<open>The memory\<close>

text \<open>
  Message structures, submessages, \<open>pb_bytes_array_t\<close> buffers, callbacks and
  extension records are regions of one byte-addressed memory. Addresses are
  integers: pointer arithmetic of the code never wraps (it would be undefined),
  and \<open>size_offset\<close> may be negative. Address \<open>0\<close> is the null pointer.
\<close>

type_synonym addr = int
type_synonym heap = "addr \<Rightarrow> byte"

definition load_bytes :: "heap \<Rightarrow> addr \<Rightarrow> nat \<Rightarrow> byte list" where
  "load_bytes h a n = map (\<lambda>i. h (a + int i)) [0..<n]"

definition store_bytes :: "heap \<Rightarrow> addr \<Rightarrow> byte list \<Rightarrow> heap" where
  "store_bytes h a bs = (\<lambda>x. if a \<le> x \<and> x < a + int (length bs) then bs ! nat (x - a) else h x)"

definition load_nat :: "heap \<Rightarrow> addr \<Rightarrow> nat \<Rightarrow> nat" where
  "load_nat h a n = of_le (load_bytes h a n)"

definition store_nat :: "heap \<Rightarrow> addr \<Rightarrow> nat \<Rightarrow> nat \<Rightarrow> heap" where
  "store_nat h a n v = store_bytes h a (to_le n v)"

definition load_ptr :: "heap \<Rightarrow> addr \<Rightarrow> addr" where
  "load_ptr h a = int (load_nat h a 8)"

definition same_outside :: "heap \<Rightarrow> heap \<Rightarrow> addr \<Rightarrow> addr \<Rightarrow> bool" where
  "same_outside h h' lo hi \<longleftrightarrow> (\<forall>x. x < lo \<or> hi \<le> x \<longrightarrow> h' x = h x)"

lemma length_load_bytes [simp]: "length (load_bytes h a n) = n"
  by (simp add: load_bytes_def)

lemma load_bytes_0 [simp]: "load_bytes h a 0 = []"
  by (simp add: load_bytes_def)

lemma load_bytes_cong:
  "(\<And>x. a \<le> x \<Longrightarrow> x < a + int n \<Longrightarrow> h x = h' x) \<Longrightarrow> load_bytes h a n = load_bytes h' a n"
  by (auto simp: load_bytes_def)

lemma load_store_same [heap_simps]: "load_bytes (store_bytes h a bs) a (length bs) = bs"
  by (rule nth_equalityI) (auto simp: load_bytes_def store_bytes_def)

lemma load_store_other [heap_simps]:
  "b + int n \<le> a \<or> a + int (length bs) \<le> b \<Longrightarrow>
   load_bytes (store_bytes h a bs) b n = load_bytes h b n"
  by (rule load_bytes_cong) (auto simp: store_bytes_def)

lemma load_nat_store_nat [heap_simps]: "load_nat (store_nat h a n v) a n = v mod 256 ^ n"
  using load_store_same [of h a "to_le n v"] by (simp add: load_nat_def store_nat_def of_le_to_le)

lemma load_nat_bound: "load_nat h a n < 256 ^ n"
  using of_le_bound [of "load_bytes h a n"] by (simp add: load_nat_def)

lemma load_nat_cong:
  "(\<And>x. a \<le> x \<Longrightarrow> x < a + int n \<Longrightarrow> h x = h' x) \<Longrightarrow> load_nat h a n = load_nat h' a n"
  using load_bytes_cong [of a n h h'] by (simp add: load_nat_def)

lemma store_bytes_outside: "x < a \<or> a + int (length bs) \<le> x \<Longrightarrow> store_bytes h a bs x = h x"
  by (auto simp: store_bytes_def)

lemma same_outside_refl [simp, intro]: "same_outside h h lo hi"
  by (simp add: same_outside_def)

lemma same_outside_trans [trans]:
  "same_outside h h' lo hi \<Longrightarrow> same_outside h' h'' lo hi \<Longrightarrow> same_outside h h'' lo hi"
  by (simp add: same_outside_def)

lemma same_outside_mono:
  "same_outside h h' lo hi \<Longrightarrow> lo' \<le> lo \<Longrightarrow> hi \<le> hi' \<Longrightarrow> same_outside h h' lo' hi'"
  by (auto simp: same_outside_def)

lemma same_outside_store [intro]:
  "lo \<le> a \<Longrightarrow> a + int (length bs) \<le> hi \<Longrightarrow> same_outside h (store_bytes h a bs) lo hi"
  by (auto simp: same_outside_def store_bytes_def)

lemma same_outside_store_nat [intro]:
  "lo \<le> a \<Longrightarrow> a + int n \<le> hi \<Longrightarrow> same_outside h (store_nat h a n v) lo hi"
  by (auto simp: store_nat_def)

lemma same_outside_load:
  "same_outside h h' lo hi \<Longrightarrow> a + int n \<le> lo \<or> hi \<le> a \<Longrightarrow> load_bytes h' a n = load_bytes h a n"
  by (rule load_bytes_cong) (auto simp: same_outside_def)

end
