(* ===== verification/PB_Types.thy ===== *)
theory PB_Types
  imports PB_Prelude
begin

text \<open>
  The shared types of nanopb (\<open>pb.h\<close>, and the stream structures of
  \<open>pb_decode.h\<close> and \<open>pb_encode.h\<close>), for the configuration this repository builds
  (\<open>nanopb.xcconfig\<close>: \<open>PB_FIELD_32BIT=1\<close>, \<open>PB_NO_PACKED_STRUCTS=1\<close>, no
  \<open>PB_ENABLE_MALLOC\<close>, \<open>PB_BUFFER_ONLY\<close> or \<open>PB_NO_ERRMSG\<close>) on a 64-bit
  little-endian target: \<open>pb_size_t\<close> is \<open>uint32_t\<close>, \<open>size_t\<close> and pointers have 8
  bytes.
\<close>

subsection \<open>Field types\<close>

text \<open>Low four bits: data type; bits 4 and 5: repetition rule; bits 6 and 7: allocation.\<close>

abbreviation (input) PB_LTYPE_VARINT :: byte where "PB_LTYPE_VARINT \<equiv> 0x00"
abbreviation (input) PB_LTYPE_UVARINT :: byte where "PB_LTYPE_UVARINT \<equiv> 0x01"
abbreviation (input) PB_LTYPE_SVARINT :: byte where "PB_LTYPE_SVARINT \<equiv> 0x02"
abbreviation (input) PB_LTYPE_FIXED32 :: byte where "PB_LTYPE_FIXED32 \<equiv> 0x03"
abbreviation (input) PB_LTYPE_FIXED64 :: byte where "PB_LTYPE_FIXED64 \<equiv> 0x04"
abbreviation (input) PB_LTYPE_LAST_PACKABLE :: byte where "PB_LTYPE_LAST_PACKABLE \<equiv> 0x04"
abbreviation (input) PB_LTYPE_BYTES :: byte where "PB_LTYPE_BYTES \<equiv> 0x05"
abbreviation (input) PB_LTYPE_STRING :: byte where "PB_LTYPE_STRING \<equiv> 0x06"
abbreviation (input) PB_LTYPE_SUBMESSAGE :: byte where "PB_LTYPE_SUBMESSAGE \<equiv> 0x07"
abbreviation (input) PB_LTYPE_EXTENSION :: byte where "PB_LTYPE_EXTENSION \<equiv> 0x08"
abbreviation (input) PB_LTYPE_FIXED_LENGTH_BYTES :: byte where "PB_LTYPE_FIXED_LENGTH_BYTES \<equiv> 0x09"
abbreviation (input) PB_LTYPE_MASK :: byte where "PB_LTYPE_MASK \<equiv> 0x0F"

abbreviation (input) PB_HTYPE_REQUIRED :: byte where "PB_HTYPE_REQUIRED \<equiv> 0x00"
abbreviation (input) PB_HTYPE_OPTIONAL :: byte where "PB_HTYPE_OPTIONAL \<equiv> 0x10"
abbreviation (input) PB_HTYPE_REPEATED :: byte where "PB_HTYPE_REPEATED \<equiv> 0x20"
abbreviation (input) PB_HTYPE_ONEOF :: byte where "PB_HTYPE_ONEOF \<equiv> 0x30"
abbreviation (input) PB_HTYPE_MASK :: byte where "PB_HTYPE_MASK \<equiv> 0x30"

abbreviation (input) PB_ATYPE_STATIC :: byte where "PB_ATYPE_STATIC \<equiv> 0x00"
abbreviation (input) PB_ATYPE_POINTER :: byte where "PB_ATYPE_POINTER \<equiv> 0x80"
abbreviation (input) PB_ATYPE_CALLBACK :: byte where "PB_ATYPE_CALLBACK \<equiv> 0x40"
abbreviation (input) PB_ATYPE_MASK :: byte where "PB_ATYPE_MASK \<equiv> 0xC0"

definition PB_ATYPE :: "byte \<Rightarrow> byte" where "PB_ATYPE x = x AND PB_ATYPE_MASK"
definition PB_HTYPE :: "byte \<Rightarrow> byte" where "PB_HTYPE x = x AND PB_HTYPE_MASK"
definition PB_LTYPE :: "byte \<Rightarrow> byte" where "PB_LTYPE x = x AND PB_LTYPE_MASK"

abbreviation (input) PB_SIZE_MAX :: u32 where "PB_SIZE_MAX \<equiv> 0xFFFFFFFF"

subsection \<open>Field descriptors\<close>

text \<open>
  \<open>pb_field_t\<close>. The untyped \<open>ptr\<close> is null, the descriptor array of a submessage, or
  the bytes of a default value. Descriptor arrays are constants of the generated
  code; they are modelled by value, so a descriptor is a finite tree. The
  terminating \<open>PB_LAST_FIELD\<close> is implicit at the end of every list
  (\<open>field_at\<close>), and an entry with tag 0 inside a list terminates it as well.
\<close>

datatype pb_field =
    PbField (f_tag: u32) (f_type: byte) (f_data_offset: u32) (f_size_offset: "32 word")
      (f_data_size: u32) (f_array_size: u32) (f_ptr: field_ptr)
and field_ptr = NullPtr | SubmsgFields "pb_field list" | DefaultValue "byte list"

definition PB_LAST_FIELD :: pb_field where
  "PB_LAST_FIELD = PbField 0 0 0 0 0 0 NullPtr"

definition field_at :: "pb_field list \<Rightarrow> nat \<Rightarrow> pb_field" where
  "field_at flds i = (if i < length flds then flds ! i else PB_LAST_FIELD)"

text \<open>The array a submessage field points to; none for the other uses of \<open>ptr\<close>.\<close>

fun submsg_fields :: "field_ptr \<Rightarrow> pb_field list" where
  "submsg_fields (SubmsgFields fs) = fs"
| "submsg_fields _ = []"

lemma PB_LAST_FIELD_sel [simp]:
  "f_tag PB_LAST_FIELD = 0" "f_type PB_LAST_FIELD = 0" "f_data_offset PB_LAST_FIELD = 0"
  "f_size_offset PB_LAST_FIELD = 0" "f_data_size PB_LAST_FIELD = 0"
  "f_array_size PB_LAST_FIELD = 0" "f_ptr PB_LAST_FIELD = NullPtr"
  by (simp_all add: PB_LAST_FIELD_def)

lemma PB_TYPE_0 [simp]: "PB_ATYPE 0 = 0" "PB_HTYPE 0 = 0" "PB_LTYPE 0 = 0"
  by (simp_all add: PB_ATYPE_def PB_HTYPE_def PB_LTYPE_def)

lemma field_at_in: "i < length fields \<Longrightarrow> field_at fields i \<in> set fields"
  by (simp add: field_at_def)

lemma field_at_beyond [simp]: "length fields \<le> i \<Longrightarrow> field_at fields i = PB_LAST_FIELD"
  by (simp add: field_at_def)

lemma size_submsg_fields [termination_simp]:
  "g \<in> set (submsg_fields (f_ptr f)) \<Longrightarrow> size g < size f"
proof (cases f)
  case (PbField t ty d s z a p)
  assume g: "g \<in> set (submsg_fields (f_ptr f))"
  with PbField obtain fs where p: "p = SubmsgFields fs" and "g \<in> set fs"
    by (cases p) auto
  then have "size g \<le> size_list size fs" by (intro size_list_estimation') auto
  with PbField p show ?thesis by simp
qed

subsection \<open>Descriptor macros\<close>

text \<open>
  The macros of \<open>pb.h\<close> that build descriptors. What the compiler knows of the
  structure (\<open>offsetof\<close>, \<open>sizeof\<close>) is passed in: \<open>fd\<close> is the data offset,
  \<open>delta\<close> the \<open>pb_delta\<close> to the size, has or which field, \<open>msize\<close> the member size.
\<close>

definition PB_DATAOFFSET_FIRST :: "int \<Rightarrow> u32" where
  "PB_DATAOFFSET_FIRST off = word_of_int off"
definition PB_DATAOFFSET_OTHER :: "int \<Rightarrow> int \<Rightarrow> int \<Rightarrow> u32" where
  "PB_DATAOFFSET_OTHER off prev_off prev_size = word_of_int (off - prev_off - prev_size)"
definition PB_DATAOFFSET_UNION :: u32 where
  "PB_DATAOFFSET_UNION = PB_SIZE_MAX"

definition PB_REQUIRED_STATIC :: "u32 \<Rightarrow> u32 \<Rightarrow> u32 \<Rightarrow> byte \<Rightarrow> field_ptr \<Rightarrow> pb_field" where
  "PB_REQUIRED_STATIC tag fd msize ltype ptr =
     PbField tag (PB_ATYPE_STATIC OR PB_HTYPE_REQUIRED OR ltype) fd 0 msize 0 ptr"
definition PB_OPTIONAL_STATIC :: "u32 \<Rightarrow> u32 \<Rightarrow> int \<Rightarrow> u32 \<Rightarrow> byte \<Rightarrow> field_ptr \<Rightarrow> pb_field" where
  "PB_OPTIONAL_STATIC tag fd delta msize ltype ptr =
     PbField tag (PB_ATYPE_STATIC OR PB_HTYPE_OPTIONAL OR ltype) fd (word_of_int delta) msize 0 ptr"
definition PB_SINGULAR_STATIC :: "u32 \<Rightarrow> u32 \<Rightarrow> u32 \<Rightarrow> byte \<Rightarrow> field_ptr \<Rightarrow> pb_field" where
  "PB_SINGULAR_STATIC tag fd msize ltype ptr =
     PbField tag (PB_ATYPE_STATIC OR PB_HTYPE_OPTIONAL OR ltype) fd 0 msize 0 ptr"
definition PB_REPEATED_STATIC ::
  "u32 \<Rightarrow> u32 \<Rightarrow> int \<Rightarrow> u32 \<Rightarrow> u32 \<Rightarrow> byte \<Rightarrow> field_ptr \<Rightarrow> pb_field" where
  "PB_REPEATED_STATIC tag fd delta msize asize ltype ptr =
     PbField tag (PB_ATYPE_STATIC OR PB_HTYPE_REPEATED OR ltype) fd (word_of_int delta) msize asize ptr"
definition PB_REQUIRED_POINTER :: "u32 \<Rightarrow> u32 \<Rightarrow> u32 \<Rightarrow> byte \<Rightarrow> field_ptr \<Rightarrow> pb_field" where
  "PB_REQUIRED_POINTER tag fd msize ltype ptr =
     PbField tag (PB_ATYPE_POINTER OR PB_HTYPE_REQUIRED OR ltype) fd 0 msize 0 ptr"
definition PB_OPTIONAL_POINTER :: "u32 \<Rightarrow> u32 \<Rightarrow> u32 \<Rightarrow> byte \<Rightarrow> field_ptr \<Rightarrow> pb_field" where
  "PB_OPTIONAL_POINTER tag fd msize ltype ptr =
     PbField tag (PB_ATYPE_POINTER OR PB_HTYPE_OPTIONAL OR ltype) fd 0 msize 0 ptr"
definition PB_SINGULAR_POINTER :: "u32 \<Rightarrow> u32 \<Rightarrow> u32 \<Rightarrow> byte \<Rightarrow> field_ptr \<Rightarrow> pb_field" where
  "PB_SINGULAR_POINTER tag fd msize ltype ptr =
     PbField tag (PB_ATYPE_POINTER OR PB_HTYPE_OPTIONAL OR ltype) fd 0 msize 0 ptr"
definition PB_REPEATED_POINTER ::
  "u32 \<Rightarrow> u32 \<Rightarrow> int \<Rightarrow> u32 \<Rightarrow> byte \<Rightarrow> field_ptr \<Rightarrow> pb_field" where
  "PB_REPEATED_POINTER tag fd delta msize ltype ptr =
     PbField tag (PB_ATYPE_POINTER OR PB_HTYPE_REPEATED OR ltype) fd (word_of_int delta) msize 0 ptr"
definition PB_REQUIRED_CALLBACK :: "u32 \<Rightarrow> u32 \<Rightarrow> u32 \<Rightarrow> byte \<Rightarrow> field_ptr \<Rightarrow> pb_field" where
  "PB_REQUIRED_CALLBACK tag fd msize ltype ptr =
     PbField tag (PB_ATYPE_CALLBACK OR PB_HTYPE_REQUIRED OR ltype) fd 0 msize 0 ptr"
definition PB_OPTIONAL_CALLBACK :: "u32 \<Rightarrow> u32 \<Rightarrow> u32 \<Rightarrow> byte \<Rightarrow> field_ptr \<Rightarrow> pb_field" where
  "PB_OPTIONAL_CALLBACK tag fd msize ltype ptr =
     PbField tag (PB_ATYPE_CALLBACK OR PB_HTYPE_OPTIONAL OR ltype) fd 0 msize 0 ptr"
definition PB_SINGULAR_CALLBACK :: "u32 \<Rightarrow> u32 \<Rightarrow> u32 \<Rightarrow> byte \<Rightarrow> field_ptr \<Rightarrow> pb_field" where
  "PB_SINGULAR_CALLBACK tag fd msize ltype ptr =
     PbField tag (PB_ATYPE_CALLBACK OR PB_HTYPE_OPTIONAL OR ltype) fd 0 msize 0 ptr"
definition PB_REPEATED_CALLBACK :: "u32 \<Rightarrow> u32 \<Rightarrow> u32 \<Rightarrow> byte \<Rightarrow> field_ptr \<Rightarrow> pb_field" where
  "PB_REPEATED_CALLBACK tag fd msize ltype ptr =
     PbField tag (PB_ATYPE_CALLBACK OR PB_HTYPE_REPEATED OR ltype) fd 0 msize 0 ptr"
definition PB_OPTEXT_STATIC :: "u32 \<Rightarrow> u32 \<Rightarrow> byte \<Rightarrow> field_ptr \<Rightarrow> pb_field" where
  "PB_OPTEXT_STATIC tag msize ltype ptr =
     PbField tag (PB_ATYPE_STATIC OR PB_HTYPE_REQUIRED OR ltype) 0 0 msize 0 ptr"
definition PB_ONEOF_STATIC :: "u32 \<Rightarrow> u32 \<Rightarrow> int \<Rightarrow> u32 \<Rightarrow> byte \<Rightarrow> field_ptr \<Rightarrow> pb_field" where
  "PB_ONEOF_STATIC tag fd delta msize ltype ptr =
     PbField tag (PB_ATYPE_STATIC OR PB_HTYPE_ONEOF OR ltype) fd (word_of_int delta) msize 0 ptr"
definition PB_ONEOF_POINTER :: "u32 \<Rightarrow> u32 \<Rightarrow> int \<Rightarrow> u32 \<Rightarrow> byte \<Rightarrow> field_ptr \<Rightarrow> pb_field" where
  "PB_ONEOF_POINTER tag fd delta msize ltype ptr =
     PbField tag (PB_ATYPE_POINTER OR PB_HTYPE_ONEOF OR ltype) fd (word_of_int delta) msize 0 ptr"

lemmas descriptor_macros =
  PB_DATAOFFSET_FIRST_def PB_DATAOFFSET_OTHER_def PB_DATAOFFSET_UNION_def
  PB_REQUIRED_STATIC_def PB_OPTIONAL_STATIC_def PB_SINGULAR_STATIC_def PB_REPEATED_STATIC_def
  PB_REQUIRED_POINTER_def PB_OPTIONAL_POINTER_def PB_SINGULAR_POINTER_def
  PB_REPEATED_POINTER_def PB_REQUIRED_CALLBACK_def PB_OPTIONAL_CALLBACK_def
  PB_SINGULAR_CALLBACK_def PB_REPEATED_CALLBACK_def PB_OPTEXT_STATIC_def
  PB_ONEOF_STATIC_def PB_ONEOF_POINTER_def

lemmas pb_type_defs = PB_ATYPE_def PB_HTYPE_def PB_LTYPE_def

subsection \<open>Wire types\<close>

type_synonym pb_wire_type = nat

abbreviation (input) PB_WT_VARINT :: pb_wire_type where "PB_WT_VARINT \<equiv> 0"
abbreviation (input) PB_WT_64BIT :: pb_wire_type where "PB_WT_64BIT \<equiv> 1"
abbreviation (input) PB_WT_STRING :: pb_wire_type where "PB_WT_STRING \<equiv> 2"
abbreviation (input) PB_WT_32BIT :: pb_wire_type where "PB_WT_32BIT \<equiv> 5"

subsection \<open>Structure layouts\<close>

text \<open>
  Offsets of the library's own structures in memory: \<open>pb_bytes_array_t\<close> (size,
  bytes), \<open>pb_callback_t\<close> (function pointer, argument) and \<open>pb_extension_t\<close> (type,
  dest, next, found).
\<close>

definition bytes_off :: nat where "bytes_off = 4"
definition PB_BYTES_ARRAY_T_ALLOCSIZE :: "nat \<Rightarrow> nat" where
  "PB_BYTES_ARRAY_T_ALLOCSIZE n = n + bytes_off"

definition callback_arg_off :: int where "callback_arg_off = 8"
definition ext_dest_off :: int where "ext_dest_off = 8"
definition ext_next_off :: int where "ext_next_off = 16"
definition ext_found_off :: int where "ext_found_off = 24"

subsection \<open>Streams\<close>

text \<open>
  \<open>callback\<close> and \<open>state\<close> of a stream always belong together, so they are one value.
  An input stream reads a memory buffer (\<open>BufRead\<close>: the bytes from the current
  position to the end of the buffer) or calls a user function on the user's state
  (\<open>UserRead\<close>; it gets the count and returns success, the bytes and its new
  state). An output stream is a sizing stream (\<open>callback == NULL\<close>), writes to a
  buffer (\<open>BufWrite\<close>: the bytes written so far) or calls a user function.
\<close>

datatype 's isource =
    BufRead "byte list"
  | UserRead "'s \<Rightarrow> nat \<Rightarrow> bool \<times> byte list \<times> 's" 's

datatype 's osink =
    NullSink
  | BufWrite "byte list"
  | UserWrite "'s \<Rightarrow> byte list \<Rightarrow> bool \<times> 's" 's

record 's pb_istream =
  i_source :: "'s isource"
  bytes_left :: nat
  i_errmsg :: "string option"

record 's pb_ostream =
  o_sink :: "'s osink"
  max_size :: nat
  bytes_written :: nat
  o_errmsg :: "string option"

text \<open>\<open>PB_SET_ERROR\<close> keeps the first message; \<open>PB_GET_ERROR\<close> reads it.\<close>

definition set_ierror :: "string \<Rightarrow> 's pb_istream \<Rightarrow> 's pb_istream" where
  "set_ierror msg s =
     s\<lparr>i_errmsg := (case i_errmsg s of Some m \<Rightarrow> Some m | None \<Rightarrow> Some msg)\<rparr>"

definition set_oerror :: "string \<Rightarrow> 's pb_ostream \<Rightarrow> 's pb_ostream" where
  "set_oerror msg s =
     s\<lparr>o_errmsg := (case o_errmsg s of Some m \<Rightarrow> Some m | None \<Rightarrow> Some msg)\<rparr>"

definition get_ierror :: "'s pb_istream \<Rightarrow> string" where
  "get_ierror s = (case i_errmsg s of Some m \<Rightarrow> m | None \<Rightarrow> ''(none)'')"

lemma set_ierror_simps [simp]:
  "bytes_left (set_ierror m s) = bytes_left s"
  "i_source (set_ierror m s) = i_source s"
  by (simp_all add: set_ierror_def)

lemma set_oerror_simps [simp]:
  "o_sink (set_oerror m s) = o_sink s"
  "max_size (set_oerror m s) = max_size s"
  "bytes_written (set_oerror m s) = bytes_written s"
  by (simp_all add: set_oerror_def)

lemma set_ierror_keeps_first: "set_ierror m (set_ierror m' s) = set_ierror m' s"
  by (simp add: set_ierror_def split: option.splits)

subsection \<open>Code outside the library\<close>

text \<open>
  User code reached through pointers is a parameter of the model: what the
  function at a callback address does, and what the extension type at an address
  holds. Field callbacks get the stream, the field and the address of their
  argument; a decoding callback may change the memory, an encoding callback reads
  it.
\<close>

type_synonym 's decode_cb =
  "'s pb_istream \<Rightarrow> pb_field \<Rightarrow> addr \<Rightarrow> heap \<Rightarrow> bool \<times> 's pb_istream \<times> heap"
type_synonym 's encode_cb =
  "'s pb_ostream \<Rightarrow> pb_field \<Rightarrow> addr \<Rightarrow> heap \<Rightarrow> bool \<times> 's pb_ostream"

record 's pb_extension_type =
  ext_decode :: "('s pb_istream \<Rightarrow> addr \<Rightarrow> u32 \<Rightarrow> pb_wire_type \<Rightarrow> heap
                    \<Rightarrow> bool \<times> 's pb_istream \<times> heap) option"
  ext_encode :: "('s pb_ostream \<Rightarrow> addr \<Rightarrow> heap \<Rightarrow> bool \<times> 's pb_ostream) option"
  ext_arg :: pb_field

record 's pb_env =
  decode_func :: "addr \<Rightarrow> 's decode_cb"
  encode_func :: "addr \<Rightarrow> 's encode_cb"
  ext_type_at :: "addr \<Rightarrow> 's pb_extension_type"

end
