(* ===== verification/PB_Iter.thy ===== *)
theory PB_Iter
  imports PB_Types
begin

text \<open>
  The field iterator of \<open>pb_common.c\<close>: it walks a descriptor array and computes the
  address of every field from the offsets relative to the previous one. The
  lemmas give the closed form of those addresses, that iteration visits every
  field once and in order before it wraps, and that \<open>pb_field_iter_find\<close> finds a
  tag from any position if and only if a field carries it.
\<close>

subsection \<open>The code\<close>

record pb_field_iter =
  start :: "pb_field list"
  pos :: nat
  required_field_index :: nat
  dest_struct :: addr
  pData :: addr
  pSize :: addr

definition cur :: "pb_field_iter \<Rightarrow> pb_field" where
  "cur it = field_at (start it) (pos it)"

definition pb_field_iter_begin :: "pb_field list \<Rightarrow> addr \<Rightarrow> bool \<times> pb_field_iter" where
  "pb_field_iter_begin flds dest =
     (let f = field_at flds 0;
          p = dest + uint (f_data_offset f)
      in (f_tag f \<noteq> 0,
          \<lparr>start = flds, pos = 0, required_field_index = 0, dest_struct = dest,
           pData = p, pSize = p + sint (f_size_offset f)\<rparr>))"

definition pb_field_iter_next :: "pb_field_iter \<Rightarrow> bool \<times> pb_field_iter" where
  "pb_field_iter_next it =
     (let prev_field = cur it in
      if f_tag prev_field = 0 then (False, it)
      else
        let it1 = it\<lparr>pos := Suc (pos it)\<rparr>; f = cur it1 in
        if f_tag f = 0
        then (False, snd (pb_field_iter_begin (start it) (dest_struct it)))
        else if PB_HTYPE (f_type prev_field) = PB_HTYPE_ONEOF
              \<and> PB_HTYPE (f_type f) = PB_HTYPE_ONEOF
              \<and> f_data_offset f = PB_SIZE_MAX
        then (True, it1)
        else
          let prev_size =
                (if PB_ATYPE (f_type prev_field) = PB_ATYPE_STATIC
                  \<and> PB_HTYPE (f_type prev_field) = PB_HTYPE_REPEATED
                 then uint (f_data_size prev_field) * uint (f_array_size prev_field)
                 else if PB_ATYPE (f_type prev_field) = PB_ATYPE_POINTER then 8
                 else uint (f_data_size prev_field));
              req = (if PB_HTYPE (f_type prev_field) = PB_HTYPE_REQUIRED
                     then Suc (required_field_index it) else required_field_index it);
              p = pData it + prev_size + uint (f_data_offset f)
          in (True, it1\<lparr>required_field_index := req, pData := p,
                        pSize := p + sint (f_size_offset f)\<rparr>))"

text \<open>
  The \<open>do ... while (iter->pos != start)\<close> loops of \<open>pb_field_iter_find\<close> and
  \<open>find_extension_field\<close>. \<open>n\<close> bounds the rounds; the number of fields is enough
  (\<open>find_loop_enough\<close>), since the iterator comes back to its start after that many.
\<close>

fun find_loop :: "(pb_field \<Rightarrow> bool) \<Rightarrow> nat \<Rightarrow> nat \<Rightarrow> pb_field_iter \<Rightarrow> bool \<times> pb_field_iter" where
  "find_loop P 0 st it = (False, it)"
| "find_loop P (Suc n) st it =
     (if P (cur it) then (True, it)
      else let it' = snd (pb_field_iter_next it)
           in if pos it' = st then (False, it') else find_loop P n st it')"

definition pb_field_iter_find :: "pb_field_iter \<Rightarrow> u32 \<Rightarrow> bool \<times> pb_field_iter" where
  "pb_field_iter_find it tag =
     find_loop (\<lambda>f. f_tag f = tag \<and> PB_LTYPE (f_type f) \<noteq> PB_LTYPE_EXTENSION)
       (Suc (length (start it))) (pos it) it"

definition find_extension_field :: "pb_field_iter \<Rightarrow> bool \<times> pb_field_iter" where
  "find_extension_field it =
     find_loop (\<lambda>f. PB_LTYPE (f_type f) = PB_LTYPE_EXTENSION)
       (Suc (length (start it))) (pos it) it"

text \<open>
  The iterators a \<open>do ... while (pb_field_iter_next(&iter))\<close> loop visits, the
  current one first, and those of a whole message (none for an empty one). The
  loop bodies of the library never change the iterator.
\<close>

fun iter_rest :: "nat \<Rightarrow> pb_field_iter \<Rightarrow> pb_field_iter list" where
  "iter_rest 0 it = []"
| "iter_rest (Suc n) it =
     it # (case pb_field_iter_next it of (True, it') \<Rightarrow> iter_rest n it' | (False, it') \<Rightarrow> [])"

definition iter_fields :: "pb_field list \<Rightarrow> addr \<Rightarrow> pb_field_iter list" where
  "iter_fields flds dest =
     (case pb_field_iter_begin flds dest of
        (True, it) \<Rightarrow> iter_rest (length flds) it
      | (False, it) \<Rightarrow> [])"

subsection \<open>The addresses in closed form\<close>

text \<open>
  \<open>n_fields\<close> counts the fields before the terminator, \<open>field_extent\<close> is the room
  a field takes in the structure, \<open>same_union\<close> holds when field \<open>i\<close> shares the
  storage of field \<open>i - 1\<close>.
\<close>

definition n_fields :: "pb_field list \<Rightarrow> nat" where
  "n_fields flds = length (takeWhile (\<lambda>f. f_tag f \<noteq> 0) flds)"

definition field_extent :: "pb_field \<Rightarrow> int" where
  "field_extent f =
     (if PB_ATYPE (f_type f) = PB_ATYPE_STATIC \<and> PB_HTYPE (f_type f) = PB_HTYPE_REPEATED
      then uint (f_data_size f) * uint (f_array_size f)
      else if PB_ATYPE (f_type f) = PB_ATYPE_POINTER then 8
      else uint (f_data_size f))"

definition same_union :: "pb_field \<Rightarrow> pb_field \<Rightarrow> bool" where
  "same_union g f \<longleftrightarrow> PB_HTYPE (f_type g) = PB_HTYPE_ONEOF
     \<and> PB_HTYPE (f_type f) = PB_HTYPE_ONEOF \<and> f_data_offset f = PB_SIZE_MAX"

fun data_pos :: "pb_field list \<Rightarrow> nat \<Rightarrow> int" where
  "data_pos flds 0 = uint (f_data_offset (field_at flds 0))"
| "data_pos flds (Suc i) =
     (let g = field_at flds i; f = field_at flds (Suc i) in
      if same_union g f then data_pos flds i
      else data_pos flds i + field_extent g + uint (f_data_offset f))"

fun size_pos :: "pb_field list \<Rightarrow> nat \<Rightarrow> int" where
  "size_pos flds 0 = data_pos flds 0 + sint (f_size_offset (field_at flds 0))"
| "size_pos flds (Suc i) =
     (let g = field_at flds i; f = field_at flds (Suc i) in
      if same_union g f then size_pos flds i
      else data_pos flds (Suc i) + sint (f_size_offset f))"

fun required_before :: "pb_field list \<Rightarrow> nat \<Rightarrow> nat" where
  "required_before flds 0 = 0"
| "required_before flds (Suc i) =
     (if PB_HTYPE (f_type (field_at flds i)) = PB_HTYPE_REQUIRED
      then Suc (required_before flds i) else required_before flds i)"

definition iter_at :: "pb_field list \<Rightarrow> addr \<Rightarrow> nat \<Rightarrow> pb_field_iter" where
  "iter_at flds dest i =
     \<lparr>start = flds, pos = i, required_field_index = required_before flds i,
      dest_struct = dest, pData = dest + data_pos flds i, pSize = dest + size_pos flds i\<rparr>"

lemma iter_at_simps [simp]:
  "start (iter_at flds dest i) = flds" "pos (iter_at flds dest i) = i"
  "dest_struct (iter_at flds dest i) = dest"
  "pData (iter_at flds dest i) = dest + data_pos flds i"
  "pSize (iter_at flds dest i) = dest + size_pos flds i"
  "required_field_index (iter_at flds dest i) = required_before flds i"
  "cur (iter_at flds dest i) = field_at flds i"
  by (simp_all add: iter_at_def cur_def)

lemma n_fields_le: "n_fields flds \<le> length flds"
  by (simp add: n_fields_def length_takeWhile_le)

lemma tag_before_n_fields: "i < n_fields flds \<Longrightarrow> f_tag (field_at flds i) \<noteq> 0"
proof -
  assume i: "i < n_fields flds"
  then have "takeWhile (\<lambda>f. f_tag f \<noteq> 0) flds ! i = flds ! i"
    by (simp add: n_fields_def takeWhile_nth)
  with i have "f_tag (flds ! i) \<noteq> 0"
    using nth_mem [of i "takeWhile (\<lambda>f. f_tag f \<noteq> 0) flds"]
    by (auto simp: n_fields_def dest: set_takeWhileD)
  with i n_fields_le [of flds] show ?thesis by (simp add: field_at_def)
qed

lemma tag_at_n_fields: "f_tag (field_at flds (n_fields flds)) = 0"
  using nth_length_takeWhile [of "\<lambda>f. f_tag f \<noteq> 0" flds]
  by (auto simp: n_fields_def field_at_def)

lemma tag_iff_n_fields:
  "i \<le> n_fields flds \<Longrightarrow> f_tag (field_at flds i) = 0 \<longleftrightarrow> i = n_fields flds"
  using tag_before_n_fields [of i flds] tag_at_n_fields [of flds] by force

lemma iter_begin:
  "pb_field_iter_begin flds dest = (n_fields flds \<noteq> 0, iter_at flds dest 0)"
  using tag_iff_n_fields [of 0 flds]
  by (auto simp: pb_field_iter_begin_def iter_at_def Let_def)

lemma iter_next_eq:
  "pb_field_iter_next it =
     (let f = field_at (start it) (Suc (pos it)) in
      if f_tag (cur it) = 0 then (False, it)
      else if f_tag f = 0 then (False, snd (pb_field_iter_begin (start it) (dest_struct it)))
      else if same_union (cur it) f then (True, it\<lparr>pos := Suc (pos it)\<rparr>)
      else (True, it\<lparr>pos := Suc (pos it),
        required_field_index := (if PB_HTYPE (f_type (cur it)) = PB_HTYPE_REQUIRED
          then Suc (required_field_index it) else required_field_index it),
        pData := pData it + field_extent (cur it) + uint (f_data_offset f),
        pSize := pData it + field_extent (cur it) + uint (f_data_offset f)
                   + sint (f_size_offset f)\<rparr>))"
  by (simp add: pb_field_iter_next_def same_union_def field_extent_def cur_def Let_def)

lemma same_union_required:
  "same_union g f \<Longrightarrow> PB_HTYPE (f_type g) \<noteq> PB_HTYPE_REQUIRED"
  by (simp add: same_union_def)

lemma iter_next:
  assumes "i < n_fields flds"
  shows "pb_field_iter_next (iter_at flds dest i) =
    (if Suc i < n_fields flds then (True, iter_at flds dest (Suc i))
     else (False, iter_at flds dest 0))"
proof -
  have t: "f_tag (field_at flds i) \<noteq> 0"
    using assms by (rule tag_before_n_fields)
  have s: "f_tag (field_at flds (Suc i)) = 0 \<longleftrightarrow> \<not> Suc i < n_fields flds"
    using assms tag_iff_n_fields [of "Suc i" flds] by auto
  from t s show ?thesis
    by (simp add: iter_next_eq iter_begin same_union_required Let_def)
qed

lemma iter_next_empty:
  "n_fields flds = 0 \<Longrightarrow> pb_field_iter_next (iter_at flds dest 0) = (False, iter_at flds dest 0)"
  using tag_at_n_fields [of flds] by (simp add: pb_field_iter_next_def Let_def)

subsection \<open>Iteration visits every field once, in order\<close>

lemma iter_rest_at:
  "i < n_fields flds \<Longrightarrow> n_fields flds - i \<le> n \<Longrightarrow>
   iter_rest n (iter_at flds dest i) = map (iter_at flds dest) [i..<n_fields flds]"
proof (induction n arbitrary: i)
  case 0
  then show ?case by simp
next
  case (Suc n)
  show ?case
  proof (cases "Suc i < n_fields flds")
    case True
    with Suc show ?thesis by (simp add: iter_next upt_rec [of i])
  next
    case False
    with Suc.prems have "[i..<n_fields flds] = [i]" by (simp add: upt_rec [of i])
    with False Suc.prems show ?thesis by (simp add: iter_next)
  qed
qed

lemma iter_fields_eq: "iter_fields flds dest = map (iter_at flds dest) [0..<n_fields flds]"
  using n_fields_le [of flds]
  by (simp add: iter_fields_def iter_begin iter_rest_at split: bool.split)

subsection \<open>Searching\<close>

text \<open>The positions a search from \<open>i\<close> that stops at \<open>st\<close> looks at.\<close>

definition visited :: "nat \<Rightarrow> nat \<Rightarrow> nat \<Rightarrow> nat list" where
  "visited N st i = (if i < st then [i..<st] else [i..<N] @ [0..<st])"

lemma visited_step:
  assumes "i < N" "st < N"
  shows "visited N st i =
    i # (let j = (if Suc i < N then Suc i else 0) in if j = st then [] else visited N st j)"
  using assms by (auto simp: visited_def Let_def upt_rec [of i])

lemma length_visited: "i < N \<Longrightarrow> st < N \<Longrightarrow> length (visited N st i) \<le> N"
  by (auto simp: visited_def)

lemma set_visited: "st < N \<Longrightarrow> set (visited N st st) = {..<N}"
  by (auto simp: visited_def)

lemma find_loop_visited:
  assumes "i < n_fields flds" "st < n_fields flds"
    and "length (visited (n_fields flds) st i) \<le> n"
  shows "find_loop P n st (iter_at flds dest i) =
    (case List.find (\<lambda>j. P (field_at flds j)) (visited (n_fields flds) st i) of
       Some j \<Rightarrow> (True, iter_at flds dest j) | None \<Rightarrow> (False, iter_at flds dest st))"
  using assms
proof (induction n arbitrary: i)
  case 0
  then show ?case by (simp add: visited_step)
next
  case (Suc n)
  define j where "j = (if Suc i < n_fields flds then Suc i else 0)"
  have j: "j < n_fields flds" using Suc.prems by (auto simp: j_def)
  have nx: "snd (pb_field_iter_next (iter_at flds dest i)) = iter_at flds dest j"
    using Suc.prems by (simp add: iter_next j_def)
  have v: "visited (n_fields flds) st i =
      i # (if j = st then [] else visited (n_fields flds) st j)"
    using Suc.prems visited_step [of i "n_fields flds" st] by (simp add: j_def)
  from Suc.prems(3) v have "j \<noteq> st \<Longrightarrow> length (visited (n_fields flds) st j) \<le> n" by simp
  with Suc.IH [OF j Suc.prems(2)] show ?case by (simp add: nx v)
qed

lemma find_loop_empty:
  "n_fields flds = 0 \<Longrightarrow> find_loop P (Suc n) 0 (iter_at flds dest 0) =
     (P (field_at flds 0), iter_at flds dest 0)"
  by (simp add: iter_next_empty)

lemma find_SomeD: "List.find P xs = Some x \<Longrightarrow> x \<in> set xs \<and> P x"
  by (auto simp: find_Some_iff)

lemma find_loop_enough:
  assumes "i < n_fields flds"
  obtains (found) j where "j < n_fields flds" "P (field_at flds j)"
      "find_loop P (Suc (length flds)) i (iter_at flds dest i) = (True, iter_at flds dest j)"
  | (missing) "\<forall>j < n_fields flds. \<not> P (field_at flds j)"
      "find_loop P (Suc (length flds)) i (iter_at flds dest i) = (False, iter_at flds dest i)"
proof -
  have len: "length (visited (n_fields flds) i i) \<le> Suc (length flds)"
    using length_visited [OF assms assms] n_fields_le [of flds] by simp
  note eq = find_loop_visited [OF assms assms len, of P dest]
  show thesis
  proof (cases "List.find (\<lambda>j. P (field_at flds j)) (visited (n_fields flds) i i)")
    case None
    with eq set_visited [OF assms] show ?thesis by (auto simp: find_None_iff intro: missing)
  next
    case (Some j)
    with eq set_visited [OF assms] find_SomeD [OF Some] show ?thesis by (auto intro: found)
  qed
qed

subsection \<open>Properties\<close>

text \<open>
  Theorem (iter_visits_fields): \<open>pb_field_iter_begin\<close> and \<open>pb_field_iter_next\<close> visit every
  field before the terminator once, in order, each with its data at the address that the
  offsets and sizes of the fields before it add up to; then the iterator is back at the
  first field.
\<close>

theorem iter_visits_fields:
  "iter_fields flds dest = map (iter_at flds dest) [0..<n_fields flds]
   \<and> (n_fields flds \<noteq> 0 \<longleftrightarrow> fst (pb_field_iter_begin flds dest))
   \<and> snd (pb_field_iter_next (iter_at flds dest (n_fields flds - 1))) = iter_at flds dest 0"
proof (intro conjI)
  show "snd (pb_field_iter_next (iter_at flds dest (n_fields flds - 1))) = iter_at flds dest 0"
    using iter_next [of "n_fields flds - 1" flds dest] iter_next_empty [of flds dest]
    by (cases "n_fields flds = 0") auto
qed (simp_all add: iter_fields_eq iter_begin)

text \<open>
  Theorem (iter_find_iff): from every position \<open>pb_field_iter_find\<close> finds a field with the
  tag that is no extension range if there is one, and otherwise fails and ends where it
  started.
\<close>

theorem iter_find_iff:
  assumes "i < n_fields flds"
  shows "(fst (pb_field_iter_find (iter_at flds dest i) tag) \<longleftrightarrow>
      (\<exists>j. j < n_fields flds \<and> f_tag (field_at flds j) = tag
        \<and> PB_LTYPE (f_type (field_at flds j)) \<noteq> PB_LTYPE_EXTENSION))
    \<and> (\<exists>j. j < n_fields flds \<and> snd (pb_field_iter_find (iter_at flds dest i) tag) = iter_at flds dest j
        \<and> (if fst (pb_field_iter_find (iter_at flds dest i) tag)
           then f_tag (field_at flds j) = tag
             \<and> PB_LTYPE (f_type (field_at flds j)) \<noteq> PB_LTYPE_EXTENSION
           else j = i))"
proof -
  let ?P = "\<lambda>f. f_tag f = tag \<and> PB_LTYPE (f_type f) \<noteq> PB_LTYPE_EXTENSION"
  have find: "pb_field_iter_find (iter_at flds dest i) tag
      = find_loop ?P (Suc (length flds)) i (iter_at flds dest i)"
    by (simp add: pb_field_iter_find_def)
  show ?thesis
    unfolding find
    by (rule find_loop_enough [OF assms, of ?P dest]) (use assms in auto)
qed

definition two_fields :: "pb_field list" where
  "two_fields = [PB_REQUIRED_STATIC 1 0 4 PB_LTYPE_VARINT NullPtr,
     PB_REQUIRED_STATIC 5 2 8 PB_LTYPE_FIXED64 NullPtr]"

lemma iter_find_iff_witness:
  "fst (pb_field_iter_find (iter_at two_fields 100 0) 5) \<and> data_pos two_fields 1 = 6"
proof -
  have n: "n_fields two_fields = 2" and f: "field_at two_fields (Suc 0) = PbField 5 4 2 0 8 0 NullPtr"
      "field_at two_fields 0 = PbField 1 0 0 0 4 0 NullPtr"
    by (simp_all add: two_fields_def n_fields_def field_at_def PB_REQUIRED_STATIC_def)
  have "0 < n_fields two_fields" by (simp add: n)
  from iter_find_iff [OF this, of 100 5] show ?thesis
    by (auto simp: n f same_union_def field_extent_def pb_type_defs intro!: exI [of _ "Suc 0"])
qed

end
