(* ===== verification/PB_IStream.thy ===== *)
theory PB_IStream
  imports PB_Types
begin

text \<open>
  Input streams and the primitive decoders of \<open>pb_decode.c\<close>: raw reads, varints,
  fixed-width integers, tags, field skipping and length-delimited substreams. The
  lemmas show that every operation only moves its stream forward and never past
  the limit of the stream, and give each primitive's result on a memory buffer.
\<close>

subsection \<open>Raw reads\<close>

text \<open>
  What a read of \<open>count\<close> bytes puts into its buffer. A read delivers exactly
  \<open>count\<close> bytes; bytes that a source does not supply (a user callback that returns
  too few, a buffer shorter than announced) are undetermined in C and \<open>0\<close> here.
\<close>

definition fill :: "nat \<Rightarrow> byte list \<Rightarrow> byte list" where
  "fill count bs = take count (bs @ replicate count 0)"

definition buf_read :: "byte list \<Rightarrow> nat \<Rightarrow> bool \<times> byte list \<times> byte list" where
  "buf_read buf count = (True, fill count buf, drop count buf)"

definition run_callback :: "'s isource \<Rightarrow> nat \<Rightarrow> bool \<times> byte list \<times> 's isource" where
  "run_callback src count =
     (case src of
        BufRead buf \<Rightarrow> (case buf_read buf count of (ok, bs, buf') \<Rightarrow> (ok, bs, BufRead buf'))
      | UserRead f st \<Rightarrow> (case f st count of (ok, bs, st') \<Rightarrow> (ok, fill count bs, UserRead f st')))"

fun is_buf_read :: "'s isource \<Rightarrow> bool" where
  "is_buf_read (BufRead _) = True"
| "is_buf_read (UserRead _ _) = False"

text \<open>The part of \<open>pb_read\<close> after the special case for skipping.\<close>

definition pb_read_direct :: "'s pb_istream \<Rightarrow> nat \<Rightarrow> byte list option \<times> 's pb_istream" where
  "pb_read_direct s count =
     (if bytes_left s < count then (None, set_ierror ''end-of-stream'' s)
      else case run_callback (i_source s) count of
        (False, _, src) \<Rightarrow> (None, set_ierror ''io error'' (s\<lparr>i_source := src\<rparr>))
      | (True, bs, src) \<Rightarrow>
          (Some bs, s\<lparr>i_source := src, bytes_left := bytes_left s - count\<rparr>))"

text \<open>Skipping on a stream that is not a memory buffer reads 16 bytes at a time.\<close>

fun pb_read_skip :: "'s pb_istream \<Rightarrow> nat \<Rightarrow> byte list option \<times> 's pb_istream" where
  "pb_read_skip s count =
     (if 16 < count
      then on_ok (pb_read_direct s 16) (\<lambda>_ s. pb_read_skip s (count - 16))
      else pb_read_direct s count)"

declare pb_read_skip.simps [simp del]

definition pb_read :: "'s pb_istream \<Rightarrow> nat \<Rightarrow> byte list option \<times> 's pb_istream" where
  "pb_read s count = pb_read_direct s count"

text \<open>\<open>pb_read\<close> with a null buffer.\<close>

definition pb_read_null :: "'s pb_istream \<Rightarrow> nat \<Rightarrow> unit option \<times> 's pb_istream" where
  "pb_read_null s count =
     on_ok (if \<not> is_buf_read (i_source s) then pb_read_skip s count else pb_read_direct s count)
       (\<lambda>_ s. (Some (), s))"

definition pb_readbyte :: "'s pb_istream \<Rightarrow> byte option \<times> 's pb_istream" where
  "pb_readbyte s =
     (if bytes_left s = 0 then (None, set_ierror ''end-of-stream'' s)
      else case run_callback (i_source s) 1 of
        (False, _, src) \<Rightarrow> (None, set_ierror ''io error'' (s\<lparr>i_source := src\<rparr>))
      | (True, bs, src) \<Rightarrow>
          (Some (hd bs), s\<lparr>i_source := src, bytes_left := bytes_left s - 1\<rparr>))"

definition pb_istream_from_buffer :: "byte list \<Rightarrow> nat \<Rightarrow> 's pb_istream" where
  "pb_istream_from_buffer buf bufsize =
     \<lparr>i_source = BufRead buf, bytes_left = bufsize, i_errmsg = None\<rparr>"

subsection \<open>Varints\<close>

function varint32_loop :: "nat \<Rightarrow> u32 \<Rightarrow> 's pb_istream \<Rightarrow> u32 option \<times> 's pb_istream" where
  "varint32_loop bitpos result s =
     (if 32 \<le> bitpos then (None, set_ierror ''varint overflow'' s)
      else on_ok (pb_readbyte s) (\<lambda>b s.
        let result' = result OR push_bit bitpos (ucast (b AND 0x7F))
        in if b AND 0x80 \<noteq> 0 then varint32_loop (bitpos + 7) result' s else (Some result', s)))"
  by pat_completeness auto
termination by (relation "measure (\<lambda>(bitpos, _, _). 40 - bitpos)") auto

declare varint32_loop.simps [simp del]

definition pb_decode_varint32 :: "'s pb_istream \<Rightarrow> u32 option \<times> 's pb_istream" where
  "pb_decode_varint32 s =
     on_ok (pb_readbyte s) (\<lambda>b s.
       if b AND 0x80 = 0 then (Some (ucast b), s)
       else varint32_loop 7 (ucast (b AND 0x7F)) s)"

function varint_loop :: "nat \<Rightarrow> u64 \<Rightarrow> 's pb_istream \<Rightarrow> u64 option \<times> 's pb_istream" where
  "varint_loop bitpos result s =
     (if 64 \<le> bitpos then (None, set_ierror ''varint overflow'' s)
      else on_ok (pb_readbyte s) (\<lambda>b s.
        let result' = result OR push_bit bitpos (ucast (b AND 0x7F))
        in if b AND 0x80 \<noteq> 0 then varint_loop (bitpos + 7) result' s else (Some result', s)))"
  by pat_completeness auto
termination by (relation "measure (\<lambda>(bitpos, _, _). 80 - bitpos)") auto

declare varint_loop.simps [simp del]

definition pb_decode_varint :: "'s pb_istream \<Rightarrow> u64 option \<times> 's pb_istream" where
  "pb_decode_varint s = varint_loop 0 0 s"

lemma run_callback_length:
  "run_callback src n = (ok, bs, src') \<Longrightarrow> length bs = n"
  by (auto simp: run_callback_def buf_read_def fill_def split: isource.splits prod.splits)

lemma pb_read_Some_left:
  "pb_read s n = (Some bs, t) \<Longrightarrow> bytes_left t = bytes_left s - n \<and> n \<le> bytes_left s \<and> length bs = n"
  by (auto simp: pb_read_def pb_read_direct_def run_callback_length split: if_splits prod.splits bool.splits)

function pb_skip_varint :: "'s pb_istream \<Rightarrow> unit option \<times> 's pb_istream" where
  "pb_skip_varint s =
     on_ok (pb_read s 1) (\<lambda>bs s. if hd bs AND 0x80 \<noteq> 0 then pb_skip_varint s else (Some (), s))"
  by pat_completeness auto
termination by (relation "measure bytes_left") (auto dest!: pb_read_Some_left)

declare pb_skip_varint.simps [simp del]

definition pb_skip_string :: "'s pb_istream \<Rightarrow> unit option \<times> 's pb_istream" where
  "pb_skip_string s =
     on_ok (pb_decode_varint32 s) (\<lambda>len s. pb_read_null s (unat len))"

definition pb_decode_svarint :: "'s pb_istream \<Rightarrow> int option \<times> 's pb_istream" where
  "pb_decode_svarint s =
     on_ok (pb_decode_varint s) (\<lambda>value s.
       (Some (if value AND 1 \<noteq> 0 then sint (NOT (drop_bit 1 value)) else sint (drop_bit 1 value)), s))"

subsection \<open>Tags and field skipping\<close>

text \<open>
  \<open>pb_decode_tag\<close> delivers wire type and tag, or \<open>Inl eof\<close> when it returns \<open>false\<close>.
\<close>

definition pb_decode_tag ::
  "'s pb_istream \<Rightarrow> (bool + pb_wire_type \<times> u32) \<times> 's pb_istream" where
  "pb_decode_tag s =
     (case pb_decode_varint32 s of
        (None, s) \<Rightarrow> (Inl (bytes_left s = 0), s)
      | (Some temp, s) \<Rightarrow>
          if temp = 0 then (Inl True, s)
          else (Inr (unat (temp AND 7), drop_bit 3 temp), s))"

definition pb_skip_field :: "'s pb_istream \<Rightarrow> pb_wire_type \<Rightarrow> unit option \<times> 's pb_istream" where
  "pb_skip_field s wire_type =
     (if wire_type = PB_WT_VARINT then pb_skip_varint s
      else if wire_type = PB_WT_64BIT then pb_read_null s 8
      else if wire_type = PB_WT_STRING then pb_skip_string s
      else if wire_type = PB_WT_32BIT then pb_read_null s 4
      else (None, set_ierror ''invalid wire_type'' s))"

text \<open>\<open>read_raw_value\<close>: the bytes of one scalar, at most \<open>limit\<close> (\<open>*size\<close> on call) of them.\<close>

fun read_raw_varint :: "nat \<Rightarrow> 's pb_istream \<Rightarrow> byte list option \<times> 's pb_istream" where
  "read_raw_varint 0 s = (None, s)"
| "read_raw_varint (Suc n) s =
     on_ok (pb_read s 1) (\<lambda>bs s.
       if hd bs AND 0x80 \<noteq> 0
       then on_ok (read_raw_varint n s) (\<lambda>bs' s. (Some (bs @ bs'), s))
       else (Some bs, s))"

definition read_raw_value ::
  "'s pb_istream \<Rightarrow> pb_wire_type \<Rightarrow> nat \<Rightarrow> byte list option \<times> 's pb_istream" where
  "read_raw_value s wire_type limit =
     (if wire_type = PB_WT_VARINT then read_raw_varint limit s
      else if wire_type = PB_WT_64BIT then pb_read s 8
      else if wire_type = PB_WT_32BIT then pb_read s 4
      else (None, set_ierror ''invalid wire_type'' s))"

subsection \<open>Substreams\<close>

definition pb_make_string_substream ::
  "'s pb_istream \<Rightarrow> 's pb_istream option \<times> 's pb_istream" where
  "pb_make_string_substream s =
     on_ok (pb_decode_varint32 s) (\<lambda>size s.
       if bytes_left s < unat size then (None, set_ierror ''parent stream too short'' s)
       else (Some (s\<lparr>bytes_left := unat size\<rparr>), s\<lparr>bytes_left := bytes_left s - unat size\<rparr>))"

definition pb_close_string_substream ::
  "'s pb_istream \<Rightarrow> 's pb_istream \<Rightarrow> unit option \<times> 's pb_istream" where
  "pb_close_string_substream s sub =
     (case (if bytes_left sub \<noteq> 0 then pb_read_null sub (bytes_left sub) else (Some (), sub)) of
        (None, sub) \<Rightarrow> (None, s)
      | (Some _, sub) \<Rightarrow> (Some (), s\<lparr>i_source := i_source sub, i_errmsg := i_errmsg sub\<rparr>))"

subsection \<open>Fixed-width integers\<close>

definition pb_decode_fixed32 :: "'s pb_istream \<Rightarrow> u32 option \<times> 's pb_istream" where
  "pb_decode_fixed32 s =
     on_ok (pb_read s 4) (\<lambda>bs s.
       (Some (push_bit 0 (ucast (bs ! 0)) OR push_bit 8 (ucast (bs ! 1))
              OR push_bit 16 (ucast (bs ! 2)) OR push_bit 24 (ucast (bs ! 3))), s))"

definition pb_decode_fixed64 :: "'s pb_istream \<Rightarrow> u64 option \<times> 's pb_istream" where
  "pb_decode_fixed64 s =
     on_ok (pb_read s 8) (\<lambda>bs s.
       (Some (push_bit 0 (ucast (bs ! 0)) OR push_bit 8 (ucast (bs ! 1))
              OR push_bit 16 (ucast (bs ! 2)) OR push_bit 24 (ucast (bs ! 3))
              OR push_bit 32 (ucast (bs ! 4)) OR push_bit 40 (ucast (bs ! 5))
              OR push_bit 48 (ucast (bs ! 6)) OR push_bit 56 (ucast (bs ! 7))), s))"

subsection \<open>Reads only move a stream forward\<close>

text \<open>
  \<open>advances s t\<close>: between \<open>s\<close> and \<open>t\<close> only bytes at the front of the stream were
  consumed, as many as \<open>bytes_left\<close> went down, and an error message once set
  stayed. \<open>istream_ok\<close>: the limit of the stream lies inside its memory buffer.
\<close>

fun source_moved :: "nat \<Rightarrow> 's isource \<Rightarrow> 's isource \<Rightarrow> bool" where
  "source_moved n (BufRead b) (BufRead b') = (b' = drop n b)"
| "source_moved n (UserRead f st) (UserRead g st') = (f = g)"
| "source_moved n _ _ = False"

definition advances :: "'s pb_istream \<Rightarrow> 's pb_istream \<Rightarrow> bool" where
  "advances s t \<longleftrightarrow> bytes_left t \<le> bytes_left s
     \<and> source_moved (bytes_left s - bytes_left t) (i_source s) (i_source t)
     \<and> (\<forall>m. i_errmsg s = Some m \<longrightarrow> i_errmsg t = Some m)"

fun source_within :: "nat \<Rightarrow> 's isource \<Rightarrow> bool" where
  "source_within n (BufRead buf) = (n \<le> length buf)"
| "source_within n (UserRead f st) = True"

definition istream_ok :: "'s pb_istream \<Rightarrow> bool" where
  "istream_ok s \<longleftrightarrow> source_within (bytes_left s) (i_source s)"

lemma source_moved_0 [simp]: "source_moved 0 src src"
  by (cases src) auto

lemma source_moved_trans:
  "source_moved m a b \<Longrightarrow> source_moved n b c \<Longrightarrow> source_moved (m + n) a c"
  by (cases a; cases b; cases c) (auto simp: add.commute)

lemma run_callback_moved: "run_callback src n = (ok, bs, src') \<Longrightarrow> source_moved n src src'"
  by (auto simp: run_callback_def buf_read_def split: isource.splits prod.splits)

lemma run_callback_failed: "run_callback src n = (False, bs, src') \<Longrightarrow> source_moved 0 src src'"
  by (auto simp: run_callback_def buf_read_def split: isource.splits prod.splits)

lemma advances_refl [simp, intro]: "advances s s"
  by (simp add: advances_def)

lemma advances_trans [trans]:
  assumes "advances s t" and "advances t u"
  shows "advances s u"
proof -
  from assms have "source_moved ((bytes_left s - bytes_left t) + (bytes_left t - bytes_left u))
      (i_source s) (i_source u)"
    unfolding advances_def by (blast intro: source_moved_trans)
  with assms show ?thesis by (simp add: advances_def)
qed

lemma advances_error [intro]: "advances s (set_ierror m s)"
  by (simp add: advances_def set_ierror_def)

lemma advances_left: "advances s t \<Longrightarrow> bytes_left t \<le> bytes_left s"
  by (simp add: advances_def)

lemma advances_ok: "advances s t \<Longrightarrow> istream_ok s \<Longrightarrow> istream_ok t"
  by (cases "i_source s"; cases "i_source t") (auto simp: advances_def istream_ok_def)

text \<open>Every operation that reads from a stream has this contract.\<close>

locale stream_reader =
  fixes r :: "'s pb_istream \<Rightarrow> 'a option \<times> 's pb_istream"
  assumes adv: "r s = (a, t) \<Longrightarrow> advances s t"
begin

lemma result: "advances s (snd (r s))"
  by (cases "r s") (simp add: adv)

lemma keeps_limit: "r s = (a, t) \<Longrightarrow> istream_ok s \<Longrightarrow> istream_ok t"
  using adv advances_ok by blast

lemma followed_by:
  assumes "\<And>a s t b. f a s = (b, t) \<Longrightarrow> advances s t"
  shows "on_ok (r s) f = (b, t) \<Longrightarrow> advances s t"
  using assms adv by (auto split: on_ok_splits) (blast intro: advances_trans)

end

lemma pb_read_direct_adv: "pb_read_direct s n = (a, t) \<Longrightarrow> advances s t"
  using run_callback_moved [of "i_source s" n] run_callback_failed [of "i_source s" n]
  by (auto simp: pb_read_direct_def advances_def set_ierror_def
           split: if_splits prod.splits bool.splits)

lemma pb_readbyte_adv: "pb_readbyte s = (a, t) \<Longrightarrow> advances s t"
  using run_callback_moved [of "i_source s" 1] run_callback_failed [of "i_source s" 1]
  by (auto simp: pb_readbyte_def advances_def set_ierror_def
           split: if_splits prod.splits bool.splits)

interpretation direct: stream_reader "\<lambda>s. pb_read_direct s n" for n
  by unfold_locales (rule pb_read_direct_adv)

interpretation read: stream_reader "\<lambda>s. pb_read s n" for n
  by unfold_locales (simp add: pb_read_def pb_read_direct_adv)

interpretation readbyte: stream_reader pb_readbyte
  by unfold_locales (rule pb_readbyte_adv)

lemma pb_read_skip_adv: "pb_read_skip s n = (a, t) \<Longrightarrow> advances s t"
proof (induction s n rule: pb_read_skip.induct)
  case (1 s n)
  then show ?case
    by (subst (asm) (2) pb_read_skip.simps)
       (auto split: if_splits on_ok_splits dest!: pb_read_direct_adv intro: advances_trans)
qed

lemma varint32_loop_adv: "varint32_loop p r s = (a, t) \<Longrightarrow> advances s t"
proof (induction p r s rule: varint32_loop.induct)
  case (1 p r s)
  then show ?case
    by (subst (asm) (2) varint32_loop.simps)
       (auto simp: Let_def split: if_splits on_ok_splits dest!: pb_readbyte_adv intro: advances_trans)
qed

lemma varint_loop_adv: "varint_loop p r s = (a, t) \<Longrightarrow> advances s t"
proof (induction p r s rule: varint_loop.induct)
  case (1 p r s)
  then show ?case
    by (subst (asm) (2) varint_loop.simps)
       (auto simp: Let_def split: if_splits on_ok_splits dest!: pb_readbyte_adv intro: advances_trans)
qed

lemma pb_skip_varint_adv: "pb_skip_varint s = (a, t) \<Longrightarrow> advances s t"
proof (induction s rule: pb_skip_varint.induct)
  case (1 s)
  then show ?case
    by (subst (asm) (2) pb_skip_varint.simps)
       (auto split: if_splits on_ok_splits dest!: read.adv intro: advances_trans)
qed

interpretation varint: stream_reader pb_decode_varint
  by unfold_locales (simp add: pb_decode_varint_def varint_loop_adv)

interpretation varint32: stream_reader pb_decode_varint32
  by unfold_locales
     (auto simp: pb_decode_varint32_def split: if_splits
           elim!: readbyte.followed_by [rotated] intro: varint32_loop_adv)

interpretation svarint: stream_reader pb_decode_svarint
  by unfold_locales (auto simp: pb_decode_svarint_def elim!: varint.followed_by [rotated])

interpretation skip: stream_reader "\<lambda>s. pb_read_skip s n" for n
  by unfold_locales (rule pb_read_skip_adv)

interpretation read_null: stream_reader "\<lambda>s. pb_read_null s n" for n
  by unfold_locales
     (auto simp: pb_read_null_def split: if_splits
           elim!: direct.followed_by [rotated] skip.followed_by [rotated])

interpretation skip_varint: stream_reader pb_skip_varint
  by unfold_locales (rule pb_skip_varint_adv)

interpretation skip_string: stream_reader pb_skip_string
  by unfold_locales
     (auto simp: pb_skip_string_def elim!: varint32.followed_by [rotated] intro: read_null.adv)

interpretation skip_field: stream_reader "\<lambda>s. pb_skip_field s wt" for wt
  by unfold_locales
     (auto simp: pb_skip_field_def split: if_splits
           intro: read_null.adv skip_varint.adv skip_string.adv)

lemma read_raw_varint_adv: "read_raw_varint n s = (a, t) \<Longrightarrow> advances s t"
proof (induction n arbitrary: s a t)
  case (Suc n)
  then show ?case
    by (auto split: if_splits on_ok_splits dest!: read.adv intro: advances_trans)
qed auto

interpretation raw_value: stream_reader "\<lambda>s. read_raw_value s wt n" for wt n
  by unfold_locales
     (auto simp: read_raw_value_def split: if_splits intro: read.adv read_raw_varint_adv)

interpretation fixed32: stream_reader pb_decode_fixed32
  by unfold_locales (auto simp: pb_decode_fixed32_def elim!: read.followed_by [rotated])

interpretation fixed64: stream_reader pb_decode_fixed64
  by unfold_locales (auto simp: pb_decode_fixed64_def elim!: read.followed_by [rotated])

lemma pb_decode_tag_adv: "pb_decode_tag s = (a, t) \<Longrightarrow> advances s t"
  by (auto simp: pb_decode_tag_def split: prod.splits option.splits if_splits
           dest!: varint32.adv)

subsection \<open>Properties\<close>

text \<open>
  Theorem (pb_read_buffer): a read from a memory buffer delivers the next \<open>count\<close> bytes if
  the limit of the stream allows it, and reports the end of the stream otherwise.
\<close>

theorem pb_read_buffer:
  assumes "i_source s = BufRead buf" and "istream_ok s"
  shows "pb_read s count =
    (if count \<le> bytes_left s
     then (Some (take count buf), s\<lparr>i_source := BufRead (drop count buf), bytes_left := bytes_left s - count\<rparr>)
     else (None, set_ierror ''end-of-stream'' s))"
  using assms
  by (auto simp: pb_read_def pb_read_direct_def run_callback_def buf_read_def fill_def istream_ok_def)

lemma pb_read_buffer_witness:
  "pb_read (pb_istream_from_buffer [1, 2, 3] 2) 2 = (Some [1, 2], pb_istream_from_buffer [3] 0 :: unit pb_istream)"
  using pb_read_buffer [of "pb_istream_from_buffer [1, 2, 3] 2 :: unit pb_istream" "[1, 2, 3]" 2]
  by (simp add: istream_ok_def pb_istream_from_buffer_def)

text \<open>
  Theorem (readers_advance): every primitive that reads from a stream, whether it succeeds
  or fails, only takes bytes off its front, as many as \<open>bytes_left\<close> goes down, and keeps
  an earlier error message; so a stream never reads past its limit.
\<close>

theorem readers_advance:
  "advances s (snd (pb_read s n)) \<and> advances s (snd (pb_read_null s n)) \<and> advances s (snd (pb_readbyte s))
   \<and> advances s (snd (pb_decode_varint s)) \<and> advances s (snd (pb_decode_varint32 s))
   \<and> advances s (snd (pb_decode_svarint s)) \<and> advances s (snd (pb_decode_fixed32 s))
   \<and> advances s (snd (pb_decode_fixed64 s)) \<and> advances s (snd (pb_decode_tag s))
   \<and> advances s (snd (pb_skip_field s wt)) \<and> advances s (snd (read_raw_value s wt n))"
  using pb_decode_tag_adv [of s] 
  by (simp add: read.result read_null.result readbyte.result varint.result varint32.result svarint.result
      fixed32.result fixed64.result skip_field.result raw_value.result)
     (cases "pb_decode_tag s", simp)

end
