(* ===== verification/PB_Decode.thy ===== *)
theory PB_Decode
  imports PB_Iter PB_IStream
begin

text \<open>
  The message decoder of \<open>pb_decode.c\<close> in the configuration of this build (no
  \<open>PB_ENABLE_MALLOC\<close>). \<open>pb_decode_noinit\<close> reads tag after tag, finds the field and
  decodes the value into the memory \<open>h\<close>; submessages are decoded by the same
  function. As for the encoder the recursion is open: the operations get \<open>rec\<close>, the
  decoder for submessages, and the fuel \<open>n\<close> bounds the nesting depth, the fields of
  a message, the rounds of a callback loop and the length of extension chains.
\<close>

type_synonym 's dec_result = "(bool \<times> 's pb_istream \<times> heap) outcome"
type_synonym 's submsg_decoder = "'s pb_istream \<Rightarrow> pb_field list \<Rightarrow> addr \<Rightarrow> heap \<Rightarrow> 's dec_result"
type_synonym 's pb_decoder = "'s pb_istream \<Rightarrow> pb_field \<Rightarrow> addr \<Rightarrow> heap \<Rightarrow> 's dec_result"

text \<open>\<open>if (!r) return false; f\<close>, for decoders and for stream operations.\<close>

definition on_dec ::
  "'s dec_result \<Rightarrow> ('s pb_istream \<Rightarrow> heap \<Rightarrow> 's dec_result) \<Rightarrow> 's dec_result" where
  "on_dec r f = on_ret r (\<lambda>(ok, s, h). if ok then f s h else Ret (False, s, h))"

definition on_read ::
  "'a option \<times> 's pb_istream \<Rightarrow> heap \<Rightarrow> ('a \<Rightarrow> 's pb_istream \<Rightarrow> 's dec_result) \<Rightarrow> 's dec_result" where
  "on_read r h f = (case r of (None, s) \<Rightarrow> Ret (False, s, h) | (Some a, s) \<Rightarrow> f a s)"

definition fail :: "string \<Rightarrow> 's pb_istream \<Rightarrow> heap \<Rightarrow> 's dec_result" where
  "fail m s h = Ret (False, set_ierror m s, h)"

lemma on_dec_simps [simp]:
  "on_dec (Ret (True, s, h)) f = f s h"
  "on_dec (Ret (False, s, h)) f = Ret (False, s, h)"
  "on_dec Undefined f = Undefined"
  "on_dec OutOfFuel f = OutOfFuel"
  by (simp_all add: on_dec_def)

lemma on_read_simps [simp]:
  "on_read (None, s) h f = Ret (False, s, h)"
  "on_read (Some a, s) h f = f a s"
  by (simp_all add: on_read_def)

subsection \<open>Scalar decoders\<close>

definition store_int :: "heap \<Rightarrow> addr \<Rightarrow> nat \<Rightarrow> int \<Rightarrow> heap" where
  "store_int h a k v = store_nat h a k (nat (v mod 2 ^ (8 * k)))"

definition int_width :: "u32 \<Rightarrow> bool" where
  "int_width n \<longleftrightarrow> n = 8 \<or> n = 4 \<or> n = 2 \<or> n = 1"

text \<open>Store a signed or unsigned value in a member of \<open>data_size\<close> bytes and compare.\<close>

definition store_signed :: "pb_field \<Rightarrow> addr \<Rightarrow> int \<Rightarrow> 's pb_istream \<Rightarrow> heap \<Rightarrow> 's dec_result" where
  "store_signed field dest svalue s h =
     (let k = unat (f_data_size field) in
      if \<not> int_width (f_data_size field) then fail ''invalid data_size'' s h
      else let clamped = signed_take_bit (8 * k - 1) svalue;
               h' = store_int h dest k svalue
           in if clamped \<noteq> svalue then fail ''integer too large'' s h' else Ret (True, s, h'))"

definition pb_dec_varint :: "'s pb_decoder" where
  "pb_dec_varint s field dest h =
     on_read (pb_decode_varint s) h (\<lambda>value s.
       let svalue = (if f_data_size field = 8 then sint value else sint (ucast value :: u32))
       in store_signed field dest svalue s h)"

definition pb_dec_uvarint :: "'s pb_decoder" where
  "pb_dec_uvarint s field dest h =
     on_read (pb_decode_varint s) h (\<lambda>value s.
       let k = unat (f_data_size field) in
       if \<not> int_width (f_data_size field) then fail ''invalid data_size'' s h
       else let clamped = take_bit (8 * k) (uint value);
                h' = store_int h dest k (uint value)
            in if clamped \<noteq> uint value then fail ''integer too large'' s h' else Ret (True, s, h'))"

definition pb_dec_svarint :: "'s pb_decoder" where
  "pb_dec_svarint s field dest h =
     on_read (pb_decode_svarint s) h (\<lambda>value s. store_signed field dest value s h)"

definition pb_dec_fixed32 :: "'s pb_decoder" where
  "pb_dec_fixed32 s field dest h =
     on_read (pb_decode_fixed32 s) h (\<lambda>v s. Ret (True, s, store_nat h dest 4 (unat v)))"

definition pb_dec_fixed64 :: "'s pb_decoder" where
  "pb_dec_fixed64 s field dest h =
     on_read (pb_decode_fixed64 s) h (\<lambda>v s. Ret (True, s, store_nat h dest 8 (unat v)))"

text \<open>
  A read into memory. A read that fails leaves its buffer as it was; for a user
  callback that fails after writing to the buffer this is an idealisation.
\<close>

definition read_to :: "'s pb_istream \<Rightarrow> nat \<Rightarrow> addr \<Rightarrow> heap \<Rightarrow> 's dec_result" where
  "read_to s count a h = on_read (pb_read s count) h (\<lambda>bs s. Ret (True, s, store_bytes h a bs))"

definition pb_dec_bytes :: "'s pb_decoder" where
  "pb_dec_bytes s field dest h =
     on_read (pb_decode_varint32 s) h (\<lambda>sz s.
       if PB_SIZE_MAX < sz then fail ''bytes overflow'' s h
       else let alloc_size = PB_BYTES_ARRAY_T_ALLOCSIZE (unat sz) in
         if alloc_size < unat sz then fail ''size too large'' s h
         else if PB_ATYPE (f_type field) = PB_ATYPE_POINTER then fail ''no malloc support'' s h
         else if unat (f_data_size field) < alloc_size then fail ''bytes overflow'' s h
         else read_to s (unat sz) (dest + int bytes_off) (store_nat h dest 4 (unat sz)))"

text \<open>\<open>size + 1\<close> is a 32-bit addition.\<close>

definition pb_dec_string :: "'s pb_decoder" where
  "pb_dec_string s field dest h =
     on_read (pb_decode_varint32 s) h (\<lambda>sz s.
       let alloc_size = sz + 1 in
       if alloc_size < sz then fail ''size too large'' s h
       else if PB_ATYPE (f_type field) = PB_ATYPE_POINTER then fail ''no malloc support'' s h
       else if f_data_size field < alloc_size then fail ''string overflow'' s h
       else on_ret (read_to s (unat sz) dest h) (\<lambda>(status, s, h).
              Ret (status, s, store_bytes h (dest + uint sz) [0])))"

definition pb_dec_fixed_length_bytes :: "'s pb_decoder" where
  "pb_dec_fixed_length_bytes s field dest h =
     on_read (pb_decode_varint32 s) h (\<lambda>sz s.
       if PB_SIZE_MAX < sz then fail ''bytes overflow'' s h
       else if sz = 0
       then Ret (True, s, store_bytes h dest (replicate (unat (f_data_size field)) 0))
       else if sz \<noteq> f_data_size field then fail ''incorrect fixed length bytes size'' s h
       else read_to s (unat (f_data_size field)) dest h)"

subsection \<open>Default values\<close>

primrec fold_ret :: "('a \<Rightarrow> 'b \<Rightarrow> 'b outcome) \<Rightarrow> 'a list \<Rightarrow> 'b \<Rightarrow> 'b outcome" where
  "fold_ret f [] h = Ret h"
| "fold_ret f (x # xs) h = on_ret (f x h) (fold_ret f xs)"

text \<open>
  The descriptor array of a submessage; dereferencing a null pointer or reading
  default bytes as descriptors is undefined.
\<close>

fun with_submsg :: "field_ptr \<Rightarrow> (pb_field list \<Rightarrow> 'a outcome) \<Rightarrow> 'a outcome" where
  "with_submsg (SubmsgFields fs) f = f fs"
| "with_submsg _ f = Undefined"

definition iter_from_extension :: "'s pb_env \<Rightarrow> addr \<Rightarrow> heap \<Rightarrow> pb_field_iter" where
  "iter_from_extension env extension h =
     (let field = ext_arg (ext_type_at env (load_ptr h extension));
          dest = load_ptr h (extension + ext_dest_off);
          it = (snd (pb_field_iter_begin [field] dest))
                 \<lparr>pData := dest, pSize := extension + ext_found_off\<rparr>
      in if PB_ATYPE (f_type field) = PB_ATYPE_POINTER
         then it\<lparr>pData := extension + ext_dest_off\<rparr> else it)"

text \<open>The loop over the extensions of an extension field.\<close>

fun extension_defaults ::
  "nat \<Rightarrow> 's pb_env \<Rightarrow> (pb_field_iter \<Rightarrow> heap \<Rightarrow> heap outcome) \<Rightarrow> addr \<Rightarrow> heap \<Rightarrow> heap outcome" where
  "extension_defaults n env setf ext h =
     (if ext = 0 then Ret h
      else case n of 0 \<Rightarrow> OutOfFuel
      | Suc n \<Rightarrow>
          let h = store_bytes h (ext + ext_found_off) [0] in
          on_ret (setf (iter_from_extension env ext h) h) (\<lambda>h.
            extension_defaults n env setf (load_ptr h (ext + ext_next_off)) h))"

declare extension_defaults.simps [simp del]

definition message_defaults ::
  "(pb_field_iter \<Rightarrow> heap \<Rightarrow> heap outcome) \<Rightarrow> pb_field list \<Rightarrow> addr \<Rightarrow> heap \<Rightarrow> heap outcome" where
  "message_defaults setf flds dest h = fold_ret setf (iter_fields flds dest) h"

primrec pb_field_set_to_default :: "nat \<Rightarrow> 's pb_env \<Rightarrow> pb_field_iter \<Rightarrow> heap \<Rightarrow> heap outcome" where
  "pb_field_set_to_default 0 env it h = OutOfFuel"
| "pb_field_set_to_default (Suc n) env it h =
     (let type = f_type (cur it);
          htype = PB_HTYPE type;
          init_data = (\<lambda>h.
            if PB_LTYPE type = PB_LTYPE_SUBMESSAGE
            then with_submsg (f_ptr (cur it)) (\<lambda>flds.
                   message_defaults (pb_field_set_to_default n env) flds (pData it) h)
            else case f_ptr (cur it) of
                NullPtr \<Rightarrow> Ret (store_bytes h (pData it) (replicate (unat (f_data_size (cur it))) 0))
              | DefaultValue bs \<Rightarrow>
                  if length bs < unat (f_data_size (cur it)) then Undefined
                  else Ret (store_bytes h (pData it) (take (unat (f_data_size (cur it))) bs))
              | SubmsgFields _ \<Rightarrow> Undefined)
      in
      if PB_LTYPE type = PB_LTYPE_EXTENSION
      then extension_defaults n env (pb_field_set_to_default n env) (load_ptr h (pData it)) h
      else if PB_ATYPE type = PB_ATYPE_STATIC
      then if htype = PB_HTYPE_OPTIONAL \<and> pSize it \<noteq> pData it
           then init_data (store_bytes h (pSize it) [0])
           else if htype = PB_HTYPE_REPEATED \<or> htype = PB_HTYPE_ONEOF
           then Ret (store_nat h (pSize it) 4 0)
           else init_data h
      else if PB_ATYPE type = PB_ATYPE_POINTER
      then let h = store_nat h (pData it) 8 0
           in Ret (if htype = PB_HTYPE_REPEATED \<or> htype = PB_HTYPE_ONEOF
                   then store_nat h (pSize it) 4 0 else h)
      else Ret h)"

definition pb_message_set_to_defaults ::
  "nat \<Rightarrow> 's pb_env \<Rightarrow> pb_field list \<Rightarrow> addr \<Rightarrow> heap \<Rightarrow> heap outcome" where
  "pb_message_set_to_defaults n env flds dest h =
     message_defaults (pb_field_set_to_default n env) flds dest h"

subsection \<open>Submessages\<close>

definition decode_with_defaults ::
  "nat \<Rightarrow> 's pb_env \<Rightarrow> 's submsg_decoder \<Rightarrow> 's submsg_decoder" where
  "decode_with_defaults n env rec s flds dest h =
     on_ret (pb_message_set_to_defaults n env flds dest h) (\<lambda>h. rec s flds dest h)"

definition pb_dec_submessage :: "nat \<Rightarrow> 's pb_env \<Rightarrow> 's submsg_decoder \<Rightarrow> 's pb_decoder" where
  "pb_dec_submessage n env rec s field dest h =
     on_read (pb_make_string_substream s) h (\<lambda>substream s.
       if f_ptr field = NullPtr then fail ''invalid field descriptor'' s h
       else with_submsg (f_ptr field) (\<lambda>flds.
         on_ret (if PB_HTYPE (f_type field) = PB_HTYPE_REPEATED
                 then decode_with_defaults n env rec substream flds dest h
                 else rec substream flds dest h)
           (\<lambda>(status, substream, h).
             on_read (pb_close_string_substream s substream) h (\<lambda>_ s. Ret (status, s, h)))))"

text \<open>
  The table \<open>PB_DECODERS\<close>. The entry for extensions is null; indices from 10 lie
  outside the table.
\<close>

definition PB_DECODERS :: "nat \<Rightarrow> 's pb_env \<Rightarrow> 's submsg_decoder \<Rightarrow> byte \<Rightarrow> 's pb_decoder" where
  "PB_DECODERS n env rec ltype =
     (if ltype = PB_LTYPE_VARINT then pb_dec_varint
      else if ltype = PB_LTYPE_UVARINT then pb_dec_uvarint
      else if ltype = PB_LTYPE_SVARINT then pb_dec_svarint
      else if ltype = PB_LTYPE_FIXED32 then pb_dec_fixed32
      else if ltype = PB_LTYPE_FIXED64 then pb_dec_fixed64
      else if ltype = PB_LTYPE_BYTES then pb_dec_bytes
      else if ltype = PB_LTYPE_STRING then pb_dec_string
      else if ltype = PB_LTYPE_SUBMESSAGE then pb_dec_submessage n env rec
      else if ltype = PB_LTYPE_FIXED_LENGTH_BYTES then pb_dec_fixed_length_bytes
      else (\<lambda>_ _ _ _. Undefined))"

subsection \<open>Fields\<close>

text \<open>
  The address of element \<open>*size\<close> of an array: the product is a 32-bit one. The loop
  over a packed array ends because every scalar takes at least one byte; its fuel
  is the length of the substream.
\<close>

definition item_addr :: "pb_field_iter \<Rightarrow> heap \<Rightarrow> addr" where
  "item_addr it h =
     pData it + uint (f_data_size (cur it) * word_of_nat (load_nat h (pSize it) 4))"

fun packed_items ::
  "'s pb_decoder \<Rightarrow> pb_field_iter \<Rightarrow> nat \<Rightarrow> 's pb_istream \<Rightarrow> heap \<Rightarrow> 's dec_result" where
  "packed_items func it n sub h =
     (if 0 < bytes_left sub \<and> load_nat h (pSize it) 4 < unat (f_array_size (cur it))
      then case n of 0 \<Rightarrow> OutOfFuel
        | Suc n \<Rightarrow> on_dec (func sub (cur it) (item_addr it h) h) (\<lambda>sub h.
            packed_items func it n sub
              (store_nat h (pSize it) 4 (load_nat h (pSize it) 4 + 1)))
      else Ret (True, sub, h))"

declare packed_items.simps [simp del]

definition decode_packed :: "'s pb_decoder \<Rightarrow> pb_field_iter \<Rightarrow> 's pb_istream \<Rightarrow> heap \<Rightarrow> 's dec_result" where
  "decode_packed func it s h =
     on_read (pb_make_string_substream s) h (\<lambda>sub s.
       on_ret (packed_items func it (bytes_left sub) sub h) (\<lambda>(status, sub, h).
         if bytes_left sub \<noteq> 0 then fail ''array overflow'' s h
         else on_read (pb_close_string_substream s sub) h (\<lambda>_ s. Ret (status, s, h))))"

definition decode_static_field ::
  "nat \<Rightarrow> 's pb_env \<Rightarrow> 's submsg_decoder \<Rightarrow> 's pb_istream \<Rightarrow> pb_wire_type \<Rightarrow> pb_field_iter \<Rightarrow> heap
     \<Rightarrow> 's dec_result" where
  "decode_static_field n env rec s wire_type it h =
     (let f = cur it; type = f_type f; func = PB_DECODERS n env rec (PB_LTYPE type) in
      if \<not> PB_LTYPE type < 10 then Undefined
      else if PB_HTYPE type = PB_HTYPE_REQUIRED then func s f (pData it) h
      else if PB_HTYPE type = PB_HTYPE_OPTIONAL
      then func s f (pData it)
             (if pSize it \<noteq> pData it then store_bytes h (pSize it) [1] else h)
      else if PB_HTYPE type = PB_HTYPE_REPEATED
      then if wire_type = PB_WT_STRING \<and> PB_LTYPE type \<le> PB_LTYPE_LAST_PACKABLE
           then decode_packed func it s h
           else if unat (f_array_size f) \<le> load_nat h (pSize it) 4 then fail ''array overflow'' s h
           else func s f (item_addr it h)
                  (store_nat h (pSize it) 4 (load_nat h (pSize it) 4 + 1))
      else
        let h = store_nat h (pSize it) 4 (unat (f_tag f)) in
        if PB_LTYPE type = PB_LTYPE_SUBMESSAGE
        then with_submsg (f_ptr f) (\<lambda>flds.
               on_ret (pb_message_set_to_defaults n env flds (pData it)
                         (store_bytes h (pData it) (replicate (unat (f_data_size f)) 0)))
                 (\<lambda>h. func s f (pData it) h))
        else func s f (pData it) h)"

definition decode_pointer_field ::
  "'s pb_istream \<Rightarrow> pb_wire_type \<Rightarrow> pb_field_iter \<Rightarrow> heap \<Rightarrow> 's dec_result" where
  "decode_pointer_field s wire_type it h = fail ''no malloc support'' s h"

text \<open>
  The loop of a callback over its substream. The function pointer is read again in
  every round.
\<close>

fun callback_loop ::
  "nat \<Rightarrow> 's pb_env \<Rightarrow> pb_field_iter \<Rightarrow> 's pb_istream \<Rightarrow> heap \<Rightarrow> 's dec_result" where
  "callback_loop 0 env it sub h = OutOfFuel"
| "callback_loop (Suc n) env it sub h =
     (if load_ptr h (pData it) = 0 then Undefined
      else on_dec (Ret (decode_func env (load_ptr h (pData it)) sub (cur it)
                          (pData it + callback_arg_off) h)) (\<lambda>sub h.
             if bytes_left sub \<noteq> 0 then callback_loop n env it sub h else Ret (True, sub, h)))"

definition decode_callback_field ::
  "nat \<Rightarrow> 's pb_env \<Rightarrow> 's pb_istream \<Rightarrow> pb_wire_type \<Rightarrow> pb_field_iter \<Rightarrow> heap \<Rightarrow> 's dec_result" where
  "decode_callback_field n env s wire_type it h =
     (if load_ptr h (pData it) = 0
      then on_read (pb_skip_field s wire_type) h (\<lambda>_ s. Ret (True, s, h))
      else if wire_type = PB_WT_STRING
      then on_read (pb_make_string_substream s) h (\<lambda>sub s.
             on_ret (callback_loop n env it sub h) (\<lambda>(ok, sub, h).
               if \<not> ok then fail ''callback failed'' s h
               else on_read (pb_close_string_substream s sub) h (\<lambda>_ s. Ret (True, s, h))))
      else on_read (read_raw_value s wire_type 10) h (\<lambda>buffer s.
             case decode_func env (load_ptr h (pData it))
                    (pb_istream_from_buffer buffer (length buffer)) (cur it)
                    (pData it + callback_arg_off) h of
               (status, _, h) \<Rightarrow> Ret (status, s, h)))"

definition decode_field ::
  "nat \<Rightarrow> 's pb_env \<Rightarrow> 's submsg_decoder \<Rightarrow> 's pb_istream \<Rightarrow> pb_wire_type \<Rightarrow> pb_field_iter \<Rightarrow> heap
     \<Rightarrow> 's dec_result" where
  "decode_field n env rec s wire_type it h =
     (if PB_ATYPE (f_type (cur it)) = PB_ATYPE_STATIC
      then decode_static_field n env rec s wire_type it h
      else if PB_ATYPE (f_type (cur it)) = PB_ATYPE_POINTER
      then decode_pointer_field s wire_type it h
      else if PB_ATYPE (f_type (cur it)) = PB_ATYPE_CALLBACK
      then decode_callback_field n env s wire_type it h
      else fail ''invalid field type'' s h)"

subsection \<open>Extensions\<close>

definition default_extension_decoder ::
  "nat \<Rightarrow> 's pb_env \<Rightarrow> 's submsg_decoder \<Rightarrow> 's pb_istream \<Rightarrow> addr \<Rightarrow> u32 \<Rightarrow> pb_wire_type \<Rightarrow> heap
     \<Rightarrow> 's dec_result" where
  "default_extension_decoder n env rec s extension tag wire_type h =
     (if f_tag (ext_arg (ext_type_at env (load_ptr h extension))) \<noteq> tag then Ret (True, s, h)
      else let it = iter_from_extension env extension h in
        decode_field n env rec s wire_type it (store_bytes h (extension + ext_found_off) [1]))"

text \<open>The loop of \<open>decode_extension\<close>; \<open>left\<close> is \<open>bytes_left\<close> at its start.\<close>

fun try_extensions ::
  "nat \<Rightarrow> nat \<Rightarrow> 's pb_env \<Rightarrow> 's submsg_decoder \<Rightarrow> nat \<Rightarrow> 's pb_istream \<Rightarrow> u32 \<Rightarrow> pb_wire_type \<Rightarrow> addr
     \<Rightarrow> heap \<Rightarrow> 's dec_result" where
  "try_extensions k n env rec left s tag wire_type ext h =
     (if ext = 0 \<or> left \<noteq> bytes_left s then Ret (True, s, h)
      else case k of 0 \<Rightarrow> OutOfFuel
      | Suc k \<Rightarrow>
          on_dec (case ext_decode (ext_type_at env (load_ptr h ext)) of
                    Some f \<Rightarrow> Ret (f s ext tag wire_type h)
                  | None \<Rightarrow> default_extension_decoder n env rec s ext tag wire_type h)
            (\<lambda>s h. try_extensions k n env rec left s tag wire_type (load_ptr h (ext + ext_next_off)) h))"

declare try_extensions.simps [simp del]

definition decode_extension ::
  "nat \<Rightarrow> 's pb_env \<Rightarrow> 's submsg_decoder \<Rightarrow> 's pb_istream \<Rightarrow> u32 \<Rightarrow> pb_wire_type \<Rightarrow> pb_field_iter \<Rightarrow> heap
     \<Rightarrow> 's dec_result" where
  "decode_extension n env rec s tag wire_type it h =
     try_extensions n n env rec (bytes_left s) s tag wire_type (load_ptr h (pData it)) h"

subsection \<open>Required fields\<close>

abbreviation (input) PB_MAX_REQUIRED_FIELDS :: nat where "PB_MAX_REQUIRED_FIELDS \<equiv> 64"

definition mark_seen :: "nat \<Rightarrow> u32 list \<Rightarrow> u32 list" where
  "mark_seen i seen = seen[i div 32 := (seen ! (i div 32)) OR push_bit (i mod 32) 1]"

text \<open>
  The final check. Shifting a 32-bit value by 32 and indexing past the end of
  \<open>fields_seen\<close> are undefined.
\<close>

fun check_words :: "u32 list \<Rightarrow> nat \<Rightarrow> nat \<Rightarrow> bool outcome" where
  "check_words seen i 0 = Ret True"
| "check_words seen i (Suc k) =
     (if \<not> i < length seen then Undefined
      else if seen ! i \<noteq> NOT 0 then Ret False
      else check_words seen (Suc i) k)"

definition required_seen :: "u32 list \<Rightarrow> nat \<Rightarrow> bool outcome" where
  "required_seen seen req_field_count =
     (if req_field_count = 0 then Ret True
      else on_ret (check_words seen 0 (req_field_count div 32)) (\<lambda>ok.
        if \<not> ok then Ret False
        else if \<not> req_field_count div 32 < length seen \<or> req_field_count mod 32 = 0
        then Undefined
        else Ret (seen ! (req_field_count div 32)
                    = drop_bit (32 - req_field_count mod 32) (NOT 0))))"

definition required_count :: "pb_field_iter \<Rightarrow> nat" where
  "required_count it =
     (let final = last (iter_rest (Suc (length (start it))) it);
          it' = snd (pb_field_iter_next final)
      in if PB_HTYPE (f_type (cur final)) = PB_HTYPE_REQUIRED \<and> f_tag (cur it') \<noteq> 0
         then required_field_index final + 1 else required_field_index final)"

definition check_required :: "pb_field_iter \<Rightarrow> u32 list \<Rightarrow> 's pb_istream \<Rightarrow> heap \<Rightarrow> 's dec_result" where
  "check_required it seen s h =
     on_ret (required_seen seen (required_count it)) (\<lambda>ok.
       if ok then Ret (True, s, h) else fail ''missing required field'' s h)"

subsection \<open>Messages\<close>

text \<open>
  The loop of \<open>pb_decode_noinit\<close>: \<open>it\<close> is the iterator, \<open>ext\<close> is
  \<open>extension_range_start\<close>.
\<close>

definition skip_unknown ::
  "'s pb_istream \<Rightarrow> pb_wire_type \<Rightarrow> heap \<Rightarrow> ('s pb_istream \<Rightarrow> heap \<Rightarrow> 's dec_result) \<Rightarrow> 's dec_result" where
  "skip_unknown s wire_type h k = on_read (pb_skip_field s wire_type) h (\<lambda>_ s. k s h)"

primrec decode_loop ::
  "nat \<Rightarrow> nat \<Rightarrow> 's pb_env \<Rightarrow> 's submsg_decoder \<Rightarrow> pb_field_iter \<Rightarrow> u32 list \<Rightarrow> u32 \<Rightarrow> 's pb_istream
     \<Rightarrow> heap \<Rightarrow> 's dec_result" where
  "decode_loop 0 n env rec it seen ext s h = OutOfFuel"
| "decode_loop (Suc k) n env rec it seen ext s h =
     (if bytes_left s = 0 then check_required it seen s h
      else case pb_decode_tag s of
        (Inl eof, s) \<Rightarrow> if eof then check_required it seen s h else Ret (False, s, h)
      | (Inr (wire_type, tag), s) \<Rightarrow>
          (case pb_field_iter_find it tag of
            (True, it) \<Rightarrow>
              on_dec (decode_field n env rec s wire_type it h)
                (decode_loop k n env rec it
                  (if PB_HTYPE (f_type (cur it)) = PB_HTYPE_REQUIRED
                      \<and> required_field_index it < PB_MAX_REQUIRED_FIELDS
                   then mark_seen (required_field_index it) seen else seen) ext)
          | (False, it) \<Rightarrow>
              if \<not> ext \<le> tag
              then skip_unknown s wire_type h (decode_loop k n env rec it seen ext)
              else
                let r = find_extension_field it;
                    it = snd r;
                    ext = (if fst r then f_tag (cur it) else NOT 0)
                in if \<not> ext \<le> tag
                   then skip_unknown s wire_type h (decode_loop k n env rec it seen ext)
                   else on_dec (decode_extension n env rec s tag wire_type it h) (\<lambda>s' h.
                     if bytes_left s \<noteq> bytes_left s'
                     then decode_loop k n env rec it seen ext s' h
                     else skip_unknown s' wire_type h (decode_loop k n env rec it seen ext))))"

primrec pb_decode_noinit :: "nat \<Rightarrow> 's pb_env \<Rightarrow> 's submsg_decoder" where
  "pb_decode_noinit 0 env s flds dest h = OutOfFuel"
| "pb_decode_noinit (Suc n) env s flds dest h =
     decode_loop (Suc n) n env (pb_decode_noinit n env)
       (snd (pb_field_iter_begin flds dest)) [0, 0] 0 s h"

definition pb_decode :: "nat \<Rightarrow> 's pb_env \<Rightarrow> 's submsg_decoder" where
  "pb_decode n env s flds dest h =
     on_ret (pb_message_set_to_defaults n env flds dest h) (\<lambda>h.
       pb_decode_noinit n env s flds dest h)"

definition pb_decode_delimited :: "nat \<Rightarrow> 's pb_env \<Rightarrow> 's submsg_decoder" where
  "pb_decode_delimited n env s flds dest h =
     on_read (pb_make_string_substream s) h (\<lambda>substream s.
       on_ret (pb_decode n env substream flds dest h) (\<lambda>(status, substream, h).
         on_read (pb_close_string_substream s substream) h (\<lambda>_ s. Ret (status, s, h))))"

end
