(* ===== verification/PB_DecodeSafe.thy ===== *)
theory PB_DecodeSafe
  imports PB_Decode
begin

text \<open>
  Safety of the message decoder on well-formed descriptors without callbacks and
  extensions: with fuel above the nesting depth and the length of the stream every
  decoder returns without undefined behaviour, writes only inside the structure it
  decodes into, and never takes its stream past the limit. The contracts are the
  locales \<open>field_decoder\<close> (a value decoder, one interpretation per entry of
  \<open>PB_DECODERS\<close>) and \<open>submsg_decoder\<close> (the message decoder one level down).
\<close>

subsection \<open>What a decoder may do\<close>

text \<open>
  \<open>lags s t\<close> is the weak form of \<open>advances\<close> that also holds on error paths: a
  decoder that gives up inside a substream has taken the whole substream off the
  limit of its stream, but the source may stand somewhere inside it.
\<close>

definition lags :: "'s pb_istream \<Rightarrow> 's pb_istream \<Rightarrow> bool" where
  "lags s t \<longleftrightarrow> bytes_left t \<le> bytes_left s
     \<and> (\<exists>m \<le> bytes_left s - bytes_left t. source_moved m (i_source s) (i_source t))"

lemma advances_lags: "advances s t \<Longrightarrow> lags s t"
  by (auto simp: advances_def lags_def)

lemma lags_refl [simp, intro]: "lags s s"
  by (rule advances_lags) simp

lemma lags_trans [trans]:
  assumes "lags s t" and "lags t u"
  shows "lags s u"
proof -
  from assms obtain m k where "m \<le> bytes_left s - bytes_left t" "k \<le> bytes_left t - bytes_left u"
      "source_moved m (i_source s) (i_source t)" "source_moved k (i_source t) (i_source u)"
    by (auto simp: lags_def)
  with source_moved_trans [of m "i_source s" "i_source t" k "i_source u"] assms
  show ?thesis by (auto simp: lags_def intro!: exI [of _ "m + k"])
qed

lemma lags_error [intro]: "lags s (set_ierror m s)"
  by (rule advances_lags) auto

lemma lags_ok: "lags s t \<Longrightarrow> istream_ok s \<Longrightarrow> istream_ok t"
  by (cases "i_source s"; cases "i_source t") (auto simp: lags_def istream_ok_def)

text \<open>
  A decoder \<open>returns\<close> when it ends without undefined behaviour and fuel to spare,
  changes the memory only between \<open>lo\<close> and \<open>hi\<close>, and treats its stream well.
\<close>

fun dec_post :: "addr \<Rightarrow> addr \<Rightarrow> 's pb_istream \<Rightarrow> heap \<Rightarrow> bool \<times> 's pb_istream \<times> heap \<Rightarrow> bool" where
  "dec_post lo hi s h (ok, s', h') \<longleftrightarrow>
     same_outside h h' lo hi \<and> lags s s' \<and> (ok \<longrightarrow> advances s s')"

definition returns :: "addr \<Rightarrow> addr \<Rightarrow> 's pb_istream \<Rightarrow> heap \<Rightarrow> 's dec_result \<Rightarrow> bool" where
  "returns lo hi s h r \<longleftrightarrow> (\<exists>x. r = Ret x \<and> dec_post lo hi s h x)"

lemma returns_Ret: "returns lo hi s h (Ret (ok, s', h')) \<longleftrightarrow> dec_post lo hi s h (ok, s', h')"
  by (auto simp: returns_def)

lemma returns_from:
  assumes "advances s s1" "same_outside h h1 lo hi" "returns lo hi s1 h1 r"
  shows "returns lo hi s h r"
proof -
  from assms(3) obtain ok s' h' where r: "r = Ret (ok, s', h')"
      and post: "same_outside h1 h' lo hi" "lags s1 s'" "ok \<longrightarrow> advances s1 s'"
    by (cases r) (auto simp: returns_def)
  from assms(1) advances_lags have "lags s s1" by blast
  with post assms(1,2) show ?thesis
    by (auto simp: r returns_Ret intro: same_outside_trans lags_trans advances_trans)
qed

lemma returns_mono: "returns lo hi s h r \<Longrightarrow> lo' \<le> lo \<Longrightarrow> hi \<le> hi' \<Longrightarrow> returns lo' hi' s h r"
  by (auto simp: returns_def intro: same_outside_mono)

lemma returns_dec:
  assumes "returns lo hi s h r"
    and "\<And>s' h'. r = Ret (True, s', h') \<Longrightarrow> returns lo hi s' h' (f s' h')"
  shows "returns lo hi s h (on_dec r f)"
proof -
  from assms(1) obtain ok s' h' where r: "r = Ret (ok, s', h')"
      and post: "same_outside h h' lo hi" "lags s s'" "ok \<longrightarrow> advances s s'"
    by (cases r) (auto simp: returns_def)
  show ?thesis
  proof (cases ok)
    case True
    with post assms(2) r show ?thesis by (auto intro: returns_from)
  qed (use post r in \<open>auto simp: returns_Ret\<close>)
qed

lemma returns_read:
  assumes "\<And>a t. r = (a, t) \<Longrightarrow> advances s t"
    and "\<And>a t. r = (Some a, t) \<Longrightarrow> returns lo hi t h (f a t)"
  shows "returns lo hi s h (on_read r h f)"
proof (cases r)
  case (Pair x t)
  with assms(1) have "advances s t" by simp
  with Pair assms(2) show ?thesis
    by (cases x) (auto simp: returns_Ret intro: advances_lags returns_from)
qed

lemma returns_fail [intro]: "same_outside h h' lo hi \<Longrightarrow> returns lo hi s h (fail m s h')"
  by (auto simp: fail_def returns_Ret)

lemma returns_done [intro]: "same_outside h h' lo hi \<Longrightarrow> returns lo hi s h (Ret (True, s, h'))"
  by (simp add: returns_Ret)

subsection \<open>Substreams\<close>

lemma make_substream:
  assumes "pb_make_string_substream s = (Some sub, t)"
  obtains s1 n where "advances s s1" "n \<le> bytes_left s1"
    "sub = s1\<lparr>bytes_left := n\<rparr>" "t = s1\<lparr>bytes_left := bytes_left s1 - n\<rparr>"
proof -
  from assms obtain z s1 where "pb_decode_varint32 s = (Some z, s1)" "unat z \<le> bytes_left s1"
      "sub = s1\<lparr>bytes_left := unat z\<rparr>" "t = s1\<lparr>bytes_left := bytes_left s1 - unat z\<rparr>"
    by (auto simp: pb_make_string_substream_def elim!: on_ok_SomeE split: if_splits)
  with varint32.adv that show thesis by blast
qed

lemma make_substream_None: "pb_make_string_substream s = (None, t) \<Longrightarrow> advances s t"
  by (auto simp: pb_make_string_substream_def split: on_ok_splits if_splits
           dest!: varint32.adv intro: advances_trans)

lemma limit_lags: "n \<le> bytes_left s \<Longrightarrow> lags s (s\<lparr>bytes_left := n\<rparr>)"
  by (auto simp: lags_def intro: exI [of _ 0])

lemma read_direct_all: "pb_read_direct s n = (Some u, t) \<Longrightarrow> bytes_left t + n = bytes_left s"
  by (auto simp: pb_read_direct_def split: if_splits prod.splits bool.splits)

lemma read_skip_all: "pb_read_skip s n = (Some u, t) \<Longrightarrow> bytes_left t + n = bytes_left s"
proof (induction s n rule: pb_read_skip.induct)
  case (1 s n)
  show ?case
  proof (cases "16 < n")
    case True
    with 1(2) obtain b s1 where "pb_read_direct s 16 = (Some b, s1)" "pb_read_skip s1 (n - 16) = (Some u, t)"
      by (subst (asm) pb_read_skip.simps) (auto elim: on_ok_SomeE)
    with 1(1) [OF True this] read_direct_all True show ?thesis by fastforce
  next
    case False
    with 1(2) have "pb_read_direct s n = (Some u, t)" by (subst (asm) pb_read_skip.simps) simp
    then show ?thesis by (rule read_direct_all)
  qed
qed

lemma read_null_all: "pb_read_null s n = (Some u, t) \<Longrightarrow> bytes_left t + n = bytes_left s"
  by (auto simp: pb_read_null_def elim!: on_ok_SomeE dest: read_direct_all read_skip_all split: if_splits)

text \<open>
  Closing the substream puts the stream behind it: the whole operation advances
  the stream if the decoder of the substream did.
\<close>

lemma close_substream:
  assumes make: "pb_make_string_substream s = (Some sub, t)"
    and sub: "lags sub sub'" "ok \<Longrightarrow> advances sub sub'"
    and mem: "same_outside h h' lo hi"
  shows "returns lo hi s h (on_read (pb_close_string_substream t sub') h' (\<lambda>_ s. Ret (ok, s, h')))"
proof -
  obtain s1 n where s1: "advances s s1" "n \<le> bytes_left s1"
      "sub = s1\<lparr>bytes_left := n\<rparr>" "t = s1\<lparr>bytes_left := bytes_left s1 - n\<rparr>"
    using make by (rule make_substream)
  define r where "r = (if bytes_left sub' \<noteq> 0 then pb_read_null sub' (bytes_left sub') else (Some (), sub'))"
  obtain x sub'' where x: "r = (x, sub'')" by fastforce
  have adv: "advances sub' sub''"
    using x read_null.adv by (auto simp: r_def split: if_splits)
  have close: "pb_close_string_substream t sub' = (case x of None \<Rightarrow> (None, t)
      | Some _ \<Rightarrow> (Some (), t\<lparr>i_source := i_source sub'', i_errmsg := i_errmsg sub''\<rparr>))"
    using x by (simp add: pb_close_string_substream_def r_def split: option.split)
  show ?thesis
  proof (cases x)
    case None
    have "lags s1 t" using s1 by (auto intro: limit_lags)
    with s1(1) mem None show ?thesis
      by (auto simp: close returns_Ret intro: lags_trans advances_lags)
  next
    case (Some u)
    have left: "bytes_left sub'' = 0"
      using x Some read_null_all [of sub' "bytes_left sub'" u sub''] by (auto simp: r_def split: if_splits)
    let ?t = "t\<lparr>i_source := i_source sub'', i_errmsg := i_errmsg sub''\<rparr>"
    have "lags sub sub''" using sub(1) adv advances_lags lags_trans by blast
    then have "lags s1 ?t" using s1 left by (auto simp: lags_def)
    moreover have "advances s1 ?t" if ok
    proof -
      have "advances sub sub''" using sub(2) that adv advances_trans by blast
      then show ?thesis using s1 left by (auto simp: advances_def)
    qed
    ultimately show ?thesis
      using s1(1) mem Some
      by (auto simp: close returns_Ret intro: lags_trans advances_lags advances_trans)
  qed
qed
subsection \<open>Readers that consume\<close>

text \<open>A reader that delivers a value has taken at least one byte.\<close>

locale strict_reader = stream_reader r
  for r :: "'s pb_istream \<Rightarrow> 'a option \<times> 's pb_istream" +
  assumes consumes: "r s = (Some a, t) \<Longrightarrow> bytes_left t < bytes_left s"
begin

lemma then_consumes:
  assumes "\<And>a s b t. f a s = (b, t) \<Longrightarrow> advances s t"
  shows "on_ok (r s) f = (Some b, t) \<Longrightarrow> bytes_left t < bytes_left s"
  using assms consumes by (auto elim!: on_ok_SomeE) (meson advances_left le_less_trans)

end

lemma readbyte_consumes: "pb_readbyte s = (Some b, t) \<Longrightarrow> bytes_left t < bytes_left s"
  by (auto simp: pb_readbyte_def split: if_splits prod.splits bool.splits)

interpretation readbyte: strict_reader pb_readbyte
  by unfold_locales (rule readbyte_consumes)

lemma varint_loop_consumes: "varint_loop p r s = (Some v, t) \<Longrightarrow> bytes_left t < bytes_left s"
  by (subst (asm) varint_loop.simps)
     (auto simp: Let_def split: if_splits intro: varint_loop_adv elim!: readbyte.then_consumes [rotated])

lemma varint32_loop_consumes: "varint32_loop p r s = (Some v, t) \<Longrightarrow> bytes_left t < bytes_left s"
  by (subst (asm) varint32_loop.simps)
     (auto simp: Let_def split: if_splits intro: varint32_loop_adv elim!: readbyte.then_consumes [rotated])

interpretation varint: strict_reader pb_decode_varint
  by unfold_locales (simp add: pb_decode_varint_def varint_loop_consumes)

interpretation varint32: strict_reader pb_decode_varint32
  by unfold_locales
     (auto simp: pb_decode_varint32_def split: if_splits
           intro: varint32_loop_adv elim!: readbyte.then_consumes [rotated])

interpretation svarint: strict_reader pb_decode_svarint
  by unfold_locales (auto simp: pb_decode_svarint_def elim!: varint.then_consumes [rotated])

lemma read_consumes: "pb_read s (Suc n) = (Some b, t) \<Longrightarrow> bytes_left t < bytes_left s"
  using pb_read_Some_left [of s "Suc n" b t] by linarith

interpretation fixed32: strict_reader pb_decode_fixed32
  by unfold_locales
     (auto simp: pb_decode_fixed32_def elim!: on_ok_SomeE dest!: pb_read_Some_left)

interpretation fixed64: strict_reader pb_decode_fixed64
  by unfold_locales
     (auto simp: pb_decode_fixed64_def elim!: on_ok_SomeE dest!: pb_read_Some_left)

subsection \<open>The contract of a value decoder\<close>

text \<open>
  Under \<open>ok f n\<close> (on descriptor and length of the stream) a value decoder returns and
  writes inside the \<open>data_size\<close> bytes of its member.
\<close>

locale field_decoder =
  fixes dec :: "'s pb_decoder" and ok :: "pb_field \<Rightarrow> nat \<Rightarrow> bool"
  assumes safe: "ok f (bytes_left s) \<Longrightarrow> returns a (a + uint (f_data_size f)) s h (dec s f a h)"
    and consumes: "ok f (bytes_left s) \<Longrightarrow> dec s f a h = Ret (True, t, h') \<Longrightarrow> bytes_left t < bytes_left s"
    and shorter: "ok f n \<Longrightarrow> m \<le> n \<Longrightarrow> ok f m"

lemma on_read_consumes:
  assumes "on_read r h f = Ret (True, t, h')"
    and "\<And>a u. r = (Some a, u) \<Longrightarrow> bytes_left u < bytes_left s"
    and "\<And>a u. r = (Some a, u) \<Longrightarrow> f a u = Ret (True, t, h') \<Longrightarrow> bytes_left t \<le> bytes_left u"
  shows "bytes_left t < bytes_left s"
  using assms by (cases r; cases "fst r") (auto intro: le_less_trans)

lemma uint_data_size: "int (unat w) = uint w" for w :: u32
  by simp

lemma store_signed_returns:
  "returns a (a + uint (f_data_size f)) s h (store_signed f a v s h)"
  by (auto simp: store_signed_def Let_def store_int_def returns_Ret fail_def)

lemma store_signed_left: "store_signed f a v s h = Ret (ok, t, h') \<Longrightarrow> bytes_left t = bytes_left s"
  by (auto simp: store_signed_def Let_def fail_def split: if_splits)

lemma read_to_returns:
  "lo \<le> a \<Longrightarrow> a + int n \<le> hi \<Longrightarrow> returns lo hi s h (read_to s n a h)"
  unfolding read_to_def
  by (rule returns_read [OF read.adv]) (auto intro!: returns_done same_outside_store dest: pb_read_Some_left)

lemma read_to_left: "read_to s n a h = Ret (ok, t, h') \<Longrightarrow> bytes_left t \<le> bytes_left s"
  by (cases "pb_read s n"; cases "fst (pb_read s n)")
     (auto simp: read_to_def dest: read.adv advances_left)

interpretation dec_varint: field_decoder pb_dec_varint "\<lambda>_ _. True"
  by unfold_locales
     (auto simp: pb_dec_varint_def Let_def intro!: returns_read varint.adv store_signed_returns
           elim!: on_read_consumes dest: varint.consumes store_signed_left)

interpretation dec_svarint: field_decoder pb_dec_svarint "\<lambda>_ _. True"
  by unfold_locales
     (auto simp: pb_dec_svarint_def intro!: returns_read svarint.adv store_signed_returns
           elim!: on_read_consumes dest: svarint.consumes store_signed_left)

interpretation dec_uvarint: field_decoder pb_dec_uvarint "\<lambda>_ _. True"
  by unfold_locales
     (auto simp: pb_dec_uvarint_def Let_def store_int_def fail_def returns_Ret
           intro!: returns_read varint.adv lags_error same_outside_store_nat
           elim!: on_read_consumes dest: varint.consumes split: if_splits)

definition fixed_room :: "nat \<Rightarrow> pb_field \<Rightarrow> nat \<Rightarrow> bool" where
  "fixed_room k f n \<longleftrightarrow> k \<le> unat (f_data_size f)"

lemma room_addr: "k \<le> unat w \<Longrightarrow> a + int k \<le> a + uint w" for w :: u32
  by (metis add_left_mono of_nat_mono uint_data_size)

interpretation dec_fixed32: field_decoder pb_dec_fixed32 "fixed_room 4"
  by unfold_locales
     (auto simp: pb_dec_fixed32_def fixed_room_def intro!: returns_read fixed32.adv returns_done
             same_outside_store_nat dest: room_addr fixed32.consumes elim!: on_read_consumes)

interpretation dec_fixed64: field_decoder pb_dec_fixed64 "fixed_room 8"
  by unfold_locales
     (auto simp: pb_dec_fixed64_def fixed_room_def intro!: returns_read fixed64.adv returns_done
             same_outside_store_nat dest: room_addr fixed64.consumes elim!: on_read_consumes)

interpretation dec_bytes: field_decoder pb_dec_bytes "\<lambda>_ _. True"
proof unfold_locales
  fix f :: pb_field and s :: "'a pb_istream" and a h
  have "returns a (a + uint (f_data_size f)) t h
      (read_to t (unat z) (a + int bytes_off) (store_nat h a 4 (unat z)))"
    if "bytes_off + unat z \<le> unat (f_data_size f)" for z :: u32 and t :: "'a pb_istream"
  proof (rule returns_from [OF advances_refl])
    show "same_outside h (store_nat h a 4 (unat z)) a (a + uint (f_data_size f))"
      using that room_addr [of 4 "f_data_size f" a] by (intro same_outside_store_nat) (auto simp: bytes_off_def)
    show "returns a (a + uint (f_data_size f)) t (store_nat h a 4 (unat z))
        (read_to t (unat z) (a + int bytes_off) (store_nat h a 4 (unat z)))"
      using room_addr [OF that, of a] by (intro read_to_returns) (auto simp: bytes_off_def)
  qed
  then show "returns a (a + uint (f_data_size f)) s h (pb_dec_bytes s f a h)"
    unfolding pb_dec_bytes_def Let_def PB_BYTES_ARRAY_T_ALLOCSIZE_def
    by (intro returns_read varint32.adv) (auto simp: add.commute)
  show "pb_dec_bytes s f a h = Ret (True, t, h') \<Longrightarrow> bytes_left t < bytes_left s" for t h'
    unfolding pb_dec_bytes_def Let_def
    by (erule on_read_consumes) (auto simp: fail_def dest: varint32.consumes read_to_left split: if_splits)
qed

interpretation dec_fixed_length: field_decoder pb_dec_fixed_length_bytes "\<lambda>_ _. True"
proof unfold_locales
  fix f :: pb_field and s :: "'a pb_istream" and a h
  show "returns a (a + uint (f_data_size f)) s h (pb_dec_fixed_length_bytes s f a h)"
    unfolding pb_dec_fixed_length_bytes_def
    by (intro returns_read varint32.adv) (auto intro!: read_to_returns returns_done same_outside_store)
  show "pb_dec_fixed_length_bytes s f a h = Ret (True, t, h') \<Longrightarrow> bytes_left t < bytes_left s" for t h'
    unfolding pb_dec_fixed_length_bytes_def
    by (erule on_read_consumes) (auto simp: fail_def dest: varint32.consumes read_to_left split: if_splits)
qed

lemma no_wrap: "z \<le> z + 1 \<Longrightarrow> unat (z + 1) = unat z + 1" for z :: u32
proof -
  assume le: "z \<le> z + 1"
  have "1 + z \<noteq> 0"
  proof
    assume "1 + z = 0"
    with le have "z = 0" by (simp add: add.commute)
    with \<open>1 + z = 0\<close> show False by simp
  qed
  then show ?thesis using unatSuc [of z] by (simp add: add.commute)
qed

interpretation dec_string: field_decoder pb_dec_string "\<lambda>_ _. True"
proof unfold_locales
  fix f :: pb_field and s :: "'a pb_istream" and a h
  let ?tail = "\<lambda>z t. on_ret (read_to t (unat z) a h) (\<lambda>(status, t, h).
      Ret (status, t, store_bytes h (a + uint z) [0]))"
  have "returns a (a + uint (f_data_size f)) t h (?tail z t)"
    if z: "z \<le> z + 1" "z + 1 \<le> f_data_size f" for z :: u32 and t :: "'a pb_istream"
  proof -
    have "unat z + 1 \<le> unat (f_data_size f)" using z by (simp add: no_wrap word_le_nat_alt)
    from room_addr [OF this, of a] have room: "a + uint z + 1 \<le> a + uint (f_data_size f)"
      by simp
    from room have "returns a (a + uint (f_data_size f)) t h (read_to t (unat z) a h)"
      by (intro read_to_returns) auto
    then obtain ok t' h1 where r: "read_to t (unat z) a h = Ret (ok, t', h1)"
        and post: "dec_post a (a + uint (f_data_size f)) t h (ok, t', h1)"
      by (auto simp: returns_def)
    have "same_outside h1 (store_bytes h1 (a + uint z) [0]) a (a + uint (f_data_size f))"
      using room by (intro same_outside_store) auto
    with r post show ?thesis by (auto simp: returns_Ret intro: same_outside_trans)
  qed
  then show "returns a (a + uint (f_data_size f)) s h (pb_dec_string s f a h)"
    unfolding pb_dec_string_def Let_def
    by (intro returns_read varint32.adv) (auto simp: not_less)
  show "pb_dec_string s f a h = Ret (True, t, h') \<Longrightarrow> bytes_left t < bytes_left s" for t h'
    unfolding pb_dec_string_def Let_def
    by (erule on_read_consumes)
       (auto simp: fail_def dest: varint32.consumes read_to_left split: if_splits elim!: on_ret_RetE)
qed
subsection \<open>Well-formed descriptors\<close>

text \<open>
  \<open>it_ok lo hi it\<close>: the data of the field, its array count or union tag and its
  has-flag lie between \<open>lo\<close> and \<open>hi\<close>.
\<close>

definition it_ok :: "addr \<Rightarrow> addr \<Rightarrow> pb_field_iter \<Rightarrow> bool" where
  "it_ok lo hi it \<longleftrightarrow>
     (let htype = PB_HTYPE (f_type (cur it)) in
      lo \<le> pData it \<and> pData it + field_extent (cur it) \<le> hi
      \<and> (htype = PB_HTYPE_REPEATED \<or> htype = PB_HTYPE_ONEOF \<longrightarrow> lo \<le> pSize it \<and> pSize it + 4 \<le> hi)
      \<and> (htype = PB_HTYPE_OPTIONAL \<and> pSize it \<noteq> pData it \<longrightarrow> lo \<le> pSize it \<and> pSize it + 1 \<le> hi))"

definition type_ok :: "pb_field \<Rightarrow> bool" where
  "type_ok f \<longleftrightarrow>
     (let ltype = PB_LTYPE (f_type f); atype = PB_ATYPE (f_type f) in
      (atype = PB_ATYPE_STATIC \<or> atype = PB_ATYPE_POINTER)
      \<and> ltype < 10 \<and> ltype \<noteq> PB_LTYPE_EXTENSION
      \<and> (ltype = PB_LTYPE_FIXED32 \<longrightarrow> 4 \<le> unat (f_data_size f))
      \<and> (ltype = PB_LTYPE_FIXED64 \<longrightarrow> 8 \<le> unat (f_data_size f))
      \<and> (atype = PB_ATYPE_STATIC \<and> PB_HTYPE (f_type f) = PB_HTYPE_REPEATED
           \<longrightarrow> unat (f_data_size f) * unat (f_array_size f) < 2 ^ 32)
      \<and> (ltype \<noteq> PB_LTYPE_SUBMESSAGE \<longrightarrow>
           (case f_ptr f of NullPtr \<Rightarrow> True
            | DefaultValue bs \<Rightarrow> unat (f_data_size f) \<le> length bs
            | SubmsgFields _ \<Rightarrow> False)))"

text \<open>
  The number of required fields must not be a positive multiple of 32 and must stay
  below 64: the final check is undefined otherwise (\<open>required_seen_32\<close>, \<open>required_seen_64\<close>).
\<close>

definition n_required :: "pb_field list \<Rightarrow> nat" where
  "n_required flds = required_before flds (n_fields flds)"

definition required_ok :: "pb_field list \<Rightarrow> bool" where
  "required_ok flds \<longleftrightarrow> n_required flds < 64 \<and> n_required flds \<noteq> 32"

text \<open>Nesting depth at most \<open>n\<close>; \<open>sz\<close> is the size of the structure.\<close>

definition tags_ok :: "pb_field list \<Rightarrow> bool" where
  "tags_ok flds \<longleftrightarrow> list_all (\<lambda>f. f_tag f \<noteq> 0) flds"

primrec wf_field :: "nat \<Rightarrow> pb_field \<Rightarrow> bool" where
  "wf_field 0 f \<longleftrightarrow> False"
| "wf_field (Suc n) f \<longleftrightarrow> type_ok f \<and>
     (PB_LTYPE (f_type f) = PB_LTYPE_SUBMESSAGE \<longrightarrow>
        (case f_ptr f of
           SubmsgFields fs \<Rightarrow> required_ok fs \<and> tags_ok fs \<and>
             list_all (\<lambda>i. it_ok 0 (uint (f_data_size f)) (iter_at fs 0 i) \<and> wf_field n (field_at fs i))
               [0..<n_fields fs]
         | _ \<Rightarrow> False))"

definition wf_message :: "nat \<Rightarrow> pb_field list \<Rightarrow> int \<Rightarrow> bool" where
  "wf_message n flds sz \<longleftrightarrow> 0 \<le> sz \<and> required_ok flds \<and> tags_ok flds \<and>
     list_all (\<lambda>i. it_ok 0 sz (iter_at flds 0 i) \<and> wf_field n (field_at flds i)) [0..<n_fields flds]"

lemma wf_submsg:
  assumes "wf_field (Suc n) f" "PB_LTYPE (f_type f) = PB_LTYPE_SUBMESSAGE"
  obtains fs where "f_ptr f = SubmsgFields fs" "wf_message n fs (uint (f_data_size f))"
  using assms by (auto simp: wf_message_def split: field_ptr.splits)

lemma it_ok_shift: "it_ok 0 sz (iter_at flds 0 i) \<Longrightarrow> it_ok dest (dest + sz) (iter_at flds dest i)"
  by (simp add: it_ok_def Let_def)

lemma wf_messageD:
  assumes "wf_message n flds sz" "i < n_fields flds"
  shows "it_ok dest (dest + sz) (iter_at flds dest i)" "wf_field n (field_at flds i)"
  using assms it_ok_shift [of sz flds i dest] by (auto simp: wf_message_def list_all_iff)

lemma it_ok_mono: "it_ok lo hi it \<Longrightarrow> lo' \<le> lo \<Longrightarrow> hi \<le> hi' \<Longrightarrow> it_ok lo' hi' it"
  by (auto simp: it_ok_def Let_def)

lemma wf_type: "wf_field n f \<Longrightarrow> type_ok f"
  by (cases n) auto

text \<open>The room of a member that is not a static array.\<close>

lemma static_room:
  assumes "it_ok lo hi it" "PB_ATYPE (f_type (cur it)) = PB_ATYPE_STATIC"
    "PB_HTYPE (f_type (cur it)) \<noteq> PB_HTYPE_REPEATED"
  shows "lo \<le> pData it" "pData it + uint (f_data_size (cur it)) \<le> hi"
  using assms by (auto simp: it_ok_def Let_def field_extent_def)

text \<open>The room of an array element.\<close>

lemma item_room:
  assumes ok: "it_ok lo hi it" "type_ok (cur it)"
    and static: "PB_ATYPE (f_type (cur it)) = PB_ATYPE_STATIC"
    and rep: "PB_HTYPE (f_type (cur it)) = PB_HTYPE_REPEATED"
    and i: "load_nat h (pSize it) 4 < unat (f_array_size (cur it))"
  shows "lo \<le> item_addr it h" "item_addr it h + uint (f_data_size (cur it)) \<le> hi"
proof -
  let ?d = "f_data_size (cur it)" and ?i = "load_nat h (pSize it) 4"
  have i32: "?i < 2 ^ 32" using load_nat_bound [of h "pSize it" 4] by simp
  have le: "unat ?d * (?i + 1) \<le> unat ?d * unat (f_array_size (cur it))"
    using i by (intro mult_le_mono2) simp
  also have lt: "\<dots> < 2 ^ 32" using ok(2) static rep by (simp add: type_ok_def Let_def)
  finally have "unat ?d * ?i < 2 ^ 32" by simp
  then have prod: "unat (?d * word_of_nat ?i) = unat ?d * ?i"
    using i32 by (simp add: unat_word_ariths unat_of_nat)
  have addr: "item_addr it h = pData it + int (unat ?d * ?i)"
    unfolding item_addr_def uint_data_size [symmetric] prod ..
  have ext: "field_extent (cur it) = int (unat ?d * unat (f_array_size (cur it)))"
    using static rep unfolding field_extent_def by simp
  have "lo \<le> pData it" using ok(1) by (simp add: it_ok_def Let_def)
  then show "lo \<le> item_addr it h"
    unfolding addr using of_nat_0_le_iff [of "unat ?d * ?i"] by linarith
  have "int (unat ?d * ?i) + int (unat ?d) \<le> field_extent (cur it)"
    using le unfolding ext by (simp only: of_nat_add [symmetric] of_nat_le_iff) simp
  then have "int (unat ?d * ?i) + uint ?d \<le> field_extent (cur it)"
    by (simp only: uint_data_size)
  moreover have "pData it + field_extent (cur it) \<le> hi"
    using ok(1) by (simp add: it_ok_def Let_def)
  ultimately show "item_addr it h + uint ?d \<le> hi"
    unfolding addr by linarith
qed

subsection \<open>Default values\<close>

definition sets :: "addr \<Rightarrow> addr \<Rightarrow> heap \<Rightarrow> heap outcome \<Rightarrow> bool" where
  "sets lo hi h r \<longleftrightarrow> (\<exists>h'. r = Ret h' \<and> same_outside h h' lo hi)"

lemma sets_Ret [simp]: "sets lo hi h (Ret h') \<longleftrightarrow> same_outside h h' lo hi"
  by (simp add: sets_def)

lemma sets_from: "same_outside h h1 lo hi \<Longrightarrow> sets lo hi h1 r \<Longrightarrow> sets lo hi h r"
  by (auto simp: sets_def intro: same_outside_trans)

lemma sets_mono: "sets lo hi h r \<Longrightarrow> lo' \<le> lo \<Longrightarrow> hi \<le> hi' \<Longrightarrow> sets lo' hi' h r"
  by (auto simp: sets_def intro: same_outside_mono)

lemma sets_fold:
  "(\<And>x h. x \<in> set xs \<Longrightarrow> sets lo hi h (f x h)) \<Longrightarrow> sets lo hi h (fold_ret f xs h)"
proof (induction xs arbitrary: h)
  case (Cons x xs)
  from Cons.prems obtain h1 where "f x h = Ret h1" "same_outside h h1 lo hi"
    by (auto simp: sets_def)
  with Cons show ?case by (auto intro: sets_from)
qed simp

lemma sets_message:
  assumes "\<And>it h. it_ok dest (dest + sz) it \<Longrightarrow> wf_field n (cur it) \<Longrightarrow> sets dest (dest + sz) h (setf it h)"
    and "wf_message n flds sz"
  shows "sets dest (dest + sz) h (message_defaults setf flds dest h)"
  unfolding message_defaults_def iter_fields_eq
  by (rule sets_fold) (auto intro!: assms(1) dest: wf_messageD [OF assms(2)])

lemma sets_field:
  "wf_field n (cur it) \<Longrightarrow> it_ok lo hi it \<Longrightarrow> sets lo hi h (pb_field_set_to_default n env it h)"
proof (induction n arbitrary: it lo hi h)
  case (Suc n)
  let ?f = "cur it"
  note type = wf_type [OF Suc.prems(1)]
  show ?case
  proof (cases "PB_ATYPE (f_type ?f) = PB_ATYPE_STATIC")
    case False
    then have ptr: "PB_ATYPE (f_type ?f) = PB_ATYPE_POINTER" "field_extent ?f = 8"
      using type by (auto simp: type_ok_def field_extent_def Let_def)
    have "same_outside h (store_nat h (pData it) 8 0) lo hi"
      using Suc.prems(2) ptr by (intro same_outside_store_nat) (auto simp: it_ok_def Let_def)
    moreover have "same_outside h' (store_nat h' (pSize it) 4 0) lo hi"
      if "PB_HTYPE (f_type ?f) = PB_HTYPE_REPEATED \<or> PB_HTYPE (f_type ?f) = PB_HTYPE_ONEOF" for h'
      using Suc.prems(2) that by (intro same_outside_store_nat) (auto simp: it_ok_def Let_def)
    ultimately show ?thesis
      using type ptr by (auto simp: Let_def type_ok_def intro: same_outside_trans)
  next
    case static: True
    let ?d = "f_data_size ?f"
    let ?init = "\<lambda>h. if PB_LTYPE (f_type ?f) = PB_LTYPE_SUBMESSAGE
        then with_submsg (f_ptr ?f) (\<lambda>flds. message_defaults (pb_field_set_to_default n env) flds (pData it) h)
        else case f_ptr ?f of
            NullPtr \<Rightarrow> Ret (store_bytes h (pData it) (replicate (unat ?d) 0))
          | DefaultValue bs \<Rightarrow> if length bs < unat ?d then Undefined
              else Ret (store_bytes h (pData it) (take (unat ?d) bs))
          | SubmsgFields _ \<Rightarrow> Undefined"
    have init: "sets lo hi h (?init h)" if "PB_HTYPE (f_type ?f) \<noteq> PB_HTYPE_REPEATED" for h
    proof -
      note room = static_room [OF Suc.prems(2) static that]
      show ?thesis
      proof (cases "PB_LTYPE (f_type ?f) = PB_LTYPE_SUBMESSAGE")
        case True
        obtain fs where fs: "f_ptr ?f = SubmsgFields fs" "wf_message n fs (uint ?d)"
          using wf_submsg [OF Suc.prems(1) True] .
        have "sets (pData it) (pData it + uint ?d) h
            (message_defaults (pb_field_set_to_default n env) fs (pData it) h)"
          using Suc.IH fs(2) by (intro sets_message) auto
        with True fs room show ?thesis by (auto intro: sets_mono)
      next
        case False
        have st: "same_outside h (store_bytes h (pData it) bs) lo hi" if "length bs = unat ?d" for bs
          using room that by (intro same_outside_store) auto
        from False type show ?thesis
          by (auto simp: type_ok_def Let_def split: field_ptr.splits intro!: st)
      qed
    qed
    have has: "same_outside h (store_bytes h (pSize it) [0]) lo hi"
      if "PB_HTYPE (f_type ?f) = PB_HTYPE_OPTIONAL" "pSize it \<noteq> pData it"
      using Suc.prems(2) that by (intro same_outside_store) (auto simp: it_ok_def Let_def)
    have count: "same_outside h (store_nat h (pSize it) 4 0) lo hi"
      if "PB_HTYPE (f_type ?f) = PB_HTYPE_REPEATED \<or> PB_HTYPE (f_type ?f) = PB_HTYPE_ONEOF"
      using Suc.prems(2) that by (intro same_outside_store_nat) (auto simp: it_ok_def Let_def)
    have "PB_LTYPE (f_type ?f) \<noteq> PB_LTYPE_EXTENSION" using type by (simp add: type_ok_def Let_def)
    then have "pb_field_set_to_default (Suc n) env it h =
        (if PB_HTYPE (f_type ?f) = PB_HTYPE_OPTIONAL \<and> pSize it \<noteq> pData it
         then ?init (store_bytes h (pSize it) [0])
         else if PB_HTYPE (f_type ?f) = PB_HTYPE_REPEATED \<or> PB_HTYPE (f_type ?f) = PB_HTYPE_ONEOF
         then Ret (store_nat h (pSize it) 4 0) else ?init h)"
      using static unfolding pb_field_set_to_default.simps Let_def by (simp only: if_True if_False refl)
    with init has count show ?thesis
      by (auto simp del: pb_field_set_to_default.simps intro: sets_from)
  qed
qed simp

lemma sets_defaults:
  "wf_message n flds sz \<Longrightarrow>
   sets dest (dest + sz) h (pb_message_set_to_defaults n env flds dest h)"
  unfolding pb_message_set_to_defaults_def by (rule sets_message) (auto intro: sets_field)
subsection \<open>Fields\<close>

context field_decoder
begin

lemma safe_from:
  "ok f (bytes_left s) \<Longrightarrow> same_outside h h' lo hi \<Longrightarrow> lo \<le> a \<Longrightarrow> a + uint (f_data_size f) \<le> hi \<Longrightarrow>
   returns lo hi s h (dec s f a h')"
  using safe [of f s a h'] returns_mono returns_from by blast

text \<open>The loop over a packed array: each round consumes, so the fuel suffices.\<close>

lemma packed:
  assumes it: "it_ok lo hi it" "type_ok (cur it)"
    and static: "PB_ATYPE (f_type (cur it)) = PB_ATYPE_STATIC"
    and rep: "PB_HTYPE (f_type (cur it)) = PB_HTYPE_REPEATED"
  shows "ok (cur it) (bytes_left sub) \<Longrightarrow> bytes_left sub \<le> n \<Longrightarrow>
    returns lo hi sub h (packed_items dec it n sub h)"
proof (induction n arbitrary: sub h)
  case 0
  then show ?case by (subst packed_items.simps) auto
next
  case (Suc n)
  show ?case
  proof (cases "0 < bytes_left sub \<and> load_nat h (pSize it) 4 < unat (f_array_size (cur it))")
    case False
    then show ?thesis by (subst packed_items.simps) auto
  next
    case True
    have dec: "returns lo hi sub h (dec sub (cur it) (item_addr it h) h)"
      using item_room [OF it static rep] True Suc.prems(1) by (intro safe_from) auto
    have count: "same_outside h' (store_nat h' (pSize it) 4 k) lo hi" for h' k
      using it(1) rep by (intro same_outside_store_nat) (auto simp: it_ok_def Let_def)
    have "returns lo hi sub h (on_dec (dec sub (cur it) (item_addr it h) h) (\<lambda>sub h.
        packed_items dec it n sub (store_nat h (pSize it) 4 (load_nat h (pSize it) 4 + 1))))"
    proof (rule returns_dec [OF dec])
      fix t h'
      assume r: "dec sub (cur it) (item_addr it h) h = Ret (True, t, h')"
      then have lt: "bytes_left t < bytes_left sub" using consumes Suc.prems(1) by blast
      then have "ok (cur it) (bytes_left t)" using shorter Suc.prems(1) by simp
      moreover have "bytes_left t \<le> n" using lt Suc.prems(2) by simp
      ultimately show "returns lo hi t h'
          (packed_items dec it n t (store_nat h' (pSize it) 4 (load_nat h' (pSize it) 4 + 1)))"
        by (rule returns_from [OF advances_refl count Suc.IH])
    qed
    with True show ?thesis by (subst packed_items.simps) simp
  qed
qed

lemma packed_field:
  assumes it: "it_ok lo hi it" "type_ok (cur it)"
    and static: "PB_ATYPE (f_type (cur it)) = PB_ATYPE_STATIC"
    and rep: "PB_HTYPE (f_type (cur it)) = PB_HTYPE_REPEATED"
    and ok: "ok (cur it) (bytes_left s)"
  shows "returns lo hi s h (decode_packed dec it s h)"
proof (cases "pb_make_string_substream s")
  case (Pair x t)
  show ?thesis
  proof (cases x)
    case None
    with Pair make_substream_None [of s t] show ?thesis
      by (simp add: decode_packed_def returns_Ret advances_lags)
  next
    case (Some sub)
    with Pair have make: "pb_make_string_substream s = (Some sub, t)" by simp
    then obtain s1 n where s1: "advances s s1" "n \<le> bytes_left s1" "sub = s1\<lparr>bytes_left := n\<rparr>"
        "t = s1\<lparr>bytes_left := bytes_left s1 - n\<rparr>"
      by (rule make_substream)
    then have "bytes_left sub \<le> bytes_left s" using advances_left by fastforce
    then have "ok (cur it) (bytes_left sub)" using ok shorter by blast
    then obtain b sub' h' where r: "packed_items dec it (bytes_left sub) sub h = Ret (b, sub', h')"
        and post: "dec_post lo hi sub h (b, sub', h')"
      using packed [OF it static rep, of sub "bytes_left sub" h] by (auto simp: returns_def)
    have "lags s t" using s1 limit_lags [of "bytes_left s1 - n" s1]
      by (auto intro: lags_trans advances_lags)
    moreover have "returns lo hi s h (on_read (pb_close_string_substream t sub') h' (\<lambda>_ s. Ret (b, s, h')))"
      using post by (intro close_substream [OF make]) auto
    ultimately show ?thesis
      using post by (auto simp: decode_packed_def make r fail_def returns_Ret intro: lags_trans)
  qed
qed

end

lemma make_consumes: "pb_make_string_substream s = (Some sub, t) \<Longrightarrow> bytes_left t < bytes_left s"
  by (auto simp: pb_make_string_substream_def elim!: on_ok_SomeE split: if_splits
           dest!: varint32.consumes)

lemma make_sub_consumes: "pb_make_string_substream s = (Some sub, t) \<Longrightarrow> bytes_left sub < bytes_left s"
  by (auto simp: pb_make_string_substream_def elim!: on_ok_SomeE split: if_splits
           dest!: varint32.consumes)

lemma close_left: "pb_close_string_substream s sub = (Some u, t) \<Longrightarrow> bytes_left t = bytes_left s"
  by (auto simp: pb_close_string_substream_def split: prod.splits option.splits)

text \<open>A decoder for submessages with enough fuel for descriptors and streams below \<open>n\<close>.\<close>

locale submsg_decoder =
  fixes rec :: "'s submsg_decoder" and n :: nat and env :: "'s pb_env"
  assumes submsg: "wf_message n flds sz \<Longrightarrow> bytes_left s < n \<Longrightarrow>
    returns dest (dest + sz) s h (rec s flds dest h)"
begin

lemma with_defaults:
  assumes "wf_message n flds sz" "bytes_left s < n"
  shows "returns dest (dest + sz) s h (decode_with_defaults n env rec s flds dest h)"
proof -
  obtain h1 where "pb_message_set_to_defaults n env flds dest h = Ret h1" "same_outside h h1 dest (dest + sz)"
    using sets_defaults [OF assms(1), of dest h env] by (auto simp: sets_def)
  with submsg [OF assms, of dest h1] show ?thesis
    by (auto simp: decode_with_defaults_def intro: returns_from [OF advances_refl])
qed

lemma submessage:
  assumes wf: "wf_field (Suc n) f" "PB_LTYPE (f_type f) = PB_LTYPE_SUBMESSAGE"
    and n: "bytes_left s \<le> n"
  shows "returns a (a + uint (f_data_size f)) s h (pb_dec_submessage n env rec s f a h)"
proof (cases "pb_make_string_substream s")
  case (Pair x t)
  show ?thesis
  proof (cases x)
    case None
    with Pair make_substream_None [of s t] show ?thesis
      by (simp add: pb_dec_submessage_def returns_Ret advances_lags)
  next
    case (Some sub)
    with Pair have make: "pb_make_string_substream s = (Some sub, t)" by simp
    obtain fs where fs: "f_ptr f = SubmsgFields fs" "wf_message n fs (uint (f_data_size f))"
      using wf_submsg [OF wf] .
    from make_sub_consumes [OF make] n have "bytes_left sub < n" by simp
    from with_defaults [OF fs(2) this] submsg [OF fs(2) this]
    obtain b sub' h' where r: "(if PB_HTYPE (f_type f) = PB_HTYPE_REPEATED
          then decode_with_defaults n env rec sub fs a h else rec sub fs a h) = Ret (b, sub', h')"
        and post: "dec_post a (a + uint (f_data_size f)) sub h (b, sub', h')"
      by (auto simp: returns_def) (metis (full_types))
    have "returns a (a + uint (f_data_size f)) s h
        (on_read (pb_close_string_substream t sub') h' (\<lambda>_ s. Ret (b, s, h')))"
      using post by (intro close_substream [OF make]) auto
    then show ?thesis by (simp add: pb_dec_submessage_def make fs(1) r)
  qed
qed

lemma submessage_consumes:
  assumes "pb_dec_submessage n env rec s f a h = Ret (True, t, h')"
  shows "bytes_left t < bytes_left s"
  using assms unfolding pb_dec_submessage_def
  by (rule on_read_consumes)
     (auto simp: make_consumes fail_def split: if_splits elim!: on_ret_RetE,
      (cases "f_ptr f"; auto elim!: on_ret_RetE simp: on_read_def split: option.splits prod.splits
         dest!: close_left))

definition decodable :: "byte \<Rightarrow> pb_field \<Rightarrow> nat \<Rightarrow> bool" where
  "decodable lt f k \<longleftrightarrow> wf_field (Suc n) f \<and> PB_LTYPE (f_type f) = lt \<and> k \<le> n"

end

lemma ltype_cases: "lt < 10 \<Longrightarrow> lt = 0 \<or> lt = 1 \<or> lt = 2 \<or> lt = 3 \<or> lt = 4 \<or> lt = 5 \<or> lt = 6 \<or> lt = 7
    \<or> lt = 8 \<or> lt = 9" for lt :: byte
proof -
  assume "lt < 10"
  then have "unat lt < 10" by (simp add: word_less_nat_alt)
  then have "unat lt = 0 \<or> unat lt = 1 \<or> unat lt = 2 \<or> unat lt = 3 \<or> unat lt = 4 \<or> unat lt = 5
      \<or> unat lt = 6 \<or> unat lt = 7 \<or> unat lt = 8 \<or> unat lt = 9"
    by arith
  then show ?thesis by (simp add: word_unat_eq_iff)
qed

sublocale submsg_decoder \<subseteq> table: field_decoder "PB_DECODERS n env rec lt" "decodable lt" for lt
proof unfold_locales
  fix f :: pb_field and s :: "'s pb_istream" and a h
  assume ok: "decodable lt f (bytes_left s)"
  then have wf: "wf_field (Suc n) f" "PB_LTYPE (f_type f) = lt" "bytes_left s \<le> n"
    by (auto simp: decodable_def)
  from wf_type [OF wf(1)] have t: "lt < 10" "lt \<noteq> 8" "lt = PB_LTYPE_FIXED32 \<Longrightarrow> fixed_room 4 f m"
      "lt = PB_LTYPE_FIXED64 \<Longrightarrow> fixed_room 8 f m" for m
    using wf(2) by (auto simp: type_ok_def fixed_room_def Let_def)
  from t(1,2) consider "lt = PB_LTYPE_VARINT" | "lt = PB_LTYPE_UVARINT" | "lt = PB_LTYPE_SVARINT"
    | "lt = PB_LTYPE_FIXED32" | "lt = PB_LTYPE_FIXED64" | "lt = PB_LTYPE_BYTES"
    | "lt = PB_LTYPE_STRING" | "lt = PB_LTYPE_SUBMESSAGE" | "lt = PB_LTYPE_FIXED_LENGTH_BYTES"
    using ltype_cases by blast
  note cases = this
  have sub: "returns a (a + uint (f_data_size f)) s h (pb_dec_submessage n env rec s f a h)"
    if "lt = PB_LTYPE_SUBMESSAGE"
    using submessage [OF wf(1) _ wf(3)] wf(2) that by blast
  show "returns a (a + uint (f_data_size f)) s h (PB_DECODERS n env rec lt s f a h)"
    using cases
    by cases (simp_all add: PB_DECODERS_def dec_varint.safe dec_uvarint.safe dec_svarint.safe
      dec_fixed32.safe dec_fixed64.safe dec_bytes.safe dec_string.safe dec_fixed_length.safe t
      sub)
  show "PB_DECODERS n env rec lt s f a h = Ret (True, t, h') \<Longrightarrow> bytes_left t < bytes_left s" for t h'
    using cases
    by cases (auto simp: PB_DECODERS_def t dest: dec_varint.consumes [rotated]
      dec_uvarint.consumes [rotated] dec_svarint.consumes [rotated]
      dec_fixed32.consumes [rotated] dec_fixed64.consumes [rotated] dec_bytes.consumes [rotated]
      dec_string.consumes [rotated] dec_fixed_length.consumes [rotated] submessage_consumes)
qed (auto simp: decodable_def)


lemma htype_cases:
  "PB_HTYPE x = PB_HTYPE_REQUIRED \<or> PB_HTYPE x = PB_HTYPE_OPTIONAL \<or> PB_HTYPE x = PB_HTYPE_REPEATED
     \<or> PB_HTYPE x = PB_HTYPE_ONEOF"
proof -
  define w :: byte where "w = take_bit 2 (drop_bit 4 x)"
  have mask: "(0x30 :: byte) = push_bit 4 (mask 2)"
    by (simp add: mask_eq_exp_minus_1)
  have "x AND push_bit 4 (mask 2) = push_bit 4 w"
    unfolding w_def by (rule bit_word_eqI) (auto simp: bit_simps)
  then have eq: "PB_HTYPE x = push_bit 4 w"
    by (simp only: PB_HTYPE_def mask)
  have "unat w < 2 ^ 2"
    unfolding w_def unsigned_take_bit_eq by (rule take_bit_nat_less_exp)
  then have "unat w = 0 \<or> unat w = 1 \<or> unat w = 2 \<or> unat w = 3" by auto
  then have "w = 0 \<or> w = 1 \<or> w = 2 \<or> w = 3" by (simp add: word_unat_eq_iff)
  then show ?thesis by (auto simp: eq)
qed

context submsg_decoder
begin

lemma static_field:
  assumes wf: "wf_field (Suc n) (cur it)" and ok: "it_ok lo hi it"
    and static: "PB_ATYPE (f_type (cur it)) = PB_ATYPE_STATIC" and left: "bytes_left s \<le> n"
  shows "returns lo hi s h (decode_static_field n env rec s wt it h)"
proof -
  let ?f = "cur it"
  let ?lt = "PB_LTYPE (f_type ?f)" and ?ht = "PB_HTYPE (f_type ?f)"
  let ?func = "PB_DECODERS n env rec ?lt"
  note type = wf_type [OF wf]
  have dok: "decodable ?lt ?f (bytes_left s)" using wf left by (simp add: decodable_def)
  have lt: "?lt < 10" using type by (simp add: type_ok_def Let_def)
  consider (req) "?ht = PB_HTYPE_REQUIRED" | (opt) "?ht = PB_HTYPE_OPTIONAL"
    | (rep) "?ht = PB_HTYPE_REPEATED" | (oneof) "?ht = PB_HTYPE_ONEOF"
    using htype_cases by blast
  then show ?thesis
  proof cases
    case req
    with static_room [OF ok static] dok have "returns lo hi s h (?func s ?f (pData it) h)"
      by (intro table.safe_from) auto
    with req lt show ?thesis by (simp add: decode_static_field_def Let_def)
  next
    case opt
    let ?h = "if pSize it \<noteq> pData it then store_bytes h (pSize it) [1] else h"
    have "same_outside h ?h lo hi"
      using ok opt by (auto simp: it_ok_def Let_def intro!: same_outside_store)
    with static_room [OF ok static] opt dok have "returns lo hi s h (?func s ?f (pData it) ?h)"
      by (intro table.safe_from) auto
    with opt lt show ?thesis by (simp add: decode_static_field_def Let_def)
  next
    case rep
    have packed: "returns lo hi s h (decode_packed ?func it s h)"
      by (rule table.packed_field [OF ok type static rep dok])
    have "returns lo hi s h (?func s ?f (item_addr it h)
        (store_nat h (pSize it) 4 (load_nat h (pSize it) 4 + 1)))"
      if "load_nat h (pSize it) 4 < unat (f_array_size ?f)"
    proof -
      have "same_outside h (store_nat h (pSize it) 4 (load_nat h (pSize it) 4 + 1)) lo hi"
        using ok rep by (intro same_outside_store_nat) (auto simp: it_ok_def Let_def)
      with item_room [OF ok type static rep that] dok show ?thesis by (intro table.safe_from) auto
    qed
    with packed rep lt show ?thesis by (auto simp: decode_static_field_def Let_def not_le)
  next
    case oneof
    note room = static_room [OF ok static]
    have tag: "same_outside h (store_nat h (pSize it) 4 (unat (f_tag ?f))) lo hi" (is "same_outside h ?h lo hi")
      using ok oneof by (intro same_outside_store_nat) (auto simp: it_ok_def Let_def)
    show ?thesis
    proof (cases "?lt = PB_LTYPE_SUBMESSAGE")
      case False
      with tag room oneof dok have "returns lo hi s h (?func s ?f (pData it) ?h)"
        by (intro table.safe_from) auto
      with oneof lt False show ?thesis by (simp add: decode_static_field_def Let_def)
    next
      case True
      obtain fs where fs: "f_ptr ?f = SubmsgFields fs" "wf_message n fs (uint (f_data_size ?f))"
        using wf_submsg [OF wf True] .
      let ?z = "store_bytes ?h (pData it) (replicate (unat (f_data_size ?f)) 0)"
      have "same_outside ?h ?z lo hi"
        using room oneof by (intro same_outside_store) auto
      moreover obtain h2 where h2: "pb_message_set_to_defaults n env fs (pData it) ?z = Ret h2"
          "same_outside ?z h2 lo hi"
        using sets_defaults [OF fs(2), of "pData it" ?z env] room oneof
        by (auto simp: sets_def intro: same_outside_mono)
      ultimately have "same_outside h h2 lo hi" using tag same_outside_trans by blast
      with room oneof dok have "returns lo hi s h (?func s ?f (pData it) h2)"
        by (intro table.safe_from) auto
      with oneof lt True fs h2 show ?thesis by (simp add: decode_static_field_def Let_def)
    qed
  qed
qed

lemma field:
  assumes wf: "wf_field (Suc n) (cur it)" and ok: "it_ok lo hi it" and left: "bytes_left s \<le> n"
  shows "returns lo hi s h (decode_field n env rec s wt it h)"
  using static_field [OF wf ok _ left] wf_type [OF wf]
  by (auto simp: decode_field_def decode_pointer_field_def type_ok_def Let_def)

end
subsection \<open>Required fields\<close>

definition iter_in :: "pb_field list \<Rightarrow> nat \<Rightarrow> bool" where
  "iter_in flds i \<longleftrightarrow> i < n_fields flds \<or> n_fields flds = 0 \<and> i = 0"

lemma required_count_at:
  "iter_in flds i \<Longrightarrow> required_count (iter_at flds dest i) = n_required flds"
proof (cases "n_fields flds = 0")
  case True
  assume "iter_in flds i"
  with True tag_at_n_fields [of flds] show ?thesis
    by (simp add: iter_in_def required_count_def n_required_def iter_next_empty Let_def)
next
  case False
  assume "iter_in flds i"
  with False have i: "i < n_fields flds" by (simp add: iter_in_def)
  obtain m where m: "n_fields flds = Suc m" using False by (cases "n_fields flds") auto
  have "iter_rest (Suc (length flds)) (iter_at flds dest i) = map (iter_at flds dest) [i..<Suc m]"
    using i n_fields_le [of flds] iter_rest_at [of i flds "Suc (length flds)" dest]
    unfolding m by (simp del: iter_rest.simps)
  then have last: "last (iter_rest (Suc (length flds)) (iter_at flds dest i)) = iter_at flds dest m"
    using i m by (simp del: iter_rest.simps)
  have "snd (pb_field_iter_next (iter_at flds dest m)) = iter_at flds dest 0"
    using iter_next [of m flds dest] m by simp
  moreover have "f_tag (field_at flds 0) \<noteq> 0" using tag_before_n_fields [of 0 flds] False by simp
  ultimately show ?thesis
    using last m by (simp add: required_count_def n_required_def Let_def del: iter_rest.simps)
qed

lemma required_seen_returns:
  assumes "length seen = 2" "c < 64" "c \<noteq> 32"
  shows "\<exists>b. required_seen seen c = Ret b"
proof -
  from assms obtain v w where seen: "seen = [v, w]"
    by (auto simp: length_Suc_conv numeral_2_eq_2)
  from assms(2) have "c div 32 < 2" by simp
  then consider "c div 32 = 0" | "c div 32 = Suc 0" by linarith
  moreover have "c mod 32 \<noteq> 0" if "c \<noteq> 0" using assms(2,3) that by presburger
  ultimately show ?thesis
    by cases (auto simp: seen required_seen_def)
qed

subsection \<open>Searching\<close>

lemma tags_ok_tag: "tags_ok flds \<Longrightarrow> f_tag (field_at flds i) = 0 \<Longrightarrow> length flds \<le> i"
  by (auto simp: tags_ok_def list_all_iff field_at_def split: if_splits)

lemma tags_ok_n_fields: "tags_ok flds \<Longrightarrow> n_fields flds = length flds"
  using tag_at_n_fields [of flds] tags_ok_tag n_fields_le by (metis le_antisym)

lemma find_cases:
  assumes "tags_ok flds" "iter_in flds i"
  obtains (found) j where "j < n_fields flds" "f_tag (field_at flds j) = tag"
      "pb_field_iter_find (iter_at flds dest i) tag = (True, iter_at flds dest j)"
  | (terminator) "flds = []" "i = 0" "tag = 0"
      "pb_field_iter_find (iter_at flds dest i) tag = (True, iter_at flds dest 0)"
  | (missing) "pb_field_iter_find (iter_at flds dest i) tag = (False, iter_at flds dest i)"
      "flds \<noteq> [] \<or> tag \<noteq> 0"
      "\<forall>j < n_fields flds. f_tag (field_at flds j) = tag \<longrightarrow>
         PB_LTYPE (f_type (field_at flds j)) = PB_LTYPE_EXTENSION"
proof (cases "n_fields flds = 0")
  case True
  with assms have [simp]: "flds = []" "i = 0"
    using tags_ok_n_fields by (auto simp: iter_in_def)
  show thesis
    using find_loop_empty [of "[]" "\<lambda>f. f_tag f = tag \<and> PB_LTYPE (f_type f) \<noteq> PB_LTYPE_EXTENSION" 0 dest]
    by (cases "tag = 0") (auto simp: pb_field_iter_find_def n_fields_def intro: terminator missing)
next
  case False
  with assms(2) have i: "i < n_fields flds" by (simp add: iter_in_def)
  with False have "flds \<noteq> []" using n_fields_le [of flds] by auto
  show thesis
  proof (rule find_loop_enough [OF i, where dest = dest and
      P = "\<lambda>f. f_tag f = tag \<and> PB_LTYPE (f_type f) \<noteq> PB_LTYPE_EXTENSION"])
    fix j
    assume "j < n_fields flds" and "f_tag (field_at flds j) = tag \<and>
        PB_LTYPE (f_type (field_at flds j)) \<noteq> PB_LTYPE_EXTENSION"
      and "find_loop (\<lambda>f. f_tag f = tag \<and> PB_LTYPE (f_type f) \<noteq> PB_LTYPE_EXTENSION)
        (Suc (length flds)) i (iter_at flds dest i) = (True, iter_at flds dest j)"
    then show thesis by (intro found) (auto simp only: pb_field_iter_find_def iter_at_simps)
  next
    assume "\<forall>j<n_fields flds. \<not> (f_tag (field_at flds j) = tag \<and>
        PB_LTYPE (f_type (field_at flds j)) \<noteq> PB_LTYPE_EXTENSION)"
      and "find_loop (\<lambda>f. f_tag f = tag \<and> PB_LTYPE (f_type f) \<noteq> PB_LTYPE_EXTENSION)
        (Suc (length flds)) i (iter_at flds dest i) = (False, iter_at flds dest i)"
    with \<open>flds \<noteq> []\<close> show thesis
      by (intro missing) (auto simp only: pb_field_iter_find_def iter_at_simps)
  qed
qed

lemma find_extension_none:
  assumes "\<forall>j < n_fields flds. PB_LTYPE (f_type (field_at flds j)) \<noteq> PB_LTYPE_EXTENSION"
    and "tags_ok flds" "iter_in flds i"
  shows "find_extension_field (iter_at flds dest i) = (False, iter_at flds dest i)"
proof (cases "n_fields flds = 0")
  case True
  with assms have "flds = []" "i = 0"
    using tags_ok_n_fields by (auto simp: iter_in_def)
  then show ?thesis
    using find_loop_empty [of "[]" "\<lambda>f. PB_LTYPE (f_type f) = PB_LTYPE_EXTENSION" 0 dest]
    by (simp add: find_extension_field_def n_fields_def)
next
  case False
  with assms(3) have i: "i < n_fields flds" by (simp add: iter_in_def)
  from find_loop_enough [OF i, where dest = dest and
      P = "\<lambda>f. PB_LTYPE (f_type f) = PB_LTYPE_EXTENSION"] assms(1)
  show ?thesis unfolding find_extension_field_def iter_at_simps by metis
qed

lemma tag_decoded:
  assumes "pb_decode_tag s = (Inr (wt, tag), t)"
  shows "advances s t" "bytes_left t < bytes_left s" "\<not> NOT 0 \<le> tag"
proof -
  from assms obtain v where v: "pb_decode_varint32 s = (Some v, t)" "tag = drop_bit 3 v"
    by (auto simp: pb_decode_tag_def split: prod.splits option.splits if_splits)
  then show "advances s t" "bytes_left t < bytes_left s"
    using varint32.adv varint32.consumes by blast+
  have "\<not> bit tag 31" by (auto simp: v(2) bit_drop_bit_eq dest: bit_imp_le_length)
  moreover have "bit (NOT 0 :: u32) 31" by simp
  ultimately have "tag \<noteq> NOT 0" by metis
  then show "\<not> NOT 0 \<le> tag" by (simp add: word_order.extremum_unique)
qed

subsection \<open>Messages\<close>

context submsg_decoder
begin

lemma skip_unknown:
  assumes "\<And>t. advances s t \<Longrightarrow> returns lo hi t h (k t h)"
  shows "returns lo hi s h (skip_unknown s wt h k)"
  unfolding skip_unknown_def by (rule returns_read) (auto intro: assms dest: skip_field.adv)

lemma check_required:
  assumes "required_ok flds" "iter_in flds i" "length seen = 2" "lags s t" "advances s t"
  shows "returns lo hi s h (check_required (iter_at flds dest i) seen t h)"
proof -
  obtain b where "required_seen seen (n_required flds) = Ret b"
    using assms(1,3) required_seen_returns by (auto simp: required_ok_def)
  with assms(4,5) show ?thesis
    by (auto simp: check_required_def required_count_at [OF assms(2)] fail_def returns_Ret
             intro: lags_trans)
qed

lemma loop:
  assumes wf: "wf_message (Suc n) flds sz"
  shows "iter_in flds i \<Longrightarrow> length seen = 2 \<Longrightarrow> bytes_left s < k \<Longrightarrow> bytes_left s \<le> Suc n \<Longrightarrow>
    returns dest (dest + sz) s h (decode_loop k n env rec (iter_at flds dest i) seen ext s h)"
proof (induction k arbitrary: i seen s ext h)
  case (Suc k)
  from wf have req: "required_ok flds" and tags: "tags_ok flds" and sz: "0 \<le> sz"
    by (auto simp: wf_message_def)
  show ?case
  proof (cases "bytes_left s = 0")
    case True
    with check_required [OF req Suc.prems(1,2) lags_refl advances_refl] show ?thesis by simp
  next
    case left: False
    show ?thesis
    proof (cases "pb_decode_tag s")
      case (Pair x t)
      show ?thesis
      proof (cases x)
        case (Inl eof)
        have adv: "advances s t" using Pair pb_decode_tag_adv by blast
        from check_required [OF req Suc.prems(1,2) advances_lags [OF adv] adv] Inl Pair left
        show ?thesis using adv by (auto simp: returns_Ret intro: advances_lags)
      next
        case (Inr wttag)
        obtain wt tag where "wttag = (wt, tag)" by fastforce
        with Inr Pair have t: "pb_decode_tag s = (Inr (wt, tag), t)" by simp
        note adv = tag_decoded [OF t]
        from adv(2) Suc.prems have tk: "bytes_left t < k" "bytes_left t \<le> n" by auto
        have IH: "returns dest (dest + sz) u h' (decode_loop k n env rec (iter_at flds dest j) seen' ext' u h')"
          if "advances t u" "iter_in flds j" "length seen' = 2" for u j seen' ext' h'
          using Suc.IH [OF that(2,3)] advances_left [OF that(1)] tk by simp
        have after: "returns dest (dest + sz) s h r" if "returns dest (dest + sz) t h r" for r
          using returns_from [OF adv(1) same_outside_refl that] .
        have len: "length (mark_seen i seen) = 2" for i using Suc.prems(2) by (simp add: mark_seen_def)
        have step: "decode_loop (Suc k) n env rec (iter_at flds dest i) seen ext s h =
          (case pb_field_iter_find (iter_at flds dest i) tag of
            (True, it) \<Rightarrow>
              on_dec (decode_field n env rec t wt it h)
                (decode_loop k n env rec it
                  (if PB_HTYPE (f_type (cur it)) = PB_HTYPE_REQUIRED
                      \<and> required_field_index it < PB_MAX_REQUIRED_FIELDS
                   then mark_seen (required_field_index it) seen else seen) ext)
          | (False, it) \<Rightarrow>
              if \<not> ext \<le> tag
              then skip_unknown t wt h (decode_loop k n env rec it seen ext)
              else
                let r = find_extension_field it;
                    it = snd r;
                    ext = (if fst r then f_tag (cur it) else NOT 0)
                in if \<not> ext \<le> tag
                   then skip_unknown t wt h (decode_loop k n env rec it seen ext)
                   else on_dec (decode_extension n env rec t tag wt it h) (\<lambda>s' h.
                     if bytes_left t \<noteq> bytes_left s'
                     then decode_loop k n env rec it seen ext s' h
                     else skip_unknown s' wt h (decode_loop k n env rec it seen ext)))"
          using left t by simp
        show ?thesis
        proof (rule find_cases [OF tags Suc.prems(1), where tag = tag and dest = dest])
          fix j
          assume j: "j < n_fields flds"
            and find: "pb_field_iter_find (iter_at flds dest i) tag = (True, iter_at flds dest j)"
          have wf_j: "wf_field (Suc n) (cur (iter_at flds dest j))" "it_ok dest (dest + sz) (iter_at flds dest j)"
            using wf_messageD(1) [OF wf j, of dest] wf_messageD(2) [OF wf j] by simp_all
          have fld: "returns dest (dest + sz) t h (decode_field n env rec t wt (iter_at flds dest j) h)"
            by (rule field [OF wf_j tk(2)])
          have "iter_in flds j" using j by (simp add: iter_in_def)
          then have "returns dest (dest + sz) t h
            (on_dec (decode_field n env rec t wt (iter_at flds dest j) h)
              (decode_loop k n env rec (iter_at flds dest j) seen' ext))" if "length seen' = 2" for seen'
            using fld that by (intro returns_dec IH) (auto simp: returns_Ret)
          with len Suc.prems(2) find show ?thesis unfolding step by (intro after) auto
        next
          assume empty: "flds = []" "i = 0"
            and find: "pb_field_iter_find (iter_at flds dest i) tag = (True, iter_at flds dest 0)"
          have last_field: "cur (iter_at flds dest 0) = PB_LAST_FIELD" by (simp add: empty(1))
          have "returns dest (dest + sz) t h (decode_field n env rec t wt (iter_at flds dest 0) h)"
            using dec_varint.safe [where f = PB_LAST_FIELD and s = t and a = dest and h = h] sz
            by (auto simp: decode_field_def decode_static_field_def last_field empty PB_DECODERS_def Let_def
                     intro: returns_mono)
          then have "returns dest (dest + sz) t h
            (on_dec (decode_field n env rec t wt (iter_at flds dest 0) h)
              (decode_loop k n env rec (iter_at flds dest 0) seen' ext))" if "length seen' = 2" for seen'
            using that Suc.prems(1) empty by (intro returns_dec IH) (auto simp: returns_Ret)
          with len Suc.prems(2) find show ?thesis unfolding step by (intro after) auto
        next
          assume find: "pb_field_iter_find (iter_at flds dest i) tag = (False, iter_at flds dest i)"
          have "PB_LTYPE (f_type (field_at flds j)) \<noteq> PB_LTYPE_EXTENSION" if "j < n_fields flds" for j
            using wf_type [OF wf_messageD(2) [OF wf that]] by (simp add: type_ok_def Let_def)
          then have ext: "find_extension_field (iter_at flds dest i) = (False, iter_at flds dest i)"
            using find_extension_none [OF _ tags Suc.prems(1)] by blast
          have "returns dest (dest + sz) t h
              (skip_unknown t wt h (decode_loop k n env rec (iter_at flds dest i) seen ext'))" for ext'
            using IH Suc.prems(1,2) by (intro skip_unknown) auto
          with find ext adv(3) show ?thesis unfolding step by (intro after) auto
        qed
      qed
    qed
  qed
qed simp

end

text \<open>
  The decoder returns from every input, with fuel above the nesting depth of the
  descriptor and the length of the stream.
\<close>

theorem pb_decode_noinit_returns:
  "wf_message n flds sz \<Longrightarrow> bytes_left s < n \<Longrightarrow>
   returns dest (dest + sz) s h (pb_decode_noinit n env s flds dest h)"
proof (induction n arbitrary: flds sz s dest h)
  case (Suc n)
  have rec: "submsg_decoder (pb_decode_noinit n env) n"
    by unfold_locales (rule Suc.IH)
  show ?case
    unfolding pb_decode_noinit.simps iter_begin snd_conv
    by (rule submsg_decoder.loop [OF rec Suc.prems(1)]) (use Suc.prems(2) in \<open>auto simp: iter_in_def\<close>)
qed simp

lemma pb_decode_returns:
  assumes "wf_message n flds sz" "bytes_left s < n"
  shows "returns dest (dest + sz) s h (pb_decode n env s flds dest h)"
proof -
  have "submsg_decoder (pb_decode_noinit n env) n"
    by unfold_locales (rule pb_decode_noinit_returns)
  from submsg_decoder.with_defaults [OF this assms, of dest h env] show ?thesis
    by (simp add: pb_decode_def decode_with_defaults_def)
qed

lemma pb_decode_delimited_returns:
  assumes "wf_message n flds sz" "bytes_left s < n"
  shows "returns dest (dest + sz) s h (pb_decode_delimited n env s flds dest h)"
proof (cases "pb_make_string_substream s")
  case (Pair x t)
  show ?thesis
  proof (cases x)
    case None
    with Pair make_substream_None [of s t] show ?thesis
      by (simp add: pb_decode_delimited_def returns_Ret advances_lags)
  next
    case (Some sub)
    with Pair have make: "pb_make_string_substream s = (Some sub, t)" by simp
    from make_sub_consumes [OF this] assms(2) have "bytes_left sub < n" by simp
    from pb_decode_returns [OF assms(1) this]
    obtain b sub' h' where r: "pb_decode n env sub flds dest h = Ret (b, sub', h')"
        and post: "dec_post dest (dest + sz) sub h (b, sub', h')"
      unfolding returns_def by (metis prod_cases3)
    have "returns dest (dest + sz) s h
        (on_read (pb_close_string_substream t sub') h' (\<lambda>_ s. Ret (b, s, h')))"
      using post by (intro close_substream [OF make]) auto
    then show ?thesis by (simp add: pb_decode_delimited_def make r)
  qed
qed

lemma returns_outcome:
  assumes "returns lo hi s h r"
  shows "\<exists>ok s' h'. r = Ret (ok, s', h') \<and> same_outside h h' lo hi
    \<and> bytes_left s' \<le> bytes_left s \<and> (istream_ok s \<longrightarrow> istream_ok s') \<and> (ok \<longrightarrow> advances s s')"
proof -
  obtain ok s' h' where r: "r = Ret (ok, s', h')" and post: "dec_post lo hi s h (ok, s', h')"
    using assms unfolding returns_def by (metis prod_cases3)
  with lags_ok [of s s'] show ?thesis by (auto simp: lags_def)
qed

end
