(* ===== verification/PB_OStream.thy ===== *)
theory PB_OStream
  imports PB_Types
begin

text \<open>
  Output streams and the primitive encoders of \<open>pb_encode.c\<close>: \<open>pb_write\<close>,
  varints, zig-zag varints, fixed-width integers, tags and strings. Each encoder
  writes a byte sequence that does not depend on the stream (\<open>varint_bytes\<close> and so
  on); the lemmas describe a write to a buffer and to a sizing stream.
\<close>

subsection \<open>Writing\<close>

definition buf_write :: "byte list \<Rightarrow> byte list \<Rightarrow> nat \<Rightarrow> bool \<times> byte list" where
  "buf_write dest buf count = (True, dest @ take count buf)"

definition pb_ostream_from_buffer :: "nat \<Rightarrow> 's pb_ostream" where
  "pb_ostream_from_buffer bufsize =
     \<lparr>o_sink = BufWrite [], max_size = bufsize, bytes_written = 0, o_errmsg = None\<rparr>"

definition PB_OSTREAM_SIZING :: "'s pb_ostream" where
  "PB_OSTREAM_SIZING = \<lparr>o_sink = NullSink, max_size = 0, bytes_written = 0, o_errmsg = None\<rparr>"

definition run_sink :: "'s osink \<Rightarrow> byte list \<Rightarrow> nat \<Rightarrow> bool \<times> 's osink" where
  "run_sink snk buf count =
     (case snk of
        NullSink \<Rightarrow> (True, NullSink)
      | BufWrite dest \<Rightarrow> (case buf_write dest buf count of (ok, dest') \<Rightarrow> (ok, BufWrite dest'))
      | UserWrite f st \<Rightarrow> (case f st (take count buf) of (ok, st') \<Rightarrow> (ok, UserWrite f st')))"

fun is_sizing :: "'s osink \<Rightarrow> bool" where
  "is_sizing NullSink = True"
| "is_sizing _ = False"

text \<open>\<open>size_t\<close> addition wraps at \<open>2 ^ 64\<close>.\<close>

definition size_add :: "nat \<Rightarrow> nat \<Rightarrow> nat" where
  "size_add a b = (a + b) mod 2 ^ 64"

definition pb_write :: "'s pb_ostream \<Rightarrow> byte list \<Rightarrow> nat \<Rightarrow> bool \<times> 's pb_ostream" where
  "pb_write s buf count =
     (if \<not> is_sizing (o_sink s) \<and> size_add (bytes_written s) count > max_size s
      then (False, set_oerror ''stream full'' s)
      else case (if \<not> is_sizing (o_sink s) then run_sink (o_sink s) buf count
                 else (True, o_sink s)) of
        (False, snk) \<Rightarrow> (False, set_oerror ''io error'' (s\<lparr>o_sink := snk\<rparr>))
      | (True, snk) \<Rightarrow>
          (True, s\<lparr>o_sink := snk, bytes_written := size_add (bytes_written s) count\<rparr>))"

text \<open>\<open>if (!r) return false; f\<close> for functions that only return \<open>bool\<close>.\<close>

definition on_true :: "bool \<times> 's \<Rightarrow> ('s \<Rightarrow> bool \<times> 's) \<Rightarrow> bool \<times> 's" where
  "on_true r f = (case r of (False, s) \<Rightarrow> (False, s) | (True, s) \<Rightarrow> f s)"

lemma on_true_simps [simp]:
  "on_true (False, s) f = (False, s)" "on_true (True, s) f = f s"
  by (simp_all add: on_true_def)

lemma on_true_split:
  "P (on_true r f) \<longleftrightarrow> (\<forall>s. r = (False, s) \<longrightarrow> P (False, s)) \<and> (\<forall>s. r = (True, s) \<longrightarrow> P (f s))"
  by (auto simp: on_true_def split: prod.splits bool.splits)

lemma on_true_split_asm:
  "P (on_true r f) \<longleftrightarrow>
     \<not> ((\<exists>s. r = (False, s) \<and> \<not> P (False, s)) \<or> (\<exists>s. r = (True, s) \<and> \<not> P (f s)))"
  by (auto simp: on_true_def split: prod.splits bool.splits)

lemmas on_true_splits = on_true_split on_true_split_asm

subsection \<open>Varints\<close>

text \<open>
  The loop of \<open>pb_encode_varint\<close> over \<open>value\<close>: the bytes it stores in \<open>buffer\<close>.
\<close>

function varint_buffer :: "u64 \<Rightarrow> byte list" where
  "varint_buffer value =
     (if value = 0 then []
      else (ucast (value AND 0x7F) OR 0x80) # varint_buffer (drop_bit 7 value))"
  by pat_completeness auto
termination
proof (relation "measure unat")
  fix v :: u64
  assume "v \<noteq> 0"
  then have "0 < unat v" by (simp add: unat_gt_0)
  then have "unat v div 128 < unat v" by simp
  then show "(drop_bit 7 v, v) \<in> measure unat"
    by (simp add: drop_bit_eq_div unat_div)
qed simp

declare varint_buffer.simps [simp del]

definition varint_bytes :: "u64 \<Rightarrow> byte list" where
  "varint_bytes value =
     (if value \<le> 0x7F then [ucast value]
      else let buffer = varint_buffer value
           in butlast buffer @ [last buffer AND 0x7F])"

definition pb_encode_varint :: "'s pb_ostream \<Rightarrow> u64 \<Rightarrow> bool \<times> 's pb_ostream" where
  "pb_encode_varint s value = pb_write s (varint_bytes value) (length (varint_bytes value))"

definition zigzag :: "int \<Rightarrow> u64" where
  "zigzag value =
     (if value < 0 then NOT (push_bit 1 (word_of_int value)) else push_bit 1 (word_of_int value))"

definition pb_encode_svarint :: "'s pb_ostream \<Rightarrow> int \<Rightarrow> bool \<times> 's pb_ostream" where
  "pb_encode_svarint s value = pb_encode_varint s (zigzag value)"

subsection \<open>Fixed-width integers, tags, strings\<close>

definition fixed32_bytes :: "u32 \<Rightarrow> byte list" where
  "fixed32_bytes val =
     [ucast (val AND 0xFF), ucast (drop_bit 8 val AND 0xFF),
      ucast (drop_bit 16 val AND 0xFF), ucast (drop_bit 24 val AND 0xFF)]"

definition pb_encode_fixed32 :: "'s pb_ostream \<Rightarrow> u32 \<Rightarrow> bool \<times> 's pb_ostream" where
  "pb_encode_fixed32 s val = pb_write s (fixed32_bytes val) 4"

definition fixed64_bytes :: "u64 \<Rightarrow> byte list" where
  "fixed64_bytes val =
     [ucast (val AND 0xFF), ucast (drop_bit 8 val AND 0xFF),
      ucast (drop_bit 16 val AND 0xFF), ucast (drop_bit 24 val AND 0xFF),
      ucast (drop_bit 32 val AND 0xFF), ucast (drop_bit 40 val AND 0xFF),
      ucast (drop_bit 48 val AND 0xFF), ucast (drop_bit 56 val AND 0xFF)]"

definition pb_encode_fixed64 :: "'s pb_ostream \<Rightarrow> u64 \<Rightarrow> bool \<times> 's pb_ostream" where
  "pb_encode_fixed64 s val = pb_write s (fixed64_bytes val) 8"

definition tag_value :: "pb_wire_type \<Rightarrow> u32 \<Rightarrow> u64" where
  "tag_value wiretype field_number = push_bit 3 (ucast field_number) OR word_of_nat wiretype"

definition pb_encode_tag :: "'s pb_ostream \<Rightarrow> pb_wire_type \<Rightarrow> u32 \<Rightarrow> bool \<times> 's pb_ostream" where
  "pb_encode_tag s wiretype field_number = pb_encode_varint s (tag_value wiretype field_number)"

text \<open>The wire type of a data type; \<open>None\<close> is the \<open>default\<close> branch.\<close>

definition wire_type_of :: "byte \<Rightarrow> pb_wire_type option" where
  "wire_type_of ltype =
     (if ltype = PB_LTYPE_VARINT \<or> ltype = PB_LTYPE_UVARINT \<or> ltype = PB_LTYPE_SVARINT
      then Some PB_WT_VARINT
      else if ltype = PB_LTYPE_FIXED32 then Some PB_WT_32BIT
      else if ltype = PB_LTYPE_FIXED64 then Some PB_WT_64BIT
      else if ltype = PB_LTYPE_BYTES \<or> ltype = PB_LTYPE_STRING
           \<or> ltype = PB_LTYPE_SUBMESSAGE \<or> ltype = PB_LTYPE_FIXED_LENGTH_BYTES
      then Some PB_WT_STRING
      else None)"

definition pb_encode_tag_for_field :: "'s pb_ostream \<Rightarrow> pb_field \<Rightarrow> bool \<times> 's pb_ostream" where
  "pb_encode_tag_for_field s f =
     (case wire_type_of (PB_LTYPE (f_type f)) of
        None \<Rightarrow> (False, set_oerror ''invalid field type'' s)
      | Some wiretype \<Rightarrow> pb_encode_tag s wiretype (f_tag f))"

definition pb_encode_string :: "'s pb_ostream \<Rightarrow> byte list \<Rightarrow> nat \<Rightarrow> bool \<times> 's pb_ostream" where
  "pb_encode_string s buffer len =
     on_true (pb_encode_varint s (word_of_nat len)) (\<lambda>s. pb_write s buffer len)"

subsection \<open>The effect of a write\<close>

text \<open>
  \<open>emit s bs\<close> is the stream after \<open>bs\<close> has been written in full; \<open>fits s n\<close> says
  that a stream accepts \<open>n\<close> more bytes (a sizing stream accepts everything).
\<close>

fun sink_append :: "'s osink \<Rightarrow> byte list \<Rightarrow> 's osink" where
  "sink_append (BufWrite dest) bs = BufWrite (dest @ bs)"
| "sink_append snk bs = snk"

definition emit :: "'s pb_ostream \<Rightarrow> byte list \<Rightarrow> 's pb_ostream" where
  "emit s bs = s\<lparr>o_sink := sink_append (o_sink s) bs,
                 bytes_written := size_add (bytes_written s) (length bs)\<rparr>"

fun plain_sink :: "'s osink \<Rightarrow> bool" where
  "plain_sink (UserWrite _ _) = False"
| "plain_sink _ = True"

definition fits :: "'s pb_ostream \<Rightarrow> nat \<Rightarrow> bool" where
  "fits s n \<longleftrightarrow> is_sizing (o_sink s) \<or> bytes_written s + n \<le> max_size s"

text \<open>
  A sizing stream or a stream to a memory buffer, with no error so far. No object
  in memory is larger than \<open>PTRDIFF_MAX\<close>, so the limit of a buffer is below \<open>2 ^ 63\<close>.
\<close>

definition ostream_ok :: "'s pb_ostream \<Rightarrow> bool" where
  "ostream_ok s \<longleftrightarrow> plain_sink (o_sink s) \<and> o_errmsg s = None \<and> max_size s < 2 ^ 63
     \<and> bytes_written s < 2 ^ 64
     \<and> (\<not> is_sizing (o_sink s) \<longrightarrow> bytes_written s \<le> max_size s)"

text \<open>
  The contract of an encoder: on every such stream it writes the bytes \<open>bs\<close> and then
  returns \<open>true\<close> (\<open>Complete\<close>), \<open>false\<close> with the message \<open>m\<close> (\<open>Fails m\<close>) or \<open>false\<close>
  with no message (\<open>FailsSilently\<close>); if the bytes do not fit it writes a prefix that
  fits, returns \<open>false\<close> and reports \<open>stream full\<close>.
\<close>

datatype enc_end = Complete | Fails string | FailsSilently

type_synonym enc_spec = "byte list \<times> enc_end"

definition stream_full :: "'s pb_ostream \<Rightarrow> byte list \<Rightarrow> 's pb_ostream \<Rightarrow> bool" where
  "stream_full s bs t \<longleftrightarrow>
     (\<exists>k \<le> length bs. bytes_written s + k \<le> max_size s
        \<and> t = set_oerror ''stream full'' (emit s (take k bs)))"

fun finish :: "enc_end \<Rightarrow> 's pb_ostream \<Rightarrow> bool \<times> 's pb_ostream" where
  "finish Complete s = (True, s)"
| "finish (Fails m) s = (False, set_oerror m s)"
| "finish FailsSilently s = (False, s)"

definition emits :: "('s pb_ostream \<Rightarrow> bool \<times> 's pb_ostream) \<Rightarrow> enc_spec \<Rightarrow> bool" where
  "emits w sp \<longleftrightarrow> (\<forall>s. ostream_ok s \<longrightarrow>
     (if fits s (length (fst sp)) then w s = finish (snd sp) (emit s (fst sp))
      else \<exists>t. w s = (False, t) \<and> stream_full s (fst sp) t))"

fun spec_then :: "enc_spec \<Rightarrow> enc_spec \<Rightarrow> enc_spec" where
  "spec_then (bs, Complete) (bs', e) = (bs @ bs', e)"
| "spec_then (bs, e) sp = (bs, e)"

lemma size_add_0 [simp]: "n < 2 ^ 64 \<Longrightarrow> size_add n 0 = n"
  by (simp add: size_add_def)

lemma size_add_assoc: "size_add (size_add a b) c = size_add a (b + c)"
  by (simp add: size_add_def mod_simps add.assoc)

lemma size_add_less [simp]: "size_add a b < 18446744073709551616"
  by (simp add: size_add_def)

lemma size_add_small: "a + b < 2 ^ 64 \<Longrightarrow> size_add a b = a + b"
  by (simp add: size_add_def)

lemma sink_append_simps [simp]:
  "is_sizing (sink_append snk bs) = is_sizing snk"
  "plain_sink (sink_append snk bs) = plain_sink snk"
  "sink_append (sink_append snk bs) bs' = sink_append snk (bs @ bs')"
  "sink_append snk [] = snk"
  by (cases snk; simp)+

lemma emit_simps [simp]:
  "o_sink (emit s bs) = sink_append (o_sink s) bs"
  "max_size (emit s bs) = max_size s"
  "o_errmsg (emit s bs) = o_errmsg s"
  "bytes_written (emit s bs) = size_add (bytes_written s) (length bs)"
  by (simp_all add: emit_def)

lemma emit_emit [simp]: "emit (emit s bs) bs' = emit s (bs @ bs')"
  by (simp add: emit_def size_add_assoc)

lemma emit_Nil: "ostream_ok s \<Longrightarrow> emit s [] = s"
  by (simp add: emit_def ostream_ok_def)

lemma fits_sum: "ostream_ok s \<Longrightarrow> fits s n \<Longrightarrow> \<not> is_sizing (o_sink s) \<Longrightarrow>
    size_add (bytes_written s) n = bytes_written s + n"
  by (auto simp: fits_def ostream_ok_def intro!: size_add_small)

lemma emit_ok: "ostream_ok s \<Longrightarrow> fits s (length bs) \<Longrightarrow> ostream_ok (emit s bs)"
  using fits_sum [of s "length bs"] by (auto simp: ostream_ok_def fits_def)

lemma fits_emit:
  "ostream_ok s \<Longrightarrow> fits s (length bs) \<Longrightarrow> fits (emit s bs) n \<longleftrightarrow> fits s (length bs + n)"
  using fits_sum [of s "length bs"] by (cases "is_sizing (o_sink s)") (auto simp: fits_def)

lemma fits_less: "fits s (m + n) \<Longrightarrow> fits s m"
  by (auto simp: fits_def)

lemma stream_full_emit:
  assumes ok: "ostream_ok s" and f: "fits s (length bs)" and n: "\<not> is_sizing (o_sink s)"
    and full: "stream_full (emit s bs) bs' t"
  shows "stream_full s (bs @ bs') t"
proof -
  from full obtain k where k: "k \<le> length bs'"
      "bytes_written (emit s bs) + k \<le> max_size (emit s bs)"
      "t = set_oerror ''stream full'' (emit (emit s bs) (take k bs'))"
    by (auto simp: stream_full_def)
  with fits_sum [OF ok f n] show ?thesis
    by (auto simp: stream_full_def intro!: exI [of _ "length bs + k"])
qed

lemma stream_full_append:
  assumes "stream_full s bs t"
  shows "stream_full s (bs @ bs') t"
proof -
  from assms obtain k where "k \<le> length bs" "bytes_written s + k \<le> max_size s"
      "t = set_oerror ''stream full'' (emit s (take k bs))"
    by (auto simp: stream_full_def)
  then show ?thesis by (auto simp: stream_full_def intro!: exI [of _ k])
qed

text \<open>Sequencing two encoders with the C idiom sequences their specifications.\<close>

lemma emits_then:
  assumes w: "emits w sp" and v: "snd sp = Complete \<Longrightarrow> emits v sp'"
  shows "emits (\<lambda>s. on_true (w s) v) (spec_then sp sp')"
  unfolding emits_def
proof (intro allI impI)
  fix s :: "'a pb_ostream"
  assume ok: "ostream_ok s"
  obtain bs e where sp: "sp = (bs, e)" by fastforce
  obtain bs' e' where sp': "sp' = (bs', e')" by fastforce
  note w = w [unfolded emits_def sp, rule_format, OF ok]
  show "if fits s (length (fst (spec_then sp sp')))
        then on_true (w s) v = finish (snd (spec_then sp sp')) (emit s (fst (spec_then sp sp')))
        else \<exists>t. on_true (w s) v = (False, t) \<and> stream_full s (fst (spec_then sp sp')) t"
  proof (cases "e = Complete")
    case False
    with w sp sp' show ?thesis by (cases e) (auto split: if_splits)
  next
    case None: True
    show ?thesis
    proof (cases "fits s (length bs)")
      case False
      then have "\<not> fits s (length bs + length bs')" using fits_less by blast
      with False None w sp sp' show ?thesis by (auto intro: stream_full_append)
    next
      case True
      with v sp None have "emits v sp'" by simp
      note v = this [unfolded emits_def sp', rule_format, OF emit_ok [OF ok True]]
      have "\<not> fits s (length bs + length bs') \<Longrightarrow> \<not> is_sizing (o_sink s)"
        by (auto simp: fits_def)
      with True None w v sp sp' fits_emit [OF ok True] stream_full_emit [OF ok True]
      show ?thesis by (auto split: if_splits)
    qed
  qed
qed

lemma emits_write:
  "length buf = n \<Longrightarrow> n < 2 ^ 63 \<Longrightarrow> emits (\<lambda>s. pb_write s buf n) (buf, Complete)"
  unfolding emits_def
proof (intro allI impI)
  fix s :: "'a pb_ostream"
  assume n: "length buf = n" "n < 2 ^ 63" and ok: "ostream_ok s"
  show "if fits s (length (fst (buf, Complete))) then pb_write s buf n = finish (snd (buf, Complete)) (emit s (fst (buf, Complete)))
        else \<exists>t. pb_write s buf n = (False, t) \<and> stream_full s (fst (buf, Complete)) t"
  proof (cases "o_sink s")
    case NullSink
    with n show ?thesis by (simp add: fits_def pb_write_def emit_def)
  next
    case (UserWrite f st)
    with ok show ?thesis by (simp add: ostream_ok_def)
  next
    case (BufWrite dest)
    with ok n have "size_add (bytes_written s) n = bytes_written s + n" "bytes_written s \<le> max_size s"
      by (auto simp: ostream_ok_def intro!: size_add_small)
    moreover have "emit s [] = s" by (rule emit_Nil [OF ok])
    ultimately show ?thesis using BufWrite n
      by (auto simp: fits_def pb_write_def run_sink_def buf_write_def emit_def stream_full_def
               intro!: exI [of _ 0])
  qed
qed

lemma emits_cong: "(\<And>s. ostream_ok s \<Longrightarrow> w s = w' s) \<Longrightarrow> emits w sp \<longleftrightarrow> emits w' sp"
  by (simp add: emits_def)

lemma emits_varint: "emits (\<lambda>s. pb_encode_varint s v) (varint_bytes v, Complete)"
  if "length (varint_bytes v) < 2 ^ 63"
  using emits_write [OF refl that] by (simp add: pb_encode_varint_def)

lemma emits_fixed32: "emits (\<lambda>s. pb_encode_fixed32 s v) (fixed32_bytes v, Complete)"
  unfolding pb_encode_fixed32_def by (rule emits_write) (simp_all add: fixed32_bytes_def)

lemma emits_fixed64: "emits (\<lambda>s. pb_encode_fixed64 s v) (fixed64_bytes v, Complete)"
  unfolding pb_encode_fixed64_def by (rule emits_write) (simp_all add: fixed64_bytes_def)

lemma emits_string:
  assumes "length buf = n" "n < 2 ^ 63" "length (varint_bytes (word_of_nat n)) < 2 ^ 63"
  shows "emits (\<lambda>s. pb_encode_string s buf n) (varint_bytes (word_of_nat n) @ buf, Complete)"
  using emits_then [OF emits_varint [OF assms(3)] emits_write [OF assms(1,2)]]
  by (simp add: pb_encode_string_def)

subsection \<open>Properties\<close>

text \<open>
  Theorem (pb_write_buffer): \<open>pb_write\<close> to a memory buffer either appends the bytes and
  counts them, or leaves buffer and count as they were and reports a full stream; it
  never goes past \<open>max_size\<close>.
\<close>

theorem pb_write_buffer:
  assumes "o_sink s = BufWrite dest" and "bytes_written s = length dest" and "length dest \<le> max_size s"
    and "max_size s < 2 ^ 63" and "length buf < 2 ^ 63"
  shows "pb_write s buf (length buf) =
    (if length dest + length buf \<le> max_size s
     then (True, s\<lparr>o_sink := BufWrite (dest @ buf), bytes_written := length (dest @ buf)\<rparr>)
     else (False, set_oerror ''stream full'' s))"
  using assms by (simp add: pb_write_def run_sink_def buf_write_def size_add_def)

lemma pb_write_buffer_witness:
  "pb_write \<lparr>o_sink = BufWrite [1], max_size = 3, bytes_written = 1, o_errmsg = None\<rparr> [2, 3] 2
     = (True, \<lparr>o_sink = BufWrite [1, 2, 3], max_size = 3, bytes_written = 3, o_errmsg = None\<rparr> :: unit pb_ostream)"
  using pb_write_buffer [of "\<lparr>o_sink = BufWrite [1], max_size = 3, bytes_written = 1, o_errmsg = None\<rparr>" "[1]" "[2, 3]"]
  by simp (simp flip: numeral_2_eq_2 numeral_3_eq_3)

text \<open>
  Theorem (pb_write_wraps): the bound check adds the count to \<open>bytes_written\<close> in \<open>size_t\<close>
  arithmetic, so a count close to \<open>2 ^ 64\<close> wraps around and is accepted by every stream
  with a positive count so far.
\<close>

theorem pb_write_wraps:
  assumes "o_sink s = BufWrite dest" and "0 < bytes_written s" and "bytes_written s \<le> max_size s"
    and "bytes_written s < 2 ^ 64"
  shows "fst (pb_write s buf (2 ^ 64 - 1)) \<and> bytes_written (snd (pb_write s buf (2 ^ 64 - 1))) = bytes_written s - 1"
proof -
  have "size_add (bytes_written s) (2 ^ 64 - 1) = bytes_written s - 1"
  proof -
    have "bytes_written s + (2 ^ 64 - 1) = (bytes_written s - 1) + 2 ^ 64" using assms(2) by simp
    then have "size_add (bytes_written s) (2 ^ 64 - 1) = ((bytes_written s - 1) + 2 ^ 64) mod 2 ^ 64"
      by (simp only: size_add_def)
    also have "\<dots> = bytes_written s - 1" using assms(4) by simp
    finally show ?thesis .
  qed
  with assms show ?thesis by (simp add: pb_write_def run_sink_def buf_write_def)
qed

lemma pb_write_wraps_witness:
  "fst (pb_write (\<lparr>o_sink = BufWrite [1], max_size = 3, bytes_written = 1, o_errmsg = None\<rparr> :: unit pb_ostream)
     [] (2 ^ 64 - 1))"
  using pb_write_wraps [of "\<lparr>o_sink = BufWrite [1], max_size = 3, bytes_written = 1, o_errmsg = None\<rparr> :: unit pb_ostream" "[1]" "[]"]
  by simp

end
