(* ===== verification/PB_Wire.thy ===== *)
theory PB_Wire
  imports PB_IStream PB_OStream
begin

text \<open>
  The wire format of nanopb's primitives: each primitive decoder reads back what
  the primitive encoder writes. The interface \<open>wire_codec\<close> states this once (a
  value's bytes, followed by anything, decode to the value and leave the rest)
  and derives the consequences; varints, zig-zag varints, fixed-width integers and
  tags are its instances.
\<close>

subsection \<open>Decoding from a memory buffer\<close>

definition reads ::
  "('s pb_istream \<Rightarrow> 'a option \<times> 's pb_istream) \<Rightarrow> byte list \<Rightarrow> 'a \<Rightarrow> bool" where
  "reads r bs a \<longleftrightarrow>
     (\<forall>s rest. i_source s = BufRead (bs @ rest) \<longrightarrow> length bs \<le> bytes_left s \<longrightarrow>
        r s = (Some a, s\<lparr>i_source := BufRead rest, bytes_left := bytes_left s - length bs\<rparr>))"

lemma readsI:
  "(\<And>s rest. i_source s = BufRead (bs @ rest) \<Longrightarrow> length bs \<le> bytes_left s \<Longrightarrow>
      r s = (Some a, s\<lparr>i_source := BufRead rest, bytes_left := bytes_left s - length bs\<rparr>)) \<Longrightarrow>
   reads r bs a"
  by (simp add: reads_def)

lemma readsD:
  "reads r bs a \<Longrightarrow> i_source s = BufRead (bs @ rest) \<Longrightarrow> length bs \<le> bytes_left s \<Longrightarrow>
   r s = (Some a, s\<lparr>i_source := BufRead rest, bytes_left := bytes_left s - length bs\<rparr>)"
  by (simp add: reads_def)

lemma reads_then:
  assumes "reads r bs a" and "reads (f a) bs' b"
  shows "reads (\<lambda>s. on_ok (r s) f) (bs @ bs') b"
proof (rule readsI)
  fix s :: "'a pb_istream" and rest
  assume src: "i_source s = BufRead ((bs @ bs') @ rest)" and left: "length (bs @ bs') \<le> bytes_left s"
  with readsD [OF assms(1), of s "bs' @ rest"] readsD [OF assms(2)]
  show "on_ok (r s) f = (Some b, s\<lparr>i_source := BufRead rest,
          bytes_left := bytes_left s - length (bs @ bs')\<rparr>)"
    by simp
qed

lemma reads_map:
  "reads r bs a \<Longrightarrow> reads (\<lambda>s. on_ok (r s) (\<lambda>a s. (Some (g a), s))) bs (g a)"
  by (auto simp: reads_def)

lemma fill_exact [simp]: "fill (length bs) (bs @ rest) = bs"
  by (simp add: fill_def)

lemma reads_direct: "length bs = n \<Longrightarrow> reads (\<lambda>s. pb_read_direct s n) bs bs"
  by (auto simp: reads_def pb_read_direct_def run_callback_def buf_read_def)

lemma reads_read: "length bs = n \<Longrightarrow> reads (\<lambda>s. pb_read s n) bs bs"
  using reads_direct [of bs n] by (simp add: pb_read_def)

lemma reads_read_null: "length bs = n \<Longrightarrow> reads (\<lambda>s. pb_read_null s n) bs ()"
  by (rule readsI) (simp add: pb_read_null_def readsD [OF reads_direct])

lemma reads_byte: "reads pb_readbyte [b] b"
  using fill_exact [of "[b]"]
  by (auto simp: reads_def pb_readbyte_def run_callback_def buf_read_def)

lemma reads_byte_then:
  "reads (f b) bs a \<Longrightarrow> reads (\<lambda>s. on_ok (pb_readbyte s) f) (b # bs) a"
  using reads_then [OF reads_byte, of f b bs a] by simp

subsection \<open>The codec interface\<close>

locale wire_codec =
  fixes enc :: "'v \<Rightarrow> byte list"
    and dec :: "'s pb_istream \<Rightarrow> 'v option \<times> 's pb_istream"
    and valid :: "'v \<Rightarrow> bool"
  assumes decodes: "valid v \<Longrightarrow> reads dec (enc v) v"
begin

lemma from_buffer:
  "valid v \<Longrightarrow> dec (pb_istream_from_buffer (enc v @ rest) (length (enc v) + n)) =
     (Some v, pb_istream_from_buffer rest n)"
  using readsD [OF decodes] by (simp add: pb_istream_from_buffer_def)

lemma prefix_free:
  assumes "valid v" "valid w" "enc v @ rest = enc w @ rest'"
  shows "v = w \<and> rest = rest'"
proof -
  define s :: "'s pb_istream" where
    "s = pb_istream_from_buffer (enc v @ rest) (length (enc v @ rest))"
  have "dec s = (Some v, pb_istream_from_buffer rest (length rest))"
    using from_buffer [OF assms(1)] by (simp add: s_def)
  moreover have "dec s = (Some w, pb_istream_from_buffer rest' (length rest'))"
    using from_buffer [OF assms(2), of rest'] by (simp add: s_def assms(3))
  ultimately show ?thesis by (simp add: pb_istream_from_buffer_def)
qed

lemma injective: "valid v \<Longrightarrow> valid w \<Longrightarrow> enc v = enc w \<Longrightarrow> v = w"
  using prefix_free [of v w "[]" "[]"] by simp

end

subsection \<open>Varints\<close>

lemma mask_7F: "(0x7F :: 'a::len word) = mask 7"
  by (simp add: mask_eq_exp_minus_1)

lemma and_7F: "w AND 0x7F = take_bit 7 w" for w :: "'a::len word"
  by (simp add: mask_7F take_bit_eq_mask)

lemma high_bit_set: "(w OR 0x80) AND 0x80 = 0x80" for w :: byte
  by (simp add: bit.conj_disj_distrib2)

lemma low_bits_byte: "(ucast ((ucast (v AND 0x7F) OR 0x80 :: byte) AND 0x7F) :: 'a::len word)
    = ucast (v AND 0x7F)" for v :: u64
proof -
  have "take_bit 7 (ucast (take_bit 7 v) OR 0x80 :: byte) = take_bit 7 (ucast (take_bit 7 v))"
    by (simp add: take_bit_or)
  also have "(ucast (take_bit 7 (ucast (take_bit 7 v) :: byte)) :: 'a word) = ucast (take_bit 7 v)"
    by (rule bit_word_eqI) (auto simp: bit_simps)
  finally show ?thesis by (simp add: and_7F)
qed

lemma varint_split: "take_bit 7 v OR push_bit 7 (drop_bit 7 v) = v" for v :: "'a::len word"
proof (rule bit_word_eqI)
  fix n
  assume "n < LENGTH('a)"
  then show "bit (take_bit 7 v OR push_bit 7 (drop_bit 7 v)) n = bit v n"
    by (cases "n < 7") (auto simp: bit_simps)
qed

lemma varint_chunk:
  "(r OR push_bit p (v AND 0x7F)) OR push_bit (p + 7) (drop_bit 7 v) = r OR push_bit p v"
  for v :: "'a::len word"
proof -
  have "push_bit p v = push_bit p (take_bit 7 v OR push_bit 7 (drop_bit 7 v))"
    by (simp only: varint_split)
  also have "\<dots> = push_bit p (take_bit 7 v) OR push_bit (p + 7) (drop_bit 7 v)"
    by (simp only: push_bit_or push_bit_push_bit)
  finally show ?thesis by (simp only: and_7F or.assoc)
qed

lemma take7_small: "v \<le> 0x7F \<Longrightarrow> take_bit 7 v = v" for v :: u64
  by (rule word_unat_eq_iff [THEN iffD2])
     (simp add: unsigned_take_bit_eq take_bit_nat_eq_self word_le_nat_alt)

lemma varint_buffer_small: "v \<noteq> 0 \<Longrightarrow> v \<le> 0x7F \<Longrightarrow> varint_buffer v = [ucast v OR 0x80]"
proof -
  assume v: "v \<noteq> 0" "v \<le> 0x7F"
  then have n: "unat v < 128" by (simp add: word_le_nat_alt)
  then have "drop_bit 7 v = 0" by (simp add: drop_bit_eq_div word_arith_nat_div)
  moreover have "v AND 0x7F = v"
    using v by (simp add: and_7F take7_small)
  ultimately show ?thesis
    using v by (simp add: varint_buffer.simps [of v] varint_buffer.simps [of 0])
qed

lemma varint_buffer_big:
  "\<not> v \<le> 0x7F \<Longrightarrow> varint_buffer v = (ucast (v AND 0x7F) OR 0x80) # varint_buffer (drop_bit 7 v)
     \<and> drop_bit 7 v \<noteq> 0"
proof -
  assume v: "\<not> v \<le> 0x7F"
  then have "unat (drop_bit 7 v) \<noteq> 0" by (simp add: word_le_nat_alt drop_bit_eq_div unat_div)
  then have "drop_bit 7 v \<noteq> 0" by auto
  moreover from v have "v \<noteq> 0" by auto
  ultimately show ?thesis by (simp add: varint_buffer.simps [of v])
qed

lemma varint_buffer_Nil_iff: "varint_buffer v = [] \<longleftrightarrow> v = 0"
  by (subst varint_buffer.simps) simp

lemma varint_bytes_small: "v \<le> 0x7F \<Longrightarrow> varint_bytes v = [ucast v]"
  by (simp add: varint_bytes_def)

lemma small_byte: "v \<le> 0x7F \<Longrightarrow> (ucast v OR 0x80 :: byte) AND 0x7F = ucast v" for v :: u64
proof -
  assume "v \<le> 0x7F"
  then have "take_bit 7 v = v" by (rule take7_small)
  moreover have "take_bit 7 (ucast (take_bit 7 v) OR 0x80 :: byte) = ucast (take_bit 7 v)"
    by (simp add: take_bit_or) (rule bit_word_eqI, auto simp: bit_simps)
  ultimately show ?thesis by (simp add: and_7F)
qed

text \<open>The recursion the bytes of a varint satisfy.\<close>

lemma varint_bytes_big:
  assumes "\<not> v \<le> 0x7F"
  shows "varint_bytes v = (ucast (v AND 0x7F) OR 0x80) # varint_bytes (drop_bit 7 v)"
proof (cases "drop_bit 7 v \<le> 0x7F")
  case True
  with varint_buffer_big [OF assms] show ?thesis
    using assms by (simp add: varint_bytes_def Let_def varint_buffer_small small_byte)
next
  case False
  with varint_buffer_big [OF assms] varint_buffer_big [OF False] show ?thesis
    using assms by (simp add: varint_bytes_def Let_def varint_buffer_Nil_iff)
qed

lemma varint_induct [case_names small big]:
  assumes "\<And>v. v \<le> 0x7F \<Longrightarrow> P v" and "\<And>v. \<not> v \<le> 0x7F \<Longrightarrow> P (drop_bit 7 v) \<Longrightarrow> P v"
  shows "P (v :: u64)"
proof (induction v rule: varint_buffer.induct)
  case (1 v)
  show ?case
  proof (cases "v \<le> 0x7F")
    case False
    then have "v \<noteq> 0" by auto
    with 1 False show ?thesis by (auto intro: assms(2))
  qed (rule assms(1))
qed

text \<open>The decoding loops as reader combinators.\<close>

lemma varint_loop_eq:
  "p < 64 \<Longrightarrow> varint_loop p r = (\<lambda>s. on_ok (pb_readbyte s) (\<lambda>b.
     if b AND 0x80 \<noteq> 0 then varint_loop (p + 7) (r OR push_bit p (ucast (b AND 0x7F)))
     else (\<lambda>s. (Some (r OR push_bit p (ucast (b AND 0x7F))), s))))"
  by (rule ext, subst varint_loop.simps) (auto intro!: on_ok_cong)

lemma varint32_loop_eq:
  "p < 32 \<Longrightarrow> varint32_loop p r = (\<lambda>s. on_ok (pb_readbyte s) (\<lambda>b.
     if b AND 0x80 \<noteq> 0 then varint32_loop (p + 7) (r OR push_bit p (ucast (b AND 0x7F)))
     else (\<lambda>s. (Some (r OR push_bit p (ucast (b AND 0x7F))), s))))"
  by (rule ext, subst varint32_loop.simps) (auto intro!: on_ok_cong)

lemma reads_return: "reads (Pair (Some a)) [] a"
  by (auto simp: reads_def intro!: pb_istream.equality)

lemma small_high_bit: "v \<le> 0x7F \<Longrightarrow> (ucast v :: byte) AND 0x80 = 0" for v :: u64
proof -
  assume "v \<le> 0x7F"
  then have v: "take_bit 7 v = v" by (rule take7_small)
  have "(ucast (take_bit 7 v) :: byte) AND push_bit 7 1 = 0"
    by (rule bit_word_eqI) (auto simp only: bit_simps bit_0_eq bot_apply bot_bool_def)
  also have "push_bit 7 1 = (0x80 :: byte)" by simp
  finally show ?thesis using v by simp
qed

lemma small_low_bits:
  "v \<le> 0x7F \<Longrightarrow> (ucast ((ucast v :: byte) AND 0x7F) :: 'a::len word) = ucast v" for v :: u64
proof -
  assume "v \<le> 0x7F"
  then have v: "take_bit 7 v = v" by (rule take7_small)
  have "(ucast (take_bit 7 (ucast (take_bit 7 v) :: byte)) :: 'a word) = ucast (take_bit 7 v)"
    by (rule bit_word_eqI) (auto simp: bit_simps)
  then show ?thesis using v by (simp add: and_7F)
qed

lemma ucast_varint_split:
  "(ucast (take_bit 7 v) OR push_bit 7 (ucast (drop_bit 7 v)) :: u32) = ucast v" for v :: u64
proof (rule bit_word_eqI)
  fix n assume "n < LENGTH(32)"
  then show "bit (ucast (take_bit 7 v) OR push_bit 7 (ucast (drop_bit 7 v)) :: u32) n
      = bit (ucast v :: u32) n"
    by (cases "n < 7") (auto simp: bit_simps)
qed

lemma big_unat: "\<not> v \<le> 0x7F \<Longrightarrow> 128 \<le> unat v \<and> unat (drop_bit 7 v) = unat v div 128"
  for v :: u64
  by (simp add: word_le_nat_alt drop_bit_eq_div unat_div)

lemma big_bound:
  assumes "\<not> v \<le> 0x7F" "unat v < 2 ^ (m - p)"
  shows "p + 7 < m \<and> unat (drop_bit 7 v :: u64) < 2 ^ (m - (p + 7))"
proof -
  from assms big_unat [of v] have lt: "2 ^ 7 < (2::nat) ^ (m - p)" by simp
  then have le: "7 < m - p" by (simp only: power_strict_increasing_iff)
  then have "(2::nat) ^ (m - p) = 128 * 2 ^ (m - (p + 7))"
    using power_add [of "2::nat" 7 "m - (p + 7)"] by simp
  with assms(2) have "unat v div 128 < 2 ^ (m - (p + 7))"
    by (simp add: less_mult_imp_div_less mult.commute)
  with le big_unat [OF assms(1)] show ?thesis by simp
qed

lemma reads_varint_loop:
  "unat v < 2 ^ (64 - p) \<Longrightarrow> p < 64 \<Longrightarrow>
   reads (varint_loop p r :: 's pb_istream \<Rightarrow> _) (varint_bytes v) (r OR push_bit p v)"
proof (induction v arbitrary: p r rule: varint_induct)
  case (small v)
  then show ?case
    unfolding varint_loop_eq [OF small(3)] varint_bytes_small [OF small(1)]
    by (intro reads_byte_then) (simp add: small_high_bit small_low_bits reads_return)
next
  case (big v)
  from big_bound [OF big(1,3)] have b: "p + 7 < 64" "unat (drop_bit 7 v) < 2 ^ (64 - (p + 7))"
    by auto
  from big(2) [OF b(2,1), of "r OR push_bit p (v AND 0x7F)"]
  have IH: "reads (varint_loop (p + 7) (r OR push_bit p (v AND 0x7F)) :: 's pb_istream \<Rightarrow> _)
      (varint_bytes (drop_bit 7 v)) (r OR push_bit p v)"
    by (simp only: varint_chunk)
  then show ?case
    unfolding varint_loop_eq [OF big(4)] varint_bytes_big [OF big(1)]
    by (intro reads_byte_then) (simp add: high_bit_set low_bits_byte)
qed

lemma reads_varint: "reads pb_decode_varint (varint_bytes v) v"
  using reads_varint_loop [of v 0 0] unsigned_less [of v]
  by (simp add: pb_decode_varint_def [abs_def])

text \<open>The 32-bit decoder drops the bits of the value above bit 31.\<close>

lemma varint_chunk32:
  "(r OR push_bit p (ucast (v AND 0x7F))) OR push_bit (p + 7) (ucast (drop_bit 7 v))
   = (r OR push_bit p (ucast v) :: u32)" for v :: u64
proof -
  have "push_bit p (ucast v :: u32) = push_bit p (ucast (take_bit 7 v) OR push_bit 7 (ucast (drop_bit 7 v)))"
    by (simp only: ucast_varint_split)
  also have "\<dots> = push_bit p (ucast (take_bit 7 v)) OR push_bit (p + 7) (ucast (drop_bit 7 v))"
    by (simp only: push_bit_or push_bit_push_bit)
  finally show ?thesis by (simp only: and_7F or.assoc)
qed

lemma reads_varint32_loop:
  "unat v < 2 ^ (35 - p) \<Longrightarrow> p < 35 \<Longrightarrow> 7 dvd p \<Longrightarrow>
   reads (varint32_loop p r :: 's pb_istream \<Rightarrow> _) (varint_bytes v) (r OR push_bit p (ucast v))"
proof (induction v arbitrary: p r rule: varint_induct)
  case (small v)
  then have "p < 32" by presburger
  with small show ?case
    unfolding varint32_loop_eq [OF \<open>p < 32\<close>] varint_bytes_small [OF small(1)]
    by (intro reads_byte_then) (simp add: small_high_bit small_low_bits reads_return)
next
  case (big v)
  then have "p < 32" by presburger
  from big_bound [OF big(1,3)] have b: "p + 7 < 35" "unat (drop_bit 7 v) < 2 ^ (35 - (p + 7))"
    by auto
  from big(2) [OF b(2,1), of "r OR push_bit p (ucast (v AND 0x7F))"] big(5)
  have IH: "reads (varint32_loop (p + 7) (r OR push_bit p (ucast (v AND 0x7F))) :: 's pb_istream \<Rightarrow> _)
      (varint_bytes (drop_bit 7 v)) (r OR push_bit p (ucast v))"
    by (simp only: varint_chunk32) simp
  then show ?case
    unfolding varint32_loop_eq [OF \<open>p < 32\<close>] varint_bytes_big [OF big(1)]
    by (intro reads_byte_then) (simp add: high_bit_set low_bits_byte)
qed

lemma varint32_is_loop: "pb_decode_varint32 = varint32_loop 0 0"
proof -
  have "(ucast (b AND 0x7F) :: u32) = ucast b" if "b AND 0x80 = 0" for b :: byte
  proof -
    have "bit b 7 \<longleftrightarrow> bit (b AND push_bit 7 1) 7" by (simp only: bit_simps) simp
    also have "push_bit 7 1 = (0x80 :: byte)" by simp
    finally have "\<not> bit b 7" using that by simp
    then have "take_bit 7 b = b"
      by (intro bit_word_eqI) (auto simp: bit_simps less_Suc_eq numeral_eq_Suc)
    then show ?thesis by (simp add: and_7F)
  qed
  then show ?thesis
    by (auto simp: pb_decode_varint32_def [abs_def] varint32_loop_eq intro!: ext on_ok_cong)
qed

lemma reads_varint32: "unat v < 2 ^ 35 \<Longrightarrow> reads pb_decode_varint32 (varint_bytes v) (ucast v)"
  using reads_varint32_loop [of v 0 0] by (simp add: varint32_is_loop)

text \<open>A failing read: the stream's first bytes make the reader fail with message \<open>m\<close>.\<close>

definition rejects :: "('s pb_istream \<Rightarrow> 'a option \<times> 's pb_istream) \<Rightarrow> byte list \<Rightarrow> string \<Rightarrow> bool" where
  "rejects r bs m \<longleftrightarrow>
     (\<forall>s rest. i_source s = BufRead (bs @ rest) \<longrightarrow> length bs \<le> bytes_left s \<longrightarrow>
        i_errmsg s = None \<longrightarrow> (\<exists>t. r s = (None, t) \<and> i_errmsg t = Some m))"

lemma rejects_byte_then:
  "rejects (f b) bs m \<Longrightarrow> rejects (\<lambda>s. on_ok (pb_readbyte s) f) (b # bs) m"
  using readsD [OF reads_byte] by (fastforce simp: rejects_def)

lemma rejects_varint32_loop:
  "2 ^ (35 - p) \<le> unat v \<Longrightarrow> p \<le> 35 \<Longrightarrow> 7 dvd p \<Longrightarrow>
   rejects (varint32_loop p r :: 's pb_istream \<Rightarrow> _) (varint_bytes v) ''varint overflow''"
proof (induction v arbitrary: p r rule: varint_induct)
  case (small v)
  have "p = 35"
  proof (rule ccontr)
    assume "p \<noteq> 35"
    with small have "7 \<le> 35 - p" by presburger
    then have "(2::nat) ^ 7 \<le> 2 ^ (35 - p)" by (simp only: power_increasing_iff)
    with small(1,2) show False by (simp add: word_le_nat_alt)
  qed
  then show ?case by (auto simp: rejects_def varint32_loop.simps [of 35] set_ierror_def)
next
  case (big v)
  show ?case
  proof (cases "p = 35")
    case True
    then show ?thesis by (auto simp: rejects_def varint32_loop.simps [of 35] set_ierror_def)
  next
    case False
    with big have p: "p < 32" "p + 7 \<le> 35" "7 dvd p + 7" by presburger+
    from p have "(2::nat) ^ (35 - p) = 128 * 2 ^ (35 - (p + 7))"
      using power_add [of "2::nat" 7 "35 - (p + 7)"] by simp
    with big(3) big_unat [OF big(1)] have "2 ^ (35 - (p + 7)) \<le> unat (drop_bit 7 v)"
      by linarith
    from big(2) [OF this p(2,3)] show ?thesis
      unfolding varint32_loop_eq [OF p(1)] varint_bytes_big [OF big(1)]
      by (intro rejects_byte_then) (simp add: high_bit_set low_bits_byte)
  qed
qed

lemma rejects_varint32:
  "2 ^ 35 \<le> unat v \<Longrightarrow> rejects pb_decode_varint32 (varint_bytes v) ''varint overflow''"
  using rejects_varint32_loop [of 0 v 0] by (simp add: varint32_is_loop)

subsection \<open>The shape of a varint\<close>

text \<open>Every byte but the last has its continuation bit set.\<close>

fun continued :: "byte list \<Rightarrow> bool" where
  "continued [] = False"
| "continued [b] = (b AND 0x80 = 0)"
| "continued (b # bs) = (b AND 0x80 \<noteq> 0 \<and> continued bs)"

lemma continued_Cons: "b AND 0x80 \<noteq> 0 \<Longrightarrow> continued (b # bs) \<longleftrightarrow> continued bs"
  by (cases bs) auto

lemma continued_varint: "continued (varint_bytes v)"
  by (induction v rule: varint_induct)
     (simp_all add: varint_bytes_small varint_bytes_big small_high_bit high_bit_set continued_Cons)

lemma varint_length_iff: "length (varint_bytes v) \<le> Suc n \<longleftrightarrow> unat v < 128 ^ Suc n"
proof (induction v arbitrary: n rule: varint_induct)
  case (small v)
  then have "unat v < 128 ^ Suc 0" by (simp add: word_le_nat_alt)
  also have "(128::nat) ^ Suc 0 \<le> 128 ^ Suc n" by (rule power_increasing) auto
  finally show ?case by (simp add: varint_bytes_small [OF small])
next
  case (big v)
  show ?case
  proof (cases n)
    case 0
    with big(1) show ?thesis
      by (cases "varint_bytes (drop_bit 7 v)")
         (use continued_varint [of "drop_bit 7 v"] in
          \<open>simp_all add: varint_bytes_big [OF big(1)] word_le_nat_alt\<close>)
  next
    case (Suc m)
    have "unat v div 128 < 128 ^ Suc m \<longleftrightarrow> unat v < 128 * 128 ^ Suc m"
      by (simp add: div_less_iff_less_mult mult.commute)
    with big(2) [of m] big_unat [OF big(1)] Suc show ?thesis
      by (simp add: varint_bytes_big [OF big(1)])
  qed
qed

lemma varint_length_pos: "varint_bytes v \<noteq> []"
  using continued_varint [of v] by auto

lemma varint_length_10: "length (varint_bytes v) \<le> 10"
proof -
  have "unat v < 2 ^ 64" using unsigned_less [of v] by simp
  also have "(2::nat) ^ 64 \<le> 128 ^ Suc 9" by simp
  finally show ?thesis using varint_length_iff [of v 9] by simp
qed

text \<open>Skipping and copying a varint need its shape only.\<close>

lemma reads_skip_varint: "continued bs \<Longrightarrow> reads pb_skip_varint bs ()"
proof (induction bs rule: continued.induct)
  case (2 b)
  then show ?case
    using reads_then [OF reads_read [of "[b]" 1], of
      "\<lambda>bs s. if hd bs AND 0x80 \<noteq> 0 then pb_skip_varint s else (Some (), s)" "[]" "()"]
    by (simp add: pb_skip_varint.simps [abs_def] reads_return)
next
  case (3 b c bs)
  then show ?case
    using reads_then [OF reads_read [of "[b]" 1], of
      "\<lambda>bs s. if hd bs AND 0x80 \<noteq> 0 then pb_skip_varint s else (Some (), s)" "c # bs" "()"]
    by (subst pb_skip_varint.simps [abs_def]) simp
qed simp

lemma reads_raw_varint: "continued bs \<Longrightarrow> length bs \<le> n \<Longrightarrow> reads (read_raw_varint n) bs bs"
proof (induction bs arbitrary: n rule: continued.induct)
  case (2 b)
  then obtain m where "n = Suc m" by (cases n) auto
  with 2 show ?case
    using reads_then [OF reads_read [of "[b]" 1], of
      "\<lambda>bs s. if hd bs AND 0x80 \<noteq> 0
        then on_ok (read_raw_varint m s) (\<lambda>bs' s. (Some (bs @ bs'), s)) else (Some bs, s)" "[]" "[b]"]
    by (simp add: reads_return)
next
  case (3 b c bs)
  then obtain m where m: "n = Suc m" by (cases n) auto
  from 3(2,3) m have "continued (c # bs)" "length (c # bs) \<le> m" by auto
  from reads_map [OF 3(1) [OF this], of "\<lambda>bs'. b # bs'"] m 3 show ?case
    using reads_then [OF reads_read [of "[b]" 1], of
      "\<lambda>bs s. if hd bs AND 0x80 \<noteq> 0
        then on_ok (read_raw_varint m s) (\<lambda>bs' s. (Some (bs @ bs'), s)) else (Some bs, s)"
      "c # bs" "b # c # bs"]
    by simp
qed simp

subsection \<open>Zig-zag varints\<close>

lemma drop_push: "drop_bit k (push_bit k w) = take_bit (LENGTH('a) - k) w" for w :: "'a::len word"
  by (rule bit_word_eqI) (auto simp: bit_simps)

lemma drop_not_push:
  "k \<le> LENGTH('a) \<Longrightarrow>
   NOT (drop_bit k (NOT (push_bit k w))) = w OR NOT (mask (LENGTH('a) - k))" for w :: "'a::len word"
  by (rule bit_word_eqI) (auto simp: bit_simps)

lemma sign_bit: "bit w 63 \<longleftrightarrow> sint w < 0" for w :: u64
  using bit_last_iff [of w] by simp

lemma parity_AND: "w AND 1 \<noteq> 0 \<longleftrightarrow> bit w 0" for w :: u64
  by (simp add: and_one_eq bit_0 odd_iff_mod_2_eq_one)

lemma unzigzag:
  assumes "- (2 ^ 63) \<le> i" "i < 2 ^ 63"
  shows "(if zigzag i AND 1 \<noteq> 0 then sint (NOT (drop_bit 1 (zigzag i)))
          else sint (drop_bit 1 (zigzag i))) = i"
proof -
  define w :: u64 where "w = word_of_int i"
  have w: "sint w = i"
    using assms by (simp add: w_def sint_sbintrunc' signed_take_bit_int_eq_self)
  show ?thesis
  proof (cases "i < 0")
    case True
    then have "bit w 63" by (simp add: sign_bit w)
    then have "w OR NOT (mask 63) = w"
      by (intro bit_word_eqI) (auto simp: bit_simps not_less less_Suc_eq numeral_eq_Suc)
    moreover have "bit (NOT (push_bit 1 w)) 0" by (simp only: bit_simps) simp
    moreover have "NOT (drop_bit 1 (NOT (push_bit 1 w))) = w OR NOT (mask 63)"
      using drop_not_push [of 1 w] by simp
    ultimately show ?thesis
      using True w by (simp only: zigzag_def w_def [symmetric] if_True parity_AND)
  next
    case False
    then have "\<not> bit w 63" by (simp add: sign_bit w)
    then have "take_bit 63 w = w"
      by (intro bit_word_eqI) (auto simp: bit_simps less_Suc_eq numeral_eq_Suc)
    moreover have "\<not> bit (push_bit 1 w) 0" by (simp only: bit_simps) simp
    moreover have "drop_bit 1 (push_bit 1 w) = take_bit 63 w"
      using drop_push [of 1 w] by simp
    ultimately show ?thesis
      using False w by (simp only: zigzag_def w_def [symmetric] if_False parity_AND)
  qed
qed

lemma reads_svarint:
  "- (2 ^ 63) \<le> i \<Longrightarrow> i < 2 ^ 63 \<Longrightarrow> reads pb_decode_svarint (varint_bytes (zigzag i)) i"
  using reads_map [OF reads_varint, of
    "\<lambda>v. if v AND 1 \<noteq> 0 then sint (NOT (drop_bit 1 v)) else sint (drop_bit 1 v)" "zigzag i"]
    unzigzag [of i]
  by (simp add: pb_decode_svarint_def [abs_def])

subsection \<open>Fixed-width integers\<close>

lemma ucast_FF: "(ucast (w AND 0xFF) :: byte) = ucast w" for w :: "'a::len word"
proof -
  have "(0xFF :: 'a word) = mask 8" by (simp add: mask_eq_exp_minus_1)
  then have "w AND 0xFF = take_bit 8 w" by (simp only: take_bit_eq_mask)
  then show ?thesis by (simp only:) (auto simp: bit_eq_iff bit_simps)
qed

lemma ucast_byte_unat: "(ucast w :: byte) = word_of_nat (unat w)" for w :: "'a::len word"
  by (simp add: word_unat_eq_iff unsigned_ucast_eq unsigned_of_nat)

lemma unat_drop: "unat (drop_bit k w) = unat w div 2 ^ k" for w :: "'a::len word"
  unfolding unsigned_drop_bit_eq
  by (simp only: drop_bit_eq_div [where 'a = nat] take_bit_nat_eq_self [OF unsigned_less])

lemma byte_of_drop: "(ucast (drop_bit k w AND 0xFF) :: byte) = word_of_nat (unat w div 2 ^ k)"
  for w :: "'a::len word"
  by (simp only: ucast_FF) (simp only: ucast_byte_unat unat_drop)

lemma to_le_list: "to_le n v = map (\<lambda>k. word_of_nat (v div 2 ^ (8 * k))) [0..<n]"
proof (induction n v rule: to_le.induct)
  case (2 n v)
  have "[0..<Suc n] = 0 # map Suc [0..<n]" by (simp add: upt_conv_Cons map_Suc_upt del: upt_Suc)
  moreover have "v div 256 div 2 ^ (8 * k) = v div 2 ^ (8 * Suc k)" for k
    by (simp add: div_mult2_eq power_add)
  ultimately show ?case using 2 by (simp del: upt_Suc)
qed simp

lemma upt_4_8: "[0..<4] = [0, 1, 2, 3]" "[0..<8] = [0, 1, 2, 3, 4, 5, 6, 7]"
  by (simp_all add: upt_rec)

lemma fixed32_le: "fixed32_bytes v = to_le 4 (unat v)"
  using byte_of_drop [of 0 v]
  by (simp only: fixed32_bytes_def to_le_list upt_4_8 byte_of_drop drop_bit_0 list.map id_apply)
     simp

lemma fixed64_le: "fixed64_bytes v = to_le 8 (unat v)"
  using byte_of_drop [of 0 v]
  by (simp only: fixed64_bytes_def to_le_list upt_4_8 byte_of_drop drop_bit_0 list.map id_apply)
     simp

definition from_fixed32 :: "byte list \<Rightarrow> u32" where
  "from_fixed32 bs = push_bit 0 (ucast (bs ! 0)) OR push_bit 8 (ucast (bs ! 1))
              OR push_bit 16 (ucast (bs ! 2)) OR push_bit 24 (ucast (bs ! 3))"

definition from_fixed64 :: "byte list \<Rightarrow> u64" where
  "from_fixed64 bs = push_bit 0 (ucast (bs ! 0)) OR push_bit 8 (ucast (bs ! 1))
              OR push_bit 16 (ucast (bs ! 2)) OR push_bit 24 (ucast (bs ! 3))
              OR push_bit 32 (ucast (bs ! 4)) OR push_bit 40 (ucast (bs ! 5))
              OR push_bit 48 (ucast (bs ! 6)) OR push_bit 56 (ucast (bs ! 7))"

lemma or_shift_byte:
  "k = m + 8 \<Longrightarrow>
   take_bit m v OR (push_bit m (ucast (ucast (drop_bit m v) :: byte)) OR w) = take_bit k v OR w"
  "k = m + 8 \<Longrightarrow>
   take_bit m v OR push_bit m (ucast (ucast (drop_bit m v) :: byte)) = take_bit k v"
  "push_bit 0 (ucast (ucast v :: byte)) = take_bit 8 v"
  for v :: "'a::len word"
proof -
  assume k: "k = m + 8"
  show *: "take_bit m v OR push_bit m (ucast (ucast (drop_bit m v) :: byte)) = take_bit k v"
    by (rule bit_word_eqI) (auto simp: bit_simps k)
  show "take_bit m v OR (push_bit m (ucast (ucast (drop_bit m v) :: byte)) OR w) = take_bit k v OR w"
    by (simp only: or.assoc [symmetric] *)
next
  show "push_bit 0 (ucast (ucast v :: byte)) = take_bit 8 v"
    by (rule bit_word_eqI) (auto simp: bit_simps)
qed

lemma from_fixed32_bytes: "from_fixed32 (fixed32_bytes v) = v"
proof -
  have "from_fixed32 (fixed32_bytes v) = take_bit LENGTH(32) v"
    by (simp only: from_fixed32_def fixed32_bytes_def ucast_FF nth_Cons_0 nth_Cons_numeral
          diff_numeral_special pred_numeral_simps nth_Cons_Suc
          or_shift_byte(3) or_shift_byte(1) [of 16 8] or_shift_byte(1) [of 24 16]
          or_shift_byte(2) [of 32 24]) (simp add: or_shift_byte)
  then show ?thesis by (simp only: take_bit_length_eq)
qed

lemma from_fixed64_bytes: "from_fixed64 (fixed64_bytes v) = v"
proof -
  have "from_fixed64 (fixed64_bytes v) = take_bit LENGTH(64) v"
    by (simp only: from_fixed64_def fixed64_bytes_def ucast_FF nth_Cons_0 nth_Cons_numeral
          diff_numeral_special pred_numeral_simps nth_Cons_Suc or_shift_byte(3) or_shift_byte(1) [of 16 8] or_shift_byte(1) [of 24 16]
          or_shift_byte(1) [of 32 24] or_shift_byte(1) [of 40 32] or_shift_byte(1) [of 48 40]
          or_shift_byte(1) [of 56 48] or_shift_byte(2) [of 64 56])
       (simp add: or_shift_byte)
  then show ?thesis by (simp only: take_bit_length_eq)
qed

lemma from_fixed32_le: "length bs = 4 \<Longrightarrow> from_fixed32 bs = word_of_nat (of_le bs)"
proof -
  assume l: "length bs = 4"
  then have "of_le bs < 2 ^ 32" using of_le_bound [of bs] by simp
  then have "unat (word_of_nat (of_le bs) :: u32) = of_le bs" by (simp add: unat_of_nat)
  then have "fixed32_bytes (word_of_nat (of_le bs)) = bs"
    using to_le_of_le [of bs] by (simp add: fixed32_le l)
  then show ?thesis using from_fixed32_bytes [of "word_of_nat (of_le bs)"] by simp
qed

lemma from_fixed64_le: "length bs = 8 \<Longrightarrow> from_fixed64 bs = word_of_nat (of_le bs)"
proof -
  assume l: "length bs = 8"
  then have "of_le bs < 2 ^ 64" using of_le_bound [of bs] by simp
  then have "unat (word_of_nat (of_le bs) :: u64) = of_le bs" by (simp add: unat_of_nat)
  then have "fixed64_bytes (word_of_nat (of_le bs)) = bs"
    using to_le_of_le [of bs] by (simp add: fixed64_le l)
  then show ?thesis using from_fixed64_bytes [of "word_of_nat (of_le bs)"] by simp
qed

lemma decode_fixed32_eq:
  "pb_decode_fixed32 = (\<lambda>s. on_ok (pb_read s 4) (\<lambda>bs s. (Some (from_fixed32 bs), s)))"
  by (simp add: pb_decode_fixed32_def [abs_def] from_fixed32_def)

lemma decode_fixed64_eq:
  "pb_decode_fixed64 = (\<lambda>s. on_ok (pb_read s 8) (\<lambda>bs s. (Some (from_fixed64 bs), s)))"
  by (simp add: pb_decode_fixed64_def [abs_def] from_fixed64_def)

lemma reads_fixed32: "reads pb_decode_fixed32 (fixed32_bytes v) v"
  using reads_map [OF reads_read [of "fixed32_bytes v" 4], of from_fixed32]
  by (simp add: decode_fixed32_eq from_fixed32_bytes) (simp add: fixed32_bytes_def)

lemma reads_fixed64: "reads pb_decode_fixed64 (fixed64_bytes v) v"
  using reads_map [OF reads_read [of "fixed64_bytes v" 8], of from_fixed64]
  by (simp add: decode_fixed64_eq from_fixed64_bytes) (simp add: fixed64_bytes_def)

subsection \<open>Tags\<close>

lemma tag_value_unat:
  assumes wt: "wt < 8" and n: "unat n < 2 ^ 29"
  shows "unat (tag_value wt n) = 8 * unat n + wt"
proof -
  have low: "i < 3" if "bit wt i" for i
    using wt bit_take_bit_iff [of 3 wt i] that by (simp add: take_bit_nat_eq_self)
  have "push_bit 3 (unat n) + wt = push_bit 3 (unat n) OR wt"
    by (rule disjunctive_add) (auto simp: bit_simps dest: low)
  then have sum: "8 * unat n + wt = push_bit 3 (unat n) OR wt"
    by (simp add: push_bit_eq_mult)
  have "tag_value wt n = word_of_nat (8 * unat n + wt)"
    unfolding sum
    by (rule bit_word_eqI) (auto simp: tag_value_def bit_simps dest: low)
  then have "unat (tag_value wt n) = (8 * unat n + wt) mod 2 ^ 64"
    by (simp only: unat_of_nat) simp
  then show ?thesis using assms by simp
qed

lemma and_7_mod: "unat (w AND 7) = unat w mod 8" for w :: u32
proof -
  have "(7 :: u32) = mask 3" by (simp add: mask_eq_exp_minus_1)
  then have "w AND 7 = take_bit 3 w" by (simp only: take_bit_eq_mask)
  then have "unat (w AND 7) = take_bit 3 (unat w)" by (simp only: unsigned_take_bit_eq)
  then show ?thesis by (simp add: take_bit_eq_mod)
qed

lemma tag_parts:
  assumes wt: "wt < 8" and n: "unat n < 2 ^ 29"
  shows "unat ((ucast (tag_value wt n) :: u32) AND 7) = wt"
    and "drop_bit 3 (ucast (tag_value wt n) :: u32) = n"
    and "wt \<noteq> 0 \<or> n \<noteq> 0 \<Longrightarrow> (ucast (tag_value wt n) :: u32) \<noteq> 0"
proof -
  have u: "unat (ucast (tag_value wt n) :: u32) = 8 * unat n + wt"
    using n wt by (simp add: unsigned_ucast_eq tag_value_unat take_bit_nat_eq_self)
  show "unat ((ucast (tag_value wt n) :: u32) AND 7) = wt"
    using wt by (simp add: and_7_mod u)
  show "drop_bit 3 (ucast (tag_value wt n) :: u32) = n"
    using wt by (intro word_unat_eq_iff [THEN iffD2])
      (simp only: unat_drop u, simp)
  show "(ucast (tag_value wt n) :: u32) \<noteq> 0" if "wt \<noteq> 0 \<or> n \<noteq> 0"
  proof
    assume "(ucast (tag_value wt n) :: u32) = 0"
    with u have "8 * unat n + wt = 0" by simp
    with that show False by (simp add: unat_eq_0)
  qed
qed

text \<open>\<open>pb_decode_tag\<close> as a reader: no tag is \<open>None\<close>, whether at the end or by an error.\<close>

definition read_tag :: "'s pb_istream \<Rightarrow> (pb_wire_type \<times> u32) option \<times> 's pb_istream" where
  "read_tag s = (case pb_decode_tag s of (Inl _, t) \<Rightarrow> (None, t) | (Inr wt, t) \<Rightarrow> (Some wt, t))"

fun valid_tag :: "pb_wire_type \<times> u32 \<Rightarrow> bool" where
  "valid_tag (wt, n) \<longleftrightarrow> wt < 8 \<and> unat n < 2 ^ 29 \<and> (wt \<noteq> 0 \<or> n \<noteq> 0)"

fun tag_bytes :: "pb_wire_type \<times> u32 \<Rightarrow> byte list" where
  "tag_bytes (wt, n) = varint_bytes (tag_value wt n)"

lemma read_tag_eq:
  "read_tag = (\<lambda>s. on_ok (pb_decode_varint32 s) (\<lambda>temp s.
     if temp = 0 then (None, s) else (Some (unat (temp AND 7), drop_bit 3 temp), s)))"
  by (auto simp: read_tag_def [abs_def] pb_decode_tag_def split: prod.splits option.splits on_ok_splits)

lemma reads_tag: "valid_tag tg \<Longrightarrow> reads read_tag (tag_bytes tg) tg"
proof (cases tg)
  fix wt n
  assume tg: "tg = (wt, n)" and "valid_tag tg"
  then have v: "wt < 8" "unat n < 2 ^ 29" "wt \<noteq> 0 \<or> n \<noteq> 0" by auto
  have "unat (tag_value wt n) < 2 ^ 35" using v by (simp add: tag_value_unat)
  from reads_then [OF reads_varint32 [OF this], of
      "\<lambda>temp s. if temp = 0 then (None, s) else (Some (unat (temp AND 7), drop_bit 3 temp), s)" "[]" "(wt, n)"]
  show ?thesis
    using tag_parts [OF v(1,2)] v(3) by (simp add: tg read_tag_eq reads_return)
qed

subsection \<open>The codecs\<close>

interpretation varint_codec: wire_codec varint_bytes pb_decode_varint "\<lambda>_. True"
  by unfold_locales (rule reads_varint)

lemma reads_varint_u32: "reads pb_decode_varint32 (varint_bytes (ucast v)) v" for v :: u32
proof -
  have "unat v < 2 ^ LENGTH(32)" by (rule unsigned_less)
  then have "unat (ucast v :: u64) < 2 ^ 35"
    by (simp add: unsigned_ucast_eq take_bit_nat_eq_self)
  moreover have "(ucast (ucast v :: u64) :: u32) = v"
    by (rule bit_word_eqI) (auto simp: bit_simps)
  ultimately show ?thesis using reads_varint32 [of "ucast v"] by simp
qed

interpretation varint32_codec: wire_codec "\<lambda>v :: u32. varint_bytes (ucast v)" pb_decode_varint32 "\<lambda>_. True"
  by unfold_locales (rule reads_varint_u32)

interpretation svarint_codec: wire_codec "\<lambda>i. varint_bytes (zigzag i)" pb_decode_svarint
    "\<lambda>i. - (2 ^ 63) \<le> i \<and> i < 2 ^ 63"
  by unfold_locales (use reads_svarint in blast)

interpretation fixed32_codec: wire_codec fixed32_bytes pb_decode_fixed32 "\<lambda>_. True"
  by unfold_locales (rule reads_fixed32)

interpretation fixed64_codec: wire_codec fixed64_bytes pb_decode_fixed64 "\<lambda>_. True"
  by unfold_locales (rule reads_fixed64)

interpretation tag_codec: wire_codec tag_bytes read_tag valid_tag
  by unfold_locales (rule reads_tag)

subsection \<open>Encoders on a buffer\<close>

lemma buffer_ok: "n < 2 ^ 63 \<Longrightarrow> ostream_ok (pb_ostream_from_buffer n)"
  by (simp add: ostream_ok_def pb_ostream_from_buffer_def)

text \<open>An encoder that returned \<open>true\<close> on a fresh buffer has written its bytes there.\<close>

lemma encoded_to_buffer:
  fixes w :: "'s pb_ostream \<Rightarrow> bool \<times> 's pb_ostream"
  assumes "emits w (bs, Complete)" and "w (pb_ostream_from_buffer n) = (True, t)" and "n < 2 ^ 63"
  shows "o_sink t = BufWrite bs" "bytes_written t = length bs" "length bs \<le> n"
proof -
  let ?s = "pb_ostream_from_buffer n :: 's pb_ostream"
  note e = assms(1) [unfolded emits_def fst_conv snd_conv, rule_format, OF buffer_ok [OF assms(3)]]
  have fits: "fits ?s (length bs)"
    using e assms(2) by (auto split: if_splits)
  with e assms(2) have t: "t = emit ?s bs" by simp
  from fits show "length bs \<le> n" by (simp add: fits_def pb_ostream_from_buffer_def)
  with t assms(3) show "o_sink t = BufWrite bs" "bytes_written t = length bs"
    by (auto simp: pb_ostream_from_buffer_def emit_def size_add_def)
qed

text \<open>A length and what is read after it.\<close>

lemma ucast_length: "n < 2 ^ 32 \<Longrightarrow> (ucast (word_of_nat n :: u64) :: u32) = word_of_nat n"
  by (simp add: word_unat_eq_iff unsigned_ucast_eq unat_of_nat take_bit_nat_eq_self)

lemma reads_length:
  assumes n: "n < 2 ^ 32"
  shows "reads pb_decode_varint32 (varint_bytes (word_of_nat n)) (word_of_nat n)"
proof -
  have "unat (word_of_nat n :: u64) = n" using n by (simp add: unat_of_nat)
  then have "unat (word_of_nat n :: u64) < 2 ^ 35" using n by simp
  from reads_varint32 [OF this] show ?thesis by (simp only: ucast_length [OF n])
qed

lemma reads_length_then:
  assumes n: "length bs < 2 ^ 32"
    and f: "reads (\<lambda>s. f s (length bs)) bs a"
  shows "reads (\<lambda>s. on_ok (pb_decode_varint32 s) (\<lambda>len s. f s (unat len)))
     (varint_bytes (word_of_nat (length bs)) @ bs) a"
proof -
  have "unat (word_of_nat (length bs) :: u32) = length bs" using n by (simp add: unat_of_nat)
  with reads_then [OF reads_length [OF n], of "\<lambda>len s. f s (unat len)" bs a] f show ?thesis by simp
qed


subsection \<open>Properties\<close>

text \<open>
  Theorem (varint_length): a varint has between one and ten bytes, at most \<open>n\<close> exactly when
  the value is below \<open>128 ^ n\<close>, and only its last byte has the continuation bit clear.
\<close>

theorem varint_length:
  "continued (varint_bytes v) \<and> length (varint_bytes v) \<le> 10
   \<and> (length (varint_bytes v) \<le> Suc n \<longleftrightarrow> unat v < 128 ^ Suc n)"
  by (intro conjI continued_varint varint_length_10 varint_length_iff)

text \<open>
  Theorem (varint_roundtrip): whatever \<open>pb_encode_varint\<close> has written to a buffer,
  \<open>pb_decode_varint\<close> reads it back as the same value and leaves the rest of the input.
\<close>

theorem varint_roundtrip:
  assumes "pb_encode_varint (pb_ostream_from_buffer n) v = (True, t)" and "n < 2 ^ 63"
  shows "\<exists>bs. o_sink t = BufWrite bs \<and> bytes_written t = length bs \<and> length bs \<le> n
     \<and> pb_decode_varint (pb_istream_from_buffer (bs @ rest) (length bs + k))
        = (Some v, pb_istream_from_buffer rest k)"
proof -
  have "length (varint_bytes v) < 2 ^ 63" using varint_length_10 [of v] by simp
  note e = encoded_to_buffer [OF emits_varint [OF this] assms]
  show ?thesis using e varint_codec.from_buffer [of v rest k] by auto
qed

lemma varint_roundtrip_witness:
  "pb_decode_varint (pb_istream_from_buffer [0xAC, 0x02, 0x07] 3)
    = (Some 300, pb_istream_from_buffer [0x07] 1 :: unit pb_istream)"
proof -
  have b: "varint_bytes 300 = [0xAC, 0x02]"
    by (simp add: varint_bytes_def varint_buffer.simps Let_def)
  have "pb_encode_varint (pb_ostream_from_buffer 9) 300 =
     (True, \<lparr>o_sink = BufWrite [0xAC, 0x02], max_size = 9, bytes_written = 2, o_errmsg = None\<rparr> :: unit pb_ostream)"
    by (simp add: pb_encode_varint_def b pb_write_def pb_ostream_from_buffer_def run_sink_def
        buf_write_def size_add_def)
  from varint_roundtrip [OF this, of "[0x07]" 1] show ?thesis by (simp add: numeral_3_eq_3)
qed

text \<open>
  Theorem (svarint_roundtrip): every 64-bit signed value survives zig-zag coding.
\<close>

theorem svarint_roundtrip:
  assumes "pb_encode_svarint (pb_ostream_from_buffer n) i = (True, t)" and "n < 2 ^ 63"
    and "- (2 ^ 63) \<le> i" and "i < 2 ^ 63"
  shows "\<exists>bs. o_sink t = BufWrite bs \<and> bytes_written t = length bs \<and> length bs \<le> n
     \<and> pb_decode_svarint (pb_istream_from_buffer (bs @ rest) (length bs + k))
        = (Some i, pb_istream_from_buffer rest k)"
proof -
  have "length (varint_bytes (zigzag i)) < 2 ^ 63" using varint_length_10 [of "zigzag i"] by simp
  note e = encoded_to_buffer [OF emits_varint [OF this] assms(1) [unfolded pb_encode_svarint_def] assms(2)]
  show ?thesis using e svarint_codec.from_buffer [of i rest k] assms(3,4) by auto
qed

lemma svarint_roundtrip_witness:
  "pb_decode_svarint (pb_istream_from_buffer [0x03] 1)
    = (Some (-2), pb_istream_from_buffer [] 0 :: unit pb_istream)"
proof -
  have "zigzag (-2) = 3" by (simp add: zigzag_def)
  then have b: "varint_bytes (zigzag (-2)) = [0x03]"
    by (simp add: varint_bytes_def)
  have "pb_encode_svarint (pb_ostream_from_buffer 9) (-2) =
     (True, \<lparr>o_sink = BufWrite [0x03], max_size = 9, bytes_written = 1, o_errmsg = None\<rparr> :: unit pb_ostream)"
    by (simp add: pb_encode_svarint_def pb_encode_varint_def b pb_write_def pb_ostream_from_buffer_def
        run_sink_def buf_write_def size_add_def)
  from svarint_roundtrip [OF this, of "[]" 0] show ?thesis by simp
qed

text \<open>
  Theorem (fixed32_roundtrip): \<open>fixed32\<close> values round trip in four bytes, little-endian.
\<close>

theorem fixed32_roundtrip:
  assumes "pb_encode_fixed32 (pb_ostream_from_buffer n) v = (True, t)" and "n < 2 ^ 63"
  shows "o_sink t = BufWrite (to_le 4 (unat v))
     \<and> pb_decode_fixed32 (pb_istream_from_buffer (to_le 4 (unat v) @ rest) (4 + k))
        = (Some v, pb_istream_from_buffer rest k)"
  using encoded_to_buffer [OF emits_fixed32 assms] fixed32_codec.from_buffer [of v rest k]
  by (simp add: fixed32_le)

lemma fixed32_roundtrip_witness:
  "pb_decode_fixed32 (pb_istream_from_buffer [0x78, 0x56, 0x34, 0x12] 4)
    = (Some 0x12345678, pb_istream_from_buffer [] 0 :: unit pb_istream)"
proof -
  have b: "to_le 4 0x12345678 = [0x78, 0x56, 0x34, 0x12]"
    by (simp add: to_le_list upt_4_8)
  have "pb_encode_fixed32 (pb_ostream_from_buffer 4) 0x12345678 =
     (True, \<lparr>o_sink = BufWrite [0x78, 0x56, 0x34, 0x12], max_size = 4, bytes_written = 4, o_errmsg = None\<rparr>
        :: unit pb_ostream)"
    by (simp add: pb_encode_fixed32_def fixed32_le b pb_write_def pb_ostream_from_buffer_def
        run_sink_def buf_write_def size_add_def)
  from fixed32_roundtrip [OF this, of "[]" 0] show ?thesis by (simp add: b)
qed

text \<open>
  Theorem (fixed64_roundtrip): \<open>fixed64\<close> values round trip in eight bytes, little-endian.
\<close>

theorem fixed64_roundtrip:
  assumes "pb_encode_fixed64 (pb_ostream_from_buffer n) v = (True, t)" and "n < 2 ^ 63"
  shows "o_sink t = BufWrite (to_le 8 (unat v))
     \<and> pb_decode_fixed64 (pb_istream_from_buffer (to_le 8 (unat v) @ rest) (8 + k))
        = (Some v, pb_istream_from_buffer rest k)"
  using encoded_to_buffer [OF emits_fixed64 assms] fixed64_codec.from_buffer [of v rest k]
  by (simp add: fixed64_le)

lemma fixed64_roundtrip_witness:
  "pb_decode_fixed64 (pb_istream_from_buffer [8, 7, 6, 5, 4, 3, 2, 1] 8)
    = (Some 0x0102030405060708, pb_istream_from_buffer [] 0 :: unit pb_istream)"
proof -
  have b: "to_le 8 0x0102030405060708 = [8, 7, 6, 5, 4, 3, 2, 1]"
    by (simp add: to_le_list upt_4_8)
  have "pb_encode_fixed64 (pb_ostream_from_buffer 8) 0x0102030405060708 =
     (True, \<lparr>o_sink = BufWrite [8, 7, 6, 5, 4, 3, 2, 1], max_size = 8, bytes_written = 8, o_errmsg = None\<rparr>
        :: unit pb_ostream)"
    by (simp add: pb_encode_fixed64_def fixed64_le b pb_write_def pb_ostream_from_buffer_def
        run_sink_def buf_write_def size_add_def)
  from fixed64_roundtrip [OF this, of "[]" 0] show ?thesis by (simp add: b)
qed

text \<open>
  Theorem (tag_roundtrip): a tag with a wire type below 8 and a field number below
  \<open>2 ^ 29\<close> is read back, except the pair of zeros, which \<open>pb_decode_tag\<close> takes for the
  end of the message.
\<close>

theorem tag_roundtrip:
  assumes "pb_encode_tag (pb_ostream_from_buffer n) wt num = (True, t)" and "n < 2 ^ 63"
    and "wt < 8" and "unat num < 2 ^ 29"
  shows "\<exists>bs. o_sink t = BufWrite bs
     \<and> pb_decode_tag (pb_istream_from_buffer (bs @ rest) (length bs + k) :: 's pb_istream)
        = (if wt = 0 \<and> num = 0 then Inl True else Inr (wt, num), pb_istream_from_buffer rest k)"
proof -
  let ?v = "tag_value wt num"
  have "length (varint_bytes ?v) < 2 ^ 63" using varint_length_10 [of ?v] by simp
  note e = encoded_to_buffer [OF emits_varint [OF this] assms(1) [unfolded pb_encode_tag_def] assms(2)]
  have v: "unat ?v = 8 * unat num + wt" using assms(3,4) by (rule tag_value_unat)
  then have "unat ?v < 2 ^ 35" using assms(3,4) by simp
  note r = readsD [OF reads_varint32 [OF this], of
      "pb_istream_from_buffer (varint_bytes ?v @ rest) (length (varint_bytes ?v) + k) :: 's pb_istream" rest]
  have "wt = 0 \<and> num = 0 \<Longrightarrow> (ucast ?v :: u32) = 0"
    using v by (simp add: unat_eq_0)
  with e r tag_parts [OF assms(3,4)] show ?thesis
    by (auto simp: pb_decode_tag_def pb_istream_from_buffer_def)
qed

lemma tag_roundtrip_witness:
  "pb_decode_tag (pb_istream_from_buffer [0x12, 0x41] 2)
    = (Inr (2, 2), pb_istream_from_buffer [0x41] 1 :: unit pb_istream)"
proof -
  have b: "varint_bytes (tag_value 2 2) = [0x12]"
    by (simp add: varint_bytes_def tag_value_def)
  have "pb_encode_tag (pb_ostream_from_buffer 9) 2 2 =
     (True, \<lparr>o_sink = BufWrite [0x12], max_size = 9, bytes_written = 1, o_errmsg = None\<rparr> :: unit pb_ostream)"
    by (simp add: pb_encode_tag_def pb_encode_varint_def b pb_write_def pb_ostream_from_buffer_def
        run_sink_def buf_write_def size_add_def)
  from tag_roundtrip [OF this, of "[0x41]" 1] show ?thesis by (simp flip: numeral_2_eq_2)
qed

text \<open>
  Theorem (varint32_truncates): \<open>pb_decode_varint32\<close> reports an overflow for encoded values
  from \<open>2 ^ 35\<close> only: below, it returns \<open>true\<close> and the low 32 bits of the value.
\<close>

theorem varint32_truncates:
  "if unat v < 2 ^ 35
   then pb_decode_varint32 (pb_istream_from_buffer (varint_bytes v @ rest) (length (varint_bytes v) + k) :: 's pb_istream)
     = (Some (ucast v), pb_istream_from_buffer rest k)
   else \<exists>t. pb_decode_varint32 (pb_istream_from_buffer (varint_bytes v @ rest) (length (varint_bytes v) + k) :: 's pb_istream)
     = (None, t) \<and> i_errmsg t = Some ''varint overflow''"
proof -
  let ?s = "pb_istream_from_buffer (varint_bytes v @ rest) (length (varint_bytes v) + k) :: 's pb_istream"
  have src: "i_source ?s = BufRead (varint_bytes v @ rest)" "length (varint_bytes v) \<le> bytes_left ?s"
      "i_errmsg ?s = None"
    by (simp_all add: pb_istream_from_buffer_def)
  show ?thesis
  proof (cases "unat v < 2 ^ 35")
    case True
    from readsD [OF reads_varint32 [OF True] src(1,2)] True show ?thesis
      by (simp add: pb_istream_from_buffer_def)
  next
    case False
    then have "rejects (pb_decode_varint32 :: 's pb_istream \<Rightarrow> _) (varint_bytes v) ''varint overflow''"
      by (intro rejects_varint32) simp
    with src False show ?thesis unfolding rejects_def by auto
  qed
qed

text \<open>The encodings of one value of a wire type.\<close>

definition wire_value :: "pb_wire_type \<Rightarrow> byte list \<Rightarrow> bool" where
  "wire_value wt bs \<longleftrightarrow>
     (if wt = PB_WT_VARINT then continued bs
      else if wt = PB_WT_64BIT then length bs = 8
      else if wt = PB_WT_32BIT then length bs = 4
      else wt = PB_WT_STRING \<and>
        (\<exists>data. length data < 2 ^ 32 \<and> bs = varint_bytes (word_of_nat (length data)) @ data))"

text \<open>
  Theorem (skip_wire_value): \<open>pb_skip_field\<close> passes over one encoded value of each wire type,
  whatever its bytes are.
\<close>

theorem skip_wire_value:
  assumes "wire_value wt bs"
  shows "pb_skip_field (pb_istream_from_buffer (bs @ rest) (length bs + k)) wt
    = (Some (), pb_istream_from_buffer rest k :: 's pb_istream)"
proof -
  have "reads (\<lambda>s :: 's pb_istream. pb_skip_field s wt) bs ()"
  proof (cases "wt = PB_WT_STRING")
    case True
    with assms obtain data where bs: "bs = varint_bytes (word_of_nat (length data)) @ data"
        and n: "length data < 2 ^ 32"
      by (auto simp: wire_value_def)
    have "reads (\<lambda>s :: 's pb_istream. on_ok (pb_decode_varint32 s) (\<lambda>len s. pb_read_null s (unat len)))
        (varint_bytes (word_of_nat (length data)) @ data) ()"
      using n by (intro reads_length_then reads_read_null) auto
    with True bs n show ?thesis by (simp add: pb_skip_field_def pb_skip_string_def)
  next
    case False
    with assms show ?thesis
      using reads_skip_varint [of bs] reads_read_null [of bs "length bs"]
      by (auto simp: pb_skip_field_def wire_value_def split: if_splits)
  qed
  from readsD [OF this, of "pb_istream_from_buffer (bs @ rest) (length bs + k)" rest] show ?thesis
    by (simp add: pb_istream_from_buffer_def)
qed

lemma skip_wire_value_witness:
  "pb_skip_field (pb_istream_from_buffer [0x96, 0x01, 0x07] 3) PB_WT_VARINT
     = (Some (), pb_istream_from_buffer [0x07] 1 :: unit pb_istream)"
  using skip_wire_value [of PB_WT_VARINT "[0x96, 0x01]" "[0x07]" 1] by (simp add: numeral_3_eq_3 wire_value_def)

text \<open>Opening a substream on a memory buffer.\<close>

lemma make_from_buffer:
  assumes "length data < 2 ^ 32"
  shows "pb_make_string_substream (pb_istream_from_buffer
      (varint_bytes (word_of_nat (length data)) @ data @ rest)
      (length (varint_bytes (word_of_nat (length data))) + length data + k) :: 's pb_istream)
    = (Some (pb_istream_from_buffer (data @ rest) (length data)), pb_istream_from_buffer (data @ rest) k)"
proof -
  let ?n = "length data"
  have un: "unat (word_of_nat ?n :: u32) = ?n" using assms by (simp add: unat_of_nat)
  have "pb_decode_varint32 (pb_istream_from_buffer (varint_bytes (word_of_nat ?n) @ data @ rest)
      (length (varint_bytes (word_of_nat ?n)) + ?n + k) :: 's pb_istream)
    = (Some (word_of_nat ?n), pb_istream_from_buffer (data @ rest) (?n + k))"
    using readsD [OF reads_length [OF assms], of "pb_istream_from_buffer
        (varint_bytes (word_of_nat ?n) @ data @ rest) (length (varint_bytes (word_of_nat ?n)) + ?n + k)" "data @ rest"]
    by (simp add: pb_istream_from_buffer_def)
  with un show ?thesis
    by (simp add: pb_make_string_substream_def pb_istream_from_buffer_def)
qed

text \<open>
  Theorem (substream_closed): a substream covers exactly the bytes of its string, and
  closing it puts the parent stream behind the string however far the substream was read.
\<close>

theorem substream_closed:
  fixes sub :: "'s pb_istream"
  assumes "length data < 2 ^ 32"
    and "pb_make_string_substream (pb_istream_from_buffer
           (varint_bytes (word_of_nat (length data)) @ data @ rest)
           (length (varint_bytes (word_of_nat (length data))) + length data + k)) = (Some sub, parent)"
    and "advances sub sub'"
  shows "sub = pb_istream_from_buffer (data @ rest) (length data)
    \<and> pb_close_string_substream parent sub'
        = (Some (), (pb_istream_from_buffer rest k)\<lparr>i_errmsg := i_errmsg sub'\<rparr>)"
proof -
  let ?n = "length data"
  from assms(2) make_from_buffer [OF assms(1), where rest = rest and k = k and 's = 's]
  have sub: "sub = pb_istream_from_buffer (data @ rest) ?n"
      and parent: "parent = pb_istream_from_buffer (data @ rest) k"
    by simp_all
  obtain j where j: "bytes_left sub' = ?n - j" "j \<le> ?n" "i_source sub' = BufRead (drop j data @ rest)"
  proof (cases "i_source sub'")
    case (BufRead b)
    with assms(3) that [of "?n - bytes_left sub'"] show thesis
      by (auto simp: sub advances_def pb_istream_from_buffer_def)
  next
    case UserRead
    with assms(3) show thesis by (simp add: sub advances_def pb_istream_from_buffer_def)
  qed
  have len: "length (drop j data) = ?n - j" by simp
  have "pb_read_null sub' (bytes_left sub') = (Some (), sub'\<lparr>i_source := BufRead rest, bytes_left := 0\<rparr>)"
    using readsD [OF reads_read_null [OF len], of sub' rest] j by simp
  moreover have "rest = drop j data @ rest" if "bytes_left sub' = 0" using that j by simp
  ultimately show ?thesis
    using sub parent j
    by (auto simp: pb_close_string_substream_def pb_istream_from_buffer_def)
qed

lemma substream_closed_witness:
  "pb_close_string_substream (pb_istream_from_buffer [5, 6, 7] 1) (pb_istream_from_buffer [6, 7] 1)
    = (Some (), pb_istream_from_buffer [7] 1 :: unit pb_istream)"
proof -
  have m: "pb_make_string_substream (pb_istream_from_buffer
      (varint_bytes (word_of_nat (length [5, 6 :: byte])) @ [5, 6] @ [7])
      (length (varint_bytes (word_of_nat (length [5, 6 :: byte]))) + length [5, 6 :: byte] + 1))
    = (Some (pb_istream_from_buffer [5, 6, 7] 2), pb_istream_from_buffer [5, 6, 7] 1 :: unit pb_istream)"
    using make_from_buffer [of "[5, 6]" "[7]" 1] by simp (simp flip: numeral_2_eq_2)
  have "advances (pb_istream_from_buffer [5, 6, 7] 2) (pb_istream_from_buffer [6, 7] 1 :: unit pb_istream)"
    by (simp add: advances_def pb_istream_from_buffer_def)
  from substream_closed [OF _ m this] show ?thesis by (simp add: pb_istream_from_buffer_def)
qed

end
