(* ===== verification/PB_Encode.thy ===== *)
theory PB_Encode
  imports PB_Iter PB_Wire
begin

text \<open>
  The message encoder of \<open>pb_encode.c\<close>. \<open>pb_encode\<close> walks the descriptor of a
  message and encodes every field from the memory \<open>h\<close>; a submessage is encoded by
  the same function. The recursion is open: each operation gets \<open>rec\<close>, the encoder
  for submessages, and \<open>pb_encode\<close> ties the knot with a fuel \<open>n\<close> that bounds the
  nesting depth and the length of extension chains.
\<close>

type_synonym 's enc_result = "(bool \<times> 's pb_ostream) outcome"
type_synonym 's submsg_encoder = "'s pb_ostream \<Rightarrow> pb_field list \<Rightarrow> addr \<Rightarrow> 's enc_result"
type_synonym 's pb_encoder = "'s pb_ostream \<Rightarrow> pb_field \<Rightarrow> addr \<Rightarrow> 's enc_result"

text \<open>\<open>if (!r) return false; f\<close> for encoders with an outcome.\<close>

definition on_enc :: "'s enc_result \<Rightarrow> ('s pb_ostream \<Rightarrow> 's enc_result) \<Rightarrow> 's enc_result" where
  "on_enc r f = on_ret r (\<lambda>(ok, s). if ok then f s else Ret (False, s))"

lemma on_enc_simps [simp]:
  "on_enc (Ret (True, s)) f = f s"
  "on_enc (Ret (False, s)) f = Ret (False, s)"
  "on_enc Undefined f = Undefined"
  "on_enc OutOfFuel f = OutOfFuel"
  by (simp_all add: on_enc_def)

subsection \<open>Submessages\<close>

definition pb_encode_submessage ::
  "'s submsg_encoder \<Rightarrow> 's pb_ostream \<Rightarrow> pb_field list \<Rightarrow> addr \<Rightarrow> 's enc_result" where
  "pb_encode_submessage rec s flds src =
     on_ret (rec PB_OSTREAM_SIZING flds src) (\<lambda>(ok, substream).
       if \<not> ok then Ret (False, s\<lparr>o_errmsg := o_errmsg substream\<rparr>)
       else let sz = bytes_written substream in
         on_enc (Ret (pb_encode_varint s (word_of_nat sz))) (\<lambda>s.
           if is_sizing (o_sink s) then Ret (pb_write s [] sz)
           else if size_add (bytes_written s) sz > max_size s
           then Ret (False, set_oerror ''stream full'' s)
           else on_ret (rec \<lparr>o_sink = o_sink s, max_size = sz, bytes_written = 0, o_errmsg = None\<rparr>
                          flds src)
             (\<lambda>(status, substream).
               let s' = s\<lparr>bytes_written := size_add (bytes_written s) (bytes_written substream),
                          o_sink := o_sink substream, o_errmsg := o_errmsg substream\<rparr>
               in if bytes_written substream \<noteq> sz
                  then Ret (False, set_oerror ''submsg size changed'' s')
                  else Ret (status, s'))))"

subsection \<open>Field encoders\<close>

text \<open>A signed integer of \<open>k\<close> bytes in memory.\<close>

definition load_int :: "heap \<Rightarrow> addr \<Rightarrow> nat \<Rightarrow> int" where
  "load_int h a k = signed_take_bit (8 * k - 1) (int (load_nat h a k))"

definition int_size :: "u32 \<Rightarrow> bool" where
  "int_size n \<longleftrightarrow> n = 1 \<or> n = 2 \<or> n = 4 \<or> n = 8"

definition pb_enc_varint :: "heap \<Rightarrow> 's pb_encoder" where
  "pb_enc_varint h s field src =
     Ret (if int_size (f_data_size field)
          then pb_encode_varint s (word_of_int (load_int h src (unat (f_data_size field))))
          else (False, set_oerror ''invalid data_size'' s))"

definition pb_enc_uvarint :: "heap \<Rightarrow> 's pb_encoder" where
  "pb_enc_uvarint h s field src =
     Ret (if int_size (f_data_size field)
          then pb_encode_varint s (word_of_nat (load_nat h src (unat (f_data_size field))))
          else (False, set_oerror ''invalid data_size'' s))"

definition pb_enc_svarint :: "heap \<Rightarrow> 's pb_encoder" where
  "pb_enc_svarint h s field src =
     Ret (if int_size (f_data_size field)
          then pb_encode_svarint s (load_int h src (unat (f_data_size field)))
          else (False, set_oerror ''invalid data_size'' s))"

definition pb_enc_fixed64 :: "heap \<Rightarrow> 's pb_encoder" where
  "pb_enc_fixed64 h s field src = Ret (pb_encode_fixed64 s (word_of_nat (load_nat h src 8)))"

definition pb_enc_fixed32 :: "heap \<Rightarrow> 's pb_encoder" where
  "pb_enc_fixed32 h s field src = Ret (pb_encode_fixed32 s (word_of_nat (load_nat h src 4)))"

definition pb_enc_bytes :: "heap \<Rightarrow> 's pb_encoder" where
  "pb_enc_bytes h s field src =
     Ret (if src = 0 then pb_encode_string s [] 0
          else let sz = load_nat h src 4 in
            if PB_ATYPE (f_type field) = PB_ATYPE_STATIC
               \<and> PB_BYTES_ARRAY_T_ALLOCSIZE sz > unat (f_data_size field)
            then (False, set_oerror ''bytes size exceeded'' s)
            else pb_encode_string s (load_bytes h (src + int bytes_off) sz) sz)"

text \<open>The \<open>strnlen\<close> loop of \<open>pb_enc_string\<close>.\<close>

function strnlen_loop :: "heap \<Rightarrow> addr \<Rightarrow> nat \<Rightarrow> nat \<Rightarrow> nat" where
  "strnlen_loop h p sz limit =
     (if sz < limit \<and> h p \<noteq> 0 then strnlen_loop h (p + 1) (Suc sz) limit else sz)"
  by pat_completeness auto
termination by (relation "measure (\<lambda>(h, p, sz, limit). limit - sz)") auto

declare strnlen_loop.simps [simp del]

definition pb_enc_string :: "heap \<Rightarrow> 's pb_encoder" where
  "pb_enc_string h s field src =
     (let limit = (if PB_ATYPE (f_type field) = PB_ATYPE_POINTER then 2 ^ 64 - 1
                   else unat (f_data_size field));
          sz = (if src = 0 then 0 else strnlen_loop h src 0 limit)
      in Ret (pb_encode_string s (load_bytes h src sz) sz))"

definition pb_enc_submessage :: "'s submsg_encoder \<Rightarrow> 's pb_encoder" where
  "pb_enc_submessage rec s field src =
     (if f_ptr field = NullPtr
      then Ret (False, set_oerror ''invalid field descriptor'' s)
      else pb_encode_submessage rec s (submsg_fields (f_ptr field)) src)"

definition pb_enc_fixed_length_bytes :: "heap \<Rightarrow> 's pb_encoder" where
  "pb_enc_fixed_length_bytes h s field src =
     Ret (pb_encode_string s (load_bytes h src (unat (f_data_size field)))
            (unat (f_data_size field)))"

text \<open>
  The table \<open>PB_ENCODERS\<close>. The entry for extensions is null; indices from 10 lie
  outside the table.
\<close>

definition PB_ENCODERS :: "'s submsg_encoder \<Rightarrow> heap \<Rightarrow> byte \<Rightarrow> 's pb_encoder" where
  "PB_ENCODERS rec h ltype =
     (if ltype = PB_LTYPE_VARINT then pb_enc_varint h
      else if ltype = PB_LTYPE_UVARINT then pb_enc_uvarint h
      else if ltype = PB_LTYPE_SVARINT then pb_enc_svarint h
      else if ltype = PB_LTYPE_FIXED32 then pb_enc_fixed32 h
      else if ltype = PB_LTYPE_FIXED64 then pb_enc_fixed64 h
      else if ltype = PB_LTYPE_BYTES then pb_enc_bytes h
      else if ltype = PB_LTYPE_STRING then pb_enc_string h
      else if ltype = PB_LTYPE_SUBMESSAGE then pb_enc_submessage rec
      else if ltype = PB_LTYPE_FIXED_LENGTH_BYTES then pb_enc_fixed_length_bytes h
      else (\<lambda>_ _ _. Undefined))"

subsection \<open>Arrays\<close>

text \<open>
  The loops of \<open>encode_array\<close>: the packed one calls the encoder on every element,
  the other one writes the tag first and follows the pointer of an element where
  the array holds pointers.
\<close>

fun packed_loop :: "'s pb_encoder \<Rightarrow> pb_field \<Rightarrow> nat \<Rightarrow> addr \<Rightarrow> 's pb_ostream \<Rightarrow> 's enc_result" where
  "packed_loop func field 0 p s = Ret (True, s)"
| "packed_loop func field (Suc n) p s =
     on_enc (func s field p)
       (\<lambda>s. packed_loop func field n (p + uint (f_data_size field)) s)"

definition element_addr :: "heap \<Rightarrow> pb_field \<Rightarrow> addr \<Rightarrow> addr" where
  "element_addr h field p =
     (if PB_ATYPE (f_type field) = PB_ATYPE_POINTER
         \<and> (PB_LTYPE (f_type field) = PB_LTYPE_STRING \<or> PB_LTYPE (f_type field) = PB_LTYPE_BYTES)
      then load_ptr h p else p)"

fun unpacked_loop ::
  "heap \<Rightarrow> 's pb_encoder \<Rightarrow> pb_field \<Rightarrow> nat \<Rightarrow> addr \<Rightarrow> 's pb_ostream \<Rightarrow> 's enc_result" where
  "unpacked_loop h func field 0 p s = Ret (True, s)"
| "unpacked_loop h func field (Suc n) p s =
     on_enc (Ret (pb_encode_tag_for_field s field)) (\<lambda>s.
       on_enc (func s field (element_addr h field p))
         (\<lambda>s. unpacked_loop h func field n (p + uint (f_data_size field)) s))"

definition packed_size :: "'s pb_encoder \<Rightarrow> pb_field \<Rightarrow> nat \<Rightarrow> addr \<Rightarrow> nat option outcome" where
  "packed_size func field count p =
     (if PB_LTYPE (f_type field) = PB_LTYPE_FIXED32 then Ret (Some (4 * count))
      else if PB_LTYPE (f_type field) = PB_LTYPE_FIXED64 then Ret (Some (8 * count))
      else on_ret (packed_loop func field count p PB_OSTREAM_SIZING)
             (\<lambda>(ok, sizestream). Ret (if ok then Some (bytes_written sizestream) else None)))"

definition encode_array ::
  "heap \<Rightarrow> 's pb_ostream \<Rightarrow> pb_field \<Rightarrow> addr \<Rightarrow> nat \<Rightarrow> 's pb_encoder \<Rightarrow> 's enc_result" where
  "encode_array h s field p count func =
     (if count = 0 then Ret (True, s)
      else if PB_ATYPE (f_type field) \<noteq> PB_ATYPE_POINTER \<and> count > unat (f_array_size field)
      then Ret (False, set_oerror ''array max size exceeded'' s)
      else if PB_LTYPE (f_type field) \<le> PB_LTYPE_LAST_PACKABLE
      then on_enc (Ret (pb_encode_tag s PB_WT_STRING (f_tag field))) (\<lambda>s.
        on_ret (packed_size func field count p) (\<lambda>sz.
          case sz of None \<Rightarrow> Ret (False, s)
          | Some sz \<Rightarrow>
              on_enc (Ret (pb_encode_varint s (word_of_nat sz))) (\<lambda>s.
                if is_sizing (o_sink s) then Ret (pb_write s [] sz)
                else packed_loop func field count p s)))
      else unpacked_loop h func field count p s)"

subsection \<open>Fields\<close>

text \<open>
  \<open>pb_check_proto3_default_value\<close>. A submessage descriptor that is null would be
  dereferenced.
\<close>

primrec all_ret :: "('a \<Rightarrow> bool outcome) \<Rightarrow> 'a list \<Rightarrow> bool outcome" where
  "all_ret p [] = Ret True"
| "all_ret p (x # xs) = on_ret (p x) (\<lambda>b. if b then all_ret p xs else Ret False)"

lemma all_ret_cong [fundef_cong]:
  "xs = ys \<Longrightarrow> (\<And>x. x \<in> set ys \<Longrightarrow> p x = q x) \<Longrightarrow> all_ret p xs = all_ret q ys"
  by (induction ys arbitrary: xs) (auto intro!: on_ret_cong)

lemma iter_fields_in: "it \<in> set (iter_fields flds dest) \<Longrightarrow> cur it \<in> set flds"
  using n_fields_le [of flds] by (auto simp: iter_fields_eq cur_def intro!: field_at_in)

function pb_check_proto3_default_value :: "heap \<Rightarrow> pb_field \<Rightarrow> addr \<Rightarrow> bool outcome" where
  "pb_check_proto3_default_value h field p =
     (if PB_ATYPE (f_type field) = PB_ATYPE_STATIC \<and> PB_LTYPE (f_type field) = PB_LTYPE_BYTES
      then Ret (load_nat h p 4 = 0)
      else if PB_ATYPE (f_type field) = PB_ATYPE_STATIC \<and> PB_LTYPE (f_type field) = PB_LTYPE_STRING
      then Ret (h p = 0)
      else if PB_ATYPE (f_type field) = PB_ATYPE_STATIC
              \<and> PB_LTYPE (f_type field) = PB_LTYPE_FIXED_LENGTH_BYTES
      then Ret (f_data_size field = 0)
      else if PB_ATYPE (f_type field) = PB_ATYPE_STATIC
              \<and> PB_LTYPE (f_type field) = PB_LTYPE_SUBMESSAGE
      then if f_ptr field = NullPtr then Undefined
           else all_ret (\<lambda>it. pb_check_proto3_default_value h (cur it) (pData it))
                  (iter_fields (submsg_fields (f_ptr field)) p)
      else Ret (\<forall>b \<in> set (load_bytes h p (unat (f_data_size field))). b = 0))"
  by pat_completeness auto
termination
  by (relation "measure (\<lambda>(h, field, p). size field)")
     (auto dest!: iter_fields_in size_submsg_fields)

declare pb_check_proto3_default_value.simps [simp del]

text \<open>
  \<open>encode_basic_field\<close>. \<open>pSize\<close> points into the structure (\<open>Some a\<close>) or to the
  local \<open>implicit_has\<close> (\<open>None\<close>), a single byte: reading a whole \<open>pb_size_t\<close> there
  is undefined.
\<close>

definition encode_basic_field ::
  "'s submsg_encoder \<Rightarrow> heap \<Rightarrow> 's pb_ostream \<Rightarrow> pb_field \<Rightarrow> addr \<Rightarrow> 's enc_result" where
  "encode_basic_field rec h s field p =
     (if \<not> PB_LTYPE (f_type field) < 10 then Undefined
      else
        let func = PB_ENCODERS rec h (PB_LTYPE (f_type field));
            htype = PB_HTYPE (f_type field);
            psize = (if f_size_offset field \<noteq> 0 then Some (p + sint (f_size_offset field)) else None)
        in
        on_ret (if f_size_offset field \<noteq> 0 then Ret True
                else if htype = PB_HTYPE_OPTIONAL
                then on_ret (pb_check_proto3_default_value h field p) (\<lambda>b. Ret (\<not> b))
                else Ret True) (\<lambda>has.
          let is_ptr = (PB_ATYPE (f_type field) = PB_ATYPE_POINTER);
              data = (if is_ptr then load_ptr h p else p);
              implicit_has = (if is_ptr then data \<noteq> 0 else has)
          in
          if htype = PB_HTYPE_REQUIRED
          then if data = 0 then Ret (False, set_oerror ''missing required field'' s)
               else on_enc (Ret (pb_encode_tag_for_field s field)) (\<lambda>s. func s field data)
          else if htype = PB_HTYPE_OPTIONAL
          then if (case psize of Some a \<Rightarrow> h a \<noteq> 0 | None \<Rightarrow> implicit_has)
               then on_enc (Ret (pb_encode_tag_for_field s field)) (\<lambda>s. func s field data)
               else Ret (True, s)
          else (case psize of None \<Rightarrow> Undefined
                | Some a \<Rightarrow>
                    if htype = PB_HTYPE_REPEATED
                    then encode_array h s field data (load_nat h a 4) func
                    else if load_nat h a 4 = unat (f_tag field)
                    then on_enc (Ret (pb_encode_tag_for_field s field)) (\<lambda>s. func s field data)
                    else Ret (True, s))))"

definition encode_callback_field ::
  "'s pb_env \<Rightarrow> heap \<Rightarrow> 's pb_ostream \<Rightarrow> pb_field \<Rightarrow> addr \<Rightarrow> 's enc_result" where
  "encode_callback_field env h s field p =
     Ret (if load_ptr h p \<noteq> 0
          then case encode_func env (load_ptr h p) s field (p + callback_arg_off) h of
                 (False, s) \<Rightarrow> (False, set_oerror ''callback error'' s)
               | (True, s) \<Rightarrow> (True, s)
          else (True, s))"

definition encode_field ::
  "'s pb_env \<Rightarrow> 's submsg_encoder \<Rightarrow> heap \<Rightarrow> 's pb_ostream \<Rightarrow> pb_field \<Rightarrow> addr \<Rightarrow> 's enc_result" where
  "encode_field env rec h s field p =
     (if PB_ATYPE (f_type field) = PB_ATYPE_STATIC \<or> PB_ATYPE (f_type field) = PB_ATYPE_POINTER
      then encode_basic_field rec h s field p
      else if PB_ATYPE (f_type field) = PB_ATYPE_CALLBACK
      then encode_callback_field env h s field p
      else Ret (False, set_oerror ''invalid field type'' s))"

definition default_extension_encoder ::
  "'s pb_env \<Rightarrow> 's submsg_encoder \<Rightarrow> heap \<Rightarrow> 's pb_ostream \<Rightarrow> addr \<Rightarrow> 's enc_result" where
  "default_extension_encoder env rec h s extension =
     (let field = ext_arg (ext_type_at env (load_ptr h extension)) in
      if PB_ATYPE (f_type field) = PB_ATYPE_POINTER
      then encode_field env rec h s field (extension + ext_dest_off)
      else encode_field env rec h s field (load_ptr h (extension + ext_dest_off)))"

fun encode_extensions ::
  "nat \<Rightarrow> 's pb_env \<Rightarrow> 's submsg_encoder \<Rightarrow> heap \<Rightarrow> 's pb_ostream \<Rightarrow> addr \<Rightarrow> 's enc_result" where
  "encode_extensions n env rec h s extension =
     (if extension = 0 then Ret (True, s)
      else case n of 0 \<Rightarrow> OutOfFuel
      | Suc n \<Rightarrow>
          on_enc (case ext_encode (ext_type_at env (load_ptr h extension)) of
                    Some f \<Rightarrow> Ret (f s extension h)
                  | None \<Rightarrow> default_extension_encoder env rec h s extension)
            (\<lambda>s. encode_extensions n env rec h s (load_ptr h (extension + ext_next_off))))"

declare encode_extensions.simps [simp del]

definition encode_extension_field ::
  "nat \<Rightarrow> 's pb_env \<Rightarrow> 's submsg_encoder \<Rightarrow> heap \<Rightarrow> 's pb_ostream \<Rightarrow> pb_field \<Rightarrow> addr \<Rightarrow> 's enc_result" where
  "encode_extension_field n env rec h s field p = encode_extensions n env rec h s (load_ptr h p)"

subsection \<open>Messages\<close>

text \<open>The loop of \<open>pb_encode\<close> over the iterators of the message.\<close>

fun encode_fields ::
  "nat \<Rightarrow> 's pb_env \<Rightarrow> 's submsg_encoder \<Rightarrow> heap \<Rightarrow> 's pb_ostream \<Rightarrow> pb_field_iter list \<Rightarrow> 's enc_result" where
  "encode_fields n env rec h s [] = Ret (True, s)"
| "encode_fields n env rec h s (it # its) =
     on_enc (if PB_LTYPE (f_type (cur it)) = PB_LTYPE_EXTENSION
             then encode_extension_field n env rec h s (cur it) (pData it)
             else encode_field env rec h s (cur it) (pData it))
       (\<lambda>s. encode_fields n env rec h s its)"

primrec pb_encode ::
  "nat \<Rightarrow> 's pb_env \<Rightarrow> heap \<Rightarrow> 's pb_ostream \<Rightarrow> pb_field list \<Rightarrow> addr \<Rightarrow> 's enc_result" where
  "pb_encode 0 env h s flds src = OutOfFuel"
| "pb_encode (Suc n) env h s flds src =
     encode_fields n env (pb_encode n env h) h s (iter_fields flds src)"

definition pb_encode_delimited ::
  "nat \<Rightarrow> 's pb_env \<Rightarrow> heap \<Rightarrow> 's pb_ostream \<Rightarrow> pb_field list \<Rightarrow> addr \<Rightarrow> 's enc_result" where
  "pb_encode_delimited n env h s flds src = pb_encode_submessage (pb_encode n env h) s flds src"

definition pb_get_encoded_size ::
  "nat \<Rightarrow> 's pb_env \<Rightarrow> heap \<Rightarrow> pb_field list \<Rightarrow> addr \<Rightarrow> nat option outcome" where
  "pb_get_encoded_size n env h flds src =
     on_ret (pb_encode n env h PB_OSTREAM_SIZING flds src) (\<lambda>(ok, stream).
       Ret (if ok then Some (bytes_written stream) else None))"

end
