(* ===== verification/PB_EncodeSpec.thy ===== *)
theory PB_EncodeSpec
  imports PB_Encode
begin

text \<open>
  What a message encodes to, without streams: \<open>message_spec\<close> computes the bytes and
  the way the encoding ends in a single pass, where the code runs a sizing pass and
  a writing pass for every submessage and packed array. The refinement lemmas show
  that every encoder writes exactly the bytes of its specification on a sizing
  stream and on a buffer, and reports a full stream when they do not fit.
  A specification is \<open>None\<close> where it makes no promise: the step is undefined, the
  fuel is used up, or a length exceeds \<open>2 ^ 63\<close>.
\<close>

subsection \<open>Specifications\<close>

type_synonym enc_promise = "enc_spec option"

fun sp_seq :: "enc_promise \<Rightarrow> enc_promise \<Rightarrow> enc_promise" where
  "sp_seq None q = None"
| "sp_seq (Some (bs, Complete)) q = (case q of None \<Rightarrow> None | Some (bs', e) \<Rightarrow> Some (bs @ bs', e))"
| "sp_seq (Some (bs, e)) q = Some (bs, e)"

text \<open>User code promises a specification for each callback and extension encoder.\<close>

record user_spec =
  callback_spec :: "addr \<Rightarrow> pb_field \<Rightarrow> addr \<Rightarrow> heap \<Rightarrow> enc_promise"
  extension_spec :: "addr \<Rightarrow> addr \<Rightarrow> heap \<Rightarrow> enc_promise"

type_synonym submsg_spec = "pb_field list \<Rightarrow> addr \<Rightarrow> enc_promise"

definition string_spec :: "byte list \<Rightarrow> enc_promise" where
  "string_spec bs =
     (if length bs < 2 ^ 63
      then Some (varint_bytes (word_of_nat (length bs)) @ bs, Complete) else None)"

fun delimited_spec :: "enc_promise \<Rightarrow> enc_promise" where
  "delimited_spec None = None"
| "delimited_spec (Some (bs, Complete)) = string_spec bs"
| "delimited_spec (Some (bs, e)) = Some ([], e)"

definition bytes_spec :: "heap \<Rightarrow> pb_field \<Rightarrow> addr \<Rightarrow> enc_promise" where
  "bytes_spec h field src =
     (if src = 0 then string_spec []
      else if PB_ATYPE (f_type field) = PB_ATYPE_STATIC
           \<and> load_nat h src 4 + bytes_off > unat (f_data_size field)
      then Some ([], Fails ''bytes size exceeded'')
      else string_spec (load_bytes h (src + int bytes_off) (load_nat h src 4)))"

definition text_spec :: "heap \<Rightarrow> pb_field \<Rightarrow> addr \<Rightarrow> enc_promise" where
  "text_spec h field src =
     (if src = 0 then string_spec []
      else string_spec (load_bytes h src (strnlen_loop h src 0
             (if PB_ATYPE (f_type field) = PB_ATYPE_POINTER then 2 ^ 64 - 1
              else unat (f_data_size field)))))"

definition value_spec :: "submsg_spec \<Rightarrow> heap \<Rightarrow> byte \<Rightarrow> pb_field \<Rightarrow> addr \<Rightarrow> enc_promise" where
  "value_spec rec h ltype field src =
     (let k = unat (f_data_size field) in
      if ltype = PB_LTYPE_VARINT \<or> ltype = PB_LTYPE_UVARINT \<or> ltype = PB_LTYPE_SVARINT
      then Some (if \<not> int_size (f_data_size field) then ([], Fails ''invalid data_size'')
                 else (varint_bytes (if ltype = PB_LTYPE_VARINT then word_of_int (load_int h src k)
                                     else if ltype = PB_LTYPE_UVARINT then word_of_nat (load_nat h src k)
                                     else zigzag (load_int h src k)), Complete))
      else if ltype = PB_LTYPE_FIXED32 then Some (load_bytes h src 4, Complete)
      else if ltype = PB_LTYPE_FIXED64 then Some (load_bytes h src 8, Complete)
      else if ltype = PB_LTYPE_BYTES then bytes_spec h field src
      else if ltype = PB_LTYPE_STRING then text_spec h field src
      else if ltype = PB_LTYPE_SUBMESSAGE
      then if f_ptr field = NullPtr then Some ([], Fails ''invalid field descriptor'')
           else delimited_spec (rec (submsg_fields (f_ptr field)) src)
      else if ltype = PB_LTYPE_FIXED_LENGTH_BYTES then string_spec (load_bytes h src k)
      else None)"

definition tag_spec :: "pb_field \<Rightarrow> enc_promise" where
  "tag_spec field =
     Some (case wire_type_of (PB_LTYPE (f_type field)) of
             None \<Rightarrow> ([], Fails ''invalid field type'')
           | Some wt \<Rightarrow> (varint_bytes (tag_value wt (f_tag field)), Complete))"

fun packed_spec :: "(addr \<Rightarrow> enc_promise) \<Rightarrow> pb_field \<Rightarrow> nat \<Rightarrow> addr \<Rightarrow> enc_promise" where
  "packed_spec val field 0 p = Some ([], Complete)"
| "packed_spec val field (Suc n) p =
     sp_seq (val p) (packed_spec val field n (p + uint (f_data_size field)))"

fun unpacked_spec ::
  "heap \<Rightarrow> (addr \<Rightarrow> enc_promise) \<Rightarrow> pb_field \<Rightarrow> nat \<Rightarrow> addr \<Rightarrow> enc_promise" where
  "unpacked_spec h val field 0 p = Some ([], Complete)"
| "unpacked_spec h val field (Suc n) p =
     sp_seq (tag_spec field) (sp_seq (val (element_addr h field p))
       (unpacked_spec h val field n (p + uint (f_data_size field))))"

text \<open>A packed array whose elements cannot be sized fails without a message.\<close>

definition array_spec ::
  "heap \<Rightarrow> (addr \<Rightarrow> enc_promise) \<Rightarrow> pb_field \<Rightarrow> nat \<Rightarrow> addr \<Rightarrow> enc_promise" where
  "array_spec h val field count p =
     (if count = 0 then Some ([], Complete)
      else if PB_ATYPE (f_type field) \<noteq> PB_ATYPE_POINTER \<and> count > unat (f_array_size field)
      then Some ([], Fails ''array max size exceeded'')
      else if PB_LTYPE (f_type field) \<le> PB_LTYPE_LAST_PACKABLE
      then sp_seq (Some (varint_bytes (tag_value PB_WT_STRING (f_tag field)), Complete))
             (case packed_spec val field count p of
                None \<Rightarrow> None
              | Some (bs, Complete) \<Rightarrow> string_spec bs
              | Some (bs, e) \<Rightarrow> Some ([], FailsSilently))
      else unpacked_spec h val field count p)"

definition basic_field_spec :: "submsg_spec \<Rightarrow> heap \<Rightarrow> pb_field \<Rightarrow> addr \<Rightarrow> enc_promise" where
  "basic_field_spec rec h field p =
     (let ltype = PB_LTYPE (f_type field);
          htype = PB_HTYPE (f_type field);
          is_ptr = (PB_ATYPE (f_type field) = PB_ATYPE_POINTER);
          data = (if is_ptr then load_ptr h p else p);
          size_at = p + sint (f_size_offset field);
          val = value_spec rec h ltype field;
          present = sp_seq (tag_spec field) (val data);
          absent = Some ([], Complete)
      in
      if \<not> ltype < 10 then None
      else if htype = PB_HTYPE_REQUIRED
      then if data = 0 then Some ([], Fails ''missing required field'') else present
      else if htype = PB_HTYPE_OPTIONAL
      then if f_size_offset field \<noteq> 0 then (if h size_at \<noteq> 0 then present else absent)
           else (case pb_check_proto3_default_value h field p of
                   Ret is_default \<Rightarrow>
                     if (if is_ptr then data \<noteq> 0 else \<not> is_default) then present else absent
                 | _ \<Rightarrow> None)
      else if f_size_offset field = 0 then None
      else if htype = PB_HTYPE_REPEATED then array_spec h val field (load_nat h size_at 4) data
      else if load_nat h size_at 4 = unat (f_tag field) then present else absent)"

definition callback_field_spec :: "user_spec \<Rightarrow> heap \<Rightarrow> pb_field \<Rightarrow> addr \<Rightarrow> enc_promise" where
  "callback_field_spec us h field p =
     (if load_ptr h p = 0 then Some ([], Complete)
      else case callback_spec us (load_ptr h p) field (p + callback_arg_off) h of
        Some (bs, FailsSilently) \<Rightarrow> Some (bs, Fails ''callback error'')
      | q \<Rightarrow> q)"

definition field_spec :: "user_spec \<Rightarrow> submsg_spec \<Rightarrow> heap \<Rightarrow> pb_field \<Rightarrow> addr \<Rightarrow> enc_promise" where
  "field_spec us rec h field p =
     (if PB_ATYPE (f_type field) = PB_ATYPE_STATIC \<or> PB_ATYPE (f_type field) = PB_ATYPE_POINTER
      then basic_field_spec rec h field p
      else if PB_ATYPE (f_type field) = PB_ATYPE_CALLBACK then callback_field_spec us h field p
      else Some ([], Fails ''invalid field type''))"

fun extensions_spec ::
  "nat \<Rightarrow> user_spec \<Rightarrow> 's pb_env \<Rightarrow> submsg_spec \<Rightarrow> heap \<Rightarrow> addr \<Rightarrow> enc_promise" where
  "extensions_spec n us env rec h e =
     (if e = 0 then Some ([], Complete)
      else case n of 0 \<Rightarrow> None
      | Suc n \<Rightarrow>
          sp_seq (if ext_encode (ext_type_at env (load_ptr h e)) \<noteq> None
                  then extension_spec us (load_ptr h e) e h
                  else let field = ext_arg (ext_type_at env (load_ptr h e)) in
                    field_spec us rec h field
                      (if PB_ATYPE (f_type field) = PB_ATYPE_POINTER then e + ext_dest_off
                       else load_ptr h (e + ext_dest_off)))
            (extensions_spec n us env rec h (load_ptr h (e + ext_next_off))))"

declare extensions_spec.simps [simp del]

fun fields_spec ::
  "nat \<Rightarrow> user_spec \<Rightarrow> 's pb_env \<Rightarrow> submsg_spec \<Rightarrow> heap \<Rightarrow> pb_field_iter list \<Rightarrow> enc_promise" where
  "fields_spec n us env rec h [] = Some ([], Complete)"
| "fields_spec n us env rec h (it # its) =
     sp_seq (if PB_LTYPE (f_type (cur it)) = PB_LTYPE_EXTENSION
             then extensions_spec n us env rec h (load_ptr h (pData it))
             else field_spec us rec h (cur it) (pData it))
       (fields_spec n us env rec h its)"

primrec message_spec ::
  "nat \<Rightarrow> user_spec \<Rightarrow> 's pb_env \<Rightarrow> heap \<Rightarrow> pb_field list \<Rightarrow> addr \<Rightarrow> enc_promise" where
  "message_spec 0 us env h flds src = None"
| "message_spec (Suc n) us env h flds src =
     fields_spec n us env (message_spec n us env h) h (iter_fields flds src)"

subsection \<open>Refinement\<close>

text \<open>
  \<open>encodes w (bs, e)\<close> is \<open>emits\<close> for encoders with an outcome; \<open>refines w q\<close> says
  that \<open>w\<close> keeps the promise \<open>q\<close>.
\<close>

definition encodes :: "('s pb_ostream \<Rightarrow> 's enc_result) \<Rightarrow> enc_spec \<Rightarrow> bool" where
  "encodes w sp \<longleftrightarrow> (\<forall>s. ostream_ok s \<longrightarrow>
     (if fits s (length (fst sp)) then w s = Ret (finish (snd sp) (emit s (fst sp)))
      else \<exists>t. w s = Ret (False, t) \<and> stream_full s (fst sp) t))"

definition refines :: "('s pb_ostream \<Rightarrow> 's enc_result) \<Rightarrow> enc_promise \<Rightarrow> bool" where
  "refines w q \<longleftrightarrow> (\<forall>sp. q = Some sp \<longrightarrow> encodes w sp)"

lemma refines_None [simp, intro]: "refines w None"
  by (simp add: refines_def)

lemma refines_Some: "refines w (Some sp) \<longleftrightarrow> encodes w sp"
  by (simp add: refines_def)

lemma encodesD:
  "encodes w (bs, e) \<Longrightarrow> ostream_ok s \<Longrightarrow> fits s (length bs) \<Longrightarrow> w s = Ret (finish e (emit s bs))"
  "encodes w (bs, e) \<Longrightarrow> ostream_ok s \<Longrightarrow> \<not> fits s (length bs) \<Longrightarrow>
     \<exists>t. w s = Ret (False, t) \<and> stream_full s bs t"
  by (auto simp: encodes_def)

lemma encodes_emits: "emits w sp \<Longrightarrow> encodes (\<lambda>s. Ret (w s)) sp"
  by (auto simp: encodes_def emits_def)

lemma encodes_cong: "(\<And>s. ostream_ok s \<Longrightarrow> w s = w' s) \<Longrightarrow> encodes w sp \<longleftrightarrow> encodes w' sp"
  by (simp add: encodes_def)

lemma encodes_stop: "encodes (\<lambda>s. Ret (finish e s)) ([], e)"
  by (auto simp: encodes_def emit_Nil fits_def ostream_ok_def)

lemma encodes_done: "encodes (\<lambda>s. Ret (True, s)) ([], Complete)"
  using encodes_stop [of Complete] by simp

lemma encodes_fails: "encodes (\<lambda>s. Ret (False, set_oerror m s)) ([], Fails m)"
  using encodes_stop [of "Fails m"] by simp

lemma encodes_silent: "encodes (\<lambda>s. Ret (False, s)) ([], FailsSilently)"
  using encodes_stop [of FailsSilently] by simp

lemma encodes_then:
  assumes w: "encodes w (bs, Complete)" and v: "encodes v (bs', e)"
  shows "encodes (\<lambda>s. on_enc (w s) v) (bs @ bs', e)"
  unfolding encodes_def
proof (intro allI impI)
  fix s :: "'a pb_ostream"
  assume ok: "ostream_ok s"
  show "if fits s (length (fst (bs @ bs', e)))
        then on_enc (w s) v = Ret (finish (snd (bs @ bs', e)) (emit s (fst (bs @ bs', e))))
        else \<exists>t. on_enc (w s) v = Ret (False, t) \<and> stream_full s (fst (bs @ bs', e)) t"
  proof (cases "fits s (length bs)")
    case False
    then have "\<not> fits s (length bs + length bs')" using fits_less by blast
    with encodesD(2) [OF w ok False] show ?thesis by (auto intro: stream_full_append)
  next
    case True
    have "\<not> fits s (length bs + length bs') \<Longrightarrow> \<not> is_sizing (o_sink s)"
      by (auto simp: fits_def)
    with encodesD(1) [OF w ok True] encodesD [OF v emit_ok [OF ok True]]
      fits_emit [OF ok True, of "length bs'"] stream_full_emit [OF ok True]
    show ?thesis by auto
  qed
qed

lemma encodes_then_fail:
  assumes w: "encodes w (bs, e)" and e: "e \<noteq> Complete"
  shows "encodes (\<lambda>s. on_enc (w s) v) (bs, e)"
  unfolding encodes_def
proof (intro allI impI)
  fix s :: "'a pb_ostream"
  assume ok: "ostream_ok s"
  show "if fits s (length (fst (bs, e)))
        then on_enc (w s) v = Ret (finish (snd (bs, e)) (emit s (fst (bs, e))))
        else \<exists>t. on_enc (w s) v = Ret (False, t) \<and> stream_full s (fst (bs, e)) t"
    using encodesD [OF w ok] e by (cases e) auto
qed

lemma refines_then:
  assumes w: "refines w q" and v: "\<And>bs. q = Some (bs, Complete) \<Longrightarrow> refines v q'"
  shows "refines (\<lambda>s. on_enc (w s) v) (sp_seq q q')"
proof (cases q)
  case (Some sp)
  obtain bs e where sp: "sp = (bs, e)" by fastforce
  show ?thesis
  proof (cases "e = Complete")
    case True
    with v [of bs] Some sp w show ?thesis
      by (cases q') (auto simp: refines_def intro: encodes_then)
  next
    case False
    with w Some sp show ?thesis
      by (cases e) (auto simp: refines_def intro: encodes_then_fail)
  qed
qed simp

lemma refines_if:
  "(b \<Longrightarrow> refines w q) \<Longrightarrow> (\<not> b \<Longrightarrow> refines v q') \<Longrightarrow>
   refines (\<lambda>s. if b then w s else v s) (if b then q else q')"
  by simp

lemma refines_string:
  "length buf = n \<Longrightarrow> refines (\<lambda>s. Ret (pb_encode_string s buf n)) (string_spec buf)"
proof -
  assume n: "length buf = n"
  have "length (varint_bytes (word_of_nat n)) < 2 ^ 63"
    using varint_length_10 [of "word_of_nat n"] by simp
  from encodes_emits [OF emits_string [OF n _ this]] n show ?thesis
    by (auto simp: string_spec_def refines_def)
qed

lemma encodes_varint: "encodes (\<lambda>s. Ret (pb_encode_varint s v)) (varint_bytes v, Complete)"
proof -
  have "length (varint_bytes v) < 2 ^ 63"
    using varint_length_10 [of v] by simp
  then show ?thesis by (intro encodes_emits emits_varint)
qed

subsection \<open>Submessages\<close>

lemma sizing_ok: "ostream_ok PB_OSTREAM_SIZING"
  by (simp add: ostream_ok_def PB_OSTREAM_SIZING_def)

lemma fits_sizing [simp]: "fits PB_OSTREAM_SIZING n"
  by (simp add: fits_def PB_OSTREAM_SIZING_def)

lemma sizing_simps [simp]:
  "bytes_written PB_OSTREAM_SIZING = 0" "o_errmsg PB_OSTREAM_SIZING = None"
  "o_sink PB_OSTREAM_SIZING = NullSink"
  by (simp_all add: PB_OSTREAM_SIZING_def)

text \<open>A run on a sizing stream measures the encoding.\<close>

lemma sizing_run:
  "encodes w (bs, e) \<Longrightarrow> w PB_OSTREAM_SIZING = Ret (finish e (emit PB_OSTREAM_SIZING bs))"
  by (rule encodesD(1) [OF _ sizing_ok]) simp_all

lemma size_add_0_left: "n < 2 ^ 64 \<Longrightarrow> size_add 0 n = n"
  by (simp add: size_add_def)

lemma set_oerror_fresh:
  "o_errmsg s = None \<Longrightarrow> set_oerror m s = s\<lparr>o_errmsg := Some m\<rparr>"
  "o_errmsg s = None \<Longrightarrow> o_errmsg (set_oerror m s) = Some m"
  "o_errmsg s = None \<Longrightarrow> s\<lparr>o_errmsg := None\<rparr> = s"
  by (simp_all add: set_oerror_def)

lemma submessage_fails:
  assumes w: "encodes (\<lambda>s. rec s flds a) (bs, e)" and e: "e \<noteq> Complete"
  shows "encodes (\<lambda>s. pb_encode_submessage rec s flds a) ([], e)"
proof -
  have *: "rec PB_OSTREAM_SIZING flds a = Ret (finish e (emit PB_OSTREAM_SIZING bs))"
    using w by (rule sizing_run)
  have "pb_encode_submessage rec s flds a = Ret (finish e s)" if "ostream_ok s" for s
  proof -
    have "o_errmsg s = None" using that by (simp add: ostream_ok_def)
    then show ?thesis
      using e by (cases e) (simp_all add: pb_encode_submessage_def * set_oerror_fresh)
  qed
  then show ?thesis by (rule encodes_cong [THEN iffD2, OF _ encodes_stop])
qed

lemma submessage_body:
  assumes w: "encodes (\<lambda>s. rec s flds a) (bs, Complete)" and n: "length bs < 2 ^ 63"
  shows "encodes (\<lambda>s. if is_sizing (o_sink s) then Ret (pb_write s [] (length bs))
      else if size_add (bytes_written s) (length bs) > max_size s
      then Ret (False, set_oerror ''stream full'' s)
      else on_ret (rec \<lparr>o_sink = o_sink s, max_size = length bs, bytes_written = 0, o_errmsg = None\<rparr>
                     flds a)
        (\<lambda>(status, substream).
          let s' = s\<lparr>bytes_written := size_add (bytes_written s) (bytes_written substream),
                     o_sink := o_sink substream, o_errmsg := o_errmsg substream\<rparr>
          in if bytes_written substream \<noteq> length bs
             then Ret (False, set_oerror ''submsg size changed'' s')
             else Ret (status, s'))) (bs, Complete)" (is "encodes ?body _")
  unfolding encodes_def
proof (intro allI impI)
  fix s :: "'a pb_ostream"
  assume ok: "ostream_ok s"
  show "if fits s (length (fst (bs, Complete)))
        then ?body s = Ret (finish (snd (bs, Complete)) (emit s (fst (bs, Complete))))
        else \<exists>t. ?body s = Ret (False, t) \<and> stream_full s (fst (bs, Complete)) t"
  proof (cases "is_sizing (o_sink s)")
    case True
    then have "o_sink s = NullSink" by (cases "o_sink s") auto
    then show ?thesis by (simp add: fits_def pb_write_def emit_def)
  next
    case False
    with ok n have sum: "size_add (bytes_written s) (length bs) = bytes_written s + length bs"
      by (intro size_add_small) (auto simp: ostream_ok_def)
    show ?thesis
    proof (cases "fits s (length bs)")
      case full: False
      with False sum have "?body s = Ret (False, set_oerror ''stream full'' s)"
        by (simp add: fits_def)
      with full ok show ?thesis
        by (auto simp: stream_full_def emit_Nil ostream_ok_def fits_def intro!: exI [of _ 0])
    next
      case True
      let ?sub = "\<lparr>o_sink = o_sink s, max_size = length bs, bytes_written = 0, o_errmsg = None\<rparr>"
      have "ostream_ok ?sub" "fits ?sub (length bs)"
        using ok n by (auto simp: ostream_ok_def fits_def)
      from encodesD(1) [OF w this] True False sum ok n show ?thesis
        by (simp add: fits_def ostream_ok_def emit_def Let_def size_add_0_left)
    qed
  qed
qed

lemma refines_delimited:
  assumes "refines (\<lambda>s. rec s flds a) q"
  shows "refines (\<lambda>s. pb_encode_submessage rec s flds a) (delimited_spec q)"
proof (cases q)
  case (Some sp)
  obtain bs e where sp: "sp = (bs, e)" by fastforce
  with Some assms have w: "encodes (\<lambda>s. rec s flds a) (bs, e)" by (simp add: refines_def)
  show ?thesis
  proof (cases "e = Complete")
    case False
    with submessage_fails [of rec flds a bs e, OF w] Some sp show ?thesis by (cases e) (auto simp: refines_def)
  next
    case True
    note w = w [unfolded True]
    show ?thesis
    proof (cases "length bs < 2 ^ 63")
      case n: True
      have "pb_encode_submessage rec s flds a =
          on_enc (Ret (pb_encode_varint s (word_of_nat (length bs)))) (\<lambda>s.
            if is_sizing (o_sink s) then Ret (pb_write s [] (length bs))
            else if size_add (bytes_written s) (length bs) > max_size s
            then Ret (False, set_oerror ''stream full'' s)
            else on_ret (rec \<lparr>o_sink = o_sink s, max_size = length bs, bytes_written = 0, o_errmsg = None\<rparr>
                     flds a)
              (\<lambda>(status, substream).
                let s' = s\<lparr>bytes_written := size_add (bytes_written s) (bytes_written substream),
                     o_sink := o_sink substream, o_errmsg := o_errmsg substream\<rparr>
                in if bytes_written substream \<noteq> length bs
                   then Ret (False, set_oerror ''submsg size changed'' s')
                   else Ret (status, s')))" for s
        using sizing_run [OF w] n
        by (simp add: pb_encode_submessage_def size_add_0_left Let_def cong: if_cong)
      with encodes_then [OF encodes_varint submessage_body [of rec flds a bs, OF w n]] n show ?thesis
        by (simp add: Some sp True string_spec_def refines_Some cong: if_cong)
    qed (simp add: Some sp True string_spec_def)
  qed
qed simp

subsection \<open>Values\<close>

lemma refines_emits: "emits w sp \<Longrightarrow> refines (\<lambda>s. Ret (w s)) (Some sp)"
  by (simp add: refines_Some encodes_emits)

lemma refines_fails: "refines (\<lambda>s. Ret (False, set_oerror m s)) (Some ([], Fails m))"
  by (simp add: refines_Some encodes_fails)

lemma refines_done: "refines (\<lambda>s. Ret (True, s)) (Some ([], Complete))"
  by (simp add: refines_Some encodes_done)

lemma refines_varint: "refines (\<lambda>s. Ret (pb_encode_varint s v)) (Some (varint_bytes v, Complete))"
  by (simp add: refines_Some encodes_varint)

lemma load_fixed32: "fixed32_bytes (word_of_nat (load_nat h a 4)) = load_bytes h a 4"
proof -
  have "load_nat h a 4 < 2 ^ 32" using load_nat_bound [of h a 4] by simp
  then have "unat (word_of_nat (load_nat h a 4) :: u32) = load_nat h a 4" by (simp add: unat_of_nat)
  then show ?thesis
    using to_le_of_le [of "load_bytes h a 4"] by (simp add: fixed32_le load_nat_def)
qed

lemma load_fixed64: "fixed64_bytes (word_of_nat (load_nat h a 8)) = load_bytes h a 8"
proof -
  have "load_nat h a 8 < 2 ^ 64" using load_nat_bound [of h a 8] by simp
  then have "unat (word_of_nat (load_nat h a 8) :: u64) = load_nat h a 8" by (simp add: unat_of_nat)
  then show ?thesis
    using to_le_of_le [of "load_bytes h a 8"] by (simp add: fixed64_le load_nat_def)
qed

lemma refines_tag: "refines (\<lambda>s. Ret (pb_encode_tag_for_field s field)) (tag_spec field)"
  unfolding pb_encode_tag_for_field_def tag_spec_def pb_encode_tag_def
  by (cases "wire_type_of (PB_LTYPE (f_type field))") (auto intro: refines_fails refines_varint)

text \<open>The contract of the encoders of the table \<open>PB_ENCODERS\<close>.\<close>

locale value_encoder =
  fixes enc :: "'s pb_encoder" and spec :: "pb_field \<Rightarrow> addr \<Rightarrow> enc_promise"
  assumes refines: "refines (\<lambda>s. enc s field a) (spec field a)"
begin

lemma packed: "refines (packed_loop enc field n a) (packed_spec (spec field) field n a)"
proof (induction n arbitrary: a)
  case 0
  show ?case using refines_done by simp
next
  case (Suc n)
  from refines_then [OF refines Suc.IH] show ?case by simp
qed

lemma unpacked: "refines (unpacked_loop h enc field n a) (unpacked_spec h (spec field) field n a)"
proof (induction n arbitrary: a)
  case 0
  show ?case using refines_done by simp
next
  case (Suc n)
  from refines_then [OF refines_tag refines_then [OF refines Suc.IH]]
  show ?case by simp
qed

lemma tagged:
  "refines (\<lambda>s. on_enc (Ret (pb_encode_tag_for_field s field)) (\<lambda>s. enc s field a))
     (sp_seq (tag_spec field) (spec field a))"
  by (rule refines_then [OF refines_tag refines])

end

interpretation varint_enc: value_encoder "pb_enc_varint h" "value_spec rec h PB_LTYPE_VARINT" for h rec
  by unfold_locales
     (auto simp: pb_enc_varint_def value_spec_def Let_def intro: refines_varint refines_fails)

interpretation uvarint_enc: value_encoder "pb_enc_uvarint h" "value_spec rec h PB_LTYPE_UVARINT" for h rec
  by unfold_locales
     (auto simp: pb_enc_uvarint_def value_spec_def Let_def intro: refines_varint refines_fails)

interpretation svarint_enc: value_encoder "pb_enc_svarint h" "value_spec rec h PB_LTYPE_SVARINT" for h rec
  by unfold_locales
     (auto simp: pb_enc_svarint_def pb_encode_svarint_def value_spec_def Let_def
           intro: refines_varint refines_fails)

interpretation fixed32_enc: value_encoder "pb_enc_fixed32 h" "value_spec rec h PB_LTYPE_FIXED32" for h rec
  by unfold_locales
     (use refines_emits [OF emits_fixed32] in
       \<open>simp add: pb_enc_fixed32_def value_spec_def Let_def load_fixed32 [symmetric]\<close>)

interpretation fixed64_enc: value_encoder "pb_enc_fixed64 h" "value_spec rec h PB_LTYPE_FIXED64" for h rec
  by unfold_locales
     (use refines_emits [OF emits_fixed64] in
       \<open>simp add: pb_enc_fixed64_def value_spec_def Let_def load_fixed64 [symmetric]\<close>)

interpretation bytes_enc: value_encoder "pb_enc_bytes h" "value_spec rec h PB_LTYPE_BYTES" for h rec
  by unfold_locales
     (auto simp: pb_enc_bytes_def value_spec_def bytes_spec_def PB_BYTES_ARRAY_T_ALLOCSIZE_def Let_def
           intro!: refines_string refines_fails)

interpretation string_enc: value_encoder "pb_enc_string h" "value_spec rec h PB_LTYPE_STRING" for h rec
  by unfold_locales
     (auto simp: pb_enc_string_def value_spec_def text_spec_def Let_def intro!: refines_string)

interpretation fixed_length_enc:
    value_encoder "pb_enc_fixed_length_bytes h" "value_spec rec h PB_LTYPE_FIXED_LENGTH_BYTES" for h rec
  by unfold_locales
     (auto simp: pb_enc_fixed_length_bytes_def value_spec_def Let_def intro!: refines_string)

text \<open>A submessage encoder that keeps its promise, one level down.\<close>

locale submsg_refines =
  fixes rec :: "'s submsg_encoder" and srec :: submsg_spec
  assumes submsg: "refines (\<lambda>s. rec s flds a) (srec flds a)"
begin

lemma submessage: "refines (\<lambda>s. pb_enc_submessage rec s field a) (value_spec srec h PB_LTYPE_SUBMESSAGE field a)"
  using refines_delimited [of rec, OF submsg]
  by (auto simp: pb_enc_submessage_def value_spec_def Let_def intro: refines_fails)

lemma table: "refines (\<lambda>s. PB_ENCODERS rec h lt s field a) (value_spec srec h lt field a)"
proof -
  consider "lt = PB_LTYPE_VARINT" | "lt = PB_LTYPE_UVARINT" | "lt = PB_LTYPE_SVARINT"
    | "lt = PB_LTYPE_FIXED32" | "lt = PB_LTYPE_FIXED64" | "lt = PB_LTYPE_BYTES"
    | "lt = PB_LTYPE_STRING" | "lt = PB_LTYPE_SUBMESSAGE" | "lt = PB_LTYPE_FIXED_LENGTH_BYTES"
    | "value_spec srec h lt field a = None"
    by (fastforce simp: value_spec_def Let_def)
  then show ?thesis
    by cases (simp_all add: PB_ENCODERS_def varint_enc.refines uvarint_enc.refines svarint_enc.refines
      fixed32_enc.refines fixed64_enc.refines bytes_enc.refines string_enc.refines submessage
      fixed_length_enc.refines)
qed

end
sublocale submsg_refines \<subseteq> table: value_encoder "PB_ENCODERS rec h lt" "value_spec srec h lt" for h lt
  by unfold_locales (rule table)

subsection \<open>Arrays\<close>

lemma encodes_sized:
  assumes w: "encodes w (bs, Complete)"
  shows "encodes (\<lambda>s. if is_sizing (o_sink s) then Ret (pb_write s [] (length bs)) else w s)
           (bs, Complete)" (is "encodes ?w _")
  unfolding encodes_def
proof (intro allI impI)
  fix s :: "'a pb_ostream"
  assume ok: "ostream_ok s"
  show "if fits s (length (fst (bs, Complete)))
        then ?w s = Ret (finish (snd (bs, Complete)) (emit s (fst (bs, Complete))))
        else \<exists>t. ?w s = Ret (False, t) \<and> stream_full s (fst (bs, Complete)) t"
  proof (cases "o_sink s")
    case NullSink
    then show ?thesis by (simp add: fits_def pb_write_def emit_def)
  qed (use encodesD [OF w ok] in auto)
qed

lemma packed_spec_fixed:
  "packed_spec (\<lambda>a. Some (load_bytes h a k, Complete)) field n p = Some (bs, e) \<Longrightarrow>
   e = Complete \<and> length bs = k * n"
  by (induction n arbitrary: p bs) (auto split: option.splits)

context submsg_refines
begin

lemma packed_size:
  assumes q: "packed_spec (value_spec srec h (PB_LTYPE (f_type field)) field) field n p = Some (bs, e)"
    and len: "e = Complete \<Longrightarrow> length bs < 2 ^ 63"
  shows "packed_size (PB_ENCODERS rec h (PB_LTYPE (f_type field))) field n p =
     Ret (if e = Complete then Some (length bs) else None)"
proof -
  let ?lt = "PB_LTYPE (f_type field)"
  consider (fixed) k :: nat where "k = 4 \<and> ?lt = PB_LTYPE_FIXED32 \<or> k = 8 \<and> ?lt = PB_LTYPE_FIXED64"
    | (other) "?lt \<noteq> PB_LTYPE_FIXED32" "?lt \<noteq> PB_LTYPE_FIXED64" by blast
  then show ?thesis
  proof cases
    case (fixed k)
    then have "value_spec srec h ?lt field = (\<lambda>a. Some (load_bytes h a k, Complete))"
      by (auto simp: value_spec_def Let_def)
    with packed_spec_fixed q fixed show ?thesis by (auto simp: packed_size_def)
  next
    case other
    have "encodes (packed_loop (PB_ENCODERS rec h ?lt) field n p) (bs, e)"
      using table.packed [of h ?lt field n p] q by (simp add: refines_Some)
    then have "packed_loop (PB_ENCODERS rec h ?lt) field n p PB_OSTREAM_SIZING
        = Ret (finish e (emit PB_OSTREAM_SIZING bs))" by (rule sizing_run)
    with other len show ?thesis
      by (cases e) (auto simp: packed_size_def size_add_0_left)
  qed
qed

lemma array:
  fixes h field n p
  defines "lt \<equiv> PB_LTYPE (f_type field)"
  shows "refines (\<lambda>s. encode_array h s field p n (PB_ENCODERS rec h lt))
           (array_spec h (value_spec srec h lt field) field n p)"
proof -
  let ?func = "PB_ENCODERS rec h lt"
  let ?body = "\<lambda>s. on_ret (packed_size ?func field n p) (\<lambda>sz. case sz of None \<Rightarrow> Ret (False, s)
      | Some sz \<Rightarrow> on_enc (Ret (pb_encode_varint s (word_of_nat sz))) (\<lambda>s.
          if is_sizing (o_sink s) then Ret (pb_write s [] sz) else packed_loop ?func field n p s))"
  let ?q = "packed_spec (value_spec srec h lt field) field n p"
  have body: "refines ?body (case ?q of None \<Rightarrow> None
      | Some (bs, Complete) \<Rightarrow> string_spec bs | Some (bs, e) \<Rightarrow> Some ([], FailsSilently))"
  proof (cases ?q)
    case (Some sp)
    obtain bs e where sp: "sp = (bs, e)" by fastforce
    show ?thesis
    proof (cases "e = Complete")
      case False
      then have "packed_size ?func field n p = Ret None"
        using packed_size [of h field n p bs e] Some sp by (simp add: lt_def)
      with False Some sp encodes_silent show ?thesis by (cases e) (auto simp: refines_def)
    next
      case True
      show ?thesis
      proof (cases "length bs < 2 ^ 63")
        case len: True
        then have sz: "packed_size ?func field n p = Ret (Some (length bs))"
          using packed_size [of h field n p bs e] Some sp True by (simp add: lt_def)
        have "encodes (packed_loop ?func field n p) (bs, Complete)"
          using table.packed [of h lt field n p] Some sp True by (simp add: refines_Some)
        from encodes_then [OF encodes_varint encodes_sized [OF this]] show ?thesis
          using Some sp True len by (simp add: sz string_spec_def refines_Some cong: if_cong)
      qed (simp add: Some sp True string_spec_def)
    qed
  qed simp
  have packed: "refines (\<lambda>s. on_enc (Ret (pb_encode_tag s PB_WT_STRING (f_tag field))) ?body)
      (sp_seq (Some (varint_bytes (tag_value PB_WT_STRING (f_tag field)), Complete))
        (case ?q of None \<Rightarrow> None
          | Some (bs, Complete) \<Rightarrow> string_spec bs | Some (bs, e) \<Rightarrow> Some ([], FailsSilently)))"
    unfolding pb_encode_tag_def by (rule refines_then [OF refines_varint body])
  show ?thesis
    unfolding encode_array_def array_spec_def lt_def [symmetric]
    by (intro refines_if refines_done refines_fails packed table.unpacked)
qed

end
subsection \<open>Fields and messages\<close>

lemma set_oerror_keeps_first: "set_oerror m (set_oerror m' s) = set_oerror m' s"
  by (simp add: set_oerror_def split: option.splits)

lemma stream_full_error: "stream_full s bs t \<Longrightarrow> set_oerror m t = t"
  by (auto simp: stream_full_def set_oerror_keeps_first)

context submsg_refines
begin

lemma basic_field: "refines (\<lambda>s. encode_basic_field rec h s field p) (basic_field_spec srec h field p)"
proof (cases "f_size_offset field = 0")
  case True
  then show ?thesis
    unfolding encode_basic_field_def basic_field_spec_def Let_def
    by (cases "pb_check_proto3_default_value h field p")
       (auto intro: table.tagged refines_done refines_fails simp del: sp_seq.simps)
next
  case False
  then show ?thesis
    unfolding encode_basic_field_def basic_field_spec_def Let_def
    by (auto intro: table.tagged refines_done refines_fails array simp del: sp_seq.simps)
qed

end

text \<open>User code that keeps its promises.\<close>

definition user_refines :: "user_spec \<Rightarrow> 's pb_env \<Rightarrow> bool" where
  "user_refines us env \<longleftrightarrow>
     (\<forall>a f arg h. refines (\<lambda>s. Ret (encode_func env a s f arg h)) (callback_spec us a f arg h))
     \<and> (\<forall>t e h g. ext_encode (ext_type_at env t) = Some g \<longrightarrow>
          refines (\<lambda>s. Ret (g s e h)) (extension_spec us t e h))"

locale encoder_env = submsg_refines rec srec
  for rec :: "'s submsg_encoder" and srec :: submsg_spec +
  fixes us :: user_spec and env :: "'s pb_env"
  assumes user: "user_refines us env"
begin

lemma callback_field:
  "refines (\<lambda>s. encode_callback_field env h s field p) (callback_field_spec us h field p)"
proof (cases "load_ptr h p = 0")
  case True
  then show ?thesis
    by (simp add: encode_callback_field_def callback_field_spec_def refines_done)
next
  case False
  let ?w = "\<lambda>s. encode_func env (load_ptr h p) s field (p + callback_arg_off) h"
  let ?q = "callback_spec us (load_ptr h p) field (p + callback_arg_off) h"
  show ?thesis
  proof (cases ?q)
    case None
    with False show ?thesis by (simp add: callback_field_spec_def)
  next
    case (Some sp)
    obtain bs e where sp: "sp = (bs, e)" by fastforce
    have w: "encodes (\<lambda>s. Ret (?w s)) (bs, e)"
      using user Some sp by (simp add: user_refines_def refines_def)
    let ?e = "case e of FailsSilently \<Rightarrow> Fails ''callback error'' | _ \<Rightarrow> e"
    have "encodes (\<lambda>s. Ret (case ?w s of (False, s) \<Rightarrow> (False, set_oerror ''callback error'' s)
        | (True, s) \<Rightarrow> (True, s))) (bs, ?e)" (is "encodes ?v _")
      unfolding encodes_def
    proof (intro allI impI)
      fix s :: "'s pb_ostream"
      assume ok: "ostream_ok s"
      show "if fits s (length (fst (bs, ?e)))
        then ?v s = Ret (finish (snd (bs, ?e)) (emit s (fst (bs, ?e))))
        else \<exists>t. ?v s = Ret (False, t) \<and> stream_full s (fst (bs, ?e)) t"
        using encodesD [OF w ok]
        by (cases e) (auto simp: stream_full_error set_oerror_keeps_first)
    qed
    with False Some sp show ?thesis
      by (cases e) (simp_all add: encode_callback_field_def callback_field_spec_def refines_Some)
  qed
qed

lemma field: "refines (\<lambda>s. encode_field env rec h s field p) (field_spec us srec h field p)"
  by (simp add: encode_field_def field_spec_def basic_field callback_field refines_fails)

lemma extensions:
  "refines (\<lambda>s. encode_extensions n env rec h s e) (extensions_spec n us env srec h e)"
proof (induction n arbitrary: e)
  case 0
  show ?case
    by (simp add: encode_extensions.simps [of 0] extensions_spec.simps [of 0] refines_done)
next
  case (Suc n)
  let ?t = "load_ptr h e"
  let ?field = "ext_arg (ext_type_at env ?t)"
  let ?one = "\<lambda>s. case ext_encode (ext_type_at env ?t) of Some f \<Rightarrow> Ret (f s e h)
      | None \<Rightarrow> default_extension_encoder env rec h s e"
  have one: "refines ?one (if ext_encode (ext_type_at env ?t) \<noteq> None then extension_spec us ?t e h
      else let field = ?field in field_spec us srec h field
             (if PB_ATYPE (f_type field) = PB_ATYPE_POINTER then e + ext_dest_off
              else load_ptr h (e + ext_dest_off)))"
    using user field
    by (cases "ext_encode (ext_type_at env ?t)")
       (auto simp: user_refines_def default_extension_encoder_def Let_def)
  from refines_then [OF one Suc.IH] show ?case
    by (cases "e = 0")
       (simp_all add: encode_extensions.simps [of "Suc n"] extensions_spec.simps [of "Suc n"] refines_done
          del: not_None_eq)
qed

lemma fields_loop:
  "refines (\<lambda>s. encode_fields n env rec h s its) (fields_spec n us env srec h its)"
proof (induction its)
  case Nil
  show ?case by (simp add: refines_done)
next
  case (Cons it its)
  let ?ext = "PB_LTYPE (f_type (cur it)) = PB_LTYPE_EXTENSION"
  have "refines (\<lambda>s. if ?ext then encode_extension_field n env rec h s (cur it) (pData it)
                   else encode_field env rec h s (cur it) (pData it))
      (if ?ext then extensions_spec n us env srec h (load_ptr h (pData it))
       else field_spec us srec h (cur it) (pData it))"
    by (simp add: encode_extension_field_def extensions field)
  from refines_then [OF this Cons.IH] show ?case by simp
qed

end

theorem pb_encode_refines:
  assumes "user_refines us env"
  shows "refines (\<lambda>s. pb_encode n env h s flds src) (message_spec n us env h flds src)"
proof (induction n arbitrary: flds src)
  case (Suc n)
  have "encoder_env (pb_encode n env h) (message_spec n us env h) us env"
    by unfold_locales (rule Suc.IH, rule assms)
  from encoder_env.fields_loop [OF this] show ?case by simp
qed simp

end
