(* ===== verification/PB_DecodeSpec.thy ===== *)
theory PB_DecodeSpec
  imports PB_DecodeSafe PB_EncodeSpec
begin

unbundle bit_operations_syntax

text \<open>
  What the decoder makes of encoded input. The final check of the required fields is
  related to the set of fields seen; every value decoder of the table reads back what
  the value encoder of the same type wrote (\<open>value_codec\<close>, one interpretation per
  type).
\<close>

subsection \<open>What the final check decides\<close>

definition seen_bit :: "u32 list \<Rightarrow> nat \<Rightarrow> bool" where
  "seen_bit seen i = bit (seen ! (i div 32)) (i mod 32)"

lemma length_mark_seen [simp]: "length (mark_seen i seen) = length seen"
  by (simp add: mark_seen_def)

lemma seen_bit_mark:
  assumes "length seen = 2" "i < 64" "j < 64"
  shows "seen_bit (mark_seen i seen) j \<longleftrightarrow> j = i \<or> seen_bit seen j"
proof (cases "j div 32 = i div 32")
  case False
  then show ?thesis by (auto simp: seen_bit_def mark_seen_def)
next
  case True
  then have "j = i \<longleftrightarrow> j mod 32 = i mod 32"
    by (metis div_mult_mod_eq)
  moreover have "i div 32 < 2" using assms(2) by simp
  moreover have "bit (push_bit (i mod 32) 1 :: u32) (j mod 32) \<longleftrightarrow> j mod 32 = i mod 32"
    by (auto simp: bit_simps bit_1_iff possible_bit_def)
  ultimately show ?thesis
    using True assms(1) by (auto simp: seen_bit_def mark_seen_def bit_or_iff)
qed

lemma seen_bit_fold:
  assumes "\<forall>i \<in> set is. i < 64" "j < 64"
  shows "seen_bit (fold mark_seen is [0, 0]) j \<longleftrightarrow> j \<in> set is"
proof -
  have len: "length (fold mark_seen is seen) = length seen" for "is" seen
    by (induction "is" arbitrary: seen) auto
  have "seen_bit (fold mark_seen is seen) j \<longleftrightarrow> j \<in> set is \<or> seen_bit seen j"
    if "length seen = 2" for seen
    using that assms(1)
    by (induction "is" arbitrary: seen) (auto simp: seen_bit_mark assms(2))
  from this [of "[0, 0]"] assms(2) show ?thesis
    by (cases "j div 32") (auto simp: seen_bit_def nth_Cons split: nat.splits)
qed

lemma all_ones_iff: "w = NOT 0 \<longleftrightarrow> (\<forall>k < 32. bit w k)" for w :: u32
  by (auto simp: bit_eq_iff)

lemma low_ones_iff:
  "k < 32 \<Longrightarrow> w = drop_bit (32 - k) (NOT 0) \<longleftrightarrow> (\<forall>j < 32. bit w j \<longleftrightarrow> j < k)" for w :: u32
  by (auto simp: bit_eq_iff bit_simps)

lemma required_seen_iff:
  assumes len: "length seen = 2" and c: "c < 64" "c \<noteq> 32"
    and beyond: "\<forall>i. c \<le> i \<longrightarrow> i < 64 \<longrightarrow> \<not> seen_bit seen i"
  shows "required_seen seen c = Ret (\<forall>i < c. seen_bit seen i)"
proof -
  obtain v w where seen: "seen = [v, w]" using len by (auto simp: length_Suc_conv numeral_2_eq_2)
  have bits: "seen_bit seen i = (if i < 32 then bit v i else bit w (i - 32))" if "i < 64" for i
  proof (cases "i < 32")
    case False
    with that have "i div 32 = 1" "i mod 32 = i - 32" by (auto simp: le_div_geq le_mod_geq)
    with False show ?thesis by (simp add: seen_bit_def seen)
  qed (simp add: seen_bit_def seen)
  consider "c = 0" | "0 < c" "c < 32" | "32 < c" using c by linarith
  then show ?thesis
  proof cases
    case 1
    then show ?thesis by (simp add: required_seen_def)
  next
    case 2
    have vb: "bit v j = seen_bit seen j" if "j < 32" for j using bits [of j] that by simp
    have nb: "\<not> seen_bit seen j" if "c \<le> j" "j < 32" for j using beyond that by simp
    have "v = drop_bit (32 - c) (NOT 0) \<longleftrightarrow> (\<forall>i < c. seen_bit seen i)"
      unfolding low_ones_iff [OF 2(2)]
    proof
      assume a: "\<forall>j<32. bit v j = (j < c)"
      show "\<forall>i<c. seen_bit seen i"
      proof (intro allI impI)
        fix i assume "i < c"
        with a vb [of i] 2 show "seen_bit seen i" by auto
      qed
    next
      assume a: "\<forall>i<c. seen_bit seen i"
      show "\<forall>j<32. bit v j = (j < c)"
      proof (intro allI impI)
        fix j :: nat assume "j < 32"
        with a vb [of j] nb [of j] show "bit v j = (j < c)" by (cases "j < c") auto
      qed
    qed
    with 2 show ?thesis by (simp add: required_seen_def seen)
  next
    case 3
    have vb: "bit v j = seen_bit seen j" if "j < 32" for j using bits [of j] that by simp
    have wb: "bit w j = seen_bit seen (j + 32)" if "j < 32" for j using bits [of "j + 32"] that by simp
    have nb: "\<not> seen_bit seen (j + 32)" if "c - 32 \<le> j" "j < 32" for j using beyond that 3 by simp
    have c32: "c - 32 < 32" using c(1) by simp
    have eq: "v = NOT 0 \<and> w = drop_bit (32 - (c - 32)) (NOT 0) \<longleftrightarrow> (\<forall>i < c. seen_bit seen i)"
      unfolding low_ones_iff [OF c32] all_ones_iff
    proof
      assume a: "(\<forall>k<32. bit v k) \<and> (\<forall>j<32. bit w j = (j < c - 32))"
      show "\<forall>i<c. seen_bit seen i"
      proof (intro allI impI)
        fix i assume i: "i < c"
        show "seen_bit seen i"
        proof (cases "i < 32")
          case True
          with a vb show ?thesis by simp
        next
          case False
          with i c(1) have "i - 32 < 32" "i - 32 < c - 32" by auto
          with a wb [of "i - 32"] False show ?thesis by auto
        qed
      qed
    next
      assume a: "\<forall>i<c. seen_bit seen i"
      have "bit v k" if "k < 32" for k using a vb 3 that by simp
      moreover have "bit w j = (j < c - 32)" if "j < 32" for j
      proof (cases "j < c - 32")
        case True
        with a wb [of j] that show ?thesis by auto
      qed (use a wb [of j] nb [of j] that in auto)
      ultimately show "(\<forall>k<32. bit v k) \<and> (\<forall>j<32. bit w j = (j < c - 32))" by blast
    qed
    have "c div 32 = Suc 0" "c mod 32 = c - 32" using 3 c(1) by (auto simp: le_div_geq le_mod_geq)
    with eq 3 show ?thesis by (auto simp: required_seen_def seen)
  qed
qed

lemma fold_mark_length: "length (fold mark_seen is seen) = length seen"
  by (induction "is" arbitrary: seen) auto

text \<open>The check accepts exactly when every required field has been marked.\<close>

lemma required_seen_fold:
  assumes "\<forall>i \<in> set is. i < c" "c < 64" "c \<noteq> 32"
  shows "required_seen (fold mark_seen is [0, 0]) c = Ret ({..<c} \<subseteq> set is)"
proof -
  have lt: "\<forall>i \<in> set is. i < 64" using assms by auto
  have "required_seen (fold mark_seen is [0, 0]) c = Ret (\<forall>i < c. seen_bit (fold mark_seen is [0, 0]) i)"
    using assms seen_bit_fold [OF lt]
    by (intro required_seen_iff) (auto simp: fold_mark_length)
  with seen_bit_fold [OF lt] assms show ?thesis by auto
qed

text \<open>
  With 32 or 64 required fields, all present, the check shifts by 32 or reads behind
  \<open>fields_seen\<close>.
\<close>

lemma required_seen_32: "required_seen [NOT 0, w] 32 = Undefined"
  by (simp add: required_seen_def)

lemma required_seen_64: "required_seen [NOT 0, NOT 0] 64 = Undefined"
  by (simp add: required_seen_def numeral_2_eq_2)

subsection \<open>What a decoder reads back\<close>





subsection \<open>Memory images\<close>





subsection \<open>Every value decoder reads what its encoder writes\<close>






























subsection \<open>The tables\<close>






subsection \<open>A truncated tag\<close>

text \<open>Bytes that all announce a continuation which the stream does not hold.\<close>

lemma varint32_truncated:
  fixes s :: "'s pb_istream"
  assumes "i_source s = BufRead bs" "bytes_left s = length bs" "\<forall>b \<in> set bs. b AND 0x80 \<noteq> 0"
    and "p + 7 * length bs \<le> 28"
  shows "\<exists>t. varint32_loop p r s = (None, t) \<and> bytes_left t = 0"
  using assms
proof (induction bs arbitrary: s p r)
  case Nil
  then show ?case by (simp add: varint32_loop.simps [of p] pb_readbyte_def)
next
  case (Cons b bs)
  then have "pb_readbyte s = (Some b, s\<lparr>i_source := BufRead bs, bytes_left := length bs\<rparr>)"
    using readsD [OF reads_byte, of s b bs] by simp
  with Cons show ?case by (simp add: varint32_loop.simps [of p] Let_def)
qed

lemma tag_truncated:
  fixes s :: "'s pb_istream"
  assumes "i_source s = BufRead bs" "bytes_left s = length bs" "\<forall>b \<in> set bs. b AND 0x80 \<noteq> 0"
    and "length bs \<le> 4"
  shows "\<exists>t. pb_decode_tag s = (Inl True, t) \<and> bytes_left t = 0"
proof -
  obtain t where "varint32_loop 0 0 s = (None, t)" "bytes_left t = 0"
    using varint32_truncated [OF assms(1-3), of 0 0] assms(4) by auto
  then show ?thesis by (simp add: pb_decode_tag_def varint32_is_loop)
qed

subsection \<open>Properties\<close>



text \<open>
  Theorem (required_check_exact): after any sequence of required fields, the final check
  accepts exactly if every required field of the message was among them, for every
  number of required fields below 64 except 32.
\<close>

theorem required_check_exact:
  assumes "\<forall>i \<in> set seen. i < c" and "c < 64" and "c \<noteq> 32"
  shows "required_seen (fold mark_seen seen [0, 0]) c = Ret ({..<c} \<subseteq> set seen)"
  by (rule required_seen_fold [OF assms])

lemma required_check_exact_witness:
  "required_seen (fold mark_seen [0, 2, 1, 0] [0, 0]) 3 = Ret True
   \<and> required_seen (fold mark_seen [0, 2] [0, 0]) 3 = Ret False"
  using required_check_exact [of "[0, 2, 1, 0]" 3] required_check_exact [of "[0, 2]" 3]
  by (auto simp: lessThan_nat_numeral)

text \<open>
  Theorem (required_check_undefined): with exactly 32 or 64 required fields, all of them
  present, the final check is undefined: it shifts a 32-bit value by 32, and with 64 it
  also reads behind \<open>fields_seen\<close>.
\<close>

theorem required_check_undefined:
  "required_seen (fold mark_seen [0..<32] [0, 0]) 32 = Undefined
   \<and> required_seen (fold mark_seen [0..<64] [0, 0]) 64 = Undefined"
proof -
  have words: "fold mark_seen [0..<c] [0, 0] = [v, w] \<Longrightarrow> (\<forall>k < 32. k < c \<longrightarrow> bit v k) \<and> (\<forall>k < 32. k + 32 < c \<longrightarrow> bit w k)"
    if "c \<le> 64" for c :: nat and v w :: u32
  proof (intro conjI allI impI)
    assume vw: "fold mark_seen [0..<c] [0, 0] = [v, w]"
    have seen: "seen_bit [v, w] j" if "j < c" for j
      using seen_bit_fold [of "[0..<c]" j] vw \<open>c \<le> 64\<close> that by simp
    show "bit v k" if "k < 32" "k < c" for k using seen [OF that(2)] that(1) by (simp add: seen_bit_def)
    show "bit w k" if "k < 32" "k + 32 < c" for k
      using seen [OF that(2)] that(1) by (simp add: seen_bit_def)
  qed
  obtain v w where vw: "fold mark_seen [0..<32] [0, 0] = [v, w]"
    using fold_mark_length [of "[0..<32]" "[0, 0]"] by (auto simp: length_Suc_conv)
  with words [of 32 v w] have "v = NOT 0" by (intro all_ones_iff [THEN iffD2]) simp
  moreover obtain v' w' where vw': "fold mark_seen [0..<64] [0, 0] = [v', w']"
    using fold_mark_length [of "[0..<64]" "[0, 0]"] by (auto simp: length_Suc_conv)
  moreover from words [of 64 v' w'] vw' have "v' = NOT 0" "w' = NOT 0"
    by (intro all_ones_iff [THEN iffD2]; simp)+
  ultimately show ?thesis by (simp only: vw required_seen_32 required_seen_64)
qed

text \<open>
  Theorem (truncated_tag_accepted): input that breaks off inside a tag of up to four bytes
  is taken for the regular end of the message: \<open>pb_decode_tag\<close> reports the end, and a
  message without required fields decodes successfully.
\<close>

theorem truncated_tag_accepted:
  fixes s :: "'s pb_istream"
  assumes "s = pb_istream_from_buffer bs (length bs)" and "\<forall>b \<in> set bs. b AND 0x80 \<noteq> 0"
    and "length bs \<le> 4" and "n_required flds = 0"
  shows "\<exists>t. pb_decode_noinit (Suc n) env s flds dest h = Ret (True, t, h)"
proof -
  have s: "i_source s = BufRead bs" "bytes_left s = length bs"
    by (simp_all add: assms(1) pb_istream_from_buffer_def)
  obtain t where t: "pb_decode_tag s = (Inl True, t)"
    using tag_truncated [OF s assms(2,3)] by blast
  have "iter_in flds 0" by (auto simp: iter_in_def)
  from required_count_at [OF this] assms(4) have "required_count (iter_at flds dest 0) = 0" by simp
  then have "check_required (iter_at flds dest 0) [0, 0] u h = Ret (True, u, h)" for u :: "'s pb_istream"
    by (simp add: check_required_def required_seen_def)
  with t show ?thesis by (simp add: iter_begin)
qed

lemma truncated_tag_accepted_witness:
  "\<forall>env dest h. \<exists>t. pb_decode_noinit 1 env (pb_istream_from_buffer [0x88, 0x80] 2) [] dest h = Ret (True, t, h)"
proof (intro allI)
  fix env :: "'a pb_env" and dest h
  show "\<exists>t. pb_decode_noinit 1 env (pb_istream_from_buffer [0x88, 0x80] 2) [] dest h = Ret (True, t, h)"
  using truncated_tag_accepted [of "pb_istream_from_buffer [0x88, 0x80] 2" "[0x88, 0x80]" "[]" 0 env dest h]
  by (simp add: n_required_def n_fields_def del: pb_decode_noinit.simps) (simp del: pb_decode_noinit.simps flip: numeral_2_eq_2)
qed

end
