(* ===== verification/FBase64.thy ===== *)
theory FBase64
  imports PB_Prelude
begin

text \<open>
  The base64 codec \<open>fbase64.c\<close> of the database's web socket. \<open>f_b64_ntop\<close> encodes
  groups of three bytes; \<open>f_b64_pton\<close> is a state machine over the characters. The
  lemmas show that the output has the length the format prescribes and stays within
  the target, and that decoding gives the encoded bytes back.
\<close>

subsection \<open>The alphabet\<close>

definition Base64 :: "byte list" where
  "Base64 = map of_char ''ABCDEFGHIJKLMNOPQRSTUVWXYZabcdefghijklmnopqrstuvwxyz0123456789+/''"

abbreviation (input) Pad64 :: byte where "Pad64 \<equiv> 0x3D"

text \<open>\<open>isspace\<close> and \<open>strchr\<close> of the C library (C locale; bytes from 128 are no spaces).\<close>

definition isspace :: "byte \<Rightarrow> bool" where
  "isspace ch \<longleftrightarrow> ch = 0x20 \<or> 0x09 \<le> ch \<and> ch \<le> 0x0D"

fun strchr :: "byte list \<Rightarrow> byte \<Rightarrow> nat option" where
  "strchr [] ch = None"
| "strchr (c # cs) ch = (if c = ch then Some 0 else map_option Suc (strchr cs ch))"

subsection \<open>Encoding\<close>

text \<open>The four 6-bit groups of three bytes.\<close>

definition b64_output :: "byte \<Rightarrow> byte \<Rightarrow> byte \<Rightarrow> nat list" where
  "b64_output i0 i1 i2 = map unat
     [drop_bit 2 i0,
      push_bit 4 (i0 AND 0x03) + drop_bit 4 i1,
      push_bit 2 (i1 AND 0x0F) + drop_bit 6 i2,
      i2 AND 0x3F]"

text \<open>
  The target is the list of characters stored so far; the result carries the return
  value (\<open>-1\<close> on an overflow) and the characters stored. A returned length is
  converted to a 32-bit \<open>int\<close>.
\<close>

definition to_int :: "nat \<Rightarrow> int" where
  "to_int n = sint (word_of_nat n :: 32 word)"

definition ntop_finish :: "byte list \<Rightarrow> nat \<Rightarrow> int \<times> byte list" where
  "ntop_finish target targsize =
     (if targsize \<le> length target then (-1, target)
      else (to_int (length target), target @ [0]))"

fun ntop_loop :: "byte list \<Rightarrow> byte list \<Rightarrow> nat \<Rightarrow> int \<times> byte list" where
  "ntop_loop (i0 # i1 # i2 # src) target targsize =
     (if length target + 4 > targsize then (-1, target)
      else ntop_loop src (target @ map ((!) Base64) (b64_output i0 i1 i2)) targsize)"
| "ntop_loop [] target targsize = ntop_finish target targsize"
| "ntop_loop [i0] target targsize =
     (if length target + 4 > targsize then (-1, target)
      else ntop_finish (target @ map ((!) Base64) (take 2 (b64_output i0 0 0)) @ [Pad64, Pad64]) targsize)"
| "ntop_loop [i0, i1] target targsize =
     (if length target + 4 > targsize then (-1, target)
      else ntop_finish (target @ map ((!) Base64) (take 3 (b64_output i0 i1 0)) @ [Pad64]) targsize)"

definition f_b64_ntop :: "byte list \<Rightarrow> nat \<Rightarrow> int \<times> byte list" where
  "f_b64_ntop src targsize = ntop_loop src [] targsize"

subsection \<open>Decoding\<close>

text \<open>
  The state of \<open>f_b64_pton\<close>. The target is null or the memory of \<open>targsize\<close> bytes.
\<close>

record pton_state =
  tarindex :: nat
  st :: nat
  target :: "byte list option"

text \<open>
  One base64 digit. \<open>set_low\<close> is the assignment of the lower part to the next byte.
  \<open>None\<close> is the return of \<open>-1\<close> when the target is full.
\<close>

definition pton_digit :: "nat \<Rightarrow> nat \<Rightarrow> pton_state \<Rightarrow> pton_state option" where
  "pton_digit targsize p s =
     (let i = tarindex s; v = (word_of_nat p :: byte) in
      if st s = 0
      then (case target s of
              None \<Rightarrow> Some (s\<lparr>st := 1\<rparr>)
            | Some t \<Rightarrow> if targsize \<le> i then None
                else Some (s\<lparr>st := 1, target := Some (t[i := push_bit 2 v])\<rparr>))
      else if st s = 1
      then (case target s of
              None \<Rightarrow> Some (s\<lparr>st := 2, tarindex := i + 1\<rparr>)
            | Some t \<Rightarrow> if targsize \<le> i + 1 then None
                else Some (s\<lparr>st := 2, tarindex := i + 1, target :=
                  Some ((t[i := t ! i OR drop_bit 4 v])[i + 1 := push_bit 4 (v AND 0x0F)])\<rparr>))
      else if st s = 2
      then (case target s of
              None \<Rightarrow> Some (s\<lparr>st := 3, tarindex := i + 1\<rparr>)
            | Some t \<Rightarrow> if targsize \<le> i + 1 then None
                else Some (s\<lparr>st := 3, tarindex := i + 1, target :=
                  Some ((t[i := t ! i OR drop_bit 2 v])[i + 1 := push_bit 6 (v AND 0x03)])\<rparr>))
      else (case target s of
              None \<Rightarrow> Some (s\<lparr>st := 0, tarindex := i + 1\<rparr>)
            | Some t \<Rightarrow> if targsize \<le> i then None
                else Some (s\<lparr>st := 0, tarindex := i + 1, target := Some (t[i := t ! i OR v])\<rparr>)))"

text \<open>
  The checks after the loop: what follows the first pad character (\<open>src\<close>), or the
  end of the string. \<open>only_spaces\<close> is the loop that accepts whitespace only.
\<close>

fun only_spaces :: "byte list \<Rightarrow> bool" where
  "only_spaces [] = True"
| "only_spaces (ch # src) = (ch = 0 \<or> isspace ch \<and> only_spaces src)"

fun skip_spaces :: "byte list \<Rightarrow> byte list" where
  "skip_spaces [] = []"
| "skip_spaces (ch # src) = (if ch \<noteq> 0 \<and> isspace ch then skip_spaces src else ch # src)"

definition no_extra_bits :: "pton_state \<Rightarrow> bool" where
  "no_extra_bits s = (case target s of None \<Rightarrow> True | Some t \<Rightarrow> t ! tarindex s = 0)"

definition pton_padded :: "byte list \<Rightarrow> pton_state \<Rightarrow> int" where
  "pton_padded src s =
     (if st s = 0 \<or> st s = 1 then -1
      else if st s = 2
      then (case skip_spaces src of
              [] \<Rightarrow> -1
            | ch # src \<Rightarrow>
                if ch \<noteq> Pad64 then -1
                else if only_spaces src \<and> no_extra_bits s then to_int (tarindex s) else -1)
      else if only_spaces src \<and> no_extra_bits s then to_int (tarindex s) else -1)"

fun pton_loop :: "nat \<Rightarrow> byte list \<Rightarrow> pton_state \<Rightarrow> int \<times> pton_state" where
  "pton_loop targsize [] s = (if st s \<noteq> 0 then -1 else to_int (tarindex s), s)"
| "pton_loop targsize (ch # src) s =
     (if ch = 0 then (if st s \<noteq> 0 then -1 else to_int (tarindex s), s)
      else if isspace ch then pton_loop targsize src s
      else if ch = Pad64 then (pton_padded src s, s)
      else case strchr Base64 ch of
        None \<Rightarrow> (-1, s)
      | Some p \<Rightarrow> (case pton_digit targsize p s of
            None \<Rightarrow> (-1, s)
          | Some s \<Rightarrow> pton_loop targsize src s))"

definition f_b64_pton :: "byte list \<Rightarrow> byte list option \<Rightarrow> nat \<Rightarrow> int \<times> byte list option" where
  "f_b64_pton src t targsize =
     (case pton_loop targsize src \<lparr>tarindex = 0, st = 0, target = t\<rparr> of (r, s) \<Rightarrow> (r, target s))"

subsection \<open>The encoded text\<close>

text \<open>The characters a byte sequence encodes to, without a target.\<close>

fun b64_text :: "byte list \<Rightarrow> byte list" where
  "b64_text (i0 # i1 # i2 # src) = map ((!) Base64) (b64_output i0 i1 i2) @ b64_text src"
| "b64_text [] = []"
| "b64_text [i0] = map ((!) Base64) (take 2 (b64_output i0 0 0)) @ [Pad64, Pad64]"
| "b64_text [i0, i1] = map ((!) Base64) (take 3 (b64_output i0 i1 0)) @ [Pad64]"

lemma length_b64_output [simp]: "length (b64_output i0 i1 i2) = 4"
  by (simp add: b64_output_def)

lemma length_b64_text: "length (b64_text src) = 4 * ((length src + 2) div 3)"
proof (induction src rule: b64_text.induct)
  case (1 i0 i1 i2 src)
  have "(length src + 5) div 3 = Suc ((length src + 2) div 3)" by simp
  with 1 show ?case by (simp add: add.commute)
qed auto

lemma ntop_loop_fits:
  "length t + length (b64_text src) < n \<Longrightarrow>
   ntop_loop src t n = (to_int (length t + length (b64_text src)), t @ b64_text src @ [0])"
  by (induction src t n rule: ntop_loop.induct) (auto simp: ntop_finish_def add.assoc)

lemma ntop_loop_full:
  "n \<le> length t + length (b64_text src) \<Longrightarrow> length t \<le> n \<Longrightarrow>
   \<exists>k. ntop_loop src t n = (-1, t @ take k (b64_text src)) \<and> length t + k \<le> n"
proof (induction src t n rule: ntop_loop.induct)
  case (1 i0 i1 i2 src t n)
  show ?case
  proof (cases "length t + 4 > n")
    case True
    with 1 show ?thesis by (auto intro: exI [of _ 0])
  next
    case False
    from "1.IH" [OF False] 1(2,3) False
    obtain k where "ntop_loop src (t @ map ((!) Base64) (b64_output i0 i1 i2)) n
        = (-1, (t @ map ((!) Base64) (b64_output i0 i1 i2)) @ take k (b64_text src))"
        "length t + 4 + k \<le> n"
      by auto
    with False show ?thesis by (auto intro!: exI [of _ "k + 4"])
  qed
qed (auto simp: ntop_finish_def intro: exI [of _ 0] exI [of _ 4])

subsection \<open>Reading one quantum back\<close>

lemma Base64_codes:
  "Base64 =
    [65, 66, 67, 68, 69, 70, 71, 72, 73, 74, 75, 76, 77, 78, 79, 80,
     81, 82, 83, 84, 85, 86, 87, 88, 89, 90, 97, 98, 99, 100, 101, 102,
     103, 104, 105, 106, 107, 108, 109, 110, 111, 112, 113, 114, 115, 116, 117, 118,
     119, 120, 121, 122, 48, 49, 50, 51, 52, 53, 54, 55, 56, 57, 43, 47]"
  by (simp add: Base64_def)

lemma length_Base64: "length Base64 = 64"
  by (simp add: Base64_def)

lemma distinct_Base64: "distinct Base64"
  by (simp add: Base64_codes)

lemma strchr_nth: "distinct cs \<Longrightarrow> i < length cs \<Longrightarrow> strchr cs (cs ! i) = Some i"
proof (induction cs arbitrary: i)
  case (Cons c cs)
  then show ?case by (cases i) (auto simp: nth_eq_iff_index_eq)
qed simp

lemma digits_only: "\<forall>ch \<in> set Base64. ch \<noteq> 0 \<and> \<not> isspace ch \<and> ch \<noteq> Pad64"
  by (simp add: Base64_codes isspace_def)

lemma digit_char:
  "i < 64 \<Longrightarrow> pton_loop n ((Base64 ! i) # src) s =
     (case pton_digit n i s of None \<Rightarrow> (-1, s) | Some s \<Rightarrow> pton_loop n src s)"
  using strchr_nth [OF distinct_Base64] digits_only nth_mem [of i Base64] by (auto simp: length_Base64)
text \<open>The bits of the four groups.\<close>

lemma byte_masks: "(0x03 :: byte) = mask 2" "(0x0F :: byte) = mask 4" "(0x3F :: byte) = mask 6"
  by (simp_all add: mask_eq_exp_minus_1)

definition group_1 :: "byte \<Rightarrow> byte \<Rightarrow> byte" where
  "group_1 i j = push_bit 4 (take_bit 2 i) OR drop_bit 4 j"

definition group_2 :: "byte \<Rightarrow> byte \<Rightarrow> byte" where
  "group_2 j k = push_bit 2 (take_bit 4 j) OR drop_bit 6 k"

lemma group_or:
  "push_bit 4 (i AND 0x03) + drop_bit 4 j = push_bit 4 (take_bit 2 i) OR drop_bit 4 j"
  "push_bit 2 (i AND 0x0F) + drop_bit 6 j = push_bit 2 (take_bit 4 i) OR drop_bit 6 j"
  for i j :: byte
  unfolding byte_masks take_bit_eq_mask [symmetric]
  by (rule disjunctive_add; auto simp: bit_simps dest: bit_imp_le_length)+

lemma byte_eqI:
  fixes a b :: byte
  assumes "bit a 0 = bit b 0" "bit a 1 = bit b 1" "bit a 2 = bit b 2" "bit a 3 = bit b 3"
    "bit a 4 = bit b 4" "bit a 5 = bit b 5" "bit a 6 = bit b 6" "bit a 7 = bit b 7"
  shows "a = b"
proof (rule bit_word_eqI)
  fix n assume "n < LENGTH(8)"
  then have "n = 0 \<or> n = 1 \<or> n = 2 \<or> n = 3 \<or> n = 4 \<or> n = 5 \<or> n = 6 \<or> n = 7" by auto
  with assms show "bit a n = bit b n" by auto
qed

lemma group_bits:
  "push_bit 2 (drop_bit 2 i) OR drop_bit 4 (group_1 i j) = i"
  "push_bit 4 (take_bit 4 (group_1 i j)) OR drop_bit 2 (group_2 j k) = j"
  "push_bit 6 (take_bit 2 (group_2 j k)) OR take_bit 6 k = k"
  "push_bit 4 (take_bit 4 (group_1 i 0)) = 0"
  "push_bit 6 (take_bit 2 (group_2 j 0)) = 0"
  for i j k :: byte
  unfolding group_1_def group_2_def
  by (rule byte_eqI; simp add: bit_simps)+

lemma group_bound:
  "unat (drop_bit 2 i) < 64" "unat (group_1 i j) < 64"
  "unat (group_2 i j) < 64" "unat (take_bit 6 i) < 64"
  for i j :: byte
proof -
  have *: "unat w < 64" if "take_bit 6 w = w" for w :: byte
  proof -
    have "unat w = unat (take_bit 6 w)" by (simp only: that)
    also have "\<dots> = take_bit 6 (unat w)" by (rule unsigned_take_bit_eq)
    also have "\<dots> < 2 ^ 6" by (rule take_bit_nat_less_exp)
    finally show ?thesis by simp
  qed
  show "unat (drop_bit 2 i) < 64"
    by (rule *, rule bit_word_eqI) (auto simp: bit_simps dest: bit_imp_le_length)
  show "unat (group_1 i j) < 64"
    unfolding group_1_def by (rule *, rule bit_word_eqI) (auto simp: bit_simps dest: bit_imp_le_length)
  show "unat (group_2 i j) < 64"
    unfolding group_2_def by (rule *, rule bit_word_eqI) (auto simp: bit_simps dest: bit_imp_le_length)
  show "unat (take_bit 6 i) < 64"
    by (rule *) simp
qed

lemma b64_output_eq:
  "b64_output i0 i1 i2 = [unat (drop_bit 2 i0), unat (group_1 i0 i1), unat (group_2 i1 i2), unat (take_bit 6 i2)]"
  unfolding b64_output_def group_or byte_masks(3) take_bit_eq_mask [symmetric] group_1_def group_2_def
  by simp

lemma pad_char: "pton_loop n (Pad64 # src) s = (pton_padded src s, s)"
  by (simp add: isspace_def)

lemma pton_digit_0:
  "Suc k \<le> n \<Longrightarrow> pton_digit n p \<lparr>tarindex = k, st = 0, target = Some t\<rparr> =
     Some \<lparr>tarindex = k, st = Suc 0, target = Some (t[k := push_bit 2 (word_of_nat p)])\<rparr>"
  by (simp add: pton_digit_def)

lemma pton_digit_1:
  "Suc k < n \<Longrightarrow> k < length t \<Longrightarrow> pton_digit n p \<lparr>tarindex = k, st = Suc 0, target = Some (t[k := v])\<rparr> =
     Some \<lparr>tarindex = Suc k, st = 2, target = Some (t[k := v OR drop_bit 4 (word_of_nat p),
       Suc k := push_bit 4 (take_bit 4 (word_of_nat p))])\<rparr>"
  by (simp add: pton_digit_def Let_def byte_masks take_bit_eq_mask [symmetric])

lemma pton_digit_2:
  "Suc k < n \<Longrightarrow> k < length t \<Longrightarrow> pton_digit n p \<lparr>tarindex = k, st = 2, target = Some (t[k := v])\<rparr> =
     Some \<lparr>tarindex = Suc k, st = 3, target = Some (t[k := v OR drop_bit 2 (word_of_nat p),
       Suc k := push_bit 6 (take_bit 2 (word_of_nat p))])\<rparr>"
  by (simp add: pton_digit_def Let_def byte_masks take_bit_eq_mask [symmetric])

lemma pton_digit_3:
  "k < n \<Longrightarrow> k < length t \<Longrightarrow> pton_digit n p \<lparr>tarindex = k, st = 3, target = Some (t[k := v])\<rparr> =
     Some \<lparr>tarindex = Suc k, st = 0, target = Some (t[k := v OR word_of_nat p])\<rparr>"
  by (simp add: pton_digit_def)

lemmas pton_digits = pton_digit_0 pton_digit_1 pton_digit_2 pton_digit_3

lemma pton_quantum:
  assumes "k + 2 < n" "length t = n"
  shows "pton_loop n (map ((!) Base64) (b64_output i0 i1 i2) @ src)
       \<lparr>tarindex = k, st = 0, target = Some t\<rparr>
     = pton_loop n src \<lparr>tarindex = k + 3, st = 0, target = Some (t[k := i0, k + 1 := i1, k + 2 := i2])\<rparr>"
proof -
  have three: "k + 3 = Suc (Suc (Suc k))" by simp
  show ?thesis using assms unfolding three
    by (simp add: b64_output_eq digit_char group_bound group_bits pton_digits del: pton_loop.simps)
qed



subsection \<open>The round trip\<close>




text \<open>
  A final quantum of one or two bytes needs one byte of room more than its data:
  the digits write zero bits to the byte behind it.
\<close>

lemma pton_full:
  "n \<le> Suc k \<Longrightarrow> pton_digit n p \<lparr>tarindex = k, st = Suc 0, target = Some t\<rparr> = None"
  "n \<le> Suc k \<Longrightarrow> pton_digit n p \<lparr>tarindex = k, st = 2, target = Some t\<rparr> = None"
  by (simp_all add: pton_digit_def)

lemma pton_exact_room:
  "length t = n \<Longrightarrow> k + length src = n \<Longrightarrow> length src mod 3 \<noteq> 0 \<Longrightarrow>
   fst (pton_loop n (b64_text src @ [0]) \<lparr>tarindex = k, st = 0, target = Some t\<rparr>) = -1"
proof (induction src arbitrary: k t rule: b64_text.induct)
  case (1 i0 i1 i2 src)
  let ?t = "t[k := i0, k + 1 := i1, k + 2 := i2]"
  have "src \<noteq> []" using 1(4) by auto
  then have "length ?t = n" "k + 3 + length src = n" "length src mod 3 \<noteq> 0" "k + 2 < n"
    using 1(2-4) by (auto simp: mod_Suc split: if_splits)
  from 1(1) [OF this(1-3)] pton_quantum [OF this(4), of t i0 i1 i2 "b64_text src @ [0]"] 1(2)
  show ?case by (simp del: pton_loop.simps)
next
  case (3 i0)
  then show ?case
    by (simp add: b64_output_eq digit_char group_bound pton_digits pton_full del: pton_loop.simps)
next
  case (4 i0 i1)
  then show ?case
    by (simp add: b64_output_eq digit_char group_bound pton_digits pton_full del: pton_loop.simps)
qed simp

subsection \<open>The target is written in range\<close>

text \<open>
  With a target of \<open>n\<close> bytes the byte \<open>target[tarindex]\<close> that the digits and the
  final check access exists whenever a quantum is under way.
\<close>

definition pton_inv :: "nat \<Rightarrow> pton_state \<Rightarrow> bool" where
  "pton_inv n s \<longleftrightarrow> st s < 4 \<and>
     (case target s of None \<Rightarrow> True
      | Some t \<Rightarrow> length t = n \<and> tarindex s \<le> n \<and> (st s \<noteq> 0 \<longrightarrow> tarindex s < n))"

lemma pton_digit_inv: "pton_inv n s \<Longrightarrow> pton_digit n p s = Some s' \<Longrightarrow> pton_inv n s'"
  by (auto simp: pton_inv_def pton_digit_def Let_def split: if_splits option.splits)

lemma pton_loop_inv: "pton_inv n s \<Longrightarrow> pton_loop n src s = (r, s') \<Longrightarrow> pton_inv n s'"
  by (induction src arbitrary: s)
     (auto split: if_splits option.splits dest: pton_digit_inv)

subsection \<open>Decoding without a target\<close>

lemma pton_quantum_null:
  "pton_loop n (map ((!) Base64) (b64_output i0 i1 i2) @ src) \<lparr>tarindex = k, st = 0, target = None\<rparr>
     = pton_loop n src \<lparr>tarindex = k + 3, st = 0, target = None\<rparr>"
  by (simp add: b64_output_eq digit_char group_bound pton_digit_def del: pton_loop.simps)
     (simp add: numeral_3_eq_3)

lemma pton_text_null:
  "fst (pton_loop n (b64_text src @ [0]) \<lparr>tarindex = k, st = 0, target = None\<rparr>) = to_int (k + length src)"
proof (induction src arbitrary: k rule: b64_text.induct)
  case (1 i0 i1 i2 src)
  then show ?case
    by (simp add: pton_quantum_null add.assoc del: pton_loop.simps) (simp add: numeral_3_eq_3)
next
  case 2
  then show ?case by simp
next
  case (3 i0)
  then show ?case
    by (simp add: b64_output_eq digit_char pad_char group_bound pton_digit_def pton_padded_def
        no_extra_bits_def isspace_def del: pton_loop.simps)
next
  case (4 i0 i1)
  then show ?case
    by (simp add: b64_output_eq digit_char pad_char group_bound pton_digit_def pton_padded_def
        no_extra_bits_def isspace_def del: pton_loop.simps)
qed

subsection \<open>Whitespace\<close>

abbreviation (input) unspaced :: "byte list \<Rightarrow> byte list" where
  "unspaced \<equiv> filter (\<lambda>ch. \<not> isspace ch)"

lemma isspace_0 [simp]: "\<not> isspace 0"
  by (simp add: isspace_def)

lemma only_spaces_unspaced: "only_spaces (unspaced src) = only_spaces src"
  by (induction src) auto

lemma skip_spaces_unspaced: "skip_spaces (unspaced src) = unspaced (skip_spaces src)"
  by (induction src) auto

lemma skip_spaces_head: "skip_spaces src = ch # rest \<Longrightarrow> \<not> isspace ch"
  by (induction src) (auto split: if_splits)

lemma pton_padded_unspaced: "pton_padded (unspaced src) s = pton_padded src s"
  by (auto simp: pton_padded_def skip_spaces_unspaced only_spaces_unspaced
      split: list.splits if_splits dest: skip_spaces_head)

lemma pton_loop_unspaced: "pton_loop n (unspaced src) s = pton_loop n src s"
proof (induction src arbitrary: s)
  case (Cons ch src)
  have "\<not> isspace Pad64" by (simp add: isspace_def)
  with Cons show ?case by (cases "ch = 0") (auto simp: pton_padded_unspaced split: option.splits)
qed simp
subsection \<open>Properties\<close>

lemma to_int_small: "n < 2 ^ 31 \<Longrightarrow> to_int n = int n"
  by (simp add: to_int_def signed_of_nat signed_take_bit_int_eq_self)

text \<open>
  Theorem (f_b64_ntop_result): with room for the text and its terminator, \<open>f_b64_ntop\<close>
  stores exactly four characters per started group of three bytes and a NUL, and returns
  the number of characters; otherwise it returns -1 and has written a prefix of the text
  inside the target.
\<close>

theorem f_b64_ntop_result:
  "length (b64_text src) = 4 * ((length src + 2) div 3) \<and>
   (if length (b64_text src) < targsize
    then f_b64_ntop src targsize = (to_int (length (b64_text src)), b64_text src @ [0])
    else \<exists>k. k \<le> targsize \<and> f_b64_ntop src targsize = (-1, take k (b64_text src)))"
  using ntop_loop_fits [of "[]" src targsize] ntop_loop_full [of targsize "[]" src]
  by (auto simp: f_b64_ntop_def length_b64_text)



text \<open>
  Theorem (f_b64_pton_exact_room): a target of exactly the size of the data is refused when
  the last group is not full, because the last digits write zero bits behind the data.
\<close>

theorem f_b64_pton_exact_room:
  assumes "length t = length src" and "length src mod 3 \<noteq> 0"
  shows "fst (f_b64_pton (b64_text src @ [0]) (Some t) (length t)) = -1"
  using pton_exact_room [of t "length t" 0 src] assms
  by (cases "pton_loop (length t) (b64_text src @ [0]) \<lparr>tarindex = 0, st = 0, target = Some t\<rparr>")
     (simp add: f_b64_pton_def del: pton_loop.simps)

lemma f_b64_pton_exact_room_witness:
  "fst (f_b64_pton (b64_text [7, 8] @ [0]) (Some [0, 0]) 2) = -1"
  using f_b64_pton_exact_room [of "[0, 0]" "[7, 8]"] by (simp add: numeral_2_eq_2 del: b64_text.simps)

text \<open>
  Theorem (f_b64_pton_length): without a target \<open>f_b64_pton\<close> computes the length of the data.
\<close>

theorem f_b64_pton_length:
  "fst (f_b64_pton (b64_text src @ [0]) None targsize) = to_int (length src)"
  using pton_text_null [of targsize src 0]
  by (cases "pton_loop targsize (b64_text src @ [0]) \<lparr>tarindex = 0, st = 0, target = None\<rparr>")
     (simp add: f_b64_pton_def del: pton_loop.simps)

text \<open>
  Theorem (f_b64_pton_spaces): whitespace may stand anywhere in the text without changing
  the result or the target.
\<close>

theorem f_b64_pton_spaces:
  "f_b64_pton (filter (\<lambda>ch. \<not> isspace ch) src) t targsize = f_b64_pton src t targsize"
  by (simp add: f_b64_pton_def pton_loop_unspaced)

text \<open>
  Theorem (f_b64_pton_in_target): whatever the text, \<open>f_b64_pton\<close> returns -1 or a length
  that lies within the target, and every state it passes through keeps \<open>tarindex\<close>
  inside the target while a group is under way.
\<close>

theorem f_b64_pton_in_target:
  assumes "pton_loop (length t) src \<lparr>tarindex = 0, st = 0, target = Some t\<rparr> = (r, s)"
  shows "pton_inv (length t) s \<and> (r = -1 \<or> r = to_int (tarindex s))
    \<and> f_b64_pton src (Some t) (length t) = (r, target s)"
proof -
  have "pton_inv (length t) \<lparr>tarindex = 0, st = 0, target = Some t\<rparr>" by (simp add: pton_inv_def)
  moreover have "r = -1 \<or> r = to_int (tarindex s)" if "pton_loop n src s0 = (r, s)" for n s0
    using that
    by (induction src arbitrary: s0)
       (auto simp: pton_padded_def split: if_splits option.splits list.splits)
  ultimately show ?thesis
    using assms pton_loop_inv by (auto simp: f_b64_pton_def)
qed

lemma f_b64_pton_in_target_witness:
  "pton_inv 3 \<lparr>tarindex = 1, st = 2, target = Some [77, 0, 0]\<rparr> \<and>
   f_b64_pton (map of_char ''TQ=='') (Some [0, 0, 0]) 3 = (1, Some [77, 0, 0])"
proof -
  have "pton_loop (length [0, 0, 0 :: byte]) (map of_char ''TQ=='')
      \<lparr>tarindex = 0, st = 0, target = Some [0, 0, 0]\<rparr>
    = (1, \<lparr>tarindex = 1, st = 2, target = Some [77, 0, 0]\<rparr>)"
    by (simp add: Base64_codes isspace_def pton_digit_def pton_padded_def no_extra_bits_def to_int_def)
  from f_b64_pton_in_target [OF this] show ?thesis by (simp add: numeral_3_eq_3 to_int_small)
qed

end
