(* ===== verification/LDB_Coding.thy ===== *)
theory LDB_Coding
  imports PB_Wire
begin

text \<open>
  The encodings of LevelDB (\<open>util/coding.h\<close>, \<open>util/coding.cc\<close>): little-endian
  fixed-width integers, varints and length-prefixed slices. A \<open>Slice\<close> or the range
  from \<open>p\<close> to \<open>limit\<close> is a byte list; a decoder that returns a null pointer or
  \<open>false\<close> is \<open>None\<close>, and otherwise delivers the value and the rest of the range. The
  target is little-endian, so the \<open>memcpy\<close> branches are the ones modelled.
  The locale \<open>slice_codec\<close> is the interface the formats built on top rely on.
\<close>

unbundle bit_operations_syntax

subsection \<open>Fixed-width integers\<close>

definition EncodeFixed32 :: "u32 \<Rightarrow> byte list" where
  "EncodeFixed32 value = to_le 4 (unat value)"

definition EncodeFixed64 :: "u64 \<Rightarrow> byte list" where
  "EncodeFixed64 value = to_le 8 (unat value)"

definition PutFixed32 :: "byte list \<Rightarrow> u32 \<Rightarrow> byte list" where
  "PutFixed32 dst value = dst @ EncodeFixed32 value"

definition PutFixed64 :: "byte list \<Rightarrow> u64 \<Rightarrow> byte list" where
  "PutFixed64 dst value = dst @ EncodeFixed64 value"

definition DecodeFixed32 :: "byte list \<Rightarrow> u32" where
  "DecodeFixed32 ptr = word_of_nat (of_le (take 4 ptr))"

definition DecodeFixed64 :: "byte list \<Rightarrow> u64" where
  "DecodeFixed64 ptr = word_of_nat (of_le (take 8 ptr))"

subsection \<open>Varints\<close>

definition EncodeVarint32 :: "u32 \<Rightarrow> byte list" where
  "EncodeVarint32 v =
     (if v < push_bit 7 1 then [ucast v]
      else if v < push_bit 14 1 then [ucast (v OR 128), ucast (drop_bit 7 v)]
      else if v < push_bit 21 1
      then [ucast (v OR 128), ucast (drop_bit 7 v OR 128), ucast (drop_bit 14 v)]
      else if v < push_bit 28 1
      then [ucast (v OR 128), ucast (drop_bit 7 v OR 128), ucast (drop_bit 14 v OR 128),
            ucast (drop_bit 21 v)]
      else [ucast (v OR 128), ucast (drop_bit 7 v OR 128), ucast (drop_bit 14 v OR 128),
            ucast (drop_bit 21 v OR 128), ucast (drop_bit 28 v)])"

definition PutVarint32 :: "byte list \<Rightarrow> u32 \<Rightarrow> byte list" where
  "PutVarint32 dst v = dst @ EncodeVarint32 v"

lemma drop_7_less: "128 \<le> v \<Longrightarrow> unat (drop_bit 7 v) < unat v" for v :: u64
  by (simp add: word_le_nat_alt drop_bit_eq_div unat_div)

function EncodeVarint64 :: "u64 \<Rightarrow> byte list" where
  "EncodeVarint64 v =
     (if 128 \<le> v then ucast ((v AND (128 - 1)) OR 128) # EncodeVarint64 (drop_bit 7 v)
      else [ucast v])"
  by pat_completeness auto
termination by (relation "measure unat") (auto intro: drop_7_less)

declare EncodeVarint64.simps [simp del]

definition PutVarint64 :: "byte list \<Rightarrow> u64 \<Rightarrow> byte list" where
  "PutVarint64 dst v = dst @ EncodeVarint64 v"

function varint_len :: "u64 \<Rightarrow> nat \<Rightarrow> nat" where
  "varint_len v len = (if 128 \<le> v then varint_len (drop_bit 7 v) (len + 1) else len)"
  by pat_completeness auto
termination by (relation "measure (\<lambda>(v, len). unat v)") (auto intro: drop_7_less)

declare varint_len.simps [simp del]

definition VarintLength :: "u64 \<Rightarrow> nat" where
  "VarintLength v = varint_len v 1"

text \<open>The loop of \<open>GetVarint32PtrFallback\<close>.\<close>

fun GetVarint32Loop :: "nat \<Rightarrow> u32 \<Rightarrow> byte list \<Rightarrow> (u32 \<times> byte list) option" where
  "GetVarint32Loop shift result [] = None"
| "GetVarint32Loop shift result (b # p) =
     (if \<not> shift \<le> 28 then None
      else if b AND 128 \<noteq> 0
      then GetVarint32Loop (shift + 7) (result OR push_bit shift (ucast b AND 127)) p
      else Some (result OR push_bit shift (ucast b), p))"

definition GetVarint32PtrFallback :: "byte list \<Rightarrow> (u32 \<times> byte list) option" where
  "GetVarint32PtrFallback p = GetVarint32Loop 0 0 p"

definition GetVarint32Ptr :: "byte list \<Rightarrow> (u32 \<times> byte list) option" where
  "GetVarint32Ptr p =
     (case p of
        b # q \<Rightarrow> if (ucast b :: u32) AND 128 = 0 then Some (ucast b, q) else GetVarint32PtrFallback p
      | [] \<Rightarrow> GetVarint32PtrFallback p)"

definition GetVarint32 :: "byte list \<Rightarrow> (u32 \<times> byte list) option" where
  "GetVarint32 input = GetVarint32Ptr input"

fun GetVarint64Loop :: "nat \<Rightarrow> u64 \<Rightarrow> byte list \<Rightarrow> (u64 \<times> byte list) option" where
  "GetVarint64Loop shift result [] = None"
| "GetVarint64Loop shift result (b # p) =
     (if \<not> shift \<le> 63 then None
      else if b AND 128 \<noteq> 0
      then GetVarint64Loop (shift + 7) (result OR push_bit shift (ucast b AND 127)) p
      else Some (result OR push_bit shift (ucast b), p))"

definition GetVarint64Ptr :: "byte list \<Rightarrow> (u64 \<times> byte list) option" where
  "GetVarint64Ptr p = GetVarint64Loop 0 0 p"

definition GetVarint64 :: "byte list \<Rightarrow> (u64 \<times> byte list) option" where
  "GetVarint64 input = GetVarint64Ptr input"

subsection \<open>Length-prefixed slices\<close>

text \<open>The size is converted to 32 bits when it is stored.\<close>

definition PutLengthPrefixedSlice :: "byte list \<Rightarrow> byte list \<Rightarrow> byte list" where
  "PutLengthPrefixedSlice dst value = PutVarint32 dst (word_of_nat (length value)) @ value"

definition GetLengthPrefixedSlicePtr :: "byte list \<Rightarrow> (byte list \<times> byte list) option" where
  "GetLengthPrefixedSlicePtr p =
     (case GetVarint32Ptr p of None \<Rightarrow> None
      | Some (len, p) \<Rightarrow>
          if unat len > length p then None else Some (take (unat len) p, drop (unat len) p))"

definition GetLengthPrefixedSlice :: "byte list \<Rightarrow> (byte list \<times> byte list) option" where
  "GetLengthPrefixedSlice input =
     (case GetVarint32 input of None \<Rightarrow> None
      | Some (len, input) \<Rightarrow>
          if length input \<ge> unat len then Some (take (unat len) input, drop (unat len) input)
          else None)"

subsection \<open>The codec interface\<close>

text \<open>
  A decoder of slices takes a non-empty prefix of its input. A codec also reads back what
  its encoder writes, whatever follows. The formats of LevelDB are sequences of such values:
  their loops end by the first law and their round trips rest on the second.
\<close>

locale slice_reader =
  fixes get :: "byte list \<Rightarrow> ('v \<times> byte list) option"
  assumes consumes: "get p = Some (v, q) \<Longrightarrow> \<exists>c. c \<noteq> [] \<and> p = c @ q"
begin

lemma shorter: "get p = Some (v, q) \<Longrightarrow> length q < length p"
  using consumes [of p v q] by auto

lemma suffix: "get p = Some (v, q) \<Longrightarrow> \<exists>n. q = drop n p"
  using consumes [of p v q] by (metis append_eq_conv_conj)

lemma empty_input: "get [] = None"
  using consumes [of "[]"] by (cases "get []") auto

end

locale slice_codec = slice_reader get
  for get :: "byte list \<Rightarrow> ('v \<times> byte list) option" +
  fixes enc :: "'v \<Rightarrow> byte list" and valid :: "'v \<Rightarrow> bool"
  assumes reads_back: "valid v \<Longrightarrow> get (enc v @ rest) = Some (v, rest)"
begin

lemma alone: "valid v \<Longrightarrow> get (enc v) = Some (v, [])"
  using reads_back [of v "[]"] by simp

lemma nonempty: "valid v \<Longrightarrow> enc v \<noteq> []"
  using shorter [OF alone] by fastforce

lemma prefix_free: "valid v \<Longrightarrow> valid w \<Longrightarrow> enc v @ r = enc w @ s \<Longrightarrow> v = w \<and> r = s"
  using reads_back [of v r] reads_back [of w s] by (metis option.inject prod.inject)

lemma injective: "valid v \<Longrightarrow> valid w \<Longrightarrow> enc v = enc w \<Longrightarrow> v = w"
  using prefix_free [of v w "[]" "[]"] by simp

end

subsection \<open>Round trips\<close>

lemma fixed32_length [simp]: "length (EncodeFixed32 v) = 4"
  by (simp add: EncodeFixed32_def)

lemma fixed64_length [simp]: "length (EncodeFixed64 v) = 8"
  by (simp add: EncodeFixed64_def)

lemma DecodeFixed32_Encode: "DecodeFixed32 (EncodeFixed32 v @ rest) = v"
proof -
  have "unat v < 2 ^ 32" using unsigned_less [of v] by simp
  then show ?thesis by (simp add: DecodeFixed32_def EncodeFixed32_def of_le_to_le)
qed

lemma DecodeFixed64_Encode: "DecodeFixed64 (EncodeFixed64 v @ rest) = v"
proof -
  have "unat v < 2 ^ 64" using unsigned_less [of v] by simp
  then show ?thesis by (simp add: DecodeFixed64_def EncodeFixed64_def of_le_to_le)
qed

text \<open>LevelDB and nanopb write the same varints.\<close>

lemma le_7F: "v \<le> 0x7F \<longleftrightarrow> \<not> 128 \<le> v" for v :: u64
  by (auto simp: word_le_nat_alt)

lemma EncodeVarint64_eq: "EncodeVarint64 v = varint_bytes v"
proof (induction v rule: varint_induct)
  case (small v)
  then show ?case by (simp add: EncodeVarint64.simps [of v] le_7F varint_bytes_small)
next
  case (big v)
  have "(ucast ((v AND 0x7F) OR 128) :: byte) = ucast (v AND 0x7F) OR 0x80"
    by (rule bit_word_eqI) (auto simp: bit_simps)
  with big show ?case
    by (simp add: EncodeVarint64.simps [of v] le_7F varint_bytes_big)
qed

lemma varint_len_eq: "varint_len v n = n + length (varint_bytes v) - 1"
proof (induction v arbitrary: n rule: varint_induct)
  case (small v)
  then show ?case by (simp add: varint_len.simps [of v] le_7F varint_bytes_small)
next
  case (big v)
  have "0 < length (varint_bytes (drop_bit 7 v))" by (simp add: varint_length_pos)
  with big show ?case by (simp add: varint_len.simps [of v] le_7F varint_bytes_big)
qed

lemma VarintLength_eq: "VarintLength v = length (EncodeVarint64 v)"
  by (simp add: VarintLength_def varint_len_eq EncodeVarint64_eq)

text \<open>The bytes of a varint as the loops see them.\<close>

lemma low_bits_and:
  "(ucast (ucast (v AND 0x7F) OR 0x80 :: byte) AND 127 :: 'a::len word) = ucast (v AND 0x7F)" for v :: u64
proof -
  have "(ucast (b AND 0x7F) :: 'a word) = ucast b AND 127" for b :: byte
    unfolding mask_7F take_bit_eq_mask [symmetric] by (rule bit_word_eqI) (auto simp: bit_simps)
  with low_bits_byte [of v] show ?thesis by metis
qed

lemma small_ucast: "v \<le> 0x7F \<Longrightarrow> (ucast (ucast v :: byte) :: 'a::len word) = ucast v" for v :: u64
proof -
  assume "v \<le> 0x7F"
  then have v: "take_bit 7 v = v" by (rule take7_small)
  have "(ucast (ucast (take_bit 7 v) :: byte) :: 'a word) = ucast (take_bit 7 v)"
    by (rule bit_word_eqI) (auto simp: bit_simps)
  with v show ?thesis by simp
qed

lemma GetVarint64Loop_bytes:
  "unat v < 2 ^ (64 - p) \<Longrightarrow> p < 64 \<Longrightarrow>
   GetVarint64Loop p r (varint_bytes v @ rest) = Some (r OR push_bit p v, rest)"
proof (induction v arbitrary: p r rule: varint_induct)
  case (small v)
  then show ?case by (simp add: varint_bytes_small small_high_bit small_ucast)
next
  case (big v)
  from big_bound [OF big(1,3)] have b: "p + 7 < 64" "unat (drop_bit 7 v) < 2 ^ (64 - (p + 7))"
    by auto
  have "GetVarint64Loop (p + 7) (r OR push_bit p (v AND 0x7F)) (varint_bytes (drop_bit 7 v) @ rest)
      = Some (r OR push_bit p v, rest)"
    unfolding big(2) [OF b(2,1)] varint_chunk ..
  with big(4) show ?case
    by (simp add: varint_bytes_big [OF big(1)] high_bit_set low_bits_and)
qed

lemma GetVarint64_bytes: "GetVarint64 (varint_bytes v @ rest) = Some (v, rest)"
  using GetVarint64Loop_bytes [of v 0 0 rest] unsigned_less [of v]
  by (simp add: GetVarint64_def GetVarint64Ptr_def)

lemma GetVarint32Loop_bytes:
  "p < 35 \<Longrightarrow> 7 dvd p \<Longrightarrow> GetVarint32Loop p r (varint_bytes v @ rest) =
     (if unat v < 2 ^ (35 - p) then Some (r OR push_bit p (ucast v), rest) else None)"
proof (induction v arbitrary: p r rule: varint_induct)
  case (small v)
  then have "p \<le> 28" and "7 \<le> 35 - p" by presburger+
  from this(2) have "(2::nat) ^ 7 \<le> 2 ^ (35 - p)" by (simp only: power_increasing_iff)
  with small(1) have "unat v < 2 ^ (35 - p)" by (simp add: word_le_nat_alt)
  with small \<open>p \<le> 28\<close> show ?case by (simp add: varint_bytes_small small_high_bit small_ucast)
next
  case (big v)
  then have p: "p \<le> 28" by presburger
  have step: "GetVarint32Loop p r (varint_bytes v @ rest)
      = GetVarint32Loop (p + 7) (r OR push_bit p (ucast (v AND 0x7F))) (varint_bytes (drop_bit 7 v) @ rest)"
    using p by (simp add: varint_bytes_big [OF big(1)] high_bit_set low_bits_and)
  show ?case
  proof (cases "p = 28")
    case True
    then have "GetVarint32Loop p r (varint_bytes v @ rest) = None"
      unfolding step by (cases "varint_bytes (drop_bit 7 v)") (simp_all add: varint_length_pos)
    moreover have "\<not> unat v < 2 ^ 7" using big_unat [OF big(1)] by simp
    ultimately show ?thesis using True by simp
  next
    case False
    with p big(4) have p7: "p + 7 < 35" "7 dvd p + 7" by presburger+
    then have "(2::nat) ^ (35 - p) = 128 * 2 ^ (35 - (p + 7))"
      using power_add [of "2::nat" 7 "35 - (p + 7)"] by simp
    with big_unat [OF big(1)]
    have "unat (drop_bit 7 v) < 2 ^ (35 - (p + 7)) \<longleftrightarrow> unat v < 2 ^ (35 - p)"
      by (simp add: div_less_iff_less_mult mult.commute)
    with big(2) [OF p7] show ?thesis
      unfolding step by (simp only: varint_chunk32)
  qed
qed

lemma GetVarint32_is_loop: "GetVarint32 p = GetVarint32Loop 0 0 p"
proof (cases p)
  case (Cons b q)
  have "(ucast b :: u32) AND 128 = 0 \<longleftrightarrow> b AND 128 = 0"
  proof -
    have "(ucast b :: u32) AND 128 = ucast (b AND 128)"
      by (rule bit_word_eqI) (auto simp: bit_simps dest: bit_imp_le_length)
    moreover have "(ucast (b AND 128) :: u32) = 0 \<longleftrightarrow> b AND 128 = 0"
    proof -
      have "unat (b AND 128) < 2 ^ 32"
        by (rule less_le_trans [OF unsigned_less]) simp
      then have "take_bit 32 (unat (b AND 128)) = unat (b AND 128)"
        by (rule take_bit_nat_eq_self)
      then show ?thesis by (simp add: word_unat_eq_iff unsigned_ucast_eq)
    qed
    ultimately show ?thesis by simp
  qed
  with Cons show ?thesis
    by (simp add: GetVarint32_def GetVarint32Ptr_def GetVarint32PtrFallback_def)
qed (simp add: GetVarint32_def GetVarint32Ptr_def GetVarint32PtrFallback_def)

lemma GetVarint32_bytes:
  "GetVarint32 (varint_bytes v @ rest) = (if unat v < 2 ^ 35 then Some (ucast v, rest) else None)"
  using GetVarint32Loop_bytes [of 0 0 v rest] by (simp add: GetVarint32_is_loop)

lemma unat_u32: "unat w < 4294967296" for w :: u32
  by (rule less_le_trans [OF unsigned_less]) simp

lemma unat_u64: "unat w < 18446744073709551616" for w :: u64
  by (rule less_le_trans [OF unsigned_less]) simp

text \<open>The unrolled encoder of 32-bit values writes the varint of the value.\<close>

lemma varint_bytes32:
  "varint_bytes (ucast w :: u64) =
     (if w < 128 then [ucast w] else ucast (w OR 128) # varint_bytes (ucast (drop_bit 7 w)))"
  for w :: u32
proof -
  have u: "unat (ucast w :: u64) = unat w"
    using unat_u32 [of w] by (simp add: unsigned_ucast_eq take_bit_nat_eq_self)
  have c: "(ucast w :: u64) \<le> 0x7F \<longleftrightarrow> w < 128"
    by (auto simp: word_le_nat_alt word_less_nat_alt u)
  have b: "(ucast (ucast w AND 0x7F :: u64) OR 0x80 :: byte) = ucast (w OR 128)"
    unfolding and_7F by (rule bit_word_eqI) (auto simp: bit_simps less_Suc_eq numeral_eq_Suc)
  have d: "drop_bit 7 (ucast w :: u64) = ucast (drop_bit 7 w)"
    by (rule bit_word_eqI) (auto simp: bit_simps dest: bit_imp_le_length)
  have s: "(ucast (ucast w :: u64) :: byte) = ucast w"
    by (rule bit_word_eqI) (auto simp: bit_simps dest: bit_imp_le_length)
  show ?thesis
  proof (cases "w < 128")
    case True
    then show ?thesis using c s by (simp add: varint_bytes_small)
  next
    case False
    then have "\<not> (ucast w :: u64) \<le> 0x7F" using c by simp
    from varint_bytes_big [OF this] False b d show ?thesis by simp
  qed
qed

lemma unat_pow2_32: "k < 32 \<Longrightarrow> unat (2 ^ k :: u32) = 2 ^ k"
proof -
  assume "k < 32"
  then have "(2::nat) ^ k < 2 ^ LENGTH(32)"
    by (intro power_strict_increasing) auto
  then have "unat (word_of_nat (2 ^ k) :: u32) = 2 ^ k"
    by (simp only: unat_of_nat mod_less)
  then show ?thesis by simp
qed

lemma drop_less_128: "drop_bit n w < 128 \<longleftrightarrow> w < push_bit (n + 7) 1" if "n \<le> 21" for w :: u32
proof -
  have "unat w div 2 ^ n < 128 \<longleftrightarrow> unat w < 2 ^ (n + 7)"
    by (simp add: div_less_iff_less_mult power_add mult.commute)
  then show ?thesis
    using that
    by (simp add: word_less_nat_alt drop_bit_eq_div push_bit_eq_mult unat_div unat_pow2_32 del: power_add)
qed

lemma EncodeVarint32_eq: "EncodeVarint32 v = varint_bytes (ucast v)"
proof -
  have last: "drop_bit 28 v < 128"
  proof -
    have "unat v < 2 ^ 28 * 128" using unat_u32 [of v] by simp
    then have "unat v div 2 ^ 28 < 128" by (simp add: div_less_iff_less_mult mult.commute)
    then show ?thesis by (simp add: word_less_nat_alt drop_bit_eq_div unat_div)
  qed
  have d: "drop_bit 7 (drop_bit 7 v) = drop_bit 14 v" "drop_bit 7 (drop_bit 14 v) = drop_bit 21 v"
    "drop_bit 7 (drop_bit 21 v) = drop_bit 28 v" by simp_all
  have c: "v < push_bit 7 1 \<longleftrightarrow> v < 128" by (simp add: push_bit_eq_mult)
  note e = drop_less_128 [of 7 v, simplified] drop_less_128 [of 14 v, simplified]
    drop_less_128 [of 21 v, simplified]
  show ?thesis
    unfolding EncodeVarint32_def varint_bytes32 [of v] varint_bytes32 [of "drop_bit 7 v"]
      varint_bytes32 [of "drop_bit 14 v"] varint_bytes32 [of "drop_bit 21 v"]
      varint_bytes32 [of "drop_bit 28 v"] d c
    using last e by (auto simp: push_bit_eq_mult)
qed

lemma Varint64_reads_back: "GetVarint64 (EncodeVarint64 v @ rest) = Some (v, rest)"
  by (simp add: EncodeVarint64_eq GetVarint64_bytes)

lemma Varint32_reads_back: "GetVarint32 (EncodeVarint32 v @ rest) = Some (v, rest)"
proof -
  have u: "unat (ucast v :: u64) = unat v"
    using unat_u32 [of v] by (simp add: unsigned_ucast_eq take_bit_nat_eq_self)
  have c: "(ucast (ucast v :: u64) :: u32) = v"
    by (rule bit_word_eqI) (auto simp: bit_simps dest: bit_imp_le_length)
  have "unat v < 2 ^ 35" using unat_u32 [of v] by simp
  then show ?thesis by (simp add: EncodeVarint32_eq GetVarint32_bytes u c)
qed

lemma Slice_reads_back:
  assumes "length s < 2 ^ 32"
  shows "GetLengthPrefixedSlice (PutLengthPrefixedSlice [] s @ rest) = Some (s, rest)"
proof -
  from assms have "unat (word_of_nat (length s) :: u32) = length s"
    by (simp add: unat_of_nat)
  then show ?thesis
    by (simp add: PutLengthPrefixedSlice_def GetLengthPrefixedSlice_def PutVarint32_def
        Varint32_reads_back)
qed

lemma PutLengthPrefixedSlice_append:
  "PutLengthPrefixedSlice dst s = dst @ PutLengthPrefixedSlice [] s"
  by (simp add: PutLengthPrefixedSlice_def PutVarint32_def)

text \<open>The decoders consume a non-empty prefix, of bounded length for the varints.\<close>

lemma GetVarint32Loop_prefix:
  "GetVarint32Loop n r p = Some (v, q) \<Longrightarrow>
   n \<le> 28 \<and> (\<exists>c. c \<noteq> [] \<and> p = c @ q \<and> 7 * length c + n \<le> 35)"
proof (induction n r p rule: GetVarint32Loop.induct)
  case (2 n r b p)
  show ?case
  proof (cases "b AND 128 = 0")
    case True
    with 2(2) show ?thesis by (auto intro!: exI [of _ "[b]"] split: if_splits)
  next
    case False
    with 2 obtain c where "n \<le> 28" "c \<noteq> []" "p = c @ q" "7 * length c + (n + 7) \<le> 35"
      by (auto split: if_splits)
    then show ?thesis by (intro conjI exI [of _ "b # c"]) auto
  qed
qed simp

lemma GetVarint64Loop_prefix:
  "GetVarint64Loop n r p = Some (v, q) \<Longrightarrow>
   n \<le> 63 \<and> (\<exists>c. c \<noteq> [] \<and> p = c @ q \<and> 7 * length c + n \<le> 70)"
proof (induction n r p rule: GetVarint64Loop.induct)
  case (2 n r b p)
  show ?case
  proof (cases "b AND 128 = 0")
    case True
    with 2(2) show ?thesis by (auto intro!: exI [of _ "[b]"] split: if_splits)
  next
    case False
    with 2 obtain c where "n \<le> 63" "c \<noteq> []" "p = c @ q" "7 * length c + (n + 7) \<le> 70"
      by (auto split: if_splits)
    then show ?thesis by (intro conjI exI [of _ "b # c"]) auto
  qed
qed simp

lemma GetVarint32_prefix:
  "GetVarint32 p = Some (v, q) \<Longrightarrow> \<exists>c. c \<noteq> [] \<and> p = c @ q \<and> length c \<le> 5"
  using GetVarint32Loop_prefix [of 0 0 p v q] by (fastforce simp: GetVarint32_is_loop)

lemma GetVarint64_prefix:
  "GetVarint64 p = Some (v, q) \<Longrightarrow> \<exists>c. c \<noteq> [] \<and> p = c @ q \<and> length c \<le> 10"
  using GetVarint64Loop_prefix [of 0 0 p v q]
  by (fastforce simp: GetVarint64_def GetVarint64Ptr_def)

lemma Slice_prefix:
  assumes "GetLengthPrefixedSlice p = Some (s, q)"
  shows "\<exists>c. c \<noteq> [] \<and> p = c @ s @ q"
proof -
  from assms obtain n r where "GetVarint32 p = Some (n, r)" and "r = s @ q"
    by (auto simp: GetLengthPrefixedSlice_def split: option.splits if_splits)
  with GetVarint32_prefix show ?thesis by blast
qed

interpretation v32: slice_codec GetVarint32 EncodeVarint32 "\<lambda>_. True"
  by unfold_locales (use GetVarint32_prefix Varint32_reads_back in blast)+

interpretation v64: slice_codec GetVarint64 EncodeVarint64 "\<lambda>_. True"
  by unfold_locales (use GetVarint64_prefix Varint64_reads_back in blast)+

interpretation lps: slice_codec GetLengthPrefixedSlice "PutLengthPrefixedSlice []"
  "\<lambda>s. length s < 2 ^ 32"
proof unfold_locales
  show "\<exists>c. c \<noteq> [] \<and> p = c @ q" if "GetLengthPrefixedSlice p = Some (v, q)" for p v q
    using Slice_prefix [OF that] by (metis append_assoc append_is_Nil_conv)
qed (rule Slice_reads_back)

subsection \<open>Properties\<close>

text \<open>
  Theorem (ldb_varint32_roundtrip). \<open>GetVarint32\<close> reads back every value that
  \<open>PutVarint32\<close> appends, whatever follows, through the unrolled encoder and
  through the one-byte fast path of the decoder.
\<close>

theorem ldb_varint32_roundtrip:
  "PutVarint32 dst v = dst @ EncodeVarint32 v \<and>
   GetVarint32 (drop (length dst) (PutVarint32 dst v) @ rest) = Some (v, rest)"
  by (simp add: PutVarint32_def Varint32_reads_back)

text \<open>
  C40 (ldb_varint32_wide). A varint written with 64 bits is refused by
  \<open>GetVarint32\<close> from 2^35 on; below, the value is delivered modulo 2^32 and no
  error is reported.
\<close>

theorem ldb_varint32_wide:
  "GetVarint32 (EncodeVarint64 v @ rest) = (if unat v < 2 ^ 35 then Some (ucast v, rest) else None)"
  by (simp add: EncodeVarint64_eq GetVarint32_bytes)

text \<open>
  Theorem (ldb_varint64_roundtrip). \<open>GetVarint64\<close> reads back what \<open>PutVarint64\<close>
  appends, and \<open>VarintLength\<close> is the number of bytes that takes.
\<close>

theorem ldb_varint64_roundtrip:
  "PutVarint64 dst v = dst @ EncodeVarint64 v \<and>
   length (EncodeVarint64 v) = VarintLength v \<and>
   GetVarint64 (EncodeVarint64 v @ rest) = Some (v, rest)"
  by (simp add: PutVarint64_def VarintLength_eq Varint64_reads_back)

text \<open>
  Theorem (ldb_slice_roundtrip). \<open>GetLengthPrefixedSlice\<close> reads back a slice of fewer
  than 2^32 bytes, whatever follows it; two such slices that are written alike are equal.
\<close>

theorem ldb_slice_roundtrip:
  assumes "length s < 2 ^ 32"
  shows "GetLengthPrefixedSlice (PutLengthPrefixedSlice [] s @ rest) = Some (s, rest) \<and>
    (\<forall>t. length t < 2 ^ 32 \<longrightarrow> PutLengthPrefixedSlice dst s = PutLengthPrefixedSlice dst t \<longrightarrow> s = t)"
proof -
  have "s = t" if "length t < 2 ^ 32" "PutLengthPrefixedSlice dst s = PutLengthPrefixedSlice dst t" for t
    using that lps.injective [OF assms]
    by (simp add: PutLengthPrefixedSlice_append [of dst s] PutLengthPrefixedSlice_append [of dst t])
  with lps.reads_back [OF assms] show ?thesis by blast
qed

theorem ldb_slice_roundtrip_witness:
  "GetLengthPrefixedSlice (PutLengthPrefixedSlice [] [7, 8] @ [9]) = Some ([7, 8], [9])"
  using ldb_slice_roundtrip [of "[7, 8]" "[9]" "[]"] by simp

text \<open>
  Theorem (ldb_decoders_in_range). No decoder reads outside its range: it takes a
  non-empty prefix, of at most 5 and 10 bytes for the varints, and a slice lies whole in
  the range after its length.
\<close>

theorem ldb_decoders_in_range:
  "(case GetVarint32 p of None \<Rightarrow> True
    | Some (v, q) \<Rightarrow> \<exists>c. c \<noteq> [] \<and> length c \<le> 5 \<and> p = c @ q) \<and>
   (case GetVarint64 p of None \<Rightarrow> True
    | Some (w, q) \<Rightarrow> \<exists>c. c \<noteq> [] \<and> length c \<le> 10 \<and> p = c @ q) \<and>
   (case GetLengthPrefixedSlice p of None \<Rightarrow> True
    | Some (s, q) \<Rightarrow> \<exists>c. c \<noteq> [] \<and> p = c @ s @ q)"
  using GetVarint32_prefix [of p] GetVarint64_prefix [of p] Slice_prefix [of p]
  by (auto split: option.splits)

subsection \<open>Arrays of fixed-length words\<close>

lemma foldl_PutFixed32: "foldl PutFixed32 r ws = r @ concat (map EncodeFixed32 ws)"
  by (induction ws arbitrary: r) (simp_all add: PutFixed32_def)

lemma nth_fixed32:
  "i < length ws \<Longrightarrow> DecodeFixed32 (drop (4 * i) (concat (map EncodeFixed32 ws) @ rest)) = ws ! i"
proof (induction ws arbitrary: i)
  case (Cons w ws)
  then show ?case by (cases i) (simp_all add: DecodeFixed32_Encode)
qed simp

lemma concat_fixed_length: "length (concat (map EncodeFixed32 ws)) = 4 * length ws"
  by (induction ws) simp_all

lemma unat_of_nat_u32: "k < 2 ^ 32 \<Longrightarrow> unat (word_of_nat k :: u32) = k"
  by (simp add: unat_of_nat)

lemma GetVarint32Ptr_reads: "GetVarint32Ptr (EncodeVarint32 a @ r) = Some (a, r)"
  using v32.reads_back [of a r] by (simp add: GetVarint32_def)

lemma EncodeVarint32_length: "length (EncodeVarint32 a) \<le> 5"
  by (simp add: EncodeVarint32_def)

end
