(* ===== verification/LDB_Crc32c.thy ===== *)
theory LDB_Crc32c
  imports LDB_Coding
begin

text \<open>
  The checksum of the log and table files: \<open>util/crc32c.cc\<close>, \<open>util/crc32c.h\<close> and the
  accelerated version of \<open>port/port_posix_sse.cc\<close>. The tables are those of the source. The
  reference \<open>crc32c\<close> is the bit-by-bit definition; it is linear over exclusive or, so that
  each table is determined by eight of its values, which are computed.
\<close>

unbundle bit_operations_syntax

subsection \<open>The tables and the steps of \<open>Extend\<close>\<close>

definition table0 :: "u32 list" where
  "table0 =
    [0x00000000, 0xf26b8303, 0xe13b70f7, 0x1350f3f4, 0xc79a971f, 0x35f1141c, 0x26a1e7e8,
     0xd4ca64eb, 0x8ad958cf, 0x78b2dbcc, 0x6be22838, 0x9989ab3b, 0x4d43cfd0, 0xbf284cd3,
     0xac78bf27, 0x5e133c24, 0x105ec76f, 0xe235446c, 0xf165b798, 0x030e349b, 0xd7c45070,
     0x25afd373, 0x36ff2087, 0xc494a384, 0x9a879fa0, 0x68ec1ca3, 0x7bbcef57, 0x89d76c54,
     0x5d1d08bf, 0xaf768bbc, 0xbc267848, 0x4e4dfb4b, 0x20bd8ede, 0xd2d60ddd, 0xc186fe29,
     0x33ed7d2a, 0xe72719c1, 0x154c9ac2, 0x061c6936, 0xf477ea35, 0xaa64d611, 0x580f5512,
     0x4b5fa6e6, 0xb93425e5, 0x6dfe410e, 0x9f95c20d, 0x8cc531f9, 0x7eaeb2fa, 0x30e349b1,
     0xc288cab2, 0xd1d83946, 0x23b3ba45, 0xf779deae, 0x05125dad, 0x1642ae59, 0xe4292d5a,
     0xba3a117e, 0x4851927d, 0x5b016189, 0xa96ae28a, 0x7da08661, 0x8fcb0562, 0x9c9bf696,
     0x6ef07595, 0x417b1dbc, 0xb3109ebf, 0xa0406d4b, 0x522bee48, 0x86e18aa3, 0x748a09a0,
     0x67dafa54, 0x95b17957, 0xcba24573, 0x39c9c670, 0x2a993584, 0xd8f2b687, 0x0c38d26c,
     0xfe53516f, 0xed03a29b, 0x1f682198, 0x5125dad3, 0xa34e59d0, 0xb01eaa24, 0x42752927,
     0x96bf4dcc, 0x64d4cecf, 0x77843d3b, 0x85efbe38, 0xdbfc821c, 0x2997011f, 0x3ac7f2eb,
     0xc8ac71e8, 0x1c661503, 0xee0d9600, 0xfd5d65f4, 0x0f36e6f7, 0x61c69362, 0x93ad1061,
     0x80fde395, 0x72966096, 0xa65c047d, 0x5437877e, 0x4767748a, 0xb50cf789, 0xeb1fcbad,
     0x197448ae, 0x0a24bb5a, 0xf84f3859, 0x2c855cb2, 0xdeeedfb1, 0xcdbe2c45, 0x3fd5af46,
     0x7198540d, 0x83f3d70e, 0x90a324fa, 0x62c8a7f9, 0xb602c312, 0x44694011, 0x5739b3e5,
     0xa55230e6, 0xfb410cc2, 0x092a8fc1, 0x1a7a7c35, 0xe811ff36, 0x3cdb9bdd, 0xceb018de,
     0xdde0eb2a, 0x2f8b6829, 0x82f63b78, 0x709db87b, 0x63cd4b8f, 0x91a6c88c, 0x456cac67,
     0xb7072f64, 0xa457dc90, 0x563c5f93, 0x082f63b7, 0xfa44e0b4, 0xe9141340, 0x1b7f9043,
     0xcfb5f4a8, 0x3dde77ab, 0x2e8e845f, 0xdce5075c, 0x92a8fc17, 0x60c37f14, 0x73938ce0,
     0x81f80fe3, 0x55326b08, 0xa759e80b, 0xb4091bff, 0x466298fc, 0x1871a4d8, 0xea1a27db,
     0xf94ad42f, 0x0b21572c, 0xdfeb33c7, 0x2d80b0c4, 0x3ed04330, 0xccbbc033, 0xa24bb5a6,
     0x502036a5, 0x4370c551, 0xb11b4652, 0x65d122b9, 0x97baa1ba, 0x84ea524e, 0x7681d14d,
     0x2892ed69, 0xdaf96e6a, 0xc9a99d9e, 0x3bc21e9d, 0xef087a76, 0x1d63f975, 0x0e330a81,
     0xfc588982, 0xb21572c9, 0x407ef1ca, 0x532e023e, 0xa145813d, 0x758fe5d6, 0x87e466d5,
     0x94b49521, 0x66df1622, 0x38cc2a06, 0xcaa7a905, 0xd9f75af1, 0x2b9cd9f2, 0xff56bd19,
     0x0d3d3e1a, 0x1e6dcdee, 0xec064eed, 0xc38d26c4, 0x31e6a5c7, 0x22b65633, 0xd0ddd530,
     0x0417b1db, 0xf67c32d8, 0xe52cc12c, 0x1747422f, 0x49547e0b, 0xbb3ffd08, 0xa86f0efc,
     0x5a048dff, 0x8ecee914, 0x7ca56a17, 0x6ff599e3, 0x9d9e1ae0, 0xd3d3e1ab, 0x21b862a8,
     0x32e8915c, 0xc083125f, 0x144976b4, 0xe622f5b7, 0xf5720643, 0x07198540, 0x590ab964,
     0xab613a67, 0xb831c993, 0x4a5a4a90, 0x9e902e7b, 0x6cfbad78, 0x7fab5e8c, 0x8dc0dd8f,
     0xe330a81a, 0x115b2b19, 0x020bd8ed, 0xf0605bee, 0x24aa3f05, 0xd6c1bc06, 0xc5914ff2,
     0x37faccf1, 0x69e9f0d5, 0x9b8273d6, 0x88d28022, 0x7ab90321, 0xae7367ca, 0x5c18e4c9,
     0x4f48173d, 0xbd23943e, 0xf36e6f75, 0x0105ec76, 0x12551f82, 0xe03e9c81, 0x34f4f86a,
     0xc69f7b69, 0xd5cf889d, 0x27a40b9e, 0x79b737ba, 0x8bdcb4b9, 0x988c474d, 0x6ae7c44e,
     0xbe2da0a5, 0x4c4623a6, 0x5f16d052, 0xad7d5351]"

definition table1 :: "u32 list" where
  "table1 =
    [0x00000000, 0x13a29877, 0x274530ee, 0x34e7a899, 0x4e8a61dc, 0x5d28f9ab, 0x69cf5132,
     0x7a6dc945, 0x9d14c3b8, 0x8eb65bcf, 0xba51f356, 0xa9f36b21, 0xd39ea264, 0xc03c3a13,
     0xf4db928a, 0xe7790afd, 0x3fc5f181, 0x2c6769f6, 0x1880c16f, 0x0b225918, 0x714f905d,
     0x62ed082a, 0x560aa0b3, 0x45a838c4, 0xa2d13239, 0xb173aa4e, 0x859402d7, 0x96369aa0,
     0xec5b53e5, 0xfff9cb92, 0xcb1e630b, 0xd8bcfb7c, 0x7f8be302, 0x6c297b75, 0x58ced3ec,
     0x4b6c4b9b, 0x310182de, 0x22a31aa9, 0x1644b230, 0x05e62a47, 0xe29f20ba, 0xf13db8cd,
     0xc5da1054, 0xd6788823, 0xac154166, 0xbfb7d911, 0x8b507188, 0x98f2e9ff, 0x404e1283,
     0x53ec8af4, 0x670b226d, 0x74a9ba1a, 0x0ec4735f, 0x1d66eb28, 0x298143b1, 0x3a23dbc6,
     0xdd5ad13b, 0xcef8494c, 0xfa1fe1d5, 0xe9bd79a2, 0x93d0b0e7, 0x80722890, 0xb4958009,
     0xa737187e, 0xff17c604, 0xecb55e73, 0xd852f6ea, 0xcbf06e9d, 0xb19da7d8, 0xa23f3faf,
     0x96d89736, 0x857a0f41, 0x620305bc, 0x71a19dcb, 0x45463552, 0x56e4ad25, 0x2c896460,
     0x3f2bfc17, 0x0bcc548e, 0x186eccf9, 0xc0d23785, 0xd370aff2, 0xe797076b, 0xf4359f1c,
     0x8e585659, 0x9dface2e, 0xa91d66b7, 0xbabffec0, 0x5dc6f43d, 0x4e646c4a, 0x7a83c4d3,
     0x69215ca4, 0x134c95e1, 0x00ee0d96, 0x3409a50f, 0x27ab3d78, 0x809c2506, 0x933ebd71,
     0xa7d915e8, 0xb47b8d9f, 0xce1644da, 0xddb4dcad, 0xe9537434, 0xfaf1ec43, 0x1d88e6be,
     0x0e2a7ec9, 0x3acdd650, 0x296f4e27, 0x53028762, 0x40a01f15, 0x7447b78c, 0x67e52ffb,
     0xbf59d487, 0xacfb4cf0, 0x981ce469, 0x8bbe7c1e, 0xf1d3b55b, 0xe2712d2c, 0xd69685b5,
     0xc5341dc2, 0x224d173f, 0x31ef8f48, 0x050827d1, 0x16aabfa6, 0x6cc776e3, 0x7f65ee94,
     0x4b82460d, 0x5820de7a, 0xfbc3faf9, 0xe861628e, 0xdc86ca17, 0xcf245260, 0xb5499b25,
     0xa6eb0352, 0x920cabcb, 0x81ae33bc, 0x66d73941, 0x7575a136, 0x419209af, 0x523091d8,
     0x285d589d, 0x3bffc0ea, 0x0f186873, 0x1cbaf004, 0xc4060b78, 0xd7a4930f, 0xe3433b96,
     0xf0e1a3e1, 0x8a8c6aa4, 0x992ef2d3, 0xadc95a4a, 0xbe6bc23d, 0x5912c8c0, 0x4ab050b7,
     0x7e57f82e, 0x6df56059, 0x1798a91c, 0x043a316b, 0x30dd99f2, 0x237f0185, 0x844819fb,
     0x97ea818c, 0xa30d2915, 0xb0afb162, 0xcac27827, 0xd960e050, 0xed8748c9, 0xfe25d0be,
     0x195cda43, 0x0afe4234, 0x3e19eaad, 0x2dbb72da, 0x57d6bb9f, 0x447423e8, 0x70938b71,
     0x63311306, 0xbb8de87a, 0xa82f700d, 0x9cc8d894, 0x8f6a40e3, 0xf50789a6, 0xe6a511d1,
     0xd242b948, 0xc1e0213f, 0x26992bc2, 0x353bb3b5, 0x01dc1b2c, 0x127e835b, 0x68134a1e,
     0x7bb1d269, 0x4f567af0, 0x5cf4e287, 0x04d43cfd, 0x1776a48a, 0x23910c13, 0x30339464,
     0x4a5e5d21, 0x59fcc556, 0x6d1b6dcf, 0x7eb9f5b8, 0x99c0ff45, 0x8a626732, 0xbe85cfab,
     0xad2757dc, 0xd74a9e99, 0xc4e806ee, 0xf00fae77, 0xe3ad3600, 0x3b11cd7c, 0x28b3550b,
     0x1c54fd92, 0x0ff665e5, 0x759baca0, 0x663934d7, 0x52de9c4e, 0x417c0439, 0xa6050ec4,
     0xb5a796b3, 0x81403e2a, 0x92e2a65d, 0xe88f6f18, 0xfb2df76f, 0xcfca5ff6, 0xdc68c781,
     0x7b5fdfff, 0x68fd4788, 0x5c1aef11, 0x4fb87766, 0x35d5be23, 0x26772654, 0x12908ecd,
     0x013216ba, 0xe64b1c47, 0xf5e98430, 0xc10e2ca9, 0xd2acb4de, 0xa8c17d9b, 0xbb63e5ec,
     0x8f844d75, 0x9c26d502, 0x449a2e7e, 0x5738b609, 0x63df1e90, 0x707d86e7, 0x0a104fa2,
     0x19b2d7d5, 0x2d557f4c, 0x3ef7e73b, 0xd98eedc6, 0xca2c75b1, 0xfecbdd28, 0xed69455f,
     0x97048c1a, 0x84a6146d, 0xb041bcf4, 0xa3e32483]"

definition table2 :: "u32 list" where
  "table2 =
    [0x00000000, 0xa541927e, 0x4f6f520d, 0xea2ec073, 0x9edea41a, 0x3b9f3664, 0xd1b1f617,
     0x74f06469, 0x38513ec5, 0x9d10acbb, 0x773e6cc8, 0xd27ffeb6, 0xa68f9adf, 0x03ce08a1,
     0xe9e0c8d2, 0x4ca15aac, 0x70a27d8a, 0xd5e3eff4, 0x3fcd2f87, 0x9a8cbdf9, 0xee7cd990,
     0x4b3d4bee, 0xa1138b9d, 0x045219e3, 0x48f3434f, 0xedb2d131, 0x079c1142, 0xa2dd833c,
     0xd62de755, 0x736c752b, 0x9942b558, 0x3c032726, 0xe144fb14, 0x4405696a, 0xae2ba919,
     0x0b6a3b67, 0x7f9a5f0e, 0xdadbcd70, 0x30f50d03, 0x95b49f7d, 0xd915c5d1, 0x7c5457af,
     0x967a97dc, 0x333b05a2, 0x47cb61cb, 0xe28af3b5, 0x08a433c6, 0xade5a1b8, 0x91e6869e,
     0x34a714e0, 0xde89d493, 0x7bc846ed, 0x0f382284, 0xaa79b0fa, 0x40577089, 0xe516e2f7,
     0xa9b7b85b, 0x0cf62a25, 0xe6d8ea56, 0x43997828, 0x37691c41, 0x92288e3f, 0x78064e4c,
     0xdd47dc32, 0xc76580d9, 0x622412a7, 0x880ad2d4, 0x2d4b40aa, 0x59bb24c3, 0xfcfab6bd,
     0x16d476ce, 0xb395e4b0, 0xff34be1c, 0x5a752c62, 0xb05bec11, 0x151a7e6f, 0x61ea1a06,
     0xc4ab8878, 0x2e85480b, 0x8bc4da75, 0xb7c7fd53, 0x12866f2d, 0xf8a8af5e, 0x5de93d20,
     0x29195949, 0x8c58cb37, 0x66760b44, 0xc337993a, 0x8f96c396, 0x2ad751e8, 0xc0f9919b,
     0x65b803e5, 0x1148678c, 0xb409f5f2, 0x5e273581, 0xfb66a7ff, 0x26217bcd, 0x8360e9b3,
     0x694e29c0, 0xcc0fbbbe, 0xb8ffdfd7, 0x1dbe4da9, 0xf7908dda, 0x52d11fa4, 0x1e704508,
     0xbb31d776, 0x511f1705, 0xf45e857b, 0x80aee112, 0x25ef736c, 0xcfc1b31f, 0x6a802161,
     0x56830647, 0xf3c29439, 0x19ec544a, 0xbcadc634, 0xc85da25d, 0x6d1c3023, 0x8732f050,
     0x2273622e, 0x6ed23882, 0xcb93aafc, 0x21bd6a8f, 0x84fcf8f1, 0xf00c9c98, 0x554d0ee6,
     0xbf63ce95, 0x1a225ceb, 0x8b277743, 0x2e66e53d, 0xc448254e, 0x6109b730, 0x15f9d359,
     0xb0b84127, 0x5a968154, 0xffd7132a, 0xb3764986, 0x1637dbf8, 0xfc191b8b, 0x595889f5,
     0x2da8ed9c, 0x88e97fe2, 0x62c7bf91, 0xc7862def, 0xfb850ac9, 0x5ec498b7, 0xb4ea58c4,
     0x11abcaba, 0x655baed3, 0xc01a3cad, 0x2a34fcde, 0x8f756ea0, 0xc3d4340c, 0x6695a672,
     0x8cbb6601, 0x29faf47f, 0x5d0a9016, 0xf84b0268, 0x1265c21b, 0xb7245065, 0x6a638c57,
     0xcf221e29, 0x250cde5a, 0x804d4c24, 0xf4bd284d, 0x51fcba33, 0xbbd27a40, 0x1e93e83e,
     0x5232b292, 0xf77320ec, 0x1d5de09f, 0xb81c72e1, 0xccec1688, 0x69ad84f6, 0x83834485,
     0x26c2d6fb, 0x1ac1f1dd, 0xbf8063a3, 0x55aea3d0, 0xf0ef31ae, 0x841f55c7, 0x215ec7b9,
     0xcb7007ca, 0x6e3195b4, 0x2290cf18, 0x87d15d66, 0x6dff9d15, 0xc8be0f6b, 0xbc4e6b02,
     0x190ff97c, 0xf321390f, 0x5660ab71, 0x4c42f79a, 0xe90365e4, 0x032da597, 0xa66c37e9,
     0xd29c5380, 0x77ddc1fe, 0x9df3018d, 0x38b293f3, 0x7413c95f, 0xd1525b21, 0x3b7c9b52,
     0x9e3d092c, 0xeacd6d45, 0x4f8cff3b, 0xa5a23f48, 0x00e3ad36, 0x3ce08a10, 0x99a1186e,
     0x738fd81d, 0xd6ce4a63, 0xa23e2e0a, 0x077fbc74, 0xed517c07, 0x4810ee79, 0x04b1b4d5,
     0xa1f026ab, 0x4bdee6d8, 0xee9f74a6, 0x9a6f10cf, 0x3f2e82b1, 0xd50042c2, 0x7041d0bc,
     0xad060c8e, 0x08479ef0, 0xe2695e83, 0x4728ccfd, 0x33d8a894, 0x96993aea, 0x7cb7fa99,
     0xd9f668e7, 0x9557324b, 0x3016a035, 0xda386046, 0x7f79f238, 0x0b899651, 0xaec8042f,
     0x44e6c45c, 0xe1a75622, 0xdda47104, 0x78e5e37a, 0x92cb2309, 0x378ab177, 0x437ad51e,
     0xe63b4760, 0x0c158713, 0xa954156d, 0xe5f54fc1, 0x40b4ddbf, 0xaa9a1dcc, 0x0fdb8fb2,
     0x7b2bebdb, 0xde6a79a5, 0x3444b9d6, 0x91052ba8]"

definition table3 :: "u32 list" where
  "table3 =
    [0x00000000, 0xdd45aab8, 0xbf672381, 0x62228939, 0x7b2231f3, 0xa6679b4b, 0xc4451272,
     0x1900b8ca, 0xf64463e6, 0x2b01c95e, 0x49234067, 0x9466eadf, 0x8d665215, 0x5023f8ad,
     0x32017194, 0xef44db2c, 0xe964b13d, 0x34211b85, 0x560392bc, 0x8b463804, 0x924680ce,
     0x4f032a76, 0x2d21a34f, 0xf06409f7, 0x1f20d2db, 0xc2657863, 0xa047f15a, 0x7d025be2,
     0x6402e328, 0xb9474990, 0xdb65c0a9, 0x06206a11, 0xd725148b, 0x0a60be33, 0x6842370a,
     0xb5079db2, 0xac072578, 0x71428fc0, 0x136006f9, 0xce25ac41, 0x2161776d, 0xfc24ddd5,
     0x9e0654ec, 0x4343fe54, 0x5a43469e, 0x8706ec26, 0xe524651f, 0x3861cfa7, 0x3e41a5b6,
     0xe3040f0e, 0x81268637, 0x5c632c8f, 0x45639445, 0x98263efd, 0xfa04b7c4, 0x27411d7c,
     0xc805c650, 0x15406ce8, 0x7762e5d1, 0xaa274f69, 0xb327f7a3, 0x6e625d1b, 0x0c40d422,
     0xd1057e9a, 0xaba65fe7, 0x76e3f55f, 0x14c17c66, 0xc984d6de, 0xd0846e14, 0x0dc1c4ac,
     0x6fe34d95, 0xb2a6e72d, 0x5de23c01, 0x80a796b9, 0xe2851f80, 0x3fc0b538, 0x26c00df2,
     0xfb85a74a, 0x99a72e73, 0x44e284cb, 0x42c2eeda, 0x9f874462, 0xfda5cd5b, 0x20e067e3,
     0x39e0df29, 0xe4a57591, 0x8687fca8, 0x5bc25610, 0xb4868d3c, 0x69c32784, 0x0be1aebd,
     0xd6a40405, 0xcfa4bccf, 0x12e11677, 0x70c39f4e, 0xad8635f6, 0x7c834b6c, 0xa1c6e1d4,
     0xc3e468ed, 0x1ea1c255, 0x07a17a9f, 0xdae4d027, 0xb8c6591e, 0x6583f3a6, 0x8ac7288a,
     0x57828232, 0x35a00b0b, 0xe8e5a1b3, 0xf1e51979, 0x2ca0b3c1, 0x4e823af8, 0x93c79040,
     0x95e7fa51, 0x48a250e9, 0x2a80d9d0, 0xf7c57368, 0xeec5cba2, 0x3380611a, 0x51a2e823,
     0x8ce7429b, 0x63a399b7, 0xbee6330f, 0xdcc4ba36, 0x0181108e, 0x1881a844, 0xc5c402fc,
     0xa7e68bc5, 0x7aa3217d, 0x52a0c93f, 0x8fe56387, 0xedc7eabe, 0x30824006, 0x2982f8cc,
     0xf4c75274, 0x96e5db4d, 0x4ba071f5, 0xa4e4aad9, 0x79a10061, 0x1b838958, 0xc6c623e0,
     0xdfc69b2a, 0x02833192, 0x60a1b8ab, 0xbde41213, 0xbbc47802, 0x6681d2ba, 0x04a35b83,
     0xd9e6f13b, 0xc0e649f1, 0x1da3e349, 0x7f816a70, 0xa2c4c0c8, 0x4d801be4, 0x90c5b15c,
     0xf2e73865, 0x2fa292dd, 0x36a22a17, 0xebe780af, 0x89c50996, 0x5480a32e, 0x8585ddb4,
     0x58c0770c, 0x3ae2fe35, 0xe7a7548d, 0xfea7ec47, 0x23e246ff, 0x41c0cfc6, 0x9c85657e,
     0x73c1be52, 0xae8414ea, 0xcca69dd3, 0x11e3376b, 0x08e38fa1, 0xd5a62519, 0xb784ac20,
     0x6ac10698, 0x6ce16c89, 0xb1a4c631, 0xd3864f08, 0x0ec3e5b0, 0x17c35d7a, 0xca86f7c2,
     0xa8a47efb, 0x75e1d443, 0x9aa50f6f, 0x47e0a5d7, 0x25c22cee, 0xf8878656, 0xe1873e9c,
     0x3cc29424, 0x5ee01d1d, 0x83a5b7a5, 0xf90696d8, 0x24433c60, 0x4661b559, 0x9b241fe1,
     0x8224a72b, 0x5f610d93, 0x3d4384aa, 0xe0062e12, 0x0f42f53e, 0xd2075f86, 0xb025d6bf,
     0x6d607c07, 0x7460c4cd, 0xa9256e75, 0xcb07e74c, 0x16424df4, 0x106227e5, 0xcd278d5d,
     0xaf050464, 0x7240aedc, 0x6b401616, 0xb605bcae, 0xd4273597, 0x09629f2f, 0xe6264403,
     0x3b63eebb, 0x59416782, 0x8404cd3a, 0x9d0475f0, 0x4041df48, 0x22635671, 0xff26fcc9,
     0x2e238253, 0xf36628eb, 0x9144a1d2, 0x4c010b6a, 0x5501b3a0, 0x88441918, 0xea669021,
     0x37233a99, 0xd867e1b5, 0x05224b0d, 0x6700c234, 0xba45688c, 0xa345d046, 0x7e007afe,
     0x1c22f3c7, 0xc167597f, 0xc747336e, 0x1a0299d6, 0x782010ef, 0xa565ba57, 0xbc65029d,
     0x6120a825, 0x0302211c, 0xde478ba4, 0x31035088, 0xec46fa30, 0x8e647309, 0x5321d9b1,
     0x4a21617b, 0x9764cbc3, 0xf54642fa, 0x2803e842]"

definition LE_LOAD32 :: "byte list \<Rightarrow> u32" where
  "LE_LOAD32 p = DecodeFixed32 p"

definition STEP1 :: "u32 \<times> byte list \<Rightarrow> u32 \<times> byte list" where
  "STEP1 = (\<lambda>(l, p).
     let c = (l AND 0xff) XOR ucast (hd p);
         p = tl p
     in (table0 ! unat c XOR drop_bit 8 l, p))"

definition STEP4 :: "u32 \<times> byte list \<Rightarrow> u32 \<times> byte list" where
  "STEP4 = (\<lambda>(l, p).
     let c = l XOR LE_LOAD32 p;
         p = drop 4 p
     in (table3 ! unat (c AND 0xff) XOR
         table2 ! unat (drop_bit 8 c AND 0xff) XOR
         table1 ! unat (drop_bit 16 c AND 0xff) XOR
         table0 ! unat (drop_bit 24 c), p))"

lemma STEP1_rest [simp]: "snd (STEP1 s) = tl (snd s)"
  by (simp add: STEP1_def Let_def split: prod.split)

lemma STEP4_rest [simp]: "snd (STEP4 s) = drop 4 (snd s)"
  by (simp add: STEP4_def Let_def split: prod.split)

text \<open>The loops of \<open>Extend\<close>; \<open>e - p\<close> is the number of bytes left.\<close>

function while16 :: "u32 \<times> byte list \<Rightarrow> u32 \<times> byte list" where
  "while16 s = (if length (snd s) \<ge> 16 then while16 (STEP4 (STEP4 (STEP4 (STEP4 s)))) else s)"
  by pat_completeness auto
termination by (relation "measure (\<lambda>s. length (snd s))") auto

function while4 :: "u32 \<times> byte list \<Rightarrow> u32 \<times> byte list" where
  "while4 s = (if length (snd s) \<ge> 4 then while4 (STEP4 s) else s)"
  by pat_completeness auto
termination by (relation "measure (\<lambda>s. length (snd s))") auto

function while1 :: "u32 \<times> byte list \<Rightarrow> u32 \<times> byte list" where
  "while1 s = (if snd s \<noteq> [] then while1 (STEP1 s) else s)"
  by pat_completeness auto
termination by (relation "measure (\<lambda>s. length (snd s))") auto

declare while16.simps [simp del] while4.simps [simp del] while1.simps [simp del]

text \<open>\<open>p\<close> has the address \<open>pval\<close>; \<open>x\<close> is the first aligned address from there.\<close>

definition ExtendPortable :: "nat \<Rightarrow> u32 \<Rightarrow> byte list \<Rightarrow> u32" where
  "ExtendPortable pval crc buf =
     (let l = crc XOR 0xffffffff;
          x = push_bit 2 (drop_bit 2 (pval + 3));
          e = pval + length buf;
          s = (if x \<le> e then (STEP1 ^^ (x - pval)) (l, buf) else (l, buf))
      in fst (while1 (while4 (while16 s))) XOR 0xffffffff)"

definition kTestCRCBuffer :: "byte list" where
  "kTestCRCBuffer = [84, 101, 115, 116, 67, 82, 67, 66, 117, 102, 102, 101, 114]"

definition kTestCRCValue :: u32 where "kTestCRCValue = 0xdcbc59fa"

text \<open>\<open>AcceleratedCRC32C\<close> is \<open>port::AcceleratedCRC32C\<close>, with the address of its buffer.\<close>

definition CanAccelerateCRC32C :: "(nat \<Rightarrow> u32 \<Rightarrow> byte list \<Rightarrow> u32) \<Rightarrow> nat \<Rightarrow> bool" where
  "CanAccelerateCRC32C AcceleratedCRC32C test_addr \<longleftrightarrow>
     AcceleratedCRC32C test_addr 0 kTestCRCBuffer = kTestCRCValue"

definition Extend :: "(nat \<Rightarrow> u32 \<Rightarrow> byte list \<Rightarrow> u32) \<Rightarrow> nat \<Rightarrow> nat \<Rightarrow> u32 \<Rightarrow> byte list \<Rightarrow> u32" where
  "Extend AcceleratedCRC32C test_addr pval crc buf =
     (if CanAccelerateCRC32C AcceleratedCRC32C test_addr then AcceleratedCRC32C pval crc buf
      else ExtendPortable pval crc buf)"

definition kMaskDelta :: u32 where "kMaskDelta = 0xa282ead8"

definition Mask :: "u32 \<Rightarrow> u32" where
  "Mask crc = (drop_bit 15 crc OR push_bit 17 crc) + kMaskDelta"

definition Unmask :: "u32 \<Rightarrow> u32" where
  "Unmask masked_crc =
     (let rot = masked_crc - kMaskDelta in drop_bit 17 rot OR push_bit 15 rot)"

subsection \<open>The accelerated version\<close>

text \<open>
  \<open>port/port_posix_sse.cc\<close>: the parameters are whether the processor has SSE 4.2 (never,
  when the file is compiled without \<open>LEVELDB_PLATFORM_POSIX_SSE\<close>) and the three intrinsics.
\<close>

function sse8 :: "(u32 \<Rightarrow> u64 \<Rightarrow> u32) \<Rightarrow> u32 \<times> byte list \<Rightarrow> u32 \<times> byte list" where
  "sse8 mm_crc32_u64 (l, p) =
     (if length p \<ge> 8 then sse8 mm_crc32_u64 (mm_crc32_u64 l (DecodeFixed64 p), drop 8 p)
      else (l, p))"
  by pat_completeness auto
termination by (relation "measure (\<lambda>(f, s). length (snd s))") auto

declare sse8.simps [simp del]

definition AcceleratedCRC32C ::
  "bool \<Rightarrow> (u32 \<Rightarrow> byte \<Rightarrow> u32) \<Rightarrow> (u32 \<Rightarrow> u32 \<Rightarrow> u32) \<Rightarrow> (u32 \<Rightarrow> u64 \<Rightarrow> u32) \<Rightarrow>
   nat \<Rightarrow> u32 \<Rightarrow> byte list \<Rightarrow> u32" where
  "AcceleratedCRC32C have_sse mm_crc32_u8 mm_crc32_u32 mm_crc32_u64 addr crc buf =
     (if \<not> have_sse then 0
      else
        let l = crc XOR 0xffffffff;
            (l, p) =
              (if length buf > 16
               then
                 let i = addr mod 8;
                     s = (foldl mm_crc32_u8 l (take i buf), drop i buf);
                     (l, p) = sse8 mm_crc32_u64 s
                 in if length p \<ge> 4 then (mm_crc32_u32 l (LE_LOAD32 p), drop 4 p) else (l, p)
               else (l, buf))
        in foldl mm_crc32_u8 l p XOR 0xffffffff)"

subsection \<open>The bitwise reference\<close>

text \<open>
  One step of the division by the Castagnoli polynomial with reflected bits, the register
  after a zero byte, and the definition of CRC-32C: the register starts and ends inverted.
\<close>

definition crc_bit :: "u32 \<Rightarrow> u32" where
  "crc_bit l = (if bit l 0 then drop_bit 1 l XOR 0x82f63b78 else drop_bit 1 l)"

definition crc_zero :: "u32 \<Rightarrow> u32" where
  "crc_zero l = (crc_bit ^^ 8) l"

definition crc_byte :: "u32 \<Rightarrow> byte \<Rightarrow> u32" where
  "crc_byte l b = crc_zero (l XOR ucast b)"

definition crc32c :: "u32 \<Rightarrow> byte list \<Rightarrow> u32" where
  "crc32c crc data = foldl crc_byte (crc XOR 0xffffffff) data XOR 0xffffffff"

text \<open>Maps that are linear over the bits.\<close>

definition xor_linear :: "(u32 \<Rightarrow> u32) \<Rightarrow> bool" where
  "xor_linear f \<longleftrightarrow> (\<forall>x y. f (x XOR y) = f x XOR f y)"

lemma xor_linearD: "xor_linear f \<Longrightarrow> f (x XOR y) = f x XOR f y"
  by (simp add: xor_linear_def)

lemma xor_linear_zero: "xor_linear f \<Longrightarrow> f 0 = 0"
  using xor_linearD [of f 0 0] by simp

lemma xor_linear_funpow: "xor_linear f \<Longrightarrow> xor_linear (f ^^ n)"
  by (induction n) (simp_all add: xor_linear_def)

lemma crc_bit_linear: "xor_linear crc_bit"
proof -
  have "crc_bit (x XOR y) = crc_bit x XOR crc_bit y" for x y
    by (rule bit_word_eqI) (auto simp: crc_bit_def bit_simps)
  then show ?thesis by (simp add: xor_linear_def)
qed

lemma crc_zero_linear: "xor_linear crc_zero"
  using xor_linear_funpow [OF crc_bit_linear, of 8] by (simp add: xor_linear_def crc_zero_def)

text \<open>The table of a linear map, from its values on the powers of two, highest first.\<close>

fun span :: "u32 list \<Rightarrow> u32 list" where
  "span [] = [0]"
| "span (b # bs) = span bs @ map ((XOR) b) (span bs)"

lemma span_length [simp]: "length (span bs) = 2 ^ length bs"
  by (induction bs) simp_all

lemma span_linear:
  assumes "xor_linear f" and "n \<le> 32"
  shows "i < 2 ^ n \<Longrightarrow> span (map (\<lambda>j. f (2 ^ j)) (rev [0..<n])) ! i = f (word_of_nat i)"
  using assms(2)
proof (induction n arbitrary: i)
  case 0
  then show ?case by (simp add: xor_linear_zero [OF assms(1)])
next
  case (Suc n)
  show ?case
  proof (cases "i < 2 ^ n")
    case True
    with Suc show ?thesis by (simp add: nth_append)
  next
    case False
    define k where "k = i - 2 ^ n"
    with False Suc(2) have k: "i = 2 ^ n + k" "k < 2 ^ n" by auto
    have "(word_of_nat i :: u32) = 2 ^ n XOR word_of_nat k"
    proof (rule bit_word_eqI)
      fix m assume m: "m < LENGTH(32)"
      have "bit (2 ^ n + k) m \<longleftrightarrow> bit ((2::nat) ^ n) m \<noteq> bit k m"
      proof -
        have kn: "\<not> bit k n" using k(2) by (simp add: bit_iff_odd)
        then have "2 ^ n + k = 2 ^ n OR k"
          by (intro disjunctive_add) (auto simp: bit_exp_iff)
        with kn show ?thesis by (auto simp: bit_simps)
      qed
      moreover have w: "bit (word_of_nat j :: u32) m = bit j m" for j
        using m by (simp add: bit_simps)
      moreover have "bit (2 ^ n :: u32) m = bit ((2::nat) ^ n) m"
        using w [of "2 ^ n"] by simp
      ultimately show "bit (word_of_nat i :: u32) m = bit (2 ^ n XOR word_of_nat k :: u32) m"
        unfolding k(1) bit_xor_iff w by simp
    qed
    with k Suc.IH [of k] Suc(3) False show ?thesis
      by (simp add: nth_append xor_linearD [OF assms(1)])
  qed
qed

text \<open>The four tables of the source, from the eight values each takes on powers of two.\<close>

definition basis :: "nat \<Rightarrow> u32 list" where
  "basis k = map (\<lambda>j. (crc_zero ^^ k) (2 ^ j)) (rev [0..<8])"

lemma crc_zero_unfold:
  "crc_zero l = crc_bit (crc_bit (crc_bit (crc_bit (crc_bit (crc_bit (crc_bit (crc_bit l)))))))"
  by (simp add: crc_zero_def numeral_eq_Suc)

lemma basis_Suc: "basis (Suc k) = map crc_zero (basis k)"
  by (simp add: basis_def)

lemma basis_steps:
  "basis 1 = map crc_zero (basis 0)" "basis 2 = map crc_zero (basis 1)"
  "basis 3 = map crc_zero (basis 2)" "basis 4 = map crc_zero (basis 3)"
  using basis_Suc [of 0] basis_Suc [of 1] basis_Suc [of 2] basis_Suc [of 3]
  by (simp_all add: numeral_eq_Suc del: list.map_comp map_map)

lemma basis0: "basis 0 = [128, 64, 32, 16, 8, 4, 2, 1]"
  by (simp add: basis_def upt_rec)

lemmas crc_eval = crc_zero_unfold crc_bit_def

lemma basis1: "basis 1 =
  [0x82f63b78, 0x417b1dbc, 0x20bd8ede, 0x105ec76f, 0x8ad958cf, 0xc79a971f, 0xe13b70f7, 0xf26b8303]"
  by (simp only: basis_steps(1) basis0) (simp add: crc_eval)

lemma basis2: "basis 2 =
  [0xfbc3faf9, 0xff17c604, 0x7f8be302, 0x3fc5f181, 0x9d14c3b8, 0x4e8a61dc, 0x274530ee, 0x13a29877]"
  by (simp only: basis_steps(2) basis1) (simp add: crc_eval)

lemma basis3: "basis 3 =
  [0x8b277743, 0xc76580d9, 0xe144fb14, 0x70a27d8a, 0x38513ec5, 0x9edea41a, 0x4f6f520d, 0xa541927e]"
  by (simp only: basis_steps(3) basis2) (simp add: crc_eval)

lemma basis4: "basis 4 =
  [0x52a0c93f, 0xaba65fe7, 0xd725148b, 0xe964b13d, 0xf64463e6, 0x7b2231f3, 0xbf672381, 0xdd45aab8]"
  by (simp only: basis_steps(4) basis3) (simp add: crc_eval)

lemma tables_span:
  "table0 = span (basis 1)" "table1 = span (basis 2)" "table2 = span (basis 3)" "table3 = span (basis 4)"
  unfolding basis1 basis2 basis3 basis4
  by (simp add: table0_def, simp add: table1_def, simp add: table2_def, simp add: table3_def)

lemma basis_nth: "i < 256 \<Longrightarrow> span (basis k) ! i = (crc_zero ^^ k) (word_of_nat i)"
  using span_linear [OF xor_linear_funpow [OF crc_zero_linear], of 8 i k] by (simp add: basis_def)

lemma table_nth:
  fixes c :: u32
  assumes "unat c < 256"
  shows "table0 ! unat c = crc_zero c" "table1 ! unat c = (crc_zero ^^ 2) c"
    "table2 ! unat c = (crc_zero ^^ 3) c" "table3 ! unat c = (crc_zero ^^ 4) c"
  using basis_nth [OF assms, of 1] basis_nth [OF assms] by (simp_all add: tables_span)

subsection \<open>The steps follow the reference\<close>

lemma crc_bit_even: "\<not> bit l 0 \<Longrightarrow> crc_bit l = drop_bit 1 l"
  by (simp add: crc_bit_def)

lemma crc_bits_even: "take_bit n l = 0 \<Longrightarrow> (crc_bit ^^ n) l = drop_bit n l"
proof (induction n arbitrary: l)
  case (Suc n)
  have b: "\<not> bit l m" if "m < Suc n" for m
    using Suc(2) that by (metis bit_0_eq bit_take_bit_iff bot_apply bot_bool_def)
  have "take_bit n l = 0" by (rule bit_word_eqI) (auto simp: bit_simps b)
  with Suc(1) have "(crc_bit ^^ n) l = drop_bit n l" by simp
  moreover have "\<not> bit (drop_bit n l) 0" using b [of n] by (simp add: bit_simps)
  ultimately show ?case by (simp add: crc_bit_even)
qed simp

lemma mask_FF: "(0xff :: u32) = mask 8"
  by (simp add: mask_eq_exp_minus_1)

lemma crc_zero_high: "take_bit 8 l = 0 \<Longrightarrow> crc_zero l = drop_bit 8 l"
  by (simp add: crc_zero_def crc_bits_even)

lemma crc_zero_step: "crc_zero l = table0 ! unat (l AND 0xff) XOR drop_bit 8 l"
proof -
  have m: "l AND 0xff = take_bit 8 l"
    by (simp add: take_bit_eq_mask mask_eq_exp_minus_1)
  have "l = take_bit 8 l XOR (l AND NOT (mask 8))"
    by (rule bit_word_eqI) (auto simp: bit_simps)
  then have "crc_zero l = crc_zero (take_bit 8 l) XOR crc_zero (l AND NOT (mask 8))"
    by (metis xor_linearD crc_zero_linear)
  moreover have "crc_zero (l AND NOT (mask 8)) = drop_bit 8 (l AND NOT (mask 8))"
    by (rule crc_zero_high) (rule bit_word_eqI, auto simp: bit_simps)
  moreover have "drop_bit 8 (l AND NOT (mask 8)) = drop_bit 8 l"
    by (rule bit_word_eqI) (auto simp: bit_simps dest: bit_imp_le_length)
  moreover have "unat (take_bit 8 l) < 256"
    using take_bit_nat_less_exp [of 8 "unat l"] by (simp add: unsigned_take_bit_eq)
  ultimately show ?thesis by (simp add: m table_nth)
qed

text \<open>Every step keeps the value the remaining bytes lead to.\<close>

definition remaining :: "u32 \<times> byte list \<Rightarrow> u32" where
  "remaining s = foldl crc_byte (fst s) (snd s)"

lemma STEP1_remaining:
  assumes "snd s \<noteq> []"
  shows "remaining (STEP1 s) = remaining s"
proof -
  obtain l b p where s: "s = (l, b # p)" using assms by (cases s) (auto simp: neq_Nil_conv)
  have "(l AND 0xff) XOR ucast b = (l XOR ucast b) AND 0xff"
    unfolding mask_FF by (rule bit_word_eqI) (auto simp: bit_simps dest: bit_imp_le_length)
  moreover have "drop_bit 8 (l XOR ucast b) = drop_bit 8 l"
    by (rule bit_word_eqI) (auto simp: bit_simps dest: bit_imp_le_length)
  ultimately have "crc_byte l b = table0 ! unat ((l AND 0xff) XOR ucast b) XOR drop_bit 8 l"
    using crc_zero_step [of "l XOR ucast b"] by (simp add: crc_byte_def)
  then show ?thesis by (simp add: s STEP1_def Let_def remaining_def)
qed

lemma STEP1s_remaining:
  "n \<le> length (snd s) \<Longrightarrow> remaining ((STEP1 ^^ n) s) = remaining s \<and> snd ((STEP1 ^^ n) s) = drop n (snd s)"
proof (induction n)
  case (Suc n)
  then have i: "remaining ((STEP1 ^^ n) s) = remaining s" "snd ((STEP1 ^^ n) s) = drop n (snd s)"
    by simp_all
  have "snd ((STEP1 ^^ n) s) \<noteq> []" unfolding i(2) using Suc(2) by simp
  from STEP1_remaining [OF this] i show ?case by (simp add: drop_Suc tl_drop)
qed simp

text \<open>Four bytes at once: a byte of the register is looked up in the table of its place.\<close>

lemma crc_zero_push: "n \<le> 16 \<Longrightarrow> crc_zero (push_bit (n + 8) (take_bit 8 w)) = push_bit n (take_bit 8 w)"
proof -
  assume n: "n \<le> 16"
  have "crc_zero (push_bit (n + 8) (take_bit 8 w)) = drop_bit 8 (push_bit (n + 8) (take_bit 8 w))"
    by (rule crc_zero_high) (rule bit_word_eqI, auto simp: bit_simps)
  also have "\<dots> = push_bit n (take_bit 8 w)"
    by (rule bit_word_eqI) (use n in \<open>auto simp: bit_simps\<close>)
  finally show ?thesis .
qed

lemma crc_zero_pushes:
  "crc_zero (push_bit 8 (take_bit 8 w)) = take_bit 8 w"
  "crc_zero (push_bit 16 (take_bit 8 w)) = push_bit 8 (take_bit 8 w)"
  "crc_zero (push_bit 24 (take_bit 8 w)) = push_bit 16 (take_bit 8 w)"
  using crc_zero_push [of 0 w] crc_zero_push [of 8 w] crc_zero_push [of 16 w] by simp_all

lemma word_bytes:
  "c = take_bit 8 c XOR push_bit 8 (take_bit 8 (drop_bit 8 c)) XOR
       push_bit 16 (take_bit 8 (drop_bit 16 c)) XOR push_bit 24 (take_bit 8 (drop_bit 24 c))" for c :: u32
  by (rule bit_word_eqI) (auto simp: bit_simps)

lemma take8_less: "unat (take_bit 8 c :: u32) < 256"
  using take_bit_nat_less_exp [of 8 "unat c"] by (simp add: unsigned_take_bit_eq)

lemma funpow_small: "(f ^^ 2) x = f (f x)" "(f ^^ 3) x = f (f (f x))" "(f ^^ 4) x = f (f (f (f x)))"
  by (simp_all add: numeral_eq_Suc)

lemma tables_word:
  "table3 ! unat (c AND 0xff) XOR table2 ! unat (drop_bit 8 c AND 0xff) XOR
   table1 ! unat (drop_bit 16 c AND 0xff) XOR table0 ! unat (drop_bit 24 c) = (crc_zero ^^ 4) c"
proof -
  have m: "x AND 0xff = take_bit 8 x" for x :: u32
    by (simp add: take_bit_eq_mask mask_FF)
  have "drop_bit 24 c = take_bit 8 (drop_bit 24 c)"
    by (rule bit_word_eqI) (auto simp: bit_simps dest: bit_imp_le_length)
  then have t: "table0 ! unat (drop_bit 24 c) = crc_zero (take_bit 8 (drop_bit 24 c))"
    using table_nth(1) [OF take8_less] by metis
  note l = xor_linearD [OF crc_zero_linear]
  have "(crc_zero ^^ 4) c = (crc_zero ^^ 4) (take_bit 8 c) XOR
      (crc_zero ^^ 3) (take_bit 8 (drop_bit 8 c)) XOR (crc_zero ^^ 2) (take_bit 8 (drop_bit 16 c)) XOR
      crc_zero (take_bit 8 (drop_bit 24 c))"
    by (subst (1) word_bytes [of c]) (simp only: funpow_small l crc_zero_pushes)
  then show ?thesis
    by (simp add: m t table_nth(2-) [OF take8_less])
qed

lemma of_le_word: "(word_of_nat (of_le (b # bs)) :: u32) = ucast b XOR push_bit 8 (word_of_nat (of_le bs))"
proof -
  let ?w = "word_of_nat (of_le bs) :: u32"
  have d: "\<not> bit (ucast b :: u32) n \<or> \<not> bit (push_bit 8 ?w) n" for n
    by (auto simp: bit_simps dest: bit_imp_le_length)
  have "(word_of_nat (of_le (b # bs)) :: u32) = ucast b + push_bit 8 ?w"
    by (simp add: push_bit_eq_mult)
  also have "\<dots> = ucast b OR push_bit 8 ?w"
    by (rule disjunctive_add [OF d])
  also have "\<dots> = ucast b XOR push_bit 8 ?w"
    by (rule bit_word_eqI) (use d in \<open>auto simp: bit_simps\<close>)
  finally show ?thesis .
qed

lemma take8_byte: "(ucast b :: u32) = take_bit 8 (ucast b)" for b :: byte
  by (rule bit_word_eqI) (auto simp: bit_simps dest: bit_imp_le_length)

lemma DecodeFixed32_bytes:
  "DecodeFixed32 (b0 # b1 # b2 # b3 # p) =
   ucast b0 XOR push_bit 8 (ucast b1) XOR push_bit 16 (ucast b2) XOR push_bit 24 (ucast b3)"
proof -
  have "DecodeFixed32 (b0 # b1 # b2 # b3 # p) = word_of_nat (of_le [b0, b1, b2, b3])"
    by (simp add: DecodeFixed32_def)
  also have "\<dots> = ucast b0 XOR push_bit 8 (ucast b1 XOR push_bit 8 (ucast b2 XOR push_bit 8 (ucast b3)))"
    unfolding of_le_word by simp
  also have "\<dots> = ucast b0 XOR push_bit 8 (ucast b1) XOR push_bit 16 (ucast b2) XOR push_bit 24 (ucast b3)"
    by (simp add: push_bit_xor ac_simps)
  finally show ?thesis .
qed

lemma crc_bytes4:
  "crc_byte (crc_byte (crc_byte (crc_byte l b0) b1) b2) b3
   = (crc_zero ^^ 4) (l XOR DecodeFixed32 (b0 # b1 # b2 # b3 # p))"
proof -
  note l = xor_linearD [OF crc_zero_linear]
  note push = crc_zero_pushes [of "ucast b" for b :: byte, folded take8_byte]
  show ?thesis
    by (simp only: crc_byte_def DecodeFixed32_bytes funpow_small l push xor.assoc xor.left_commute xor.commute)
qed

lemma STEP4_remaining:
  assumes "4 \<le> length (snd s)"
  shows "remaining (STEP4 s) = remaining s"
proof -
  obtain l b0 b1 b2 b3 p where s: "s = (l, b0 # b1 # b2 # b3 # p)"
    using assms by (cases s) (auto simp: numeral_eq_Suc Suc_le_length_iff)
  then show ?thesis
    by (simp add: STEP4_def Let_def remaining_def LE_LOAD32_def tables_word crc_bytes4 [of _ _ _ _ _ p])
qed

lemma while16_remaining: "remaining (while16 s) = remaining s"
proof (induction s rule: while16.induct)
  case (1 s)
  then show ?case by (simp add: while16.simps [of s] STEP4_remaining)
qed

lemma while4_remaining: "remaining (while4 s) = remaining s"
proof (induction s rule: while4.induct)
  case (1 s)
  then show ?case by (simp add: while4.simps [of s] STEP4_remaining)
qed

lemma while1_done: "fst (while1 s) = remaining s"
proof (induction s rule: while1.induct)
  case (1 s)
  then show ?case
    using STEP1_remaining [of s] while1.simps [of s]
    by (cases "snd s = []") (simp_all add: remaining_def [of s])
qed

lemma align_le: "pval \<le> push_bit 2 (drop_bit 2 (pval + 3))" for pval :: nat
  by (simp add: push_bit_eq_mult drop_bit_eq_div)

lemma ExtendPortable_crc32c: "ExtendPortable pval crc buf = crc32c crc buf"
proof -
  let ?l = "crc XOR 0xffffffff"
  let ?x = "push_bit 2 (drop_bit 2 (pval + 3))"
  let ?s = "if ?x \<le> pval + length buf then (STEP1 ^^ (?x - pval)) (?l, buf) else (?l, buf)"
  have "remaining ?s = remaining (?l, buf)"
    using STEP1s_remaining [of "?x - pval" "(?l, buf)"] align_le [of pval] by simp
  then have "fst (while1 (while4 (while16 ?s))) = remaining (?l, buf)"
    by (simp only: while1_done while4_remaining while16_remaining)
  then show ?thesis
    by (simp only: ExtendPortable_def Let_def crc32c_def remaining_def fst_conv snd_conv)
qed

text \<open>The accelerated loop, for intrinsics that do what Intel documents.\<close>

lemma foldl_take_drop: "foldl f (foldl f a (take n xs)) (drop n xs) = foldl f a xs"
  by (metis append_take_drop_id foldl_append)

lemma sse8_remaining:
  assumes "\<And>l p. 8 \<le> length p \<Longrightarrow> mm64 l (DecodeFixed64 p) = foldl crc_byte l (take 8 p)"
  shows "remaining (sse8 mm64 s) = remaining s"
  using assms
proof (induction mm64 s rule: sse8.induct)
  case (1 mm l p)
  then show ?case
    using foldl_take_drop [of crc_byte l 8 p]
    by (cases "8 \<le> length p") (simp_all add: sse8.simps [of mm l p] remaining_def)
qed

lemma of_le_round64: "to_le 8 (unat (DecodeFixed64 p)) = take 8 p" if "8 \<le> length p"
proof -
  have "of_le (take 8 p) < 2 ^ 64" using of_le_bound [of "take 8 p"] that by simp
  then have "unat (DecodeFixed64 p) = of_le (take 8 p)" by (simp add: DecodeFixed64_def unat_of_nat)
  then show ?thesis using to_le_of_le [of "take 8 p"] that by simp
qed

lemma of_le_round32: "to_le 4 (unat (DecodeFixed32 p)) = take 4 p" if "4 \<le> length p"
proof -
  have "of_le (take 4 p) < 2 ^ 32" using of_le_bound [of "take 4 p"] that by simp
  then have "unat (DecodeFixed32 p) = of_le (take 4 p)" by (simp add: DecodeFixed32_def unat_of_nat)
  then show ?thesis using to_le_of_le [of "take 4 p"] that by simp
qed

definition intel_crc ::
  "(u32 \<Rightarrow> byte \<Rightarrow> u32) \<Rightarrow> (u32 \<Rightarrow> u32 \<Rightarrow> u32) \<Rightarrow> (u32 \<Rightarrow> u64 \<Rightarrow> u32) \<Rightarrow> bool" where
  "intel_crc mm8 mm32 mm64 \<longleftrightarrow>
     mm8 = crc_byte \<and>
     (\<forall>l w. mm32 l w = foldl crc_byte l (to_le 4 (unat w))) \<and>
     (\<forall>l w. mm64 l w = foldl crc_byte l (to_le 8 (unat w)))"

lemma Accelerated_crc32c:
  assumes "intel_crc mm8 mm32 mm64"
  shows "AcceleratedCRC32C True mm8 mm32 mm64 addr crc buf = crc32c crc buf"
proof -
  have mm8: "mm8 = crc_byte" using assms by (simp add: intel_crc_def)
  have mm32: "mm32 l (LE_LOAD32 p) = foldl crc_byte l (take 4 p)" if "4 \<le> length p" for l p
    using assms that by (simp add: intel_crc_def LE_LOAD32_def of_le_round32)
  have mm64: "mm64 l (DecodeFixed64 p) = foldl crc_byte l (take 8 p)" if "8 \<le> length p" for l p
    using assms that by (simp add: intel_crc_def of_le_round64)
  let ?l = "crc XOR 0xffffffff"
  let ?i = "addr mod 8"
  obtain l p where s: "sse8 mm64 (foldl crc_byte ?l (take ?i buf), drop ?i buf) = (l, p)"
    by fastforce
  have "foldl crc_byte l p = foldl crc_byte ?l buf"
    using sse8_remaining [of mm64 "(foldl crc_byte ?l (take ?i buf), drop ?i buf)", OF mm64] s
    by (simp add: remaining_def foldl_take_drop)
  then show ?thesis
    using foldl_take_drop [of crc_byte l 4 p]
    by (simp add: AcceleratedCRC32C_def mm8 s crc32c_def Let_def mm32)
qed

lemma Extend_plain: "Extend (AcceleratedCRC32C False m8 m32 m64) t pval crc buf = crc32c crc buf"
  by (simp add: Extend_def CanAccelerateCRC32C_def AcceleratedCRC32C_def kTestCRCValue_def
      ExtendPortable_crc32c)

lemma crc32c_append: "crc32c crc (a @ b) = crc32c (crc32c crc a) b"
  by (simp add: crc32c_def xor.assoc)

subsection \<open>Detection of a changed byte\<close>

lemma crc_bit_inj: "crc_bit x = crc_bit y \<longleftrightarrow> x = y"
proof
  assume e: "crc_bit x = crc_bit y"
  then have z: "crc_bit (x XOR y) = 0"
    using xor_linearD [OF crc_bit_linear, of x y] by simp
  have "bit (crc_bit w) 31 = bit w 0" for w
    by (auto simp: crc_bit_def bit_simps dest: bit_imp_le_length)
  with z have b: "\<not> bit (x XOR y) 0" by (metis bit_0_eq bot_apply bot_bool_def)
  with z have d: "drop_bit 1 (x XOR y) = 0" by (simp add: crc_bit_def)
  have s: "bit (drop_bit 1 w) m = bit w (Suc m)" for w :: u32 and m
    by (simp add: bit_drop_bit_eq)
  have "\<not> bit (x XOR y) n" for n
    using b s [of "x XOR y" "n - 1", unfolded d] by (cases n) simp_all
  then show "x = y" by (intro bit_word_eqI) (auto simp: bit_simps)
qed simp

lemma xor_left_cancel: "x XOR y = x XOR z \<longleftrightarrow> y = z" for x :: u32
  by (metis xor.assoc xor.left_neutral xor_self_eq)

lemma xor_right_cancel: "y XOR x = z XOR x \<longleftrightarrow> y = z" for x :: u32
  by (metis xor.commute xor_left_cancel)

lemma crc_zero_inj: "crc_zero x = crc_zero y \<longleftrightarrow> x = y"
  by (simp add: crc_zero_unfold crc_bit_inj)

lemma ucast_byte_inj: "(ucast a :: u32) = ucast b \<longleftrightarrow> a = b" for a b :: byte
proof -
  have "unat (ucast c :: u32) = unat c" for c :: byte
    using less_le_trans [OF unat_byte_less, of "2 ^ 32" c]
    by (simp add: unsigned_ucast_eq take_bit_nat_eq_self)
  then show ?thesis by (metis word_unat_eq_iff)
qed

lemma crc_byte_inj: "crc_byte l a = crc_byte l b \<longleftrightarrow> a = b"
  by (simp add: crc_byte_def crc_zero_inj xor_left_cancel ucast_byte_inj)

lemma crc_byte_inj_left: "crc_byte l a = crc_byte m a \<longleftrightarrow> l = m"
  by (simp add: crc_byte_def crc_zero_inj xor_right_cancel)

lemma foldl_crc_inj: "foldl crc_byte l bs = foldl crc_byte m bs \<longleftrightarrow> l = m"
  by (induction bs arbitrary: l m) (simp_all add: crc_byte_inj_left)

lemma crc32c_detects: "crc32c crc (a @ b # c) = crc32c crc (a @ b' # c) \<longleftrightarrow> b = b'"
  by (simp add: crc32c_def foldl_crc_inj crc_byte_inj xor_right_cancel)

lemma rotate32:
  fixes r :: u32
  assumes "a + b = 32"
  shows "drop_bit a (drop_bit b r OR push_bit a r) OR push_bit b (drop_bit b r OR push_bit a r) = r"
proof (rule bit_word_eqI)
  fix n assume "n < LENGTH(32)"
  with assms show "bit (drop_bit a (drop_bit b r OR push_bit a r) OR push_bit b (drop_bit b r OR push_bit a r)) n
      = bit r n"
    by (cases "n < b") (auto simp: bit_simps dest: bit_imp_le_length)
qed

lemma Unmask_Mask: "Unmask (Mask c) = c"
  using rotate32 [of 17 15 c] by (simp add: Unmask_def Mask_def)

lemma Mask_Unmask: "Mask (Unmask c) = c"
  using rotate32 [of 15 17 "c - kMaskDelta"] by (simp add: Unmask_def Mask_def Let_def)

text \<open>
  Callers that do not keep the address of their buffer use address 0; the result is the
  same at every address, and with the accelerated version.
\<close>

definition crc_extend :: "u32 \<Rightarrow> byte list \<Rightarrow> u32" where
  "crc_extend crc buf = ExtendPortable 0 crc buf"

definition Value :: "byte list \<Rightarrow> u32" where
  "Value data = crc_extend 0 data"

lemma crc_extend_eq: "crc_extend = crc32c"
  by (rule ext)+ (simp add: crc_extend_def ExtendPortable_crc32c)

lemma Value_eq: "Value data = crc32c 0 data"
  by (simp add: Value_def crc_extend_eq)

lemma Value_extend: "crc_extend (Value a) b = Value (a @ b)"
  by (simp add: Value_eq crc_extend_eq crc32c_append)

lemma crc32c_test_value: "crc32c 0 kTestCRCBuffer = kTestCRCValue"
  by (simp add: crc32c_def kTestCRCBuffer_def kTestCRCValue_def crc_byte_def crc_eval)

subsection \<open>Properties\<close>

text \<open>
  C6 (ldb_crc32c_correct). \<open>Extend\<close>, with its four tables, four bytes at a time and at
  every alignment of the buffer, is the bitwise CRC-32C; so is the accelerated version,
  where the processor has SSE 4.2 and its instructions do what Intel documents, and then the
  test that selects it succeeds. Nothing is assumed of the intrinsics without SSE.
\<close>

theorem ldb_crc32c_correct:
  assumes "have_sse \<Longrightarrow> intel_crc mm8 mm32 mm64"
  shows "Extend (AcceleratedCRC32C have_sse mm8 mm32 mm64) t pval crc buf = crc32c crc buf \<and>
    CanAccelerateCRC32C (AcceleratedCRC32C have_sse mm8 mm32 mm64) t = have_sse"
proof (cases have_sse)
  case True
  with Accelerated_crc32c [OF assms] show ?thesis
    by (simp add: Extend_def CanAccelerateCRC32C_def crc32c_test_value)
next
  case False
  then show ?thesis
    by (simp add: Extend_plain)
      (simp add: CanAccelerateCRC32C_def AcceleratedCRC32C_def kTestCRCValue_def)
qed

theorem ldb_crc32c_correct_witness:
  "\<exists>mm8 mm32 mm64. Extend (AcceleratedCRC32C True mm8 mm32 mm64) 8 3 0 [1, 2, 3] = crc32c 0 [1, 2, 3]"
proof (intro exI)
  let ?m32 = "\<lambda>l w. foldl crc_byte l (to_le 4 (unat (w :: u32)))"
  let ?m64 = "\<lambda>l w. foldl crc_byte l (to_le 8 (unat (w :: u64)))"
  show "Extend (AcceleratedCRC32C True crc_byte ?m32 ?m64) 8 3 0 [1, 2, 3] = crc32c 0 [1, 2, 3]"
    using ldb_crc32c_correct [of True crc_byte ?m32 ?m64 8 3 0 "[1, 2, 3]"]
    by (simp add: intel_crc_def)
qed

text \<open>
  Theorem (ldb_crc32c_stream). Extending the CRC of a string by more bytes, from whatever
  address they are read, gives the CRC of the concatenation.
\<close>

theorem ldb_crc32c_stream:
  "ExtendPortable p (ExtendPortable q crc a) b = ExtendPortable r crc (a @ b)"
  by (simp add: ExtendPortable_crc32c crc32c_append)

text \<open>
  Theorem (ldb_crc32c_detects_byte). Changing any single byte of a string changes its CRC,
  also when the CRC is stored masked.
\<close>

theorem ldb_crc32c_detects_byte:
  "Mask (Value (a @ b # c)) = Mask (Value (a @ b' # c)) \<longleftrightarrow> b = b'"
  by (metis Unmask_Mask Value_eq crc32c_detects)

text \<open>
  Theorem (ldb_mask_roundtrip). \<open>Mask\<close> and \<open>Unmask\<close> are inverse to each other.
\<close>

theorem ldb_mask_roundtrip:
  "Unmask (Mask crc) = crc \<and> Mask (Unmask masked_crc) = masked_crc"
  by (simp add: Unmask_Mask Mask_Unmask)

end
