(* ===== verification/LDB_Log.thy ===== *)
theory LDB_Log
  imports LDB_Crc32c
begin

text \<open>
  LevelDB's write-ahead log: \<open>db/log_format.h\<close>, the writer \<open>db/log_writer.cc\<close> and the reader
  \<open>db/log_reader.cc\<close>. The files are parameters: the operations of \<open>WritableFile\<close> and
  \<open>SequentialFile\<close> on an abstract state, so every sequence of errors is possible; the layout
  and the round trips are proved for a file in memory. The loop of \<open>ReadRecord\<close> may not end on
  a file that never does, and is a partial function.
\<close>

unbundle bit_operations_syntax

subsection \<open>Status\<close>

text \<open>\<open>util/status.cc\<close>: the codes, with the message the error carries.\<close>

datatype Status =
  OK | NotFound string | Corruption string | NotSupported string | InvalidArgument string | IOError string

subsection \<open>Record format (\<open>db/log_format.h\<close>)\<close>

datatype RecordType = kZeroType | kFullType | kFirstType | kMiddleType | kLastType

fun type_code :: "RecordType \<Rightarrow> byte" where
  "type_code kZeroType = 0"
| "type_code kFullType = 1"
| "type_code kFirstType = 2"
| "type_code kMiddleType = 3"
| "type_code kLastType = 4"

definition kMaxRecordType :: u32 where "kMaxRecordType = 4"

definition kBlockSize :: nat where "kBlockSize = 32768"

definition kHeaderSize :: nat where "kHeaderSize = 4 + 2 + 1"

subsection \<open>The writer (\<open>db/log_writer.cc\<close>)\<close>

text \<open>The operations of \<open>WritableFile\<close> the writer calls, on an abstract file.\<close>

record 'f writable_ops =
  Append_op :: "byte list \<Rightarrow> 'f \<Rightarrow> Status \<times> 'f"
  Flush_op :: "'f \<Rightarrow> Status \<times> 'f"

record 'f log_writer =
  log_dest :: 'f
  block_offset :: nat
  type_crc :: "u32 list"

definition InitTypeCrc :: "u32 list" where
  "InitTypeCrc = map (\<lambda>i. Value [word_of_nat i]) [0..<Suc (unat kMaxRecordType)]"

definition Writer :: "'f \<Rightarrow> nat \<Rightarrow> 'f log_writer" where
  "Writer file dest_length =
     \<lparr>log_dest = file, block_offset = dest_length mod kBlockSize, type_crc = InitTypeCrc\<rparr>"

text \<open>\<open>block_offset_\<close> advances also when the file reports an error.\<close>

definition EmitPhysicalRecord ::
  "'f writable_ops \<Rightarrow> RecordType \<Rightarrow> byte list \<Rightarrow> 'f log_writer \<Rightarrow> Status \<times> 'f log_writer" where
  "EmitPhysicalRecord file_ops t ptr w =
     (let n = length ptr;
          crc = crc_extend (type_crc w ! unat (type_code t)) ptr;
          crc = Mask crc;
          buf = EncodeFixed32 crc @ [word_of_nat n, word_of_nat (drop_bit 8 n), type_code t];
          (s, f) = Append_op file_ops buf (log_dest w);
          (s, f) =
            (if s = OK
             then case Append_op file_ops ptr f of
                    (s, f) \<Rightarrow> if s = OK then Flush_op file_ops f else (s, f)
             else (s, f))
      in (s, w\<lparr>log_dest := f, block_offset := block_offset w + (kHeaderSize + n)\<rparr>))"

text \<open>Before a fragment: the rest of a block too short for a header is filled with zeros.\<close>

definition switch_block :: "'f writable_ops \<Rightarrow> 'f log_writer \<Rightarrow> 'f log_writer" where
  "switch_block file_ops w =
     (let leftover = kBlockSize - block_offset w
      in if leftover < kHeaderSize
         then
           let w = (if leftover > 0
                    then w\<lparr>log_dest := snd (Append_op file_ops (replicate leftover 0) (log_dest w))\<rparr>
                    else w)
           in w\<lparr>block_offset := 0\<rparr>
         else w)"

definition fragment_type :: "bool \<Rightarrow> bool \<Rightarrow> RecordType" where
  "fragment_type begin end' =
     (if begin \<and> end' then kFullType
      else if begin then kFirstType
      else if end' then kLastType
      else kMiddleType)"

lemma Emit_offset [simp]:
  "block_offset (snd (EmitPhysicalRecord ops t p w)) = block_offset w + (kHeaderSize + length p)"
  by (simp add: EmitPhysicalRecord_def Let_def split: prod.splits)

lemma switch_block_offset:
  "block_offset (switch_block ops w)
   = (if kBlockSize - block_offset w < kHeaderSize then 0 else block_offset w)"
  by (simp add: switch_block_def Let_def)

function AddRecordLoop ::
  "'f writable_ops \<Rightarrow> bool \<Rightarrow> byte list \<Rightarrow> 'f log_writer \<Rightarrow> Status \<times> 'f log_writer" where
  "AddRecordLoop file_ops begin ptr w =
     (let w = switch_block file_ops w;
          left = length ptr;
          avail = kBlockSize - block_offset w - kHeaderSize;
          fragment_length = (if left < avail then left else avail);
          end' = (left = fragment_length);
          sw = EmitPhysicalRecord file_ops (fragment_type begin end') (take fragment_length ptr) w;
          ptr = drop fragment_length ptr
      in if fst sw = OK \<and> ptr \<noteq> [] then AddRecordLoop file_ops False ptr (snd sw) else sw)"
  by pat_completeness auto
termination
proof (relation "measure (\<lambda>(ops, b, p, w). 2 * length p
    + (if kBlockSize - block_offset (switch_block ops w) = kHeaderSize then 1 else 0))", goal_cases)
  case (2 ops b p w w' l a n e s q)
  then show ?case
    by (cases "a = 0") (auto simp: switch_block_offset kBlockSize_def kHeaderSize_def)
qed simp

declare AddRecordLoop.simps [simp del]

definition AddRecord ::
  "'f writable_ops \<Rightarrow> byte list \<Rightarrow> 'f log_writer \<Rightarrow> Status \<times> 'f log_writer" where
  "AddRecord file_ops data w = AddRecordLoop file_ops True data w"

subsection \<open>The reader (\<open>db/log_reader.cc\<close>)\<close>

text \<open>
  The operations of \<open>SequentialFile\<close> the reader calls. The reporter is the list of drops it
  was told of; a \<open>Slice\<close> into the backing store is its bytes.
\<close>

record 'f sequential_ops =
  Read_op :: "nat \<Rightarrow> 'f \<Rightarrow> Status \<times> byte list \<times> 'f"
  Skip_op :: "u64 \<Rightarrow> 'f \<Rightarrow> Status \<times> 'f"

record 'f log_reader =
  rd_file :: 'f
  has_reporter :: bool
  reports :: "(u64 \<times> Status) list"
  checksum :: bool
  buffer :: "byte list"
  at_eof :: bool
  last_record_offset :: u64
  end_of_buffer_offset :: u64
  initial_offset :: u64
  resyncing :: bool

definition kEof :: u32 where "kEof = kMaxRecordType + 1"

definition kBadRecord :: u32 where "kBadRecord = kMaxRecordType + 2"

definition Reader :: "'f \<Rightarrow> bool \<Rightarrow> bool \<Rightarrow> u64 \<Rightarrow> 'f log_reader" where
  "Reader f reporter check initial =
     \<lparr>rd_file = f, has_reporter = reporter, reports = [], checksum = check, buffer = [],
      at_eof = False, last_record_offset = 0, end_of_buffer_offset = 0,
      initial_offset = initial, resyncing = (initial > 0)\<rparr>"

definition buffer_size :: "'f log_reader \<Rightarrow> u64" where
  "buffer_size r = word_of_nat (length (buffer r))"

definition ReportDrop :: "u64 \<Rightarrow> Status \<Rightarrow> 'f log_reader \<Rightarrow> 'f log_reader" where
  "ReportDrop bytes reason r =
     (if has_reporter r \<and> end_of_buffer_offset r - buffer_size r - bytes \<ge> initial_offset r
      then r\<lparr>reports := reports r @ [(bytes, reason)]\<rparr> else r)"

definition ReportCorruption :: "u64 \<Rightarrow> string \<Rightarrow> 'f log_reader \<Rightarrow> 'f log_reader" where
  "ReportCorruption bytes reason r = ReportDrop bytes (Corruption reason) r"

definition SkipToInitialBlock :: "'f sequential_ops \<Rightarrow> 'f log_reader \<Rightarrow> bool \<times> 'f log_reader" where
  "SkipToInitialBlock file_ops r =
     (let block = word_of_nat kBlockSize;
          offset_in_block = initial_offset r mod block;
          block_start_location = initial_offset r - offset_in_block;
          block_start_location =
            (if offset_in_block > block - 6 then block_start_location + block
             else block_start_location);
          r = r\<lparr>end_of_buffer_offset := block_start_location\<rparr>
      in if block_start_location > 0
         then case Skip_op file_ops block_start_location (rd_file r) of
                (s, f) \<Rightarrow>
                  let r = r\<lparr>rd_file := f\<rparr>
                  in if s \<noteq> OK then (False, ReportDrop block_start_location s r) else (True, r)
         else (True, r))"

text \<open>
  One physical record: its type, the fragment (unchanged where the code leaves the caller's
  slice alone) and the reader. The first equation is the refill at the top of the loop.
\<close>

definition header_length :: "byte list \<Rightarrow> nat" where
  "header_length header =
     (let a = ucast (header ! 4) AND 0xff;
          b = ucast (header ! 5) AND 0xff
      in unat (a OR push_bit 8 b :: u32))"

definition ParsePhysicalRecord :: "byte list \<Rightarrow> 'f log_reader \<Rightarrow> u32 \<times> byte list \<times> 'f log_reader" where
  "ParsePhysicalRecord result r =
     (let header = buffer r;
          type = scast (header ! 6);
          len = header_length header
      in if kHeaderSize + len > length (buffer r)
         then
           let drop_size = buffer_size r;
               r = r\<lparr>buffer := []\<rparr>
           in if \<not> at_eof r
              then (kBadRecord, result, ReportCorruption drop_size ''bad record length'' r)
              else (kEof, result, r)
         else if type = scast (type_code kZeroType) \<and> len = 0
         then (kBadRecord, result, r\<lparr>buffer := []\<rparr>)
         else if checksum r \<and> Value (take (1 + len) (drop 6 header)) \<noteq> Unmask (DecodeFixed32 header)
         then
           let drop_size = buffer_size r;
               r = r\<lparr>buffer := []\<rparr>
           in (kBadRecord, result, ReportCorruption drop_size ''checksum mismatch'' r)
         else
           let r = r\<lparr>buffer := drop (kHeaderSize + len) (buffer r)\<rparr>
           in if end_of_buffer_offset r - buffer_size r - word_of_nat kHeaderSize - word_of_nat len
                 < initial_offset r
              then (kBadRecord, [], r)
              else (type, take len (drop kHeaderSize header), r))"

function ReadPhysicalRecord ::
  "'f sequential_ops \<Rightarrow> byte list \<Rightarrow> 'f log_reader \<Rightarrow> u32 \<times> byte list \<times> 'f log_reader" where
  "ReadPhysicalRecord file_ops result r =
     (if length (buffer r) < kHeaderSize
      then
        if \<not> at_eof r
        then
          let srf = Read_op file_ops kBlockSize (rd_file r);
              r = r\<lparr>rd_file := snd (snd srf), buffer := fst (snd srf),
                    end_of_buffer_offset :=
                      end_of_buffer_offset r + word_of_nat (length (fst (snd srf)))\<rparr>
          in if fst srf \<noteq> OK
             then
               let r = ReportDrop (word_of_nat kBlockSize) (fst srf) (r\<lparr>buffer := []\<rparr>)
               in (kEof, result, r\<lparr>at_eof := True\<rparr>)
             else if length (buffer r) < kBlockSize
             then ReadPhysicalRecord file_ops result (r\<lparr>at_eof := True\<rparr>)
             else ReadPhysicalRecord file_ops result r
        else (kEof, result, r\<lparr>buffer := []\<rparr>)
      else ParsePhysicalRecord result r)"
  by pat_completeness auto
termination
  by (relation "measure (\<lambda>(ops, x, r). if length (buffer r) < kHeaderSize \<and> \<not> at_eof r then 1 else 0)")
    (auto simp: kBlockSize_def kHeaderSize_def)

declare ReadPhysicalRecord.simps [simp del]

text \<open>
  The variables of \<open>ReadRecord\<close>: whether a fragmented record is open, the offset of the
  record being read, the scratch string and the last fragment. An iteration of its loop
  goes on or returns the record, \<open>None\<close> for \<open>false\<close>. The message for an unknown type
  leaves out the number that the code prints into it.
\<close>

record read_vars =
  in_fragmented_record :: bool
  prospective_record_offset :: u64
  scratch :: "byte list"
  fragment :: "byte list"

datatype 'f read_step =
  Again read_vars "'f log_reader"
| Return "byte list option" "'f log_reader"

definition scratch_size :: "read_vars \<Rightarrow> u64" where
  "scratch_size v = word_of_nat (length (scratch v))"

text \<open>A fragmented record that a new record interrupts.\<close>

definition interrupted :: "string \<Rightarrow> read_vars \<Rightarrow> 'f log_reader \<Rightarrow> read_vars \<times> 'f log_reader" where
  "interrupted msg v r =
     (if in_fragmented_record v
      then if scratch v = [] then (v\<lparr>in_fragmented_record := False\<rparr>, r)
           else (v, ReportCorruption (scratch_size v) msg r)
      else (v, r))"

definition HandleRecord :: "u32 \<Rightarrow> u64 \<Rightarrow> read_vars \<Rightarrow> 'f log_reader \<Rightarrow> 'f read_step" where
  "HandleRecord record_type physical_record_offset v r =
     (if record_type = 1
      then case interrupted ''partial record without end(1)'' v r of
             (v, r) \<Rightarrow> Return (Some (fragment v)) (r\<lparr>last_record_offset := physical_record_offset\<rparr>)
      else if record_type = 2
      then case interrupted ''partial record without end(2)'' v r of
             (v, r) \<Rightarrow>
               Again (v\<lparr>prospective_record_offset := physical_record_offset,
                        scratch := fragment v, in_fragmented_record := True\<rparr>) r
      else if record_type = 3
      then
        if \<not> in_fragmented_record v
        then Again v (ReportCorruption (word_of_nat (length (fragment v)))
               ''missing start of fragmented record(1)'' r)
        else Again (v\<lparr>scratch := scratch v @ fragment v\<rparr>) r
      else if record_type = 4
      then
        if \<not> in_fragmented_record v
        then Again v (ReportCorruption (word_of_nat (length (fragment v)))
               ''missing start of fragmented record(2)'' r)
        else Return (Some (scratch v @ fragment v))
               (r\<lparr>last_record_offset := prospective_record_offset v\<rparr>)
      else if record_type = kEof then Return None r
      else if record_type = kBadRecord
      then
        if in_fragmented_record v
        then Again (v\<lparr>in_fragmented_record := False, scratch := []\<rparr>)
               (ReportCorruption (scratch_size v) ''error in middle of record'' r)
        else Again v r
      else
        Again (v\<lparr>in_fragmented_record := False, scratch := []\<rparr>)
          (ReportCorruption (word_of_nat (length (fragment v))
             + (if in_fragmented_record v then scratch_size v else 0)) ''unknown record type'' r))"

definition ReadRecordBody :: "'f sequential_ops \<Rightarrow> read_vars \<Rightarrow> 'f log_reader \<Rightarrow> 'f read_step" where
  "ReadRecordBody file_ops v r =
     (case ReadPhysicalRecord file_ops (fragment v) r of
        (record_type, frag, r) \<Rightarrow>
          let v = v\<lparr>fragment := frag\<rparr>;
              physical_record_offset =
                end_of_buffer_offset r - buffer_size r - word_of_nat kHeaderSize
                - word_of_nat (length frag)
          in if resyncing r
             then
               if record_type = 3 then Again v r
               else if record_type = 4 then Again v (r\<lparr>resyncing := False\<rparr>)
               else HandleRecord record_type physical_record_offset v (r\<lparr>resyncing := False\<rparr>)
             else HandleRecord record_type physical_record_offset v r)"

partial_function (option) ReadRecordLoop ::
  "'f sequential_ops \<Rightarrow> read_vars \<Rightarrow> 'f log_reader \<Rightarrow> (byte list option \<times> 'f log_reader) option" where
  "ReadRecordLoop file_ops v r =
     (case ReadRecordBody file_ops v r of
        Return x r \<Rightarrow> Some (x, r)
      | Again v r \<Rightarrow> ReadRecordLoop file_ops v r)"

definition ReadRecord ::
  "'f sequential_ops \<Rightarrow> 'f log_reader \<Rightarrow> (byte list option \<times> 'f log_reader) option" where
  "ReadRecord file_ops r =
     (let sk = (if last_record_offset r < initial_offset r then SkipToInitialBlock file_ops r
                else (True, r))
      in if \<not> fst sk then Some (None, snd sk)
         else
           ReadRecordLoop file_ops
             \<lparr>in_fragmented_record = False, prospective_record_offset = 0, scratch = [], fragment = []\<rparr>
             (snd sk))"

definition LastRecordOffset :: "'f log_reader \<Rightarrow> u64" where
  "LastRecordOffset r = last_record_offset r"

subsection \<open>The layout of a log\<close>

text \<open>
  A file in memory, the bytes of a physical record, and of a sequence of fragments written
  from an offset in a block. \<open>pad\<close> bytes of zeros come first when the block has no room for
  a header.
\<close>

definition mem_writable :: "byte list writable_ops" where
  "mem_writable = \<lparr>Append_op = (\<lambda>bs f. (OK, f @ bs)), Flush_op = (\<lambda>f. (OK, f))\<rparr>"

definition mem_sequential :: "byte list sequential_ops" where
  "mem_sequential = \<lparr>Read_op = (\<lambda>n f. (OK, take n f, drop n f)), Skip_op = (\<lambda>n f. (OK, drop (unat n) f))\<rparr>"

definition phys_header :: "RecordType \<Rightarrow> byte list \<Rightarrow> byte list" where
  "phys_header t d = EncodeFixed32 (Mask (Value (type_code t # d))) @
     [word_of_nat (length d), word_of_nat (drop_bit 8 (length d)), type_code t]"

definition phys :: "RecordType \<Rightarrow> byte list \<Rightarrow> byte list" where
  "phys t d = phys_header t d @ d"

definition pad :: "nat \<Rightarrow> nat" where
  "pad bo = (if kBlockSize - bo < kHeaderSize then kBlockSize - bo else 0)"

definition block_start :: "nat \<Rightarrow> nat" where
  "block_start bo = (if kBlockSize - bo < kHeaderSize then 0 else bo)"

type_synonym fragments = "(RecordType \<times> byte list) list"

fun emit_frags :: "nat \<Rightarrow> fragments \<Rightarrow> byte list" where
  "emit_frags bo [] = []"
| "emit_frags bo ((t, d) # fs) = replicate (pad bo) 0 @ phys t d @ emit_frags (block_start bo + kHeaderSize + length d) fs"

fun final :: "nat \<Rightarrow> fragments \<Rightarrow> nat" where
  "final bo [] = bo"
| "final bo ((t, d) # fs) = final (block_start bo + kHeaderSize + length d) fs"

fun fits_block :: "nat \<Rightarrow> fragments \<Rightarrow> bool" where
  "fits_block bo [] \<longleftrightarrow> bo \<le> kBlockSize"
| "fits_block bo ((t, d) # fs) \<longleftrightarrow> block_start bo + kHeaderSize + length d \<le> kBlockSize \<and>
     fits_block (block_start bo + kHeaderSize + length d) fs"

fun is_tail :: "fragments \<Rightarrow> bool" where
  "is_tail [] = False"
| "is_tail [(t, d)] = (t = kLastType)"
| "is_tail ((t, d) # fs) = (t = kMiddleType \<and> is_tail fs)"

fun is_record :: "fragments \<Rightarrow> bool" where
  "is_record [] = False"
| "is_record [(t, d)] = (t = kFullType)"
| "is_record ((t, d) # fs) = (t = kFirstType \<and> is_tail fs)"

definition payload :: "fragments \<Rightarrow> byte list" where
  "payload fs = concat (map snd fs)"

lemma payload_simps [simp]: "payload [] = []" "payload ((t, d) # fs) = d @ payload fs"
  by (simp_all add: payload_def)

lemma is_tail_Cons: "is_tail ((t, d) # fs) = (if fs = [] then t = kLastType else t = kMiddleType \<and> is_tail fs)"
  by (cases fs) auto

lemma is_record_Cons: "is_record ((t, d) # fs) = (if fs = [] then t = kFullType else t = kFirstType \<and> is_tail fs)"
  by (cases fs) auto

lemma phys_header_length [simp]: "length (phys_header t d) = kHeaderSize"
  by (simp add: phys_header_def kHeaderSize_def)

lemma phys_length [simp]: "length (phys t d) = kHeaderSize + length d"
  by (simp add: phys_def)

lemma emit_append: "emit_frags bo (fs @ gs) = emit_frags bo fs @ emit_frags (final bo fs) gs"
  by (induction bo fs rule: emit_frags.induct) simp_all

lemma final_append: "final bo (fs @ gs) = final (final bo fs) gs"
  by (induction bo fs rule: final.induct) simp_all

lemma fits_append: "fits_block bo fs \<Longrightarrow> fits_block bo (fs @ gs) = fits_block (final bo fs) gs"
  by (induction bo fs rule: fits_block.induct) simp_all

lemma fits_split: "fits_block bo (fs @ gs) \<Longrightarrow> bo \<le> kBlockSize \<Longrightarrow> fits_block bo fs"
  by (induction bo fs rule: fits_block.induct) simp_all

lemma fits_final: "fits_block bo fs \<Longrightarrow> final bo fs \<le> kBlockSize"
  by (induction bo fs rule: fits_block.induct) simp_all

subsection \<open>The writer lays records out as fragments\<close>

lemma InitTypeCrc_nth: "InitTypeCrc ! unat (type_code t) = Value [type_code t]"
  by (cases t) (simp_all add: InitTypeCrc_def kMaxRecordType_def upt_rec)

lemma Emit_mem:
  assumes "type_crc w = InitTypeCrc"
  shows "EmitPhysicalRecord mem_writable t p w =
    (OK, w\<lparr>log_dest := log_dest w @ phys t p, block_offset := block_offset w + (kHeaderSize + length p)\<rparr>)"
  using assms
  by (simp add: EmitPhysicalRecord_def Let_def mem_writable_def phys_def phys_header_def
      InitTypeCrc_nth Value_extend)

lemma switch_mem:
  "switch_block mem_writable w =
   w\<lparr>log_dest := log_dest w @ replicate (pad (block_offset w)) 0, block_offset := block_start (block_offset w)\<rparr>"
  by (simp add: switch_block_def Let_def mem_writable_def pad_def block_start_def)

definition progress :: "byte list \<Rightarrow> 'f log_writer \<Rightarrow> nat" where
  "progress p w = 2 * length p + (if block_offset w + kHeaderSize = kBlockSize then 1 else 0)"

lemma AddRecordLoop_step:
  assumes "type_crc w = InitTypeCrc"
  defines "bo \<equiv> block_offset w"
  shows "\<exists>d q w'. p = d @ q \<and> fits_block bo [(fragment_type b (q = []), d)] \<and>
    w' = w\<lparr>log_dest := log_dest w @ emit_frags bo [(fragment_type b (q = []), d)],
           block_offset := block_start bo + kHeaderSize + length d\<rparr> \<and>
    AddRecordLoop mem_writable b p w =
      (if q = [] then (OK, w') else AddRecordLoop mem_writable False q w') \<and>
    (q \<noteq> [] \<longrightarrow> progress q w' < progress p w)"
proof -
  define a where "a = kBlockSize - block_start bo - kHeaderSize"
  define n where "n = (if length p < a then length p else a)"
  define d where "d = take n p"
  define q where "q = drop n p"
  define t where "t = fragment_type b (q = [])"
  define w' where "w' = w\<lparr>log_dest := log_dest w @ replicate (pad bo) 0 @ phys t d,
              block_offset := block_start bo + kHeaderSize + length d\<rparr>"
  have n: "n \<le> length p" "n \<le> a" "(length p = n) = (q = [])" by (auto simp: n_def q_def)
  have a: "block_start bo + kHeaderSize + a = kBlockSize"
    by (auto simp: a_def block_start_def kBlockSize_def kHeaderSize_def)
  have d: "length d = n" "p = d @ q" using n by (simp_all add: d_def q_def)
  define w1 where "w1 = switch_block mem_writable w"
  have o: "block_offset w1 = block_start bo" by (simp add: w1_def switch_mem bo_def)
  have e: "EmitPhysicalRecord mem_writable t d w1 = (OK, w')"
    using assms(1) by (simp add: Emit_mem w1_def switch_mem w'_def bo_def add.assoc)
  have step: "AddRecordLoop mem_writable b p w =
      (if q = [] then (OK, w') else AddRecordLoop mem_writable False q w')"
    unfolding AddRecordLoop.simps [of mem_writable b p w] Let_def w1_def [symmetric] o
      a_def [symmetric] n_def [symmetric] n(3) d_def [symmetric] q_def [symmetric]
      t_def [symmetric] e by simp
  have "progress q w' < progress p w" if "q \<noteq> []"
  proof (cases "n = 0")
    case True
    with that n(3) have "a = 0" by (auto simp: n_def split: if_splits)
    with a True d show ?thesis
      by (auto simp: progress_def w'_def bo_def block_start_def kBlockSize_def kHeaderSize_def split: if_splits)
  next
    case False
    with d show ?thesis by (auto simp: progress_def)
  qed
  then show ?thesis
    using d a n(2) step
    by (intro exI [of _ d] exI [of _ q] exI [of _ w']) (auto simp: w'_def t_def)
qed

lemma AddRecordLoop_mem:
  assumes "type_crc w = InitTypeCrc"
  shows "\<exists>fs. AddRecordLoop mem_writable b p w =
      (OK, w\<lparr>log_dest := log_dest w @ emit_frags (block_offset w) fs, block_offset := final (block_offset w) fs\<rparr>) \<and>
    fits_block (block_offset w) fs \<and> payload fs = p \<and> (if b then is_record fs else is_tail fs)"
  using assms
proof (induction "progress p w" arbitrary: b p w rule: less_induct)
  case less
  let ?bo = "block_offset w"
  obtain d q w' where s: "p = d @ q" "fits_block ?bo [(fragment_type b (q = []), d)]"
    "w' = w\<lparr>log_dest := log_dest w @ emit_frags ?bo [(fragment_type b (q = []), d)],
           block_offset := block_start ?bo + kHeaderSize + length d\<rparr>"
    "AddRecordLoop mem_writable b p w = (if q = [] then (OK, w') else AddRecordLoop mem_writable False q w')"
    "q \<noteq> [] \<longrightarrow> progress q w' < progress p w"
    using AddRecordLoop_step [OF less(2)] by metis
  show ?case
  proof (cases "q = []")
    case True
    with s show ?thesis
      by (intro exI [of _ "[(fragment_type b True, d)]"]) (auto simp: fragment_type_def)
  next
    case False
    from less(1) [of q w' False] s(3,5) False less(2) obtain gs where g:
      "AddRecordLoop mem_writable False q w' =
        (OK, w'\<lparr>log_dest := log_dest w' @ emit_frags (block_offset w') gs, block_offset := final (block_offset w') gs\<rparr>)"
      "fits_block (block_offset w') gs" "payload gs = q" "is_tail gs"
      by auto
    from g(4) have "gs \<noteq> []" by auto
    with False s g show ?thesis
      by (intro exI [of _ "(fragment_type b False, d) # gs"])
        (auto simp: fragment_type_def is_tail_Cons is_record_Cons)
  qed
qed

subsection \<open>Reading one physical record\<close>

lemma length_field:
  assumes "n < 65536"
  shows "unat ((ucast (word_of_nat n :: byte) AND 0xff) OR
    push_bit 8 (ucast (word_of_nat (drop_bit 8 n) :: byte) AND 0xff) :: u32) = n" (is "unat ?w = n")
proof -
  have t: "take_bit 16 n = n" using assms by (simp add: take_bit_nat_eq_self)
  have b: "bit n m \<longleftrightarrow> m < 16 \<and> bit n m" for m
    by (subst (1) t [symmetric]) (simp add: bit_take_bit_iff)
  have "?w = word_of_nat n"
    unfolding mask_FF
  proof (rule bit_word_eqI)
    fix m assume "m < LENGTH(32)"
    then show "bit ((ucast (word_of_nat n :: byte) AND mask 8) OR
        push_bit 8 (ucast (word_of_nat (drop_bit 8 n) :: byte) AND mask 8) :: u32) m
        = bit (word_of_nat n :: u32) m"
      using b [of m] by (cases "m < 8"; cases "m < 16") (auto simp: bit_simps)
  qed
  then show ?thesis using assms by (simp add: unat_of_nat)
qed

lemma phys_nth [simp]:
  "(phys t d @ z) ! 4 = word_of_nat (length d)"
  "(phys t d @ z) ! 5 = word_of_nat (drop_bit 8 (length d))"
  "(phys t d @ z) ! 6 = type_code t"
  by (simp_all add: phys_def phys_header_def nth_append)

lemma phys_crc: "DecodeFixed32 (phys t d @ z) = Mask (Value (type_code t # d))"
  by (simp add: phys_def phys_header_def DecodeFixed32_Encode)

lemma phys_drop6: "drop 6 (phys t d @ z) = type_code t # d @ z"
  by (simp add: phys_def phys_header_def)

lemma phys_drop_header: "drop kHeaderSize (phys t d @ z) = d @ z"
  by (simp add: phys_def)

lemma header_length_phys: "length d < 65536 \<Longrightarrow> header_length (phys t d @ z) = length d"
  unfolding header_length_def Let_def phys_nth by (rule length_field)

lemma scast_type: "(scast (type_code t) :: u32) = scast (type_code u) \<longleftrightarrow> t = u"
  by (cases t; cases u) simp_all

lemma Parse_phys:
  assumes "buffer r = phys t d @ z" and "t \<noteq> kZeroType" and "length d < 65536" and "initial_offset r = 0"
  shows "ParsePhysicalRecord x r = (scast (type_code t), d, r\<lparr>buffer := z\<rparr>)"
proof -
  define h where "h = phys t d @ z"
  have "buffer r = h" using assms(1) by (simp add: h_def)
  moreover have "h ! 6 = type_code t" "header_length h = length d"
    "DecodeFixed32 h = Mask (Value (type_code t # d))"
    "take (1 + length d) (drop 6 h) = type_code t # d"
    "drop (kHeaderSize + length d) h = z" "take (length d) (drop kHeaderSize h) = d"
    "\<not> kHeaderSize + length d > length h"
    using assms(3) by (simp_all only: h_def phys_nth header_length_phys phys_crc phys_drop6 phys_drop_header)
      simp_all
  ultimately show ?thesis
    using assms(2,4) by (simp only: ParsePhysicalRecord_def Let_def Unmask_Mask scast_type) simp
qed

lemma Parse_cut:
  assumes "buffer r = take k (phys t d)" and "kHeaderSize \<le> k" and "k < kHeaderSize + length d"
    and "length d < 65536" and "at_eof r"
  shows "ParsePhysicalRecord x r = (kEof, x, r\<lparr>buffer := []\<rparr>)"
proof -
  have h: "buffer r ! i = (phys t d @ []) ! i" if "i < 7" for i
    using assms(1-3) that by (simp add: kHeaderSize_def)
  have "header_length (buffer r) = header_length (phys t d @ [])"
    unfolding header_length_def by (simp only: h)
  then have "header_length (buffer r) = length d"
    by (simp only: header_length_phys [OF assms(4)])
  moreover have "length (buffer r) = k" using assms(1,3) by simp
  ultimately show ?thesis
    using assms(3,5) by (simp only: ParsePhysicalRecord_def Let_def) simp
qed

text \<open>
  The reader stands at offset \<open>bo\<close> of a block and the bytes \<open>x\<close> are still to come: those of
  the block in the buffer, the others in the file.
\<close>

definition sync :: "byte list log_reader \<Rightarrow> nat \<Rightarrow> byte list \<Rightarrow> bool" where
  "sync r bo x \<longleftrightarrow>
     initial_offset r = 0 \<and> \<not> resyncing r \<and> bo \<le> kBlockSize \<and>
     buffer r = take (kBlockSize - bo) x \<and> rd_file r = drop (kBlockSize - bo) x \<and>
     (if at_eof r then length x \<le> kBlockSize - bo else kBlockSize - bo \<le> length x)"

definition refilled :: "byte list log_reader \<Rightarrow> byte list log_reader" where
  "refilled r =
     r\<lparr>rd_file := drop kBlockSize (rd_file r), buffer := take kBlockSize (rd_file r),
       end_of_buffer_offset :=
         end_of_buffer_offset r + word_of_nat (length (take kBlockSize (rd_file r))),
       at_eof := length (rd_file r) < kBlockSize\<rparr>"

lemma refill:
  assumes "length (buffer r) < kHeaderSize" and "\<not> at_eof r"
  shows "ReadPhysicalRecord mem_sequential x r = ReadPhysicalRecord mem_sequential x (refilled r)"
proof -
  have e: "ReadPhysicalRecord mem_sequential x r =
    (let q = r\<lparr>rd_file := drop kBlockSize (rd_file r), buffer := take kBlockSize (rd_file r),
              end_of_buffer_offset := end_of_buffer_offset r
                + word_of_nat (length (take kBlockSize (rd_file r)))\<rparr>
     in if length (rd_file r) < kBlockSize then ReadPhysicalRecord mem_sequential x (q\<lparr>at_eof := True\<rparr>)
        else ReadPhysicalRecord mem_sequential x q)"
    using assms(1,2) by (subst ReadPhysicalRecord.simps) (auto simp: mem_sequential_def Let_def min_def)
  show ?thesis
  proof (cases "length (rd_file r) < kBlockSize")
    case True
    with e show ?thesis by (simp add: Let_def refilled_def)
  next
    case False
    with e assms(2) show ?thesis by (cases r) (simp add: Let_def refilled_def)
  qed
qed

lemma sync_refill:
  assumes "sync r bo x" and "kBlockSize - bo < kHeaderSize" and "\<not> at_eof r"
  shows "ReadPhysicalRecord mem_sequential f r = ReadPhysicalRecord mem_sequential f (refilled r)"
    and "sync (refilled r) 0 (drop (kBlockSize - bo) x)" and "reports (refilled r) = reports r"
proof -
  have "length (buffer r) < kHeaderSize" using assms by (simp add: sync_def)
  then show "ReadPhysicalRecord mem_sequential f r = ReadPhysicalRecord mem_sequential f (refilled r)"
    by (rule refill [OF _ assms(3)])
qed (use assms in \<open>auto simp: sync_def refilled_def\<close>)

lemma read_parse: "kHeaderSize \<le> length (buffer r) \<Longrightarrow>
   ReadPhysicalRecord ops x r = ParsePhysicalRecord x r"
  by (simp add: ReadPhysicalRecord.simps [of ops x r])

lemma read_eof: "length (buffer r) < kHeaderSize \<Longrightarrow> at_eof r \<Longrightarrow>
   ReadPhysicalRecord ops x r = (kEof, x, r\<lparr>buffer := []\<rparr>)"
  by (simp add: ReadPhysicalRecord.simps [of ops x r])

lemma sync_phys0:
  assumes "sync r bo (phys t d @ y)" and "t \<noteq> kZeroType" and "bo + kHeaderSize + length d \<le> kBlockSize"
  shows "\<exists>r'. ReadPhysicalRecord mem_sequential x r = (scast (type_code t), d, r') \<and>
    sync r' (bo + kHeaderSize + length d) y \<and> reports r' = reports r"
proof -
  let ?n = "kBlockSize - bo - (kHeaderSize + length d)"
  let ?r = "r\<lparr>buffer := take ?n y\<rparr>"
  have b: "buffer r = phys t d @ take ?n y"
    using assms(1,3) by (simp add: sync_def)
  have "length d < 65536" using assms(3) by (simp add: kBlockSize_def)
  moreover have "initial_offset r = 0" using assms(1) by (simp add: sync_def)
  ultimately have "ReadPhysicalRecord mem_sequential x r = (scast (type_code t), d, ?r)"
    using b assms(2) by (simp add: read_parse Parse_phys)
  moreover have "sync ?r (bo + kHeaderSize + length d) y"
    using assms(1,3) by (auto simp: sync_def add.assoc split: if_splits)
  ultimately show ?thesis by auto
qed

lemma sync_phys:
  assumes "sync r bo (replicate (pad bo) 0 @ phys t d @ y)" and "t \<noteq> kZeroType"
    and "block_start bo + kHeaderSize + length d \<le> kBlockSize"
  shows "\<exists>r'. ReadPhysicalRecord mem_sequential x r = (scast (type_code t), d, r') \<and>
    sync r' (block_start bo + kHeaderSize + length d) y \<and> reports r' = reports r"
proof (cases "kBlockSize - bo < kHeaderSize")
  case True
  then have p: "pad bo = kBlockSize - bo" "block_start bo = 0" by (simp_all add: pad_def block_start_def)
  have "\<not> at_eof r" using assms(1) p by (auto simp: sync_def kHeaderSize_def split: if_splits)
  from sync_refill [OF assms(1) True this] p
  have e: "ReadPhysicalRecord mem_sequential x r = ReadPhysicalRecord mem_sequential x (refilled r)"
    "sync (refilled r) 0 (phys t d @ y)" "reports (refilled r) = reports r"
    by simp_all
  from sync_phys0 [OF e(2) assms(2), of x] assms(3) show ?thesis
    unfolding e(1) p(2) by (simp add: e(3))
next
  case False
  then have p: "pad bo = 0" "block_start bo = bo" by (simp_all add: pad_def block_start_def)
  from sync_phys0 [of r bo t d y x] assms p show ?thesis by simp
qed

text \<open>A file that ends inside a physical record, or between two of them, is at its end.\<close>

lemma sync_cut0:
  assumes "sync r bo (take k (phys t d))" and "k < kHeaderSize + length d"
    and "bo + kHeaderSize + length d \<le> kBlockSize"
  shows "\<exists>r'. ReadPhysicalRecord mem_sequential x r = (kEof, x, r') \<and> reports r' = reports r"
proof -
  have "at_eof r" using assms by (auto simp: sync_def split: if_splits)
  moreover have b: "buffer r = take k (phys t d)" using assms by (simp add: sync_def)
  moreover have "length d < 65536" using assms(3) by (simp add: kBlockSize_def)
  ultimately show ?thesis
  proof (cases "k < kHeaderSize")
    case True
    with \<open>at_eof r\<close> b show ?thesis by (simp add: read_eof)
  next
    case False
    with assms(2) b have "kHeaderSize \<le> length (buffer r)" by simp
    with False show ?thesis
      using Parse_cut [OF b _ assms(2) \<open>length d < 65536\<close> \<open>at_eof r\<close>] by (simp add: read_parse)
  qed
qed

lemma sync_cut:
  assumes "sync r bo (take k (replicate (pad bo) 0 @ phys t d))" and "k < pad bo + kHeaderSize + length d"
    and "block_start bo + kHeaderSize + length d \<le> kBlockSize"
  shows "\<exists>r'. ReadPhysicalRecord mem_sequential x r = (kEof, x, r') \<and> reports r' = reports r"
proof (cases "kBlockSize - bo < kHeaderSize")
  case True
  then have p: "pad bo = kBlockSize - bo" "block_start bo = 0" by (simp_all add: pad_def block_start_def)
  show ?thesis
  proof (cases "at_eof r")
    case True
    moreover have "length (buffer r) < kHeaderSize"
      using assms(1) \<open>kBlockSize - bo < kHeaderSize\<close> by (simp add: sync_def)
    ultimately show ?thesis by (simp add: read_eof)
  next
    case False
    note e = sync_refill [OF assms(1) True this]
    have "sync (refilled r) 0 (take (k - pad bo) (phys t d))"
      using e(2) p by (cases "k \<le> kBlockSize - bo") (simp_all add: min_def)
    moreover have "k - pad bo < kHeaderSize + length d" using assms(2) by (simp add: kHeaderSize_def)
    ultimately show ?thesis
      using sync_cut0 [of "refilled r" 0 "k - pad bo" t d x] assms(3) p(2)
      unfolding e(1) by (simp add: e(3))
  qed
next
  case False
  then have p: "pad bo = 0" "block_start bo = bo" by (simp_all add: pad_def block_start_def)
  from sync_cut0 [of r bo k t d x] assms p show ?thesis by simp
qed

lemma sync_end:
  assumes "sync r bo []"
  shows "\<exists>r'. ReadPhysicalRecord mem_sequential x r = (kEof, x, r') \<and> reports r' = reports r"
proof (cases "at_eof r")
  case True
  with assms show ?thesis by (simp add: sync_def read_eof kHeaderSize_def)
next
  case False
  with assms have "kBlockSize - bo < kHeaderSize" by (simp add: sync_def kHeaderSize_def)
  from sync_refill [OF assms this False]
  have "ReadPhysicalRecord mem_sequential x r = ReadPhysicalRecord mem_sequential x (refilled r)"
    "sync (refilled r) 0 []" "reports (refilled r) = reports r" by simp_all
  moreover from this have "at_eof (refilled r)" by (simp add: sync_def kBlockSize_def split: if_splits)
  ultimately show ?thesis by (simp add: read_eof sync_def kHeaderSize_def)
qed

subsection \<open>Reading a record\<close>

lemma type_codes:
  "scast (type_code kFullType) = (1 :: u32)" "scast (type_code kFirstType) = (2 :: u32)"
  "scast (type_code kMiddleType) = (3 :: u32)" "scast (type_code kLastType) = (4 :: u32)"
  by simp_all

lemma body_mem:
  assumes "ReadPhysicalRecord mem_sequential (fragment v) r = (t, frag, r')" and "\<not> resyncing r'"
  shows "\<exists>po. ReadRecordBody mem_sequential v r = HandleRecord t po (v\<lparr>fragment := frag\<rparr>) r'"
  using assms by (auto simp: ReadRecordBody_def Let_def)

lemma sync_static: "sync r bo x \<Longrightarrow> \<not> resyncing r"
  by (simp add: sync_def)

lemma sync_offset [simp]: "sync (r\<lparr>last_record_offset := n\<rparr>) bo x = sync r bo x"
  by (simp add: sync_def)

lemma read_tail:
  assumes "is_tail fs" and "fits_block bo fs" and "sync r bo (emit_frags bo fs @ y)" and "in_fragmented_record v"
  shows "\<exists>r'. ReadRecordLoop mem_sequential v r = Some (Some (scratch v @ payload fs), r') \<and>
    sync r' (final bo fs) y \<and> reports r' = reports r"
  using assms
proof (induction fs arbitrary: bo r v)
  case (Cons f fs)
  obtain t d where f: "f = (t, d)" by fastforce
  have t: "t \<noteq> kZeroType" using Cons(2) by (auto simp: f is_tail_Cons split: if_splits)
  let ?bo = "block_start bo + kHeaderSize + length d"
  from Cons(3,4) obtain r1 where r1:
    "ReadPhysicalRecord mem_sequential (fragment v) r = (scast (type_code t), d, r1)"
    "sync r1 ?bo (emit_frags ?bo fs @ y)" "reports r1 = reports r"
    using sync_phys [of r bo t d "emit_frags ?bo fs @ y" "fragment v"] t by (auto simp: f)
  from body_mem [OF r1(1) sync_static [OF r1(2)]] obtain po where
    b: "ReadRecordBody mem_sequential v r = HandleRecord (scast (type_code t)) po (v\<lparr>fragment := d\<rparr>) r1" ..
  show ?case
  proof (cases "fs = []")
    case True
    with Cons(2) have "t = kLastType" by (simp add: f)
    with b r1 True Cons(5) show ?thesis
      by (subst ReadRecordLoop.simps) (auto simp: HandleRecord_def f)
  next
    case False
    with Cons(2) have t: "t = kMiddleType" "is_tail fs" by (simp_all add: f is_tail_Cons)
    let ?v = "v\<lparr>fragment := d, scratch := scratch v @ d\<rparr>"
    from Cons(1) [OF t(2) _ r1(2), of ?v] Cons(3,5) r1(3) b t show ?thesis
      by (subst ReadRecordLoop.simps) (auto simp: HandleRecord_def f)
  qed
qed simp

lemma read_record:
  assumes "is_record fs" and "fits_block bo fs" and "sync r bo (emit_frags bo fs @ y)" and "\<not> in_fragmented_record v"
  shows "\<exists>r'. ReadRecordLoop mem_sequential v r = Some (Some (payload fs), r') \<and>
    sync r' (final bo fs) y \<and> reports r' = reports r"
proof -
  obtain t d gs where f: "fs = (t, d) # gs" using assms(1) by (cases fs) auto
  have t: "t \<noteq> kZeroType" using assms(1) by (auto simp: f is_record_Cons split: if_splits)
  let ?bo = "block_start bo + kHeaderSize + length d"
  from assms(2,3) obtain r1 where r1:
    "ReadPhysicalRecord mem_sequential (fragment v) r = (scast (type_code t), d, r1)"
    "sync r1 ?bo (emit_frags ?bo gs @ y)" "reports r1 = reports r"
    using sync_phys [of r bo t d "emit_frags ?bo gs @ y" "fragment v"] t by (auto simp: f)
  from body_mem [OF r1(1) sync_static [OF r1(2)]] obtain po where
    b: "ReadRecordBody mem_sequential v r = HandleRecord (scast (type_code t)) po (v\<lparr>fragment := d\<rparr>) r1" ..
  show ?thesis
  proof (cases "gs = []")
    case True
    with assms(1) have "t = kFullType" by (simp add: f)
    with b r1 True assms(4) show ?thesis
      by (subst ReadRecordLoop.simps) (auto simp: HandleRecord_def interrupted_def f)
  next
    case False
    with assms(1) have t: "t = kFirstType" "is_tail gs" by (simp_all add: f is_record_Cons)
    let ?v = "v\<lparr>fragment := d, prospective_record_offset := po, scratch := d, in_fragmented_record := True\<rparr>"
    from read_tail [OF t(2) _ r1(2), of ?v] assms(2,4) r1(3) b t show ?thesis
      by (subst ReadRecordLoop.simps) (auto simp: HandleRecord_def interrupted_def f)
  qed
qed

lemma eof_step:
  assumes "ReadPhysicalRecord mem_sequential (fragment v) r = (kEof, frag, r')"
  shows "\<exists>q. ReadRecordLoop mem_sequential v r = Some (None, q) \<and> reports q = reports r'"
  using assms
  by (subst ReadRecordLoop.simps)
    (simp add: ReadRecordBody_def Let_def HandleRecord_def kEof_def kBadRecord_def kMaxRecordType_def)

text \<open>The fragments of a record are read until the file ends.\<close>

lemma read_cut_step:
  assumes "sync r bo (take k (replicate (pad bo) 0 @ phys t d @ z))" and "t \<noteq> kZeroType"
    and "block_start bo + kHeaderSize + length d \<le> kBlockSize"
  shows "if k < pad bo + kHeaderSize + length d
    then \<exists>r'. ReadPhysicalRecord mem_sequential x r = (kEof, x, r') \<and> reports r' = reports r
    else \<exists>r'. ReadPhysicalRecord mem_sequential x r = (scast (type_code t), d, r') \<and>
      sync r' (block_start bo + kHeaderSize + length d) (take (k - (pad bo + kHeaderSize + length d)) z) \<and>
      reports r' = reports r"
proof (cases "k < pad bo + kHeaderSize + length d")
  case True
  then have e: "take k (replicate (pad bo) 0 @ phys t d @ z) = take k (replicate (pad bo) 0 @ phys t d)"
    by simp
  have "sync r bo (take k (replicate (pad bo) 0 @ phys t d))" using assms(1) unfolding e .
  from sync_cut [OF this True assms(3)] True show ?thesis by simp
next
  case False
  then have e: "take k (replicate (pad bo) 0 @ phys t d @ z)
      = replicate (pad bo) 0 @ phys t d @ take (k - (pad bo + kHeaderSize + length d)) z"
    by (simp add: add.assoc)
  have "sync r bo (replicate (pad bo) 0 @ phys t d @ take (k - (pad bo + kHeaderSize + length d)) z)"
    using assms(1) unfolding e .
  from sync_phys [OF this assms(2,3)] False show ?thesis by simp
qed

lemma read_tail_cut:
  assumes "is_tail fs" and "fits_block bo fs" and "sync r bo (take k (emit_frags bo fs))"
    and "k < length (emit_frags bo fs)" and "in_fragmented_record v"
  shows "\<exists>r'. ReadRecordLoop mem_sequential v r = Some (None, r') \<and> reports r' = reports r"
  using assms
proof (induction fs arbitrary: bo r v k)
  case (Cons f fs)
  obtain t d where f: "f = (t, d)" by fastforce
  have t: "t \<noteq> kZeroType" using Cons(2) by (auto simp: f is_tail_Cons split: if_splits)
  let ?bo = "block_start bo + kHeaderSize + length d"
  let ?l = "pad bo + kHeaderSize + length d"
  have c: "if k < ?l
    then \<exists>r'. ReadPhysicalRecord mem_sequential (fragment v) r = (kEof, fragment v, r') \<and> reports r' = reports r
    else \<exists>r'. ReadPhysicalRecord mem_sequential (fragment v) r = (scast (type_code t), d, r') \<and>
      sync r' ?bo (take (k - ?l) (emit_frags ?bo fs)) \<and> reports r' = reports r"
    by (rule read_cut_step) (use Cons(3,4) t in \<open>simp_all add: f\<close>)
  show ?case
  proof (cases "k < ?l")
    case True
    with c eof_step show ?thesis by metis
  next
    case False
    with c obtain r1 where r1:
      "ReadPhysicalRecord mem_sequential (fragment v) r = (scast (type_code t), d, r1)"
      "sync r1 ?bo (take (k - ?l) (emit_frags ?bo fs))" "reports r1 = reports r" by auto
    have "fs \<noteq> []" using False Cons(5) by (auto simp: f)
    with Cons(2) have m: "t = kMiddleType" "is_tail fs" by (simp_all add: f is_tail_Cons)
    from body_mem [OF r1(1) sync_static [OF r1(2)]] obtain po where
      b: "ReadRecordBody mem_sequential v r = HandleRecord (scast (type_code t)) po (v\<lparr>fragment := d\<rparr>) r1" ..
    let ?v = "v\<lparr>fragment := d, scratch := scratch v @ d\<rparr>"
    from Cons(1) [OF m(2) _ r1(2), of ?v] Cons(3,5,6) False r1(3) b m show ?thesis
      by (subst ReadRecordLoop.simps) (auto simp: HandleRecord_def f)
  qed
qed simp

lemma read_record_cut:
  assumes "is_record fs" and "fits_block bo fs" and "sync r bo (take k (emit_frags bo fs))"
    and "k < length (emit_frags bo fs)" and "\<not> in_fragmented_record v"
  shows "\<exists>r'. ReadRecordLoop mem_sequential v r = Some (None, r') \<and> reports r' = reports r"
proof -
  obtain t d gs where f: "fs = (t, d) # gs" using assms(1) by (cases fs) auto
  have t: "t \<noteq> kZeroType" using assms(1) by (auto simp: f is_record_Cons split: if_splits)
  let ?bo = "block_start bo + kHeaderSize + length d"
  let ?l = "pad bo + kHeaderSize + length d"
  have c: "if k < ?l
    then \<exists>r'. ReadPhysicalRecord mem_sequential (fragment v) r = (kEof, fragment v, r') \<and> reports r' = reports r
    else \<exists>r'. ReadPhysicalRecord mem_sequential (fragment v) r = (scast (type_code t), d, r') \<and>
      sync r' ?bo (take (k - ?l) (emit_frags ?bo gs)) \<and> reports r' = reports r"
    by (rule read_cut_step) (use assms(2,3) t in \<open>simp_all add: f\<close>)
  show ?thesis
  proof (cases "k < ?l")
    case True
    with c eof_step show ?thesis by metis
  next
    case False
    with c obtain r1 where r1:
      "ReadPhysicalRecord mem_sequential (fragment v) r = (scast (type_code t), d, r1)"
      "sync r1 ?bo (take (k - ?l) (emit_frags ?bo gs))" "reports r1 = reports r" by auto
    have "gs \<noteq> []" using False assms(4) by (auto simp: f)
    with assms(1) have m: "t = kFirstType" "is_tail gs" by (simp_all add: f is_record_Cons)
    from body_mem [OF r1(1) sync_static [OF r1(2)]] obtain po where
      b: "ReadRecordBody mem_sequential v r = HandleRecord (scast (type_code t)) po (v\<lparr>fragment := d\<rparr>) r1" ..
    let ?v = "v\<lparr>fragment := d, prospective_record_offset := po, scratch := d, in_fragmented_record := True\<rparr>"
    from read_tail_cut [OF m(2) _ r1(2), of ?v] assms(2,4,5) False r1(3) b m show ?thesis
      by (subst ReadRecordLoop.simps) (auto simp: HandleRecord_def interrupted_def f)
  qed
qed

subsection \<open>Whole logs\<close>

text \<open>
  The records a client adds one after the other, and the loop of a client that reads until
  \<open>ReadRecord\<close> returns \<open>false\<close>, as in \<open>PrintLogContents\<close> of \<open>db/dumpfile.cc\<close>.
\<close>

fun AddRecords :: "'f writable_ops \<Rightarrow> byte list list \<Rightarrow> 'f log_writer \<Rightarrow> 'f log_writer" where
  "AddRecords ops [] w = w"
| "AddRecords ops (x # xs) w = AddRecords ops xs (snd (AddRecord ops x w))"

definition log_bytes :: "byte list list \<Rightarrow> byte list" where
  "log_bytes xs = log_dest (AddRecords mem_writable xs (Writer [] 0))"

partial_function (option) ReadAll ::
  "'f sequential_ops \<Rightarrow> 'f log_reader \<Rightarrow> (byte list list \<times> 'f log_reader) option" where
  "ReadAll ops r =
     (case ReadRecord ops r of
        None \<Rightarrow> None
      | Some (None, r) \<Rightarrow> Some ([], r)
      | Some (Some x, r) \<Rightarrow>
          Option.bind (ReadAll ops r) (\<lambda>(xs, r). Some (x # xs, r)))"

definition laid_out :: "byte list list \<Rightarrow> fragments list \<Rightarrow> bool" where
  "laid_out xs fss = list_all2 (\<lambda>x fs. is_record fs \<and> payload fs = x) xs fss"

lemma AddRecords_mem:
  assumes "type_crc w = InitTypeCrc" and "block_offset w \<le> kBlockSize"
  shows "\<exists>fss. laid_out xs fss \<and> fits_block (block_offset w) (concat fss) \<and>
    (\<forall>j. AddRecords mem_writable (take j xs) w =
      w\<lparr>log_dest := log_dest w @ emit_frags (block_offset w) (concat (take j fss)),
        block_offset := final (block_offset w) (concat (take j fss))\<rparr>)"
  using assms
proof (induction xs arbitrary: w)
  case Nil
  then show ?case by (intro exI [of _ "[]"]) (simp add: laid_out_def)
next
  case (Cons x xs)
  from AddRecordLoop_mem [OF Cons(2), of True x] obtain fs where fs:
    "AddRecord mem_writable x w =
      (OK, w\<lparr>log_dest := log_dest w @ emit_frags (block_offset w) fs, block_offset := final (block_offset w) fs\<rparr>)"
    (is "_ = (OK, ?w)")
    "fits_block (block_offset w) fs" "payload fs = x" "is_record fs"
    by (auto simp: AddRecord_def)
  from Cons(1) [of ?w] Cons(2) fits_final [OF fs(2)] obtain fss where fss:
    "laid_out xs fss" "fits_block (block_offset ?w) (concat fss)"
    "\<And>j. AddRecords mem_writable (take j xs) ?w =
      ?w\<lparr>log_dest := log_dest ?w @ emit_frags (block_offset ?w) (concat (take j fss)),
        block_offset := final (block_offset ?w) (concat (take j fss))\<rparr>"
    by auto
  have "AddRecords mem_writable (take j (x # xs)) w =
      w\<lparr>log_dest := log_dest w @ emit_frags (block_offset w) (concat (take j (fs # fss))),
        block_offset := final (block_offset w) (concat (take j (fs # fss)))\<rparr>" for j
    using fs(1) fss(3) by (cases j) (simp_all add: emit_append final_append)
  with fs fss(1,2) show ?case
    by (intro exI [of _ "fs # fss"]) (simp add: laid_out_def fits_append)
qed

lemma ReadRecord_start:
  "initial_offset r = 0 \<Longrightarrow> ReadRecord ops r =
    ReadRecordLoop ops
      \<lparr>in_fragmented_record = False, prospective_record_offset = 0, scratch = [], fragment = []\<rparr> r"
  by (simp add: ReadRecord_def Let_def)

lemma sync_initial: "sync r bo x \<Longrightarrow> initial_offset r = 0"
  by (simp add: sync_def)

lemma ReadAll_cut:
  assumes "laid_out xs fss" and "fits_block bo (concat fss)" and "sync r bo (take n (emit_frags bo (concat fss)))"
  shows "\<exists>k r'. ReadAll mem_sequential r = Some (take k xs, r') \<and> reports r' = reports r \<and>
    k \<le> length xs \<and>
    (\<forall>j \<le> length xs. j \<le> k \<longleftrightarrow> length (emit_frags bo (concat (take j fss))) \<le> n)"
  using assms
proof (induction xs arbitrary: fss bo r n)
  case Nil
  let ?v = "\<lparr>in_fragmented_record = False, prospective_record_offset = 0, scratch = [], fragment = []\<rparr>"
  from Nil have "sync r bo []" by (simp add: laid_out_def)
  from sync_end [OF this, of "fragment ?v"] obtain r1 where
    "ReadPhysicalRecord mem_sequential (fragment ?v) r = (kEof, fragment ?v, r1)" "reports r1 = reports r"
    by auto
  from eof_step [OF this(1)] this(2) obtain q where
    "ReadRecordLoop mem_sequential ?v r = Some (None, q)" "reports q = reports r" by auto
  with Nil show ?case
    by (subst ReadAll.simps)
      (auto simp: ReadRecord_start [OF sync_initial [OF Nil(3)]] laid_out_def)
next
  case (Cons x xs)
  let ?v = "\<lparr>in_fragmented_record = False, prospective_record_offset = 0, scratch = [], fragment = []\<rparr>"
  from Cons(2) obtain fs gss where fs: "fss = fs # gss" "is_record fs" "payload fs = x" "laid_out xs gss"
    by (auto simp: laid_out_def list_all2_Cons1)
  have f: "fits_block bo fs" "fits_block (final bo fs) (concat gss)"
    using Cons(3,4) fs(1) fits_split [of bo fs "concat gss"] by (simp_all add: sync_def fits_append)
  note block_start = ReadRecord_start [OF sync_initial [OF Cons(4)]]
  let ?l = "length (emit_frags bo fs)"
  show ?case
  proof (cases "n < ?l")
    case True
    then have e: "take n (emit_frags bo (concat fss)) = take n (emit_frags bo fs)"
      by (simp add: fs(1) emit_append)
    have "sync r bo (take n (emit_frags bo fs))" using Cons(4) unfolding e .
    from read_record_cut [OF fs(2) f(1) this True, of ?v] obtain q where
      "ReadRecordLoop mem_sequential ?v r = Some (None, q)" "reports q = reports r" by auto
    with True show ?thesis
      by (intro exI [of _ 0] exI [of _ q], subst ReadAll.simps)
        (auto simp: block_start fs(1) emit_append take_Cons' )
  next
    case False
    then have e: "take n (emit_frags bo (concat fss))
        = emit_frags bo fs @ take (n - ?l) (emit_frags (final bo fs) (concat gss))"
      by (simp add: fs(1) emit_append)
    have "sync r bo (emit_frags bo fs @ take (n - ?l) (emit_frags (final bo fs) (concat gss)))"
      using Cons(4) unfolding e .
    from read_record [OF fs(2) f(1) this, of ?v] fs(3) obtain q where q:
      "ReadRecordLoop mem_sequential ?v r = Some (Some x, q)" "reports q = reports r"
      "sync q (final bo fs) (take (n - ?l) (emit_frags (final bo fs) (concat gss)))" by auto
    from Cons(1) [OF fs(4) f(2) q(3)] obtain k r' where k:
      "ReadAll mem_sequential q = Some (take k xs, r')" "reports r' = reports q" "k \<le> length xs"
      "\<And>j. j \<le> length xs \<Longrightarrow> j \<le> k \<longleftrightarrow> length (emit_frags (final bo fs) (concat (take j gss))) \<le> n - ?l"
      by auto
    have "j \<le> Suc k \<longleftrightarrow> length (emit_frags bo (concat (take j fss))) \<le> n" if "j \<le> Suc (length xs)" for j
      using that False k(4) by (cases j) (auto simp: fs(1) emit_append)
    with k q show ?thesis
      by (intro exI [of _ "Suc k"] exI [of _ r'], subst ReadAll.simps) (auto simp: block_start)
  qed
qed

lemma emit_block_end: "emit_frags kBlockSize fs = emit_frags 0 fs" "fits_block kBlockSize fs = fits_block 0 fs"
  by (cases fs; force simp: pad_def block_start_def kBlockSize_def kHeaderSize_def)+

lemma Reader_sync: "sync (Reader x rep check 0) kBlockSize x"
  by (simp add: sync_def Reader_def)

lemma log_cut:
  "\<exists>k r'. ReadAll mem_sequential (Reader (take n (log_bytes xs)) rep check 0) = Some (take k xs, r') \<and>
    reports r' = [] \<and> k \<le> length xs \<and>
    (\<forall>j \<le> length xs. j \<le> k \<longleftrightarrow> length (log_bytes (take j xs)) \<le> n)"
proof -
  let ?w = "Writer [] 0 :: byte list log_writer"
  have w: "type_crc ?w = InitTypeCrc" "block_offset ?w = 0" "log_dest ?w = []"
    by (simp_all add: Writer_def)
  from AddRecords_mem [of ?w xs] w obtain fss where f: "laid_out xs fss" "fits_block 0 (concat fss)"
    "\<And>j. AddRecords mem_writable (take j xs) ?w =
      ?w\<lparr>log_dest := emit_frags 0 (concat (take j fss)), block_offset := final 0 (concat (take j fss))\<rparr>"
    by auto
  have b: "log_bytes (take j xs) = emit_frags 0 (concat (take j fss))" for j
    by (simp add: log_bytes_def f(3))
  have "length fss = length xs" using f(1) by (simp add: laid_out_def list_all2_lengthD)
  with b [of "length xs"] have all: "log_bytes xs = emit_frags 0 (concat fss)" by simp
  have "sync (Reader (take n (log_bytes xs)) rep check 0) kBlockSize (take n (emit_frags kBlockSize (concat fss)))"
    using Reader_sync by (simp add: all emit_block_end)
  from ReadAll_cut [OF f(1) _ this] f(2) show ?thesis
    by (simp add: emit_block_end b) (simp add: Reader_def)
qed

lemma final_mod:
  "bo \<le> kBlockSize \<Longrightarrow> fits_block bo fs \<Longrightarrow> final bo fs mod kBlockSize = (bo + length (emit_frags bo fs)) mod kBlockSize"
proof (induction bo fs rule: final.induct)
  case (2 bo t d fs)
  let ?l = "kHeaderSize + length d + length (emit_frags (block_start bo + kHeaderSize + length d) fs)"
  have "(bo + pad bo) mod kBlockSize = block_start bo mod kBlockSize"
    using 2(2) by (simp add: pad_def block_start_def)
  then have "(bo + pad bo + ?l) mod kBlockSize = (block_start bo + ?l) mod kBlockSize"
    by (metis mod_add_left_eq)
  with 2 show ?case by (simp add: add.assoc)
qed simp

lemma AddRecord_block_end:
  assumes "block_offset w = kBlockSize"
  shows "AddRecord mem_writable x (w\<lparr>block_offset := 0\<rparr>) = AddRecord mem_writable x w"
proof -
  have "switch_block mem_writable (w\<lparr>block_offset := 0\<rparr>) = switch_block mem_writable w"
    using assms by (simp add: switch_mem pad_def block_start_def kBlockSize_def kHeaderSize_def)
  then show ?thesis
    unfolding AddRecord_def AddRecordLoop.simps [of _ _ _ w]
      AddRecordLoop.simps [of _ _ _ "w\<lparr>block_offset := 0\<rparr>"] by simp
qed

lemma AddRecords_append: "AddRecords ops (xs @ ys) w = AddRecords ops ys (AddRecords ops xs w)"
  by (induction xs arbitrary: w) simp_all

lemma log_reopen:
  "log_dest (AddRecords mem_writable ys (Writer (log_bytes xs) (length (log_bytes xs)))) = log_bytes (xs @ ys)"
proof -
  let ?w = "Writer [] 0 :: byte list log_writer"
  have w: "type_crc ?w = InitTypeCrc" "block_offset ?w = 0" "log_dest ?w = []"
    by (simp_all add: Writer_def)
  from AddRecords_mem [of ?w xs] w obtain fss where f: "fits_block 0 (concat fss)"
    "\<And>j. AddRecords mem_writable (take j xs) ?w =
      ?w\<lparr>log_dest := emit_frags 0 (concat (take j fss)), block_offset := final 0 (concat (take j fss))\<rparr>"
    "laid_out xs fss"
    by auto
  define bo where "bo = final 0 (concat fss)"
  define v where "v = AddRecords mem_writable xs ?w"
  have "length fss = length xs" using f(3) by (simp add: laid_out_def list_all2_lengthD)
  with f(2) [of "length xs"] have v: "v = ?w\<lparr>log_dest := emit_frags 0 (concat fss), block_offset := bo\<rparr>"
    by (simp add: v_def bo_def)
  then have l: "log_bytes xs = emit_frags 0 (concat fss)" by (simp add: log_bytes_def v_def)
  have "bo mod kBlockSize = length (log_bytes xs) mod kBlockSize" and b: "bo \<le> kBlockSize"
    using final_mod [OF _ f(1)] fits_final [OF f(1)] by (simp_all add: bo_def l)
  then have r: "Writer (log_bytes xs) (length (log_bytes xs)) = v\<lparr>block_offset := bo mod kBlockSize\<rparr>"
    by (simp add: v l Writer_def)
  have all: "log_bytes (xs @ ys) = log_dest (AddRecords mem_writable ys v)"
    by (simp add: log_bytes_def AddRecords_append v_def)
  show ?thesis
  proof (cases "bo = kBlockSize")
    case False
    with b have "v\<lparr>block_offset := bo mod kBlockSize\<rparr> = v" by (simp add: v)
    then show ?thesis by (simp add: r all)
  next
    case True
    have "AddRecord mem_writable x (v\<lparr>block_offset := 0\<rparr>) = AddRecord mem_writable x v" for x
      by (rule AddRecord_block_end) (simp add: v True)
    then show ?thesis unfolding r all by (cases ys) (simp_all add: True)
  qed
qed

lemma AddRecordLoop_offset:
  "block_offset (snd (AddRecordLoop ops b p w)) \<le> kBlockSize"
proof (induction ops b p w rule: AddRecordLoop.induct)
  case (1 ops b p w)
  let ?w = "switch_block ops w"
  let ?a = "kBlockSize - block_offset ?w - kHeaderSize"
  let ?n = "if length p < ?a then length p else ?a"
  let ?sw = "EmitPhysicalRecord ops (fragment_type b (length p = ?n)) (take ?n p) ?w"
  note IH = 1 [OF refl refl refl refl refl refl refl]
  have e: "AddRecordLoop ops b p w =
      (if fst ?sw = OK \<and> drop ?n p \<noteq> [] then AddRecordLoop ops False (drop ?n p) (snd ?sw) else ?sw)"
    by (subst AddRecordLoop.simps) (simp only: Let_def)
  have "block_offset ?w + kHeaderSize + ?a = kBlockSize"
    by (auto simp: switch_block_offset kBlockSize_def kHeaderSize_def)
  moreover have "length (take ?n p) \<le> ?a" by simp
  ultimately have "block_offset (snd ?sw) \<le> kBlockSize"
    unfolding Emit_offset by linarith
  moreover have "block_offset (snd (AddRecordLoop ops False (drop ?n p) (snd ?sw))) \<le> kBlockSize"
    if "fst ?sw = OK \<and> drop ?n p \<noteq> []"
    using that by (rule IH)
  ultimately show ?case
    unfolding e if_split [of "\<lambda>s. block_offset (snd s) \<le> kBlockSize"] by blast
qed

subsection \<open>Properties\<close>

text \<open>
  C3 (ldb_log_truncated). From a log that was cut after any number of bytes, as a
  crash leaves it, the reader delivers exactly the records that were written completely, in
  order, then stops, and reports no corruption: whatever the sizes of the records, whichever
  blocks they span, and whether or not checksums are verified.
\<close>

theorem ldb_log_truncated:
  "\<exists>k r'. ReadAll mem_sequential (Reader (take n (log_bytes xs)) rep check 0) = Some (take k xs, r') \<and>
    reports r' = [] \<and> k \<le> length xs \<and>
    {j. j \<le> length xs \<and> length (log_bytes (take j xs)) \<le> n} = {..k}"
proof -
  obtain k r' where k:
    "ReadAll mem_sequential (Reader (take n (log_bytes xs)) rep check 0) = Some (take k xs, r')"
    "reports r' = []" "k \<le> length xs"
    "\<forall>j \<le> length xs. j \<le> k \<longleftrightarrow> length (log_bytes (take j xs)) \<le> n"
    using log_cut [of n xs rep check] by blast
  then have "{j. j \<le> length xs \<and> length (log_bytes (take j xs)) \<le> n} = {..k}"
    by (auto dest: le_trans)
  with k show ?thesis by blast
qed


text \<open>
  Theorem (ldb_log_reopen). A writer that is opened on an existing log with its length
  continues it: the bytes are those one writer would have produced for all records.
\<close>

theorem ldb_log_reopen:
  "log_dest (AddRecords mem_writable ys (Writer (log_bytes xs) (length (log_bytes xs)))) = log_bytes (xs @ ys)"
  by (rule log_reopen)

text \<open>
  Theorem (ldb_writer_offset). Whatever the file reports, a record leaves the writer
  inside a block, so the assertions on the space of the next physical record hold.
\<close>

theorem ldb_writer_offset:
  "block_offset (snd (AddRecord ops data w)) \<le> kBlockSize \<and>
   block_offset (switch_block ops w) + kHeaderSize \<le> kBlockSize"
  using AddRecordLoop_offset [of ops True data w]
  by (auto simp: AddRecord_def switch_block_offset kBlockSize_def kHeaderSize_def)

text \<open>
  C38 (ldb_log_detects_byte). A reader that verifies checksums rejects a physical
  record of which one payload byte was changed: it drops the rest of the block, reports it
  as a checksum mismatch, and delivers nothing.
\<close>

theorem ldb_log_detects_byte:
  assumes "checksum r" and "has_reporter r" and "initial_offset r = 0" and "t \<noteq> kZeroType"
    and "b' \<noteq> b" and "length (x @ b # y) < 65536"
    and "buffer r = phys_header t (x @ b # y) @ (x @ b' # y) @ rest"
  shows "\<exists>r'. ReadPhysicalRecord ops f r = (kBadRecord, f, r') \<and> buffer r' = [] \<and>
    reports r' = reports r @ [(buffer_size r, Corruption ''checksum mismatch'')]"
proof -
  define h where "h = buffer r"
  have l: "length (phys_header t (x @ b # y)) = 7" by (simp add: kHeaderSize_def)
  have "phys_header t (x @ b # y) ! 4 = word_of_nat (length (x @ b # y))"
    "phys_header t (x @ b # y) ! 5 = word_of_nat (drop_bit 8 (length (x @ b # y)))"
    "phys_header t (x @ b # y) ! 6 = type_code t"
    by (simp_all add: phys_header_def nth_append)
  then have h: "h ! 4 = word_of_nat (length (x @ b # y))"
    "h ! 5 = word_of_nat (drop_bit 8 (length (x @ b # y)))" "h ! 6 = type_code t"
    using l by (simp_all add: h_def assms(7) nth_append)
  have len: "header_length h = length (x @ b # y)"
    unfolding header_length_def Let_def h(1,2) by (rule length_field [OF assms(6)])
  have stored: "DecodeFixed32 h = Mask (Value ((type_code t # x) @ b # y))"
    by (simp add: h_def assms(7) phys_header_def DecodeFixed32_Encode)
  have "drop 6 h = type_code t # (x @ b' # y) @ rest"
    by (simp add: h_def assms(7) phys_header_def)
  then have computed: "take (1 + length (x @ b # y)) (drop 6 h) = (type_code t # x) @ b' # y" by simp
  have "Value ((type_code t # x) @ b' # y) \<noteq> Value ((type_code t # x) @ b # y)"
    using assms(5) by (simp only: Value_eq crc32c_detects) simp
  moreover have "kHeaderSize + length (x @ b # y) \<le> length h"
    using l by (simp add: h_def assms(7) kHeaderSize_def)
  ultimately have "ParsePhysicalRecord f r =
      (kBadRecord, f, ReportCorruption (buffer_size r) ''checksum mismatch'' (r\<lparr>buffer := []\<rparr>))"
    using assms(1,4) by (simp only: ParsePhysicalRecord_def Let_def len h_def [symmetric] h(3) scast_type
        stored computed Unmask_Mask) simp
  moreover have "kHeaderSize \<le> length (buffer r)" by (simp add: assms(7))
  ultimately show ?thesis
    using assms(2,3) by (simp add: read_parse ReportCorruption_def ReportDrop_def)
qed

theorem ldb_log_detects_byte_witness:
  "\<exists>r'. ReadPhysicalRecord mem_sequential []
      ((Reader [] True True 0)\<lparr>buffer := phys_header kFullType [5] @ [4]\<rparr>) = (kBadRecord, [], r') \<and>
    buffer r' = []"
  using ldb_log_detects_byte [of "(Reader [] True True 0)\<lparr>buffer := phys_header kFullType [5] @ [4]\<rparr>"
      kFullType 4 5 "[]" "[]" "[]" mem_sequential "[]"]
  by (auto simp: Reader_def)

end
