(* ===== verification/LDB_VersionEdit.thy ===== *)
theory LDB_VersionEdit
  imports LDB_Log
begin

text \<open>
  Version edits (\<open>db/version_edit.cc\<close>): the records of the descriptor log. An edit says which
  table files a version adds and deletes; its encoding is a sequence of tagged fields. Decoding
  is shown to be inverse to encoding, and encoding to be inverse to every successful decoding.
\<close>

subsection \<open>The edit\<close>

abbreviation kNumLevels :: nat where "kNumLevels \<equiv> 7"

text \<open>The levels that edits carry are never negative: an \<open>int\<close> of the code is a natural number.\<close>

record FileMetaData =
  f_refs :: int
  f_allowed_seeks :: int
  f_number :: u64
  f_file_size :: u64
  f_smallest :: "byte list"
  f_largest :: "byte list"

definition NewFileMetaData :: "u64 \<Rightarrow> u64 \<Rightarrow> byte list \<Rightarrow> byte list \<Rightarrow> FileMetaData" where
  "NewFileMetaData n len smallest largest =
     \<lparr>f_refs = 0, f_allowed_seeks = 2 ^ 30, f_number = n, f_file_size = len, f_smallest = smallest, f_largest = largest\<rparr>"

text \<open>The set of deleted files is kept as the sorted list that \<open>std::set\<close> iterates over.\<close>

record VersionEdit =
  ve_comparator :: "byte list"
  ve_log_number :: u64
  ve_prev_log_number :: u64
  ve_next_file_number :: u64
  ve_last_sequence :: u64
  has_comparator :: bool
  has_log_number :: bool
  has_prev_log_number :: bool
  has_next_file_number :: bool
  has_last_sequence :: bool
  ve_compact_pointers :: "(nat \<times> byte list) list"
  ve_deleted_files :: "(nat \<times> u64) list"
  ve_new_files :: "(nat \<times> FileMetaData) list"

text \<open>\<open>Clear\<close> leaves the compaction pointers as they are.\<close>

definition EditClear :: "VersionEdit \<Rightarrow> VersionEdit" where
  "EditClear e = e\<lparr>ve_comparator := [], ve_log_number := 0, ve_prev_log_number := 0, ve_last_sequence := 0,
     ve_next_file_number := 0, has_comparator := False, has_log_number := False, has_prev_log_number := False,
     has_next_file_number := False, has_last_sequence := False, ve_deleted_files := [], ve_new_files := []\<rparr>"

definition NewVersionEdit :: VersionEdit where
  "NewVersionEdit =
     \<lparr>ve_comparator = [], ve_log_number = 0, ve_prev_log_number = 0, ve_next_file_number = 0, ve_last_sequence = 0,
      has_comparator = False, has_log_number = False, has_prev_log_number = False, has_next_file_number = False,
      has_last_sequence = False, ve_compact_pointers = [], ve_deleted_files = [], ve_new_files = []\<rparr>"

definition SetComparatorName :: "byte list \<Rightarrow> VersionEdit \<Rightarrow> VersionEdit" where
  "SetComparatorName name e = e\<lparr>has_comparator := True, ve_comparator := name\<rparr>"

definition SetLogNumber :: "u64 \<Rightarrow> VersionEdit \<Rightarrow> VersionEdit" where
  "SetLogNumber n e = e\<lparr>has_log_number := True, ve_log_number := n\<rparr>"

definition SetPrevLogNumber :: "u64 \<Rightarrow> VersionEdit \<Rightarrow> VersionEdit" where
  "SetPrevLogNumber n e = e\<lparr>has_prev_log_number := True, ve_prev_log_number := n\<rparr>"

definition SetNextFile :: "u64 \<Rightarrow> VersionEdit \<Rightarrow> VersionEdit" where
  "SetNextFile n e = e\<lparr>has_next_file_number := True, ve_next_file_number := n\<rparr>"

definition SetLastSequence :: "u64 \<Rightarrow> VersionEdit \<Rightarrow> VersionEdit" where
  "SetLastSequence n e = e\<lparr>has_last_sequence := True, ve_last_sequence := n\<rparr>"

definition SetCompactPointer :: "nat \<Rightarrow> byte list \<Rightarrow> VersionEdit \<Rightarrow> VersionEdit" where
  "SetCompactPointer level key e = e\<lparr>ve_compact_pointers := ve_compact_pointers e @ [(level, key)]\<rparr>"

definition EditAddFile :: "nat \<Rightarrow> u64 \<Rightarrow> u64 \<Rightarrow> byte list \<Rightarrow> byte list \<Rightarrow> VersionEdit \<Rightarrow> VersionEdit" where
  "EditAddFile level file len smallest largest e =
     e\<lparr>ve_new_files := ve_new_files e @ [(level, NewFileMetaData file len smallest largest)]\<rparr>"

definition pair_less :: "nat \<times> u64 \<Rightarrow> nat \<times> u64 \<Rightarrow> bool" where
  "pair_less a b \<longleftrightarrow> fst a < fst b \<or> fst a = fst b \<and> snd a < snd b"

primrec set_insert :: "nat \<times> u64 \<Rightarrow> (nat \<times> u64) list \<Rightarrow> (nat \<times> u64) list" where
  "set_insert x [] = [x]"
| "set_insert x (y # ys) =
     (if pair_less x y then x # y # ys else if x = y then y # ys else y # set_insert x ys)"

definition EditDeleteFile :: "nat \<Rightarrow> u64 \<Rightarrow> VersionEdit \<Rightarrow> VersionEdit" where
  "EditDeleteFile level file e = e\<lparr>ve_deleted_files := set_insert (level, file) (ve_deleted_files e)\<rparr>"

subsection \<open>Encoding\<close>

abbreviation kComparator :: u32 where "kComparator \<equiv> 1"
abbreviation kLogNumber :: u32 where "kLogNumber \<equiv> 2"
abbreviation kNextFileNumber :: u32 where "kNextFileNumber \<equiv> 3"
abbreviation kLastSequence :: u32 where "kLastSequence \<equiv> 4"
abbreviation kCompactPointer :: u32 where "kCompactPointer \<equiv> 5"
abbreviation kDeletedFile :: u32 where "kDeletedFile \<equiv> 6"
abbreviation kNewFile :: u32 where "kNewFile \<equiv> 7"
abbreviation kPrevLogNumber :: u32 where "kPrevLogNumber \<equiv> 9"

definition put_compact_pointer :: "byte list \<Rightarrow> nat \<times> byte list \<Rightarrow> byte list" where
  "put_compact_pointer dst p =
     (let dst = PutVarint32 dst kCompactPointer;
          dst = PutVarint32 dst (word_of_nat (fst p))
      in PutLengthPrefixedSlice dst (snd p))"

definition put_deleted_file :: "byte list \<Rightarrow> nat \<times> u64 \<Rightarrow> byte list" where
  "put_deleted_file dst p =
     (let dst = PutVarint32 dst kDeletedFile;
          dst = PutVarint32 dst (word_of_nat (fst p))
      in PutVarint64 dst (snd p))"

definition put_new_file :: "byte list \<Rightarrow> nat \<times> FileMetaData \<Rightarrow> byte list" where
  "put_new_file dst p =
     (let f = snd p;
          dst = PutVarint32 dst kNewFile;
          dst = PutVarint32 dst (word_of_nat (fst p));
          dst = PutVarint64 dst (f_number f);
          dst = PutVarint64 dst (f_file_size f);
          dst = PutLengthPrefixedSlice dst (f_smallest f)
      in PutLengthPrefixedSlice dst (f_largest f))"

definition EditEncodeTo :: "VersionEdit \<Rightarrow> byte list \<Rightarrow> byte list" where
  "EditEncodeTo e dst =
     (let dst = if has_comparator e
                then PutLengthPrefixedSlice (PutVarint32 dst kComparator) (ve_comparator e) else dst;
          dst = if has_log_number e then PutVarint64 (PutVarint32 dst kLogNumber) (ve_log_number e) else dst;
          dst = if has_prev_log_number e
                then PutVarint64 (PutVarint32 dst kPrevLogNumber) (ve_prev_log_number e) else dst;
          dst = if has_next_file_number e
                then PutVarint64 (PutVarint32 dst kNextFileNumber) (ve_next_file_number e) else dst;
          dst = if has_last_sequence e
                then PutVarint64 (PutVarint32 dst kLastSequence) (ve_last_sequence e) else dst;
          dst = foldl put_compact_pointer dst (ve_compact_pointers e);
          dst = foldl put_deleted_file dst (ve_deleted_files e)
      in foldl put_new_file dst (ve_new_files e))"

subsection \<open>Decoding\<close>

definition GetInternalKey :: "byte list \<Rightarrow> (byte list \<times> byte list) option" where
  "GetInternalKey input = GetLengthPrefixedSlice input"

definition GetLevel :: "byte list \<Rightarrow> (nat \<times> byte list) option" where
  "GetLevel input =
     (case GetVarint32 input of None \<Rightarrow> None
      | Some (v, input) \<Rightarrow> if unat v < kNumLevels then Some (unat v, input) else None)"

text \<open>\<open>parse get msg f\<close> reads a value and goes on with it, or gives up with a message.\<close>

definition parse ::
  "(byte list \<Rightarrow> ('v \<times> byte list) option) \<Rightarrow> string \<Rightarrow> byte list \<Rightarrow> ('v \<Rightarrow> byte list \<Rightarrow> string + 'r) \<Rightarrow> string + 'r" where
  "parse get msg input f = (case get input of None \<Rightarrow> Inl msg | Some (v, input) \<Rightarrow> f v input)"

definition decode_edit_field :: "u32 \<Rightarrow> byte list \<Rightarrow> VersionEdit \<Rightarrow> string + VersionEdit \<times> byte list" where
  "decode_edit_field tag input e =
     (if tag = kComparator then
        parse GetLengthPrefixedSlice ''comparator name'' input (\<lambda>str input. Inr (SetComparatorName str e, input))
      else if tag = kLogNumber then
        parse GetVarint64 ''log number'' input (\<lambda>n input. Inr (SetLogNumber n e, input))
      else if tag = kPrevLogNumber then
        parse GetVarint64 ''previous log number'' input (\<lambda>n input. Inr (SetPrevLogNumber n e, input))
      else if tag = kNextFileNumber then
        parse GetVarint64 ''next file number'' input (\<lambda>n input. Inr (SetNextFile n e, input))
      else if tag = kLastSequence then
        parse GetVarint64 ''last sequence number'' input (\<lambda>n input. Inr (SetLastSequence n e, input))
      else if tag = kCompactPointer then
        parse GetLevel ''compaction pointer'' input (\<lambda>level input.
        parse GetInternalKey ''compaction pointer'' input (\<lambda>key input.
          Inr (SetCompactPointer level key e, input)))
      else if tag = kDeletedFile then
        parse GetLevel ''deleted file'' input (\<lambda>level input.
        parse GetVarint64 ''deleted file'' input (\<lambda>n input.
          Inr (EditDeleteFile level n e, input)))
      else if tag = kNewFile then
        parse GetLevel ''new-file entry'' input (\<lambda>level input.
        parse GetVarint64 ''new-file entry'' input (\<lambda>n input.
        parse GetVarint64 ''new-file entry'' input (\<lambda>len input.
        parse GetInternalKey ''new-file entry'' input (\<lambda>smallest input.
        parse GetInternalKey ''new-file entry'' input (\<lambda>largest input.
          Inr (EditAddFile level n len smallest largest e, input))))))
      else Inl ''unknown tag'')"

lemma GetLevel_shorter: "GetLevel p = Some (v, q) \<Longrightarrow> length q < length p"
  by (auto simp: GetLevel_def split: option.splits if_splits dest: v32.shorter)

lemma parse_Inr:
  "parse get msg input f = Inr r \<longleftrightarrow> (\<exists>v q. get input = Some (v, q) \<and> f v q = Inr r)"
  by (auto simp: parse_def split: option.splits)

lemma decode_edit_field_shorter:
  "decode_edit_field tag input e = Inr (e', input') \<Longrightarrow> length input' \<le> length input"
  unfolding decode_edit_field_def GetInternalKey_def
  by (auto simp: parse_Inr split: if_splits dest!: v64.shorter lps.shorter GetLevel_shorter)

function EditDecodeLoop :: "VersionEdit \<Rightarrow> byte list \<Rightarrow> string option \<times> VersionEdit \<times> byte list" where
  "EditDecodeLoop e input =
     (case GetVarint32 input of None \<Rightarrow> (None, e, input)
      | Some (tag, input) \<Rightarrow>
          (case decode_edit_field tag input e of
             Inl msg \<Rightarrow> (Some msg, e, input)
           | Inr (e, input) \<Rightarrow> EditDecodeLoop e input))"
  by auto
termination
  by (relation "measure (\<lambda>(e, input). length input)")
    (auto dest!: v32.shorter decode_edit_field_shorter)

declare EditDecodeLoop.simps [simp del]

definition EditDecodeFrom :: "byte list \<Rightarrow> VersionEdit \<Rightarrow> Status \<times> VersionEdit" where
  "EditDecodeFrom src e =
     (let (msg, e, input) = EditDecodeLoop (EditClear e) src;
          msg = (if msg = None \<and> input \<noteq> [] then Some ''invalid tag'' else msg)
      in (case msg of None \<Rightarrow> OK | Some m \<Rightarrow> Corruption (''VersionEdit: '' @ m), e))"

subsection \<open>Well-formed edits\<close>

definition file_ok :: "FileMetaData \<Rightarrow> bool" where
  "file_ok f \<longleftrightarrow> f = NewFileMetaData (f_number f) (f_file_size f) (f_smallest f) (f_largest f) \<and>
     length (f_smallest f) < 2 ^ 32 \<and> length (f_largest f) < 2 ^ 32"

definition edit_ok :: "VersionEdit \<Rightarrow> bool" where
  "edit_ok e \<longleftrightarrow> length (ve_comparator e) < 2 ^ 32 \<and>
     (\<not> has_comparator e \<longrightarrow> ve_comparator e = []) \<and> (\<not> has_log_number e \<longrightarrow> ve_log_number e = 0) \<and>
     (\<not> has_prev_log_number e \<longrightarrow> ve_prev_log_number e = 0) \<and>
     (\<not> has_next_file_number e \<longrightarrow> ve_next_file_number e = 0) \<and>
     (\<not> has_last_sequence e \<longrightarrow> ve_last_sequence e = 0) \<and>
     (\<forall>(level, key) \<in> set (ve_compact_pointers e). level < kNumLevels \<and> length key < 2 ^ 32) \<and>
     sorted_wrt pair_less (ve_deleted_files e) \<and> (\<forall>(level, n) \<in> set (ve_deleted_files e). level < kNumLevels) \<and>
     (\<forall>(level, f) \<in> set (ve_new_files e). level < kNumLevels \<and> file_ok f)"

lemma pair_less_order:
  "\<not> pair_less a a" "pair_less a b \<Longrightarrow> pair_less b c \<Longrightarrow> pair_less a c" "pair_less a b \<or> a = b \<or> pair_less b a"
  by (cases a; cases b; cases c; auto simp: pair_less_def)+

lemma pair_less_asym: "pair_less a b \<Longrightarrow> \<not> pair_less b a"
  by (auto simp: pair_less_def)

lemma set_set_insert [simp]: "set (set_insert x ys) = insert x (set ys)"
  by (induction ys) auto

lemma sorted_set_insert: "sorted_wrt pair_less ys \<Longrightarrow> sorted_wrt pair_less (set_insert x ys)"
proof (induction ys)
  case (Cons y ys)
  then show ?case using pair_less_order(2) [of x y] pair_less_order(3) [of x y] by auto
qed simp

lemma set_insert_last: "\<forall>y \<in> set ys. pair_less y x \<Longrightarrow> set_insert x ys = ys @ [x]"
  by (induction ys) (auto dest: pair_less_asym simp: pair_less_order(1))

lemma fold_set_insert:
  "sorted_wrt pair_less (ys @ xs) \<Longrightarrow> fold set_insert xs ys = ys @ xs"
proof (induction xs arbitrary: ys)
  case (Cons x xs)
  then have "set_insert x ys = ys @ [x]" by (intro set_insert_last) (simp add: sorted_wrt_append)
  with Cons.IH [of "ys @ [x]"] Cons.prems show ?case by simp
qed simp

lemma edit_ok_operations:
  "edit_ok NewVersionEdit"
  "edit_ok e \<Longrightarrow> edit_ok (EditClear e)"
  "edit_ok e \<Longrightarrow> length name < 2 ^ 32 \<Longrightarrow> edit_ok (SetComparatorName name e)"
  "edit_ok e \<Longrightarrow> edit_ok (SetLogNumber n e)"
  "edit_ok e \<Longrightarrow> edit_ok (SetPrevLogNumber n e)"
  "edit_ok e \<Longrightarrow> edit_ok (SetNextFile n e)"
  "edit_ok e \<Longrightarrow> edit_ok (SetLastSequence n e)"
  "edit_ok e \<Longrightarrow> level < kNumLevels \<Longrightarrow> length key < 2 ^ 32 \<Longrightarrow> edit_ok (SetCompactPointer level key e)"
  "edit_ok e \<Longrightarrow> level < kNumLevels \<Longrightarrow> edit_ok (EditDeleteFile level n e)"
  "edit_ok e \<Longrightarrow> level < kNumLevels \<Longrightarrow> length smallest < 2 ^ 32 \<Longrightarrow> length largest < 2 ^ 32 \<Longrightarrow>
     edit_ok (EditAddFile level n len smallest largest e)"
  by (simp_all add: edit_ok_def NewVersionEdit_def EditClear_def SetComparatorName_def SetLogNumber_def
      SetPrevLogNumber_def SetNextFile_def SetLastSequence_def SetCompactPointer_def EditDeleteFile_def
      EditAddFile_def file_ok_def NewFileMetaData_def sorted_set_insert)

lemma GetLevel_level: "GetLevel p = Some (v, q) \<Longrightarrow> v < kNumLevels"
  by (auto simp: GetLevel_def split: option.splits if_splits)

lemma Slice_length: "GetLengthPrefixedSlice p = Some (s, q) \<Longrightarrow> length s < 2 ^ 32"
  using unat_u32 by (auto simp: GetLengthPrefixedSlice_def split: option.splits if_splits)

lemma decode_edit_field_ok:
  "decode_edit_field tag input e = Inr (e', input') \<Longrightarrow> edit_ok e \<Longrightarrow> edit_ok e'"
  unfolding decode_edit_field_def GetInternalKey_def
  by (auto simp: parse_Inr split: if_splits dest!: Slice_length GetLevel_level intro!: edit_ok_operations)

lemma EditDecodeLoop_ok: "EditDecodeLoop e input = (msg, e', input') \<Longrightarrow> edit_ok e \<Longrightarrow> edit_ok e'"
proof (induction e input rule: EditDecodeLoop.induct)
  case (1 e input)
  from "1.prems" show ?case
    unfolding EditDecodeLoop.simps [of e input]
    by (auto split: option.splits sum.splits prod.splits intro: "1.IH" decode_edit_field_ok)
qed

subsection \<open>Decoding an encoded edit\<close>

lemma EditDecodeLoop_tag:
  "EditDecodeLoop e (EncodeVarint32 tag @ input) =
     (case decode_edit_field tag input e of Inl msg \<Rightarrow> (Some msg, e, input) | Inr (e, input) \<Rightarrow> EditDecodeLoop e input)"
  by (subst EditDecodeLoop.simps) (simp add: Varint32_reads_back)

lemma EditDecodeLoop_end: "EditDecodeLoop e [] = (None, e, [])"
  by (subst EditDecodeLoop.simps) (simp add: v32.empty_input)

lemma put_append:
  "put_compact_pointer dst p = dst @ put_compact_pointer [] p"
  "put_deleted_file dst q = dst @ put_deleted_file [] q"
  "put_new_file dst r = dst @ put_new_file [] r"
  by (simp_all add: put_compact_pointer_def put_deleted_file_def put_new_file_def Let_def PutVarint32_def
      PutVarint64_def PutLengthPrefixedSlice_def)

lemma foldl_put:
  assumes "\<And>dst p. put dst p = dst @ put [] p"
  shows "foldl put dst ps = dst @ concat (map (put []) ps)"
proof (induction ps arbitrary: dst)
  case (Cons p ps)
  then show ?case by (simp add: assms [of dst p])
qed simp

lemma GetLevel_reads: "level < kNumLevels \<Longrightarrow> GetLevel (EncodeVarint32 (word_of_nat level) @ rest) = Some (level, rest)"
  by (simp add: GetLevel_def Varint32_reads_back unat_of_nat)

lemmas decode_simps = decode_edit_field_def parse_def GetInternalKey_def Varint64_reads_back lps.reads_back GetLevel_reads

lemma decode_compact_pointer:
  assumes "fst p < kNumLevels" and "length (snd p) < 2 ^ 32"
  shows "EditDecodeLoop e (put_compact_pointer [] p @ rest) = EditDecodeLoop (SetCompactPointer (fst p) (snd p) e) rest"
  using assms
  by (simp add: put_compact_pointer_def PutVarint32_def PutLengthPrefixedSlice_append [of "_ @ _"] EditDecodeLoop_tag decode_simps)

lemma decode_deleted_file:
  assumes "fst p < kNumLevels"
  shows "EditDecodeLoop e (put_deleted_file [] p @ rest) = EditDecodeLoop (EditDeleteFile (fst p) (snd p) e) rest"
  using assms
  by (simp add: put_deleted_file_def PutVarint32_def PutVarint64_def EditDecodeLoop_tag decode_simps)

lemma decode_new_file:
  assumes "fst p < kNumLevels" and "file_ok (snd p)"
  shows "EditDecodeLoop e (put_new_file [] p @ rest) = EditDecodeLoop (e\<lparr>ve_new_files := ve_new_files e @ [p]\<rparr>) rest"
proof -
  have "NewFileMetaData (f_number (snd p)) (f_file_size (snd p)) (f_smallest (snd p)) (f_largest (snd p)) = snd p"
    using assms(2) by (simp add: file_ok_def)
  with assms show ?thesis
    by (simp add: put_new_file_def Let_def PutVarint32_def PutVarint64_def PutLengthPrefixedSlice_append [of "_ @ _"]
        EditDecodeLoop_tag decode_simps file_ok_def EditAddFile_def)
qed

lemma decode_fields:
  assumes "\<And>e p rest. p \<in> set ps \<Longrightarrow> EditDecodeLoop e (put [] p @ rest) = EditDecodeLoop (f p e) rest"
  shows "EditDecodeLoop e (concat (map (put []) ps) @ rest) = EditDecodeLoop (fold f ps e) rest"
  using assms by (induction ps arbitrary: e) auto

lemma EditEncodeTo_fields:
  "EditEncodeTo e dst = dst @
     (if has_comparator e then EncodeVarint32 kComparator @ PutLengthPrefixedSlice [] (ve_comparator e) else []) @
     (if has_log_number e then EncodeVarint32 kLogNumber @ EncodeVarint64 (ve_log_number e) else []) @
     (if has_prev_log_number e then EncodeVarint32 kPrevLogNumber @ EncodeVarint64 (ve_prev_log_number e) else []) @
     (if has_next_file_number e then EncodeVarint32 kNextFileNumber @ EncodeVarint64 (ve_next_file_number e) else []) @
     (if has_last_sequence e then EncodeVarint32 kLastSequence @ EncodeVarint64 (ve_last_sequence e) else []) @
     concat (map (put_compact_pointer []) (ve_compact_pointers e)) @
     concat (map (put_deleted_file []) (ve_deleted_files e)) @
     concat (map (put_new_file []) (ve_new_files e))"
  unfolding EditEncodeTo_def Let_def foldl_put [of put_compact_pointer, OF put_append(1)]
    foldl_put [of put_deleted_file, OF put_append(2)] foldl_put [of put_new_file, OF put_append(3)]
  by (simp add: PutVarint32_def PutVarint64_def PutLengthPrefixedSlice_def)

lemma decode_optional:
  "edit_ok d \<Longrightarrow> EditDecodeLoop e ((if has_comparator d then EncodeVarint32 kComparator @ PutLengthPrefixedSlice [] (ve_comparator d) else []) @ rest)
    = EditDecodeLoop (if has_comparator d then SetComparatorName (ve_comparator d) e else e) rest"
  "EditDecodeLoop e ((if a then EncodeVarint32 kLogNumber @ EncodeVarint64 n else []) @ rest)
    = EditDecodeLoop (if a then SetLogNumber n e else e) rest"
  "EditDecodeLoop e ((if a then EncodeVarint32 kPrevLogNumber @ EncodeVarint64 n else []) @ rest)
    = EditDecodeLoop (if a then SetPrevLogNumber n e else e) rest"
  "EditDecodeLoop e ((if a then EncodeVarint32 kNextFileNumber @ EncodeVarint64 n else []) @ rest)
    = EditDecodeLoop (if a then SetNextFile n e else e) rest"
  "EditDecodeLoop e ((if a then EncodeVarint32 kLastSequence @ EncodeVarint64 n else []) @ rest)
    = EditDecodeLoop (if a then SetLastSequence n e else e) rest"
  by (simp_all add: EditDecodeLoop_tag decode_simps edit_ok_def)

lemma fold_pointers:
  "fold (\<lambda>p. SetCompactPointer (fst p) (snd p)) ps e = e\<lparr>ve_compact_pointers := ve_compact_pointers e @ ps\<rparr>"
  by (induction ps arbitrary: e) (simp_all add: SetCompactPointer_def)

lemma fold_deletions:
  "fold (\<lambda>p. EditDeleteFile (fst p) (snd p)) ps e = e\<lparr>ve_deleted_files := fold set_insert ps (ve_deleted_files e)\<rparr>"
  by (induction ps arbitrary: e) (simp_all add: EditDeleteFile_def)

lemma fold_additions:
  "fold (\<lambda>p e. e\<lparr>ve_new_files := ve_new_files e @ [p]\<rparr>) ps e = e\<lparr>ve_new_files := ve_new_files e @ ps\<rparr>"
  by (induction ps arbitrary: e) simp_all

lemma decode_encoded:
  assumes "edit_ok e"
  shows "EditDecodeFrom (EditEncodeTo e []) e0 = (OK, e\<lparr>ve_compact_pointers := ve_compact_pointers e0 @ ve_compact_pointers e\<rparr>)"
proof -
  let ?d = "if has_comparator e then SetComparatorName (ve_comparator e) (EditClear e0) else EditClear e0"
  let ?d = "if has_log_number e then SetLogNumber (ve_log_number e) ?d else ?d"
  let ?d = "if has_prev_log_number e then SetPrevLogNumber (ve_prev_log_number e) ?d else ?d"
  let ?d = "if has_next_file_number e then SetNextFile (ve_next_file_number e) ?d else ?d"
  let ?d = "if has_last_sequence e then SetLastSequence (ve_last_sequence e) ?d else ?d"
  have d: "?d = e\<lparr>ve_compact_pointers := ve_compact_pointers e0, ve_deleted_files := [], ve_new_files := []\<rparr>"
    using assms
    by (simp add: edit_ok_def EditClear_def SetComparatorName_def SetLogNumber_def SetPrevLogNumber_def
        SetNextFile_def SetLastSequence_def)
  have p: "EditDecodeLoop e' (concat (map (put_compact_pointer []) (ve_compact_pointers e)) @ rest) =
      EditDecodeLoop (fold (\<lambda>p. SetCompactPointer (fst p) (snd p)) (ve_compact_pointers e) e') rest" for e' rest
    by (rule decode_fields, rule decode_compact_pointer) (use assms in \<open>auto simp: edit_ok_def\<close>)
  have q: "EditDecodeLoop e' (concat (map (put_deleted_file []) (ve_deleted_files e)) @ rest) =
      EditDecodeLoop (fold (\<lambda>p. EditDeleteFile (fst p) (snd p)) (ve_deleted_files e) e') rest" for e' rest
    by (rule decode_fields, rule decode_deleted_file) (use assms in \<open>auto simp: edit_ok_def\<close>)
  have r: "EditDecodeLoop e' (concat (map (put_new_file []) (ve_new_files e)) @ rest) =
      EditDecodeLoop (fold (\<lambda>p e. e\<lparr>ve_new_files := ve_new_files e @ [p]\<rparr>) (ve_new_files e) e') rest" for e' rest
    by (rule decode_fields, rule decode_new_file) (use assms in \<open>auto simp: edit_ok_def\<close>)
  have s: "fold set_insert (ve_deleted_files e) [] = ve_deleted_files e"
    using fold_set_insert [of "[]"] assms by (simp add: edit_ok_def)
  have "EditDecodeLoop (EditClear e0) (EditEncodeTo e []) =
      (None, e\<lparr>ve_compact_pointers := ve_compact_pointers e0 @ ve_compact_pointers e\<rparr>, [])"
    unfolding EditEncodeTo_fields append_Nil decode_optional(1) [OF assms] decode_optional(2-5) p q d
    using r [of _ "[]"] by (simp add: fold_pointers fold_deletions fold_additions s EditDecodeLoop_end)
  then show ?thesis by (simp add: EditDecodeFrom_def)
qed

subsection \<open>Properties\<close>

text \<open>
  C25 (ldb_version_edit_roundtrip). Decoding what an edit was encoded to gives the edit back;
  only compaction pointers that the target held before stay in front, as \<open>Clear\<close> keeps them.
\<close>

theorem ldb_version_edit_roundtrip:
  assumes "edit_ok e"
  shows "EditDecodeFrom (EditEncodeTo e []) e0 =
    (OK, e\<lparr>ve_compact_pointers := ve_compact_pointers e0 @ ve_compact_pointers e\<rparr>)"
  by (rule decode_encoded [OF assms])

theorem ldb_version_edit_roundtrip_witness:
  "EditDecodeFrom (EditEncodeTo (EditDeleteFile 2 9 (SetLogNumber 300 NewVersionEdit)) []) NewVersionEdit =
    (OK, EditDeleteFile 2 9 (SetLogNumber 300 NewVersionEdit))"
proof -
  have "edit_ok (EditDeleteFile 2 9 (SetLogNumber 300 NewVersionEdit))"
    by (intro edit_ok_operations) simp
  from ldb_version_edit_roundtrip [OF this] show ?thesis
    by (simp add: NewVersionEdit_def EditDeleteFile_def SetLogNumber_def)
qed

text \<open>
  C39 (ldb_version_edit_type). On arbitrary bytes decoding ends, and what it leaves in the edit,
  also when it fails, is well formed: levels below seven, files deleted once and in order,
  default values in fields that were absent. If it succeeds, encoding the edit and decoding
  again gives the same edit.
\<close>

theorem ldb_version_edit_type:
  "edit_ok (snd (EditDecodeFrom src NewVersionEdit)) \<and>
   (EditDecodeFrom src NewVersionEdit = (OK, e) \<longrightarrow> EditDecodeFrom (EditEncodeTo e []) NewVersionEdit = (OK, e))"
proof -
  obtain msg e' input where l: "EditDecodeLoop (EditClear NewVersionEdit) src = (msg, e', input)"
    by (cases "EditDecodeLoop (EditClear NewVersionEdit) src") auto
  then have ok: "edit_ok e'" by (rule EditDecodeLoop_ok) (intro edit_ok_operations)
  then have "EditDecodeFrom (EditEncodeTo e' []) NewVersionEdit = (OK, e')"
    unfolding decode_encoded [OF ok] by (simp add: NewVersionEdit_def)
  with ok show ?thesis by (auto simp: EditDecodeFrom_def l Let_def)
qed

theorem ldb_version_edit_type_witness:
  "EditDecodeFrom (EditEncodeTo (SetLastSequence 7 NewVersionEdit) []) NewVersionEdit = (OK, SetLastSequence 7 NewVersionEdit)"
proof -
  have "EditDecodeFrom [4, 7] NewVersionEdit = (OK, SetLastSequence 7 NewVersionEdit)" by code_simp
  with ldb_version_edit_type [of "[4, 7]"] show ?thesis by blast
qed

end
