(* ===== verification/LDB_Filename.thy ===== *)
theory LDB_Filename
  imports LDB_Log
begin

unbundle bit_operations_syntax

text \<open>
  File names (\<open>db/filename.cc\<close>) and the number formatting of \<open>util/logging.cc\<close> that they rest on,
  and the installation of a descriptor as the current one. Names are HOL strings; \<open>snprintf\<close>
  with \<open>%llu\<close> and \<open>%06llu\<close> is modelled by decimal digits, which never fill the buffers.
\<close>

subsection \<open>Numbers (\<open>util/logging.cc\<close>)\<close>

definition digit :: "nat \<Rightarrow> char" where
  "digit n = char_of (48 + n)"

fun decimal :: "nat \<Rightarrow> string" where
  "decimal n = (if n < 10 then [digit n] else decimal (n div 10) @ [digit (n mod 10)])"

declare decimal.simps [simp del]

definition AppendNumberTo :: "string \<Rightarrow> u64 \<Rightarrow> string" where
  "AppendNumberTo str num = str @ decimal (unat num)"

definition NumberToString :: "u64 \<Rightarrow> string" where
  "NumberToString num = AppendNumberTo [] num"

definition hex_digit :: "nat \<Rightarrow> char" where
  "hex_digit n = (if n < 10 then digit n else char_of (87 + n))"

primrec AppendEscapedStringTo :: "string \<Rightarrow> byte list \<Rightarrow> string" where
  "AppendEscapedStringTo str [] = str"
| "AppendEscapedStringTo str (c # cs) =
     AppendEscapedStringTo
       (if 0x20 \<le> c \<and> c \<le> 0x7E then str @ [char_of (unat c)]
        else str @ CHR 0x5C # CHR ''x'' # [hex_digit (unat c div 16), hex_digit (unat c mod 16)]) cs"

definition EscapeString :: "byte list \<Rightarrow> string" where
  "EscapeString value = AppendEscapedStringTo [] value"

definition is_digit :: "char \<Rightarrow> bool" where
  "is_digit c \<longleftrightarrow> 48 \<le> (of_char c :: nat) \<and> (of_char c :: nat) \<le> 57"

abbreviation kMaxUint64 :: u64 where "kMaxUint64 \<equiv> 0xFFFFFFFFFFFFFFFF"

text \<open>The loop returns whether it stopped without overflow, the input left, the value and the number of digits.\<close>

fun ConsumeLoop :: "string \<Rightarrow> u64 \<Rightarrow> nat \<Rightarrow> bool \<times> string \<times> u64 \<times> nat" where
  "ConsumeLoop [] v digits = (True, [], v, digits)"
| "ConsumeLoop (c # cs) v digits =
     (if is_digit c then
        let delta = word_of_nat (of_char c - 48)
        in if v > kMaxUint64 div 10 \<or> (v = kMaxUint64 div 10 \<and> delta > kMaxUint64 mod 10)
           then (False, c # cs, v, Suc digits)
           else ConsumeLoop cs (v * 10 + delta) (Suc digits)
      else (True, c # cs, v, digits))"

definition ConsumeDecimalNumber :: "string \<Rightarrow> u64 \<Rightarrow> bool \<times> string \<times> u64" where
  "ConsumeDecimalNumber input val =
     (let (fits, input, v, digits) = ConsumeLoop input 0 0
      in if fits then (0 < digits, input, v) else (False, input, val))"

subsection \<open>Names\<close>

datatype FileType = kLogFile | kDBLockFile | kTableFile | kDescriptorFile | kCurrentFile | kTempFile | kInfoLogFile

definition pad6 :: "string \<Rightarrow> string" where
  "pad6 s = replicate (6 - length s) (CHR ''0'') @ s"

definition MakeFileName :: "string \<Rightarrow> u64 \<Rightarrow> string \<Rightarrow> string" where
  "MakeFileName name number suffix = name @ ''/'' @ pad6 (decimal (unat number)) @ ''.'' @ suffix"

definition LogFileName :: "string \<Rightarrow> u64 \<Rightarrow> string" where
  "LogFileName name number = MakeFileName name number ''log''"

definition TableFileName :: "string \<Rightarrow> u64 \<Rightarrow> string" where
  "TableFileName name number = MakeFileName name number ''ldb''"

definition SSTTableFileName :: "string \<Rightarrow> u64 \<Rightarrow> string" where
  "SSTTableFileName name number = MakeFileName name number ''sst''"

definition DescriptorFileName :: "string \<Rightarrow> u64 \<Rightarrow> string" where
  "DescriptorFileName dbname number = dbname @ ''/MANIFEST-'' @ pad6 (decimal (unat number))"

definition CurrentFileName :: "string \<Rightarrow> string" where
  "CurrentFileName dbname = dbname @ ''/CURRENT''"

definition LockFileName :: "string \<Rightarrow> string" where
  "LockFileName dbname = dbname @ ''/LOCK''"

definition TempFileName :: "string \<Rightarrow> u64 \<Rightarrow> string" where
  "TempFileName dbname number = MakeFileName dbname number ''dbtmp''"

definition InfoLogFileName :: "string \<Rightarrow> string" where
  "InfoLogFileName dbname = dbname @ ''/LOG''"

definition OldInfoLogFileName :: "string \<Rightarrow> string" where
  "OldInfoLogFileName dbname = dbname @ ''/LOG.old''"

text \<open>\<open>false\<close> is \<open>None\<close>; the output parameters are then not set.\<close>

definition ParseFileName :: "string \<Rightarrow> (u64 \<times> FileType) option" where
  "ParseFileName fname =
     (if fname = ''CURRENT'' then Some (0, kCurrentFile)
      else if fname = ''LOCK'' then Some (0, kDBLockFile)
      else if fname = ''LOG'' \<or> fname = ''LOG.old'' then Some (0, kInfoLogFile)
      else if take 9 fname = ''MANIFEST-'' then
        let (ok, rest, num) = ConsumeDecimalNumber (drop 9 fname) 0
        in if \<not> ok then None else if rest \<noteq> [] then None else Some (num, kDescriptorFile)
      else
        let (ok, suffix, num) = ConsumeDecimalNumber fname 0
        in if \<not> ok then None
           else if suffix = ''.log'' then Some (num, kLogFile)
           else if suffix = ''.sst'' \<or> suffix = ''.ldb'' then Some (num, kTableFile)
           else if suffix = ''.dbtmp'' then Some (num, kTempFile)
           else None)"

subsection \<open>Decimal numbers\<close>

definition digit_value :: "string \<Rightarrow> nat" where
  "digit_value ds = foldl (\<lambda>v c. v * 10 + (of_char c - 48)) 0 ds"

lemma digit_value_snoc: "digit_value (ds @ [c]) = digit_value ds * 10 + (of_char c - 48)"
  by (simp add: digit_value_def)

lemma digit_is: "n < 10 \<Longrightarrow> is_digit (digit n) \<and> of_char (digit n) - 48 = n"
  by (simp add: is_digit_def digit_def)

lemma decimal_digits: "\<forall>c \<in> set (decimal n). is_digit c" "digit_value (decimal n) = n" "decimal n \<noteq> []"
proof -
  have "(\<forall>c \<in> set (decimal n). is_digit c) \<and> digit_value (decimal n) = n \<and> decimal n \<noteq> []"
  proof (induction n rule: decimal.induct)
    case (1 n)
    show ?case
    proof (cases "n < 10")
      case True
      then show ?thesis by (subst (1 2 3) decimal.simps) (simp add: digit_is digit_value_def)
    next
      case False
      with 1 digit_is [of "n mod 10"] show ?thesis by (subst (1 2 3) decimal.simps) (simp add: digit_value_snoc)
    qed
  qed
  then show "\<forall>c \<in> set (decimal n). is_digit c" "digit_value (decimal n) = n" "decimal n \<noteq> []" by blast+
qed

lemma pad6_digits: "\<forall>c \<in> set (pad6 (decimal n)). is_digit c" "digit_value (pad6 (decimal n)) = n" "pad6 (decimal n) \<noteq> []"
proof -
  have z: "digit_value (replicate k (CHR ''0'') @ s) = digit_value s" for k s
    by (induction k) (simp_all add: digit_value_def)
  show "\<forall>c \<in> set (pad6 (decimal n)). is_digit c"
    using decimal_digits(1) by (auto simp: pad6_def is_digit_def)
  show "digit_value (pad6 (decimal n)) = n" unfolding pad6_def z by (rule decimal_digits)
  show "pad6 (decimal n) \<noteq> []" using decimal_digits(3) by (simp add: pad6_def)
qed

text \<open>The loop reads the longest prefix of digits, or reports that its value does not fit.\<close>

definition shift_in :: "nat \<Rightarrow> string \<Rightarrow> nat" where
  "shift_in v ds = foldl (\<lambda>v c. v * 10 + (of_char c - 48)) v ds"

lemma shift_in_mono: "v \<le> shift_in v ds"
proof (induction ds arbitrary: v)
  case (Cons c ds)
  have "v \<le> v * 10 + (of_char c - 48)" by simp
  also have "\<dots> \<le> shift_in v (c # ds)" using Cons [of "v * 10 + (of_char c - 48)"] by (simp add: shift_in_def)
  finally show ?case .
qed (simp add: shift_in_def)

lemma overflow_test:
  assumes "is_digit c"
  shows "(v > kMaxUint64 div 10 \<or> (v = kMaxUint64 div 10 \<and> word_of_nat (of_char c - 48) > kMaxUint64 mod 10))
    \<longleftrightarrow> 2 ^ 64 \<le> unat v * 10 + (of_char c - 48)"
    "\<not> 2 ^ 64 \<le> unat v * 10 + (of_char c - 48) \<Longrightarrow>
      unat (v * 10 + word_of_nat (of_char c - 48)) = unat v * 10 + (of_char c - 48)"
proof -
  let ?d = "of_char c - 48 :: nat"
  have d: "?d < 10" using assms by (auto simp: is_digit_def)
  have q: "unat (kMaxUint64 div 10) = 1844674407370955161" "unat (kMaxUint64 mod 10) = 5" by (simp_all add: unat_div unat_mod)
  have w: "unat (word_of_nat ?d :: u64) = ?d" using d by (simp add: unat_of_nat)
  have "v > kMaxUint64 div 10 \<longleftrightarrow> 1844674407370955161 < unat v" "v = kMaxUint64 div 10 \<longleftrightarrow> unat v = 1844674407370955161"
    "(word_of_nat ?d :: u64) > kMaxUint64 mod 10 \<longleftrightarrow> 5 < ?d"
    using q w by (simp_all only: word_less_nat_alt word_unat_eq_iff)
  with d show "(v > kMaxUint64 div 10 \<or> (v = kMaxUint64 div 10 \<and> word_of_nat ?d > kMaxUint64 mod 10))
    \<longleftrightarrow> 2 ^ 64 \<le> unat v * 10 + ?d" by (simp only:) (auto simp: not_le)
  show "unat (v * 10 + word_of_nat ?d) = unat v * 10 + ?d" if "\<not> 2 ^ 64 \<le> unat v * 10 + ?d"
  proof -
    have "unat (v * 10) = unat v * 10" using that by (subst unat_mult_lem [THEN iffD1]) simp_all
    then show ?thesis using that w by (subst unat_add_lem [THEN iffD1]) simp_all
  qed
qed

lemma shift_in_Cons: "shift_in v (c # cs) = shift_in (v * 10 + (of_char c - 48)) cs"
  by (simp add: shift_in_def)

lemma ConsumeLoop_step:
  assumes "is_digit c"
  shows "ConsumeLoop (c # cs) v n =
    (if 2 ^ 64 \<le> unat v * 10 + (of_char c - 48) then (False, c # cs, v, Suc n)
     else ConsumeLoop cs (v * 10 + word_of_nat (of_char c - 48)) (Suc n))"
  unfolding overflow_test(1) [OF assms, symmetric] by (simp add: assms Let_def)

lemma ConsumeLoop_spec:
  "shift_in (unat v) (takeWhile is_digit input) < 2 ^ 64 \<Longrightarrow>
     ConsumeLoop input v n = (True, dropWhile is_digit input,
       word_of_nat (shift_in (unat v) (takeWhile is_digit input)), n + length (takeWhile is_digit input))"
  "\<not> shift_in (unat v) (takeWhile is_digit input) < 2 ^ 64 \<Longrightarrow> \<not> fst (ConsumeLoop input v n)"
proof (induction input arbitrary: v n)
  case (Cons c cs)
  {
    case 1
    let ?v = "unat v * 10 + (of_char c - 48)" and ?w = "v * 10 + word_of_nat (of_char c - 48)"
    show ?case
    proof (cases "is_digit c")
      case True
      then have "shift_in ?v (takeWhile is_digit cs) < 2 ^ 64" using 1 by (simp add: shift_in_Cons)
      moreover from this have "\<not> 2 ^ 64 \<le> ?v" using shift_in_mono [of ?v] by (meson le_less_trans not_le)
      ultimately show ?thesis using True Cons.IH(1) [of ?w "Suc n"] overflow_test(2) [OF True]
        by (simp only: ConsumeLoop_step takeWhile.simps dropWhile.simps shift_in_Cons if_True if_False) simp
    qed (simp add: shift_in_def)
  next
    case 2
    let ?v = "unat v * 10 + (of_char c - 48)" and ?w = "v * 10 + word_of_nat (of_char c - 48)"
    show ?case
    proof (cases "is_digit c")
      case True
      then have "\<not> shift_in ?v (takeWhile is_digit cs) < 2 ^ 64" using 2 by (simp add: shift_in_Cons)
      then show ?thesis using Cons.IH(2) [of ?w "Suc n"] overflow_test(2) [OF True]
        by (cases "2 ^ 64 \<le> ?v") (simp_all only: ConsumeLoop_step [OF True] if_True if_False fst_conv simp_thms)
    qed (use 2 unat_u64 [of v] in \<open>simp add: shift_in_def\<close>)
  }
qed (use unat_u64 in \<open>simp_all add: shift_in_def\<close>)

lemma ConsumeDecimalNumber_spec:
  "digit_value (takeWhile is_digit input) < 2 ^ 64 \<Longrightarrow>
     ConsumeDecimalNumber input val = (takeWhile is_digit input \<noteq> [], dropWhile is_digit input,
       word_of_nat (digit_value (takeWhile is_digit input)))"
  "\<not> digit_value (takeWhile is_digit input) < 2 ^ 64 \<Longrightarrow> \<not> fst (ConsumeDecimalNumber input val)"
proof -
  have d: "digit_value ds = shift_in (unat (0 :: u64)) ds" for ds by (simp add: digit_value_def shift_in_def)
  show "digit_value (takeWhile is_digit input) < 2 ^ 64 \<Longrightarrow>
     ConsumeDecimalNumber input val = (takeWhile is_digit input \<noteq> [], dropWhile is_digit input,
       word_of_nat (digit_value (takeWhile is_digit input)))"
    unfolding d ConsumeDecimalNumber_def by (subst ConsumeLoop_spec(1)) simp_all
  show "\<not> digit_value (takeWhile is_digit input) < 2 ^ 64 \<Longrightarrow> \<not> fst (ConsumeDecimalNumber input val)"
    unfolding d ConsumeDecimalNumber_def using ConsumeLoop_spec(2) [of 0 input 0] by (auto split: prod.splits)
qed

subsection \<open>Parsing names\<close>

lemma parse_digits:
  assumes "\<forall>c \<in> set ds. is_digit c" and "ds \<noteq> []" and "r = [] \<or> \<not> is_digit (hd r)" and "digit_value ds = unat n"
  shows "ConsumeDecimalNumber (ds @ r) val = (True, r, n)"
proof -
  have "takeWhile is_digit r = []" "dropWhile is_digit r = r" using assms(3) by (cases r; auto)+
  then show ?thesis
    using assms unat_u64 [of n] by (subst ConsumeDecimalNumber_spec(1)) simp_all
qed

lemma digits_not_letters:
  assumes "\<forall>c \<in> set ds. is_digit c" and "ds \<noteq> []"
  shows "ds @ r \<noteq> ''CURRENT''" "ds @ r \<noteq> ''LOCK''" "ds @ r \<noteq> ''LOG''" "ds @ r \<noteq> ''LOG.old''" "take 9 (ds @ r) \<noteq> ''MANIFEST-''"
proof -
  obtain c cs where "ds = c # cs" "is_digit c" using assms by (cases ds) auto
  then show "ds @ r \<noteq> ''CURRENT''" "ds @ r \<noteq> ''LOCK''" "ds @ r \<noteq> ''LOG''" "ds @ r \<noteq> ''LOG.old''" "take 9 (ds @ r) \<noteq> ''MANIFEST-''"
    by (auto simp: is_digit_def)
qed

definition number_suffix :: "FileType \<Rightarrow> string list" where
  "number_suffix t = (case t of kLogFile \<Rightarrow> [''.log''] | kTableFile \<Rightarrow> [''.sst'', ''.ldb''] | kTempFile \<Rightarrow> [''.dbtmp''] | _ \<Rightarrow> [])"

lemma parse_numbered:
  assumes "\<forall>c \<in> set ds. is_digit c" and "ds \<noteq> []" and "digit_value ds = unat n" and "r \<in> set (number_suffix t)"
  shows "ParseFileName (ds @ r) = Some (n, t)"
proof -
  have "r = [] \<or> \<not> is_digit (hd r)" using assms(4) by (auto simp: number_suffix_def is_digit_def split: FileType.splits)
  from parse_digits [OF assms(1,2) this assms(3)] digits_not_letters [OF assms(1,2)] show ?thesis
    using assms(4) by (auto simp: ParseFileName_def number_suffix_def split: FileType.splits)
qed

lemma parse_descriptor:
  assumes "\<forall>c \<in> set ds. is_digit c" and "ds \<noteq> []" and "digit_value ds = unat n"
  shows "ParseFileName (''MANIFEST-'' @ ds) = Some (n, kDescriptorFile)"
  using parse_digits [OF assms(1,2) _ assms(3), of "[]"] by (simp add: ParseFileName_def)



subsection \<open>The current descriptor\<close>

text \<open>
  The file operations of \<open>include/leveldb/env.h\<close> that \<open>SetCurrentFile\<close> uses are a parameter. A
  writable file is named by its name; \<open>ReleaseFile\<close> is its destructor.
\<close>

record 's file_env =
  NewWritableFile :: "string \<Rightarrow> 's \<Rightarrow> Status \<times> 's"
  WritableAppend :: "string \<Rightarrow> byte list \<Rightarrow> 's \<Rightarrow> Status \<times> 's"
  WritableSync :: "string \<Rightarrow> 's \<Rightarrow> Status \<times> 's"
  WritableClose :: "string \<Rightarrow> 's \<Rightarrow> Status \<times> 's"
  ReleaseFile :: "string \<Rightarrow> 's \<Rightarrow> 's"
  RenameFile :: "string \<Rightarrow> string \<Rightarrow> 's \<Rightarrow> Status \<times> 's"
  RemoveFile :: "string \<Rightarrow> 's \<Rightarrow> Status \<times> 's"

definition DoWriteStringToFile :: "'s file_env \<Rightarrow> byte list \<Rightarrow> string \<Rightarrow> bool \<Rightarrow> 's \<Rightarrow> Status \<times> 's" where
  "DoWriteStringToFile env data fname should_sync st =
     (let (s, st) = NewWritableFile env fname st
      in if s \<noteq> OK then (s, st)
         else
           let (s, st) = WritableAppend env fname data st;
               (s, st) = (if s = OK \<and> should_sync then WritableSync env fname st else (s, st));
               (s, st) = (if s = OK then WritableClose env fname st else (s, st));
               st = ReleaseFile env fname st;
               st = (if s \<noteq> OK then snd (RemoveFile env fname st) else st)
           in (s, st))"

definition WriteStringToFile :: "'s file_env \<Rightarrow> byte list \<Rightarrow> string \<Rightarrow> 's \<Rightarrow> Status \<times> 's" where
  "WriteStringToFile env data fname = DoWriteStringToFile env data fname False"

definition WriteStringToFileSync :: "'s file_env \<Rightarrow> byte list \<Rightarrow> string \<Rightarrow> 's \<Rightarrow> Status \<times> 's" where
  "WriteStringToFileSync env data fname = DoWriteStringToFile env data fname True"

definition string_bytes :: "string \<Rightarrow> byte list" where
  "string_bytes s = map (\<lambda>c. word_of_nat (of_char c)) s"

definition SetCurrentFile :: "'s file_env \<Rightarrow> string \<Rightarrow> u64 \<Rightarrow> 's \<Rightarrow> Status \<times> 's" where
  "SetCurrentFile env dbname descriptor_number st =
     (let manifest = DescriptorFileName dbname descriptor_number;
          contents = drop (length dbname + 1) manifest;
          tmp = TempFileName dbname descriptor_number;
          (s, st) = WriteStringToFileSync env (string_bytes (contents @ [CHR 0x0A])) tmp st;
          (s, st) = (if s = OK then RenameFile env tmp (CurrentFileName dbname) st else (s, st));
          st = (if s \<noteq> OK then snd (RemoveFile env tmp st) else st)
      in (s, st))"

text \<open>How \<open>VersionSet::Recover\<close> reads the name of the descriptor off the contents of \<open>CURRENT\<close>.\<close>

definition current_descriptor :: "byte list \<Rightarrow> Status + string" where
  "current_descriptor current =
     (if current = [] \<or> last current \<noteq> 0x0A
      then Inl (Corruption ''CURRENT file does not end with newline'')
      else Inr (map (\<lambda>b. char_of (unat b)) (butlast current)))"

text \<open>
  What the environment promises: an operation changes no file but those it names, a successful
  one has its effect, and renaming is atomic.
\<close>

definition touches ::
  "('s \<Rightarrow> string \<Rightarrow> byte list option) \<Rightarrow> string \<Rightarrow> 's \<Rightarrow> Status \<times> 's \<Rightarrow> byte list option \<Rightarrow> bool" where
  "touches contents f st r new \<longleftrightarrow>
     (\<exists>c. contents (snd r) = (contents st)(f := c) \<and> (fst r = OK \<longrightarrow> c = new))"

definition env_laws :: "'s file_env \<Rightarrow> ('s \<Rightarrow> string \<Rightarrow> byte list option) \<Rightarrow> bool" where
  "env_laws env contents \<longleftrightarrow>
     (\<forall>f st. touches contents f st (NewWritableFile env f st) (Some [])) \<and>
     (\<forall>f data st. touches contents f st (WritableAppend env f data st) (map_option (\<lambda>d. d @ data) (contents st f))) \<and>
     (\<forall>f st. touches contents f st (WritableSync env f st) (contents st f)) \<and>
     (\<forall>f st. touches contents f st (WritableClose env f st) (contents st f)) \<and>
     (\<forall>f st. contents (ReleaseFile env f st) = contents st) \<and>
     (\<forall>f g st. contents (snd (RenameFile env f g st)) =
        (if fst (RenameFile env f g st) = OK then (contents st)(g := contents st f, f := None) else contents st)) \<and>
     (\<forall>f st. touches contents f st (RemoveFile env f st) None)"

lemma env_lawsD:
  assumes "env_laws env contents"
  shows "touches contents f st (NewWritableFile env f st) (Some [])"
    "touches contents f st (WritableAppend env f data st) (map_option (\<lambda>d. d @ data) (contents st f))"
    "touches contents f st (WritableSync env f st) (contents st f)"
    "touches contents f st (WritableClose env f st) (contents st f)"
    "contents (ReleaseFile env f st) = contents st"
    "contents (snd (RenameFile env f g st)) =
      (if fst (RenameFile env f g st) = OK then (contents st)(g := contents st f, f := None) else contents st)"
    "touches contents f st (RemoveFile env f st) None"
  using assms unfolding env_laws_def by blast+

lemma touchesE:
  assumes "touches contents f st r new" and "r = (s, st')"
  obtains c where "contents st' = (contents st)(f := c)" "s = OK \<longrightarrow> c = new"
  using assms by (auto simp: touches_def)

lemma DoWriteStringToFile_effect:
  assumes "env_laws env contents" and "DoWriteStringToFile env data f do_sync st = (s, st')"
  shows "\<exists>c. contents st' = (contents st)(f := c) \<and> (s = OK \<longrightarrow> c = Some data)"
proof -
  obtain s1 st1 where 1: "NewWritableFile env f st = (s1, st1)" by fastforce
  obtain s2 st2 where 2: "WritableAppend env f data st1 = (s2, st2)" by fastforce
  obtain s3 st3 where 3: "(if s2 = OK \<and> do_sync then WritableSync env f st2 else (s2, st2)) = (s3, st3)" by fastforce
  obtain s4 st4 where 4: "(if s3 = OK then WritableClose env f st3 else (s3, st3)) = (s4, st4)" by fastforce
  obtain s5 st5 where 5: "RemoveFile env f (ReleaseFile env f st4) = (s5, st5)" by fastforce
  note L = env_lawsD [OF assms(1)]
  obtain c1 where c1: "contents st1 = (contents st)(f := c1)" "s1 = OK \<longrightarrow> c1 = Some []"
    by (rule touchesE [OF L(1) 1])
  obtain c2 where c2: "contents st2 = (contents st1)(f := c2)" "s2 = OK \<longrightarrow> c2 = map_option (\<lambda>d. d @ data) (contents st1 f)"
    by (rule touchesE [OF L(2) 2])
  have same: "\<exists>c. contents st' = (contents st)(f := c) \<and> (s = OK \<longrightarrow> a = OK \<and> c = contents st f)"
    if "(if P then op f st else (a, st)) = (s, st')" "P \<longrightarrow> a = OK" "\<And>f st. touches contents f st (op f st) (contents st f)"
    for P op a s st st'
  proof (cases P)
    case True
    with that have "touches contents f st (s, st') (contents st f)" by metis
    then show ?thesis using True that(2) by (auto elim: touchesE)
  qed (use that in \<open>auto intro!: exI [of _ "contents st' f"]\<close>)
  from same [OF 3 _ L(3)] obtain c3 where c3: "contents st3 = (contents st2)(f := c3)" "s3 = OK \<longrightarrow> s2 = OK \<and> c3 = contents st2 f" by blast
  from same [OF 4 _ L(4)] obtain c4 where c4: "contents st4 = (contents st3)(f := c4)" "s4 = OK \<longrightarrow> s3 = OK \<and> c4 = contents st3 f" by blast
  obtain c5 where c5: "contents st5 = (contents (ReleaseFile env f st4))(f := c5)" by (rule touchesE [OF L(7) 5])
  have r: "contents (ReleaseFile env f st4) = contents st4" by (rule L(5))
  have "(s, st') = (if s1 \<noteq> OK then (s1, st1) else if s4 \<noteq> OK then (s4, st5) else (s4, ReleaseFile env f st4))"
    using assms(2) unfolding DoWriteStringToFile_def Let_def 1 prod.case 2 3 4 5 snd_conv by auto
  then show ?thesis using c1 c2 c3 c4 c5 r by (auto split: if_splits)
qed

lemma temp_not_current: "TempFileName dbname n \<noteq> CurrentFileName dbname"
proof
  assume "TempFileName dbname n = CurrentFileName dbname"
  then have "pad6 (decimal (unat n)) @ ''.dbtmp'' = ''CURRENT''"
    by (simp add: TempFileName_def MakeFileName_def CurrentFileName_def)
  with digits_not_letters(1) [OF pad6_digits(1,3)] show False by blast
qed

lemma string_bytes_back: "map (\<lambda>b. char_of (unat b)) (string_bytes s) = s"
proof -
  have "unat (word_of_nat (of_char c) :: byte) = of_char c" for c
  proof -
    have "(of_char c :: nat) < 256" by simp
    then show ?thesis by (simp add: unat_of_nat)
  qed
  then show ?thesis by (simp add: string_bytes_def o_def)
qed

subsection \<open>Properties\<close>

text \<open>
  C27 (ldb_filename_roundtrip). Every name that the database gives a file is parsed back, without
  the directory, into the kind and the number it was made from, for all 64-bit numbers.
\<close>

theorem ldb_filename_roundtrip:
  "\<exists>log_base table_base sst_base temp_base descriptor_base.
    LogFileName d n = d @ ''/'' @ log_base \<and> ParseFileName log_base = Some (n, kLogFile) \<and>
    TableFileName d n = d @ ''/'' @ table_base \<and> ParseFileName table_base = Some (n, kTableFile) \<and>
    SSTTableFileName d n = d @ ''/'' @ sst_base \<and> ParseFileName sst_base = Some (n, kTableFile) \<and>
    TempFileName d n = d @ ''/'' @ temp_base \<and> ParseFileName temp_base = Some (n, kTempFile) \<and>
    DescriptorFileName d n = d @ ''/'' @ descriptor_base \<and> ParseFileName descriptor_base = Some (n, kDescriptorFile) \<and>
    ParseFileName (drop (length d + 1) (CurrentFileName d)) = Some (0, kCurrentFile) \<and>
    ParseFileName (drop (length d + 1) (LockFileName d)) = Some (0, kDBLockFile) \<and>
    ParseFileName (drop (length d + 1) (InfoLogFileName d)) = Some (0, kInfoLogFile) \<and>
    ParseFileName (drop (length d + 1) (OldInfoLogFileName d)) = Some (0, kInfoLogFile)"
proof -
  let ?ds = "pad6 (decimal (unat n))"
  note p = parse_numbered [OF pad6_digits(1,3,2)]
  have "ParseFileName (?ds @ ''.log'') = Some (n, kLogFile)" "ParseFileName (?ds @ ''.ldb'') = Some (n, kTableFile)"
    "ParseFileName (?ds @ ''.sst'') = Some (n, kTableFile)" "ParseFileName (?ds @ ''.dbtmp'') = Some (n, kTempFile)"
    by (rule p; simp add: number_suffix_def)+
  moreover have "ParseFileName (''MANIFEST-'' @ ?ds) = Some (n, kDescriptorFile)"
    by (rule parse_descriptor [OF pad6_digits(1,3,2)])
  moreover have "LogFileName d n = d @ ''/'' @ ?ds @ ''.log''" "TableFileName d n = d @ ''/'' @ ?ds @ ''.ldb''"
    "SSTTableFileName d n = d @ ''/'' @ ?ds @ ''.sst''" "TempFileName d n = d @ ''/'' @ ?ds @ ''.dbtmp''"
    "DescriptorFileName d n = d @ ''/'' @ ''MANIFEST-'' @ ?ds"
    by (simp_all add: LogFileName_def TableFileName_def SSTTableFileName_def TempFileName_def DescriptorFileName_def MakeFileName_def)
  moreover have "ParseFileName (drop (length d + 1) (CurrentFileName d)) = Some (0, kCurrentFile)"
    "ParseFileName (drop (length d + 1) (LockFileName d)) = Some (0, kDBLockFile)"
    "ParseFileName (drop (length d + 1) (InfoLogFileName d)) = Some (0, kInfoLogFile)"
    "ParseFileName (drop (length d + 1) (OldInfoLogFileName d)) = Some (0, kInfoLogFile)"
    by (simp_all add: CurrentFileName_def LockFileName_def InfoLogFileName_def OldInfoLogFileName_def ParseFileName_def)
  ultimately show ?thesis by (intro exI conjI) assumption+
qed



text \<open>
  C26 (ldb_set_current). Whatever file operation fails, \<open>SetCurrentFile\<close> leaves \<open>CURRENT\<close> as it
  was or, exactly if it reports success, names the new descriptor in it, which recovery reads
  back; besides \<open>CURRENT\<close> only its temporary file can change.
\<close>

theorem ldb_set_current:
  assumes "env_laws env contents" and "SetCurrentFile env dbname n st = (s, st')"
  shows "(\<forall>f. f \<noteq> CurrentFileName dbname \<longrightarrow> f \<noteq> TempFileName dbname n \<longrightarrow> contents st' f = contents st f) \<and>
    (if s = OK
     then \<exists>c name. contents st' (CurrentFileName dbname) = Some c \<and> current_descriptor c = Inr name \<and>
       DescriptorFileName dbname n = dbname @ ''/'' @ name \<and> ParseFileName name = Some (n, kDescriptorFile)
     else contents st' (CurrentFileName dbname) = contents st (CurrentFileName dbname))"
proof -
  let ?name = "''MANIFEST-'' @ pad6 (decimal (unat n))" and ?tmp = "TempFileName dbname n" and ?cur = "CurrentFileName dbname"
  let ?c = "string_bytes (?name @ [CHR 0x0A])"
  have name: "drop (length dbname + 1) (DescriptorFileName dbname n) = ?name" by (simp add: DescriptorFileName_def)
  obtain s1 st1 where 1: "WriteStringToFileSync env (string_bytes (?name @ [CHR 0x0A])) ?tmp st = (s1, st1)" by fastforce
  obtain s2 st2 where 2: "(if s1 = OK then RenameFile env ?tmp ?cur st1 else (s1, st1)) = (s2, st2)" by fastforce
  obtain s3 st3 where 3: "RemoveFile env ?tmp st2 = (s3, st3)" by fastforce
  have r: "s = s2" "st' = (if s2 \<noteq> OK then st3 else st2)"
    using assms(2) unfolding SetCurrentFile_def Let_def name 1 prod.case 2 3 snd_conv by auto
  obtain c where c: "contents st1 = (contents st)(?tmp := c)" "s1 = OK \<longrightarrow> c = Some ?c"
    using DoWriteStringToFile_effect [OF assms(1) 1 [unfolded WriteStringToFileSync_def]] by blast
  have m: "contents st2 = (if s2 = OK then (contents st1)(?cur := contents st1 ?tmp, ?tmp := None) else contents st1)"
    "s2 = OK \<longrightarrow> s1 = OK"
    using 2 env_lawsD(6) [OF assms(1), of ?tmp ?cur st1] by (auto split: if_splits)
  obtain d where d: "contents st3 = (contents st2)(?tmp := d)"
    by (rule touchesE [OF env_lawsD(7) [OF assms(1)] 3])
  have "current_descriptor ?c = Inr ?name"
  proof -
    have "?c = string_bytes ?name @ [0x0A]" by (simp add: string_bytes_def)
    then show ?thesis by (simp add: current_descriptor_def string_bytes_back del: append_Cons)
  qed
  moreover have "DescriptorFileName dbname n = dbname @ ''/'' @ ?name" by (simp add: DescriptorFileName_def)
  moreover have "ParseFileName ?name = Some (n, kDescriptorFile)" by (rule parse_descriptor [OF pad6_digits(1,3,2)])
  ultimately show ?thesis
    using c m d temp_not_current [of dbname n] unfolding r by (auto simp del: append_Cons)
qed

text \<open>An environment that keeps its files in memory and never fails.\<close>

definition memory_env :: "(string \<Rightarrow> byte list option) file_env" where
  "memory_env =
     \<lparr>NewWritableFile = (\<lambda>f st. (OK, st(f := Some []))),
      WritableAppend = (\<lambda>f data st. (OK, st(f := map_option (\<lambda>d. d @ data) (st f)))),
      WritableSync = (\<lambda>f st. (OK, st)), WritableClose = (\<lambda>f st. (OK, st)), ReleaseFile = (\<lambda>f st. st),
      RenameFile = (\<lambda>f g st. (OK, st(g := st f, f := None))), RemoveFile = (\<lambda>f st. (OK, st(f := None)))\<rparr>"

lemma memory_env_laws: "env_laws memory_env (\<lambda>st. st)"
  unfolding env_laws_def touches_def memory_env_def by auto

theorem ldb_set_current_witness:
  "\<exists>st' c name. SetCurrentFile memory_env ''db'' 5 Map.empty = (OK, st') \<and> st' ''db/CURRENT'' = Some c \<and>
    current_descriptor c = Inr name \<and> ParseFileName name = Some (5, kDescriptorFile)"
proof -
  obtain s st' where r: "SetCurrentFile memory_env ''db'' 5 Map.empty = (s, st')" by fastforce
  then have "s = OK"
    by (simp add: SetCurrentFile_def WriteStringToFileSync_def DoWriteStringToFile_def memory_env_def Let_def)
  with ldb_set_current [OF memory_env_laws r] r show ?thesis by (auto simp: CurrentFileName_def)
qed

end
