(* ===== verification/LDB_Bloom.thy ===== *)
theory LDB_Bloom
  imports LDB_Coding
begin

text \<open>
  LevelDB's hash function (\<open>util/hash.cc\<close>) and its Bloom filter (\<open>util/bloom.cc\<close>).
\<close>

unbundle bit_operations_syntax

subsection \<open>Hash\<close>

definition hash_m :: u32 where "hash_m = 0xc6a4a793"

definition hash_r :: nat where "hash_r = 24"

text \<open>The loop over four bytes at a time; it leaves at most three bytes.\<close>

fun hash_words :: "u32 \<Rightarrow> byte list \<Rightarrow> u32 \<times> byte list" where
  "hash_words h (a # b # c # d # data) =
     (let w = DecodeFixed32 [a, b, c, d];
          h = h + w;
          h = h * hash_m;
          h = h XOR drop_bit 16 h
      in hash_words h data)"
| "hash_words h data = (h, data)"

definition hash_tail :: "u32 \<Rightarrow> byte list \<Rightarrow> u32" where
  "hash_tail h data =
     (if data = [] then h
      else
        let h = (if length data = 3 then h + push_bit 16 (ucast (data ! 2)) else h);
            h = (if length data \<ge> 2 then h + push_bit 8 (ucast (data ! 1)) else h);
            h = h + ucast (data ! 0);
            h = h * hash_m
        in h XOR drop_bit hash_r h)"

definition Hash :: "byte list \<Rightarrow> u32 \<Rightarrow> u32" where
  "Hash data seed =
     (let h = seed XOR (word_of_nat (length data) * hash_m)
      in case hash_words h data of (h, data) \<Rightarrow> hash_tail h data)"

lemma hash_words_rest: "length (snd (hash_words h data)) = length data mod 4"
  by (induction h data rule: hash_words.induct) (simp_all add: Let_def)

subsection \<open>The Bloom filter\<close>

definition BloomHash :: "byte list \<Rightarrow> u32" where
  "BloomHash key = Hash key 0xbc9f1d34"

text \<open>
  The policy keeps its number of bits per key and of probes. The product with the
  floating-point constant 0.69 is rounded down; it is at least 0.01 away from an integer
  below 100 bits per key, and above that the bound of 30 applies, so the integer division
  is the value the code computes.
\<close>

record bloom_policy =
  bits_per_key :: nat
  bloom_k :: nat

definition BloomFilterPolicy :: "nat \<Rightarrow> bloom_policy" where
  "BloomFilterPolicy bpk =
     (let k = bpk * 69 div 100;
          k = (if k < 1 then 1 else k);
          k = (if k > 30 then 30 else k)
      in \<lparr>bits_per_key = bpk, bloom_k = k\<rparr>)"

definition bloom_delta :: "u32 \<Rightarrow> u32" where
  "bloom_delta h = drop_bit 17 h OR push_bit 15 h"

text \<open>The inner loops: \<open>j\<close> probes remain.\<close>

fun set_probes :: "nat \<Rightarrow> nat \<Rightarrow> u32 \<Rightarrow> u32 \<Rightarrow> byte list \<Rightarrow> byte list" where
  "set_probes 0 bits delta h array = array"
| "set_probes (Suc j) bits delta h array =
     (let bitpos = unat h mod bits;
          array = array[bitpos div 8 := array ! (bitpos div 8) OR push_bit (bitpos mod 8) 1]
      in set_probes j bits delta (h + delta) array)"

fun test_probes :: "nat \<Rightarrow> nat \<Rightarrow> u32 \<Rightarrow> u32 \<Rightarrow> byte list \<Rightarrow> bool" where
  "test_probes 0 bits delta h array = True"
| "test_probes (Suc j) bits delta h array =
     (let bitpos = unat h mod bits
      in if array ! (bitpos div 8) AND push_bit (bitpos mod 8) 1 = 0 then False
         else test_probes j bits delta (h + delta) array)"

fun add_keys :: "nat \<Rightarrow> nat \<Rightarrow> byte list list \<Rightarrow> byte list \<Rightarrow> byte list" where
  "add_keys k bits [] array = array"
| "add_keys k bits (key # keys) array =
     (let h = BloomHash key
      in add_keys k bits keys (set_probes k bits (bloom_delta h) h array))"

definition bloom_bytes :: "bloom_policy \<Rightarrow> nat \<Rightarrow> nat" where
  "bloom_bytes self n =
     (let bits = n * bits_per_key self;
          bits = (if bits < 64 then 64 else bits)
      in (bits + 7) div 8)"

definition CreateFilter :: "bloom_policy \<Rightarrow> byte list list \<Rightarrow> byte list \<Rightarrow> byte list" where
  "CreateFilter self keys dst =
     (let bytes = bloom_bytes self (length keys);
          bits = bytes * 8
      in dst @ add_keys (bloom_k self) bits keys (replicate bytes 0) @ [word_of_nat (bloom_k self)])"

definition KeyMayMatch :: "byte list \<Rightarrow> byte list \<Rightarrow> bool" where
  "KeyMayMatch key bloom_filter =
     (let len = length bloom_filter
      in if len < 2 then False
         else
           let array = bloom_filter;
               bits = (len - 1) * 8;
               k = unat (scast (array ! (len - 1)) :: u64)
           in if k > 30 then True
              else let h = BloomHash key in test_probes k bits (bloom_delta h) h array)"

subsection \<open>No false negatives\<close>

text \<open>An array covers another when it has all its bits.\<close>

definition covers :: "byte list \<Rightarrow> byte list \<Rightarrow> bool" where
  "covers a b \<longleftrightarrow> length a \<le> length b \<and> (\<forall>i < length a. \<forall>n. bit (a ! i) n \<longrightarrow> bit (b ! i) n)"

lemma covers_refl [simp, intro]: "covers a a"
  by (simp add: covers_def)

lemma covers_trans [trans]: "covers a b \<Longrightarrow> covers b c \<Longrightarrow> covers a c"
  by (auto simp: covers_def)

lemma covers_append [intro]: "covers a b \<Longrightarrow> covers a (b @ c)"
  by (auto simp: covers_def nth_append)

lemma covers_set: "covers a (a[i := a ! i OR x])"
  by (cases "i < length a") (auto simp: covers_def nth_list_update bit_simps)

lemma set_probes_length [simp]: "length (set_probes j bits d h a) = length a"
  by (induction j arbitrary: h a) (simp_all add: Let_def)

lemma set_probes_covers: "covers a (set_probes j bits d h a)"
proof (induction j arbitrary: h a)
  case (Suc j)
  show ?case
    unfolding set_probes.simps Let_def by (rule covers_trans [OF covers_set Suc])
qed simp

lemma add_keys_length [simp]: "length (add_keys k bits keys a) = length a"
  by (induction keys arbitrary: a) (simp_all add: Let_def)

lemma add_keys_covers: "covers a (add_keys k bits keys a)"
proof (induction keys arbitrary: a)
  case (Cons key keys)
  show ?case
    unfolding add_keys.simps Let_def by (rule covers_trans [OF set_probes_covers Cons])
qed simp

lemma test_bit_byte: "x AND 2 ^ n = 0 \<longleftrightarrow> \<not> bit x n" for x :: byte
  by (rule and_exp_eq_0_iff_not_bit)

lemma probe_in_range: "bits = 8 * length a \<Longrightarrow> 0 < bits \<Longrightarrow> m mod bits div 8 < length a"
  by (simp add: less_mult_imp_div_less mult.commute)

lemma test_probes_covers:
  assumes "covers a b" and "bits = 8 * length a" and "0 < bits"
  shows "test_probes j bits d h a \<Longrightarrow> test_probes j bits d h b"
proof (induction j arbitrary: h)
  case (Suc j)
  have "unat h mod bits div 8 < length a" by (rule probe_in_range [OF assms(2,3)])
  with assms(1) Suc show ?case by (simp add: Let_def test_bit_byte covers_def split: if_splits)
qed simp

lemma set_probes_test:
  assumes "bits = 8 * length a" and "0 < bits"
  shows "test_probes j bits d h (set_probes j bits d h a)"
  using assms
proof (induction j arbitrary: h a)
  case (Suc j)
  let ?p = "unat h mod bits"
  let ?a = "a[?p div 8 := a ! (?p div 8) OR push_bit (?p mod 8) 1]"
  have r: "?p div 8 < length a" by (rule probe_in_range [OF Suc(2,3)])
  have "bit (?a ! (?p div 8)) (?p mod 8)"
    using r by (simp add: bit_simps)
  with set_probes_covers [of ?a j bits d "h + d"] r
  have "bit (set_probes j bits d (h + d) ?a ! (?p div 8)) (?p mod 8)"
    by (simp add: covers_def)
  with Suc(1) [of ?a "h + d"] Suc(2,3) show ?case by (simp add: Let_def test_bit_byte)
qed simp

lemma add_keys_test:
  assumes "key \<in> set keys" and "bits = 8 * length a" and "0 < bits"
  shows "test_probes k bits (bloom_delta (BloomHash key)) (BloomHash key) (add_keys k bits keys a)"
  using assms
proof (induction keys arbitrary: a)
  case (Cons x keys)
  let ?s = "set_probes k bits (bloom_delta (BloomHash x)) (BloomHash x) a"
  show ?case
  proof (cases "key = x")
    case True
    have "test_probes k bits (bloom_delta (BloomHash key)) (BloomHash key) ?s"
      unfolding True by (rule set_probes_test) (use Cons in simp_all)
    then show ?thesis
      using test_probes_covers [OF add_keys_covers [of ?s k bits keys]] Cons(3,4)
      by (simp add: Let_def)
  next
    case False
    with Cons.prems Cons.IH [of ?s] show ?thesis by (simp add: Let_def)
  qed
qed simp

lemma bloom_bytes_ge: "8 \<le> bloom_bytes self n"
  unfolding bloom_bytes_def Let_def using div_le_mono [of 64 "n * bits_per_key self + 7" 8] by auto

lemma scast_small: "k < 128 \<Longrightarrow> unat (scast (word_of_nat k :: byte) :: u64) = k"
proof -
  assume k: "k < 128"
  have "sint (word_of_nat k :: byte) = int k"
    using k by (simp add: signed_of_nat signed_take_bit_int_eq_self)
  then have "(scast (word_of_nat k :: byte) :: u64) = word_of_int (int k)"
    by (simp add: scast_eq)
  with k show ?thesis by (simp add: unat_of_nat)
qed

text \<open>What \<open>KeyMayMatch\<close> does on a filter laid out by \<open>CreateFilter\<close>.\<close>

lemma KeyMayMatch_layout:
  assumes "8 \<le> length a" and "k \<le> 30"
  shows "KeyMayMatch key (a @ [word_of_nat k]) =
    test_probes k (length a * 8) (bloom_delta (BloomHash key)) (BloomHash key) (a @ [word_of_nat k])"
proof -
  have "a \<noteq> []" using assms(1) by auto
  with assms show ?thesis by (simp add: KeyMayMatch_def Let_def scast_small mult.commute)
qed

lemma bloom_no_false_negative:
  assumes "key \<in> set keys" and "bloom_k self \<le> 30"
  shows "KeyMayMatch key (drop (length dst) (CreateFilter self keys dst))"
proof -
  let ?n = "bloom_bytes self (length keys)"
  let ?a = "add_keys (bloom_k self) (?n * 8) keys (replicate ?n 0)"
  have n: "8 \<le> ?n" by (rule bloom_bytes_ge)
  have "test_probes (bloom_k self) (?n * 8) (bloom_delta (BloomHash key)) (BloomHash key) ?a"
    using n by (intro add_keys_test assms(1)) simp_all
  moreover have "covers ?a (?a @ [word_of_nat (bloom_k self)])" by auto
  ultimately show ?thesis
    using n assms(2) test_probes_covers [of ?a "?a @ [word_of_nat (bloom_k self)]" "?n * 8"]
    by (simp add: CreateFilter_def Let_def KeyMayMatch_layout mult.commute)
qed

lemma BloomFilterPolicy_k: "1 \<le> bloom_k (BloomFilterPolicy n)" "bloom_k (BloomFilterPolicy n) \<le> 30"
  by (simp_all add: BloomFilterPolicy_def Let_def)

lemma test_probes_zero: "0 < j \<Longrightarrow> (\<And>i. i < length a \<Longrightarrow> a ! i = 0) \<Longrightarrow> bits = 8 * length a \<Longrightarrow> 0 < bits
   \<Longrightarrow> \<not> test_probes j bits d h (a @ b)"
  using probe_in_range [of bits a "unat h"]
  by (cases j) (auto simp: Let_def nth_append)

subsection \<open>The policy interface\<close>

text \<open>
  \<open>FilterPolicy\<close> (\<open>leveldb/filter_policy.h\<close>): \<open>CreateFilter\<close> appends a filter of
  the keys, and \<open>KeyMayMatch\<close> must hold for each of them. The filter block and the
  policy on internal keys are proved against this contract.
\<close>

locale filter_policy =
  fixes create :: "byte list list \<Rightarrow> byte list \<Rightarrow> byte list"
    and may_match :: "byte list \<Rightarrow> byte list \<Rightarrow> bool"
  assumes appends: "create keys dst = dst @ create keys []"
    and matches: "key \<in> set keys \<Longrightarrow> may_match key (create keys [])"
begin

lemma matches_suffix: "key \<in> set keys \<Longrightarrow> may_match key (drop (length dst) (create keys dst))"
  using appends [of keys dst] matches by simp

lemma create_length: "length (create keys dst) = length dst + length (create keys [])"
  using appends [of keys dst] by simp

end

interpretation bloom: filter_policy "CreateFilter (BloomFilterPolicy n)" KeyMayMatch
proof unfold_locales
  show "CreateFilter (BloomFilterPolicy n) keys dst = dst @ CreateFilter (BloomFilterPolicy n) keys []"
    for keys dst by (simp add: CreateFilter_def Let_def)
  show "key \<in> set keys \<Longrightarrow> KeyMayMatch key (CreateFilter (BloomFilterPolicy n) keys [])" for key keys
    using bloom_no_false_negative [of key keys "BloomFilterPolicy n" "[]"]
    by (simp add: BloomFilterPolicy_k)
qed

subsection \<open>Properties\<close>

text \<open>
  C34 (ldb_bloom_no_false_negative). A key the filter was built from always matches,
  for every number of bits per key and every prefix already in the destination, although
  the stored bits are shared by all keys; the filter is at least 8 bytes of bits and the
  byte with the number of probes, which is between 1 and 30.
\<close>

theorem ldb_bloom_no_false_negative:
  assumes "key \<in> set keys"
  shows "\<exists>f. CreateFilter (BloomFilterPolicy n) keys dst = dst @ f \<and> 9 \<le> length f \<and>
    last f \<in> {1..30} \<and> KeyMayMatch key f"
proof (intro exI conjI)
  let ?f = "CreateFilter (BloomFilterPolicy n) keys []"
  let ?k = "bloom_k (BloomFilterPolicy n)"
  show "CreateFilter (BloomFilterPolicy n) keys dst = dst @ ?f" by (rule bloom.appends)
  show "9 \<le> length ?f"
    using bloom_bytes_ge [of "BloomFilterPolicy n" "length keys"]
    by (simp add: CreateFilter_def Let_def)
  have "unat (word_of_nat ?k :: byte) = ?k"
    using BloomFilterPolicy_k(2) [of n] by (simp add: unat_of_nat)
  then show "last ?f \<in> {1..30}"
    using BloomFilterPolicy_k [of n]
    by (simp add: CreateFilter_def Let_def word_le_nat_alt)
  show "KeyMayMatch key ?f" by (rule bloom.matches [OF assms])
qed

theorem ldb_bloom_no_false_negative_witness:
  "\<exists>f. CreateFilter (BloomFilterPolicy 10) [[104, 105], []] [1] = [1] @ f \<and> 9 \<le> length f \<and>
    last f \<in> {1..30} \<and> KeyMayMatch [104, 105] f"
  using ldb_bloom_no_false_negative [of "[104, 105]" "[[104, 105], []]" 10 "[1]"] by simp

text \<open>
  Theorem (ldb_bloom_empty). A filter built from no keys matches no key.
\<close>

theorem ldb_bloom_empty:
  "\<not> KeyMayMatch key (CreateFilter (BloomFilterPolicy n) [] [])"
proof -
  let ?p = "BloomFilterPolicy n"
  let ?b = "bloom_bytes ?p 0"
  have b: "8 \<le> ?b" by (rule bloom_bytes_ge)
  have "\<not> test_probes (bloom_k ?p) (?b * 8) (bloom_delta (BloomHash key)) (BloomHash key)
          (replicate ?b 0 @ [word_of_nat (bloom_k ?p)])"
    using b BloomFilterPolicy_k(1) [of n] by (intro test_probes_zero) simp_all
  with b show ?thesis
    using BloomFilterPolicy_k(2) [of n] by (simp add: CreateFilter_def Let_def KeyMayMatch_layout)
qed

end
