(* ===== verification/LDB_DbFormat.thy ===== *)
theory LDB_DbFormat
  imports LDB_Bloom
begin

text \<open>
  Keys of LevelDB: \<open>Slice::compare\<close>, the bytewise comparator (\<open>util/comparator.cc\<close>), and the
  internal keys with their comparator, filter policy and lookup keys (\<open>db/dbformat.h\<close>,
  \<open>db/dbformat.cc\<close>). The locale \<open>comparator_laws\<close> is the contract of
  \<open>leveldb/comparator.h\<close>; the bytewise comparator keeps it, and the comparator of internal
  keys keeps it whenever the user's comparator does.
\<close>

unbundle bit_operations_syntax

subsection \<open>Slices and the comparator interface\<close>

text \<open>
  \<open>memcmp\<close> on ranges of the same length; only the sign of its result is specified.
  \<open>Slice::compare\<close> (\<open>leveldb/slice.h\<close>) decides by length when one is a prefix.
\<close>

fun memcmp :: "byte list \<Rightarrow> byte list \<Rightarrow> int" where
  "memcmp (x # xs) (y # ys) = (if x < y then -1 else if y < x then 1 else memcmp xs ys)"
| "memcmp xs ys = 0"

definition slice_compare :: "byte list \<Rightarrow> byte list \<Rightarrow> int" where
  "slice_compare a b =
     (let min_len = (if length a < length b then length a else length b);
          r = memcmp (take min_len a) (take min_len b)
      in if r = 0
         then if length a < length b then -1 else if length a > length b then 1 else r
         else r)"

record comparator =
  Compare :: "byte list \<Rightarrow> byte list \<Rightarrow> int"
  FindShortestSeparator :: "byte list \<Rightarrow> byte list \<Rightarrow> byte list"
  FindShortSuccessor :: "byte list \<Rightarrow> byte list"

subsection \<open>The bytewise comparator (\<open>util/comparator.cc\<close>)\<close>

fun diff_index :: "byte list \<Rightarrow> byte list \<Rightarrow> nat" where
  "diff_index (x # xs) (y # ys) = (if x = y then Suc (diff_index xs ys) else 0)"
| "diff_index xs ys = 0"

definition bytewise_separator :: "byte list \<Rightarrow> byte list \<Rightarrow> byte list" where
  "bytewise_separator start' limit =
     (let min_length = min (length start') (length limit);
          i = diff_index start' limit
      in if i \<ge> min_length then start'
         else
           let diff_byte = start' ! i
           in if diff_byte < 0xff \<and> unat diff_byte + 1 < unat (limit ! i)
              then take (i + 1) (start'[i := start' ! i + 1])
              else start')"

text \<open>The loop of \<open>FindShortSuccessor\<close>, from index \<open>i\<close> on.\<close>

function successor_loop :: "nat \<Rightarrow> byte list \<Rightarrow> byte list" where
  "successor_loop i key =
     (if i < length key
      then if key ! i \<noteq> 0xff then take (i + 1) (key[i := key ! i + 1])
           else successor_loop (i + 1) key
      else key)"
  by pat_completeness auto
termination by (relation "measure (\<lambda>(i, key). length key - i)") auto

declare successor_loop.simps [simp del]

definition bytewise_successor :: "byte list \<Rightarrow> byte list" where
  "bytewise_successor key = successor_loop 0 key"

definition BytewiseComparator :: comparator where
  "BytewiseComparator =
     \<lparr>Compare = slice_compare, FindShortestSeparator = bytewise_separator,
      FindShortSuccessor = bytewise_successor\<rparr>"

subsection \<open>Internal keys (\<open>db/dbformat.h\<close>, \<open>db/dbformat.cc\<close>)\<close>

datatype ValueType = kTypeDeletion | kTypeValue

fun value_code :: "ValueType \<Rightarrow> u64" where
  "value_code kTypeDeletion = 0"
| "value_code kTypeValue = 1"

definition kValueTypeForSeek :: ValueType where "kValueTypeForSeek = kTypeValue"

definition kMaxSequenceNumber :: u64 where "kMaxSequenceNumber = push_bit 56 1 - 1"

record ParsedInternalKey =
  user_key :: "byte list"
  sequence :: u64
  key_type :: ValueType

definition InternalKeyEncodingLength :: "ParsedInternalKey \<Rightarrow> nat" where
  "InternalKeyEncodingLength key = length (user_key key) + 8"

definition PackSequenceAndType :: "u64 \<Rightarrow> ValueType \<Rightarrow> u64" where
  "PackSequenceAndType s t = push_bit 8 s OR value_code t"

definition AppendInternalKey :: "byte list \<Rightarrow> ParsedInternalKey \<Rightarrow> byte list" where
  "AppendInternalKey result key =
     PutFixed64 (result @ user_key key) (PackSequenceAndType (sequence key) (key_type key))"

definition InternalKey :: "byte list \<Rightarrow> u64 \<Rightarrow> ValueType \<Rightarrow> byte list" where
  "InternalKey u s t = AppendInternalKey [] \<lparr>user_key = u, sequence = s, key_type = t\<rparr>"

definition ExtractUserKey :: "byte list \<Rightarrow> byte list" where
  "ExtractUserKey internal_key = take (length internal_key - 8) internal_key"

definition key_trailer :: "byte list \<Rightarrow> u64" where
  "key_trailer internal_key = DecodeFixed64 (drop (length internal_key - 8) internal_key)"

text \<open>A type above \<open>kTypeValue\<close> makes the code return \<open>false\<close>.\<close>

definition ParseInternalKey :: "byte list \<Rightarrow> ParsedInternalKey option" where
  "ParseInternalKey internal_key =
     (let n = length internal_key
      in if n < 8 then None
         else
           let num = key_trailer internal_key;
               c = num AND 0xff
           in if c \<le> value_code kTypeValue
              then Some \<lparr>user_key = take (n - 8) internal_key, sequence = drop_bit 8 num,
                         key_type = (if c = 0 then kTypeDeletion else kTypeValue)\<rparr>
              else None)"

definition internal_compare :: "comparator \<Rightarrow> byte list \<Rightarrow> byte list \<Rightarrow> int" where
  "internal_compare user_comparator akey bkey =
     (let r = Compare user_comparator (ExtractUserKey akey) (ExtractUserKey bkey)
      in if r = 0
         then
           let anum = key_trailer akey; bnum = key_trailer bkey
           in if anum > bnum then -1 else if anum < bnum then 1 else r
         else r)"

definition internal_separator :: "comparator \<Rightarrow> byte list \<Rightarrow> byte list \<Rightarrow> byte list" where
  "internal_separator user_comparator start' limit =
     (let user_start = ExtractUserKey start';
          user_limit = ExtractUserKey limit;
          tmp = FindShortestSeparator user_comparator user_start user_limit
      in if length tmp < length user_start \<and> Compare user_comparator user_start tmp < 0
         then PutFixed64 tmp (PackSequenceAndType kMaxSequenceNumber kValueTypeForSeek)
         else start')"

definition internal_successor :: "comparator \<Rightarrow> byte list \<Rightarrow> byte list" where
  "internal_successor user_comparator key =
     (let user_key = ExtractUserKey key;
          tmp = FindShortSuccessor user_comparator user_key
      in if length tmp < length user_key \<and> Compare user_comparator user_key tmp < 0
         then PutFixed64 tmp (PackSequenceAndType kMaxSequenceNumber kValueTypeForSeek)
         else key)"

definition InternalKeyComparator :: "comparator \<Rightarrow> comparator" where
  "InternalKeyComparator c =
     \<lparr>Compare = internal_compare c, FindShortestSeparator = internal_separator c,
      FindShortSuccessor = internal_successor c\<rparr>"

text \<open>\<open>InternalFilterPolicy\<close> filters on user keys; \<open>create\<close> and \<open>may_match\<close> are the user's policy.\<close>

definition InternalCreateFilter ::
  "(byte list list \<Rightarrow> byte list \<Rightarrow> byte list) \<Rightarrow> byte list list \<Rightarrow> byte list \<Rightarrow> byte list" where
  "InternalCreateFilter create keys dst = create (map ExtractUserKey keys) dst"

definition InternalKeyMayMatch ::
  "(byte list \<Rightarrow> byte list \<Rightarrow> bool) \<Rightarrow> byte list \<Rightarrow> byte list \<Rightarrow> bool" where
  "InternalKeyMayMatch may_match key f = may_match (ExtractUserKey key) f"

text \<open>\<open>LookupKey\<close>: the bytes from \<open>start_\<close>, and where the internal key starts in them.\<close>

record lookup_key =
  lk_bytes :: "byte list"
  kstart :: nat

definition LookupKey :: "byte list \<Rightarrow> u64 \<Rightarrow> lookup_key" where
  "LookupKey ukey s =
     (let usize = length ukey;
          klen = EncodeVarint32 (word_of_nat (usize + 8))
      in \<lparr>lk_bytes = klen @ ukey @ EncodeFixed64 (PackSequenceAndType s kValueTypeForSeek),
          kstart = length klen\<rparr>)"

definition memtable_key :: "lookup_key \<Rightarrow> byte list" where
  "memtable_key k = lk_bytes k"

definition lookup_internal_key :: "lookup_key \<Rightarrow> byte list" where
  "lookup_internal_key k = drop (kstart k) (lk_bytes k)"

definition lookup_user_key :: "lookup_key \<Rightarrow> byte list" where
  "lookup_user_key k = take (length (lk_bytes k) - kstart k - 8) (drop (kstart k) (lk_bytes k))"

subsection \<open>The order of slices\<close>

lemma slice_compare_simps [simp]:
  "slice_compare [] [] = 0"
  "slice_compare [] (y # ys) = -1"
  "slice_compare (x # xs) [] = 1"
  "slice_compare (x # xs) (y # ys) = (if x < y then -1 else if y < x then 1 else slice_compare xs ys)"
  by (simp_all add: slice_compare_def Let_def)

lemma slice_compare_induct [case_names nil1 nil2 cons]:
  "(\<And>ys. P [] ys) \<Longrightarrow> (\<And>x xs. P (x # xs) []) \<Longrightarrow> (\<And>x xs y ys. P xs ys \<Longrightarrow> P (x # xs) (y # ys)) \<Longrightarrow> P xs ys"
  by (induction xs ys rule: list_induct2') auto

lemma slice_compare_eq: "slice_compare a b = 0 \<longleftrightarrow> a = b"
proof (induction a b rule: slice_compare_induct)
  case (nil1 ys)
  then show ?case by (cases ys) simp_all
qed auto

lemma slice_compare_antisym: "slice_compare b a = - slice_compare a b"
proof (induction a b rule: slice_compare_induct)
  case (nil1 ys)
  then show ?case by (cases ys) simp_all
qed auto

lemma slice_compare_lexord: "slice_compare a b < 0 \<longleftrightarrow> (a, b) \<in> lexord {(x, y). x < y}"
proof (induction a b rule: slice_compare_induct)
  case (nil1 ys)
  then show ?case by (cases ys) simp_all
qed auto

lemma slice_compare_trans: "slice_compare a b \<le> 0 \<Longrightarrow> slice_compare b c \<le> 0 \<Longrightarrow> slice_compare a c \<le> 0"
proof (induction a b arbitrary: c rule: slice_compare_induct)
  case (nil1 ys)
  then show ?case by (cases c) simp_all
next
  case (nil2 x xs)
  then show ?case by simp
next
  case (cons x xs y ys)
  then show ?case by (cases c) (auto split: if_splits)
qed

subsection \<open>The comparator contract\<close>

text \<open>
  \<open>leveldb/comparator.h\<close>: a total order on the valid keys, a separator in \<open>[start, limit)\<close>
  that is unchanged when there is no room for one, and a successor. The order alone is the
  locale \<open>key_order\<close>, on keys of any type. \<open>user_comparator\<close> is a comparator that takes every
  string.
\<close>

locale key_order =
  fixes cmp :: "'k \<Rightarrow> 'k \<Rightarrow> int"
    and valid :: "'k \<Rightarrow> bool"
  assumes antisym: "valid a \<Longrightarrow> valid b \<Longrightarrow> sgn (cmp b a) = - sgn (cmp a b)"
    and trans_le: "valid a \<Longrightarrow> valid b \<Longrightarrow> valid c \<Longrightarrow> cmp a b \<le> 0 \<Longrightarrow> cmp b c \<le> 0 \<Longrightarrow> cmp a c \<le> 0"
begin

lemma swap: "valid a \<Longrightarrow> valid b \<Longrightarrow> cmp b a < 0 \<longleftrightarrow> 0 < cmp a b"
  using antisym [of a b] by (auto simp: sgn_if split: if_splits)

lemma swap_eq: "valid a \<Longrightarrow> valid b \<Longrightarrow> cmp b a = 0 \<longleftrightarrow> cmp a b = 0"
  using antisym [of a b] by (auto simp: sgn_if split: if_splits)

lemma refl0: "valid a \<Longrightarrow> cmp a a = 0"
  using antisym [of a a] by (auto simp: sgn_if split: if_splits)

lemma le_swap: "valid a \<Longrightarrow> valid b \<Longrightarrow> cmp b a \<le> 0 \<longleftrightarrow> 0 \<le> cmp a b"
  using swap [of a b] swap [of b a] swap_eq [of a b] by (auto simp: order_le_less)

lemma less_le_trans: "valid a \<Longrightarrow> valid b \<Longrightarrow> valid c \<Longrightarrow> cmp a b < 0 \<Longrightarrow> cmp b c \<le> 0 \<Longrightarrow> cmp a c < 0"
  using trans_le [of b c a] le_swap [of a c] le_swap [of a b] by (auto simp: not_le [symmetric])

lemma le_less_trans: "valid a \<Longrightarrow> valid b \<Longrightarrow> valid c \<Longrightarrow> cmp a b \<le> 0 \<Longrightarrow> cmp b c < 0 \<Longrightarrow> cmp a c < 0"
  using trans_le [of c a b] le_swap [of a c] le_swap [of b c] by (auto simp: not_le [symmetric])

lemma eq_trans: "valid a \<Longrightarrow> valid b \<Longrightarrow> valid c \<Longrightarrow> cmp a b = 0 \<Longrightarrow> cmp b c = 0 \<Longrightarrow> cmp a c = 0"
  using trans_le [of a b c] trans_le [of c b a] le_swap [of a c] swap_eq [of a b] swap_eq [of b c]
  by (auto intro: antisym_conv1 order_antisym)

end

locale comparator_laws = key_order cmp valid
  for cmp :: "byte list \<Rightarrow> byte list \<Rightarrow> int"
    and sep :: "byte list \<Rightarrow> byte list \<Rightarrow> byte list"
    and succ :: "byte list \<Rightarrow> byte list"
    and valid :: "byte list \<Rightarrow> bool" +
  assumes separates: "valid a \<Longrightarrow> valid b \<Longrightarrow> cmp a b < 0 \<Longrightarrow>
      valid (sep a b) \<and> cmp a (sep a b) \<le> 0 \<and> cmp (sep a b) b < 0"
    and no_room: "valid a \<Longrightarrow> valid b \<Longrightarrow> \<not> cmp a b < 0 \<Longrightarrow> sep a b = a"
    and succeeds: "valid a \<Longrightarrow> valid (succ a) \<and> cmp a (succ a) \<le> 0"

locale user_comparator =
  comparator_laws "Compare c" "FindShortestSeparator c" "FindShortSuccessor c" "\<lambda>_. True"
  for c :: comparator

text \<open>The bytewise comparator keeps it.\<close>

lemma diff_index_split:
  "diff_index a b < min (length a) (length b) \<Longrightarrow>
   \<exists>p x xs y ys. a = p @ x # xs \<and> b = p @ y # ys \<and> x \<noteq> y \<and> length p = diff_index a b"
proof (induction a b rule: slice_compare_induct)
  case (cons x xs y ys)
  show ?case
  proof (cases "x = y")
    case True
    with cons obtain p u us v vs where
      "xs = p @ u # us" "ys = p @ v # vs" "u \<noteq> v" "length p = diff_index xs ys" by auto
    with True show ?thesis by (intro exI [of _ "x # p"]) auto
  next
    case False
    then show ?thesis by (intro exI [of _ "[]"]) auto
  qed
qed simp_all

lemma slice_compare_prefix: "slice_compare (p @ a) (p @ b) = slice_compare a b"
  by (induction p) simp_all

lemma byte_succ: "x < 0xff \<Longrightarrow> unat (x + 1) = unat x + 1" for x :: byte
proof -
  assume "x < 0xff"
  then have "unat x < 255" by (simp add: word_less_nat_alt)
  then show ?thesis by (simp add: unat_word_ariths)
qed

lemma bytewise_separator_cases:
  "bytewise_separator a b = a \<or>
   (\<exists>p x xs y ys. a = p @ x # xs \<and> b = p @ y # ys \<and> unat x + 1 < unat y \<and>
      unat (x + 1) = unat x + 1 \<and> bytewise_separator a b = p @ [x + 1])"
proof (cases "diff_index a b < min (length a) (length b)")
  case True
  from diff_index_split [OF True] obtain p x xs y ys where
    d: "a = p @ x # xs" "b = p @ y # ys" "x \<noteq> y" "length p = diff_index a b" by blast
  have i: "diff_index (p @ x # xs) (p @ y # ys) = length p" using d by simp
  show ?thesis
  proof (cases "x < 0xff \<and> unat x + 1 < unat y")
    case True
    with d(3) have "bytewise_separator a b = p @ [x + 1]"
      by (simp add: bytewise_separator_def Let_def d(1,2) i)
    with True byte_succ [of x] d(1,2) show ?thesis by blast
  next
    case False
    then have "bytewise_separator a b = a"
      by (auto simp: bytewise_separator_def Let_def d(1,2) i)
    then show ?thesis ..
  qed
qed (auto simp: bytewise_separator_def Let_def)

lemma bytewise_separates:
  assumes "slice_compare a b < 0"
  shows "slice_compare a (bytewise_separator a b) \<le> 0 \<and> slice_compare (bytewise_separator a b) b < 0"
  using bytewise_separator_cases [of a b]
proof
  assume "bytewise_separator a b = a"
  with assms slice_compare_eq [of a a] show ?thesis by simp
next
  assume "\<exists>p x xs y ys. a = p @ x # xs \<and> b = p @ y # ys \<and> unat x + 1 < unat y \<and>
      unat (x + 1) = unat x + 1 \<and> bytewise_separator a b = p @ [x + 1]"
  then obtain p x xs y ys where "a = p @ x # xs" "b = p @ y # ys" "unat x + 1 < unat y"
    "unat (x + 1) = unat x + 1" "bytewise_separator a b = p @ [x + 1]" by blast
  then show ?thesis by (simp add: slice_compare_prefix word_less_nat_alt)
qed

lemma bytewise_no_room: "\<not> slice_compare a b < 0 \<Longrightarrow> bytewise_separator a b = a"
  using bytewise_separator_cases [of a b] by (auto simp: slice_compare_prefix word_less_nat_alt)

lemma bytewise_separator_length: "length (bytewise_separator a b) \<le> length a"
  using bytewise_separator_cases [of a b] by auto

lemma successor_loop_cases:
  "i \<le> length key \<Longrightarrow> successor_loop i key = key \<or>
   (\<exists>p x xs. key = p @ x # xs \<and> x \<noteq> 0xff \<and> successor_loop i key = p @ [x + 1])"
proof (induction i key rule: successor_loop.induct)
  case (1 i key)
  show ?case
  proof (cases "i < length key \<and> key ! i \<noteq> 0xff")
    case True
    then have "key = take i key @ key ! i # drop (Suc i) key" by (simp add: id_take_nth_drop)
    moreover from True have "successor_loop i key = take i key @ [key ! i + 1]"
      by (simp add: successor_loop.simps [of i key] take_Suc_conv_app_nth)
    ultimately show ?thesis using True by blast
  next
    case False
    with 1 show ?thesis by (auto simp: successor_loop.simps [of i key])
  qed
qed

lemma bytewise_succeeds: "slice_compare a (bytewise_successor a) \<le> 0"
  using successor_loop_cases [of 0 a]
proof
  assume "\<exists>p x xs. a = p @ x # xs \<and> x \<noteq> 0xff \<and> successor_loop 0 a = p @ [x + 1]"
  then obtain p x xs where *: "a = p @ x # xs" "x \<noteq> 0xff" "successor_loop 0 a = p @ [x + 1]" by blast
  have "unat x < 256" by simp
  moreover have "unat x \<noteq> 255" using *(2) by (auto simp: word_unat_eq_iff)
  ultimately have "unat x < 255" by linarith
  then have "x < 0xff" by (simp add: word_less_nat_alt)
  from byte_succ [OF this] * show ?thesis
    by (simp add: bytewise_successor_def slice_compare_prefix word_less_nat_alt)
qed (use slice_compare_eq [of a a] in \<open>simp add: bytewise_successor_def\<close>)+

interpretation bytewise: user_comparator BytewiseComparator
proof unfold_locales
  fix a b c :: "byte list"
  show "sgn (Compare BytewiseComparator b a) = - sgn (Compare BytewiseComparator a b)"
    using slice_compare_antisym [of a b] by (simp add: BytewiseComparator_def sgn_minus)
  show "Compare BytewiseComparator a c \<le> 0"
    if "Compare BytewiseComparator a b \<le> 0" "Compare BytewiseComparator b c \<le> 0"
    using that slice_compare_trans by (simp add: BytewiseComparator_def)
qed (simp_all add: BytewiseComparator_def bytewise_separates bytewise_no_room bytewise_succeeds)

subsection \<open>Internal keys\<close>

lemma user_of_append [simp]: "ExtractUserKey (u @ EncodeFixed64 n) = u"
  by (simp add: ExtractUserKey_def)

lemma trailer_of_append [simp]: "key_trailer (u @ EncodeFixed64 n) = n"
  using DecodeFixed64_Encode [of n "[]"] by (simp add: key_trailer_def)

lemma put_fixed64_valid [simp]: "8 \<le> length (PutFixed64 u n)"
  by (simp add: PutFixed64_def)

lemma put_fixed64_parts [simp]: "ExtractUserKey (PutFixed64 u n) = u" "key_trailer (PutFixed64 u n) = n"
  by (simp_all add: PutFixed64_def)

lemma InternalKey_eq: "InternalKey u s t = PutFixed64 u (PackSequenceAndType s t)"
  by (simp add: InternalKey_def AppendInternalKey_def)

lemma internal_compare_cases:
  "internal_compare c a b =
    (if Compare c (ExtractUserKey a) (ExtractUserKey b) \<noteq> 0
     then Compare c (ExtractUserKey a) (ExtractUserKey b)
     else if key_trailer b < key_trailer a then -1
     else if key_trailer a < key_trailer b then 1 else 0)"
  by (simp add: internal_compare_def Let_def)

context user_comparator
begin

lemma internal_antisym: "sgn (internal_compare c b a) = - sgn (internal_compare c a b)"
  using antisym [of "ExtractUserKey a" "ExtractUserKey b"]
    swap_eq [of "ExtractUserKey a" "ExtractUserKey b"]
  by (auto simp: internal_compare_cases)

lemma internal_le:
  "internal_compare c a b \<le> 0 \<longleftrightarrow> Compare c (ExtractUserKey a) (ExtractUserKey b) < 0 \<or>
    Compare c (ExtractUserKey a) (ExtractUserKey b) = 0 \<and> key_trailer b \<le> key_trailer a"
  by (auto simp: internal_compare_cases not_less)

lemma internal_trans:
  assumes "internal_compare c x y \<le> 0" and "internal_compare c y z \<le> 0"
  shows "internal_compare c x z \<le> 0"
  using assms less_le_trans [of "ExtractUserKey x" "ExtractUserKey y" "ExtractUserKey z"]
    le_less_trans [of "ExtractUserKey x" "ExtractUserKey y" "ExtractUserKey z"]
    eq_trans [of "ExtractUserKey x" "ExtractUserKey y" "ExtractUserKey z"]
  by (auto simp: internal_le)

lemma internal_less_user:
  "Compare c (ExtractUserKey a) (ExtractUserKey b) < 0 \<Longrightarrow> internal_compare c a b < 0"
  by (simp add: internal_compare_cases)

lemma internal_refl: "internal_compare c a a = 0"
  by (simp add: internal_compare_cases refl0)

lemma internal_separates:
  assumes "8 \<le> length a" and "internal_compare c a b < 0"
  shows "8 \<le> length (internal_separator c a b) \<and> internal_compare c a (internal_separator c a b) \<le> 0 \<and>
    internal_compare c (internal_separator c a b) b < 0"
proof -
  let ?s = "FindShortestSeparator c (ExtractUserKey a) (ExtractUserKey b)"
  show ?thesis
  proof (cases "length ?s < length (ExtractUserKey a) \<and> Compare c (ExtractUserKey a) ?s < 0")
    case True
    then have e: "internal_separator c a b = PutFixed64 ?s (PackSequenceAndType kMaxSequenceNumber kValueTypeForSeek)"
      by (simp add: internal_separator_def Let_def)
    from True no_room [of "ExtractUserKey a" "ExtractUserKey b"]
    have "Compare c (ExtractUserKey a) (ExtractUserKey b) < 0"
      by (cases "Compare c (ExtractUserKey a) (ExtractUserKey b) < 0") simp_all
    with separates [of "ExtractUserKey a" "ExtractUserKey b"] True show ?thesis
      unfolding e using internal_less_user [of "PutFixed64 ?s _" b] internal_less_user [of a "PutFixed64 ?s _"]
      by (simp add: less_imp_le)
  next
    case False
    then have "internal_separator c a b = a"
      unfolding internal_separator_def Let_def by (simp only: if_False)
    with assms show ?thesis by (simp add: internal_refl)
  qed
qed

lemma internal_no_room:
  assumes "\<not> internal_compare c a b < 0"
  shows "internal_separator c a b = a"
proof -
  have "\<not> Compare c (ExtractUserKey a) (ExtractUserKey b) < 0"
    using assms internal_less_user by blast
  from no_room [OF _ _ this] show ?thesis by (simp add: internal_separator_def Let_def)
qed

lemma internal_succeeds:
  assumes "8 \<le> length a"
  shows "8 \<le> length (internal_successor c a) \<and> internal_compare c a (internal_successor c a) \<le> 0"
proof -
  let ?s = "FindShortSuccessor c (ExtractUserKey a)"
  show ?thesis
  proof (cases "length ?s < length (ExtractUserKey a) \<and> Compare c (ExtractUserKey a) ?s < 0")
    case True
    then have e: "internal_successor c a = PutFixed64 ?s (PackSequenceAndType kMaxSequenceNumber kValueTypeForSeek)"
      by (simp add: internal_successor_def Let_def)
    with True show ?thesis
      using internal_less_user [of a "internal_successor c a"] by (simp add: less_imp_le)
  next
    case False
    then have "internal_successor c a = a"
      unfolding internal_successor_def Let_def by (simp only: if_False)
    with assms show ?thesis by (simp add: internal_refl)
  qed
qed

end

sublocale user_comparator \<subseteq> internal:
  comparator_laws "Compare (InternalKeyComparator c)" "FindShortestSeparator (InternalKeyComparator c)"
    "FindShortSuccessor (InternalKeyComparator c)" "\<lambda>k. 8 \<le> length k"
proof unfold_locales
  fix x y z :: "byte list"
  show "sgn (Compare (InternalKeyComparator c) y x) = - sgn (Compare (InternalKeyComparator c) x y)"
    unfolding InternalKeyComparator_def comparator.simps by (rule internal_antisym)
  show "Compare (InternalKeyComparator c) x z \<le> 0"
    if "Compare (InternalKeyComparator c) x y \<le> 0" "Compare (InternalKeyComparator c) y z \<le> 0"
    using that internal_trans [of x y z] by (simp add: InternalKeyComparator_def)
qed (simp_all add: InternalKeyComparator_def internal_separates internal_no_room internal_succeeds)

text \<open>The order of packed sequence numbers.\<close>

lemma pack_unat:
  assumes "s \<le> kMaxSequenceNumber"
  shows "unat (PackSequenceAndType s t) = 256 * unat s + unat (value_code t)"
proof -
  have "unat s < 2 ^ 56" using assms by (simp add: kMaxSequenceNumber_def word_le_nat_alt)
  have "\<not> bit (push_bit 8 s) n \<or> \<not> bit (value_code t) n" for n
    by (cases t) (auto simp: bit_simps)
  then have "PackSequenceAndType s t = push_bit 8 s + value_code t"
    by (simp add: PackSequenceAndType_def disjunctive_add)
  moreover have "unat (push_bit 8 s) = 256 * unat s"
    using \<open>unat s < 2 ^ 56\<close> by (simp add: push_bit_eq_mult unat_word_ariths mult.commute)
  moreover have "unat (value_code t) \<le> 1" by (cases t) simp_all
  ultimately show ?thesis
    using \<open>unat s < 2 ^ 56\<close> by (simp add: unat_word_ariths)
qed

lemma ParseInternalKey_InternalKey:
  assumes "s \<le> kMaxSequenceNumber"
  shows "ParseInternalKey (InternalKey u s t) = Some \<lparr>user_key = u, sequence = s, key_type = t\<rparr>"
proof -
  let ?n = "PackSequenceAndType s t"
  have "unat s < 2 ^ 56" using assms by (simp add: kMaxSequenceNumber_def word_le_nat_alt)
  have c: "unat (value_code t) \<le> 1" by (cases t) simp_all
  have "unat (drop_bit 8 ?n) = unat s"
    using c by (simp add: drop_bit_eq_div unat_div pack_unat [OF assms])
  then have d: "drop_bit 8 ?n = s" by (simp add: word_unat_eq_iff)
  have m: "x AND 0xff = take_bit 8 x" for x :: u64
    by (simp add: take_bit_eq_mask mask_eq_exp_minus_1)
  have "unat (?n AND 0xff) = unat (value_code t)"
    using c by (simp only: m unsigned_take_bit_eq) (simp add: take_bit_eq_mod pack_unat [OF assms])
  then have "?n AND 0xff = value_code t" by (simp add: word_unat_eq_iff)
  with d show ?thesis
    by (cases t) (simp_all add: ParseInternalKey_def Let_def InternalKey_eq del: put_fixed64_valid,
        simp_all add: PutFixed64_def)
qed

lemma LookupKey_parts:
  "lookup_internal_key (LookupKey u s) = InternalKey u s kTypeValue"
  "lookup_user_key (LookupKey u s) = u"
  "memtable_key (LookupKey u s) = PutVarint32 [] (word_of_nat (length u + 8)) @ InternalKey u s kTypeValue"
  by (simp_all add: LookupKey_def Let_def lookup_internal_key_def lookup_user_key_def memtable_key_def
      InternalKey_eq PutFixed64_def PutVarint32_def kValueTypeForSeek_def)

interpretation internal_bloom: filter_policy
  "InternalCreateFilter (CreateFilter (BloomFilterPolicy n))" "InternalKeyMayMatch KeyMayMatch"
proof unfold_locales
  show "InternalCreateFilter (CreateFilter (BloomFilterPolicy n)) keys dst =
    dst @ InternalCreateFilter (CreateFilter (BloomFilterPolicy n)) keys []" for keys dst
    unfolding InternalCreateFilter_def by (rule bloom.appends)
  show "InternalKeyMayMatch KeyMayMatch key (InternalCreateFilter (CreateFilter (BloomFilterPolicy n)) keys [])"
    if "key \<in> set keys" for key keys
    using that by (simp add: InternalKeyMayMatch_def InternalCreateFilter_def bloom.matches)
qed

subsection \<open>Properties\<close>

text \<open>
  Theorem (ldb_bytewise_order). \<open>Slice::compare\<close> is the lexicographic order of unsigned
  bytes, total, with 0 for equal strings only.
\<close>

theorem ldb_bytewise_order:
  "(slice_compare a b < 0 \<longleftrightarrow> (a, b) \<in> lexord {(x, y). x < y}) \<and>
   (slice_compare a b = 0 \<longleftrightarrow> a = b) \<and> slice_compare b a = - slice_compare a b"
  using slice_compare_lexord slice_compare_eq slice_compare_antisym by blast

text \<open>
  C37 (ldb_separator). For a user comparator that keeps its contract, a separator of
  two internal keys lies in the half-open range between them, as the assertions of
  \<open>FindShortestSeparator\<close> demand, and the successor is not below its key; both are valid
  internal keys.
\<close>

theorem ldb_separator:
  assumes "user_comparator c" and "8 \<le> length a" and "8 \<le> length b" and "internal_compare c a b < 0"
  shows "internal_compare c a (internal_separator c a b) \<le> 0 \<and>
    internal_compare c (internal_separator c a b) b < 0 \<and>
    internal_compare c b (internal_successor c b) \<le> 0 \<and>
    8 \<le> length (internal_separator c a b) \<and> 8 \<le> length (internal_successor c b)"
  using user_comparator.internal_separates [OF assms(1,2,4)]
    user_comparator.internal_succeeds [OF assms(1,3)] by blast

theorem ldb_separator_witness:
  "internal_compare BytewiseComparator (InternalKey [1, 5] 7 kTypeValue)
      (internal_separator BytewiseComparator (InternalKey [1, 5] 7 kTypeValue) (InternalKey [3] 2 kTypeValue)) \<le> 0"
proof -
  have "internal_compare BytewiseComparator (InternalKey [1, 5] 7 kTypeValue) (InternalKey [3] 2 kTypeValue) < 0"
    by (simp add: internal_compare_cases InternalKey_eq BytewiseComparator_def)
  with ldb_separator [OF bytewise.user_comparator_axioms, of "InternalKey [1, 5] 7 kTypeValue" "InternalKey [3] 2 kTypeValue"]
  show ?thesis by (simp add: InternalKey_eq)
qed

text \<open>
  Theorem (ldb_bytewise_separator). The bytewise comparator keeps the contract of
  comparators and never makes a key longer.
\<close>

theorem ldb_bytewise_separator:
  "user_comparator BytewiseComparator \<and>
   length (bytewise_separator a b) \<le> length a \<and> length (bytewise_successor a) \<le> length a"
  using bytewise_separator_length successor_loop_cases [of 0 a]
  by (auto simp: bytewise_successor_def bytewise.user_comparator_axioms)

text \<open>
  Theorem (ldb_internal_key_roundtrip). An internal key with a sequence number in range is
  parsed back into its three parts, and takes the announced length.
\<close>

theorem ldb_internal_key_roundtrip:
  assumes "s \<le> kMaxSequenceNumber"
  shows "ParseInternalKey (InternalKey u s t) = Some \<lparr>user_key = u, sequence = s, key_type = t\<rparr> \<and>
    length (InternalKey u s t) = InternalKeyEncodingLength \<lparr>user_key = u, sequence = s, key_type = t\<rparr>"
  using ParseInternalKey_InternalKey [OF assms]
  by (simp add: InternalKey_eq PutFixed64_def InternalKeyEncodingLength_def)

theorem ldb_internal_key_roundtrip_witness:
  "ParseInternalKey (InternalKey [1, 2] 300 kTypeDeletion)
     = Some \<lparr>user_key = [1, 2], sequence = 300, key_type = kTypeDeletion\<rparr>"
  using ldb_internal_key_roundtrip [of 300 "[1, 2]" kTypeDeletion]
  by (simp add: kMaxSequenceNumber_def)

text \<open>
  C36 (ldb_lookup_order). A lookup key for a snapshot sorts behind exactly those
  entries of its user key that are newer than the snapshot, so seeking to it finds the
  newest entry the snapshot may see; entries of other user keys are ordered by the user key.
\<close>

theorem ldb_lookup_order:
  assumes "s \<le> kMaxSequenceNumber" and "s' \<le> kMaxSequenceNumber"
  shows "internal_compare BytewiseComparator (lookup_internal_key (LookupKey u s)) (InternalKey u' s' t) \<le> 0
    \<longleftrightarrow> slice_compare u u' < 0 \<or> u = u' \<and> s' \<le> s"
proof -
  have "PackSequenceAndType s' t \<le> PackSequenceAndType s kTypeValue \<longleftrightarrow> s' \<le> s"
    using pack_unat [OF assms(1), of kTypeValue] pack_unat [OF assms(2), of t]
    by (cases t) (auto simp: word_le_nat_alt)
  then show ?thesis
    by (simp add: LookupKey_parts bytewise.internal_le InternalKey_eq)
      (simp add: BytewiseComparator_def slice_compare_eq)
qed

theorem ldb_lookup_order_witness:
  "internal_compare BytewiseComparator (lookup_internal_key (LookupKey [1] 5)) (InternalKey [1] 4 kTypeDeletion) \<le> 0"
  using ldb_lookup_order [of 5 4 "[1]" "[1]" kTypeDeletion] by (simp add: kMaxSequenceNumber_def)

end
