(* ===== verification/LDB_Iterator.thy ===== *)
theory LDB_Iterator
  imports LDB_DbFormat
begin

text \<open>
  The interface of iterators (\<open>include/leveldb/iterator.h\<close>), which blocks, tables, memtables and
  merged sources share, and what its clients get from it. An iterator stands on one of its entries, which
  are sorted, or behind them; every operation that a client may call moves it to the position
  the interface promises. An operation is \<open>None\<close> if it would leave the memory it may read.
\<close>

type_synonym entries = "(byte list \<times> byte list) list"

text \<open>The position \<open>Seek\<close> looks for: the first entry whose key is not below the target.\<close>

definition seek_pos :: "('k \<Rightarrow> 'k \<Rightarrow> int) \<Rightarrow> 'k \<Rightarrow> ('k \<times> 'v) list \<Rightarrow> nat" where
  "seek_pos compare_op target es = length (takeWhile (\<lambda>(k, v). compare_op k target < 0) es)"

definition sorted_for :: "('k \<Rightarrow> 'k \<Rightarrow> int) \<Rightarrow> 'k \<Rightarrow> ('k \<times> 'v) list \<Rightarrow> bool" where
  "sorted_for compare_op target es \<longleftrightarrow>
     sorted_wrt (\<lambda>(k, v) (k', v'). compare_op k' target < 0 \<longrightarrow> compare_op k target < 0) es"

text \<open>
  The loop of a client, which visits the entries with \<open>Next\<close> or \<open>Prev\<close> while the iterator is
  valid, with a bound on its rounds.
\<close>

fun walk ::
  "('it \<Rightarrow> bool) \<Rightarrow> ('it \<Rightarrow> byte list) \<Rightarrow> ('it \<Rightarrow> byte list) \<Rightarrow> ('it \<Rightarrow> 'it option) \<Rightarrow> nat \<Rightarrow> 'it
   \<Rightarrow> entries option" where
  "walk valid key val step 0 it = None"
| "walk valid key val step (Suc rounds) it =
     (if valid it
      then case step it of None \<Rightarrow> None
           | Some it' \<Rightarrow> map_option ((#) (key it, val it)) (walk valid key val step rounds it')
      else Some [])"

lemma seek_pos_le: "seek_pos compare_op target es \<le> length es"
  by (simp add: seek_pos_def length_takeWhile_le)

lemma seek_pos_below: "i < seek_pos compare_op target es \<Longrightarrow> compare_op (fst (es ! i)) target < 0"
  by (metis (no_types, lifting) case_prod_beta nth_mem seek_pos_def set_takeWhileD takeWhile_nth)

lemma seek_pos_at: "seek_pos compare_op target es < length es \<Longrightarrow>
  \<not> compare_op (fst (es ! seek_pos compare_op target es)) target < 0"
  using nth_length_takeWhile [of "\<lambda>(k, v). compare_op k target < 0" es]
  by (simp add: seek_pos_def case_prod_beta)

lemma sorted_for_nth:
  "sorted_for compare_op target es \<Longrightarrow> a < b \<Longrightarrow> b < length es \<Longrightarrow>
   compare_op (fst (es ! b)) target < 0 \<Longrightarrow> compare_op (fst (es ! a)) target < 0"
  by (auto simp: sorted_for_def sorted_wrt_iff_nth_less case_prod_beta)

lemma sorted_for_drop: "sorted_for compare_op target es \<Longrightarrow> sorted_for compare_op target (drop i es)"
  unfolding sorted_for_def by (rule sorted_wrt_drop)

text \<open>Entries in the order of a comparator are sorted for every valid target.\<close>

definition in_order :: "('k \<Rightarrow> 'k \<Rightarrow> int) \<Rightarrow> ('k \<times> 'v) list \<Rightarrow> bool" where
  "in_order compare_op es \<longleftrightarrow> sorted_wrt (\<lambda>(k, v) (k', v'). compare_op k k' < 0) es"

context key_order
begin

lemma in_order_sorted_for:
  fixes es :: "('k \<times> 'v) list"
  assumes "in_order cmp es" and "\<And>k v. (k, v) \<in> set es \<Longrightarrow> valid k" and "valid target"
  shows "sorted_for cmp target es"
  using assms(1) unfolding in_order_def sorted_for_def
proof (rule sorted_wrt_mono_rel [rotated])
  fix x y assume xy: "x \<in> set es" "y \<in> set es" and lt: "(case x of (k, v) \<Rightarrow> \<lambda>(k', v'). cmp k k' < 0) y"
  obtain k v k' v' where e: "x = (k, v)" "y = (k', v')" by fastforce
  have "cmp k target < 0" if "cmp k' target < 0"
    using less_le_trans [of k k' target] xy lt that assms(2,3) by (force simp: e)
  then show "(case x of (k, v) \<Rightarrow> \<lambda>(k', v'). cmp k' target < 0 \<longrightarrow> cmp k target < 0) y" by (simp add: e)
qed

end

locale iterator_laws =
  fixes cmp :: "byte list \<Rightarrow> byte list \<Rightarrow> int"
    and valid :: "'it \<Rightarrow> bool"
    and key :: "'it \<Rightarrow> byte list"
    and val :: "'it \<Rightarrow> byte list"
    and first :: "'it \<Rightarrow> 'it option"
    and last :: "'it \<Rightarrow> 'it option"
    and seek :: "byte list \<Rightarrow> 'it \<Rightarrow> 'it option"
    and forward :: "'it \<Rightarrow> 'it option"
    and backward :: "'it \<Rightarrow> 'it option"
    and at :: "entries \<Rightarrow> nat \<Rightarrow> 'it \<Rightarrow> bool"
    and target_ok :: "byte list \<Rightarrow> bool"
  assumes at_le: "at es i it \<Longrightarrow> i \<le> length es"
    and at_valid: "at es i it \<Longrightarrow> valid it \<longleftrightarrow> i < length es"
    and at_key: "at es i it \<Longrightarrow> i < length es \<Longrightarrow> key it = fst (es ! i)"
    and at_val: "at es i it \<Longrightarrow> i < length es \<Longrightarrow> val it = snd (es ! i)"
    and at_first: "at es i it \<Longrightarrow> \<exists>r. first it = Some r \<and> at es 0 r"
    and at_last: "at es i it \<Longrightarrow> \<exists>r. last it = Some r \<and> at es (length es - 1) r"
    and at_seek: "at es i it \<Longrightarrow> target_ok t \<Longrightarrow> sorted_for cmp t es \<Longrightarrow>
      \<exists>r. seek t it = Some r \<and> at es (seek_pos cmp t es) r"
    and at_next: "at es i it \<Longrightarrow> i < length es \<Longrightarrow> \<exists>r. forward it = Some r \<and> at es (Suc i) r"
    and at_prev: "at es i it \<Longrightarrow> i < length es \<Longrightarrow>
      \<exists>r. backward it = Some r \<and> at es (if i = 0 then length es else i - 1) r"
begin

lemma walk_forward:
  "at es i it \<Longrightarrow> length es - i < rounds \<Longrightarrow> walk valid key val forward rounds it = Some (drop i es)"
proof (induction rounds arbitrary: i it)
  case (Suc r)
  show ?case
  proof (cases "i < length es")
    case True
    then obtain it' where "forward it = Some it'" "at es (Suc i) it'" using at_next Suc.prems(1) by blast
    with Suc True show ?thesis
      by (simp add: at_valid [OF Suc.prems(1)] at_key [OF Suc.prems(1)] at_val [OF Suc.prems(1)] Cons_nth_drop_Suc)
  qed (simp add: at_valid [OF Suc.prems(1)])
qed simp

lemma walk_backward:
  "at es i it \<Longrightarrow> i < length es \<Longrightarrow> Suc i < rounds \<Longrightarrow>
   walk valid key val backward rounds it = Some (rev (take (Suc i) es))"
proof (induction i arbitrary: it rounds)
  case 0
  obtain r where r: "rounds = Suc (Suc r)" using less_imp_Suc_add [OF 0(3)] by auto
  obtain it' where it': "backward it = Some it'" "at es (length es) it'"
    using at_prev [OF 0(1,2)] by auto
  show ?case using 0(2) it'(1) at_valid [OF it'(2)] r
    by (simp add: at_valid [OF 0(1)] at_key [OF 0(1)] at_val [OF 0(1)] take_Suc_conv_app_nth)
next
  case (Suc i)
  obtain r where r: "rounds = Suc r" "Suc i < r" using Suc.prems(3) by (cases rounds) auto
  obtain it' where it': "backward it = Some it'" "at es i it'"
    using at_prev [OF Suc.prems(1,2)] by auto
  have "walk valid key val backward r it' = Some (rev (take (Suc i) es))"
    using Suc.prems(2) by (intro Suc.IH it' r) simp
  then show ?case using r(1) it'(1) Suc.prems(2)
    by (simp add: at_valid [OF Suc.prems(1)] at_key [OF Suc.prems(1)] at_val [OF Suc.prems(1)]
        take_Suc_conv_app_nth [of "Suc i"])
qed

lemma scan:
  assumes "at es i it"
  shows "\<exists>r. first it = Some r \<and> walk valid key val forward (Suc (length es)) r = Some es"
  using at_first [OF assms] walk_forward [of es 0] by fastforce

lemma scan_reverse:
  assumes "at es i it"
  shows "\<exists>r. last it = Some r \<and> walk valid key val backward (Suc (length es)) r = Some (rev es)"
proof -
  obtain r where r: "last it = Some r" "at es (length es - 1) r" using at_last [OF assms] by blast
  show ?thesis
  proof (cases "es = []")
    case True
    with r show ?thesis using at_valid [OF r(2)] by simp
  next
    case False
    then show ?thesis using r walk_backward [OF r(2), of "Suc (length es)"] by simp
  qed
qed

lemma scan_from:
  assumes "at es i it" and "target_ok t" and "sorted_for cmp t es"
  shows "\<exists>r. seek t it = Some r \<and> walk valid key val forward (Suc (length es)) r = Some (drop (seek_pos cmp t es) es)"
  using at_seek [OF assms] walk_forward [of es "seek_pos cmp t es" _ "Suc (length es)"] by fastforce

end

end
