(* ===== verification/LDB_Block.thy ===== *)
theory LDB_Block
  imports LDB_Iterator LDB_Log
begin

text \<open>
  Blocks of tables: the builder (\<open>table/block_builder.cc\<close>), which compresses the prefix a key
  shares with its predecessor, and the iterator (\<open>table/block.cc\<close>), which finds its way with
  the restart points. The layout of a block is specified as \<open>block_bytes\<close>; on it the iterator
  keeps the laws of \<open>iterator_laws\<close>, and on any other bytes it stays inside the block, but for the
  overflow in the range check of an entry.
\<close>

unbundle bit_operations_syntax

subsection \<open>The builder (\<open>table/block_builder.cc\<close>)\<close>

record BlockBuilder =
  bb_buffer :: "byte list"
  bb_restarts :: "u32 list"
  bb_counter :: nat
  bb_finished :: bool
  bb_last_key :: "byte list"

definition NewBlockBuilder :: BlockBuilder where
  "NewBlockBuilder =
     \<lparr>bb_buffer = [], bb_restarts = [0], bb_counter = 0, bb_finished = False, bb_last_key = []\<rparr>"

definition BlockReset :: "BlockBuilder \<Rightarrow> BlockBuilder" where
  "BlockReset b =
     b\<lparr>bb_buffer := [], bb_restarts := [0], bb_counter := 0, bb_finished := False, bb_last_key := []\<rparr>"

definition CurrentSizeEstimate :: "BlockBuilder \<Rightarrow> nat" where
  "CurrentSizeEstimate b = length (bb_buffer b) + length (bb_restarts b) * 4 + 4"

definition BlockFinish :: "BlockBuilder \<Rightarrow> byte list \<times> BlockBuilder" where
  "BlockFinish b =
     (let buf = foldl PutFixed32 (bb_buffer b) (bb_restarts b);
          buf = PutFixed32 buf (word_of_nat (length (bb_restarts b)))
      in (buf, b\<lparr>bb_buffer := buf, bb_finished := True\<rparr>))"

text \<open>\<open>block_restart_interval\<close> is the option the builder uses.\<close>

definition BlockAdd :: "nat \<Rightarrow> byte list \<Rightarrow> byte list \<Rightarrow> BlockBuilder \<Rightarrow> BlockBuilder" where
  "BlockAdd block_restart_interval key value b =
     (let shared = (if bb_counter b < block_restart_interval then diff_index (bb_last_key b) key else 0);
          b = (if bb_counter b < block_restart_interval then b
               else b\<lparr>bb_restarts := bb_restarts b @ [word_of_nat (length (bb_buffer b))], bb_counter := 0\<rparr>);
          non_shared = length key - shared;
          buf = PutVarint32 (bb_buffer b) (word_of_nat shared);
          buf = PutVarint32 buf (word_of_nat non_shared);
          buf = PutVarint32 buf (word_of_nat (length value));
          buf = buf @ take non_shared (drop shared key) @ value
      in b\<lparr>bb_buffer := buf,
           bb_last_key := take shared (bb_last_key b) @ take non_shared (drop shared key),
           bb_counter := bb_counter b + 1\<rparr>)"

subsection \<open>Blocks and their iterator (\<open>table/block.cc\<close>)\<close>

definition last_word :: "byte list \<Rightarrow> nat" where
  "last_word data = unat (DecodeFixed32 (drop (length data - 4) data))"

text \<open>\<open>size_\<close> 0 marks bad contents; then the restart offset stays uninitialized.\<close>

record Block =
  blk_data :: "byte list"
  blk_size :: nat
  restart_offset :: nat

definition NumRestarts :: "Block \<Rightarrow> nat" where
  "NumRestarts b = last_word (take (blk_size b) (blk_data b))"

definition NewBlock :: "byte list \<Rightarrow> Block" where
  "NewBlock contents =
     (let b = \<lparr>blk_data = contents, blk_size = length contents, restart_offset = 0\<rparr>
      in if blk_size b < 4 then b\<lparr>blk_size := 0\<rparr>
         else
           let max_restarts_allowed = (blk_size b - 4) div 4
           in if NumRestarts b > max_restarts_allowed then b\<lparr>blk_size := 0\<rparr>
              else b\<lparr>restart_offset := blk_size b - (1 + NumRestarts b) * 4\<rparr>)"

text \<open>
  The three lengths of an entry and the bytes behind them. The sum is taken in 32 bits, as
  in the code.
\<close>

definition DecodeEntry :: "byte list \<Rightarrow> (u32 \<times> u32 \<times> u32 \<times> byte list) option" where
  "DecodeEntry p =
     (if length p < 3 then None
      else
        let shared = ucast (p ! 0) :: u32; non_shared = ucast (p ! 1) :: u32; value_length = ucast (p ! 2) :: u32;
            r = (if shared OR non_shared OR value_length < 128
                 then Some (shared, non_shared, value_length, drop 3 p)
                 else case GetVarint32Ptr p of None \<Rightarrow> None
                      | Some (shared, p) \<Rightarrow>
                          (case GetVarint32Ptr p of None \<Rightarrow> None
                           | Some (non_shared, p) \<Rightarrow>
                               (case GetVarint32Ptr p of None \<Rightarrow> None
                                | Some (value_length, p) \<Rightarrow> Some (shared, non_shared, value_length, p))))
        in case r of None \<Rightarrow> None
           | Some (shared, non_shared, value_length, p) \<Rightarrow>
               if (word_of_nat (length p) :: u32) < non_shared + value_length then None
               else Some (shared, non_shared, value_length, p))"

text \<open>
  Offsets are natural numbers: a block has less than 2^32 bytes. The value is its offset and
  length in the data.
\<close>

record block_iter =
  bi_data :: "byte list"
  bi_restarts :: nat
  bi_num_restarts :: nat
  bi_current :: nat
  bi_index :: nat
  bi_key :: "byte list"
  bi_value_offset :: nat
  bi_value_length :: nat
  bi_status :: Status

definition bi_value :: "block_iter \<Rightarrow> byte list" where
  "bi_value it = take (bi_value_length it) (drop (bi_value_offset it) (bi_data it))"

definition bi_valid :: "block_iter \<Rightarrow> bool" where
  "bi_valid it \<longleftrightarrow> bi_current it < bi_restarts it"

definition NextEntryOffset :: "block_iter \<Rightarrow> nat" where
  "NextEntryOffset it = bi_value_offset it + bi_value_length it"

definition GetRestartPoint :: "block_iter \<Rightarrow> nat \<Rightarrow> nat" where
  "GetRestartPoint it i = unat (DecodeFixed32 (drop (bi_restarts it + i * 4) (bi_data it)))"

definition SeekToRestartPoint :: "nat \<Rightarrow> block_iter \<Rightarrow> block_iter" where
  "SeekToRestartPoint i it =
     it\<lparr>bi_key := [], bi_index := i, bi_value_offset := GetRestartPoint it i, bi_value_length := 0\<rparr>"

definition CorruptionError :: "block_iter \<Rightarrow> block_iter" where
  "CorruptionError it =
     it\<lparr>bi_current := bi_restarts it, bi_index := bi_num_restarts it,
        bi_status := Corruption ''bad entry in block'', bi_key := [],
        bi_value_offset := 0, bi_value_length := 0\<rparr>"

definition data_range :: "block_iter \<Rightarrow> nat \<Rightarrow> byte list" where
  "data_range it off = take (bi_restarts it - off) (drop off (bi_data it))"

function advance_index :: "block_iter \<Rightarrow> block_iter" where
  "advance_index it =
     (if bi_index it + 1 < bi_num_restarts it \<and> GetRestartPoint it (bi_index it + 1) < bi_current it
      then advance_index (it\<lparr>bi_index := bi_index it + 1\<rparr>) else it)"
  by pat_completeness auto
termination by (relation "measure (\<lambda>it. bi_num_restarts it - bi_index it)") auto

declare advance_index.simps [simp del]

text \<open>
  \<open>None\<close> where the code would copy key bytes from outside the entries, which the check of
  \<open>DecodeEntry\<close> admits when its sum wraps around.
\<close>

definition ParseNextKey :: "block_iter \<Rightarrow> (bool \<times> block_iter) option" where
  "ParseNextKey it =
     (let it = it\<lparr>bi_current := NextEntryOffset it\<rparr>;
          p = data_range it (bi_current it)
      in if bi_current it \<ge> bi_restarts it
         then Some (False, it\<lparr>bi_current := bi_restarts it, bi_index := bi_num_restarts it\<rparr>)
         else case DecodeEntry p of
                None \<Rightarrow> Some (False, CorruptionError it)
              | Some (shared, non_shared, value_length, q) \<Rightarrow>
                  if length (bi_key it) < unat shared then Some (False, CorruptionError it)
                  else if unat non_shared + unat value_length > length q then None
                  else
                    let it = it\<lparr>bi_key := take (unat shared) (bi_key it) @ take (unat non_shared) q,
                                bi_value_offset := bi_current it + (length p - length q) + unat non_shared,
                                bi_value_length := unat value_length\<rparr>
                    in Some (True, advance_index it))"

lemma DecodeEntry_shorter: "DecodeEntry p = Some (s, n, v, q) \<Longrightarrow> length q < length p"
  by (auto simp: DecodeEntry_def Let_def GetVarint32_def [symmetric]
      split: if_splits option.splits dest!: v32.shorter)

lemma advance_index_fields [simp]:
  "bi_value_offset (advance_index it) = bi_value_offset it"
  "bi_value_length (advance_index it) = bi_value_length it"
  "bi_restarts (advance_index it) = bi_restarts it"
  "bi_data (advance_index it) = bi_data it"
  "bi_key (advance_index it) = bi_key it"
  "bi_current (advance_index it) = bi_current it"
  "bi_num_restarts (advance_index it) = bi_num_restarts it"
  "bi_status (advance_index it) = bi_status it"
  by (induction it rule: advance_index.induct; subst advance_index.simps; simp)+

lemma ParseNextKey_progress:
  "ParseNextKey it = Some (True, it') \<Longrightarrow>
   bi_restarts it' = bi_restarts it \<and> NextEntryOffset it < bi_restarts it \<and>
   NextEntryOffset it < NextEntryOffset it'"
  using DecodeEntry_shorter [of "data_range (it\<lparr>bi_current := NextEntryOffset it\<rparr>) (NextEntryOffset it)"]
  by (auto simp: ParseNextKey_def Let_def NextEntryOffset_def split: if_splits option.splits)

text \<open>The loops over \<open>ParseNextKey\<close> in \<open>Prev\<close> and \<open>SeekToLast\<close>, and in \<open>Seek\<close>.\<close>

function skip_until :: "nat \<Rightarrow> block_iter \<Rightarrow> block_iter option" where
  "skip_until bound it =
     (case ParseNextKey it of None \<Rightarrow> None
      | Some (ok, it') \<Rightarrow> if ok \<and> NextEntryOffset it' < bound then skip_until bound it' else Some it')"
  by pat_completeness auto
termination
  by (relation "measure (\<lambda>(bound, it). bi_restarts it - NextEntryOffset it)")
    (auto dest: ParseNextKey_progress)

function seek_linear ::
  "(byte list \<Rightarrow> byte list \<Rightarrow> int) \<Rightarrow> byte list \<Rightarrow> block_iter \<Rightarrow> block_iter option" where
  "seek_linear compare_op target it =
     (case ParseNextKey it of None \<Rightarrow> None
      | Some (ok, it') \<Rightarrow>
          if \<not> ok then Some it'
          else if compare_op (bi_key it') target \<ge> 0 then Some it'
          else seek_linear compare_op target it')"
  by pat_completeness auto
termination
  by (relation "measure (\<lambda>(c, t, it). bi_restarts it - NextEntryOffset it)")
    (auto dest: ParseNextKey_progress)

declare skip_until.simps [simp del] seek_linear.simps [simp del]

text \<open>
  The binary search over the restart points: \<open>Some None\<close> is the corruption error, \<open>None\<close> a key
  outside the entries.
\<close>

function seek_binary ::
  "(byte list \<Rightarrow> byte list \<Rightarrow> int) \<Rightarrow> byte list \<Rightarrow> block_iter \<Rightarrow> nat \<Rightarrow> nat \<Rightarrow> nat option option" where
  "seek_binary compare_op target it left right =
     (if left < right
      then
        let mid = (left + right + 1) div 2;
            region_offset = GetRestartPoint it mid
        in case DecodeEntry (data_range it region_offset) of
             None \<Rightarrow> Some None
           | Some (shared, non_shared, value_length, key_ptr) \<Rightarrow>
               if shared \<noteq> 0 then Some None
               else if unat non_shared > length key_ptr then None
               else
                 let mid_key = take (unat non_shared) key_ptr
                 in if compare_op mid_key target < 0 then seek_binary compare_op target it mid right
                    else seek_binary compare_op target it left (mid - 1)
      else Some (Some left))"
  by pat_completeness auto
termination
  by (relation "measure (\<lambda>(c, t, it, left, right). right - left)") auto

declare seek_binary.simps [simp del]

definition BlockSeek ::
  "(byte list \<Rightarrow> byte list \<Rightarrow> int) \<Rightarrow> byte list \<Rightarrow> block_iter \<Rightarrow> block_iter option" where
  "BlockSeek compare_op target it =
     (case seek_binary compare_op target it 0 (bi_num_restarts it - 1) of
        None \<Rightarrow> None
      | Some None \<Rightarrow> Some (CorruptionError it)
      | Some (Some left) \<Rightarrow> seek_linear compare_op target (SeekToRestartPoint left it))"

definition BlockNext :: "block_iter \<Rightarrow> block_iter option" where
  "BlockNext it = map_option snd (ParseNextKey it)"

text \<open>The backward scan of \<open>Prev\<close>: \<open>None\<close> if there is no restart point before \<open>original\<close>.\<close>

fun scan_back :: "block_iter \<Rightarrow> nat \<Rightarrow> nat \<Rightarrow> nat option" where
  "scan_back it original i =
     (if GetRestartPoint it i \<ge> original
      then case i of 0 \<Rightarrow> None | Suc j \<Rightarrow> scan_back it original j
      else Some i)"

declare scan_back.simps [simp del]

definition BlockPrev :: "block_iter \<Rightarrow> block_iter option" where
  "BlockPrev it =
     (let original = bi_current it
      in case scan_back it original (bi_index it) of
           None \<Rightarrow> Some (it\<lparr>bi_current := bi_restarts it, bi_index := bi_num_restarts it\<rparr>)
         | Some i \<Rightarrow> skip_until original (SeekToRestartPoint i it))"

definition BlockSeekToFirst :: "block_iter \<Rightarrow> block_iter option" where
  "BlockSeekToFirst it = map_option snd (ParseNextKey (SeekToRestartPoint 0 it))"

definition BlockSeekToLast :: "block_iter \<Rightarrow> block_iter option" where
  "BlockSeekToLast it = skip_until (bi_restarts it) (SeekToRestartPoint (bi_num_restarts it - 1) it)"

datatype any_iter = EmptyIterator Status | BlockIterator block_iter

definition NewIter :: "byte list \<Rightarrow> nat \<Rightarrow> nat \<Rightarrow> block_iter" where
  "NewIter data restarts num_restarts =
     \<lparr>bi_data = data, bi_restarts = restarts, bi_num_restarts = num_restarts, bi_current = restarts,
      bi_index = num_restarts, bi_key = [], bi_value_offset = 0, bi_value_length = 0, bi_status = OK\<rparr>"

definition NewIterator :: "Block \<Rightarrow> any_iter" where
  "NewIterator b =
     (if blk_size b < 4 then EmptyIterator (Corruption ''bad block contents'')
      else
        let num_restarts = NumRestarts b
        in if num_restarts = 0 then EmptyIterator OK
           else BlockIterator (NewIter (blk_data b) (restart_offset b) num_restarts))"

subsection \<open>Decoding an entry\<close>

lemma less128: "x < 128 \<longleftrightarrow> drop_bit 7 x = 0" for x :: u32
  by (simp add: word_less_nat_alt word_unat_eq_iff drop_bit_eq_div unat_div div_eq_0_iff)

lemma bit7_ge: "bit x 7 \<Longrightarrow> \<not> x < 128" for x :: u32
  by (auto simp: less128 bit_iff_odd_drop_bit)

lemma or_zero: "x OR y = 0 \<longleftrightarrow> x = 0 \<and> y = 0" for x y :: u32
  by (auto simp: bit_eq_iff bit_simps)

lemma or_less128: "x OR y < 128 \<longleftrightarrow> x < 128 \<and> y < 128" for x y :: u32
  by (simp add: less128 drop_bit_or or_zero)

lemma Varint32_first:
  "\<exists>c r. EncodeVarint32 a = c # r \<and> ((ucast c :: u32) < 128 \<longleftrightarrow> a < 128) \<and> (a < 128 \<longrightarrow> r = [] \<and> (ucast c :: u32) = a)"
proof -
  have e: "EncodeVarint32 a = (if a < 128 then [ucast a] else ucast (a OR 128) # varint_bytes (ucast (drop_bit 7 a)))"
    by (simp add: EncodeVarint32_eq varint_bytes32 [of a])
  show ?thesis
  proof (cases "a < 128")
    case True
    then have "unat a < 256" by (simp add: word_less_nat_alt)
    then have "take_bit 8 a = a"
      by (simp add: word_unat_eq_iff unsigned_take_bit_eq take_bit_nat_eq_self)
    with \<open>unat a < 256\<close> have "(ucast (ucast a :: byte) :: u32) = a"
      by (simp add: word_unat_eq_iff unsigned_ucast_eq take_bit_nat_eq_self)
    with True e show ?thesis by simp
  next
    case False
    have "bit (ucast (ucast (a OR 128) :: byte) :: u32) 7" by (simp add: bit_simps)
    from bit7_ge [OF this] False e show ?thesis by auto
  qed
qed

lemma DecodeEntry_varints:
  assumes "\<not> (word_of_nat (length rest) :: u32) < b + c"
  shows "DecodeEntry (EncodeVarint32 a @ EncodeVarint32 b @ EncodeVarint32 c @ rest) = Some (a, b, c, rest)"
proof -
  let ?p = "EncodeVarint32 a @ EncodeVarint32 b @ EncodeVarint32 c @ rest"
  obtain a0 ar where a: "EncodeVarint32 a = a0 # ar" "(ucast a0 :: u32) < 128 \<longleftrightarrow> a < 128"
    "a < 128 \<longrightarrow> ar = [] \<and> (ucast a0 :: u32) = a" using Varint32_first by blast
  obtain b0 br where b: "EncodeVarint32 b = b0 # br" "(ucast b0 :: u32) < 128 \<longleftrightarrow> b < 128"
    "b < 128 \<longrightarrow> br = [] \<and> (ucast b0 :: u32) = b" using Varint32_first by blast
  obtain c0 cr where c: "EncodeVarint32 c = c0 # cr" "(ucast c0 :: u32) < 128 \<longleftrightarrow> c < 128"
    "c < 128 \<longrightarrow> cr = [] \<and> (ucast c0 :: u32) = c" using Varint32_first by blast
  have l: "3 \<le> length ?p" by (simp add: a b c)
  let ?or = "(ucast (?p ! 0) :: u32) OR ucast (?p ! 1) OR ucast (?p ! 2)"
  have f: "?or < 128 \<longleftrightarrow> a < 128 \<and> b < 128 \<and> c < 128"
  proof (cases "a < 128 \<and> b < 128")
    case True
    then show ?thesis by (simp add: or_less128 a b c)
  next
    case False
    then show ?thesis using a(2,3) b(2,3) by (cases "a < 128") (simp_all add: or_less128 a(1) b(1) c(1))
  qed
  have slow: "GetVarint32Ptr ?p = Some (a, EncodeVarint32 b @ EncodeVarint32 c @ rest)"
    by (rule GetVarint32Ptr_reads)
  show ?thesis
  proof (cases "a < 128 \<and> b < 128 \<and> c < 128")
    case True
    with a b c have "ucast (?p ! 0) = a" "ucast (?p ! 1) = b" "ucast (?p ! 2) = c" "drop 3 ?p = rest"
      by (simp_all add: numeral_3_eq_3)
    with True l f assms show ?thesis by (simp only: DecodeEntry_def Let_def) simp
  next
    case False
    with f l assms slow show ?thesis
      by (simp only: DecodeEntry_def Let_def not_less [symmetric] if_False option.case prod.case
          GetVarint32Ptr_reads)
  qed
qed

subsection \<open>The layout of a block\<close>

text \<open>
  Entry \<open>i\<close> of a block with restart interval \<open>n\<close> shares a prefix with its predecessor unless
  \<open>i\<close> is a multiple of \<open>n\<close>; \<open>entry_off\<close> is its offset.
\<close>

definition entry_bytes :: "nat \<Rightarrow> byte list \<Rightarrow> byte list \<Rightarrow> byte list" where
  "entry_bytes sh k v =
     EncodeVarint32 (word_of_nat sh) @ EncodeVarint32 (word_of_nat (length k - sh)) @
     EncodeVarint32 (word_of_nat (length v)) @ drop sh k @ v"

definition shared_at :: "nat \<Rightarrow> entries \<Rightarrow> nat \<Rightarrow> nat" where
  "shared_at n es i = (if i mod n = 0 then 0 else diff_index (fst (es ! (i - 1))) (fst (es ! i)))"

definition entry_at :: "nat \<Rightarrow> entries \<Rightarrow> nat \<Rightarrow> byte list" where
  "entry_at n es i = entry_bytes (shared_at n es i) (fst (es ! i)) (snd (es ! i))"

definition entries_from :: "nat \<Rightarrow> entries \<Rightarrow> nat \<Rightarrow> byte list" where
  "entries_from n es i = concat (map (entry_at n es) [i..<length es])"

definition entry_off :: "nat \<Rightarrow> entries \<Rightarrow> nat \<Rightarrow> nat" where
  "entry_off n es i = length (concat (map (entry_at n es) [0..<i]))"

definition restart_count :: "nat \<Rightarrow> entries \<Rightarrow> nat" where
  "restart_count n es = (length es - 1) div n + 1"

definition block_bytes :: "nat \<Rightarrow> entries \<Rightarrow> byte list" where
  "block_bytes n es = entries_from n es 0 @
     concat (map EncodeFixed32 (map (\<lambda>j. word_of_nat (entry_off n es (j * n))) [0..<restart_count n es]
       @ [word_of_nat (restart_count n es)]))"

lemma diff_index_prefix:
  "diff_index a b \<le> length a \<and> diff_index a b \<le> length b \<and> take (diff_index a b) a = take (diff_index a b) b"
  by (induction a b rule: diff_index.induct) auto

lemma shared_le: "shared_at n es i \<le> length (fst (es ! i))"
  using diff_index_prefix by (simp add: shared_at_def)

lemma entry_at_snoc: "i < length es \<Longrightarrow> entry_at n (es @ [e]) i = entry_at n es i"
  by (cases i) (simp_all add: entry_at_def shared_at_def nth_append)

lemma entries_snoc:
  "entries_from n (es @ [e]) 0 = entries_from n es 0 @ entry_at n (es @ [e]) (length es)"
proof -
  have "map (entry_at n (es @ [e])) [0..<length es] = map (entry_at n es) [0..<length es]"
    by (rule map_cong) (simp_all add: entry_at_snoc)
  then show ?thesis by (simp add: entries_from_def del: map_eq_conv)
qed

lemma entry_off_snoc: "i \<le> length es \<Longrightarrow> entry_off n (es @ [e]) i = entry_off n es i"
  unfolding entry_off_def by (intro arg_cong [of _ _ "\<lambda>xs. length (concat xs)"] map_cong) (auto simp: entry_at_snoc)

lemma entry_off_all: "entry_off n es (length es) = length (entries_from n es 0)"
  by (simp add: entry_off_def entries_from_def)

definition block_adds :: "nat \<Rightarrow> entries \<Rightarrow> BlockBuilder" where
  "block_adds n es = foldl (\<lambda>b (k, v). BlockAdd n k v b) NewBlockBuilder es"

lemma restart_step:
  fixes m n :: nat
  assumes "0 < n" and "0 < m"
  shows "(m - 1) mod n + 1 < n \<longleftrightarrow> m mod n \<noteq> 0"
    and "m div n = (if m mod n = 0 then (m - 1) div n + 1 else (m - 1) div n)"
    and "m mod n \<noteq> 0 \<Longrightarrow> m mod n = (m - 1) mod n + 1"
proof -
  obtain k where m: "m = Suc k" using assms(2) by (cases m) auto
  have "k mod n < n" using assms(1) by simp
  then show "(m - 1) mod n + 1 < n \<longleftrightarrow> m mod n \<noteq> 0" by (auto simp: m mod_Suc)
  show "m div n = (if m mod n = 0 then (m - 1) div n + 1 else (m - 1) div n)" by (simp add: m div_Suc)
  show "m mod n \<noteq> 0 \<Longrightarrow> m mod n = (m - 1) mod n + 1" by (auto simp: m mod_Suc)
qed

lemma block_adds_state:
  assumes "0 < n"
  shows "block_adds n es =
    \<lparr>bb_buffer = entries_from n es 0,
     bb_restarts = map (\<lambda>j. word_of_nat (entry_off n es (j * n))) [0..<restart_count n es],
     bb_counter = (if es = [] then 0 else (length es - 1) mod n + 1),
     bb_finished = False,
     bb_last_key = (if es = [] then [] else fst (last es))\<rparr>"
proof (induction es rule: rev_induct)
  case Nil
  then show ?case
    by (simp add: block_adds_def NewBlockBuilder_def entries_from_def restart_count_def entry_off_def)
next
  case (snoc e es)
  obtain k v where e: "e = (k, v)" by fastforce
  let ?m = "length es"
  let ?sh = "shared_at n (es @ [e]) ?m"
  let ?b = "block_adds n es"
  have c: "bb_counter ?b < n \<longleftrightarrow> es = [] \<or> ?m mod n \<noteq> 0"
    using assms restart_step(1) [OF assms, of ?m] by (simp add: snoc)
  have sh: "(if bb_counter ?b < n then diff_index (bb_last_key ?b) k else 0) = ?sh"
    unfolding c
  proof (cases "es = []")
    case True
    then show "(if es = [] \<or> ?m mod n \<noteq> 0 then diff_index (bb_last_key ?b) k else 0) = ?sh"
      by (simp add: shared_at_def block_adds_def NewBlockBuilder_def)
  next
    case False
    then show "(if es = [] \<or> ?m mod n \<noteq> 0 then diff_index (bb_last_key ?b) k else 0) = ?sh"
      by (simp add: snoc shared_at_def nth_append e last_conv_nth)
  qed
  have lk: "take ?sh (bb_last_key ?b) @ drop ?sh k = k"
  proof -
    have "take ?sh (bb_last_key ?b) = take ?sh k"
      unfolding sh [symmetric] using diff_index_prefix [of "bb_last_key ?b" k] by simp
    then show ?thesis by simp
  qed
  have r: "map (\<lambda>j. word_of_nat (entry_off n (es @ [e]) (j * n)) :: u32) [0..<restart_count n (es @ [e])] =
      (if bb_counter ?b < n then bb_restarts ?b else bb_restarts ?b @ [word_of_nat (length (bb_buffer ?b))])"
  proof -
    have j: "entry_off n (es @ [e]) (j * n) = entry_off n es (j * n)" if "j < restart_count n es" for j
    proof -
      have "j \<le> (?m - 1) div n" using that by (simp add: restart_count_def)
      then have "j * n \<le> ?m - 1" using assms by (metis div_times_less_eq_dividend le_trans mult_le_mono1)
      then show ?thesis by (simp add: entry_off_snoc)
    qed
    show ?thesis
    proof (cases "es = [] \<or> ?m mod n \<noteq> 0")
      case True
      then have "restart_count n (es @ [e]) = restart_count n es"
        using restart_step(2) [OF assms, of ?m] by (cases "es = []") (auto simp: restart_count_def)
      with True j show ?thesis unfolding c by (simp add: snoc)
    next
      case False
      then have rc: "restart_count n (es @ [e]) = Suc (restart_count n es)"
        using restart_step(2) [OF assms, of ?m] by (auto simp: restart_count_def)
      have "restart_count n es = ?m div n"
        using False restart_step(2) [OF assms, of ?m] by (simp add: restart_count_def)
      moreover have "?m div n * n = ?m" using False div_mult_mod_eq [of ?m n] by simp
      ultimately have "restart_count n es * n = ?m" by simp
      then have "entry_off n (es @ [e]) (restart_count n es * n) = length (bb_buffer ?b)"
        using entry_off_snoc [of ?m es n e] entry_off_all [of n es] by (simp add: snoc)
      with False j rc show ?thesis unfolding c by (simp add: snoc)
    qed
  qed
  have cn: "(if bb_counter ?b < n then bb_counter ?b else 0) + 1 = ?m mod n + 1"
    unfolding c using restart_step(3) [OF assms, of ?m] by (auto simp: snoc)
  have buf: "entries_from n (es @ [e]) 0 = bb_buffer ?b @ entry_bytes ?sh k v"
    by (simp add: snoc entries_snoc) (simp add: entry_at_def e)
  have "block_adds n (es @ [e]) = BlockAdd n k v ?b"
    by (simp add: block_adds_def e)
  also have "\<dots> = \<lparr>bb_buffer = bb_buffer ?b @ entry_bytes ?sh k v,
      bb_restarts = (if bb_counter ?b < n then bb_restarts ?b else bb_restarts ?b @ [word_of_nat (length (bb_buffer ?b))]),
      bb_counter = (if bb_counter ?b < n then bb_counter ?b else 0) + 1,
      bb_finished = bb_finished ?b, bb_last_key = k\<rparr>"
    using lk unfolding BlockAdd_def sh Let_def by (simp add: PutVarint32_def entry_bytes_def)
  finally show ?case
    unfolding r [symmetric] cn buf by (simp add: snoc e)
qed

subsection \<open>Iterating over a well-formed block\<close>

lemma block_finish: "0 < n \<Longrightarrow> fst (BlockFinish (block_adds n es)) = block_bytes n es"
  by (simp add: BlockFinish_def Let_def block_adds_state foldl_PutFixed32 block_bytes_def PutFixed32_def)

text \<open>The iterator works on the block of the entries, which is small enough for its offsets.\<close>

definition on_block :: "nat \<Rightarrow> entries \<Rightarrow> block_iter \<Rightarrow> bool" where
  "on_block n es it \<longleftrightarrow> 0 < n \<and> length (block_bytes n es) < 2 ^ 32 \<and>
     bi_data it = block_bytes n es \<and> bi_restarts it = entry_off n es (length es) \<and>
     bi_num_restarts it = restart_count n es"

lemma entry_off_Suc: "entry_off n es (Suc i) = entry_off n es i + length (entry_at n es i)"
  by (simp add: entry_off_def)

lemma entry_off_mono: "i \<le> j \<Longrightarrow> entry_off n es i \<le> entry_off n es j"
  by (induction j) (auto simp: entry_off_Suc le_Suc_eq)

lemma entry_at_pos: "3 \<le> length (entry_at n es i)"
proof -
  have p: "Suc 0 \<le> length (EncodeVarint32 a)" for a using v32.nonempty [of a] by (simp add: Suc_le_eq)
  have "Suc 0 + (Suc 0 + Suc 0) \<le> length (EncodeVarint32 a) + (length (EncodeVarint32 b) + length (EncodeVarint32 c))"
    for a b c by (intro add_mono p)
  from this [THEN trans_le_add1] show ?thesis
    by (simp add: entry_at_def entry_bytes_def numeral_3_eq_3 add.assoc)
qed

lemma entry_off_strict: "entry_off n es i < entry_off n es j \<longleftrightarrow> i < j"
proof -
  have "entry_off n es i < entry_off n es j" if "i < j" for i j
    using that entry_off_mono [of "Suc i" j n es] entry_at_pos [of n es i] by (simp add: entry_off_Suc)
  then show ?thesis using entry_off_mono [of j i n es] by (meson leD not_less)
qed

lemma entry_off_le: "entry_off n es i \<le> entry_off n es j \<longleftrightarrow> i \<le> j"
  by (simp add: not_less [symmetric] entry_off_strict)

lemma entries_from_Cons: "i < length es \<Longrightarrow> entries_from n es i = entry_at n es i @ entries_from n es (Suc i)"
  by (simp add: entries_from_def upt_conv_Cons)

lemma entries_split:
  assumes "i \<le> length es"
  shows "entries_from n es 0 = concat (map (entry_at n es) [0..<i]) @ entries_from n es i"
proof -
  have "[0..<length es] = [0..<i] @ [i..<length es]" using assms upt_add_eq_append [of 0 i "length es - i"] by simp
  then show ?thesis by (simp add: entries_from_def)
qed

lemma entries_drop: "i \<le> length es \<Longrightarrow> drop (entry_off n es i) (entries_from n es 0) = entries_from n es i"
  using entries_split [of i es n] by (simp add: entry_off_def)

lemma entries_length: "i \<le> length es \<Longrightarrow>
  length (entries_from n es i) = entry_off n es (length es) - entry_off n es i"
  using arg_cong [OF entries_split [of i es n], of length] by (simp add: entry_off_all) (simp add: entry_off_def)

lemma range_at:
  assumes on: "on_block n es it" and i: "i \<le> length es"
  shows "data_range it (entry_off n es i) = entries_from n es i"
proof -
  let ?t = "concat (map EncodeFixed32 (map (\<lambda>j. word_of_nat (entry_off n es (j * n))) [0..<restart_count n es]
       @ [word_of_nat (restart_count n es)]))"
  have "data_range it (entry_off n es i)
      = take (entry_off n es (length es) - entry_off n es i) (drop (entry_off n es i) (entries_from n es 0 @ ?t))"
    using on by (simp add: data_range_def on_block_def block_bytes_def)
  also have "drop (entry_off n es i) (entries_from n es 0 @ ?t) = entries_from n es i @ ?t"
    using entry_off_mono [OF i, of n es] entries_drop [OF i] by (simp add: entry_off_all)
  finally show ?thesis using entries_length [OF i] by simp
qed

text \<open>The offsets and lengths of a small block fit into 32 bits.\<close>

lemma key_length: "i < length es \<Longrightarrow> length (fst (es ! i)) \<le> entry_off n es (Suc i)"
proof (induction i)
  case 0
  then show ?case by (simp add: entry_off_Suc entry_at_def entry_bytes_def shared_at_def)
next
  case (Suc i)
  have "shared_at n es (Suc i) \<le> length (fst (es ! i))"
    using diff_index_prefix [of "fst (es ! i)" "fst (es ! Suc i)"] by (simp add: shared_at_def)
  also have "\<dots> \<le> entry_off n es (Suc i)" using Suc by simp
  finally have "shared_at n es (Suc i) \<le> entry_off n es (Suc i)" .
  moreover have "length (fst (es ! Suc i)) - shared_at n es (Suc i) \<le> length (entry_at n es (Suc i))"
    by (simp add: entry_at_def entry_bytes_def)
  ultimately show ?case by (simp add: entry_off_Suc [of n es "Suc i"])
qed

lemma block_length: "length (block_bytes n es) = entry_off n es (length es) + 4 * (restart_count n es + 1)"
  by (simp add: block_bytes_def concat_fixed_length entry_off_all del: map_append map_map)

lemma on_block_small:
  assumes "on_block n es it"
  shows "entry_off n es (length es) < 2 ^ 32" and "restart_count n es < 2 ^ 32"
  using assms by (simp_all add: on_block_def block_length)

lemma on_block_unat:
  assumes on: "on_block n es it" and i: "i < length es"
  shows "unat (word_of_nat (shared_at n es i) :: u32) = shared_at n es i"
    and "unat (word_of_nat (length (fst (es ! i)) - shared_at n es i) :: u32) = length (fst (es ! i)) - shared_at n es i"
    and "unat (word_of_nat (length (snd (es ! i))) :: u32) = length (snd (es ! i))"
    and "length (fst (es ! i)) - shared_at n es i + length (snd (es ! i)) + length (entries_from n es (Suc i)) < 2 ^ 32"
proof -
  have l: "entry_off n es (Suc i) \<le> entry_off n es (length es)" using i by (simp add: entry_off_mono)
  have k: "length (fst (es ! i)) < 2 ^ 32" "shared_at n es i \<le> length (fst (es ! i))"
    using key_length [OF i, of n] l on_block_small(1) [OF on] shared_le [of n es i] by linarith+
  have s: "length (fst (es ! i)) - shared_at n es i + length (snd (es ! i)) + length (entries_from n es (Suc i)) < 2 ^ 32"
  proof -
    have "length (fst (es ! i)) - shared_at n es i + length (snd (es ! i)) \<le> length (entry_at n es i)"
      by (simp add: entry_at_def entry_bytes_def)
    moreover have "entry_off n es i + length (entry_at n es i) + length (entries_from n es (Suc i)) = entry_off n es (length es)"
      using entries_length [of "Suc i" es n] i l by (simp add: entry_off_Suc)
    ultimately show ?thesis using on_block_small(1) [OF on] by linarith
  qed
  then show "length (fst (es ! i)) - shared_at n es i + length (snd (es ! i)) + length (entries_from n es (Suc i)) < 2 ^ 32" .
  show "unat (word_of_nat (shared_at n es i) :: u32) = shared_at n es i"
    using k by (intro unat_of_nat_u32) linarith
  show "unat (word_of_nat (length (fst (es ! i)) - shared_at n es i) :: u32) = length (fst (es ! i)) - shared_at n es i"
    using s by (intro unat_of_nat_u32) linarith
  show "unat (word_of_nat (length (snd (es ! i))) :: u32) = length (snd (es ! i))"
    using s by (intro unat_of_nat_u32) linarith
qed

lemma decode_at:
  assumes on: "on_block n es it" and i: "i < length es"
  shows "DecodeEntry (entries_from n es i) =
    Some (word_of_nat (shared_at n es i), word_of_nat (length (fst (es ! i)) - shared_at n es i),
      word_of_nat (length (snd (es ! i))),
      drop (shared_at n es i) (fst (es ! i)) @ snd (es ! i) @ entries_from n es (Suc i))"
proof -
  let ?k = "fst (es ! i)" let ?v = "snd (es ! i)" let ?s = "shared_at n es i"
  let ?rest = "drop ?s ?k @ ?v @ entries_from n es (Suc i)"
  have "unat (word_of_nat (length ?k - ?s) + word_of_nat (length ?v) :: u32) = length ?k - ?s + length ?v"
    using on_block_unat(2-4) [OF on i]
    by (subst unat_add_lem [THEN iffD1]) simp_all
  moreover have "unat (word_of_nat (length ?rest) :: u32) = length ?rest"
    using on_block_unat(4) [OF on i] by (intro unat_of_nat_u32) simp
  ultimately have "\<not> (word_of_nat (length ?rest) :: u32) < word_of_nat (length ?k - ?s) + word_of_nat (length ?v)"
    by (simp add: word_less_nat_alt)
  from DecodeEntry_varints [OF this] show ?thesis
    by (simp add: entries_from_Cons [OF i] entry_at_def entry_bytes_def)
qed

lemma restart_le: "0 < n \<Longrightarrow> j < restart_count n es \<Longrightarrow> j * n \<le> length es - 1"
proof -
  assume "0 < n" "j < restart_count n es"
  then have "j \<le> (length es - 1) div n" by (simp add: restart_count_def)
  then show ?thesis by (metis div_times_less_eq_dividend le_trans mult_le_mono1)
qed

lemma restart_point:
  assumes on: "on_block n es it" and j: "j < restart_count n es"
  shows "GetRestartPoint it j = entry_off n es (j * n)"
proof -
  let ?ws = "map (\<lambda>j. word_of_nat (entry_off n es (j * n)) :: u32) [0..<restart_count n es] @ [word_of_nat (restart_count n es)]"
  have "drop (bi_restarts it + j * 4) (bi_data it) = drop (4 * j) (concat (map EncodeFixed32 ?ws) @ [])"
    using on by (simp add: on_block_def block_bytes_def entry_off_all mult.commute)
  then have "DecodeFixed32 (drop (bi_restarts it + j * 4) (bi_data it)) = ?ws ! j"
    using nth_fixed32 [of j ?ws "[]"] j by simp
  also have "?ws ! j = word_of_nat (entry_off n es (j * n))" using j by (simp add: nth_append)
  finally have "GetRestartPoint it j = unat (word_of_nat (entry_off n es (j * n)) :: u32)"
    by (simp add: GetRestartPoint_def)
  moreover have "entry_off n es (j * n) < 2 ^ 32"
  proof -
    have "j * n \<le> length es" using restart_le [OF _ j] on by (simp add: on_block_def)
    from entry_off_mono [OF this, of n es] show ?thesis using on_block_small(1) [OF on] by linarith
  qed
  ultimately show ?thesis by (simp add: unat_of_nat_u32)
qed

subsection \<open>Positions of the iterator\<close>

text \<open>
  \<open>ready n es i it\<close>: the next call of \<open>ParseNextKey\<close> reads entry \<open>i\<close>. \<open>at_entry n es i it\<close>: the
  iterator stands on entry \<open>i\<close>, or behind the last entry.
\<close>

definition ready :: "nat \<Rightarrow> entries \<Rightarrow> nat \<Rightarrow> block_iter \<Rightarrow> bool" where
  "ready n es i it \<longleftrightarrow> on_block n es it \<and> bi_status it = OK \<and> i \<le> length es \<and>
     NextEntryOffset it = entry_off n es i \<and> bi_index it * n \<le> i \<and> bi_index it < restart_count n es \<and>
     (i mod n \<noteq> 0 \<longrightarrow> bi_key it = fst (es ! (i - 1)))"

definition at_entry :: "nat \<Rightarrow> entries \<Rightarrow> nat \<Rightarrow> block_iter \<Rightarrow> bool" where
  "at_entry n es i it \<longleftrightarrow> on_block n es it \<and> bi_status it = OK \<and>
     (if i < length es
      then bi_current it = entry_off n es i \<and> NextEntryOffset it = entry_off n es (Suc i) \<and>
           bi_key it = fst (es ! i) \<and> bi_value it = snd (es ! i) \<and>
           bi_index it * n \<le> i \<and> i \<le> Suc (bi_index it) * n \<and> bi_index it < restart_count n es
      else i = length es \<and> bi_current it = bi_restarts it)"

lemma ready_next: "at_entry n es i it \<Longrightarrow> i < length es \<Longrightarrow> ready n es (Suc i) it"
  by (auto simp: at_entry_def ready_def)

lemma ready_restart:
  assumes "on_block n es it" and "bi_status it = OK" and "j < restart_count n es"
  shows "ready n es (j * n) (SeekToRestartPoint j it)"
proof -
  have "0 < n" using assms(1) by (simp add: on_block_def)
  then have "j * n \<le> length es" using restart_le [of n j es] assms(3) by simp
  then show ?thesis using assms restart_point [OF assms(1,3)]
    by (simp add: ready_def SeekToRestartPoint_def on_block_def NextEntryOffset_def)
qed

text \<open>The index moves to the last restart point before the current entry.\<close>

lemma advance_index_restart:
  assumes "on_block n es it" and "i < length es" and "bi_current it = entry_off n es i"
    and "bi_index it * n \<le> i" and "bi_index it < restart_count n es"
  shows "bi_index (advance_index it) * n \<le> i \<and> i \<le> Suc (bi_index (advance_index it)) * n \<and>
    bi_index (advance_index it) < restart_count n es"
  using assms
proof (induction it rule: advance_index.induct)
  case (1 it)
  let ?j = "bi_index it + 1"
  have num: "bi_num_restarts it = restart_count n es" and n: "0 < n" using 1(2) by (simp_all add: on_block_def)
  show ?case
  proof (cases "?j < bi_num_restarts it \<and> GetRestartPoint it ?j < bi_current it")
    case True
    then have "entry_off n es (?j * n) < entry_off n es i" using restart_point [OF 1(2), of ?j] 1(4) num by simp
    then have lt: "?j * n < i" by (simp only: entry_off_strict)
    have on: "on_block n es (it\<lparr>bi_index := ?j\<rparr>)" using 1(2) by (simp add: on_block_def)
    have "bi_index (advance_index (it\<lparr>bi_index := ?j\<rparr>)) * n \<le> i \<and>
      i \<le> Suc (bi_index (advance_index (it\<lparr>bi_index := ?j\<rparr>))) * n \<and>
      bi_index (advance_index (it\<lparr>bi_index := ?j\<rparr>)) < restart_count n es"
      by (rule 1(1) [OF True on 1(3)]) (use lt True num 1(4) in auto)
    then show ?thesis using True by (subst (1 2 3) advance_index.simps) simp
  next
    case False
    then have a: "advance_index it = it" using advance_index.simps [of it] by (simp only: if_False)
    have "i \<le> ?j * n"
    proof (cases "?j < bi_num_restarts it")
      case True
      with False have "entry_off n es i \<le> entry_off n es (?j * n)"
        using restart_point [OF 1(2), of ?j] 1(4) num by simp
      then show ?thesis using entry_off_strict [of n es "?j * n" i] by linarith
    next
      case False
      with num 1(6) have "bi_index it = (length es - 1) div n" by (simp add: restart_count_def)
      then have "length es - 1 < ?j * n" using n
        by (simp add: dividend_less_div_times add.commute)
      then show ?thesis using 1(3) by linarith
    qed
    then show ?thesis using 1(5,6) by (simp add: a)
  qed
qed

lemma parse_at:
  assumes "ready n es i it"
  shows "\<exists>it'. ParseNextKey it = Some (i < length es, it') \<and> at_entry n es i it'"
proof -
  have on: "on_block n es it" and ok: "bi_status it = OK" and le: "i \<le> length es"
    and nx: "NextEntryOffset it = entry_off n es i" and ix: "bi_index it * n \<le> i" "bi_index it < restart_count n es"
    and key: "i mod n \<noteq> 0 \<Longrightarrow> bi_key it = fst (es ! (i - 1))"
    using assms by (simp_all add: ready_def)
  let ?c = "it\<lparr>bi_current := entry_off n es i\<rparr>"
  have onc: "on_block n es ?c" using on by (simp add: on_block_def)
  have res: "bi_restarts it = entry_off n es (length es)" using on by (simp add: on_block_def)
  show ?thesis
  proof (cases "i < length es")
    case False
    with le have "i = length es" by simp
    then have "ParseNextKey it = Some (False, ?c\<lparr>bi_current := bi_restarts it, bi_index := bi_num_restarts it\<rparr>)"
      using nx res by (simp add: ParseNextKey_def Let_def)
    then show ?thesis using \<open>i = length es\<close> ok on by (simp add: at_entry_def on_block_def)
  next
    case True
    let ?k = "fst (es ! i)" let ?v = "snd (es ! i)" let ?s = "shared_at n es i"
    let ?q = "drop ?s ?k @ ?v @ entries_from n es (Suc i)"
    let ?p = "entries_from n es i"
    note u = on_block_unat [OF on True]
    have lt: "entry_off n es i < bi_restarts it" using True by (simp add: res entry_off_strict)
    have p: "data_range ?c (entry_off n es i) = ?p" by (rule range_at [OF onc le])
    have sk: "?s \<le> length (bi_key it)" and take: "take ?s (bi_key it) = take ?s ?k"
      using key diff_index_prefix [of "fst (es ! (i - 1))" ?k] by (auto simp: shared_at_def split: if_splits)
    have off: "entry_off n es i + (length ?p - length ?q) + (length ?k - ?s) + length ?v = entry_off n es (Suc i)"
      using shared_le [of n es i] by (simp add: entries_from_Cons [OF True] entry_off_Suc entry_at_def entry_bytes_def)
    let ?d = "?c\<lparr>bi_key := ?k, bi_value_offset := entry_off n es i + (length ?p - length ?q) + (length ?k - ?s),
      bi_value_length := length ?v\<rparr>"
    have parse: "ParseNextKey it = Some (True, advance_index ?d)"
      using sk take u(1-3) lt
      by (simp add: ParseNextKey_def Let_def nx p decode_at [OF on True])
    have ond: "on_block n es ?d" using on by (simp add: on_block_def)
    have val: "bi_value ?d = ?v"
    proof -
      have "drop (entry_off n es i) (bi_data it) = ?p @ drop (entry_off n es (length es)) (bi_data it)"
        using on entries_drop [OF le, of n] entry_off_mono [OF le, of n es]
        by (simp add: on_block_def block_bytes_def entry_off_all)
      then have "drop (length ?p - length ?q + (length ?k - ?s)) (drop (entry_off n es i) (bi_data it)) =
          ?v @ entries_from n es (Suc i) @ drop (entry_off n es (length es)) (bi_data it)"
        by (simp add: entries_from_Cons [OF True] entry_at_def entry_bytes_def)
      then show ?thesis by (simp add: bi_value_def add.commute add.left_commute)
    qed
    have "bi_value (advance_index ?d) = bi_value ?d" "NextEntryOffset (advance_index ?d) = NextEntryOffset ?d"
      by (simp_all add: bi_value_def NextEntryOffset_def)
    with val have "at_entry n es i (advance_index ?d)"
      using True ok off ond advance_index_restart [OF ond True] ix
      by (simp add: at_entry_def on_block_def NextEntryOffset_def)
    with parse True show ?thesis by simp
  qed
qed

lemma at_first: "at_entry n es i it \<Longrightarrow> \<exists>it'. BlockSeekToFirst it = Some it' \<and> at_entry n es 0 it'"
  using parse_at [of n es 0 "SeekToRestartPoint 0 it"] ready_restart [of n es it 0]
  by (fastforce simp: at_entry_def BlockSeekToFirst_def restart_count_def)

lemma at_next: "at_entry n es i it \<Longrightarrow> i < length es \<Longrightarrow> \<exists>it'. BlockNext it = Some it' \<and> at_entry n es (Suc i) it'"
  using parse_at [OF ready_next, of n es i it] by (auto simp: BlockNext_def)

lemma at_valid: "at_entry n es i it \<Longrightarrow> bi_valid it \<longleftrightarrow> i < length es"
  by (cases "i < length es") (simp_all add: at_entry_def bi_valid_def on_block_def entry_off_strict)

lemma skip_at:
  assumes "ready n es i it" and "i < b" and "b \<le> length es"
  shows "\<exists>it'. skip_until (entry_off n es b) it = Some it' \<and> at_entry n es (b - 1) it'"
  using assms
proof (induction "b - i" arbitrary: i it)
  case 0
  then show ?case by simp
next
  case (Suc d)
  obtain it' where p: "ParseNextKey it = Some (True, it')" and a: "at_entry n es i it'"
    using parse_at [OF Suc.prems(1)] Suc.prems(2,3) by auto
  have nx: "NextEntryOffset it' = entry_off n es (Suc i)" using a Suc.prems(2,3) by (simp add: at_entry_def)
  show ?case
  proof (cases "Suc i < b")
    case True
    then have "\<exists>r. skip_until (entry_off n es b) it' = Some r \<and> at_entry n es (b - 1) r"
      using ready_next [OF a] Suc.prems(3) Suc.hyps(2) by (intro Suc.hyps(1) [of "Suc i"]) simp_all
    with True show ?thesis by (subst skip_until.simps) (simp add: p nx entry_off_strict)
  next
    case False
    with Suc.prems(2) have "b - 1 = i" by simp
    with False a show ?thesis by (subst skip_until.simps) (simp add: p nx entry_off_strict)
  qed
qed

lemma at_last:
  assumes "at_entry n es i it"
  shows "\<exists>it'. BlockSeekToLast it = Some it' \<and> at_entry n es (length es - 1) it'"
proof -
  have on: "on_block n es it" and ok: "bi_status it = OK" using assms by (simp_all add: at_entry_def)
  let ?j = "restart_count n es - 1"
  have r: "ready n es (?j * n) (SeekToRestartPoint ?j it)"
    by (rule ready_restart [OF on ok]) (simp add: restart_count_def)
  have "bi_restarts it = entry_off n es (length es)" "bi_num_restarts it = restart_count n es"
    using on by (simp_all add: on_block_def)
  then have l: "BlockSeekToLast it = skip_until (entry_off n es (length es)) (SeekToRestartPoint ?j it)"
    by (simp add: BlockSeekToLast_def)
  show ?thesis
  proof (cases "es = []")
    case True
    then obtain it' where "ParseNextKey (SeekToRestartPoint ?j it) = Some (False, it')" "at_entry n es 0 it'"
      using parse_at [OF r] by (auto simp: restart_count_def)
    with True show ?thesis unfolding l by (subst skip_until.simps) simp
  next
    case False
    have "?j * n \<le> length es - 1"
      using restart_le [of n ?j es] on by (simp add: on_block_def restart_count_def)
    with False have "?j * n < length es" by (cases es) simp_all
    from skip_at [OF r this] show ?thesis unfolding l by simp
  qed
qed

lemma scan_back_at:
  assumes "on_block n es it" and "i \<le> length es" and "j < restart_count n es" and "i \<le> Suc j * n"
  shows "case scan_back it (entry_off n es i) j of None \<Rightarrow> i = 0 | Some k \<Rightarrow> k \<le> j \<and> k * n < i"
  using assms(3,4)
proof (induction j)
  case 0
  then show ?case
    using restart_point [OF assms(1), of 0] by (subst scan_back.simps) (simp add: entry_off_le)
next
  case (Suc j)
  show ?case
  proof (cases "Suc j * n < i")
    case True
    then show ?thesis
      using restart_point [OF assms(1) Suc.prems(1)] by (subst scan_back.simps) (simp add: entry_off_le not_le)
  next
    case False
    with Suc have "case scan_back it (entry_off n es i) j of None \<Rightarrow> i = 0 | Some k \<Rightarrow> k \<le> j \<and> k * n < i"
      by simp
    moreover have "scan_back it (entry_off n es i) (Suc j) = scan_back it (entry_off n es i) j"
      using False restart_point [OF assms(1) Suc.prems(1)]
      by (subst scan_back.simps) (simp add: entry_off_le not_less)
    ultimately show ?thesis by (auto split: option.splits)
  qed
qed

lemma at_prev:
  assumes "at_entry n es i it" and "i < length es"
  shows "\<exists>it'. BlockPrev it = Some it' \<and> at_entry n es (if i = 0 then length es else i - 1) it'"
proof -
  have on: "on_block n es it" and ok: "bi_status it = OK" and cur: "bi_current it = entry_off n es i"
    and ix: "i \<le> Suc (bi_index it) * n" "bi_index it < restart_count n es"
    using assms by (simp_all add: at_entry_def)
  note sb = scan_back_at [OF on less_imp_le [OF assms(2)] ix(2,1)]
  show ?thesis
  proof (cases "scan_back it (entry_off n es i) (bi_index it)")
    case None
    with sb have "i = 0" by simp
    with None show ?thesis using ok on
      by (simp add: BlockPrev_def Let_def cur at_entry_def on_block_def)
  next
    case (Some k)
    with sb have k: "k \<le> bi_index it" "k * n < i" by simp_all
    from ready_restart [OF on ok, of k] k(1) ix(2) have "ready n es (k * n) (SeekToRestartPoint k it)" by simp
    from skip_at [OF this k(2)] assms(2) Some k(2) show ?thesis
      by (auto simp: BlockPrev_def Let_def cur)
  qed
qed

lemma seek_pos_skip:
  assumes "i \<le> length es" and "\<And>j. j < i \<Longrightarrow> compare_op (fst (es ! j)) target < 0"
  shows "seek_pos compare_op target es = i + seek_pos compare_op target (drop i es)"
proof -
  let ?P = "\<lambda>(k, v). compare_op k target < 0"
  have "takeWhile ?P (take i es @ drop i es) = take i es @ takeWhile ?P (drop i es)"
  proof (rule takeWhile_append2)
    fix x assume "x \<in> set (take i es)"
    then obtain j where "j < i" "x = es ! j" using assms(1) by (auto simp: in_set_conv_nth)
    with assms(2) show "?P x" by (simp add: case_prod_beta)
  qed
  then have "length (takeWhile ?P es) = length (take i es @ takeWhile ?P (drop i es))" by simp
  then show ?thesis using assms(1) by (simp add: seek_pos_def)
qed

lemma seek_linear_at:
  assumes "ready n es i it"
  shows "\<exists>it'. seek_linear compare_op target it = Some it' \<and>
    at_entry n es (i + seek_pos compare_op target (drop i es)) it'"
  using assms
proof (induction "length es - i" arbitrary: i it)
  case 0
  then have "i = length es" by (simp add: ready_def)
  then show ?case using parse_at [OF 0(2)] by (subst seek_linear.simps) (auto simp: seek_pos_def)
next
  case (Suc d)
  then have i: "i < length es" by simp
  obtain it' where p: "ParseNextKey it = Some (True, it')" and a: "at_entry n es i it'"
    using parse_at [OF Suc.prems] i by auto
  have k: "bi_key it' = fst (es ! i)" using a i by (simp add: at_entry_def)
  have d: "drop i es = es ! i # drop (Suc i) es" using i by (simp add: Cons_nth_drop_Suc)
  show ?case
  proof (cases "compare_op (fst (es ! i)) target < 0")
    case True
    have "\<exists>r. seek_linear compare_op target it' = Some r \<and>
        at_entry n es (Suc i + seek_pos compare_op target (drop (Suc i) es)) r"
      using ready_next [OF a i] Suc.hyps(2) by (intro Suc.hyps(1)) simp_all
    with True p k show ?thesis
      by (subst seek_linear.simps) (simp add: d seek_pos_def case_prod_beta)
  next
    case False
    with p k a show ?thesis
      by (subst seek_linear.simps) (simp add: d seek_pos_def case_prod_beta)
  qed
qed

lemma seek_binary_at:
  assumes "on_block n es it" and "right < restart_count n es" and "left \<le> right"
    and "left = 0 \<or> compare_op (fst (es ! (left * n))) target < 0"
  shows "\<exists>l. seek_binary compare_op target it left right = Some (Some l) \<and> l < restart_count n es \<and>
    (l = 0 \<or> compare_op (fst (es ! (l * n))) target < 0)"
  using assms(2-4)
proof (induction "right - left" arbitrary: left right rule: less_induct)
  case less
  show ?case
  proof (cases "left < right")
    case False
    with less.prems show ?thesis by (subst seek_binary.simps) auto
  next
    case True
    define mid where "mid = (left + right + 1) div 2"
    have mid: "left < mid" "mid \<le> right" using True by (auto simp: mid_def)
    have n: "0 < n" using assms(1) by (simp add: on_block_def)
    have mc: "mid < restart_count n es" using mid less.prems(1) by simp
    from restart_le [OF n mc] mid n have ml: "mid * n < length es"
      by (cases es) (auto simp: less_Suc_eq_le)
    have sh: "shared_at n es (mid * n) = 0" by (simp add: shared_at_def)
    note u = on_block_unat [OF assms(1) ml, unfolded sh]
    have dec: "DecodeEntry (data_range it (GetRestartPoint it mid)) =
        Some (0, word_of_nat (length (fst (es ! (mid * n)))), word_of_nat (length (snd (es ! (mid * n)))),
          fst (es ! (mid * n)) @ snd (es ! (mid * n)) @ entries_from n es (Suc (mid * n)))"
      using decode_at [OF assms(1) ml]
      by (simp add: restart_point [OF assms(1) mc] range_at [OF assms(1) less_imp_le [OF ml]] sh)
    have step: "seek_binary compare_op target it left right =
        (if compare_op (fst (es ! (mid * n))) target < 0 then seek_binary compare_op target it mid right
         else seek_binary compare_op target it left (mid - 1))"
      using True u(2) unfolding seek_binary.simps [of compare_op target it left right] mid_def [symmetric] Let_def dec
      by simp
    show ?thesis
    proof (cases "compare_op (fst (es ! (mid * n))) target < 0")
      case c: True
      have "\<exists>l. seek_binary compare_op target it mid right = Some (Some l) \<and> l < restart_count n es \<and>
        (l = 0 \<or> compare_op (fst (es ! (l * n))) target < 0)"
        using mid less.prems c by (intro less.hyps) auto
      with c show ?thesis unfolding step by simp
    next
      case c: False
      have "\<exists>l. seek_binary compare_op target it left (mid - 1) = Some (Some l) \<and> l < restart_count n es \<and>
        (l = 0 \<or> compare_op (fst (es ! (l * n))) target < 0)"
        using mid less.prems by (intro less.hyps) auto
      with c show ?thesis unfolding step by simp
    qed
  qed
qed

lemma at_seek:
  assumes "at_entry n es i it"
    and "\<And>a b. a < b \<Longrightarrow> b < length es \<Longrightarrow> compare_op (fst (es ! b)) target < 0 \<Longrightarrow> compare_op (fst (es ! a)) target < 0"
  shows "\<exists>it'. BlockSeek compare_op target it = Some it' \<and> at_entry n es (seek_pos compare_op target es) it'"
proof -
  have on: "on_block n es it" and ok: "bi_status it = OK" using assms(1) by (simp_all add: at_entry_def)
  have num: "bi_num_restarts it = restart_count n es" "0 < n" using on by (simp_all add: on_block_def)
  obtain l where l: "seek_binary compare_op target it 0 (restart_count n es - 1) = Some (Some l)"
      "l < restart_count n es" "l = 0 \<or> compare_op (fst (es ! (l * n))) target < 0"
    using seek_binary_at [OF on, of "restart_count n es - 1" 0] by (auto simp: restart_count_def)
  have r: "ready n es (l * n) (SeekToRestartPoint l it)" by (rule ready_restart [OF on ok l(2)])
  have le: "l * n \<le> length es" using restart_le [OF num(2) l(2)] by simp
  have below: "compare_op (fst (es ! j)) target < 0" if "j < l * n" for j
  proof -
    have "l * n < length es"
      using restart_le [OF num(2) l(2)] that by (cases es) (auto simp: less_Suc_eq_le)
    moreover have "l \<noteq> 0" using that by (cases l) auto
    ultimately show ?thesis using assms(2) [OF that] l(3) by simp
  qed
  have "seek_pos compare_op target es = l * n + seek_pos compare_op target (drop (l * n) es)"
    using le below by (rule seek_pos_skip)
  with seek_linear_at [OF r, of compare_op target] show ?thesis
    by (simp only: BlockSeek_def num(1) l(1) option.case)
qed

lemma at_le: "at_entry n es i it \<Longrightarrow> i \<le> length es"
  by (auto simp: at_entry_def split: if_splits)

interpretation block: iterator_laws compare_op bi_valid bi_key bi_value BlockSeekToFirst BlockSeekToLast
  "BlockSeek compare_op" BlockNext BlockPrev "at_entry n" "\<lambda>_. True" for compare_op n
proof unfold_locales
  show "\<exists>r. BlockSeek compare_op t it = Some r \<and> at_entry n es (seek_pos compare_op t es) r"
    if "at_entry n es i it" "sorted_for compare_op t es" for es i it t
    using at_seek [OF that(1)] sorted_for_nth [OF that(2)] by blast
  show "i \<le> length es" if "at_entry n es i it" for es i it using that by (rule at_le)
  show "bi_valid it = (i < length es)" if "at_entry n es i it" for es i it using that by (rule at_valid)
  show "bi_key it = fst (es ! i)" "bi_value it = snd (es ! i)"
    if "at_entry n es i it" "i < length es" for es i it using that by (simp_all add: at_entry_def)
qed (blast intro: at_first at_last at_next at_prev)+

lemma NewIterator_block:
  assumes "0 < n" and "length (block_bytes n es) < 2 ^ 32"
  shows "\<exists>it. NewIterator (NewBlock (block_bytes n es)) = BlockIterator it \<and> at_entry n es (length es) it"
proof -
  let ?c = "block_bytes n es" let ?r = "restart_count n es"
  let ?ws = "map (\<lambda>j. word_of_nat (entry_off n es (j * n)) :: u32) [0..<?r] @ [word_of_nat ?r]"
  have len: "length ?c = entry_off n es (length es) + 4 * (?r + 1)" by (rule block_length)
  have "drop (length ?c - 4) ?c = drop (4 * ?r) (concat (map EncodeFixed32 ?ws) @ [])"
    using len by (simp add: block_bytes_def entry_off_all)
  then have "DecodeFixed32 (drop (length ?c - 4) ?c) = ?ws ! ?r"
    using nth_fixed32 [of ?r ?ws "[]"] by simp
  then have w: "last_word ?c = ?r"
    using len assms(2) by (simp add: last_word_def nth_append unat_of_nat_u32)
  have nb: "NewBlock ?c = \<lparr>blk_data = ?c, blk_size = length ?c, restart_offset = entry_off n es (length es)\<rparr>"
    using len w by (simp add: NewBlock_def Let_def NumRestarts_def)
  have "?r \<noteq> 0" by (simp add: restart_count_def)
  then have "NewIterator (NewBlock ?c) = BlockIterator (NewIter ?c (entry_off n es (length es)) ?r)"
    using len w by (simp add: nb NewIterator_def Let_def NumRestarts_def)
  moreover have "at_entry n es (length es) (NewIter ?c (entry_off n es (length es)) ?r)"
    using assms by (simp add: at_entry_def on_block_def NewIter_def)
  ultimately show ?thesis by blast
qed

text \<open>
  C10 (ldb_block_roundtrip). The bytes that a block builder makes of any entries are a block
  whose iterator delivers exactly these entries, in order from \<open>SeekToFirst\<close> with \<open>Next\<close> and in
  reverse order from \<open>SeekToLast\<close> with \<open>Prev\<close>, for every restart interval.
\<close>

theorem ldb_block_roundtrip:
  assumes "0 < n" and "length (fst (BlockFinish (block_adds n es))) < 2 ^ 32"
  shows "\<exists>it a b. NewIterator (NewBlock (fst (BlockFinish (block_adds n es)))) = BlockIterator it \<and>
    BlockSeekToFirst it = Some a \<and> walk bi_valid bi_key bi_value BlockNext (Suc (length es)) a = Some es \<and>
    BlockSeekToLast it = Some b \<and> walk bi_valid bi_key bi_value BlockPrev (Suc (length es)) b = Some (rev es)"
proof -
  obtain it where it: "NewIterator (NewBlock (block_bytes n es)) = BlockIterator it" "at_entry n es (length es) it"
    using NewIterator_block assms by (auto simp: block_finish)
  from block.scan [OF it(2)] block.scan_reverse [OF it(2)] it(1) show ?thesis
    by (auto simp: block_finish [OF assms(1)])
qed

theorem ldb_block_roundtrip_witness:
  "\<exists>it a b. NewIterator (NewBlock (fst (BlockFinish (block_adds 2 [([1, 1], [7]), ([1, 2], []), ([1, 3], [8, 8])])))) =
      BlockIterator it \<and>
    BlockSeekToFirst it = Some a \<and>
    walk bi_valid bi_key bi_value BlockNext 4 a = Some [([1, 1], [7]), ([1, 2], []), ([1, 3], [8, 8])] \<and>
    BlockSeekToLast it = Some b \<and>
    walk bi_valid bi_key bi_value BlockPrev 4 b = Some [([1, 3], [8, 8]), ([1, 2], []), ([1, 1], [7])]"
proof -
  let ?es = "[([1, 1], [7]), ([1, 2], []), ([1, 3], [8, 8])] :: entries"
  have l: "(4 :: nat) = Suc (length ?es)" by simp
  have "length (fst (BlockFinish (block_adds 2 ?es))) < 2 ^ 32"
    by (simp add: block_finish block_length entry_off_def entry_at_def entry_bytes_def
        EncodeVarint32_def shared_at_def upt_rec restart_count_def)
  from ldb_block_roundtrip [OF _ this] show ?thesis unfolding l by simp
qed

text \<open>
  C13 (ldb_block_seek). On the block of entries in the order of the comparator, \<open>Seek\<close> from
  any iterator position stands on the first entry whose key is not below the target, or is
  invalid if there is none, and goes on from there.
\<close>

theorem ldb_block_seek:
  assumes "key_order compare_op valid" and "in_order compare_op es"
    and "\<And>k v. (k, v) \<in> set es \<Longrightarrow> valid k" and "valid target" and "at_entry n es i it"
  shows "\<exists>r. BlockSeek compare_op target it = Some r \<and>
    walk bi_valid bi_key bi_value BlockNext (Suc (length es)) r =
      Some (dropWhile (\<lambda>(k, v). compare_op k target < 0) es)"
proof -
  have "sorted_for compare_op target es"
    by (rule key_order.in_order_sorted_for [OF assms(1-4)])
  from block.scan_from [OF assms(5) _ this] show ?thesis by (simp add: seek_pos_def dropWhile_eq_drop)
qed

theorem ldb_block_seek_witness:
  "\<exists>it r. NewIterator (NewBlock (block_bytes 1 [([1], [7]), ([3], [8])])) = BlockIterator it \<and>
    BlockSeek slice_compare [2] it = Some r \<and>
    walk bi_valid bi_key bi_value BlockNext 3 r = Some [([3], [8])]"
proof -
  let ?es = "[([1], [7]), ([3], [8])] :: entries"
  have l: "(3 :: nat) = Suc (length ?es)" by simp
  have "length (block_bytes 1 ?es) < 2 ^ 32"
    by (simp add: block_length entry_off_def entry_at_def entry_bytes_def EncodeVarint32_def shared_at_def
        upt_rec restart_count_def)
  then obtain it where it: "NewIterator (NewBlock (block_bytes 1 ?es)) = BlockIterator it" "at_entry 1 ?es (length ?es) it"
    using NewIterator_block [of 1 ?es] by auto
  have c: "key_order slice_compare (\<lambda>_. True)"
    using bytewise.key_order_axioms by (simp add: BytewiseComparator_def)
  have d: "in_order slice_compare ?es" by (simp add: in_order_def slice_compare_def)
  have "dropWhile (\<lambda>(k, v). slice_compare k [2] < 0) ?es = [([3], [8])]" by (simp add: slice_compare_def)
  with ldb_block_seek [OF c d _ _ it(2), of "[2]"] it(1) show ?thesis unfolding l by auto
qed

subsection \<open>Any bytes\<close>

text \<open>The iterator of a block of any contents, and what its clients may do with it.\<close>

inductive reaches :: "(byte list \<Rightarrow> byte list \<Rightarrow> int) \<Rightarrow> byte list \<Rightarrow> block_iter \<Rightarrow> bool"
  for compare_op :: "byte list \<Rightarrow> byte list \<Rightarrow> int" and contents :: "byte list" where
  new: "NewIterator (NewBlock contents) = BlockIterator it \<Longrightarrow> reaches compare_op contents it"
| first: "reaches compare_op contents it \<Longrightarrow> BlockSeekToFirst it = Some it' \<Longrightarrow> reaches compare_op contents it'"
| last: "reaches compare_op contents it \<Longrightarrow> BlockSeekToLast it = Some it' \<Longrightarrow> reaches compare_op contents it'"
| seek: "reaches compare_op contents it \<Longrightarrow> BlockSeek compare_op target it = Some it' \<Longrightarrow>
    reaches compare_op contents it'"
| forward: "reaches compare_op contents it \<Longrightarrow> bi_valid it \<Longrightarrow> BlockNext it = Some it' \<Longrightarrow>
    reaches compare_op contents it'"
| backward: "reaches compare_op contents it \<Longrightarrow> bi_valid it \<Longrightarrow> BlockPrev it = Some it' \<Longrightarrow>
    reaches compare_op contents it'"

definition same_block :: "block_iter \<Rightarrow> block_iter \<Rightarrow> bool" where
  "same_block it it' \<longleftrightarrow> bi_data it' = bi_data it \<and> bi_restarts it' = bi_restarts it \<and>
     bi_num_restarts it' = bi_num_restarts it"


lemma same_block_trans: "same_block a b \<Longrightarrow> same_block b c \<Longrightarrow> same_block a c"
  by (simp add: same_block_def)



lemma seek_restart_fields [simp]:
  "bi_data (SeekToRestartPoint i it) = bi_data it" "bi_restarts (SeekToRestartPoint i it) = bi_restarts it"
  "bi_num_restarts (SeekToRestartPoint i it) = bi_num_restarts it" "bi_index (SeekToRestartPoint i it) = i"
  "same_block it (SeekToRestartPoint i it)"
  by (simp_all add: SeekToRestartPoint_def same_block_def)













end
