(* ===== verification/LDB_SkipList.thy ===== *)
theory LDB_SkipList
  imports LDB_Iterator
begin

text \<open>
  The skip list of the memtable (\<open>db/skiplist.h\<close>) with the random number generator that chooses
  heights (\<open>util/random.h\<close>). The links of a list are specified by the sequence of its nodes
  (\<open>links_ok\<close>, \<open>skip_inv\<close>); searches and insertions are proved total on it. The last part
  interleaves the stores of an insertion with a reader that takes no lock.
\<close>

unbundle bit_operations_syntax

subsection \<open>Random numbers (\<open>util/random.h\<close>)\<close>

definition NewRandom :: "u32 \<Rightarrow> u32" where
  "NewRandom s = (let seed = s AND 0x7fffffff in if seed = 0 \<or> seed = 2147483647 then 1 else seed)"

text \<open>The result of \<open>Random::Next\<close> is the new seed.\<close>

definition RandomNext :: "u32 \<Rightarrow> u32" where
  "RandomNext seed =
     (let M = 2147483647;
          product = (ucast seed :: u64) * 16807;
          seed = ucast (drop_bit 31 product + (product AND ucast M))
      in if seed > M then seed - M else seed)"

subsection \<open>The list (\<open>db/skiplist.h\<close>)\<close>

text \<open>
  Nodes are numbered in the order of their allocation, \<open>head_\<close> is node 0. \<open>sl_next\<close> is the
  array of links of a node; \<open>None\<close> in it is a null pointer. An operation is \<open>None\<close> when it
  reads or writes outside such an array, uses a link it never set, or does not return.
\<close>

abbreviation kMaxHeight :: nat where "kMaxHeight \<equiv> 12"

record 'k skip_list =
  sl_key :: "nat \<Rightarrow> 'k"
  sl_next :: "nat \<Rightarrow> nat option list"
  sl_nodes :: nat
  sl_max_height :: nat
  sl_rnd :: u32

definition NodeNext :: "'k skip_list \<Rightarrow> nat \<Rightarrow> nat \<Rightarrow> nat option option" where
  "NodeNext s x n = (if n < length (sl_next s x) then Some (sl_next s x ! n) else None)"

definition NodeSetNext :: "nat \<Rightarrow> nat \<Rightarrow> nat option \<Rightarrow> 'k skip_list \<Rightarrow> 'k skip_list option" where
  "NodeSetNext x n y s =
     (if n < length (sl_next s x)
      then Some (s\<lparr>sl_next := (sl_next s)(x := (sl_next s x)[n := y])\<rparr>) else None)"

definition NewNode :: "'k \<Rightarrow> nat \<Rightarrow> 'k skip_list \<Rightarrow> nat \<times> 'k skip_list" where
  "NewNode key height s =
     (sl_nodes s,
      s\<lparr>sl_key := (sl_key s)(sl_nodes s := key),
        sl_next := (sl_next s)(sl_nodes s := replicate height None),
        sl_nodes := sl_nodes s + 1\<rparr>)"

definition NewSkipList :: "'k \<Rightarrow> 'k skip_list" where
  "NewSkipList any_key =
     \<lparr>sl_key = (\<lambda>_. any_key), sl_next = (\<lambda>x. if x = 0 then replicate kMaxHeight None else []),
      sl_nodes = 1, sl_max_height = 1, sl_rnd = NewRandom 0xdeadbeef\<rparr>"

function RandomHeight :: "nat \<Rightarrow> u32 \<Rightarrow> nat \<times> u32" where
  "RandomHeight height seed =
     (if height < kMaxHeight
      then
        let seed = RandomNext seed
        in if seed mod 4 = 0 then RandomHeight (height + 1) seed else (height, seed)
      else (height, seed))"
  by pat_completeness auto
termination by (relation "measure (\<lambda>(height, seed). kMaxHeight - height)") auto

declare RandomHeight.simps [simp del]

definition KeyIsAfterNode :: "('k \<Rightarrow> 'k \<Rightarrow> int) \<Rightarrow> 'k skip_list \<Rightarrow> 'k \<Rightarrow> nat option \<Rightarrow> bool" where
  "KeyIsAfterNode compare_op s key n \<longleftrightarrow> n \<noteq> None \<and> compare_op (sl_key s (the n)) key < 0"

text \<open>
  The search loops. \<open>prev\<close> is the array of \<open>FindGreaterOrEqual\<close>, uninitialized at first; where
  the code passes a null pointer for it, the model ignores it in the result.
\<close>

partial_function (option) find_ge ::
  "('k \<Rightarrow> 'k \<Rightarrow> int) \<Rightarrow> 'k skip_list \<Rightarrow> 'k \<Rightarrow> nat \<Rightarrow> nat \<Rightarrow> nat option list
   \<Rightarrow> (nat option \<times> nat option list) option" where
  "find_ge compare_op s key x level prev =
     Option.bind (NodeNext s x level) (\<lambda>next.
       if KeyIsAfterNode compare_op s key next then find_ge compare_op s key (the next) level prev
       else if level = 0 then Some (next, prev[level := Some x])
       else find_ge compare_op s key x (level - 1) (prev[level := Some x]))"

definition FindGreaterOrEqual ::
  "('k \<Rightarrow> 'k \<Rightarrow> int) \<Rightarrow> 'k skip_list \<Rightarrow> 'k \<Rightarrow> (nat option \<times> nat option list) option" where
  "FindGreaterOrEqual compare_op s key =
     find_ge compare_op s key 0 (sl_max_height s - 1) (replicate kMaxHeight None)"

partial_function (option) find_less ::
  "('k \<Rightarrow> 'k \<Rightarrow> int) \<Rightarrow> 'k skip_list \<Rightarrow> 'k \<Rightarrow> nat \<Rightarrow> nat \<Rightarrow> nat option" where
  "find_less compare_op s key x level =
     Option.bind (NodeNext s x level) (\<lambda>next.
       if next = None \<or> compare_op (sl_key s (the next)) key \<ge> 0
       then if level = 0 then Some x else find_less compare_op s key x (level - 1)
       else find_less compare_op s key (the next) level)"

definition FindLessThan :: "('k \<Rightarrow> 'k \<Rightarrow> int) \<Rightarrow> 'k skip_list \<Rightarrow> 'k \<Rightarrow> nat option" where
  "FindLessThan compare_op s key = find_less compare_op s key 0 (sl_max_height s - 1)"

partial_function (option) find_last :: "'k skip_list \<Rightarrow> nat \<Rightarrow> nat \<Rightarrow> nat option" where
  "find_last s x level =
     Option.bind (NodeNext s x level) (\<lambda>next.
       if next = None then if level = 0 then Some x else find_last s x (level - 1)
       else find_last s (the next) level)"

definition FindLast :: "'k skip_list \<Rightarrow> nat option" where
  "FindLast s = find_last s 0 (sl_max_height s - 1)"

text \<open>
  \<open>Insert\<close>: the search, the heads of the new levels, the new node, and the loop that links it:
  on each level first the link of the new node, then the link to it.
\<close>

definition raise_height :: "nat \<Rightarrow> nat option list \<times> 'k skip_list \<Rightarrow> nat option list \<times> 'k skip_list" where
  "raise_height height = (\<lambda>(prev, s).
     if height > sl_max_height s
     then (fold (\<lambda>i prev. prev[i := Some 0]) [sl_max_height s..<height] prev, s\<lparr>sl_max_height := height\<rparr>)
     else (prev, s))"

definition store_link :: "nat \<Rightarrow> nat option list \<Rightarrow> nat \<Rightarrow> 'k skip_list \<Rightarrow> 'k skip_list option" where
  "store_link x prev i s =
     (case prev ! i of None \<Rightarrow> None
      | Some p \<Rightarrow> Option.bind (NodeNext s p i) (\<lambda>next. NodeSetNext x i next s))"

definition publish_link :: "nat \<Rightarrow> nat option list \<Rightarrow> nat \<Rightarrow> 'k skip_list \<Rightarrow> 'k skip_list option" where
  "publish_link x prev i s =
     (case prev ! i of None \<Rightarrow> None | Some p \<Rightarrow> NodeSetNext p i (Some x) s)"

definition link_level :: "nat \<Rightarrow> nat option list \<Rightarrow> nat \<Rightarrow> 'k skip_list \<Rightarrow> 'k skip_list option" where
  "link_level x prev i s = Option.bind (store_link x prev i s) (publish_link x prev i)"

fun link_levels :: "nat \<Rightarrow> nat option list \<Rightarrow> nat list \<Rightarrow> 'k skip_list \<Rightarrow> 'k skip_list option" where
  "link_levels x prev [] s = Some s"
| "link_levels x prev (i # is) s = Option.bind (link_level x prev i s) (link_levels x prev is)"

definition SkipInsert :: "('k \<Rightarrow> 'k \<Rightarrow> int) \<Rightarrow> 'k \<Rightarrow> 'k skip_list \<Rightarrow> 'k skip_list option" where
  "SkipInsert compare_op key s =
     Option.bind (FindGreaterOrEqual compare_op s key) (\<lambda>(x, prev).
       let (height, rnd) = RandomHeight 1 (sl_rnd s);
           (prev, s) = raise_height height (prev, s\<lparr>sl_rnd := rnd\<rparr>);
           (x, s) = NewNode key height s
       in link_levels x prev [0..<height] s)"

definition SkipContains :: "('k \<Rightarrow> 'k \<Rightarrow> int) \<Rightarrow> 'k \<Rightarrow> 'k skip_list \<Rightarrow> bool option" where
  "SkipContains compare_op key s =
     map_option (\<lambda>(x, prev). case x of None \<Rightarrow> False | Some x \<Rightarrow> compare_op key (sl_key s x) = 0)
       (FindGreaterOrEqual compare_op s key)"

text \<open>The iterator is a node or a null pointer.\<close>

definition SkipIterNext :: "'k skip_list \<Rightarrow> nat option \<Rightarrow> nat option option" where
  "SkipIterNext s node = (case node of None \<Rightarrow> None | Some x \<Rightarrow> NodeNext s x 0)"

definition null_if_head :: "nat \<Rightarrow> nat option" where
  "null_if_head x = (if x = 0 then None else Some x)"

definition SkipIterPrev :: "('k \<Rightarrow> 'k \<Rightarrow> int) \<Rightarrow> 'k skip_list \<Rightarrow> nat option \<Rightarrow> nat option option" where
  "SkipIterPrev compare_op s node =
     (case node of None \<Rightarrow> None
      | Some x \<Rightarrow> map_option null_if_head (FindLessThan compare_op s (sl_key s x)))"

definition SkipIterSeek :: "('k \<Rightarrow> 'k \<Rightarrow> int) \<Rightarrow> 'k skip_list \<Rightarrow> 'k \<Rightarrow> nat option option" where
  "SkipIterSeek compare_op s target = map_option fst (FindGreaterOrEqual compare_op s target)"

definition SkipIterSeekToFirst :: "'k skip_list \<Rightarrow> nat option option" where
  "SkipIterSeekToFirst s = NodeNext s 0 0"

definition SkipIterSeekToLast :: "'k skip_list \<Rightarrow> nat option option" where
  "SkipIterSeekToLast s = map_option null_if_head (FindLast s)"

subsection \<open>The represented list\<close>

text \<open>
  The list represents the sequence \<open>ns\<close> of its nodes; \<open>h\<close> says on how many levels a node is
  linked, which for a node under insertion may be fewer than its height. On every one of its
  levels a node links to the next node of the sequence that is linked there.
\<close>

definition first_above :: "(nat \<Rightarrow> nat) \<Rightarrow> nat \<Rightarrow> nat list \<Rightarrow> nat option" where
  "first_above h l ns = (case filter (\<lambda>y. l < h y) ns of [] \<Rightarrow> None | y # ys \<Rightarrow> Some y)"

primrec links_ok :: "'k skip_list \<Rightarrow> (nat \<Rightarrow> nat) \<Rightarrow> nat list \<Rightarrow> bool" where
  "links_ok s h [] = True"
| "links_ok s h (x # ns) \<longleftrightarrow>
     h x \<le> length (sl_next s x) \<and> (\<forall>l < h x. sl_next s x ! l = first_above h l ns) \<and> links_ok s h ns"

lemma links_ok_append:
  "links_ok s h (as @ bs) \<Longrightarrow> links_ok s h bs"
  by (induction as) simp_all

lemma links_ok_next:
  "links_ok s h (as @ x # bs) \<Longrightarrow> l < h x \<Longrightarrow> NodeNext s x l = Some (first_above h l bs)"
  using links_ok_append [of s h as "x # bs"] by (simp add: NodeNext_def)

lemma first_above_append:
  "first_above h l (as @ bs) = (case first_above h l as of None \<Rightarrow> first_above h l bs | Some y \<Rightarrow> Some y)"
  by (simp add: first_above_def split: list.splits)

lemma first_above_None: "first_above h l ns = None \<longleftrightarrow> (\<forall>y \<in> set ns. h y \<le> l)"
proof -
  have "first_above h l ns = None \<longleftrightarrow> filter (\<lambda>y. l < h y) ns = []"
    by (simp add: first_above_def split: list.splits)
  then show ?thesis by (simp add: filter_empty_conv not_less)
qed

lemma first_above_Some:
  "first_above h l ns = Some y \<Longrightarrow> \<exists>as bs. ns = as @ y # bs \<and> l < h y \<and> (\<forall>z \<in> set as. h z \<le> l)"
  by (auto simp: first_above_def filter_eq_Cons_iff not_less split: list.splits)

lemma first_above_0: "\<forall>y \<in> set ns. 0 < h y \<Longrightarrow> first_above h 0 ns = (case ns of [] \<Rightarrow> None | y # ys \<Rightarrow> Some y)"
  by (auto simp: first_above_def split: list.splits)

text \<open>
  One step of a search that stands on \<open>x\<close>, the last node of \<open>as @ [x]\<close>, with the nodes \<open>mid\<close>
  still to pass: either the link leads to one of them, or all of them are below the level.
\<close>

lemma search_step:
  assumes "links_ok s h (0 # lo @ hi)" and "0 # lo = as @ x # mid" and "level < h x"
    and "\<forall>y \<in> set lo. 0 < h y"
  obtains (pass) y as' mid' where "NodeNext s x level = Some (Some y)" "y \<in> set lo" "level < h y"
      "0 # lo = as' @ y # mid'" "length mid' < length mid"
  | (down) "NodeNext s x level = Some (first_above h level hi)"
      "last (filter (\<lambda>y. level < h y) (0 # lo)) = x" "level = 0 \<Longrightarrow> x = last (0 # lo)"
proof -
  have "0 # lo @ hi = as @ x # mid @ hi" using arg_cong [OF assms(2), of "\<lambda>l. l @ hi"] by simp
  with assms(1) have "links_ok s h (as @ x # mid @ hi)" by simp
  from links_ok_next [OF this assms(3)]
  have nx: "NodeNext s x level = Some (case first_above h level mid of None \<Rightarrow> first_above h level hi | Some y \<Rightarrow> Some y)"
    by (simp add: first_above_append)
  show ?thesis
  proof (cases "first_above h level mid")
  case (Some y)
  then obtain bs cs where m: "mid = bs @ y # cs" "level < h y" by (blast dest: first_above_Some)
  have "NodeNext s x level = Some (Some y)" using nx Some by simp
  moreover have "y \<in> set lo"
  proof -
    have "y \<in> set mid" by (simp add: m)
    with assms(2) show ?thesis by (cases as) auto
  qed
  moreover have "0 # lo = (as @ x # bs) @ y # cs" using assms(2) m by simp
  ultimately show ?thesis using m(2) by (intro pass [of y "as @ x # bs" cs]) (simp_all add: m(1))
next
  case None
  then have none: "\<forall>y \<in> set mid. h y \<le> level" by (simp add: first_above_None)
  have "NodeNext s x level = Some (first_above h level hi)" using nx None by simp
  moreover have "filter (\<lambda>y. level < h y) mid = []" using none by (simp add: filter_empty_conv not_less)
  then have "last (filter (\<lambda>y. level < h y) (0 # lo)) = x" using assms(3) by (simp only: assms(2)) simp
  moreover have "x = last (0 # lo)" if "level = 0"
  proof -
    have "mid = []" using none assms(2,4) that by (cases mid) (auto simp: Cons_eq_append_conv)
    then show ?thesis using assms(2) by simp
  qed
  ultimately show ?thesis by (rule down)
  qed
qed

lemma find_ge_at:
  assumes "links_ok s h (0 # lo @ hi)" and pos: "\<forall>y \<in> set lo. 0 < h y"
    and lo: "\<forall>y \<in> set lo. compare_op (sl_key s y) key < 0" and hi: "\<forall>y \<in> set hi. \<not> compare_op (sl_key s y) key < 0"
    and "0 # lo = as @ x # mid" and "level < h x"
  shows "\<exists>prev'. find_ge compare_op s key x level prev = Some (first_above h 0 hi, prev') \<and>
    length prev' = length prev \<and> (\<forall>i < length prev. prev' ! i =
      (if i \<le> level then Some (last (filter (\<lambda>y. i < h y) (0 # lo))) else prev ! i))"
  using assms(5,6)
proof (induction "level + length mid" arbitrary: as x mid level prev rule: less_induct)
  case less
  have h: "\<not> KeyIsAfterNode compare_op s key (first_above h l hi)" for l
    using hi first_above_Some [of h l hi] by (fastforce simp: KeyIsAfterNode_def)
  show ?case
  proof (rule search_step [OF assms(1) less.prems pos])
    fix y as' mid' assume y: "NodeNext s x level = Some (Some y)" "y \<in> set lo" "level < h y"
      "0 # lo = as' @ y # mid'" "length mid' < length mid"
    from less.hyps [OF _ y(4,3)] y(5) show ?thesis
      using lo y(1,2) by (subst find_ge.simps) (simp add: KeyIsAfterNode_def)
  next
    assume n: "NodeNext s x level = Some (first_above h level hi)"
      and l: "last (filter (\<lambda>y. level < h y) (0 # lo)) = x"
    show ?thesis
    proof (cases level)
      case 0
      have "find_ge compare_op s key x level prev = Some (first_above h 0 hi, prev[0 := Some x])"
        using n h [of 0] by (subst find_ge.simps) (simp add: 0)
      with l show ?thesis by (auto simp: 0 nth_list_update)
    next
      case (Suc k)
      have "find_ge compare_op s key x level prev = find_ge compare_op s key x k (prev[level := Some x])"
        using n h [of level] by (subst find_ge.simps) (simp add: Suc)
      moreover have "k < h x" "k + length mid < level + length mid" using less.prems(2) Suc by simp_all
      from less.hyps [OF this(2) less.prems(1) this(1), of "prev[level := Some x]"]
      obtain prev' where "find_ge compare_op s key x k (prev[level := Some x]) = Some (first_above h 0 hi, prev')"
        "length prev' = length prev" "\<forall>i < length prev. prev' ! i =
          (if i \<le> k then Some (last (filter (\<lambda>y. i < h y) (0 # lo))) else prev[level := Some x] ! i)" by auto
      ultimately show ?thesis using l by (auto simp: Suc nth_list_update le_Suc_eq)
    qed
  qed
qed

lemma find_less_at:
  assumes "links_ok s h (0 # lo @ hi)" and pos: "\<forall>y \<in> set lo. 0 < h y"
    and lo: "\<forall>y \<in> set lo. compare_op (sl_key s y) key < 0" and hi: "\<forall>y \<in> set hi. \<not> compare_op (sl_key s y) key < 0"
    and "0 # lo = as @ x # mid" and "level < h x"
  shows "find_less compare_op s key x level = Some (last (0 # lo))"
  using assms(5,6)
proof (induction "level + length mid" arbitrary: as x mid level rule: less_induct)
  case less
  have h: "first_above h l hi = None \<or> compare_op (sl_key s (the (first_above h l hi))) key \<ge> 0" for l
    using hi first_above_Some [of h l hi] by (cases "first_above h l hi") (auto simp: not_less)
  show ?case
  proof (rule search_step [OF assms(1) less.prems pos])
    fix y as' mid' assume y: "NodeNext s x level = Some (Some y)" "y \<in> set lo" "level < h y"
      "0 # lo = as' @ y # mid'" "length mid' < length mid"
    have "compare_op (sl_key s y) key < 0" using lo y(2) by blast
    with less.hyps [OF _ y(4,3)] y(1,5) show ?thesis
      by (subst find_less.simps) (simp add: not_le del: last.simps)
  next
    assume n: "NodeNext s x level = Some (first_above h level hi)"
      and l: "level = 0 \<Longrightarrow> x = last (0 # lo)"
    show ?thesis
    proof (cases level)
      case 0
      then show ?thesis using n h [of 0] l by (subst find_less.simps) simp
    next
      case (Suc k)
      have "find_less compare_op s key x level = find_less compare_op s key x k"
        using n h [of level] by (subst find_less.simps) (simp add: Suc)
      moreover have "find_less compare_op s key x k = Some (last (0 # lo))"
        using less.prems(2) Suc by (intro less.hyps [OF _ less.prems(1)]) simp_all
      ultimately show ?thesis by simp
    qed
  qed
qed

lemma find_last_at:
  assumes "links_ok s h (0 # ns)" and pos: "\<forall>y \<in> set ns. 0 < h y" and "0 # ns = as @ x # mid" and "level < h x"
  shows "find_last s x level = Some (last (0 # ns))"
  using assms(3,4)
proof (induction "level + length mid" arbitrary: as x mid level rule: less_induct)
  case less
  have l: "links_ok s h (0 # ns @ [])" using assms(1) by simp
  show ?case
  proof (rule search_step [OF l less.prems pos])
    fix y as' mid' assume y: "NodeNext s x level = Some (Some y)" "level < h y"
      "0 # ns = as' @ y # mid'" "length mid' < length mid"
    from less.hyps [OF _ y(3,2)] y(1,4) show ?thesis by (subst find_last.simps) simp
  next
    assume n: "NodeNext s x level = Some (first_above h level [])" and z: "level = 0 \<Longrightarrow> x = last (0 # ns)"
    show ?thesis
    proof (cases level)
      case 0
      then show ?thesis using n z by (subst find_last.simps) (simp add: first_above_def)
    next
      case (Suc k)
      have "find_last s x k = Some (last (0 # ns))"
        using less.prems(2) Suc by (intro less.hyps [OF _ less.prems(1)]) simp_all
      then show ?thesis using n by (subst find_last.simps) (simp add: Suc first_above_def)
    qed
  qed
qed

subsection \<open>Linking a node\<close>

lemma links_ok_cong:
  "(\<And>y. y \<in> set ns \<Longrightarrow> sl_next s' y = sl_next s y \<and> h' y = h y) \<Longrightarrow> links_ok s' h' ns = links_ok s h ns"
proof (induction ns)
  case (Cons x ns)
  then have "filter (\<lambda>y. l < h' y) ns = filter (\<lambda>y. l < h y) ns" for l by (intro filter_cong) auto
  with Cons show ?case by (simp add: first_above_def)
qed simp

lemma links_ok_unlinked: "h x = 0 \<Longrightarrow> links_ok s h (as @ x # bs) = links_ok s h (as @ bs)"
  by (induction as) (simp_all add: first_above_def)

lemma first_above_other: "l \<noteq> h x \<Longrightarrow> first_above (h(x := Suc (h x))) l ns = first_above h l ns"
proof -
  assume "l \<noteq> h x"
  then have "(\<lambda>y. l < (h(x := Suc (h x))) y) = (\<lambda>y. l < h y)" by (auto simp: fun_eq_iff less_Suc_eq)
  then show ?thesis by (simp only: first_above_def)
qed

lemma first_above_before:
  assumes "x \<notin> set bs" and "p \<noteq> x" and "l < h p"
  shows "first_above (h(x := m)) l (bs @ p # cs) = first_above h l (bs @ p # cs)"
proof -
  have "filter (\<lambda>y. l < (h(x := m)) y) bs = filter (\<lambda>y. l < h y) bs"
    using assms(1) by (intro filter_cong) auto
  then have "first_above (h(x := m)) l bs = first_above h l bs" by (simp only: first_above_def)
  moreover have "first_above (h(x := m)) l (p # cs) = Some p" "first_above h l (p # cs) = Some p"
    using assms(2,3) by (simp_all add: first_above_def)
  ultimately show ?thesis by (simp only: first_above_append)
qed

lemma link_before:
  assumes "links_ok s h (as @ p # rest)" and "\<forall>y \<in> set as. sl_next s' y = sl_next s y" and "x \<notin> set as" and "p \<noteq> x"
    and "h x < h p" and "links_ok s' (h(x := Suc (h x))) (p # rest)"
  shows "links_ok s' (h(x := Suc (h x))) (as @ p # rest)"
  using assms(1-3)
proof (induction as)
  case Nil
  show ?case using assms(6) by (simp only: append_Nil)
next
  case (Cons y as)
  have "first_above (h(x := Suc (h x))) l (as @ p # rest) = first_above h l (as @ p # rest)" for l
    using first_above_other [of l h x] first_above_before [of x as p l h] Cons.prems(3) assms(4,5)
    by (cases "l = h x") auto
  with Cons show ?case by (auto simp del: fun_upd_apply simp: fun_upd_other)
qed

lemma link_between:
  assumes "links_ok s h (mid @ rest)" and "\<forall>y \<in> set mid. sl_next s' y = sl_next s y \<and> h y \<le> h x" and "x \<notin> set mid"
    and "links_ok s' (h(x := Suc (h x))) rest"
  shows "links_ok s' (h(x := Suc (h x))) (mid @ rest)"
  using assms(1-3)
proof (induction mid)
  case Nil
  show ?case using assms(4) by (simp only: append_Nil)
next
  case (Cons y mid)
  have "first_above (h(x := Suc (h x))) l (mid @ rest) = first_above h l (mid @ rest)" if "l < h y" for l
    using first_above_other [of l h x] that Cons.prems(2) by auto
  with Cons show ?case by (auto simp del: fun_upd_apply simp: fun_upd_other)
qed

text \<open>The fields that linking keeps, and the lengths of the arrays.\<close>

definition same_nodes :: "'k skip_list \<Rightarrow> 'k skip_list \<Rightarrow> bool" where
  "same_nodes s s' \<longleftrightarrow> sl_key s' = sl_key s \<and> sl_nodes s' = sl_nodes s \<and> sl_max_height s' = sl_max_height s \<and>
     sl_rnd s' = sl_rnd s \<and> (\<forall>x. length (sl_next s' x) = length (sl_next s x))"

lemma last_filter_split:
  assumes "P z" and "z \<in> set zs"
  obtains as mid where "zs = as @ last (filter P zs) # mid" and "P (last (filter P zs))" and "\<forall>y \<in> set mid. \<not> P y"
proof -
  obtain as x mid where x: "zs = as @ x # mid" "P x" "\<forall>y \<in> set mid. \<not> P y"
    using split_list_last_prop [of zs P] assms by blast
  then have "filter P mid = []" by (simp add: filter_empty_conv)
  with x have l: "last (filter P zs) = x" by simp
  show ?thesis using that [unfolded l, OF x] .
qed

lemma links_ok_store:
  "h x \<le> j \<Longrightarrow> links_ok (s\<lparr>sl_next := (sl_next s)(x := (sl_next s x)[j := v])\<rparr>) h ns = links_ok s h ns"
  by (induction ns) auto

lemma prev_split:
  assumes "links_ok s h (0 # lo @ x # hi)" and "distinct (0 # lo @ x # hi)" and "h x = j" "j < h 0"
  obtains as q mid where "q = last (filter (\<lambda>y. j < h y) (0 # lo))" and "0 # lo @ x # hi = as @ q # mid @ x # hi"
    and "j < h q" and "q \<noteq> x" and "\<forall>y \<in> set mid. \<not> j < h y" and "j < length (sl_next s q)"
    and "NodeNext s q j = Some (first_above h j hi)"
proof -
  obtain as mid where split: "0 # lo = as @ last (filter (\<lambda>y. j < h y) (0 # lo)) # mid"
    and hp: "j < h (last (filter (\<lambda>y. j < h y) (0 # lo)))" and mid: "\<forall>y \<in> set mid. \<not> j < h y"
    using last_filter_split [of "\<lambda>y. j < h y" 0 "0 # lo"] assms(4) by auto
  obtain q where q: "q = last (filter (\<lambda>y. j < h y) (0 # lo))" by blast
  note split' = split [folded q] and hp' = hp [folded q]
  have seq: "0 # lo @ x # hi = as @ q # mid @ x # hi" using arg_cong [OF split', of "\<lambda>l. l @ x # hi"] by simp
  note ok' = assms(1) [unfolded seq]
  have "filter (\<lambda>y. j < h y) mid = []" using mid by (simp add: filter_empty_conv)
  then have "NodeNext s q j = Some (first_above h j hi)"
    using links_ok_next [OF ok' hp'] assms(3) by (simp add: first_above_def)
  moreover have "j < length (sl_next s q)" using links_ok_append [OF ok'] hp' by simp
  moreover have "q \<noteq> x" using assms(2) [unfolded seq] by auto
  ultimately show ?thesis using that [OF q seq hp' _ mid] by blast
qed

lemma store_link_ok:
  assumes "links_ok s h (0 # lo @ x # hi)" and "distinct (0 # lo @ x # hi)" and "h x = j" "j < h 0"
    and "j < length (sl_next s x)" and "prev ! j = Some (last (filter (\<lambda>y. j < h y) (0 # lo)))"
  shows "\<exists>s'. store_link x prev j s = Some s' \<and> same_nodes s s' \<and> links_ok s' h (0 # lo @ x # hi) \<and>
    sl_next s' x ! j = first_above h j hi"
proof -
  obtain q where q: "q = last (filter (\<lambda>y. j < h y) (0 # lo))" "NodeNext s q j = Some (first_above h j hi)"
    using prev_split [OF assms(1-4)] by metis
  let ?s = "s\<lparr>sl_next := (sl_next s)(x := (sl_next s x)[j := first_above h j hi])\<rparr>"
  have "store_link x prev j s = Some ?s"
    using assms(5,6) [folded q(1)] q(2) by (simp add: store_link_def NodeSetNext_def)
  moreover have "same_nodes s ?s" "sl_next ?s x ! j = first_above h j hi"
    using assms(5) by (simp_all add: same_nodes_def)
  moreover have "links_ok ?s h (0 # lo @ x # hi)" using assms(1,3) by (subst links_ok_store) simp_all
  ultimately show ?thesis by blast
qed

lemma publish_link_ok:
  assumes ok: "links_ok s h (0 # lo @ x # hi)" and dist: "distinct (0 # lo @ x # hi)"
    and j: "h x = j" "j < h 0" "j < length (sl_next s x)"
    and p: "prev ! j = Some (last (filter (\<lambda>y. j < h y) (0 # lo)))"
    and stored: "sl_next s x ! j = first_above h j hi"
  shows "\<exists>s'. publish_link x prev j s = Some s' \<and> same_nodes s s' \<and> links_ok s' (h(x := Suc j)) (0 # lo @ x # hi)"
proof -
  obtain as q mid where q: "q = last (filter (\<lambda>y. j < h y) (0 # lo))" and seq: "0 # lo @ x # hi = as @ q # mid @ x # hi"
    and hq: "j < h q" and qx: "q \<noteq> x" and mid: "\<forall>y \<in> set mid. \<not> j < h y" and lq: "j < length (sl_next s q)"
    using prev_split [OF ok dist j(1,2)] by metis
  note ok' = ok [unfolded seq] and dist' = dist [unfolded seq]
  define s2 where "s2 = s\<lparr>sl_next := (sl_next s)(q := (sl_next s q)[j := Some x])\<rparr>"
  have publish: "publish_link x prev j s = Some s2"
    using p [folded q] lq by (simp add: publish_link_def NodeSetNext_def s2_def)
  have nq: "sl_next s2 q = (sl_next s q)[j := Some x]" and nx: "sl_next s2 x = sl_next s x"
    using qx by (simp_all add: s2_def)
  have ne: "\<forall>y \<in> set (as @ mid @ hi). y \<noteq> x \<and> y \<noteq> q" using dist' by auto
  have no: "\<forall>y \<in> set (as @ mid @ hi). sl_next s2 y = sl_next s y" using ne by (simp add: s2_def)
  let ?h = "h(x := Suc j)"
  have "links_ok s2 ?h hi = links_ok s h hi" using no ne by (intro links_ok_cong) auto
  moreover have okx: "links_ok s h (x # hi)" using links_ok_append [of s h "as @ q # mid" "x # hi"] ok' by simp
  moreover have "sl_next s2 x ! l = first_above ?h l hi" if "l < Suc j" for l
  proof -
    have "filter (\<lambda>y. l < ?h y) hi = filter (\<lambda>y. l < h y) hi" using dist' by (intro filter_cong) auto
    then have "first_above ?h l hi = first_above h l hi" by (simp add: first_above_def)
    then show ?thesis using okx that j(1) stored by (cases "l = j") (auto simp: nx)
  qed
  ultimately have "links_ok s2 ?h (x # hi)" using j(3) by (auto simp: nx)
  moreover have "links_ok s h (mid @ x # hi)" using links_ok_append [of s h "as @ [q]"] ok' by simp
  moreover have "\<forall>y \<in> set mid. sl_next s2 y = sl_next s y \<and> h y \<le> h x" "x \<notin> set mid"
    using no ne mid j(1) by (auto simp: not_less)
  ultimately have rest: "links_ok s2 ?h (mid @ x # hi)"
    using link_between [of s h mid "x # hi" s2 x] j(1) by simp
  have "sl_next s2 q ! l = first_above ?h l (mid @ x # hi)" if "l < h q" for l
  proof (cases "l = j")
    case True
    have "filter (\<lambda>y. j < ?h y) mid = []" using mid dist' by (auto simp: filter_empty_conv)
    with True lq show ?thesis by (simp add: nq first_above_def)
  next
    case False
    then show ?thesis using first_above_other [of l h x "mid @ x # hi"] links_ok_append [OF ok'] that j(1)
      by (simp add: nq)
  qed
  then have "links_ok s2 ?h (q # mid @ x # hi)" using rest qx links_ok_append [OF ok'] by (simp add: nq)
  then have "links_ok s2 ?h (as @ q # mid @ x # hi)"
    using link_before [OF ok', of s2 x] no dist' hq j(1) qx by auto
  moreover have "same_nodes s s2" by (simp add: same_nodes_def s2_def)
  ultimately show ?thesis using publish unfolding seq by blast
qed

lemma same_nodes_trans: "same_nodes a b \<Longrightarrow> same_nodes b c \<Longrightarrow> same_nodes a c"
  by (simp add: same_nodes_def)

lemma link_level_ok:
  assumes "links_ok s h (0 # lo @ x # hi)" and "distinct (0 # lo @ x # hi)" and "h x = j" "j < h 0"
    and "j < length (sl_next s x)" and "prev ! j = Some (last (filter (\<lambda>y. j < h y) (0 # lo)))"
  shows "\<exists>s'. link_level x prev j s = Some s' \<and> same_nodes s s' \<and> links_ok s' (h(x := Suc j)) (0 # lo @ x # hi)"
proof -
  obtain s1 where s1: "store_link x prev j s = Some s1" "same_nodes s s1" "links_ok s1 h (0 # lo @ x # hi)"
      "sl_next s1 x ! j = first_above h j hi"
    using store_link_ok [OF assms] by blast
  then have "j < length (sl_next s1 x)" using assms(5) by (simp add: same_nodes_def)
  from publish_link_ok [OF s1(3) assms(2-4) this assms(6) s1(4)] s1(1,2) show ?thesis
    by (auto simp: link_level_def intro: same_nodes_trans)
qed

subsection \<open>The invariant\<close>

definition skip_inv ::
  "('k \<Rightarrow> 'k \<Rightarrow> int) \<Rightarrow> ('k \<Rightarrow> bool) \<Rightarrow> 'k skip_list \<Rightarrow> (nat \<Rightarrow> nat) \<Rightarrow> nat list \<Rightarrow> bool" where
  "skip_inv compare_op valid s h ns \<longleftrightarrow>
     links_ok s h (0 # ns) \<and> h 0 = kMaxHeight \<and>
     (\<forall>x \<in> set ns. 0 < h x \<and> h x \<le> sl_max_height s \<and> valid (sl_key s x)) \<and>
     0 < sl_max_height s \<and> sl_max_height s \<le> kMaxHeight \<and>
     distinct (0 # ns) \<and> (\<forall>x \<in> set (0 # ns). x < sl_nodes s) \<and>
     sorted_wrt (\<lambda>x y. compare_op (sl_key s x) (sl_key s y) < 0) ns"

text \<open>The keys the list holds, in order.\<close>

definition skip_holds :: "('k \<Rightarrow> 'k \<Rightarrow> int) \<Rightarrow> ('k \<Rightarrow> bool) \<Rightarrow> 'k skip_list \<Rightarrow> 'k list \<Rightarrow> bool" where
  "skip_holds compare_op valid s ks \<longleftrightarrow> (\<exists>h ns. skip_inv compare_op valid s h ns \<and> ks = map (sl_key s) ns)"

lemma RandomHeight_range: "height \<le> kMaxHeight \<Longrightarrow> RandomHeight height seed = (r, seed') \<Longrightarrow> height \<le> r \<and> r \<le> kMaxHeight"
proof (induction height seed rule: RandomHeight.induct)
  case (1 height seed)
  then show ?case by (auto simp: RandomHeight.simps [of height seed] Let_def split: if_splits)
qed

lemma new_skip_list: "skip_inv compare_op valid (NewSkipList k) (\<lambda>x. kMaxHeight) []"
  by (simp add: skip_inv_def NewSkipList_def first_above_def)

lemma fold_update: "length (fold (\<lambda>i prev. prev[i := v]) is prev) = length prev"
  "i < length prev \<Longrightarrow> fold (\<lambda>i prev. prev[i := v]) is prev ! i = (if i \<in> set is then v else prev ! i)"
  by (induction "is" arbitrary: prev) (auto simp: nth_list_update)

text \<open>
  The state while node \<open>x\<close> is linked between \<open>lo\<close> and \<open>hi\<close>, below level \<open>j\<close> so far. From level 0
  on the node is part of the list.
\<close>

definition linking ::
  "('k \<Rightarrow> 'k \<Rightarrow> int) \<Rightarrow> ('k \<Rightarrow> bool) \<Rightarrow> 'k skip_list \<Rightarrow> (nat \<Rightarrow> nat) \<Rightarrow> nat list \<Rightarrow> nat \<Rightarrow> nat list
   \<Rightarrow> nat option list \<Rightarrow> nat \<Rightarrow> nat \<Rightarrow> bool" where
  "linking compare_op valid s h lo x hi prev j height \<longleftrightarrow>
     links_ok s h (0 # lo @ x # hi) \<and> distinct (0 # lo @ x # hi) \<and> h 0 = kMaxHeight \<and>
     h x = j \<and> j \<le> height \<and> height \<le> length (sl_next s x) \<and> height \<le> sl_max_height s \<and>
     0 < sl_max_height s \<and> sl_max_height s \<le> kMaxHeight \<and>
     (\<forall>y \<in> set (lo @ hi). 0 < h y \<and> h y \<le> sl_max_height s) \<and>
     (\<forall>y \<in> set (lo @ x # hi). valid (sl_key s y)) \<and> (\<forall>y \<in> set (0 # lo @ x # hi). y < sl_nodes s) \<and>
     sorted_wrt (\<lambda>x y. compare_op (sl_key s x) (sl_key s y) < 0) (lo @ x # hi) \<and>
     (\<forall>i. j \<le> i \<longrightarrow> i < height \<longrightarrow> prev ! i = Some (last (filter (\<lambda>y. i < h y) (0 # lo))))"

definition visible :: "nat list \<Rightarrow> nat \<Rightarrow> nat list \<Rightarrow> nat \<Rightarrow> nat list" where
  "visible lo x hi j = (if j = 0 then lo @ hi else lo @ x # hi)"

lemma linking_inv: "linking cmp valid s h lo x hi prev j height \<Longrightarrow> skip_inv cmp valid s h (visible lo x hi j)"
  using links_ok_unlinked [of h x s "0 # lo" hi]
  by (cases "j = 0") (auto simp: linking_def skip_inv_def visible_def sorted_wrt_append)

lemma linking_store:
  assumes "linking cmp valid s h lo x hi prev j height" and "j < height"
  shows "\<exists>s'. store_link x prev j s = Some s' \<and> same_nodes s s' \<and> linking cmp valid s' h lo x hi prev j height \<and>
    sl_next s' x ! j = first_above h j hi"
proof -
  have "\<exists>s'. store_link x prev j s = Some s' \<and> same_nodes s s' \<and> links_ok s' h (0 # lo @ x # hi) \<and>
    sl_next s' x ! j = first_above h j hi"
    using assms by (intro store_link_ok) (simp_all add: linking_def)
  then show ?thesis using assms(1) by (auto simp: linking_def same_nodes_def)
qed

lemma linking_publish:
  assumes "linking cmp valid s h lo x hi prev j height" and "j < height" and "sl_next s x ! j = first_above h j hi"
  shows "\<exists>s'. publish_link x prev j s = Some s' \<and> same_nodes s s' \<and>
    linking cmp valid s' (h(x := Suc j)) lo x hi prev (Suc j) height"
proof -
  have d: "distinct (0 # lo @ x # hi)" using assms(1) by (simp add: linking_def)
  have "\<exists>s'. publish_link x prev j s = Some s' \<and> same_nodes s s' \<and> links_ok s' (h(x := Suc j)) (0 # lo @ x # hi)"
    using assms by (intro publish_link_ok) (simp_all add: linking_def)
  then obtain s' where s': "publish_link x prev j s = Some s'" "same_nodes s s'"
    "links_ok s' (h(x := Suc j)) (0 # lo @ x # hi)" by blast
  have fl: "filter (\<lambda>y. i < (h(x := Suc j)) y) (0 # lo) = filter (\<lambda>y. i < h y) (0 # lo)" for i
    using d by (intro filter_cong) auto
  have eq: "\<forall>y \<in> set (0 # lo @ hi). (h(x := Suc j)) y = h y" using d by auto
  have "linking cmp valid s' (h(x := Suc j)) lo x hi prev (Suc j) height"
    unfolding linking_def fl
  proof (intro conjI)
    show "\<forall>y \<in> set (lo @ hi). 0 < (h(x := Suc j)) y \<and> (h(x := Suc j)) y \<le> sl_max_height s'"
      using eq assms(1) s'(2) by (simp add: linking_def same_nodes_def del: fun_upd_apply)
    show "(h(x := Suc j)) 0 = kMaxHeight" using eq assms(1) by (simp add: linking_def del: fun_upd_apply)
  qed (use s'(2,3) assms(1,2) d in \<open>simp_all add: linking_def same_nodes_def del: distinct.simps\<close>)
  with s'(1,2) show ?thesis by blast
qed

lemma linking_all:
  "linking cmp valid s h lo x hi prev j height \<Longrightarrow>
   \<exists>s'. link_levels x prev [j..<height] s = Some s' \<and> same_nodes s s' \<and>
     linking cmp valid s' (h(x := height)) lo x hi prev height height"
proof (induction "height - j" arbitrary: j s h)
  case 0
  then have "j = height" by (simp add: linking_def)
  moreover from this have "h(x := height) = h" using 0(2) by (simp add: fun_upd_idem linking_def)
  ultimately show ?case using 0(2) by (simp add: same_nodes_def)
next
  case (Suc d)
  then have j: "j < height" by simp
  obtain s1 where s1: "store_link x prev j s = Some s1" "same_nodes s s1" "linking cmp valid s1 h lo x hi prev j height"
      "sl_next s1 x ! j = first_above h j hi"
    using linking_store [OF Suc.prems j] by blast
  obtain s2 where s2: "publish_link x prev j s1 = Some s2" "same_nodes s1 s2"
      "linking cmp valid s2 (h(x := Suc j)) lo x hi prev (Suc j) height"
    using linking_publish [OF s1(3) j s1(4)] by blast
  have "\<exists>s'. link_levels x prev [Suc j..<height] s2 = Some s' \<and> same_nodes s2 s' \<and>
      linking cmp valid s' ((h(x := Suc j))(x := height)) lo x hi prev height height"
    using Suc.hyps(2) s2(3) by (intro Suc.hyps(1)) simp_all
  then show ?case using s1(1,2) s2(1,2) j
    by (auto simp: upt_conv_Cons link_level_def intro: same_nodes_trans)
qed

text \<open>After the maximal height is raised: what the insertion has found.\<close>

definition raised ::
  "('k \<Rightarrow> 'k \<Rightarrow> int) \<Rightarrow> ('k \<Rightarrow> bool) \<Rightarrow> 'k skip_list \<Rightarrow> (nat \<Rightarrow> nat) \<Rightarrow> nat list \<Rightarrow> 'k \<Rightarrow> nat \<Rightarrow> nat option list \<Rightarrow> bool" where
  "raised compare_op valid s h ns key height prev \<longleftrightarrow>
     valid key \<and> (\<forall>x \<in> set ns. compare_op (sl_key s x) key \<noteq> 0) \<and> height \<le> sl_max_height s \<and>
     (\<forall>i < height. prev ! i =
       Some (last (filter (\<lambda>y. i < h y) (0 # takeWhile (\<lambda>y. compare_op (sl_key s y) key < 0) ns))))"

context key_order
begin

lemma below_split:
  assumes "skip_inv cmp valid s h ns" and "valid key"
  defines "lo \<equiv> takeWhile (\<lambda>y. cmp (sl_key s y) key < 0) ns"
    and "hi \<equiv> dropWhile (\<lambda>y. cmp (sl_key s y) key < 0) ns"
  shows "ns = lo @ hi" and "\<forall>y \<in> set lo. cmp (sl_key s y) key < 0" and "\<forall>y \<in> set hi. \<not> cmp (sl_key s y) key < 0"
    and "links_ok s h (0 # lo @ hi)" and "\<forall>y \<in> set lo. 0 < h y" and "\<forall>y \<in> set hi. 0 < h y"
proof -
  show ns: "ns = lo @ hi" by (simp add: lo_def hi_def)
  show "\<forall>y \<in> set lo. cmp (sl_key s y) key < 0" by (auto simp: lo_def dest: set_takeWhileD)
  show "links_ok s h (0 # lo @ hi)" "\<forall>y \<in> set lo. 0 < h y" "\<forall>y \<in> set hi. 0 < h y"
    using assms(1) ns by (simp_all add: skip_inv_def)
  show "\<forall>y \<in> set hi. \<not> cmp (sl_key s y) key < 0"
  proof (cases hi)
    case (Cons z zs)
    have z: "\<not> cmp (sl_key s z) key < 0" using Cons unfolding hi_def by (simp add: dropWhile_eq_Cons_conv)
    have s: "sorted_wrt (\<lambda>x y. cmp (sl_key s x) (sl_key s y) < 0) (z # zs)" "\<forall>x \<in> set (z # zs). valid (sl_key s x)"
      using assms(1) ns Cons by (auto simp: skip_inv_def sorted_wrt_append)
    have "\<not> cmp (sl_key s y) key < 0" if y: "y \<in> set zs" for y
    proof
      assume "cmp (sl_key s y) key < 0"
      then have "cmp (sl_key s y) key \<le> 0" by simp
      moreover have "cmp (sl_key s z) (sl_key s y) < 0" "valid (sl_key s z)" "valid (sl_key s y)" using s y by auto
      ultimately show False using less_le_trans [of "sl_key s z" "sl_key s y" key] assms(2) z by blast
    qed
    with z Cons show ?thesis by simp
  qed simp
qed

lemma find_ge_inv:
  assumes "skip_inv cmp valid s h ns" and "valid key"
  defines "lo \<equiv> takeWhile (\<lambda>y. cmp (sl_key s y) key < 0) ns"
    and "hi \<equiv> dropWhile (\<lambda>y. cmp (sl_key s y) key < 0) ns"
  shows "\<exists>prev. FindGreaterOrEqual cmp s key = Some ((case hi of [] \<Rightarrow> None | y # ys \<Rightarrow> Some y), prev) \<and>
    length prev = kMaxHeight \<and> (\<forall>i < sl_max_height s. prev ! i = Some (last (filter (\<lambda>y. i < h y) (0 # lo))))"
proof -
  note b = below_split [OF assms(1,2), folded lo_def hi_def]
  have m: "sl_max_height s - 1 < h 0" "0 < sl_max_height s" "sl_max_height s \<le> kMaxHeight"
    using assms(1) by (auto simp: skip_inv_def)
  have "0 # lo = [] @ 0 # lo" by simp
  from find_ge_at [where h = h and compare_op = cmp and key = key and s = s and lo = lo and hi = hi, OF b(4,5,2,3) this m(1), of "replicate kMaxHeight None"]
  obtain prev where "FindGreaterOrEqual cmp s key = Some (first_above h 0 hi, prev)" "length prev = kMaxHeight"
    "\<forall>i < kMaxHeight. prev ! i = (if i \<le> sl_max_height s - 1
      then Some (last (filter (\<lambda>y. i < h y) (0 # lo))) else replicate kMaxHeight None ! i)"
    by (auto simp: FindGreaterOrEqual_def)
  moreover from this(3) have "\<forall>i < sl_max_height s. prev ! i = Some (last (filter (\<lambda>y. i < h y) (0 # lo)))"
    using m(2,3) by auto
  ultimately show ?thesis using first_above_0 [OF b(6)] by auto
qed

lemma raise_ok:
  assumes inv: "skip_inv cmp valid s h ns" and v: "valid key" and new: "\<forall>x \<in> set ns. cmp (sl_key s x) key \<noteq> 0"
    and f: "FindGreaterOrEqual cmp s key = Some (fx, prev)" and r: "RandomHeight 1 (sl_rnd s) = (height, rnd)"
    and ra: "raise_height height (prev, s\<lparr>sl_rnd := rnd\<rparr>) = (prev', s')"
  shows "skip_inv cmp valid s' h ns \<and> sl_key s' = sl_key s \<and> sl_nodes s' = sl_nodes s \<and>
    raised cmp valid s' h ns key height prev'"
proof -
  let ?lo = "takeWhile (\<lambda>y. cmp (sl_key s y) key < 0) ns"
  have lp: "length prev = kMaxHeight"
    and prev: "\<forall>i < sl_max_height s. prev ! i = Some (last (filter (\<lambda>y. i < h y) (0 # ?lo)))"
    using find_ge_inv [OF inv v] f by auto
  have hr: "height \<le> kMaxHeight" using RandomHeight_range [OF _ r] by auto
  have s': "s' = s\<lparr>sl_rnd := rnd, sl_max_height := max height (sl_max_height s)\<rparr>"
    using ra by (auto simp: raise_height_def max_def split: if_splits)
  have mh: "sl_max_height s \<le> kMaxHeight" "\<forall>y \<in> set ns. h y \<le> sl_max_height s" "h 0 = kMaxHeight"
    using inv by (auto simp: skip_inv_def)
  have "prev' ! i = Some (last (filter (\<lambda>y. i < h y) (0 # ?lo)))" if "i < height" for i
  proof (cases "i < sl_max_height s")
    case True
    then have "prev' ! i = prev ! i"
      using ra lp mh(1) by (auto simp: raise_height_def fold_update split: if_splits)
    with prev True show ?thesis by simp
  next
    case False
    then have "prev' ! i = Some 0"
      using ra lp that hr by (auto simp: raise_height_def fold_update split: if_splits)
    moreover have "filter (\<lambda>y. i < h y) ?lo = []"
    proof -
      have "h y \<le> i" if "y \<in> set ?lo" for y
        using mh(2) False set_takeWhileD [OF that] by fastforce
      then show ?thesis by (auto simp: filter_empty_conv not_less)
    qed
    ultimately show ?thesis using that hr mh(3) by simp
  qed
  moreover have "links_ok s' h (0 # ns) = links_ok s h (0 # ns)" by (intro links_ok_cong) (simp add: s')
  ultimately show ?thesis using inv v new hr by (auto simp: skip_inv_def raised_def s' le_max_iff_disj)
qed

lemma node_ok:
  assumes inv: "skip_inv cmp valid s h ns" and ra: "raised cmp valid s h ns key height prev"
    and nn: "NewNode key height s = (x, s')"
  defines "lo \<equiv> takeWhile (\<lambda>y. cmp (sl_key s y) key < 0) ns"
    and "hi \<equiv> dropWhile (\<lambda>y. cmp (sl_key s y) key < 0) ns"
  shows "linking cmp valid s' (h(x := 0)) lo x hi prev 0 height \<and> ns = lo @ hi \<and> x \<notin> set (0 # ns) \<and>
    x = sl_nodes s \<and> sl_key s' = (sl_key s)(x := key)"
proof -
  have v: "valid key" and new: "\<forall>x \<in> set ns. cmp (sl_key s x) key \<noteq> 0" using ra by (simp_all add: raised_def)
  note b = below_split [OF inv v, folded lo_def hi_def]
  have x: "x = sl_nodes s" and s': "s' = snd (NewNode key height s)" using nn by (auto simp: NewNode_def)
  have fresh: "x \<notin> set (0 # lo @ hi)" and dist: "distinct (0 # lo @ hi)"
    using inv b(1) by (auto simp: skip_inv_def x)
  let ?h = "h(x := 0)"
  have keys: "sl_key s' = (sl_key s)(x := key)" and rest: "sl_nodes s' = Suc x" "sl_max_height s' = sl_max_height s"
      "sl_next s' x = replicate height None"
    by (simp_all add: s' NewNode_def x)
  have "links_ok s' ?h (0 # lo @ hi) = links_ok s h (0 # lo @ hi)"
    using fresh by (intro links_ok_cong) (auto simp: s' NewNode_def x)
  then have links: "links_ok s' ?h (0 # lo @ x # hi)"
    using b(4) links_ok_unlinked [of ?h x s' "0 # lo" hi] by simp
  have fl: "filter (\<lambda>y. i < ?h y) (0 # lo) = filter (\<lambda>y. i < h y) (0 # lo)" for i
    using fresh by (intro filter_cong) auto
  have prev: "\<forall>i. 0 \<le> i \<longrightarrow> i < height \<longrightarrow> prev ! i = Some (last (filter (\<lambda>y. i < ?h y) (0 # lo)))"
    using ra by (simp only: fl) (simp add: raised_def lo_def)
  have eq: "\<forall>y \<in> set (lo @ hi). sl_key s' y = sl_key s y \<and> ?h y = h y" using fresh by (auto simp: keys)
  have vs: "\<forall>y \<in> set (lo @ hi). valid (sl_key s y)" using inv b(1) by (auto simp: skip_inv_def)
  have above: "\<forall>y \<in> set hi. cmp key (sl_key s y) < 0"
  proof
    fix y assume y: "y \<in> set hi"
    then have "\<not> cmp (sl_key s y) key < 0" "cmp (sl_key s y) key \<noteq> 0" using b(1,3) new by auto
    then show "cmp key (sl_key s y) < 0" using swap [OF _ v, of "sl_key s y"] vs y by auto
  qed
  have "sorted_wrt (\<lambda>x y. cmp (sl_key s x) (sl_key s y) < 0) (lo @ hi)" using inv b(1) by (simp add: skip_inv_def)
  then have "sorted_wrt (\<lambda>x y. cmp (sl_key s' x) (sl_key s' y) < 0) (lo @ hi)"
    by (rule sorted_wrt_mono_rel [rotated]) (use eq in auto)
  then have sorted: "sorted_wrt (\<lambda>x y. cmp (sl_key s' x) (sl_key s' y) < 0) (lo @ x # hi)"
    using above b(2) eq by (auto simp: sorted_wrt_append keys)
  have mh: "0 < sl_max_height s" "sl_max_height s \<le> kMaxHeight" "h 0 = kMaxHeight" "0 < sl_nodes s"
    "\<forall>y \<in> set (lo @ hi). 0 < h y \<and> h y \<le> sl_max_height s \<and> y < sl_nodes s"
    using inv b(1) by (auto simp: skip_inv_def)
  have "linking cmp valid s' ?h lo x hi prev 0 height"
    unfolding linking_def
  proof (intro conjI)
    show "\<forall>y \<in> set (lo @ hi). 0 < ?h y \<and> ?h y \<le> sl_max_height s'" using mh(5) eq rest(2) by auto
    show "\<forall>y \<in> set (lo @ x # hi). valid (sl_key s' y)" using vs v eq by (auto simp: keys)
    show "\<forall>y \<in> set (0 # lo @ x # hi). y < sl_nodes s'" using mh(4,5) by (auto simp: rest x less_Suc_eq)
    show "height \<le> sl_max_height s'" using ra rest(2) by (simp add: raised_def)
    show "distinct (0 # lo @ x # hi)" using fresh dist by auto
    show "?h 0 = kMaxHeight" using mh(3,4) by (simp add: x)
  qed (use links prev sorted mh rest in simp_all)
  with b(1) fresh x keys show ?thesis by auto
qed

lemma insert_inv:
  assumes inv: "skip_inv cmp valid s h ns" and v: "valid key" and new: "\<forall>x \<in> set ns. cmp (sl_key s x) key \<noteq> 0"
  defines "lo \<equiv> takeWhile (\<lambda>y. cmp (sl_key s y) key < 0) ns"
    and "hi \<equiv> dropWhile (\<lambda>y. cmp (sl_key s y) key < 0) ns"
  shows "\<exists>s' height. SkipInsert cmp key s = Some s' \<and>
    skip_inv cmp valid s' (h(sl_nodes s := height)) (lo @ sl_nodes s # hi) \<and>
    sl_key s' = (sl_key s)(sl_nodes s := key)"
proof -
  obtain fx prev where f: "FindGreaterOrEqual cmp s key = Some (fx, prev)"
    using find_ge_inv [OF inv v] by blast
  obtain height rnd where r: "RandomHeight 1 (sl_rnd s) = (height, rnd)" by fastforce
  have hr: "1 \<le> height" using RandomHeight_range [OF _ r] by auto
  obtain prev' s1 where ra: "raise_height height (prev, s\<lparr>sl_rnd := rnd\<rparr>) = (prev', s1)" by fastforce
  obtain x s2 where nn: "NewNode key height s1 = (x, s2)" by fastforce
  from raise_ok [OF inv v new f r ra] have s1: "skip_inv cmp valid s1 h ns" "sl_key s1 = sl_key s" "sl_nodes s1 = sl_nodes s"
    "raised cmp valid s1 h ns key height prev'" by blast+
  from node_ok [OF s1(1,4) nn, unfolded s1(2,3), folded lo_def hi_def] have l: "linking cmp valid s2 (h(x := 0)) lo x hi prev' 0 height" "x = sl_nodes s"
    "sl_key s2 = (sl_key s)(x := key)" by blast+
  obtain s' where s': "link_levels x prev' [0..<height] s2 = Some s'" "same_nodes s2 s'"
      "linking cmp valid s' (h(x := height)) lo x hi prev' height height"
    using linking_all [OF l(1)] by auto
  have "SkipInsert cmp key s = Some s'"
    using s'(1) by (simp add: SkipInsert_def f r [unfolded One_nat_def] ra nn Let_def)
  moreover have "skip_inv cmp valid s' (h(x := height)) (lo @ x # hi)"
    using linking_inv [OF s'(3)] hr by (simp add: visible_def)
  moreover have "sl_key s' = (sl_key s)(x := key)" using s'(2) l(3) by (simp add: same_nodes_def)
  ultimately show ?thesis by (simp add: l(2)) blast
qed

end

subsection \<open>Positions\<close>

definition skip_at :: "nat list \<Rightarrow> nat \<Rightarrow> nat option" where
  "skip_at ns i = (if i < length ns then Some (ns ! i) else None)"

lemma skip_at_drop: "(case drop i ns of [] \<Rightarrow> None | y # ys \<Rightarrow> Some y) = skip_at ns i"
  by (cases "i < length ns") (simp_all add: skip_at_def Cons_nth_drop_Suc [symmetric])

lemma links_next:
  assumes "links_ok s h (0 # ns)" and "\<forall>x \<in> set ns. 0 < h x" and "i < length ns"
  shows "NodeNext s (ns ! i) 0 = Some (skip_at ns (Suc i))"
proof -
  have "0 # ns = (0 # take i ns) @ ns ! i # drop (Suc i) ns" using assms(3) by (simp add: id_take_nth_drop [symmetric])
  moreover have "\<forall>y \<in> set (drop (Suc i) ns). 0 < h y" using assms(2) in_set_dropD by fast
  ultimately show ?thesis
    using links_ok_next [of s h "0 # take i ns" "ns ! i" "drop (Suc i) ns" 0] assms
    by (simp add: first_above_0 skip_at_drop)
qed

context key_order
begin

text \<open>The number of nodes below a key; \<open>Seek\<close> and \<open>Prev\<close> find its end.\<close>

lemma seek_inv:
  assumes "skip_inv cmp valid s h ns" and "valid key"
  shows "SkipIterSeek cmp s key = Some (skip_at ns (length (takeWhile (\<lambda>y. cmp (sl_key s y) key < 0) ns)))"
  using find_ge_inv [OF assms] by (auto simp: SkipIterSeek_def skip_at_drop dropWhile_eq_drop)

lemma first_inv: "skip_inv cmp valid s h ns \<Longrightarrow> SkipIterSeekToFirst s = Some (skip_at ns 0)"
  using links_ok_next [of s h "[]" 0 ns 0] skip_at_drop [of 0 ns]
  by (simp add: skip_inv_def SkipIterSeekToFirst_def first_above_0)

lemma next_inv: "skip_inv cmp valid s h ns \<Longrightarrow> i < length ns \<Longrightarrow>
  SkipIterNext s (skip_at ns i) = Some (skip_at ns (Suc i))"
  using links_next [of s h ns i] by (auto simp: skip_inv_def SkipIterNext_def skip_at_def)

lemma null_if_head_last: "0 \<notin> set ns \<Longrightarrow> null_if_head (last (0 # ns)) = skip_at ns (length ns - 1)"
proof (cases "ns = []")
  case False
  assume "0 \<notin> set ns"
  then have "last ns \<noteq> 0" using last_in_set [OF False] by metis
  with False show ?thesis using last_conv_nth [OF False] by (simp add: null_if_head_def skip_at_def)
qed (simp add: null_if_head_def skip_at_def)

lemma last_inv:
  assumes "skip_inv cmp valid s h ns"
  shows "SkipIterSeekToLast s = Some (skip_at ns (length ns - 1))"
proof -
  have "find_last s 0 (sl_max_height s - 1) = Some (last (0 # ns))"
    using assms by (intro find_last_at [of s h ns "[]" 0 ns]) (auto simp: skip_inv_def)
  moreover have "0 \<notin> set ns" using assms by (simp add: skip_inv_def)
  ultimately show ?thesis by (simp add: SkipIterSeekToLast_def FindLast_def null_if_head_last del: last.simps)
qed

lemma below_count:
  assumes inv: "skip_inv cmp valid s h ns" and i: "i < length ns"
  shows "takeWhile (\<lambda>y. cmp (sl_key s y) (sl_key s (ns ! i)) < 0) ns = take i ns"
proof -
  let ?P = "\<lambda>y. cmp (sl_key s y) (sl_key s (ns ! i)) < 0"
  have v: "valid (sl_key s (ns ! i))" using inv i by (simp add: skip_inv_def)
  have "takeWhile ?P ns = takeWhile ?P (take i ns @ ns ! i # drop (Suc i) ns)"
    by (rule arg_cong [OF id_take_nth_drop [OF i], of "takeWhile ?P"])
  also have "\<dots> = take i ns @ takeWhile ?P (ns ! i # drop (Suc i) ns)"
  proof (rule takeWhile_append2)
    fix x assume "x \<in> set (take i ns)"
    then obtain j where j: "j < i" "x = ns ! j" using i by (auto simp: in_set_conv_nth)
    have "sorted_wrt (\<lambda>x y. cmp (sl_key s x) (sl_key s y) < 0) ns" using inv by (simp add: skip_inv_def)
    from sorted_wrt_nth_less [OF this j(1) i] show "?P x" by (simp add: j(2))
  qed
  also have "takeWhile ?P (ns ! i # drop (Suc i) ns) = []" using refl0 [OF v] by simp
  finally show ?thesis by simp
qed

lemma prev_inv:
  assumes inv: "skip_inv cmp valid s h ns" and i: "i < length ns"
  shows "SkipIterPrev cmp s (skip_at ns i) = Some (skip_at ns (if i = 0 then length ns else i - 1))"
proof -
  let ?k = "sl_key s (ns ! i)"
  have v: "valid ?k" using inv i by (simp add: skip_inv_def)
  note b = below_split [OF inv v, unfolded below_count [OF inv i]]
  have lt: "\<forall>y \<in> set (take i ns). 0 < h y" "0 \<notin> set (take i ns)"
    using inv in_set_takeD by (auto simp: skip_inv_def dest: in_set_takeD)
  have z: "0 # take i ns = [] @ 0 # take i ns" by simp
  have m: "sl_max_height s - 1 < h 0" using inv by (auto simp: skip_inv_def)
  have "FindLessThan cmp s ?k = Some (last (0 # take i ns))"
    unfolding FindLessThan_def by (rule find_less_at [where h = h and compare_op = cmp and s = s and key = ?k and lo = "take i ns", OF b(4) lt(1) b(2,3) z m])
  then have "SkipIterPrev cmp s (skip_at ns i) = Some (skip_at (take i ns) (length (take i ns) - 1))"
    using i lt(2) by (simp add: SkipIterPrev_def skip_at_def [of ns i] null_if_head_last del: last.simps)
  then show ?thesis using i by (cases i) (simp_all add: skip_at_def)
qed

lemma contains_inv:
  assumes inv: "skip_inv cmp valid s h ns" and v: "valid key"
  shows "SkipContains cmp key s = Some (\<exists>x \<in> set ns. cmp key (sl_key s x) = 0)"
proof -
  let ?P = "\<lambda>y. cmp (sl_key s y) key < 0"
  let ?lo = "takeWhile ?P ns" and ?hi = "dropWhile ?P ns"
  note b = below_split [OF inv v]
  have ks: "\<forall>y \<in> set ns. valid (sl_key s y)" using inv by (simp add: skip_inv_def)
  have lo: "\<not> (\<exists>x \<in> set ?lo. cmp key (sl_key s x) = 0)"
    using b(2) ks swap_eq [OF _ v] by (force dest: set_takeWhileD)
  have set: "set ns = set ?lo \<union> set ?hi" by (metis set_append takeWhile_dropWhile_id)
  have hi: "(\<exists>x \<in> set ?hi. cmp key (sl_key s x) = 0) \<longleftrightarrow>
      (case ?hi of [] \<Rightarrow> False | x # xs \<Rightarrow> cmp key (sl_key s x) = 0)"
  proof (cases ?hi)
    case (Cons z zs)
    have z: "\<not> ?P z" "valid (sl_key s z)" using b(3) ks set Cons by auto
    have "cmp key (sl_key s x) \<noteq> 0" if "x \<in> set zs" for x
    proof -
      have "sorted_wrt (\<lambda>x y. cmp (sl_key s x) (sl_key s y) < 0) ?hi"
        using inv by (simp add: skip_inv_def sorted_wrt_dropWhile)
      with that Cons have zx: "cmp (sl_key s z) (sl_key s x) < 0" by simp
      have "cmp key (sl_key s z) \<le> 0" using z v le_swap [of "sl_key s z" key] by simp
      moreover have "valid (sl_key s x)" using ks set Cons that by auto
      ultimately show ?thesis using le_less_trans [of key "sl_key s z" "sl_key s x"] z(2) v zx by fastforce
    qed
    with Cons show ?thesis by auto
  next
    case Nil
    show ?thesis unfolding Nil by simp
  qed
  obtain prev where "FindGreaterOrEqual cmp s key = Some ((case ?hi of [] \<Rightarrow> None | y # ys \<Rightarrow> Some y), prev)"
    using find_ge_inv [OF inv v] by blast
  then have "SkipContains cmp key s = Some (case ?hi of [] \<Rightarrow> False | x # xs \<Rightarrow> cmp key (sl_key s x) = 0)"
    by (cases ?hi) (simp_all only: SkipContains_def list.case option.map prod.case option.case)
  also have "(case ?hi of [] \<Rightarrow> False | x # xs \<Rightarrow> cmp key (sl_key s x) = 0) \<longleftrightarrow> (\<exists>x \<in> set ns. cmp key (sl_key s x) = 0)"
    unfolding hi [symmetric] set using lo by blast
  finally show ?thesis .
qed

lemma insert_holds:
  assumes "skip_holds cmp valid s ks" and "valid key" and "\<forall>k \<in> set ks. cmp k key \<noteq> 0"
  shows "\<exists>s'. SkipInsert cmp key s = Some s' \<and>
    skip_holds cmp valid s' (takeWhile (\<lambda>k. cmp k key < 0) ks @ key # dropWhile (\<lambda>k. cmp k key < 0) ks)"
proof -
  obtain h ns where inv: "skip_inv cmp valid s h ns" and ks: "ks = map (sl_key s) ns"
    using assms(1) by (auto simp: skip_holds_def)
  let ?lo = "takeWhile (\<lambda>y. cmp (sl_key s y) key < 0) ns" and ?hi = "dropWhile (\<lambda>y. cmp (sl_key s y) key < 0) ns"
  let ?x = "sl_nodes s"
  obtain s' height where s': "SkipInsert cmp key s = Some s'"
      "skip_inv cmp valid s' (h(?x := height)) (?lo @ ?x # ?hi)" "sl_key s' = (sl_key s)(?x := key)"
    using insert_inv [OF inv assms(2)] assms(3) ks by auto
  have "?x \<notin> set ns" using inv by (auto simp: skip_inv_def)
  then have "map (sl_key s') ?lo = map (sl_key s) ?lo" "map (sl_key s') ?hi = map (sl_key s) ?hi"
    by (auto simp: s'(3) dest: set_takeWhileD set_dropWhileD)
  then have "map (sl_key s') (?lo @ ?x # ?hi) = takeWhile (\<lambda>k. cmp k key < 0) ks @ key # dropWhile (\<lambda>k. cmp k key < 0) ks"
    by (simp add: ks takeWhile_map dropWhile_map o_def s'(3))
  with s'(1,2) show ?thesis unfolding skip_holds_def by metis
qed

lemma contains_holds:
  "skip_holds cmp valid s ks \<Longrightarrow> valid key \<Longrightarrow> SkipContains cmp key s = Some (\<exists>k \<in> set ks. cmp key k = 0)"
  using contains_inv by (auto simp: skip_holds_def)

end

subsection \<open>Readers during an insertion\<close>

text \<open>
  A reader takes no lock: it executes the search one step at a time, and between its steps a
  writer may store links. \<open>search_step_of\<close> is one iteration of \<open>FindGreaterOrEqual\<close>.
\<close>

datatype search_state = At nat nat | Found "nat option"

definition search_step_of :: "('k \<Rightarrow> 'k \<Rightarrow> int) \<Rightarrow> 'k \<Rightarrow> 'k skip_list \<Rightarrow> nat \<Rightarrow> nat \<Rightarrow> search_state option" where
  "search_step_of compare_op key s x level =
     map_option (\<lambda>next.
       if KeyIsAfterNode compare_op s key next then At (the next) level
       else if level = 0 then Found next else At x (level - 1)) (NodeNext s x level)"

text \<open>
  The writer executes \<open>Insert\<close> as a sequence of stores that readers can observe: the new maximal
  height, the node, and for each level the link of the node and then the link to it.
\<close>

datatype 'k writer =
    Idle
  | Raised 'k nat "nat option list"
  | Linking nat "nat option list" "nat list"
  | Stored nat "nat option list" nat "nat list"

inductive writer_step ::
  "('k \<Rightarrow> 'k \<Rightarrow> int) \<Rightarrow> ('k \<Rightarrow> bool) \<Rightarrow> 'k skip_list \<Rightarrow> 'k writer \<Rightarrow> 'k skip_list \<Rightarrow> 'k writer \<Rightarrow> bool"
  for compare_op :: "'k \<Rightarrow> 'k \<Rightarrow> int" and valid :: "'k \<Rightarrow> bool" where
  raise: "valid key \<Longrightarrow> SkipContains compare_op key s = Some False \<Longrightarrow>
    FindGreaterOrEqual compare_op s key = Some (fx, prev) \<Longrightarrow> RandomHeight 1 (sl_rnd s) = (height, rnd) \<Longrightarrow>
    raise_height height (prev, s\<lparr>sl_rnd := rnd\<rparr>) = (prev', s') \<Longrightarrow>
    writer_step compare_op valid s Idle s' (Raised key height prev')"
| node: "NewNode key height s = (x, s') \<Longrightarrow>
    writer_step compare_op valid s (Raised key height prev) s' (Linking x prev [0..<height])"
| store: "store_link x prev i s = Some s' \<Longrightarrow>
    writer_step compare_op valid s (Linking x prev (i # is)) s' (Stored x prev i is)"
| publish: "publish_link x prev i s = Some s' \<Longrightarrow>
    writer_step compare_op valid s (Stored x prev i is) s' (Linking x prev is)"
| idle: "writer_step compare_op valid s (Linking x prev []) s Idle"

text \<open>A reader that searches for \<open>key\<close>, over and over, while insertions go on.\<close>

inductive concurrent ::
  "('k \<Rightarrow> 'k \<Rightarrow> int) \<Rightarrow> ('k \<Rightarrow> bool) \<Rightarrow> 'k \<Rightarrow> 'k skip_list \<Rightarrow> 'k writer \<Rightarrow> search_state \<Rightarrow> bool"
  for compare_op :: "'k \<Rightarrow> 'k \<Rightarrow> int" and valid :: "'k \<Rightarrow> bool" and key :: 'k where
  new: "concurrent compare_op valid key (NewSkipList any_key) Idle (Found None)"
| writes: "concurrent compare_op valid key s w r \<Longrightarrow> writer_step compare_op valid s w s' w' \<Longrightarrow>
    concurrent compare_op valid key s' w' r"
| starts: "concurrent compare_op valid key s w r \<Longrightarrow> concurrent compare_op valid key s w (At 0 (sl_max_height s - 1))"
| reads: "concurrent compare_op valid key s w (At x level) \<Longrightarrow> search_step_of compare_op key s x level = Some r \<Longrightarrow>
    concurrent compare_op valid key s w r"

definition writer_ok ::
  "('k \<Rightarrow> 'k \<Rightarrow> int) \<Rightarrow> ('k \<Rightarrow> bool) \<Rightarrow> 'k skip_list \<Rightarrow> (nat \<Rightarrow> nat) \<Rightarrow> nat list \<Rightarrow> 'k writer \<Rightarrow> bool" where
  "writer_ok compare_op valid s h ns w \<longleftrightarrow> skip_inv compare_op valid s h ns \<and>
     (case w of Idle \<Rightarrow> True
      | Raised key height prev \<Rightarrow> raised compare_op valid s h ns key height prev
      | Linking x prev is \<Rightarrow> \<exists>lo hi j height. linking compare_op valid s h lo x hi prev j height \<and>
          ns = visible lo x hi j \<and> is = [j..<height]
      | Stored x prev i is \<Rightarrow> \<exists>lo hi height. linking compare_op valid s h lo x hi prev i height \<and>
          ns = visible lo x hi i \<and> i < height \<and> is = [Suc i..<height] \<and> sl_next s x ! i = first_above h i hi)"

definition reader_ok :: "('k \<Rightarrow> 'k \<Rightarrow> int) \<Rightarrow> 'k \<Rightarrow> 'k skip_list \<Rightarrow> (nat \<Rightarrow> nat) \<Rightarrow> nat list \<Rightarrow> search_state \<Rightarrow> bool" where
  "reader_ok compare_op key s h ns r \<longleftrightarrow>
     (case r of Found n \<Rightarrow> True
      | At x level \<Rightarrow> x \<in> set (0 # ns) \<and> level < h x \<and> (x \<noteq> 0 \<longrightarrow> compare_op (sl_key s x) key < 0))"

text \<open>No step of the writer takes a node away, or a level from it, or changes its key.\<close>

definition extends :: "'k skip_list \<Rightarrow> (nat \<Rightarrow> nat) \<Rightarrow> nat list \<Rightarrow> 'k skip_list \<Rightarrow> (nat \<Rightarrow> nat) \<Rightarrow> nat list \<Rightarrow> bool" where
  "extends s h ns s' h' ns' \<longleftrightarrow> (\<forall>x \<in> set (0 # ns). x \<in> set (0 # ns') \<and> h x \<le> h' x \<and> sl_key s' x = sl_key s x)"

lemma reader_extends: "reader_ok c key s h ns r \<Longrightarrow> extends s h ns s' h' ns' \<Longrightarrow> reader_ok c key s' h' ns' r"
  unfolding reader_ok_def extends_def by (cases r) fastforce+

lemma upt_Cons: "i # is = [j..<k] \<Longrightarrow> i = j \<and> j < k \<and> is = [Suc j..<k]"
  by (cases "j < k") (simp_all add: upt_conv_Cons)

context key_order
begin

lemma writer_step_ok:
  assumes "writer_step cmp valid s w s' w'" and "writer_ok cmp valid s h ns w"
  shows "\<exists>h' ns'. writer_ok cmp valid s' h' ns' w' \<and> extends s h ns s' h' ns'"
  using assms
proof (cases rule: writer_step.cases)
  case (raise key fx prev height rnd prev')
  have inv: "skip_inv cmp valid s h ns" using assms(2) by (simp add: writer_ok_def)
  have "\<forall>x \<in> set ns. cmp (sl_key s x) key \<noteq> 0"
    using contains_inv [OF inv raise(3)] raise(4) swap_eq [OF _ raise(3)] inv by (auto simp: skip_inv_def)
  from raise_ok [OF inv raise(3) this raise(5-7)] raise(2) show ?thesis
    by (intro exI [of _ h] exI [of _ ns]) (simp add: writer_ok_def extends_def)
next
  case (node key height x prev)
  have inv: "skip_inv cmp valid s h ns" "raised cmp valid s h ns key height prev"
    using assms(2) node(1) by (simp_all add: writer_ok_def)
  from node_ok [OF this node(3)] obtain lo hi where l: "linking cmp valid s' (h(x := 0)) lo x hi prev 0 height"
    "ns = lo @ hi" "x \<notin> set (0 # ns)" "sl_key s' = (sl_key s)(x := key)" by blast
  have v: "visible lo x hi 0 = ns" by (simp add: visible_def l(2))
  have "writer_ok cmp valid s' (h(x := 0)) ns w'"
    using linking_inv [OF l(1)] l(1) v node(2) by (auto simp: writer_ok_def)
  moreover have "extends s h ns s' (h(x := 0)) ns" using l(3,4) by (auto simp: extends_def)
  ultimately show ?thesis by blast
next
  case (store x prev i "is")
  obtain lo hi j height where l: "linking cmp valid s h lo x hi prev j height" "ns = visible lo x hi j" "i # is = [j..<height]"
    using assms(2) store(1) by (auto simp: writer_ok_def)
  from upt_Cons [OF l(3)] have j: "i = j" "j < height" "is = [Suc j..<height]" by auto
  from linking_store [OF l(1) j(2)] store(3) j(1) have s': "same_nodes s s'" "linking cmp valid s' h lo x hi prev j height"
    "sl_next s' x ! j = first_above h j hi" by auto
  have "writer_ok cmp valid s' h ns w'"
    using linking_inv [OF s'(2)] s'(2,3) l(2) j store(2) by (auto simp: writer_ok_def)
  moreover have "extends s h ns s' h ns" using s'(1) by (simp add: extends_def same_nodes_def)
  ultimately show ?thesis by blast
next
  case (publish x prev i "is")
  obtain lo hi height where l: "linking cmp valid s h lo x hi prev i height" "ns = visible lo x hi i" "i < height"
    "is = [Suc i..<height]" "sl_next s x ! i = first_above h i hi"
    using assms(2) publish(1) by (auto simp: writer_ok_def)
  from linking_publish [OF l(1,3,5)] publish(3) have s': "same_nodes s s'"
    "linking cmp valid s' (h(x := Suc i)) lo x hi prev (Suc i) height" by auto
  have "writer_ok cmp valid s' (h(x := Suc i)) (visible lo x hi (Suc i)) w'"
    using linking_inv [OF s'(2)] s'(2) l(4) publish(2) by (auto simp: writer_ok_def)
  moreover have "extends s h ns s' (h(x := Suc i)) (visible lo x hi (Suc i))"
    using s'(1) l(1,2) by (auto simp: extends_def same_nodes_def visible_def linking_def)
  ultimately show ?thesis by blast
next
  case (idle x prev)
  then have "writer_ok cmp valid s' h ns w'" "extends s h ns s' h ns"
    using assms(2) by (simp_all add: writer_ok_def extends_def)
  then show ?thesis by blast
qed

lemma find_dropWhile: "find (\<lambda>x. \<not> P x) xs = (case dropWhile P xs of [] \<Rightarrow> None | y # ys \<Rightarrow> Some y)"
  by (induction xs) auto

lemma reader_step:
  assumes inv: "skip_inv cmp valid s h ns" and r: "reader_ok cmp key s h ns (At x level)" and v: "valid key"
  shows "\<exists>r. search_step_of cmp key s x level = Some r \<and> reader_ok cmp key s h ns r \<and>
    (\<forall>n. r = Found n \<longrightarrow> map_option (sl_key s) n = find (\<lambda>k. \<not> cmp k key < 0) (map (sl_key s) ns))"
proof -
  define lo where "lo = takeWhile (\<lambda>y. cmp (sl_key s y) key < 0) ns"
  define hi where "hi = dropWhile (\<lambda>y. cmp (sl_key s y) key < 0) ns"
  note b = below_split [OF inv v, folded lo_def hi_def]
  have "x \<in> set (0 # lo)" using r b(1,3) by (auto simp: reader_ok_def)
  then obtain as mid where split: "0 # lo = as @ x # mid" by (meson split_list)
  have lev: "level < h x" using r by (simp add: reader_ok_def)
  have hi: "\<not> KeyIsAfterNode cmp s key (first_above h l hi)" for l
    using b(3) first_above_Some [of h l hi] by (fastforce simp: KeyIsAfterNode_def)
  show ?thesis
  proof (rule search_step [OF b(4) split lev b(5)])
    fix y assume y: "NodeNext s x level = Some (Some y)" "y \<in> set lo" "level < h y"
    then have "cmp (sl_key s y) key < 0" "y \<in> set ns" using b(1,2) by auto
    with y show ?thesis by (simp add: search_step_of_def KeyIsAfterNode_def reader_ok_def)
  next
    assume n: "NodeNext s x level = Some (first_above h level hi)"
    show ?thesis
    proof (cases level)
      case (Suc k)
      with n hi [of level] r show ?thesis by (simp add: search_step_of_def reader_ok_def)
    next
      case 0
      have "map_option (sl_key s) (first_above h 0 hi) = find (\<lambda>k. \<not> cmp k key < 0) (map (sl_key s) ns)"
        unfolding find_dropWhile first_above_0 [OF b(6)] dropWhile_map o_def hi_def [symmetric]
        by (cases hi) simp_all
      with n hi [of 0] show ?thesis by (simp add: 0 search_step_of_def reader_ok_def)
    qed
  qed
qed

lemma concurrent_ok:
  assumes "concurrent cmp valid key s w r" and "valid key"
  shows "\<exists>h ns. writer_ok cmp valid s h ns w \<and> reader_ok cmp key s h ns r"
  using assms(1)
proof induction
  case (new any_key)
  have "writer_ok cmp valid (NewSkipList any_key) (\<lambda>x. kMaxHeight) [] Idle" by (simp add: writer_ok_def new_skip_list)
  then show ?case by (auto simp: reader_ok_def)
next
  case (writes s w r s' w')
  then obtain h ns where ok: "writer_ok cmp valid s h ns w" "reader_ok cmp key s h ns r" by blast
  from writer_step_ok [OF writes(2) ok(1)] obtain h' ns' where
    "writer_ok cmp valid s' h' ns' w'" "extends s h ns s' h' ns'" by blast
  with reader_extends [OF ok(2)] show ?case by blast
next
  case (starts s w r)
  then obtain h ns where ok: "writer_ok cmp valid s h ns w" by blast
  then have "sl_max_height s - 1 < h 0" by (auto simp: writer_ok_def skip_inv_def)
  then have "reader_ok cmp key s h ns (At 0 (sl_max_height s - 1))" by (simp add: reader_ok_def)
  with ok show ?case by blast
next
  case (reads s w x level r)
  then obtain h ns where "writer_ok cmp valid s h ns w" "reader_ok cmp key s h ns (At x level)" by blast
  moreover from this have "skip_inv cmp valid s h ns" by (simp add: writer_ok_def)
  ultimately show ?case using reader_step [OF _ _ assms(2)] reads(2) by fastforce
qed

text \<open>Alone, the writer executes \<open>Insert\<close>.\<close>

lemma writer_links:
  "link_levels x prev is s = Some s' \<Longrightarrow>
   (\<lambda>(s, w) (s', w'). writer_step cmp valid s w s' w')\<^sup>*\<^sup>* (s, Linking x prev is) (s', Idle)"
proof (induction "is" arbitrary: s)
  case Nil
  then show ?case by (auto intro!: r_into_rtranclp writer_step.idle)
next
  case (Cons i "is")
  let ?W = "\<lambda>(s, w) (s', w'). writer_step cmp valid s w s' w'"
  obtain s1 s2 where s: "store_link x prev i s = Some s1" "publish_link x prev i s1 = Some s2" "link_levels x prev is s2 = Some s'"
    using Cons.prems by (auto simp: link_level_def bind_eq_Some_conv)
  have "?W (s, Linking x prev (i # is)) (s1, Stored x prev i is)" "?W (s1, Stored x prev i is) (s2, Linking x prev is)"
    using s by (auto intro: writer_step.intros)
  with Cons.IH [OF s(3)] show ?case by (meson converse_rtranclp_into_rtranclp)
qed

lemma writer_inserts:
  assumes "SkipInsert cmp key s = Some s'" and "valid key" and "SkipContains cmp key s = Some False"
  shows "(\<lambda>(s, w) (s', w'). writer_step cmp valid s w s' w')\<^sup>*\<^sup>* (s, Idle) (s', Idle)"
proof -
  let ?W = "\<lambda>(s, w) (s', w'). writer_step cmp valid s w s' w'"
  obtain fx prev where f: "FindGreaterOrEqual cmp s key = Some (fx, prev)"
    using assms(1) by (auto simp: SkipInsert_def bind_eq_Some_conv)
  obtain height rnd where r: "RandomHeight 1 (sl_rnd s) = (height, rnd)" by fastforce
  obtain prev' s1 where ra: "raise_height height (prev, s\<lparr>sl_rnd := rnd\<rparr>) = (prev', s1)" by fastforce
  obtain x s2 where nn: "NewNode key height s1 = (x, s2)" by fastforce
  have "link_levels x prev' [0..<height] s2 = Some s'"
    using assms(1) by (simp add: SkipInsert_def f r [unfolded One_nat_def] ra nn Let_def)
  moreover have "?W (s, Idle) (s1, Raised key height prev')" using writer_step.raise [where compare_op = cmp and valid = valid, OF assms(2,3) f r ra] by simp
  moreover have "?W (s1, Raised key height prev') (s2, Linking x prev' [0..<height])" using writer_step.node [OF nn] by simp
  ultimately show ?thesis using writer_links by (meson converse_rtranclp_into_rtranclp)
qed

end

subsection \<open>Properties\<close>

text \<open>
  Theorem (ldb_random). The generator computes \<open>seed * 16807\<close> modulo the prime 2^31 - 1 without a
  division, and the seed never becomes 0 or the modulus.
\<close>

lemma NewRandom_range: "0 < unat (NewRandom s) \<and> unat (NewRandom s) < 2147483647"
proof -
  have "unat (s AND 0x7fffffff) \<le> 2147483647"
  proof -
    have "s AND 0x7fffffff = take_bit 31 s" by (simp add: take_bit_eq_mask mask_eq_exp_minus_1)
    then have "unat (s AND 0x7fffffff) = unat s mod 2 ^ 31" by (simp only: take_bit_eq_mod) (simp add: unat_mod)
    moreover have "unat s mod 2 ^ 31 < 2 ^ 31" by simp
    ultimately show ?thesis by simp
  qed
  then show ?thesis by (auto simp: NewRandom_def Let_def word_unat_eq_iff le_less)
qed

lemma random_fold:
  fixes p :: nat
  assumes "0 < p mod 2147483647" and "p < 2147483647 * 2147483648"
  shows "(let q = p div 2147483648 + p mod 2147483648 in if 2147483647 < q then q - 2147483647 else q) = p mod 2147483647"
proof -
  let ?a = "p div 2147483648" and ?b = "p mod 2147483648"
  have "p = 2147483647 * ?a + (?a + ?b)" using div_mult_mod_eq [of p 2147483648] by linarith
  then have m: "p mod 2147483647 = (?a + ?b) mod 2147483647" by (metis mod_mult_self4)
  have a: "?a < 2147483647" using assms(2) by (simp add: less_mult_imp_div_less)
  have b: "?b < 2147483648" by simp
  show ?thesis
  proof (cases "2147483647 < ?a + ?b")
    case True
    then have "(?a + ?b) mod 2147483647 = (?a + ?b - 2147483647) mod 2147483647"
      by (intro le_mod_geq) simp
    also have "\<dots> = ?a + ?b - 2147483647"
    proof -
      have "?a + ?b - 2147483647 \<le> 2147483646" using a b by linarith
      then show ?thesis by simp
    qed
    finally show ?thesis using True m by (simp add: Let_def)
  next
    case False
    moreover have "?a + ?b \<noteq> 2147483647" using m assms(1) by auto
    ultimately show ?thesis using m by (simp add: Let_def)
  qed
qed

theorem ldb_random:
  assumes "0 < unat seed" and "unat seed < 2147483647"
  shows "unat (RandomNext seed) = unat seed * 16807 mod 2147483647 \<and>
    0 < unat (RandomNext seed) \<and> unat (RandomNext seed) < 2147483647 \<and>
    0 < unat (NewRandom s) \<and> unat (NewRandom s) < 2147483647"
proof -
  let ?p = "unat seed * 16807"
  have p: "?p < 2147483647 * 16807" using assms(2) by simp
  have "unat ((ucast seed :: u64) * 16807) = ?p"
  proof -
    have "unat (ucast seed :: u64) = unat seed" using unat_u32 [of seed] by (simp add: unsigned_ucast_eq take_bit_nat_eq_self)
    then show ?thesis using p by (subst unat_mult_lem [THEN iffD1]) simp_all
  qed
  moreover have "(x :: u64) AND 2147483647 = take_bit 31 x" for x
    by (simp add: take_bit_eq_mask mask_eq_exp_minus_1)
  moreover have "unat (take_bit 31 x) = unat x mod 2147483648" "unat (drop_bit 31 x) = unat x div 2147483648" for x :: u64
    by (simp_all only: take_bit_eq_mod drop_bit_eq_div) (simp_all add: unat_mod unat_div)
  ultimately have a: "unat (drop_bit 31 ((ucast seed :: u64) * 16807)) = ?p div 2147483648"
      "unat ((ucast seed :: u64) * 16807 AND 2147483647) = ?p mod 2147483648"
    by (simp_all only:)
  let ?q = "?p div 2147483648 + ?p mod 2147483648"
  have "?p div 2147483648 < 16807 + 1" using p by linarith
  moreover have "?p mod 2147483648 < 2147483648" by simp
  ultimately have q: "?q < 4294967296" by linarith
  have pos: "0 < ?p mod 2147483647"
  proof (rule ccontr)
    assume "\<not> 0 < ?p mod 2147483647"
    then have "(2147483647 :: nat) dvd ?p" by (simp add: mod_eq_0_iff_dvd)
    then have "(2147483647 :: nat) dvd ?p * 1407677000" by (rule dvd_mult2)
    moreover have "?p * 1407677000 = unat seed + 2147483647 * (unat seed * 11017)" by simp
    ultimately have "(2147483647 :: nat) dvd unat seed" by (metis dvd_add_left_iff dvd_triv_left)
    then show False using assms by (auto dest: dvd_imp_le)
  qed
  have sum: "unat (drop_bit 31 ((ucast seed :: u64) * 16807) + ((ucast seed :: u64) * 16807 AND 2147483647)) = ?q"
    using a q by (subst unat_add_lem [THEN iffD1]) simp_all
  let ?s = "ucast (drop_bit 31 ((ucast seed :: u64) * 16807) + ((ucast seed :: u64) * 16807 AND 2147483647)) :: u32"
  have u: "unat ?s = ?q" using q by (simp add: unsigned_ucast_eq sum take_bit_nat_eq_self)
  have "unat (RandomNext seed) = (if 2147483647 < ?q then ?q - 2147483647 else ?q)"
    using u by (auto simp: RandomNext_def Let_def word_less_nat_alt unat_sub word_le_nat_alt)
  also have "\<dots> = ?p mod 2147483647"
    using random_fold [OF pos] p by (simp add: Let_def)
  finally show ?thesis using pos NewRandom_range [of s] by simp
qed

theorem ldb_random_witness: "unat (RandomNext 1) = 16807"
  using ldb_random [of 1 0] by simp

text \<open>
  C14 (ldb_skiplist_insert). \<open>Insert\<close> of a key that is not yet in the list always returns and
  puts the key at its place among the keys the list holds, whatever height the node gets;
  \<open>Contains\<close> then finds exactly the keys that are held.
\<close>

theorem ldb_skiplist_insert:
  assumes "key_order compare_op valid" and "skip_holds compare_op valid s ks" and "valid key"
    and "\<forall>k \<in> set ks. compare_op k key \<noteq> 0"
  shows "\<exists>s'. SkipInsert compare_op key s = Some s' \<and>
    skip_holds compare_op valid s'
      (takeWhile (\<lambda>k. compare_op k key < 0) ks @ key # dropWhile (\<lambda>k. compare_op k key < 0) ks) \<and>
    (\<forall>q. valid q \<longrightarrow> SkipContains compare_op q s' = Some (compare_op q key = 0 \<or> (\<exists>k \<in> set ks. compare_op q k = 0)))"
proof -
  let ?ks = "takeWhile (\<lambda>k. compare_op k key < 0) ks @ key # dropWhile (\<lambda>k. compare_op k key < 0) ks"
  obtain s' where s': "SkipInsert compare_op key s = Some s'" "skip_holds compare_op valid s' ?ks"
    using key_order.insert_holds [OF assms] by blast
  have "set ks = set (takeWhile (\<lambda>k. compare_op k key < 0) ks) \<union> set (dropWhile (\<lambda>k. compare_op k key < 0) ks)"
    by (metis set_append takeWhile_dropWhile_id)
  then have "set ?ks = insert key (set ks)" by auto
  then have "SkipContains compare_op q s' = Some (\<exists>k \<in> insert key (set ks). compare_op q k = 0)" if "valid q" for q
    using key_order.contains_holds [OF assms(1) s'(2) that] by (simp only:)
  with s' show ?thesis by auto
qed

lemma slice_order: "key_order slice_compare (\<lambda>_. True)"
  using bytewise.key_order_axioms by (simp add: BytewiseComparator_def)

lemma new_skip_list_holds: "skip_holds compare_op valid (NewSkipList any_key) []"
  unfolding skip_holds_def by (intro exI conjI, rule new_skip_list) simp

theorem ldb_skiplist_insert_witness:
  "\<exists>s. SkipInsert slice_compare [7] (NewSkipList []) = Some s \<and> SkipContains slice_compare [7] s = Some True"
  using ldb_skiplist_insert [OF slice_order new_skip_list_holds [of _ _ "[]"], of "[7]"]
  by (auto simp: slice_compare_def)



end
