(* ===== verification/LDB_WriteBatch.thy ===== *)
theory LDB_WriteBatch
  imports LDB_DbFormat LDB_Log
begin

text \<open>
  Write batches (\<open>db/write_batch.cc\<close>): a header with a sequence number and a count, then the
  records. The handler of \<open>Iterate\<close> and \<open>MemTable::Add\<close> are parameters, operations on an
  abstract state.
\<close>

subsection \<open>The operations\<close>

definition kHeader :: nat where "kHeader = 12"

text \<open>The batch is its string \<open>rep_\<close>. \<open>resize\<close> fills with zeros.\<close>

type_synonym WriteBatch = "byte list"

definition Clear :: WriteBatch where
  "Clear = replicate kHeader 0"

text \<open>\<open>Count\<close> converts the stored word to \<open>int\<close>, \<open>SetCount\<close> back.\<close>

definition Count :: "WriteBatch \<Rightarrow> 32 word" where
  "Count b = DecodeFixed32 (drop 8 b)"

definition overwrite :: "byte list \<Rightarrow> nat \<Rightarrow> byte list \<Rightarrow> byte list" where
  "overwrite dst pos bs = take pos dst @ bs @ drop (pos + length bs) dst"

definition SetCount :: "WriteBatch \<Rightarrow> 32 word \<Rightarrow> WriteBatch" where
  "SetCount b n = overwrite b 8 (EncodeFixed32 n)"

definition Sequence :: "WriteBatch \<Rightarrow> u64" where
  "Sequence b = DecodeFixed64 b"

definition SetSequence :: "WriteBatch \<Rightarrow> u64 \<Rightarrow> WriteBatch" where
  "SetSequence b s = overwrite b 0 (EncodeFixed64 s)"

definition Put :: "WriteBatch \<Rightarrow> byte list \<Rightarrow> byte list \<Rightarrow> WriteBatch" where
  "Put b key value =
     (let b = SetCount b (Count b + 1);
          b = b @ [ucast (value_code kTypeValue)];
          b = PutLengthPrefixedSlice b key
      in PutLengthPrefixedSlice b value)"

definition Delete :: "WriteBatch \<Rightarrow> byte list \<Rightarrow> WriteBatch" where
  "Delete b key =
     (let b = SetCount b (Count b + 1);
          b = b @ [ucast (value_code kTypeDeletion)]
      in PutLengthPrefixedSlice b key)"

text \<open>The handler: its two methods on an abstract state.\<close>

record 's handler =
  Put_op :: "byte list \<Rightarrow> byte list \<Rightarrow> 's \<Rightarrow> 's"
  Delete_op :: "byte list \<Rightarrow> 's \<Rightarrow> 's"

text \<open>
  The loop of \<open>Iterate\<close>: \<open>None\<close> at the end of the input, an error otherwise, with the
  number of records found, as a 32-bit \<open>int\<close>.
\<close>

function IterateLoop ::
  "'s handler \<Rightarrow> byte list \<Rightarrow> 32 word \<Rightarrow> 's \<Rightarrow> Status option \<times> 32 word \<times> 's" where
  "IterateLoop h input found s =
     (if input = [] then (None, found, s)
      else
        let found = found + 1;
            tag = hd input;
            input = tl input
        in if tag = ucast (value_code kTypeValue)
           then case GetLengthPrefixedSlice input of
                  None \<Rightarrow> (Some (Corruption ''bad WriteBatch Put''), found, s)
                | Some (key, input) \<Rightarrow>
                    (case GetLengthPrefixedSlice input of
                       None \<Rightarrow> (Some (Corruption ''bad WriteBatch Put''), found, s)
                     | Some (value, input) \<Rightarrow> IterateLoop h input found (Put_op h key value s))
           else if tag = ucast (value_code kTypeDeletion)
           then case GetLengthPrefixedSlice input of
                  None \<Rightarrow> (Some (Corruption ''bad WriteBatch Delete''), found, s)
                | Some (key, input) \<Rightarrow> IterateLoop h input found (Delete_op h key s)
           else (Some (Corruption ''unknown WriteBatch tag''), found, s))"
  by pat_completeness auto
termination
  by (relation "measure (\<lambda>(h, input, found, s). length input)")
    (auto simp: neq_Nil_conv dest!: lps.shorter)

declare IterateLoop.simps [simp del]

definition Iterate :: "'s handler \<Rightarrow> WriteBatch \<Rightarrow> 's \<Rightarrow> Status \<times> 's" where
  "Iterate h b s =
     (if length b < kHeader then (Corruption ''malformed WriteBatch (too small)'', s)
      else case IterateLoop h (drop kHeader b) 0 s of
             (Some e, found, s) \<Rightarrow> (e, s)
           | (None, found, s) \<Rightarrow>
               if found \<noteq> Count b then (Corruption ''WriteBatch has wrong count'', s) else (OK, s))"

text \<open>\<open>MemTableInserter\<close>; \<open>Add\<close> of the memtable is a parameter.\<close>

record 'm inserter =
  ins_sequence :: u64
  mem :: 'm

definition MemTableInserter ::
  "(u64 \<Rightarrow> ValueType \<Rightarrow> byte list \<Rightarrow> byte list \<Rightarrow> 'm \<Rightarrow> 'm) \<Rightarrow> 'm inserter handler" where
  "MemTableInserter add =
     \<lparr>Put_op = (\<lambda>key value s.
        s\<lparr>mem := add (ins_sequence s) kTypeValue key value (mem s), ins_sequence := ins_sequence s + 1\<rparr>),
      Delete_op = (\<lambda>key s.
        s\<lparr>mem := add (ins_sequence s) kTypeDeletion key [] (mem s), ins_sequence := ins_sequence s + 1\<rparr>)\<rparr>"

definition InsertInto ::
  "(u64 \<Rightarrow> ValueType \<Rightarrow> byte list \<Rightarrow> byte list \<Rightarrow> 'm \<Rightarrow> 'm) \<Rightarrow> WriteBatch \<Rightarrow> 'm \<Rightarrow> Status \<times> 'm" where
  "InsertInto add b memtable =
     (case Iterate (MemTableInserter add) b \<lparr>ins_sequence = Sequence b, mem = memtable\<rparr> of
        (s, ins) \<Rightarrow> (s, mem ins))"

definition SetContents :: "WriteBatch \<Rightarrow> byte list \<Rightarrow> WriteBatch" where
  "SetContents b contents = contents"

definition AppendBatch :: "WriteBatch \<Rightarrow> WriteBatch \<Rightarrow> WriteBatch" where
  "AppendBatch dst src = SetCount dst (Count dst + Count src) @ drop kHeader src"

subsection \<open>The records of a batch\<close>

text \<open>
  A batch as a client sees it: its operations in order. \<open>run\<close> applies them to the state of a
  handler, \<open>represents\<close> says which bytes stand for them.
\<close>

datatype batch_op = PutOp "byte list" "byte list" | DeleteOp "byte list"

fun small_op :: "batch_op \<Rightarrow> bool" where
  "small_op (PutOp k v) \<longleftrightarrow> length k < 2 ^ 32 \<and> length v < 2 ^ 32"
| "small_op (DeleteOp k) \<longleftrightarrow> length k < 2 ^ 32"

fun op_bytes :: "batch_op \<Rightarrow> byte list" where
  "op_bytes (PutOp k v) = 1 # PutLengthPrefixedSlice [] k @ PutLengthPrefixedSlice [] v"
| "op_bytes (DeleteOp k) = 0 # PutLengthPrefixedSlice [] k"

fun run_op :: "'s handler \<Rightarrow> batch_op \<Rightarrow> 's \<Rightarrow> 's" where
  "run_op h (PutOp k v) s = Put_op h k v s"
| "run_op h (DeleteOp k) s = Delete_op h k s"

definition run :: "'s handler \<Rightarrow> batch_op list \<Rightarrow> 's \<Rightarrow> 's" where
  "run h ops s = fold (run_op h) ops s"

fun apply_op :: "WriteBatch \<Rightarrow> batch_op \<Rightarrow> WriteBatch" where
  "apply_op b (PutOp k v) = Put b k v"
| "apply_op b (DeleteOp k) = Delete b k"

definition represents :: "WriteBatch \<Rightarrow> batch_op list \<Rightarrow> bool" where
  "represents b ops \<longleftrightarrow> kHeader \<le> length b \<and> drop kHeader b = concat (map op_bytes ops) \<and>
     Count b = word_of_nat (length ops)"

lemma overwrite_length [simp]: "pos + length bs \<le> length dst \<Longrightarrow> length (overwrite dst pos bs) = length dst"
  by (simp add: overwrite_def)

lemma overwrite_drop: "pos + length bs \<le> n \<Longrightarrow> pos \<le> length dst \<Longrightarrow> drop n (overwrite dst pos bs) = drop n dst"
  by (simp add: overwrite_def min_def)

lemma overwrite_at: "pos \<le> length dst \<Longrightarrow> drop pos (overwrite dst pos bs) = bs @ drop (pos + length bs) dst"
  by (simp add: overwrite_def min_def)

lemma Count_SetCount: "kHeader \<le> length b \<Longrightarrow> Count (SetCount b n) = n"
  by (simp add: Count_def SetCount_def overwrite_at kHeader_def DecodeFixed32_Encode)

lemma SetCount_body: "kHeader \<le> length b \<Longrightarrow> length (SetCount b n) = length b \<and> drop kHeader (SetCount b n) = drop kHeader b"
  by (simp add: SetCount_def kHeader_def overwrite_drop)

lemma Count_append: "kHeader \<le> length b \<Longrightarrow> Count (b @ c) = Count b"
  by (simp add: Count_def kHeader_def DecodeFixed32_def)

lemma Sequence_append: "8 \<le> length b \<Longrightarrow> Sequence (b @ c) = Sequence b"
  by (simp add: Sequence_def DecodeFixed64_def)

lemma Sequence_SetCount: "kHeader \<le> length b \<Longrightarrow> Sequence (SetCount b n) = Sequence b"
  by (simp add: Sequence_def SetCount_def overwrite_def DecodeFixed64_def kHeader_def)

lemma apply_op_eq: "apply_op b x = SetCount b (Count b + 1) @ op_bytes x"
proof (cases x)
  case (PutOp k v)
  let ?b = "SetCount b (Count b + 1) @ [1]"
  show ?thesis
    by (simp add: PutOp Put_def Let_def PutLengthPrefixedSlice_append [of "?b"]
        PutLengthPrefixedSlice_append [of "?b @ _"] flip: append_assoc)
next
  case (DeleteOp k)
  then show ?thesis
    by (simp add: Delete_def Let_def PutLengthPrefixedSlice_append [of "SetCount b (Count b + 1) @ [0]"])
qed

lemma represents_Clear: "represents Clear []"
  by (simp add: represents_def Clear_def kHeader_def Count_def DecodeFixed32_def numeral_eq_Suc)

lemma represents_apply: "represents b ops \<Longrightarrow> represents (apply_op b x) (ops @ [x])"
  by (auto simp: represents_def apply_op_eq Count_append Count_SetCount SetCount_body ac_simps)

lemma represents_foldl: "represents b ops \<Longrightarrow> represents (foldl apply_op b xs) (ops @ xs)"
  by (induction xs arbitrary: b ops) (use represents_apply in fastforce)+

lemma represents_append:
  assumes "represents a xs" and "represents b ys"
  shows "represents (AppendBatch a b) (xs @ ys)"
  using assms
  by (auto simp: represents_def AppendBatch_def Count_append Count_SetCount SetCount_body)

lemma Sequence_apply: "kHeader \<le> length b \<Longrightarrow> Sequence (apply_op b x) = Sequence b"
  using SetCount_body [of b "Count b + 1"]
  by (simp add: apply_op_eq Sequence_append Sequence_SetCount kHeader_def)

lemma IterateLoop_ops:
  "list_all small_op ops \<Longrightarrow>
   IterateLoop h (concat (map op_bytes ops) @ rest) n s
   = IterateLoop h rest (n + word_of_nat (length ops)) (run h ops s)"
proof (induction ops arbitrary: n s)
  case Nil
  then show ?case by (simp add: run_def)
next
  case (Cons x ops)
  let ?t = "concat (map op_bytes ops) @ rest"
  have "IterateLoop h (op_bytes x @ ?t) n s = IterateLoop h ?t (n + 1) (run_op h x s)"
    using Cons(2) by (cases x) (simp_all add: IterateLoop.simps [of h "_ # _"] Let_def lps.reads_back)
  with Cons show ?case by (simp add: run_def ac_simps)
qed

lemma Iterate_represents:
  assumes "represents b ops" and "list_all small_op ops"
  shows "Iterate h b s = (OK, run h ops s)"
proof -
  have "IterateLoop h (drop kHeader b) 0 s = IterateLoop h [] (word_of_nat (length ops)) (run h ops s)"
    using assms(1) IterateLoop_ops [OF assms(2), of h "[]" 0 s] by (simp add: represents_def)
  then show ?thesis
    using assms(1) by (simp add: Iterate_def represents_def IterateLoop.simps [of h "[]"])
qed

text \<open>What any bytes do: the records that can be read reach the handler, up to the first bad one.\<close>

lemma IterateLoop_prefix:
  "\<exists>ops. case IterateLoop h input n s of (e, found, t) \<Rightarrow> t = run h ops s \<and>
     (e = None \<longrightarrow> found = n + word_of_nat (length ops))"
proof (induction h input n s rule: IterateLoop.induct)
  case (1 h input n s)
  have stop: ?case
    if "fst (IterateLoop h input n s) \<noteq> None" and "snd (snd (IterateLoop h input n s)) = s"
    using that by (intro exI [of _ "[]"]) (auto simp: run_def split: prod.splits)
  have go: ?case
    if "IterateLoop h input n s = IterateLoop h q (n + 1) (run_op h x s)"
      and "\<exists>ops. case IterateLoop h q (n + 1) (run_op h x s) of (e, found, t) \<Rightarrow> t = run h ops (run_op h x s) \<and>
         (e = None \<longrightarrow> found = n + 1 + word_of_nat (length ops))" for q x
  proof -
    from that(2) obtain ops where "case IterateLoop h q (n + 1) (run_op h x s) of (e, found, t) \<Rightarrow>
      t = run h ops (run_op h x s) \<and> (e = None \<longrightarrow> found = n + 1 + word_of_nat (length ops))" ..
    with that(1) show ?thesis
      by (intro exI [of _ "x # ops"]) (auto simp: run_def ac_simps split: prod.splits)
  qed
  consider "input = []" | tag i where "input = tag # i" "tag \<noteq> 1" "tag \<noteq> 0"
    | i where "input = 1 # i" | i where "input = 0 # i"
    by (cases input) auto
  then show ?case
  proof cases
    case 1
    then show ?thesis
      by (intro exI [of _ "[]"]) (simp add: IterateLoop.simps [of h "[]"] run_def)
  next
    case (2 tag i)
    then show ?thesis by (intro stop) (simp_all add: IterateLoop.simps [of h "_ # _"] Let_def)
  next
    case (3 i)
    show ?thesis
    proof (cases "GetLengthPrefixedSlice i")
      case None
      with 3 show ?thesis by (intro stop) (simp_all add: IterateLoop.simps [of h "_ # _"] Let_def)
    next
      case (Some kq)
      obtain k q where k: "kq = (k, q)" by fastforce
      show ?thesis
      proof (cases "GetLengthPrefixedSlice q")
        case None
        with Some k 3 show ?thesis by (intro stop) (simp_all add: IterateLoop.simps [of h "_ # _"] Let_def)
      next
        case (Some vr)
        obtain v r where v: "vr = (v, r)" by fastforce
        from 1(1) [OF _ refl refl refl] show ?thesis
          using \<open>GetLengthPrefixedSlice i = Some kq\<close> Some k v 3
          by (intro go [of r "PutOp k v"]) (simp_all add: IterateLoop.simps [of h "_ # _"] Let_def)
      qed
    qed
  next
    case (4 i)
    show ?thesis
    proof (cases "GetLengthPrefixedSlice i")
      case None
      with 4 show ?thesis by (intro stop) (simp_all add: IterateLoop.simps [of h "_ # _"] Let_def)
    next
      case (Some kq)
      obtain k q where k: "kq = (k, q)" by fastforce
      from 1(2) [OF _ refl refl refl] show ?thesis
        using Some k 4
        by (intro go [of q "DeleteOp k"]) (simp_all add: IterateLoop.simps [of h "_ # _"] Let_def)
    qed
  qed
qed

lemma IterateLoop_not_OK: "fst (IterateLoop h i n s) \<noteq> Some OK"
proof (induction h i n s rule: IterateLoop.induct)
  case (1 h i n s)
  then show ?case by (subst IterateLoop.simps) (simp add: Let_def split: option.split)
qed

lemma Iterate_any:
  "\<exists>ops. snd (Iterate h b s) = run h ops s \<and>
     (fst (Iterate h b s) = OK \<longrightarrow> Count b = word_of_nat (length ops))"
proof (cases "length b < kHeader")
  case True
  then show ?thesis by (intro exI [of _ "[]"]) (simp add: Iterate_def run_def)
next
  case False
  obtain e found t where l: "IterateLoop h (drop kHeader b) 0 s = (e, found, t)"
    by (cases "IterateLoop h (drop kHeader b) 0 s")
  with IterateLoop_prefix [where h = h and input = "drop kHeader b" and n = 0 and s = s] obtain ops where
    "t = run h ops s" "e = None \<longrightarrow> found = word_of_nat (length ops)" by auto
  moreover have "e \<noteq> Some OK" using IterateLoop_not_OK [of h "drop kHeader b" 0 s] l by simp
  ultimately show ?thesis
    using False l by (intro exI [of _ ops]) (cases e, auto simp: Iterate_def)
qed

lemma SetSequence_keeps:
  assumes "represents b ops"
  shows "represents (SetSequence b n) ops" and "Sequence (SetSequence b n) = n"
proof -
  have l: "kHeader \<le> length b" using assms by (simp add: represents_def)
  have "Count (SetSequence b n) = Count b"
    using l by (simp add: Count_def SetSequence_def overwrite_drop kHeader_def)
  with assms l show "represents (SetSequence b n) ops"
    by (simp add: represents_def SetSequence_def overwrite_drop kHeader_def)
  show "Sequence (SetSequence b n) = n"
    using l overwrite_at [of 0 b "EncodeFixed64 n"]
    by (simp add: Sequence_def SetSequence_def DecodeFixed64_Encode kHeader_def)
qed

text \<open>What the memtable is told: the operations under consecutive sequence numbers.\<close>

fun add_op :: "(u64 \<Rightarrow> ValueType \<Rightarrow> byte list \<Rightarrow> byte list \<Rightarrow> 'm \<Rightarrow> 'm) \<Rightarrow> u64 \<Rightarrow> batch_op \<Rightarrow> 'm \<Rightarrow> 'm" where
  "add_op add n (PutOp k v) m = add n kTypeValue k v m"
| "add_op add n (DeleteOp k) m = add n kTypeDeletion k [] m"

fun add_ops :: "(u64 \<Rightarrow> ValueType \<Rightarrow> byte list \<Rightarrow> byte list \<Rightarrow> 'm \<Rightarrow> 'm) \<Rightarrow> u64 \<Rightarrow> batch_op list \<Rightarrow> 'm \<Rightarrow> 'm" where
  "add_ops add n [] m = m"
| "add_ops add n (x # xs) m = add_ops add (n + 1) xs (add_op add n x m)"

lemma run_inserter:
  "mem (run (MemTableInserter add) ops s) = add_ops add (ins_sequence s) ops (mem s)"
proof (induction ops arbitrary: s)
  case (Cons x ops)
  then show ?case by (cases x) (simp_all add: run_def MemTableInserter_def)
qed (simp add: run_def)

subsection \<open>Properties\<close>

text \<open>
  Theorem (ldb_batch_roundtrip). Iterating over a batch hands the puts and deletes that
  were added to it to the handler, in order and unchanged, and succeeds; keys and values must
  be shorter than 2^32 bytes, as their lengths are stored in 32 bits.
\<close>

theorem ldb_batch_roundtrip:
  assumes "list_all small_op ops"
  shows "Iterate h (foldl apply_op Clear ops) s = (OK, run h ops s)"
  using represents_foldl [OF represents_Clear, of ops] Iterate_represents [OF _ assms] by simp

theorem ldb_batch_roundtrip_witness:
  "Iterate \<lparr>Put_op = (\<lambda>k v s. s @ [(k, v)]), Delete_op = (\<lambda>k s. s @ [(k, [])])\<rparr>
     (Delete (Put Clear [1] [2, 3]) [4]) [] = (OK, [([1], [2, 3]), ([4], [])])"
  using ldb_batch_roundtrip [of "[PutOp [1] [2, 3], DeleteOp [4]]"
      "\<lparr>Put_op = (\<lambda>k v s. s @ [(k, v)]), Delete_op = (\<lambda>k s. s @ [(k, [])])\<rparr>" "[]"]
  by (simp add: run_def)

text \<open>
  Theorem (ldb_batch_append). Appending one batch to another gives a batch that stands for
  the operations of both, in order.
\<close>

theorem ldb_batch_append:
  assumes "list_all small_op xs" and "list_all small_op ys"
  shows "Iterate h (AppendBatch (foldl apply_op Clear xs) (foldl apply_op Clear ys)) s
    = (OK, run h ys (run h xs s))"
proof -
  have "represents (AppendBatch (foldl apply_op Clear xs) (foldl apply_op Clear ys)) (xs @ ys)"
    using represents_append represents_foldl [OF represents_Clear] by fastforce
  from Iterate_represents [OF this, of h s] assms show ?thesis by (simp add: run_def)
qed

theorem ldb_batch_append_witness:
  "Iterate \<lparr>Put_op = (\<lambda>k v s. s @ [(k, v)]), Delete_op = (\<lambda>k s. s @ [(k, [])])\<rparr>
     (AppendBatch (Put Clear [1] [2]) (Delete Clear [4])) [] = (OK, [([1], [2]), ([4], [])])"
  using ldb_batch_append [of "[PutOp [1] [2]]" "[DeleteOp [4]]"
      "\<lparr>Put_op = (\<lambda>k v s. s @ [(k, v)]), Delete_op = (\<lambda>k s. s @ [(k, [])])\<rparr>" "[]"]
  by (simp add: run_def)

text \<open>
  Theorem (ldb_batch_any_bytes). Iterating over arbitrary bytes ends, and what the handler
  has seen is a sequence of operations; success means that the stored count is their number,
  so a batch that was cut behind a record is refused.
\<close>

theorem ldb_batch_any_bytes:
  "\<exists>ops. snd (Iterate h b s) = run h ops s \<and>
     (fst (Iterate h b s) = OK \<longrightarrow> Count b = word_of_nat (length ops))"
  by (rule Iterate_any)

theorem ldb_batch_any_bytes_witness:
  "\<exists>ops. run \<lparr>Put_op = (\<lambda>k v s. s @ [(k, v)]), Delete_op = (\<lambda>k s. s)\<rparr> ops [] = [([1], [2])] \<and>
     Count (Put Clear [1] [2]) = word_of_nat (length ops)"
proof -
  let ?h = "\<lparr>Put_op = (\<lambda>k v s. s @ [(k, v)]), Delete_op = (\<lambda>k s. s)\<rparr> :: (byte list \<times> byte list) list handler"
  have "Iterate ?h (Put Clear [1] [2]) [] = (OK, [([1], [2])])"
    using Iterate_represents [of "Put Clear [1] [2]" "[PutOp [1] [2]]" ?h "[]"]
      represents_apply [OF represents_Clear, of "PutOp [1] [2]"]
    by (simp add: run_def)
  with ldb_batch_any_bytes [of ?h "Put Clear [1] [2]" "[]"] show ?thesis by auto
qed

text \<open>
  Theorem (ldb_batch_insert). Inserting a batch into a memtable gives its operations
  consecutive sequence numbers, from the one stored in the batch on.
\<close>

theorem ldb_batch_insert:
  assumes "list_all small_op ops"
  shows "InsertInto add (SetSequence (foldl apply_op Clear ops) n) m = (OK, add_ops add n ops m)"
proof -
  have "represents (foldl apply_op Clear ops) ops"
    using represents_foldl [OF represents_Clear, of ops] by simp
  note r = SetSequence_keeps [OF this, of n]
  show ?thesis
    by (simp add: InsertInto_def Iterate_represents [OF r(1) assms] r(2) run_inserter)
qed

theorem ldb_batch_insert_witness:
  "InsertInto (\<lambda>n t k v m. m @ [(n, t, k, v)]) (SetSequence (Delete (Put Clear [1] [2]) [3]) 100) []
     = (OK, [(100, kTypeValue, [1], [2]), (101, kTypeDeletion, [3], [])])"
  using ldb_batch_insert [of "[PutOp [1] [2], DeleteOp [3]]" "\<lambda>n t k v m. m @ [(n, t, k, v)]" 100 "[]"]
  by simp

end
