(* ===== verification/LDB_MemTable.thy ===== *)
theory LDB_MemTable
  imports LDB_SkipList LDB_WriteBatch
begin

text \<open>
  The memtable (\<open>db/memtable.cc\<close>): a skip list of encoded entries. \<open>table_holds\<close> says which
  entries a table holds, \<open>history\<close> which additions made it. Its iterator keeps the laws of
  \<open>iterator_laws\<close>; lookups and batches refine a map from keys to results.
\<close>

unbundle bit_operations_syntax

subsection \<open>Entries\<close>

text \<open>
  A \<open>const char*\<close> into the arena is the list of bytes from there to the end of its buffer. A
  length-prefixed slice is read with what follows it; \<open>None\<close> if the prefix is malformed or the
  slice passes the end of the buffer, which the code assumes never happens.
\<close>

definition MemTableSlice :: "byte list \<Rightarrow> (byte list \<times> byte list) option" where
  "MemTableSlice data =
     (case GetVarint32Ptr (take 5 data) of None \<Rightarrow> None
      | Some (len, q) \<Rightarrow>
          let p = drop (length (take 5 data) - length q) data
          in if unat len > length p then None else Some (take (unat len) p, drop (unat len) p))"

definition slice_or_empty :: "byte list \<Rightarrow> byte list" where
  "slice_or_empty data = (case MemTableSlice data of None \<Rightarrow> [] | Some (s, q) \<Rightarrow> s)"

definition KeyComparator :: "comparator \<Rightarrow> byte list \<Rightarrow> byte list \<Rightarrow> int" where
  "KeyComparator c aptr bptr = internal_compare c (slice_or_empty aptr) (slice_or_empty bptr)"

definition EncodeKey :: "byte list \<Rightarrow> byte list" where
  "EncodeKey target = PutVarint32 [] (word_of_nat (length target)) @ target"

subsection \<open>The table\<close>

type_synonym mem_table = "byte list skip_list"

definition NewMemTable :: mem_table where "NewMemTable = NewSkipList []"

definition entry_of :: "byte list \<Rightarrow> u64 \<Rightarrow> byte list \<Rightarrow> byte list" where
  "entry_of key tag value =
     EncodeVarint32 (word_of_nat (length key + 8)) @ key @ EncodeFixed64 tag @
     EncodeVarint32 (word_of_nat (length value)) @ value"

definition MemTableAdd ::
  "comparator \<Rightarrow> u64 \<Rightarrow> ValueType \<Rightarrow> byte list \<Rightarrow> byte list \<Rightarrow> mem_table \<Rightarrow> mem_table option" where
  "MemTableAdd c s type' key value table =
     SkipInsert (KeyComparator c) (entry_of key (PackSequenceAndType s type') value) table"

text \<open>The result of \<open>Get\<close>: \<open>false\<close>, a value, or the status \<open>NotFound\<close>.\<close>

datatype get_result = NotPresent | FoundValue "byte list" | Deleted

text \<open>\<open>None\<close> outside: the search or an entry leaves its memory.\<close>

definition MemTableGet :: "comparator \<Rightarrow> lookup_key \<Rightarrow> mem_table \<Rightarrow> get_result option" where
  "MemTableGet c key table =
     (case SkipIterSeek (KeyComparator c) table (memtable_key key) of
        None \<Rightarrow> None
      | Some None \<Rightarrow> Some NotPresent
      | Some (Some node) \<Rightarrow>
          let entry = sl_key table node
          in case GetVarint32Ptr (take 5 entry) of None \<Rightarrow> None
             | Some (key_length, q) \<Rightarrow>
                 let key_ptr = drop (length (take 5 entry) - length q) entry;
                     key_length = unat key_length
                 in if key_length < 8 \<or> key_length > length key_ptr then None
                    else if Compare c (take (key_length - 8) key_ptr) (lookup_user_key key) = 0
                    then
                      let tag = DecodeFixed64 (drop (key_length - 8) key_ptr)
                      in if tag AND 0xff = 1
                         then map_option (\<lambda>(v, q). FoundValue v) (MemTableSlice (drop key_length key_ptr))
                         else if tag AND 0xff = 0 then Some Deleted else Some NotPresent
                    else Some NotPresent)"

subsection \<open>The iterator\<close>

record mem_iter =
  mi_table :: mem_table
  mi_node :: "nat option"

definition MemTableNewIterator :: "mem_table \<Rightarrow> mem_iter" where
  "MemTableNewIterator table = \<lparr>mi_table = table, mi_node = None\<rparr>"

definition mem_valid :: "mem_iter \<Rightarrow> bool" where
  "mem_valid it \<longleftrightarrow> mi_node it \<noteq> None"

definition mem_move :: "nat option option \<Rightarrow> mem_iter \<Rightarrow> mem_iter option" where
  "mem_move node it = map_option (\<lambda>x. it\<lparr>mi_node := x\<rparr>) node"

definition mem_seek :: "comparator \<Rightarrow> byte list \<Rightarrow> mem_iter \<Rightarrow> mem_iter option" where
  "mem_seek c k it = mem_move (SkipIterSeek (KeyComparator c) (mi_table it) (EncodeKey k)) it"

definition mem_first :: "mem_iter \<Rightarrow> mem_iter option" where
  "mem_first it = mem_move (SkipIterSeekToFirst (mi_table it)) it"

definition mem_last :: "mem_iter \<Rightarrow> mem_iter option" where
  "mem_last it = mem_move (SkipIterSeekToLast (mi_table it)) it"

definition mem_next :: "mem_iter \<Rightarrow> mem_iter option" where
  "mem_next it = mem_move (SkipIterNext (mi_table it) (mi_node it)) it"

definition mem_prev :: "comparator \<Rightarrow> mem_iter \<Rightarrow> mem_iter option" where
  "mem_prev c it = mem_move (SkipIterPrev (KeyComparator c) (mi_table it) (mi_node it)) it"

definition mem_entry :: "mem_iter \<Rightarrow> byte list" where
  "mem_entry it = (case mi_node it of None \<Rightarrow> [] | Some x \<Rightarrow> sl_key (mi_table it) x)"

definition mem_key :: "mem_iter \<Rightarrow> byte list" where
  "mem_key it = slice_or_empty (mem_entry it)"

definition mem_value :: "mem_iter \<Rightarrow> byte list" where
  "mem_value it = (case MemTableSlice (mem_entry it) of None \<Rightarrow> [] | Some (s, q) \<Rightarrow> slice_or_empty q)"

subsection \<open>Reading entries back\<close>

lemma varint_at_pointer:
  "GetVarint32Ptr (take 5 (EncodeVarint32 a @ r)) = Some (a, take (5 - length (EncodeVarint32 a)) r)"
  "drop (length (take 5 (EncodeVarint32 a @ r)) - length (take (5 - length (EncodeVarint32 a)) r)) (EncodeVarint32 a @ r) = r"
proof -
  have t: "take 5 (EncodeVarint32 a @ r) = EncodeVarint32 a @ take (5 - length (EncodeVarint32 a)) r"
    using EncodeVarint32_length [of a] by simp
  show "GetVarint32Ptr (take 5 (EncodeVarint32 a @ r)) = Some (a, take (5 - length (EncodeVarint32 a)) r)"
    unfolding t by (rule GetVarint32Ptr_reads)
  show "drop (length (take 5 (EncodeVarint32 a @ r)) - length (take (5 - length (EncodeVarint32 a)) r)) (EncodeVarint32 a @ r) = r"
    unfolding t by simp
qed

lemma MemTableSlice_reads:
  assumes "length s < 2 ^ 32"
  shows "MemTableSlice (EncodeVarint32 (word_of_nat (length s)) @ s @ r) = Some (s, r)"
  using unat_of_nat_u32 [OF assms] by (simp only: MemTableSlice_def varint_at_pointer Let_def option.case prod.case) simp

text \<open>An internal key with its value, as it lies in the table.\<close>

definition encode_entry :: "byte list \<times> byte list \<Rightarrow> byte list" where
  "encode_entry = (\<lambda>(k, v). EncodeVarint32 (word_of_nat (length k)) @ k @ EncodeVarint32 (word_of_nat (length v)) @ v)"

definition small_entry :: "byte list \<times> byte list \<Rightarrow> bool" where
  "small_entry = (\<lambda>(k, v). 8 \<le> length k \<and> length k < 2 ^ 32 \<and> length v < 2 ^ 32)"

definition table_key_ok :: "byte list \<Rightarrow> bool" where
  "table_key_ok e \<longleftrightarrow> (\<exists>k q. MemTableSlice e = Some (k, q) \<and> 8 \<le> length k)"

lemma entry_slices:
  assumes "small_entry (k, v)"
  shows "MemTableSlice (encode_entry (k, v)) = Some (k, EncodeVarint32 (word_of_nat (length v)) @ v)"
    and "MemTableSlice (EncodeVarint32 (word_of_nat (length v)) @ v) = Some (v, [])"
    and "slice_or_empty (encode_entry (k, v)) = k" and "table_key_ok (encode_entry (k, v))"
  using MemTableSlice_reads [of k "EncodeVarint32 (word_of_nat (length v)) @ v"] MemTableSlice_reads [of v "[]"] assms
  by (simp_all add: small_entry_def encode_entry_def slice_or_empty_def table_key_ok_def)

lemma EncodeKey_slice:
  assumes "8 \<le> length k" and "length k < 2 ^ 32"
  shows "slice_or_empty (EncodeKey k) = k" and "table_key_ok (EncodeKey k)"
  using MemTableSlice_reads [of k "[]"] assms
  by (simp_all add: EncodeKey_def PutVarint32_def slice_or_empty_def table_key_ok_def)

lemma entry_of_encode:
  "entry_of k (PackSequenceAndType n t) v = encode_entry (InternalKey k n t, v)"
  by (simp add: entry_of_def encode_entry_def InternalKey_eq PutFixed64_def)

lemma user_key_order: "user_comparator c \<Longrightarrow> key_order (Compare c) (\<lambda>_. True)"
  by (simp add: user_comparator_def comparator_laws_def)

lemma internal_order:
  assumes "user_comparator c"
  shows "key_order (internal_compare c) (\<lambda>_. True)"
proof
  fix a b d
  show "sgn (internal_compare c b a) = - sgn (internal_compare c a b)"
    by (rule user_comparator.internal_antisym [OF assms])
  show "internal_compare c a d \<le> 0" if "internal_compare c a b \<le> 0" "internal_compare c b d \<le> 0"
    using that by (rule user_comparator.internal_trans [OF assms])
qed

text \<open>The order of entries is that of their internal keys.\<close>

lemma mem_key_order:
  assumes "user_comparator c"
  shows "key_order (KeyComparator c) table_key_ok"
proof
  fix a b d
  show "sgn (KeyComparator c b a) = - sgn (KeyComparator c a b)"
    unfolding KeyComparator_def by (rule user_comparator.internal_antisym [OF assms])
  show "KeyComparator c a d \<le> 0" if "KeyComparator c a b \<le> 0" "KeyComparator c b d \<le> 0"
    using that unfolding KeyComparator_def by (rule user_comparator.internal_trans [OF assms])
qed

subsection \<open>What a table holds\<close>

definition table_holds :: "comparator \<Rightarrow> mem_table \<Rightarrow> entries \<Rightarrow> bool" where
  "table_holds c table es \<longleftrightarrow> user_comparator c \<and> list_all small_entry es \<and>
     skip_holds (KeyComparator c) table_key_ok table (map encode_entry es)"

lemma small_slice: "small_entry x \<Longrightarrow> slice_or_empty (encode_entry x) = fst x \<and> table_key_ok (encode_entry x)"
  using entry_slices(3,4) [of "fst x" "snd x"] by simp

lemma below_entries:
  assumes "list_all small_entry es" and "slice_or_empty e = k"
  shows "takeWhile (\<lambda>x. KeyComparator c x e < 0) (map encode_entry es) =
      map encode_entry (takeWhile (\<lambda>(k', v'). internal_compare c k' k < 0) es)"
    and "dropWhile (\<lambda>x. KeyComparator c x e < 0) (map encode_entry es) =
      map encode_entry (dropWhile (\<lambda>(k', v'). internal_compare c k' k < 0) es)"
  using assms(1)
  by (induction es) (auto simp: KeyComparator_def small_slice assms(2))

lemma NewMemTable_holds: "user_comparator c \<Longrightarrow> table_holds c NewMemTable []"
  by (simp add: table_holds_def NewMemTable_def new_skip_list_holds)

lemma MemTableAdd_holds:
  assumes "table_holds c table es" and "small_entry (InternalKey k n t, v)"
    and "\<forall>(k', v') \<in> set es. internal_compare c k' (InternalKey k n t) \<noteq> 0"
  defines "P \<equiv> \<lambda>(k', v' :: byte list). internal_compare c k' (InternalKey k n t) < 0"
  shows "\<exists>table'. MemTableAdd c n t k v table = Some table' \<and>
    table_holds c table' (takeWhile P es @ (InternalKey k n t, v) # dropWhile P es)"
proof -
  let ?ik = "InternalKey k n t"
  have c: "user_comparator c" and s: "list_all small_entry es"
    and h: "skip_holds (KeyComparator c) table_key_ok table (map encode_entry es)"
    using assms(1) by (simp_all add: table_holds_def)
  note e = small_slice [OF assms(2)]
  have "\<forall>x \<in> set (map encode_entry es). KeyComparator c x (encode_entry (?ik, v)) \<noteq> 0"
    using assms(3) s e by (auto simp: KeyComparator_def small_slice list_all_iff)
  from key_order.insert_holds [OF mem_key_order [OF c] h _ this] e
  obtain table' where "SkipInsert (KeyComparator c) (encode_entry (?ik, v)) table = Some table'"
    "skip_holds (KeyComparator c) table_key_ok table'
      (map encode_entry (takeWhile P es @ (?ik, v) # dropWhile P es))"
    using below_entries [OF s, of "encode_entry (?ik, v)" ?ik c] by (auto simp: P_def)
  moreover have "list_all small_entry (takeWhile P es @ (?ik, v) # dropWhile P es)"
    using s assms(2) by (auto simp: list_all_iff dest: set_takeWhileD set_dropWhileD)
  ultimately show ?thesis using c by (auto simp: MemTableAdd_def entry_of_encode table_holds_def)
qed

definition found_at :: "comparator \<Rightarrow> byte list \<Rightarrow> entries \<Rightarrow> get_result" where
  "found_at c u es =
     (case es of [] \<Rightarrow> NotPresent
      | (k, v) # es' \<Rightarrow>
          if Compare c (ExtractUserKey k) u = 0
          then if key_trailer k AND 0xff = 1 then FoundValue v
               else if key_trailer k AND 0xff = 0 then Deleted else NotPresent
          else NotPresent)"

lemma memtable_key_encode: "memtable_key (LookupKey u s) = EncodeKey (InternalKey u s kTypeValue)"
  by (simp add: memtable_key_def LookupKey_def Let_def EncodeKey_def PutVarint32_def InternalKey_eq PutFixed64_def
      kValueTypeForSeek_def)

lemma trailer_in_entry: "8 \<le> length k \<Longrightarrow> DecodeFixed64 (drop (length k - 8) k @ r) = key_trailer k"
  by (simp add: key_trailer_def DecodeFixed64_def)

lemma MemTableGet_holds:
  assumes "table_holds c table es" and "length u + 8 < 2 ^ 32"
  shows "MemTableGet c (LookupKey u s) table =
    Some (found_at c u (dropWhile (\<lambda>(k, v). internal_compare c k (InternalKey u s kTypeValue) < 0) es))"
proof -
  let ?ik = "InternalKey u s kTypeValue" and ?e = "memtable_key (LookupKey u s)"
  have c: "user_comparator c" and sm: "list_all small_entry es"
    and h: "skip_holds (KeyComparator c) table_key_ok table (map encode_entry es)"
    using assms(1) by (simp_all add: table_holds_def)
  obtain hh ns where inv: "skip_inv (KeyComparator c) table_key_ok table hh ns"
    and ks: "map (sl_key table) ns = map encode_entry es" using h by (auto simp: skip_holds_def)
  have ek: "slice_or_empty ?e = ?ik" "table_key_ok ?e"
    using assms(2) EncodeKey_slice [of ?ik] by (simp_all add: memtable_key_encode InternalKey_eq PutFixed64_def)
  let ?P = "\<lambda>y. KeyComparator c (sl_key table y) ?e < 0" and ?Q = "\<lambda>(k, v). internal_compare c k ?ik < 0"
  obtain prev where f: "FindGreaterOrEqual (KeyComparator c) table ?e =
      Some ((case dropWhile ?P ns of [] \<Rightarrow> None | y # ys \<Rightarrow> Some y), prev)"
    using key_order.find_ge_inv [OF mem_key_order [OF c] inv ek(2)] by blast
  have d: "map (sl_key table) (dropWhile ?P ns) = map encode_entry (dropWhile ?Q es)"
    using below_entries(2) [OF sm ek(1), of c] arg_cong [OF ks, of "dropWhile (\<lambda>x. KeyComparator c x ?e < 0)"]
    by (simp add: dropWhile_map o_def)
  show ?thesis
  proof (cases "dropWhile ?P ns")
    case Nil
    with d have q: "dropWhile ?Q es = []" by (metis map_is_Nil_conv)
    show ?thesis unfolding MemTableGet_def SkipIterSeek_def f Nil q by (simp add: found_at_def)
  next
    case (Cons y ys)
    then obtain k v es' where q: "dropWhile ?Q es = (k, v) # es'" and y: "sl_key table y = encode_entry (k, v)"
      using d by (cases "dropWhile ?Q es") auto
    have "(k, v) \<in> set es" using q by (metis list.set_intros(1) set_dropWhileD)
    then have small: "small_entry (k, v)" using sm by (simp add: list_all_iff)
    then have kl: "unat (word_of_nat (length k) :: u32) = length k" "8 \<le> length k"
      by (simp_all add: small_entry_def unat_of_nat_u32)
    have lu: "lookup_user_key (LookupKey u s) = u" by (rule LookupKey_parts(2))
    show ?thesis
      unfolding MemTableGet_def SkipIterSeek_def f Cons q found_at_def
      by (simp only: list.case option.case option.map fst_conv prod.case Let_def y encode_entry_def varint_at_pointer lu kl)
        (use kl entry_slices(2) [OF small] in \<open>simp add: trailer_in_entry ExtractUserKey_def\<close>)
  qed
qed

subsection \<open>Operations on the table as a history\<close>

text \<open>
  The entries added to the table with their sequence numbers. A reader at snapshot \<open>s\<close> sees,
  of the entries for its key that are not newer than \<open>s\<close>, the newest.
\<close>

type_synonym mem_op = "u64 \<times> ValueType \<times> byte list \<times> byte list"

definition op_entry :: "mem_op \<Rightarrow> byte list \<times> byte list" where
  "op_entry = (\<lambda>(n, t, k, v). (InternalKey k n t, v))"

definition op_ok :: "mem_op \<Rightarrow> bool" where
  "op_ok = (\<lambda>(n, t, k, v). n \<le> kMaxSequenceNumber \<and> length k + 8 < 2 ^ 32 \<and> length v < 2 ^ 32)"

definition same_slot :: "comparator \<Rightarrow> mem_op \<Rightarrow> mem_op \<Rightarrow> bool" where
  "same_slot c = (\<lambda>(n, t, k, v) (n', t', k', v'). Compare c k k' = 0 \<and> n = n')"

definition history :: "comparator \<Rightarrow> mem_table \<Rightarrow> mem_op list \<Rightarrow> bool" where
  "history c table ops \<longleftrightarrow> list_all op_ok ops \<and>
     (\<forall>x \<in> set ops. \<forall>y \<in> set ops. same_slot c x y \<longrightarrow> x = y) \<and>
     (\<exists>es. table_holds c table es \<and> set es = op_entry ` set ops)"

definition visible_op :: "comparator \<Rightarrow> byte list \<Rightarrow> u64 \<Rightarrow> mem_op \<Rightarrow> bool" where
  "visible_op c u s = (\<lambda>(n, t, k, v). Compare c k u = 0 \<and> n \<le> s)"

primrec newest :: "comparator \<Rightarrow> byte list \<Rightarrow> u64 \<Rightarrow> mem_op list \<Rightarrow> mem_op option" where
  "newest c u s [] = None"
| "newest c u s (x # xs) =
     (case newest c u s xs of
        None \<Rightarrow> if visible_op c u s x then Some x else None
      | Some y \<Rightarrow> if visible_op c u s x \<and> fst y < fst x then Some x else Some y)"

fun outcome :: "mem_op option \<Rightarrow> get_result" where
  "outcome None = NotPresent"
| "outcome (Some (n, kTypeValue, k, v)) = FoundValue v"
| "outcome (Some (n, kTypeDeletion, k, v)) = Deleted"

lemma newest_None: "newest c u s ops = None \<longleftrightarrow> (\<forall>x \<in> set ops. \<not> visible_op c u s x)"
  by (induction ops) (auto split: option.splits)

lemma newest_Some: "newest c u s ops = Some x \<Longrightarrow>
  x \<in> set ops \<and> visible_op c u s x \<and> (\<forall>y \<in> set ops. visible_op c u s y \<longrightarrow> fst y \<le> fst x)"
proof (induction ops arbitrary: x)
  case (Cons z ops)
  show ?case
  proof (cases "newest c u s ops")
    case None
    with Cons.prems show ?thesis by (auto simp: newest_None split: if_splits)
  next
    case (Some y)
    from Cons.IH [OF this] Cons.prems Some show ?thesis by (auto split: if_splits dest: order.trans)
  qed
qed simp

lemma pack_less:
  assumes "s \<le> kMaxSequenceNumber" and "n \<le> kMaxSequenceNumber"
  shows "PackSequenceAndType s kTypeValue < PackSequenceAndType n t \<longleftrightarrow> s < n"
    and "PackSequenceAndType n' t' \<le> PackSequenceAndType n t \<Longrightarrow> n' \<le> kMaxSequenceNumber \<Longrightarrow> n' \<le> n"
proof -
  have t: "unat (value_code t) \<le> 1" "unat (value_code t') \<le> 1" by (cases t; simp) (cases t'; simp)
  then show "PackSequenceAndType s kTypeValue < PackSequenceAndType n t \<longleftrightarrow> s < n"
    by (auto simp: word_less_nat_alt pack_unat [OF assms(1)] pack_unat [OF assms(2)])
  show "n' \<le> n" if "PackSequenceAndType n' t' \<le> PackSequenceAndType n t" "n' \<le> kMaxSequenceNumber"
    using that(1) t by (auto simp: word_le_nat_alt pack_unat [OF assms(2)] pack_unat [OF that(2)])
qed

lemma op_below:
  assumes "s \<le> kMaxSequenceNumber" and "op_ok (n, t, k, v)"
  shows "internal_compare c (InternalKey k n t) (InternalKey u s kTypeValue) < 0 \<longleftrightarrow>
    Compare c k u < 0 \<or> Compare c k u = 0 \<and> s < n"
  using pack_less(1) [OF assms(1), of n t] assms(2)
  by (auto simp: internal_compare_cases InternalKey_eq op_ok_def)

lemma type_of_trailer:
  assumes "n \<le> kMaxSequenceNumber"
  shows "key_trailer (InternalKey k n t) AND 0xff = value_code t"
proof -
  have m: "x AND 0xff = take_bit 8 x" for x :: u64 by (simp add: take_bit_eq_mask mask_eq_exp_minus_1)
  have c: "unat (value_code t) \<le> 1" by (cases t) simp_all
  have "unat (PackSequenceAndType n t AND 0xff) = unat (value_code t)"
    using c by (simp only: m unsigned_take_bit_eq) (simp add: take_bit_eq_mod pack_unat [OF assms])
  then show ?thesis by (simp add: InternalKey_eq word_unat_eq_iff)
qed

lemma found_op:
  assumes "op_ok (n, t, k, v)" and "Compare c k u = 0"
  shows "found_at c u (op_entry (n, t, k, v) # es) = outcome (Some (n, t, k, v))"
  using type_of_trailer [of n k t] assms
  by (cases t) (simp_all add: found_at_def op_entry_def op_ok_def InternalKey_eq)

lemma table_in_order:
  assumes "table_holds c table es"
  shows "in_order (internal_compare c) es"
proof -
  have "skip_holds (KeyComparator c) table_key_ok table (map encode_entry es)"
    using assms by (simp add: table_holds_def)
  then have "sorted_wrt (\<lambda>x y. KeyComparator c x y < 0) (map encode_entry es)"
  proof -
    assume "skip_holds (KeyComparator c) table_key_ok table (map encode_entry es)"
    then obtain h ns where "skip_inv (KeyComparator c) table_key_ok table h ns"
      and ks: "map encode_entry es = map (sl_key table) ns" by (auto simp: skip_holds_def)
    then show ?thesis unfolding ks by (simp add: skip_inv_def sorted_wrt_map)
  qed
  then have s: "sorted_wrt (\<lambda>x y. KeyComparator c (encode_entry x) (encode_entry y) < 0) es"
    by (simp add: sorted_wrt_map)
  have "\<forall>x \<in> set es. small_entry x" using assms by (simp add: table_holds_def list_all_iff)
  then show ?thesis unfolding in_order_def
    by (intro sorted_wrt_mono_rel [OF _ s]) (auto simp: KeyComparator_def small_slice)
qed

context user_comparator
begin

text \<open>In a sorted list of entries, the first one at or after the sought key is the newest that is visible.\<close>

lemma found_newest:
  assumes io: "in_order (internal_compare c) es" and es: "set es = op_entry ` set ops"
    and oks: "\<forall>x \<in> set ops. op_ok x" and slot: "\<forall>x \<in> set ops. \<forall>y \<in> set ops. same_slot c x y \<longrightarrow> x = y"
    and s: "s \<le> kMaxSequenceNumber"
  shows "found_at c u (dropWhile (\<lambda>(k, v). internal_compare c k (InternalKey u s kTypeValue) < 0) es) =
    outcome (newest c u s ops)"
proof -
  have ok: "op_ok x" if "x \<in> set ops" for x using oks that by blast
  let ?P = "\<lambda>(k, v). internal_compare c k (InternalKey u s kTypeValue) < 0"
  have below: "?P (op_entry (n, t, k, v)) \<longleftrightarrow> Compare c k u < 0 \<or> Compare c k u = 0 \<and> s < n"
    if "(n, t, k, v) \<in> set ops" for n t k v
    using op_below [OF s ok [OF that]] by (simp add: op_entry_def)
  show ?thesis
  proof (cases "dropWhile ?P es")
    case Nil
    then have all: "\<forall>x \<in> set es. ?P x" by (simp add: dropWhile_eq_Nil_conv)
    have "\<not> visible_op c u s x" if x: "x \<in> set ops" for x
    proof -
      obtain n t k v where e: "x = (n, t, k, v)" by (cases x)
      with below [of n t k v] all es x show ?thesis by (auto simp: visible_op_def)
    qed
    then show ?thesis unfolding Nil by (simp add: newest_None [THEN iffD2] found_at_def)
  next
    case (Cons e es')
    then have "e \<in> set es" by (metis list.set_intros(1) set_dropWhileD)
    then obtain n t k v where y: "(n, t, k, v) \<in> set ops" "e = op_entry (n, t, k, v)" using es by auto
    have nb: "\<not> ?P e" using Cons by (simp add: dropWhile_eq_Cons_conv)
    show ?thesis
    proof (cases "newest c u s ops")
      case None
      with nb below [OF y(1)] y have "Compare c k u \<noteq> 0" by (auto simp: newest_None visible_op_def)
      then show ?thesis unfolding Cons by (simp add: None found_at_def y(2) op_entry_def InternalKey_eq)
    next
      case (Some x)
      obtain n' t' k' v' where x: "x = (n', t', k', v')" by (cases x)
      note nx = newest_Some [OF Some, unfolded x]
      have xo: "(n', t', k', v') \<in> set ops" "Compare c k' u = 0" "n' \<le> s" using nx by (simp_all add: visible_op_def)
      have "\<not> ?P (op_entry (n', t', k', v'))" using below [OF xo(1)] xo(2,3) by auto
      moreover have "op_entry (n', t', k', v') \<in> set es" using xo(1) es by auto
      ultimately have "op_entry (n', t', k', v') \<in> set (dropWhile ?P es)"
        by (metis (no_types, lifting) Un_iff set_append set_takeWhileD takeWhile_dropWhile_id)
      then have "op_entry (n', t', k', v') = e \<or> internal_compare c (InternalKey k n t) (InternalKey k' n' t') < 0"
        using io sorted_wrt_dropWhile [of _ es ?P]
        by (fastforce simp: in_order_def Cons y(2) op_entry_def)
      then have le: "internal_compare c (InternalKey k n t) (InternalKey k' n' t') \<le> 0"
      proof
        assume "op_entry (n', t', k', v') = e"
        then have "InternalKey k' n' t' = InternalKey k n t" by (simp add: y(2) op_entry_def)
        then show ?thesis by (simp add: internal_le refl0)
      qed simp
      then have kk: "Compare c k k' \<le> 0" by (auto simp: internal_compare_cases InternalKey_eq split: if_splits)
      have ku: "Compare c k u = 0" "n \<le> s"
        using trans_le [of k k' u] kk xo(2) nb below [OF y(1)] by (auto simp: y(2) not_less)
      have "Compare c k k' = 0" using eq_trans [of k u k'] swap_eq [of k' u] ku(1) xo(2) by simp
      then have pk: "PackSequenceAndType n' t' \<le> PackSequenceAndType n t"
        using le by (simp add: internal_le InternalKey_eq)
      have "n \<le> kMaxSequenceNumber" "n' \<le> kMaxSequenceNumber"
        using ok [OF xo(1)] ok [OF y(1)] by (simp_all add: op_ok_def)
      from pack_less(2) [OF s this(1) pk this(2)] have "n' \<le> n" .
      moreover have "n \<le> n'" using nx y(1) ku by (auto simp: visible_op_def)
      ultimately have "same_slot c (n, t, k, v) (n', t', k', v')"
        using \<open>Compare c k k' = 0\<close> by (simp add: same_slot_def)
      then have "(n, t, k, v) = (n', t', k', v')" using slot y(1) xo(1) by blast
      then show ?thesis unfolding Cons y(2) Some x using found_op [OF ok [OF xo(1)] xo(2)] by simp
    qed
  qed
qed

lemma history_get:
  assumes h: "history c table ops" and s: "s \<le> kMaxSequenceNumber" and u: "length u + 8 < 2 ^ 32"
  shows "MemTableGet c (LookupKey u s) table = Some (outcome (newest c u s ops))"
proof -
  obtain es where es: "table_holds c table es" "set es = op_entry ` set ops" using h by (auto simp: history_def)
  have "\<forall>x \<in> set ops. op_ok x" "\<forall>x \<in> set ops. \<forall>y \<in> set ops. same_slot c x y \<longrightarrow> x = y"
    using h by (auto simp: history_def list_all_iff)
  from found_newest [OF table_in_order [OF es(1)] es(2) this s] show ?thesis
    using MemTableGet_holds [OF es(1) u] by simp
qed

end

text \<open>Adding an entry under a new sequence number.\<close>

lemma NewMemTable_history: "user_comparator c \<Longrightarrow> history c NewMemTable []"
  using NewMemTable_holds by (force simp: history_def)

lemma history_add:
  assumes h: "history c table ops" and ok: "op_ok (n, t, k, v)" and new: "\<forall>x \<in> set ops. \<not> same_slot c (n, t, k, v) x"
  shows "\<exists>table'. MemTableAdd c n t k v table = Some table' \<and> history c table' (ops @ [(n, t, k, v)])"
proof -
  obtain es where es: "table_holds c table es" "set es = op_entry ` set ops" using h by (auto simp: history_def)
  then have uc: "key_order (Compare c) (\<lambda>_. True)" using user_key_order by (simp add: table_holds_def)
  have small: "small_entry (InternalKey k n t, v)"
    using ok by (simp add: op_ok_def small_entry_def InternalKey_eq PutFixed64_def)
  have sym: "same_slot c x y \<longleftrightarrow> same_slot c y x" for x y
    using key_order.swap_eq [OF uc] by (cases x; cases y) (auto simp: same_slot_def)
  have "internal_compare c k' (InternalKey k n t) \<noteq> 0" if e: "(k', v') \<in> set es" for k' v'
  proof
    assume z: "internal_compare c k' (InternalKey k n t) = 0"
    obtain n2 t2 k2 where o: "(n2, t2, k2, v') \<in> set ops" "k' = InternalKey k2 n2 t2"
      using e es(2) by (auto simp: op_entry_def)
    have "op_ok (n2, t2, k2, v')" using h o(1) by (auto simp: history_def list_all_iff)
    then have b: "n2 \<le> kMaxSequenceNumber" "n \<le> kMaxSequenceNumber" using ok by (simp_all add: op_ok_def)
    have "Compare c k2 k = 0" "PackSequenceAndType n2 t2 = PackSequenceAndType n t"
      using z by (auto simp: o(2) internal_compare_cases InternalKey_eq split: if_splits)
    moreover from this(2) have "n2 = n"
      using pack_less(2) [OF b(2,2), of n2 t2 t] pack_less(2) [OF b(2,1), of n t t2] b by auto
    ultimately have "same_slot c (n2, t2, k2, v') (n, t, k, v)" by (simp add: same_slot_def)
    then show False using new o(1) sym by blast
  qed
  then obtain table' where t: "MemTableAdd c n t k v table = Some table'"
    "table_holds c table' (takeWhile (\<lambda>(k', v'). internal_compare c k' (InternalKey k n t) < 0) es @
       (InternalKey k n t, v) # dropWhile (\<lambda>(k', v'). internal_compare c k' (InternalKey k n t) < 0) es)"
    using MemTableAdd_holds [OF es(1) small] by fastforce
  have "set es = set (takeWhile (\<lambda>(k', v'). internal_compare c k' (InternalKey k n t) < 0) es) \<union>
      set (dropWhile (\<lambda>(k', v'). internal_compare c k' (InternalKey k n t) < 0) es)"
    by (metis set_append takeWhile_dropWhile_id)
  then have "set (takeWhile (\<lambda>(k', v'). internal_compare c k' (InternalKey k n t) < 0) es @
       (InternalKey k n t, v) # dropWhile (\<lambda>(k', v'). internal_compare c k' (InternalKey k n t) < 0) es)
      = op_entry ` set (ops @ [(n, t, k, v)])"
    using es(2) by (auto simp: op_entry_def)
  moreover have "\<forall>x \<in> set (ops @ [(n, t, k, v)]). \<forall>y \<in> set (ops @ [(n, t, k, v)]). same_slot c x y \<longrightarrow> x = y"
    using h new sym by (auto simp: history_def)
  ultimately show ?thesis using t h ok by (auto simp: history_def)
qed

subsection \<open>Batches\<close>

definition MemAdd ::
  "comparator \<Rightarrow> u64 \<Rightarrow> ValueType \<Rightarrow> byte list \<Rightarrow> byte list \<Rightarrow> mem_table option \<Rightarrow> mem_table option" where
  "MemAdd c s t k v m = Option.bind m (MemTableAdd c s t k v)"

fun batch_history :: "u64 \<Rightarrow> batch_op list \<Rightarrow> mem_op list" where
  "batch_history n [] = []"
| "batch_history n (PutOp k v # xs) = (n, kTypeValue, k, v) # batch_history (n + 1) xs"
| "batch_history n (DeleteOp k # xs) = (n, kTypeDeletion, k, []) # batch_history (n + 1) xs"

fun mem_small :: "batch_op \<Rightarrow> bool" where
  "mem_small (PutOp k v) \<longleftrightarrow> length k + 8 < 2 ^ 32 \<and> length v < 2 ^ 32"
| "mem_small (DeleteOp k) \<longleftrightarrow> length k + 8 < 2 ^ 32"

text \<open>What a client expects of a batch: an update of the map from keys to results.\<close>

fun update_view :: "batch_op \<Rightarrow> (byte list \<Rightarrow> get_result) \<Rightarrow> byte list \<Rightarrow> get_result" where
  "update_view (PutOp k v) f = f(k := FoundValue v)"
| "update_view (DeleteOp k) f = f(k := Deleted)"

lemma kMax_unat: "unat kMaxSequenceNumber = 2 ^ 56 - 1"
  by (simp add: kMaxSequenceNumber_def)

lemma unat_next: "unat n + 1 < 2 ^ 64 \<Longrightarrow> unat (n + 1) = unat n + 1" for n :: u64
  by (subst unat_add_lem [THEN iffD1]) simp_all

lemma newest_snoc:
  assumes "visible_op c u s x" and "\<forall>y \<in> set ops. fst y < fst x"
  shows "newest c u s (ops @ [x]) = Some x"
  using assms(2) by (induction ops) (auto simp: assms(1))

lemma newest_snoc_other: "\<not> visible_op c u s x \<Longrightarrow> newest c u s (ops @ [x]) = newest c u s ops"
  by (induction ops) auto

lemma history_batch:
  assumes "history c table ops" and "list_all mem_small xs" and "\<forall>x \<in> set ops. fst x < n"
    and "unat n + length xs \<le> 2 ^ 56"
  shows "\<exists>table'. add_ops (MemAdd c) n xs (Some table) = Some table' \<and>
    history c table' (ops @ batch_history n xs) \<and>
    (\<forall>x \<in> set (ops @ batch_history n xs). unat (fst x) < unat n + length xs)"
  using assms
proof (induction xs arbitrary: table ops n)
  case Nil
  then show ?case by (auto simp: word_less_nat_alt)
next
  case (Cons x xs)
  obtain t k v where x: "x = PutOp k v \<and> t = kTypeValue \<or> x = DeleteOp k \<and> t = kTypeDeletion \<and> v = []"
    by (cases x) auto
  have n: "n \<le> kMaxSequenceNumber" using Cons.prems(4) by (simp add: word_le_nat_alt kMax_unat)
  have ok: "op_ok (n, t, k, v)" using x Cons.prems(2) n by (auto simp: op_ok_def)
  have new: "\<forall>y \<in> set ops. \<not> same_slot c (n, t, k, v) y"
    using Cons.prems(3) by (auto simp: same_slot_def)
  obtain table1 where t1: "MemTableAdd c n t k v table = Some table1" "history c table1 (ops @ [(n, t, k, v)])"
    using history_add [OF Cons.prems(1) ok new] by blast
  have un: "unat (n + 1) = unat n + 1" using Cons.prems(4) by (intro unat_next) simp
  have "\<forall>y \<in> set (ops @ [(n, t, k, v)]). fst y < n + 1"
    using Cons.prems(3) un by (auto simp: word_less_nat_alt)
  from Cons.IH [OF t1(2) _ this] Cons.prems(2,4) un obtain table' where
    "add_ops (MemAdd c) (n + 1) xs (Some table1) = Some table'"
    "history c table' ((ops @ [(n, t, k, v)]) @ batch_history (n + 1) xs)"
    "\<forall>x \<in> set ((ops @ [(n, t, k, v)]) @ batch_history (n + 1) xs). unat (fst x) < unat (n + 1) + length xs" by auto
  moreover have "MemAdd c n t k v (Some table) = Some table1" by (simp add: MemAdd_def t1(1))
  ultimately show ?case using x un by (intro exI [of _ table']) auto
qed

lemma bytewise_cmp: "Compare BytewiseComparator a b = 0 \<longleftrightarrow> a = b"
  by (simp add: BytewiseComparator_def slice_compare_eq)

lemma view_batch:
  assumes "s \<le> kMaxSequenceNumber" and "\<forall>x \<in> set ops. fst x < n" and "unat n + length xs \<le> unat s + 1"
  shows "outcome (newest BytewiseComparator u s (ops @ batch_history n xs)) =
    fold update_view xs (\<lambda>u. outcome (newest BytewiseComparator u s ops)) u"
  using assms(2,3)
proof (induction xs arbitrary: ops n)
  case (Cons x xs)
  obtain t k v where x: "x = PutOp k v \<and> t = kTypeValue \<or> x = DeleteOp k \<and> t = kTypeDeletion \<and> v = []"
    by (cases x) auto
  have s: "unat s < 2 ^ 56" using assms(1) by (simp add: word_le_nat_alt kMax_unat)
  have un: "unat (n + 1) = unat n + 1" using Cons.prems(2) s by (intro unat_next) simp
  have ns: "n \<le> s" using Cons.prems(2) by (simp add: word_le_nat_alt)
  have one: "newest BytewiseComparator u s (ops @ [(n, t, k, v)]) =
      (if u = k then Some (n, t, k, v) else newest BytewiseComparator u s ops)" for u
    using newest_snoc [of BytewiseComparator u s "(n, t, k, v)" ops] Cons.prems(1) ns
      newest_snoc_other [of BytewiseComparator u s "(n, t, k, v)" ops]
    by (auto simp: visible_op_def bytewise_cmp)
  have view: "(\<lambda>u. outcome (newest BytewiseComparator u s (ops @ [(n, t, k, v)]))) =
      update_view x (\<lambda>u. outcome (newest BytewiseComparator u s ops))"
    using x by (auto simp: one fun_eq_iff)
  have "\<forall>y \<in> set (ops @ [(n, t, k, v)]). fst y < n + 1" "unat (n + 1) + length xs \<le> unat s + 1"
    using Cons.prems un by (auto simp: word_less_nat_alt)
  note Cons.IH [OF this, unfolded view]
  then show ?case using x by auto
qed simp

subsection \<open>The iterator of a table\<close>

definition mem_at :: "comparator \<Rightarrow> entries \<Rightarrow> nat \<Rightarrow> mem_iter \<Rightarrow> bool" where
  "mem_at c es i it \<longleftrightarrow> user_comparator c \<and> list_all small_entry es \<and> i \<le> length es \<and>
     (\<exists>h ns. skip_inv (KeyComparator c) table_key_ok (mi_table it) h ns \<and>
       map (sl_key (mi_table it)) ns = map encode_entry es \<and> mi_node it = skip_at ns i)"

definition mem_target_ok :: "byte list \<Rightarrow> bool" where
  "mem_target_ok t \<longleftrightarrow> 8 \<le> length t \<and> length t < 2 ^ 32"

lemma mem_atD:
  assumes "mem_at c es i it"
  shows "\<exists>h ns. key_order (KeyComparator c) table_key_ok \<and>
    skip_inv (KeyComparator c) table_key_ok (mi_table it) h ns \<and>
    map (sl_key (mi_table it)) ns = map encode_entry es \<and> mi_node it = skip_at ns i \<and> length ns = length es \<and>
    (\<forall>j \<le> length es. mem_at c es j (it\<lparr>mi_node := skip_at ns j\<rparr>))"
proof -
  obtain h ns where *: "user_comparator c" "list_all small_entry es"
    "skip_inv (KeyComparator c) table_key_ok (mi_table it) h ns"
    "map (sl_key (mi_table it)) ns = map encode_entry es" "mi_node it = skip_at ns i"
    using assms by (auto simp: mem_at_def)
  have "\<forall>j \<le> length es. mem_at c es j (it\<lparr>mi_node := skip_at ns j\<rparr>)"
    using *(1-4) by (auto simp: mem_at_def)
  with * mem_key_order [OF *(1)] map_eq_imp_length_eq [OF *(4)] show ?thesis by blast
qed

lemma mem_entry_at:
  assumes "mem_at c es i it" and "i < length es"
  shows "mem_valid it" and "mem_key it = fst (es ! i)" and "mem_value it = snd (es ! i)"
proof -
  obtain ns where ns: "map (sl_key (mi_table it)) ns = map encode_entry es" "mi_node it = skip_at ns i"
    using assms(1) unfolding mem_at_def by blast
  note n = ns map_eq_imp_length_eq [OF ns(1)]
  have "map (sl_key (mi_table it)) ns ! i = map encode_entry es ! i" by (simp add: n(1))
  then have e: "mem_entry it = encode_entry (es ! i)" using n(2,3) assms(2) by (simp add: mem_entry_def skip_at_def)
  have small: "small_entry (fst (es ! i), snd (es ! i))" using assms by (simp add: mem_at_def list_all_length)
  from entry_slices [OF small] show "mem_key it = fst (es ! i)" "mem_value it = snd (es ! i)"
    by (simp_all add: mem_key_def mem_value_def e slice_or_empty_def)
  show "mem_valid it" using n(2,3) assms(2) by (simp add: mem_valid_def skip_at_def)
qed

interpretation mem: iterator_laws "internal_compare c" mem_valid mem_key mem_value mem_first mem_last
  "mem_seek c" mem_next "mem_prev c" "mem_at c" mem_target_ok for c
proof unfold_locales
  fix es i it
  assume at: "mem_at c es i it"
  obtain h ns where o: "key_order (KeyComparator c) table_key_ok"
    and inv: "skip_inv (KeyComparator c) table_key_ok (mi_table it) h ns"
    and ks: "map (sl_key (mi_table it)) ns = map encode_entry es" and nd: "mi_node it = skip_at ns i"
    and len: "length ns = length es"
    and go: "\<forall>j \<le> length es. mem_at c es j (it\<lparr>mi_node := skip_at ns j\<rparr>)"
    using mem_atD [OF at] by blast
  have move: "\<exists>r. mem_move (Some (skip_at ns j)) it = Some r \<and> mem_at c es j r" if "j \<le> length es" for j
    using go that by (simp add: mem_move_def)
  show "i \<le> length es" using at by (simp add: mem_at_def)
  then show "mem_valid it = (i < length es)" using nd len by (simp add: mem_valid_def skip_at_def)
  show "mem_key it = fst (es ! i)" "mem_value it = snd (es ! i)" if "i < length es"
    using mem_entry_at [OF at that] by simp_all
  show "\<exists>r. mem_first it = Some r \<and> mem_at c es 0 r"
    using move [of 0] key_order.first_inv [OF o inv] by (simp add: mem_first_def)
  show "\<exists>r. mem_last it = Some r \<and> mem_at c es (length es - 1) r"
    using move [of "length es - 1"] key_order.last_inv [OF o inv] len by (simp add: mem_last_def)
  show "\<exists>r. mem_next it = Some r \<and> mem_at c es (Suc i) r" if "i < length es"
    using move [of "Suc i"] key_order.next_inv [OF o inv] len that nd by (simp add: mem_next_def)
  show "\<exists>r. mem_prev c it = Some r \<and> mem_at c es (if i = 0 then length es else i - 1) r" if "i < length es"
    using move [of "length es"] move [of "i - 1"] key_order.prev_inv [OF o inv, of i] len that nd
    by (simp add: mem_prev_def)
  show "\<exists>r. mem_seek c t it = Some r \<and> mem_at c es (seek_pos (internal_compare c) t es) r"
    if "mem_target_ok t" for t
  proof -
    have t: "slice_or_empty (EncodeKey t) = t" "table_key_ok (EncodeKey t)"
      using EncodeKey_slice [of t] that by (simp_all add: mem_target_ok_def)
    have "list_all small_entry es" using at by (simp add: mem_at_def)
    then have "takeWhile (\<lambda>x. KeyComparator c x (EncodeKey t) < 0) (map (sl_key (mi_table it)) ns) =
        map encode_entry (takeWhile (\<lambda>(k, v). internal_compare c k t < 0) es)"
      unfolding ks by (rule below_entries(1) [OF _ t(1)])
    then have "length (takeWhile (\<lambda>y. KeyComparator c (sl_key (mi_table it) y) (EncodeKey t) < 0) ns) =
        seek_pos (internal_compare c) t es"
      unfolding takeWhile_map o_def seek_pos_def by (rule map_eq_imp_length_eq)
    then show ?thesis
      using move [OF seek_pos_le] key_order.seek_inv [OF o inv t(2)] by (simp add: mem_seek_def)
  qed
qed

lemma new_iterator_at:
  assumes "table_holds c table es"
  shows "mem_at c es (length es) (MemTableNewIterator table)"
proof -
  have c: "user_comparator c" "list_all small_entry es"
    and h: "skip_holds (KeyComparator c) table_key_ok table (map encode_entry es)"
    using assms by (simp_all add: table_holds_def)
  obtain h ns where ns: "skip_inv (KeyComparator c) table_key_ok table h ns" "map encode_entry es = map (sl_key table) ns"
    using h by (auto simp: skip_holds_def)
  have "length ns = length es" using map_eq_imp_length_eq [OF ns(2)] by simp
  with c ns show ?thesis
    by (auto simp: mem_at_def MemTableNewIterator_def skip_at_def intro!: exI [of _ h] exI [of _ ns])
qed

subsection \<open>Properties\<close>

text \<open>
  C30 (ldb_memtable_get). A table into which entries were added under distinct sequence numbers
  answers \<open>Get\<close> with the newest entry of the key that the snapshot may see: its value, that it
  is deleted, or that there is none; and every further addition under a new number succeeds.
\<close>

theorem ldb_memtable_get:
  assumes "history c table ops" and "s \<le> kMaxSequenceNumber" and "length u + 8 < 2 ^ 32"
    and "op_ok (n, t, k, v)" and "\<forall>x \<in> set ops. \<not> same_slot c (n, t, k, v) x"
  shows "MemTableGet c (LookupKey u s) table = Some (outcome (newest c u s ops)) \<and>
    (\<exists>table'. MemTableAdd c n t k v table = Some table' \<and> history c table' (ops @ [(n, t, k, v)]))"
proof -
  have "user_comparator c" using assms(1) by (auto simp: history_def table_holds_def)
  from user_comparator.history_get [OF this assms(1-3)] history_add [OF assms(1,4,5)] show ?thesis by blast
qed

theorem ldb_memtable_get_witness:
  "\<exists>table. MemTableAdd BytewiseComparator 5 kTypeValue [1] [9] NewMemTable = Some table \<and>
    MemTableGet BytewiseComparator (LookupKey [1] 4) NewMemTable = Some NotPresent"
proof -
  have ok: "op_ok (5, kTypeValue, [1], [9])" by (simp add: op_ok_def kMaxSequenceNumber_def)
  have "(4 :: u64) \<le> kMaxSequenceNumber" by (simp add: kMaxSequenceNumber_def)
  from ldb_memtable_get [OF NewMemTable_history [OF bytewise.user_comparator_axioms] this _ ok, of "[1]"]
  show ?thesis by auto
qed

text \<open>
  C12 (ldb_memtable_batch). Inserting a batch whose numbers follow those in the table updates,
  for every snapshot that includes the batch, what \<open>Get\<close> returns exactly as the batch says:
  the last put or delete of a key counts, other keys keep their results.
\<close>

theorem ldb_memtable_batch:
  assumes "history BytewiseComparator table ops" and "\<forall>x \<in> set ops. fst x < n"
    and "list_all mem_small xs" and "unat n + length xs \<le> unat s + 1" and "s \<le> kMaxSequenceNumber"
  shows "\<exists>table'. InsertInto (MemAdd BytewiseComparator) (SetSequence (foldl apply_op Clear xs) n) (Some table) =
      (OK, Some table') \<and> history BytewiseComparator table' (ops @ batch_history n xs) \<and>
    (\<forall>u. length u + 8 < 2 ^ 32 \<longrightarrow>
      MemTableGet BytewiseComparator (LookupKey u s) table' =
        Some (fold update_view xs (\<lambda>u. outcome (newest BytewiseComparator u s ops)) u))"
proof -
  have small: "list_all small_op xs"
  proof -
    have "mem_small x \<Longrightarrow> small_op x" for x by (cases x) auto
    with assms(3) show ?thesis by (auto simp: list_all_iff)
  qed
  have "represents (foldl apply_op Clear xs) xs" using represents_foldl [OF represents_Clear, of xs] by simp
  note r = SetSequence_keeps [OF this, of n]
  have s: "unat s < 2 ^ 56" using assms(5) by (simp add: word_le_nat_alt kMax_unat)
  then obtain table' where t: "add_ops (MemAdd BytewiseComparator) n xs (Some table) = Some table'"
    "history BytewiseComparator table' (ops @ batch_history n xs)"
    using history_batch [OF assms(1,3,2)] assms(4) by auto
  have "InsertInto (MemAdd BytewiseComparator) (SetSequence (foldl apply_op Clear xs) n) (Some table) = (OK, Some table')"
    by (simp add: InsertInto_def Iterate_represents [OF r(1) small] r(2) run_inserter t(1))
  with t(2) bytewise.history_get [OF t(2) assms(5)] view_batch [OF assms(5,2,4)] show ?thesis by auto
qed

theorem ldb_memtable_batch_witness:
  "\<exists>table. InsertInto (MemAdd BytewiseComparator) (SetSequence (Delete (Put Clear [1] [2]) [1]) 7) (Some NewMemTable)
      = (OK, Some table) \<and>
    MemTableGet BytewiseComparator (LookupKey [1] 8) table = Some Deleted"
proof -
  have "(8 :: u64) \<le> kMaxSequenceNumber" by (simp add: kMaxSequenceNumber_def)
  with ldb_memtable_batch [OF NewMemTable_history [OF bytewise.user_comparator_axioms], of 7 "[PutOp [1] [2], DeleteOp [1]]" 8]
  show ?thesis by auto
qed

text \<open>
  C31 (ldb_memtable_iterator). The iterator of a table delivers its entries in the order of
  internal keys, each with its value, forwards from the first, backwards from the last, and
  from the first entry that is not below a target.
\<close>

theorem ldb_memtable_iterator:
  assumes "table_holds c table es" and "mem_target_ok t"
  shows "in_order (internal_compare c) es \<and>
    (\<exists>a. mem_first (MemTableNewIterator table) = Some a \<and>
      walk mem_valid mem_key mem_value mem_next (Suc (length es)) a = Some es) \<and>
    (\<exists>a. mem_last (MemTableNewIterator table) = Some a \<and>
      walk mem_valid mem_key mem_value (mem_prev c) (Suc (length es)) a = Some (rev es)) \<and>
    (\<exists>a. mem_seek c t (MemTableNewIterator table) = Some a \<and>
      walk mem_valid mem_key mem_value mem_next (Suc (length es)) a =
        Some (dropWhile (\<lambda>(k, v). internal_compare c k t < 0) es))"
proof -
  have o: "in_order (internal_compare c) es" by (rule table_in_order [OF assms(1)])
  have c: "user_comparator c" using assms(1) by (simp add: table_holds_def)
  note at = new_iterator_at [OF assms(1)]
  have "sorted_for (internal_compare c) t es"
    using key_order.in_order_sorted_for [OF internal_order [OF c] o] by simp
  from mem.scan_from [OF at assms(2) this] mem.scan [OF at] mem.scan_reverse [OF at] o show ?thesis
    by (simp add: seek_pos_def dropWhile_eq_drop)
qed

theorem ldb_memtable_iterator_witness:
  "\<exists>table a. MemTableAdd BytewiseComparator 5 kTypeValue [1] [9] NewMemTable = Some table \<and>
    mem_seek BytewiseComparator (InternalKey [1] 6 kTypeValue) (MemTableNewIterator table) = Some a \<and>
    walk mem_valid mem_key mem_value mem_next 2 a = Some [(InternalKey [1] 5 kTypeValue, [9])]"
proof -
  let ?es = "[(InternalKey [1] 5 kTypeValue, [9])] :: entries" and ?t = "InternalKey [1] 6 kTypeValue"
  have "small_entry (InternalKey [1] 5 kTypeValue, [9])"
    by (simp add: small_entry_def InternalKey_eq PutFixed64_def)
  from MemTableAdd_holds [OF NewMemTable_holds [OF bytewise.user_comparator_axioms] this] obtain table where
    t: "MemTableAdd BytewiseComparator 5 kTypeValue [1] [9] NewMemTable = Some table"
      "table_holds BytewiseComparator table ?es" by auto
  have l: "(2 :: nat) = Suc (length ?es)" by simp
  have ok: "mem_target_ok ?t" by (simp add: mem_target_ok_def InternalKey_eq PutFixed64_def)
  have "op_ok (5, kTypeValue, [1], [9])" "(6 :: u64) \<le> kMaxSequenceNumber" by (simp_all add: op_ok_def kMaxSequenceNumber_def)
  then have "\<not> internal_compare BytewiseComparator (InternalKey [1] 5 kTypeValue) ?t < 0"
    using op_below [of 6 5 kTypeValue "[1]" "[9]" BytewiseComparator "[1]"] by (simp add: bytewise_cmp BytewiseComparator_def)
  then have "dropWhile (\<lambda>(k, v). internal_compare BytewiseComparator k ?t < 0) ?es = ?es" by simp
  with ldb_memtable_iterator [OF t(2) ok] t(1) show ?thesis unfolding l by auto
qed

end
