(* ===== verification/LDB_Wrapper.thy ===== *)
theory LDB_Wrapper
  imports LDB_Block LDB_MemTable
begin

text \<open>
  Iterators as objects: the virtual functions of an iterator are the record \<open>iterator_ops\<close>, on
  which the iterator wrapper (\<open>table/iterator_wrapper.h\<close>) and the composed iterators rest. An
  implementation of the contract (locale \<open>iterator_impl\<close>) follows a cursor on its entries through
  every sequence of calls, and so does its wrapper. Blocks and memtables are implementations.
\<close>

subsection \<open>Virtual functions and the wrapper\<close>

record 'it iterator_ops =
  op_valid :: "'it \<Rightarrow> bool"
  op_key :: "'it \<Rightarrow> byte list"
  op_value :: "'it \<Rightarrow> byte list"
  op_first :: "'it \<Rightarrow> 'it option"
  op_last :: "'it \<Rightarrow> 'it option"
  op_seek :: "byte list \<Rightarrow> 'it \<Rightarrow> 'it option"
  op_next :: "'it \<Rightarrow> 'it option"
  op_prev :: "'it \<Rightarrow> 'it option"
  op_status :: "'it \<Rightarrow> Status"

text \<open>\<open>None\<close> is the null pointer; the cached key is only meaningful while \<open>w_valid\<close>.\<close>

record 'it wrapper =
  w_iter :: "'it option"
  w_valid :: bool
  w_key :: "byte list"

definition NewWrapper :: "'it wrapper" where
  "NewWrapper = \<lparr>w_iter = None, w_valid = False, w_key = []\<rparr>"

definition WrapUpdate :: "'it iterator_ops \<Rightarrow> 'it \<Rightarrow> 'it wrapper \<Rightarrow> 'it wrapper" where
  "WrapUpdate ops it w =
     w\<lparr>w_iter := Some it, w_valid := op_valid ops it, w_key := if op_valid ops it then op_key ops it else w_key w\<rparr>"

definition WrapSet :: "'it iterator_ops \<Rightarrow> 'it option \<Rightarrow> 'it wrapper \<Rightarrow> 'it wrapper" where
  "WrapSet ops iter w =
     (case iter of None \<Rightarrow> w\<lparr>w_iter := None, w_valid := False\<rparr> | Some it \<Rightarrow> WrapUpdate ops it w)"

definition w_value :: "'it iterator_ops \<Rightarrow> 'it wrapper \<Rightarrow> byte list" where
  "w_value ops w = (case w_iter w of None \<Rightarrow> [] | Some it \<Rightarrow> op_value ops it)"

text \<open>The methods below require that there is an iterator.\<close>

definition w_status :: "'it iterator_ops \<Rightarrow> 'it wrapper \<Rightarrow> Status option" where
  "w_status ops w = map_option (op_status ops) (w_iter w)"

definition wrap_call :: "'it iterator_ops \<Rightarrow> ('it \<Rightarrow> 'it option) \<Rightarrow> 'it wrapper \<Rightarrow> 'it wrapper option" where
  "wrap_call ops f w =
     (case w_iter w of None \<Rightarrow> None | Some it \<Rightarrow> map_option (\<lambda>it. WrapUpdate ops it w) (f it))"

definition WrapNext :: "'it iterator_ops \<Rightarrow> 'it wrapper \<Rightarrow> 'it wrapper option" where
  "WrapNext ops = wrap_call ops (op_next ops)"

definition WrapPrev :: "'it iterator_ops \<Rightarrow> 'it wrapper \<Rightarrow> 'it wrapper option" where
  "WrapPrev ops = wrap_call ops (op_prev ops)"

definition WrapSeek :: "'it iterator_ops \<Rightarrow> byte list \<Rightarrow> 'it wrapper \<Rightarrow> 'it wrapper option" where
  "WrapSeek ops k = wrap_call ops (op_seek ops k)"

definition WrapSeekToFirst :: "'it iterator_ops \<Rightarrow> 'it wrapper \<Rightarrow> 'it wrapper option" where
  "WrapSeekToFirst ops = wrap_call ops (op_first ops)"

definition WrapSeekToLast :: "'it iterator_ops \<Rightarrow> 'it wrapper \<Rightarrow> 'it wrapper option" where
  "WrapSeekToLast ops = wrap_call ops (op_last ops)"

definition wrap_at :: "'it iterator_ops \<Rightarrow> (entries \<Rightarrow> nat \<Rightarrow> 'it \<Rightarrow> bool) \<Rightarrow> entries \<Rightarrow> nat \<Rightarrow> 'it wrapper \<Rightarrow> bool" where
  "wrap_at ops at es i w \<longleftrightarrow>
     (\<exists>it. w_iter w = Some it \<and> at es i it \<and> w_valid w = op_valid ops it \<and> (w_valid w \<longrightarrow> w_key w = op_key ops it))"

locale iterator_impl =
  it: iterator_laws cmp "op_valid ops" "op_key ops" "op_value ops" "op_first ops" "op_last ops" "op_seek ops"
    "op_next ops" "op_prev ops" at target_ok
  for ops :: "'it iterator_ops" and cmp at target_ok
begin

lemma wrap_call_at:
  assumes "wrap_at ops at es i w" and "\<And>it. at es i it \<Longrightarrow> \<exists>r. f it = Some r \<and> at es j r"
  shows "\<exists>w'. wrap_call ops f w = Some w' \<and> wrap_at ops at es j w'"
proof -
  obtain it where it: "w_iter w = Some it" "at es i it" using assms(1) by (auto simp: wrap_at_def)
  from assms(2) [OF it(2)] obtain r where "f it = Some r" "at es j r" by blast
  then show ?thesis by (auto simp: wrap_call_def it wrap_at_def WrapUpdate_def)
qed

lemma wrap_set: "at es i it \<Longrightarrow> wrap_at ops at es i (WrapSet ops (Some it) w)"
  by (simp add: wrap_at_def WrapSet_def WrapUpdate_def)

end

sublocale iterator_impl < wrap: iterator_laws cmp w_valid w_key "w_value ops" "WrapSeekToFirst ops" "WrapSeekToLast ops"
  "WrapSeek ops" "WrapNext ops" "WrapPrev ops" "wrap_at ops at" target_ok
proof unfold_locales
  fix es i w
  assume w: "wrap_at ops at es i w"
  then obtain it where it: "w_iter w = Some it" "at es i it" "w_valid w = op_valid ops it" "w_valid w \<longrightarrow> w_key w = op_key ops it"
    by (auto simp: wrap_at_def)
  show "i \<le> length es" by (rule it.at_le [OF it(2)])
  show "w_valid w = (i < length es)" using it.at_valid [OF it(2)] it(3) by simp
  show "w_key w = fst (es ! i)" if "i < length es"
    using it.at_valid [OF it(2)] it.at_key [OF it(2) that] it(3,4) that by simp
  show "w_value ops w = snd (es ! i)" if "i < length es" using it.at_val [OF it(2) that] it(1) by (simp add: w_value_def)
  show "\<exists>r. WrapSeekToFirst ops w = Some r \<and> wrap_at ops at es 0 r"
    unfolding WrapSeekToFirst_def by (rule wrap_call_at [OF w it.at_first])
  show "\<exists>r. WrapSeekToLast ops w = Some r \<and> wrap_at ops at es (length es - 1) r"
    unfolding WrapSeekToLast_def by (rule wrap_call_at [OF w it.at_last])
  show "\<exists>r. WrapSeek ops t w = Some r \<and> wrap_at ops at es (seek_pos cmp t es) r"
    if "target_ok t" "sorted_for cmp t es" for t
    unfolding WrapSeek_def by (rule wrap_call_at [OF w it.at_seek [OF _ that]])
  show "\<exists>r. WrapNext ops w = Some r \<and> wrap_at ops at es (Suc i) r" if "i < length es"
    unfolding WrapNext_def by (rule wrap_call_at [OF w it.at_next [OF _ that]])
  show "\<exists>r. WrapPrev ops w = Some r \<and> wrap_at ops at es (if i = 0 then length es else i - 1) r" if "i < length es"
    unfolding WrapPrev_def by (rule wrap_call_at [OF w it.at_prev [OF _ that]])
qed

subsection \<open>Sequences of calls\<close>

text \<open>
  What a client sees of an iterator: it makes any sequence of calls that the interface allows.
  On the list of entries the calls are moves of a position, which is the length of the
  list while the iterator is not valid.
\<close>

datatype iter_call = CallSeekToFirst | CallSeekToLast | CallSeek "byte list" | CallNext | CallPrev

fun call_iterator :: "'it iterator_ops \<Rightarrow> iter_call \<Rightarrow> 'it \<Rightarrow> 'it option" where
  "call_iterator ops CallSeekToFirst = op_first ops"
| "call_iterator ops CallSeekToLast = op_last ops"
| "call_iterator ops (CallSeek t) = op_seek ops t"
| "call_iterator ops CallNext = op_next ops"
| "call_iterator ops CallPrev = op_prev ops"

fun call_list :: "(byte list \<Rightarrow> byte list \<Rightarrow> int) \<Rightarrow> entries \<Rightarrow> iter_call \<Rightarrow> nat \<Rightarrow> nat option" where
  "call_list compare_op es CallSeekToFirst i = Some 0"
| "call_list compare_op es CallSeekToLast i = Some (length es - 1)"
| "call_list compare_op es (CallSeek t) i = Some (seek_pos compare_op t es)"
| "call_list compare_op es CallNext i = (if i < length es then Some (Suc i) else None)"
| "call_list compare_op es CallPrev i =
     (if i < length es then Some (if i = 0 then length es else i - 1) else None)"

fun run_calls :: "(iter_call \<Rightarrow> 's \<Rightarrow> 's option) \<Rightarrow> iter_call list \<Rightarrow> 's \<Rightarrow> 's option" where
  "run_calls f [] s = Some s"
| "run_calls f (c # cs) s = Option.bind (f c s) (run_calls f cs)"

fun call_ok :: "(byte list \<Rightarrow> bool) \<Rightarrow> iter_call \<Rightarrow> bool" where
  "call_ok target_ok (CallSeek t) = target_ok t"
| "call_ok target_ok c = True"

text \<open>An iterator that follows its entries through every sequence of allowed calls.\<close>

definition follows ::
  "'it iterator_ops \<Rightarrow> (byte list \<Rightarrow> byte list \<Rightarrow> int) \<Rightarrow> (byte list \<Rightarrow> bool) \<Rightarrow> entries \<Rightarrow> nat \<Rightarrow> 'it \<Rightarrow> bool" where
  "follows ops compare_op target_ok es i it \<longleftrightarrow>
     (\<forall>calls j. list_all (call_ok target_ok) calls \<and> run_calls (call_list compare_op es) calls i = Some j \<longrightarrow>
       (\<exists>r. run_calls (call_iterator ops) calls it = Some r \<and> op_valid ops r = (j < length es) \<and>
         (j < length es \<longrightarrow> op_key ops r = fst (es ! j) \<and> op_value ops r = snd (es ! j))))"

context iterator_impl
begin

lemma call_at:
  assumes "at es i it" and "\<And>t. target_ok t \<Longrightarrow> sorted_for cmp t es"
    and "call_list cmp es c i = Some j" and "call_ok target_ok c"
  shows "\<exists>r. call_iterator ops c it = Some r \<and> at es j r"
  using assms(3,4) it.at_first [OF assms(1)] it.at_last [OF assms(1)] it.at_seek [OF assms(1)]
    it.at_next [OF assms(1)] it.at_prev [OF assms(1)] assms(2)
  by (cases c) (auto split: if_splits)

lemma run_calls_at:
  assumes "at es i it" and "\<And>t. target_ok t \<Longrightarrow> sorted_for cmp t es"
    and "run_calls (call_list cmp es) calls i = Some j" and "list_all (call_ok target_ok) calls"
  shows "\<exists>r. run_calls (call_iterator ops) calls it = Some r \<and> at es j r"
  using assms(1,3,4)
proof (induction calls arbitrary: i it)
  case (Cons c calls)
  then obtain k where k: "call_list cmp es c i = Some k" "run_calls (call_list cmp es) calls k = Some j"
    by (auto simp: bind_eq_Some_conv)
  from call_at [OF Cons.prems(1) assms(2) k(1)] Cons.prems(3) obtain r where
    "call_iterator ops c it = Some r" "at es k r" by auto
  with Cons.IH [OF _ k(2)] Cons.prems(3) show ?case by simp
qed simp

lemma follows_at:
  assumes "at es i it" and "\<And>t. target_ok t \<Longrightarrow> sorted_for cmp t es"
  shows "follows ops cmp target_ok es i it"
  unfolding follows_def
proof (intro allI impI)
  fix calls j
  assume c: "list_all (call_ok target_ok) calls \<and> run_calls (call_list cmp es) calls i = Some j"
  with run_calls_at [OF assms] obtain r where r: "run_calls (call_iterator ops) calls it = Some r" "at es j r" by blast
  with it.at_valid [OF r(2)] it.at_key [OF r(2)] it.at_val [OF r(2)]
  show "\<exists>r. run_calls (call_iterator ops) calls it = Some r \<and> op_valid ops r = (j < length es) \<and>
      (j < length es \<longrightarrow> op_key ops r = fst (es ! j) \<and> op_value ops r = snd (es ! j))" by blast
qed

end

subsection \<open>Blocks and memtables as sources\<close>

definition block_ops :: "(byte list \<Rightarrow> byte list \<Rightarrow> int) \<Rightarrow> block_iter iterator_ops" where
  "block_ops compare_op =
     \<lparr>op_valid = bi_valid, op_key = bi_key, op_value = bi_value, op_first = BlockSeekToFirst, op_last = BlockSeekToLast,
      op_seek = BlockSeek compare_op, op_next = BlockNext, op_prev = BlockPrev, op_status = bi_status\<rparr>"

definition mem_ops :: "comparator \<Rightarrow> mem_iter iterator_ops" where
  "mem_ops c =
     \<lparr>op_valid = mem_valid, op_key = mem_key, op_value = mem_value, op_first = mem_first, op_last = mem_last,
      op_seek = mem_seek c, op_next = mem_next, op_prev = mem_prev c, op_status = (\<lambda>it. OK)\<rparr>"

text \<open>
  \<open>Block::NewIterator\<close> may also return the empty iterator of \<open>table/iterator.cc\<close>, on which
  \<open>Next\<close> and \<open>Prev\<close> are never called.
\<close>

fun any_lift :: "(block_iter \<Rightarrow> block_iter option) \<Rightarrow> any_iter \<Rightarrow> any_iter option" where
  "any_lift f (EmptyIterator s) = Some (EmptyIterator s)"
| "any_lift f (BlockIterator it) = map_option BlockIterator (f it)"

fun any_step :: "(block_iter \<Rightarrow> block_iter option) \<Rightarrow> any_iter \<Rightarrow> any_iter option" where
  "any_step f (EmptyIterator s) = None"
| "any_step f (BlockIterator it) = map_option BlockIterator (f it)"

definition any_ops :: "(byte list \<Rightarrow> byte list \<Rightarrow> int) \<Rightarrow> any_iter iterator_ops" where
  "any_ops compare_op =
     \<lparr>op_valid = (\<lambda>i. case i of EmptyIterator s \<Rightarrow> False | BlockIterator it \<Rightarrow> bi_valid it),
      op_key = (\<lambda>i. case i of EmptyIterator s \<Rightarrow> [] | BlockIterator it \<Rightarrow> bi_key it),
      op_value = (\<lambda>i. case i of EmptyIterator s \<Rightarrow> [] | BlockIterator it \<Rightarrow> bi_value it),
      op_first = any_lift BlockSeekToFirst, op_last = any_lift BlockSeekToLast,
      op_seek = (\<lambda>t. any_lift (BlockSeek compare_op t)), op_next = any_step BlockNext, op_prev = any_step BlockPrev,
      op_status = (\<lambda>i. case i of EmptyIterator s \<Rightarrow> s | BlockIterator it \<Rightarrow> bi_status it)\<rparr>"

fun any_at :: "nat \<Rightarrow> entries \<Rightarrow> nat \<Rightarrow> any_iter \<Rightarrow> bool" where
  "any_at n es i (EmptyIterator s) \<longleftrightarrow> es = [] \<and> i = 0"
| "any_at n es i (BlockIterator it) \<longleftrightarrow> at_entry n es i it"

interpretation any_source: iterator_impl "any_ops compare_op" compare_op "any_at n" "\<lambda>_. True" for compare_op n
proof unfold_locales
  fix es i it
  assume at: "any_at n es i it"
  show "i \<le> length es" using at block.at_le by (cases it) auto
  show "op_valid (any_ops compare_op) it = (i < length es)" using at block.at_valid by (cases it) (auto simp: any_ops_def)
  show "op_key (any_ops compare_op) it = fst (es ! i)" "op_value (any_ops compare_op) it = snd (es ! i)" if "i < length es"
    using at that block.at_key block.at_val by (cases it; auto simp: any_ops_def)+
  show "\<exists>r. op_first (any_ops compare_op) it = Some r \<and> any_at n es 0 r"
    using at block.at_first by (cases it) (force simp: any_ops_def)+
  show "\<exists>r. op_last (any_ops compare_op) it = Some r \<and> any_at n es (length es - 1) r"
    using at block.at_last by (cases it) (force simp: any_ops_def)+
  show "\<exists>r. op_seek (any_ops compare_op) t it = Some r \<and> any_at n es (seek_pos compare_op t es) r"
    if "sorted_for compare_op t es" for t
    using at block.at_seek [of n es i _ compare_op t] that by (cases it) (force simp: any_ops_def seek_pos_def)+
  show "\<exists>r. op_next (any_ops compare_op) it = Some r \<and> any_at n es (Suc i) r" if "i < length es"
    using at block.at_next that by (cases it) (force simp: any_ops_def)+
  show "\<exists>r. op_prev (any_ops compare_op) it = Some r \<and> any_at n es (if i = 0 then length es else i - 1) r"
    if "i < length es"
  proof (cases it)
    case (BlockIterator b)
    with at block.at_prev [of n es i b] that show ?thesis by (fastforce simp: any_ops_def)
  qed (use at that in simp)
qed

interpretation block_source: iterator_impl "block_ops compare_op" compare_op "at_entry n" "\<lambda>_. True" for compare_op n
  unfolding block_ops_def iterator_impl_def iterator_ops.simps by (rule block.iterator_laws_axioms)

interpretation mem_source: iterator_impl "mem_ops c" "internal_compare c" "mem_at c" mem_target_ok for c
  unfolding mem_ops_def iterator_impl_def iterator_ops.simps by (rule mem.iterator_laws_axioms)

end
