(* ===== verification/LDB_Merger.thy ===== *)
theory LDB_Merger
  imports LDB_Wrapper
begin

text \<open>
  The merging iterator (\<open>table/merger.cc\<close>). If its children keep the laws of \<open>iterator_laws\<close>, so
  does the merging iterator, with the entries of all children in order.
\<close>

subsection \<open>The merging iterator\<close>

datatype Direction = kForward | kReverse

record 'it merging_iter =
  mg_children :: "'it wrapper list"
  mg_current :: "nat option"
  mg_direction :: Direction

definition MergingIterator :: "'it iterator_ops \<Rightarrow> 'it list \<Rightarrow> 'it merging_iter" where
  "MergingIterator ops children =
     \<lparr>mg_children = map (\<lambda>c. WrapSet ops (Some c) NewWrapper) children, mg_current = None, mg_direction = kForward\<rparr>"

text \<open>A step of the searches for the smallest and the largest valid child.\<close>

definition pick_child ::
  "(byte list \<Rightarrow> byte list \<Rightarrow> bool) \<Rightarrow> 'it wrapper list \<Rightarrow> nat option \<Rightarrow> nat \<Rightarrow> nat option" where
  "pick_child better children found i =
     (if w_valid (children ! i)
      then case found of None \<Rightarrow> Some i
           | Some j \<Rightarrow> if better (w_key (children ! i)) (w_key (children ! j)) then Some i else found
      else found)"

definition FindSmallest :: "(byte list \<Rightarrow> byte list \<Rightarrow> int) \<Rightarrow> 'it wrapper list \<Rightarrow> nat option" where
  "FindSmallest compare_op children =
     foldl (pick_child (\<lambda>a b. compare_op a b < 0) children) None [0..<length children]"

definition FindLargest :: "(byte list \<Rightarrow> byte list \<Rightarrow> int) \<Rightarrow> 'it wrapper list \<Rightarrow> nat option" where
  "FindLargest compare_op children =
     foldl (pick_child (\<lambda>a b. compare_op a b > 0) children) None (rev [0..<length children])"

primrec each_child :: "(nat \<Rightarrow> 'a \<Rightarrow> 'a option) \<Rightarrow> nat \<Rightarrow> 'a list \<Rightarrow> 'a list option" where
  "each_child f i [] = Some []"
| "each_child f i (x # xs) =
     (case f i x of None \<Rightarrow> None | Some y \<Rightarrow> map_option ((#) y) (each_child f (Suc i) xs))"

definition merge_valid :: "'it merging_iter \<Rightarrow> bool" where
  "merge_valid m \<longleftrightarrow> mg_current m \<noteq> None"

definition merge_key :: "'it merging_iter \<Rightarrow> byte list" where
  "merge_key m = (case mg_current m of None \<Rightarrow> [] | Some c \<Rightarrow> w_key (mg_children m ! c))"

definition merge_value :: "'it iterator_ops \<Rightarrow> 'it merging_iter \<Rightarrow> byte list" where
  "merge_value ops m = (case mg_current m of None \<Rightarrow> [] | Some c \<Rightarrow> w_value ops (mg_children m ! c))"

fun merge_status :: "'it iterator_ops \<Rightarrow> 'it wrapper list \<Rightarrow> Status option" where
  "merge_status ops [] = Some OK"
| "merge_status ops (c # cs) =
     (case w_status ops c of None \<Rightarrow> None | Some s \<Rightarrow> if s \<noteq> OK then Some s else merge_status ops cs)"

definition MergeSeekToFirst ::
  "(byte list \<Rightarrow> byte list \<Rightarrow> int) \<Rightarrow> 'it iterator_ops \<Rightarrow> 'it merging_iter \<Rightarrow> 'it merging_iter option" where
  "MergeSeekToFirst compare_op ops m =
     (case each_child (\<lambda>i. WrapSeekToFirst ops) 0 (mg_children m) of None \<Rightarrow> None
      | Some children \<Rightarrow>
          Some (m\<lparr>mg_children := children, mg_current := FindSmallest compare_op children, mg_direction := kForward\<rparr>))"

definition MergeSeekToLast ::
  "(byte list \<Rightarrow> byte list \<Rightarrow> int) \<Rightarrow> 'it iterator_ops \<Rightarrow> 'it merging_iter \<Rightarrow> 'it merging_iter option" where
  "MergeSeekToLast compare_op ops m =
     (case each_child (\<lambda>i. WrapSeekToLast ops) 0 (mg_children m) of None \<Rightarrow> None
      | Some children \<Rightarrow>
          Some (m\<lparr>mg_children := children, mg_current := FindLargest compare_op children, mg_direction := kReverse\<rparr>))"

definition MergeSeek ::
  "(byte list \<Rightarrow> byte list \<Rightarrow> int) \<Rightarrow> 'it iterator_ops \<Rightarrow> byte list \<Rightarrow> 'it merging_iter \<Rightarrow> 'it merging_iter option" where
  "MergeSeek compare_op ops target m =
     (case each_child (\<lambda>i. WrapSeek ops target) 0 (mg_children m) of None \<Rightarrow> None
      | Some children \<Rightarrow>
          Some (m\<lparr>mg_children := children, mg_current := FindSmallest compare_op children, mg_direction := kForward\<rparr>))"

text \<open>The loops that turn the direction position the children other than the current one.\<close>

definition turn_forward ::
  "(byte list \<Rightarrow> byte list \<Rightarrow> int) \<Rightarrow> 'it iterator_ops \<Rightarrow> byte list \<Rightarrow> 'it wrapper \<Rightarrow> 'it wrapper option" where
  "turn_forward compare_op ops key child =
     (case WrapSeek ops key child of None \<Rightarrow> None
      | Some child \<Rightarrow>
          if w_valid child \<and> compare_op key (w_key child) = 0 then WrapNext ops child else Some child)"

definition turn_reverse :: "'it iterator_ops \<Rightarrow> byte list \<Rightarrow> 'it wrapper \<Rightarrow> 'it wrapper option" where
  "turn_reverse ops key child =
     (case WrapSeek ops key child of None \<Rightarrow> None
      | Some child \<Rightarrow> if w_valid child then WrapPrev ops child else WrapSeekToLast ops child)"

definition MergeNext ::
  "(byte list \<Rightarrow> byte list \<Rightarrow> int) \<Rightarrow> 'it iterator_ops \<Rightarrow> 'it merging_iter \<Rightarrow> 'it merging_iter option" where
  "MergeNext compare_op ops m =
     (case mg_current m of None \<Rightarrow> None
      | Some c \<Rightarrow>
          case if mg_direction m \<noteq> kForward
               then each_child (\<lambda>i child. if i \<noteq> c then turn_forward compare_op ops (merge_key m) child else Some child)
                 0 (mg_children m)
               else Some (mg_children m) of None \<Rightarrow> None
          | Some children \<Rightarrow>
              case WrapNext ops (children ! c) of None \<Rightarrow> None
              | Some child \<Rightarrow>
                  let children = children[c := child]
                  in Some (m\<lparr>mg_children := children, mg_current := FindSmallest compare_op children,
                       mg_direction := kForward\<rparr>))"

definition MergePrev ::
  "(byte list \<Rightarrow> byte list \<Rightarrow> int) \<Rightarrow> 'it iterator_ops \<Rightarrow> 'it merging_iter \<Rightarrow> 'it merging_iter option" where
  "MergePrev compare_op ops m =
     (case mg_current m of None \<Rightarrow> None
      | Some c \<Rightarrow>
          case if mg_direction m \<noteq> kReverse
               then each_child (\<lambda>i child. if i \<noteq> c then turn_reverse ops (merge_key m) child else Some child)
                 0 (mg_children m)
               else Some (mg_children m) of None \<Rightarrow> None
          | Some children \<Rightarrow>
              case WrapPrev ops (children ! c) of None \<Rightarrow> None
              | Some child \<Rightarrow>
                  let children = children[c := child]
                  in Some (m\<lparr>mg_children := children, mg_current := FindLargest compare_op children,
                       mg_direction := kReverse\<rparr>))"

text \<open>\<open>NewMergingIterator\<close> only merges two children or more.\<close>

datatype 'it merged = MergedEmpty | MergedOne 'it | MergedMany "'it merging_iter"


subsection \<open>Tagged entries\<close>

text \<open>
  The entries of all children in one list, in order and each with the index of its child; the
  entries of a child are those with its tag.
\<close>

type_synonym tagged = "(nat \<times> byte list \<times> byte list) list"

definition tag_entries :: "nat \<Rightarrow> tagged \<Rightarrow> entries" where
  "tag_entries j ms = map snd (filter (\<lambda>x. fst x = j) ms)"

definition tag_count :: "nat \<Rightarrow> nat \<Rightarrow> tagged \<Rightarrow> nat" where
  "tag_count j p ms = length (tag_entries j (take p ms))"

lemma tag_entries_split: "tag_entries j ms = tag_entries j (take p ms) @ tag_entries j (drop p ms)"
  unfolding tag_entries_def by (metis append_take_drop_id filter_append map_append)

lemma tag_count_0 [simp]: "tag_count j 0 ms = 0" by (simp add: tag_count_def tag_entries_def)

lemma tag_count_end: "length ms \<le> p \<Longrightarrow> tag_count j p ms = length (tag_entries j ms)"
  by (simp add: tag_count_def)

lemma tag_count_le: "tag_count j p ms \<le> length (tag_entries j ms)"
  unfolding tag_count_def using arg_cong [OF tag_entries_split [of j ms p], of length] by simp

lemma tag_count_Suc:
  "p < length ms \<Longrightarrow> tag_count j (Suc p) ms = tag_count j p ms + (if fst (ms ! p) = j then 1 else 0)"
  by (simp add: tag_count_def tag_entries_def take_Suc_conv_app_nth)

lemma tag_nth:
  assumes "p < length ms" and "fst (ms ! p) = j"
  shows "tag_count j p ms < length (tag_entries j ms)" "tag_entries j ms ! tag_count j p ms = snd (ms ! p)"
proof -
  have "tag_entries j ms = tag_entries j (take p ms) @ snd (ms ! p) # tag_entries j (drop (Suc p) ms)"
    using assms by (subst id_take_nth_drop [OF assms(1)]) (simp add: tag_entries_def)
  then show "tag_count j p ms < length (tag_entries j ms)" "tag_entries j ms ! tag_count j p ms = snd (ms ! p)"
    by (simp_all add: tag_count_def)
qed

lemma tag_next:
  assumes "tag_count j p ms < length (tag_entries j ms)"
  shows "\<exists>q. p \<le> q \<and> q < length ms \<and> fst (ms ! q) = j \<and> tag_count j q ms = tag_count j p ms"
  using assms
proof (induction "length ms - p" arbitrary: p)
  case 0
  then show ?case using tag_count_end [of ms p j] by simp
next
  case (Suc k)
  then have p: "p < length ms" by simp
  show ?case
  proof (cases "fst (ms ! p) = j")
    case True
    with p show ?thesis by blast
  next
    case False
    with p have c: "tag_count j (Suc p) ms = tag_count j p ms" by (simp add: tag_count_Suc)
    from Suc.hyps(1) [of "Suc p"] Suc.hyps(2) Suc.prems c p show ?thesis
      by (metis Suc_leD diff_Suc_Suc Suc_diff_Suc old.nat.inject)
  qed
qed

lemma tag_prev:
  "p \<le> length ms \<Longrightarrow> 0 < tag_count j p ms \<Longrightarrow>
   \<exists>q < p. fst (ms ! q) = j \<and> tag_count j q ms = tag_count j p ms - 1"
proof (induction p)
  case (Suc p)
  then have p: "p < length ms" by simp
  show ?case
  proof (cases "fst (ms ! p) = j")
    case True
    with p show ?thesis by (auto simp: tag_count_Suc)
  next
    case False
    with p have "tag_count j (Suc p) ms = tag_count j p ms" by (simp add: tag_count_Suc)
    with Suc show ?thesis by (metis Suc_leD less_SucI)
  qed
qed simp

lemma in_order_tags: "in_order cmp (map snd ms) \<Longrightarrow> in_order cmp (tag_entries j ms)"
  unfolding in_order_def tag_entries_def sorted_wrt_map by (rule sorted_wrt_filter)

lemma sorted_for_tags: "sorted_for cmp t (map snd ms) \<Longrightarrow> sorted_for cmp t (tag_entries j ms)"
  unfolding sorted_for_def tag_entries_def sorted_wrt_map by (rule sorted_wrt_filter)

lemma in_order_nth:
  "in_order cmp (map snd ms) \<Longrightarrow> p < q \<Longrightarrow> q < length ms \<Longrightarrow> cmp (fst (snd (ms ! p))) (fst (snd (ms ! q))) < 0"
  by (auto simp: in_order_def sorted_wrt_iff_nth_less case_prod_beta)

lemma seek_pos_tags:
  assumes "\<forall>x \<in> set (take p ms). cmp (fst (snd x)) t < 0" and "\<forall>x \<in> set (drop p ms). \<not> cmp (fst (snd x)) t < 0"
  shows "seek_pos cmp t (tag_entries j ms) = tag_count j p ms"
proof -
  have "takeWhile (\<lambda>(k, v). cmp k t < 0) (tag_entries j (take p ms) @ tag_entries j (drop p ms)) = tag_entries j (take p ms)"
  proof (subst takeWhile_append2)
    show "(case x of (k, v) \<Rightarrow> cmp k t < 0)" if "x \<in> set (tag_entries j (take p ms))" for x
      using that assms(1) by (auto simp: tag_entries_def)
    have "takeWhile (\<lambda>(k, v). cmp k t < 0) es = []" if "\<forall>(k, v) \<in> set es. \<not> cmp k t < 0" for es
      using that by (cases es) auto
    then have "takeWhile (\<lambda>(k, v). cmp k t < 0) (tag_entries j (drop p ms)) = []"
      using assms(2) by (force simp: tag_entries_def)
    then show "tag_entries j (take p ms) @ takeWhile (\<lambda>(k, v). cmp k t < 0) (tag_entries j (drop p ms)) = tag_entries j (take p ms)"
      by simp
  qed
  then show ?thesis unfolding seek_pos_def tag_count_def by (subst tag_entries_split [of _ _ p]) simp
qed

lemma sorted_for_split:
  assumes "sorted_for cmp t (map snd ms)" and "p = seek_pos cmp t (map snd ms)"
  shows "\<forall>x \<in> set (take p ms). cmp (fst (snd x)) t < 0" "\<forall>x \<in> set (drop p ms). \<not> cmp (fst (snd x)) t < 0"
proof -
  have le: "p \<le> length ms" using seek_pos_le [of cmp t "map snd ms"] assms(2) by simp
  show "\<forall>x \<in> set (take p ms). cmp (fst (snd x)) t < 0"
  proof
    fix x assume "x \<in> set (take p ms)"
    then obtain i where "i < p" "x = ms ! i" by (auto simp: in_set_conv_nth)
    then show "cmp (fst (snd x)) t < 0" using seek_pos_below [of i cmp t "map snd ms"] le assms(2) by simp
  qed
  show "\<forall>x \<in> set (drop p ms). \<not> cmp (fst (snd x)) t < 0"
  proof
    fix x assume "x \<in> set (drop p ms)"
    then obtain i where "i < length (drop p ms)" "x = drop p ms ! i" by (auto simp: in_set_conv_nth)
    then have i: "p + i < length ms" "x = ms ! (p + i)" by simp_all
    show "\<not> cmp (fst (snd x)) t < 0"
    proof
      assume c: "cmp (fst (snd x)) t < 0"
      have n: "\<not> cmp (fst (snd (ms ! p))) t < 0" using seek_pos_at [of cmp t "map snd ms"] i(1) assms(2) by simp
      show False
      proof (cases i)
        case 0
        with c i n show False by simp
      next
        case (Suc k)
        from sorted_for_nth [OF assms(1), of p "p + i"] Suc i c n show False by simp
      qed
    qed
  qed
qed

lemma each_child_all:
  assumes "\<And>j. j < length xs \<Longrightarrow> \<exists>y. f (i + j) (xs ! j) = Some y \<and> P j y"
  shows "\<exists>ys. each_child f i xs = Some ys \<and> length ys = length xs \<and> (\<forall>j < length xs. P j (ys ! j))"
  using assms
proof (induction xs arbitrary: i P)
  case (Cons x xs)
  from Cons.prems [of 0] obtain y where y: "f i x = Some y" "P 0 y" by auto
  have "\<exists>y. f (Suc i + j) (xs ! j) = Some y \<and> P (Suc j) y" if "j < length xs" for j
    using Cons.prems [of "Suc j"] that by simp
  from Cons.IH [of "Suc i" "\<lambda>j. P (Suc j)", OF this]
  obtain ys where "each_child f (Suc i) xs = Some ys" "length ys = length xs" "\<forall>j < length xs. P (Suc j) (ys ! j)" by blast
  with y show ?case by (intro exI [of _ "y # ys"]) (auto simp: less_Suc_eq_0_disj)
qed simp

lemma pick_best:
  assumes "w_valid (children ! c)"
    and "\<And>j. w_valid (children ! j) \<Longrightarrow> j \<in> set xs \<or> found = Some j \<Longrightarrow> j \<noteq> c \<Longrightarrow>
      better (w_key (children ! c)) (w_key (children ! j)) \<and> \<not> better (w_key (children ! j)) (w_key (children ! c))"
    and "c \<in> set xs \<or> found = Some c" and "\<And>j. found = Some j \<Longrightarrow> w_valid (children ! j)"
    and "\<not> better (w_key (children ! c)) (w_key (children ! c))"
  shows "foldl (pick_child better children) found xs = Some c"
  using assms(2-4)
proof (induction xs arbitrary: found)
  case (Cons x xs)
  let ?found = "pick_child better children found x"
  have sub: "?found = found \<or> ?found = Some x \<and> w_valid (children ! x)"
    by (auto simp: pick_child_def split: option.splits)
  have "c \<in> set xs \<or> ?found = Some c"
  proof (cases "x = c \<or> found = Some c")
    case True
    then show ?thesis
      using assms(1,5) Cons.prems(1) [of x] Cons.prems(1,3)
      by (auto simp: pick_child_def split: option.splits)
  qed (use Cons.prems(2) in auto)
  moreover have "w_valid (children ! j)" if "?found = Some j" for j using that sub Cons.prems(3) by auto
  ultimately have "foldl (pick_child better children) ?found xs = Some c"
    using sub Cons.prems(1) by (intro Cons.IH) auto
  then show ?case by simp
qed (use assms in auto)

lemma pick_none:
  "\<forall>j \<in> set xs. \<not> w_valid (children ! j) \<Longrightarrow> foldl (pick_child better children) None xs = None"
  by (induction xs) (auto simp: pick_child_def)

subsection \<open>Positions of the children\<close>

text \<open>
  At position \<open>p\<close> of the merged entries a child that moves forward stands on its first entry
  from \<open>p\<close> on, one that moves backward on its last entry before \<open>p\<close>.
\<close>

definition back_count :: "nat \<Rightarrow> nat \<Rightarrow> tagged \<Rightarrow> nat" where
  "back_count j p ms = (if tag_count j p ms = 0 then length (tag_entries j ms) else tag_count j p ms - 1)"

definition children_at ::
  "'it iterator_ops \<Rightarrow> (entries \<Rightarrow> nat \<Rightarrow> 'it \<Rightarrow> bool) \<Rightarrow> tagged \<Rightarrow> (nat \<Rightarrow> nat) \<Rightarrow> 'it wrapper list \<Rightarrow> bool" where
  "children_at ops at ms pos' cs \<longleftrightarrow> (\<forall>j < length cs. wrap_at ops at (tag_entries j ms) (pos' j) (cs ! j))"

definition merge_entries_ok ::
  "(byte list \<Rightarrow> byte list \<Rightarrow> int) \<Rightarrow> (byte list \<Rightarrow> bool) \<Rightarrow> (byte list \<Rightarrow> bool) \<Rightarrow> nat \<Rightarrow> tagged \<Rightarrow> bool" where
  "merge_entries_ok cmp kvalid target_ok n ms \<longleftrightarrow> in_order cmp (map snd ms) \<and>
     (\<forall>(j, k, v) \<in> set ms. j < n \<and> kvalid k \<and> target_ok k)"

definition merge_at ::
  "'it iterator_ops \<Rightarrow> (entries \<Rightarrow> nat \<Rightarrow> 'it \<Rightarrow> bool) \<Rightarrow> (byte list \<Rightarrow> byte list \<Rightarrow> int) \<Rightarrow> (byte list \<Rightarrow> bool) \<Rightarrow>
   (byte list \<Rightarrow> bool) \<Rightarrow> entries \<Rightarrow> nat \<Rightarrow> 'it merging_iter \<Rightarrow> bool" where
  "merge_at ops at cmp kvalid target_ok es p m \<longleftrightarrow>
     (\<exists>ms. map snd ms = es \<and> merge_entries_ok cmp kvalid target_ok (length (mg_children m)) ms \<and> p \<le> length ms \<and>
       (\<exists>pos'. children_at ops at ms pos' (mg_children m) \<and>
         (if p < length ms
          then mg_current m = Some (fst (ms ! p)) \<and>
            (if mg_direction m = kForward then \<forall>j < length (mg_children m). pos' j = tag_count j p ms
             else \<forall>j < length (mg_children m). pos' j = back_count j (Suc p) ms)
          else mg_current m = None)))"

locale merge_laws = iterator_impl ops cmp at target_ok + key_order cmp kvalid
  for ops :: "'it iterator_ops" and cmp at target_ok kvalid
begin

lemma child_entry:
  assumes "children_at ops at ms pos' cs" and "j < length cs"
  shows "w_valid (cs ! j) \<longleftrightarrow> pos' j < length (tag_entries j ms)"
    "pos' j < length (tag_entries j ms) \<Longrightarrow> w_key (cs ! j) = fst (tag_entries j ms ! pos' j)"
    "pos' j < length (tag_entries j ms) \<Longrightarrow> w_value ops (cs ! j) = snd (tag_entries j ms ! pos' j)"
  using assms wrap.at_valid wrap.at_key wrap.at_val unfolding children_at_def by blast+

lemma entries_lt:
  assumes "merge_entries_ok cmp kvalid target_ok n ms" and "p < q" and "q < length ms"
  shows "cmp (fst (snd (ms ! p))) (fst (snd (ms ! q))) < 0" "cmp (fst (snd (ms ! q))) (fst (snd (ms ! p))) > 0"
proof -
  show lt: "cmp (fst (snd (ms ! p))) (fst (snd (ms ! q))) < 0"
    using assms in_order_nth [of cmp ms p q] by (simp add: merge_entries_ok_def)
  have "kvalid (fst (snd (ms ! i)))" if "i < length ms" for i
    using assms(1) nth_mem [OF that] by (auto simp: merge_entries_ok_def)
  then show "cmp (fst (snd (ms ! q))) (fst (snd (ms ! p))) > 0" using swap lt assms(2,3) by simp
qed

lemma smallest:
  assumes ok: "merge_entries_ok cmp kvalid target_ok (length cs) ms" and at: "children_at ops at ms (\<lambda>j. tag_count j p ms) cs"
    and p: "p \<le> length ms"
  shows "FindSmallest cmp cs = (if p < length ms then Some (fst (ms ! p)) else None)"
proof (cases "p < length ms")
  case True
  let ?c = "fst (ms ! p)"
  have c: "?c < length cs" using ok nth_mem [OF True] by (force simp: merge_entries_ok_def)
  note e = child_entry [OF at]
  have key_c: "w_valid (cs ! ?c)" "w_key (cs ! ?c) = fst (snd (ms ! p))"
    using e [OF c] tag_nth [OF True refl] by simp_all
  have "cmp (w_key (cs ! ?c)) (w_key (cs ! j)) < 0 \<and> \<not> cmp (w_key (cs ! j)) (w_key (cs ! ?c)) < 0"
    if j: "w_valid (cs ! j)" "j < length cs" "j \<noteq> ?c" for j
  proof -
    from e(1) [OF j(2)] j(1) have l: "tag_count j p ms < length (tag_entries j ms)" by simp
    from tag_next [OF l] obtain q where q: "p \<le> q" "q < length ms" "fst (ms ! q) = j" "tag_count j q ms = tag_count j p ms" by blast
    then have "p < q" using j(3) by (metis le_neq_implies_less)
    moreover have "w_key (cs ! j) = fst (snd (ms ! q))" using e(2) [OF j(2) l] tag_nth(2) [OF q(2,3)] q(4) by simp
    ultimately show ?thesis using entries_lt [OF ok _ q(2), of p] key_c(2) by simp
  qed
  then have "FindSmallest cmp cs = Some ?c" unfolding FindSmallest_def
  proof (intro pick_best)
    show "\<not> cmp (w_key (cs ! ?c)) (w_key (cs ! ?c)) < 0"
      using ok nth_mem [OF True] refl0 key_c(2) by (force simp: merge_entries_ok_def)
  qed (use key_c c in auto)
  with True show ?thesis by simp
next
  case False
  have "\<not> w_valid (cs ! j)" if "j < length cs" for j
    using child_entry(1) [OF at that] False tag_count_end [of ms p j] by simp
  then show ?thesis using False unfolding FindSmallest_def by (simp add: pick_none)
qed

lemma largest:
  assumes ok: "merge_entries_ok cmp kvalid target_ok (length cs) ms" and at: "children_at ops at ms (\<lambda>j. back_count j p ms) cs"
    and p: "p \<le> length ms"
  shows "FindLargest cmp cs = (if p = 0 then None else Some (fst (ms ! (p - 1))))"
proof (cases p)
  case 0
  have "\<not> w_valid (cs ! j)" if "j < length cs" for j
    using child_entry(1) [OF at that] 0 by (simp add: back_count_def)
  then show ?thesis using 0 unfolding FindLargest_def by (simp add: pick_none)
next
  case (Suc m)
  let ?c = "fst (ms ! m)"
  have m: "m < length ms" using Suc p by simp
  have c: "?c < length cs" using ok nth_mem [OF m] by (force simp: merge_entries_ok_def)
  note e = child_entry [OF at]
  have prev: "back_count j p ms < length (tag_entries j ms) \<Longrightarrow>
      \<exists>q < p. fst (ms ! q) = j \<and> tag_count j q ms = back_count j p ms" for j
    using tag_prev [OF p, of j] by (auto simp: back_count_def split: if_splits)
  have "back_count ?c p ms = tag_count ?c m ms" using m Suc by (simp add: back_count_def tag_count_Suc)
  then have key_c: "w_valid (cs ! ?c)" "w_key (cs ! ?c) = fst (snd (ms ! m))"
    using e [OF c] tag_nth [OF m refl] by simp_all
  have "cmp (w_key (cs ! ?c)) (w_key (cs ! j)) > 0 \<and> \<not> cmp (w_key (cs ! j)) (w_key (cs ! ?c)) > 0"
    if j: "w_valid (cs ! j)" "j < length cs" "j \<noteq> ?c" for j
  proof -
    from e(1) [OF j(2)] j(1) have l: "back_count j p ms < length (tag_entries j ms)" by simp
    from prev [OF l] obtain q where q: "q < p" "fst (ms ! q) = j" "tag_count j q ms = back_count j p ms" by blast
    then have q': "q < m" "q < length ms" using j(3) Suc m by (auto simp: less_Suc_eq)
    moreover have "w_key (cs ! j) = fst (snd (ms ! q))" using e(2) [OF j(2) l] tag_nth(2) [OF q'(2) q(2)] q(3) by simp
    ultimately show ?thesis using entries_lt [OF ok _ m, of q] key_c(2) by simp
  qed
  then have "FindLargest cmp cs = Some ?c" unfolding FindLargest_def
  proof (intro pick_best)
    show "\<not> cmp (w_key (cs ! ?c)) (w_key (cs ! ?c)) > 0"
      using ok nth_mem [OF m] refl0 key_c(2) by (force simp: merge_entries_ok_def)
  qed (use key_c c in auto)
  with Suc show ?thesis by simp
qed

lemma each_at:
  assumes "children_at ops at ms pos' cs"
    and "\<And>j c. j < length cs \<Longrightarrow> wrap_at ops at (tag_entries j ms) (pos' j) c \<Longrightarrow> c = cs ! j \<Longrightarrow>
      \<exists>r. f j c = Some r \<and> wrap_at ops at (tag_entries j ms) (new j) r"
  shows "\<exists>cs'. each_child f 0 cs = Some cs' \<and> length cs' = length cs \<and> children_at ops at ms new cs'"
proof -
  have "\<exists>y. f (0 + j) (cs ! j) = Some y \<and> wrap_at ops at (tag_entries j ms) (new j) y" if "j < length cs" for j
    using assms that by (simp add: children_at_def)
  from each_child_all [where P = "\<lambda>j. wrap_at ops at (tag_entries j ms) (new j)", OF this] show ?thesis
    unfolding children_at_def by auto
qed

text \<open>Seeking the key of entry \<open>p\<close> puts a child on its first entry from \<open>p\<close> on.\<close>

lemma seek_key:
  assumes ok: "merge_entries_ok cmp kvalid target_ok n ms" and p: "p < length ms"
    and at: "wrap_at ops at (tag_entries j ms) i c"
  shows "\<exists>r. WrapSeek ops (fst (snd (ms ! p))) c = Some r \<and> wrap_at ops at (tag_entries j ms) (tag_count j p ms) r"
proof -
  let ?k = "fst (snd (ms ! p))"
  have k: "kvalid ?k" "target_ok ?k" and v: "\<And>k v. (k, v) \<in> set (map snd ms) \<Longrightarrow> kvalid k"
    using ok nth_mem [OF p] by (force simp: merge_entries_ok_def)+
  have s: "sorted_for cmp ?k (map snd ms)" using ok v k(1) by (intro in_order_sorted_for) (auto simp: merge_entries_ok_def)
  have "seek_pos cmp ?k (tag_entries j ms) = tag_count j p ms"
  proof (rule seek_pos_tags)
    show "\<forall>x \<in> set (take p ms). cmp (fst (snd x)) ?k < 0"
    proof
      fix x assume "x \<in> set (take p ms)"
      then obtain i where "i < p" "x = ms ! i" using p by (auto simp: in_set_conv_nth)
      then show "cmp (fst (snd x)) ?k < 0" using entries_lt(1) [OF ok _ p, of i] by simp
    qed
    show "\<forall>x \<in> set (drop p ms). \<not> cmp (fst (snd x)) ?k < 0"
    proof
      fix x assume "x \<in> set (drop p ms)"
      then obtain i where "i < length (drop p ms)" "x = drop p ms ! i" by (auto simp: in_set_conv_nth)
      then have i: "p + i < length ms" "x = ms ! (p + i)" by simp_all
      show "\<not> cmp (fst (snd x)) ?k < 0"
        using entries_lt(2) [OF ok _ i(1), of p] refl0 [OF k(1)] i(2) by (cases i) auto
    qed
  qed
  with wrap.at_seek [OF at k(2) sorted_for_tags [OF s]] show ?thesis by simp
qed

lemma merge_atI:
  assumes "merge_entries_ok cmp kvalid target_ok (length cs) ms" and "p \<le> length ms"
    and "children_at ops at ms (\<lambda>j. tag_count j p ms) cs"
  shows "merge_at ops at cmp kvalid target_ok (map snd ms) p
    (m\<lparr>mg_children := cs, mg_current := FindSmallest cmp cs, mg_direction := kForward\<rparr>)"
  unfolding merge_at_def using assms smallest [OF assms(1,3,2)]
  by (intro exI [of _ ms] conjI exI [of _ "\<lambda>j. tag_count j p ms"]) simp_all

lemma merge_at_revI:
  assumes "merge_entries_ok cmp kvalid target_ok (length cs) ms" and "p \<le> length ms"
    and "children_at ops at ms (\<lambda>j. back_count j p ms) cs"
  shows "merge_at ops at cmp kvalid target_ok (map snd ms) (if p = 0 then length ms else p - 1)
    (m\<lparr>mg_children := cs, mg_current := FindLargest cmp cs, mg_direction := kReverse\<rparr>)"
  unfolding merge_at_def using assms largest [OF assms(1,3,2)]
  by (intro exI [of _ ms] conjI exI [of _ "\<lambda>j. back_count j p ms"]) auto

end

context merge_laws
begin

lemma merge_atD:
  assumes "merge_at ops at cmp kvalid target_ok es p m"
  shows "\<exists>ms pos'. es = map snd ms \<and> merge_entries_ok cmp kvalid target_ok (length (mg_children m)) ms \<and> p \<le> length ms \<and>
    children_at ops at ms pos' (mg_children m) \<and>
    (p < length ms \<longrightarrow> mg_current m = Some (fst (ms ! p)) \<and> fst (ms ! p) < length (mg_children m) \<and>
      pos' (fst (ms ! p)) = tag_count (fst (ms ! p)) p ms) \<and>
    (p < length ms \<longrightarrow> mg_direction m = kForward \<longrightarrow> (\<forall>j < length (mg_children m). pos' j = tag_count j p ms)) \<and>
    (p < length ms \<longrightarrow> mg_direction m = kReverse \<longrightarrow> (\<forall>j < length (mg_children m). pos' j = back_count j (Suc p) ms)) \<and>
    (p = length ms \<longrightarrow> mg_current m = None)"
proof -
  from assms obtain ms pos' where ms: "es = map snd ms" "merge_entries_ok cmp kvalid target_ok (length (mg_children m)) ms"
    "p \<le> length ms" "children_at ops at ms pos' (mg_children m)"
    and cur: "if p < length ms
      then mg_current m = Some (fst (ms ! p)) \<and>
        (if mg_direction m = kForward then \<forall>j < length (mg_children m). pos' j = tag_count j p ms
         else \<forall>j < length (mg_children m). pos' j = back_count j (Suc p) ms)
      else mg_current m = None"
    unfolding merge_at_def by blast
  have c: "fst (ms ! p) < length (mg_children m)" if "p < length ms"
    using ms(2) nth_mem [OF that] by (force simp: merge_entries_ok_def)
  moreover have "pos' (fst (ms ! p)) = tag_count (fst (ms ! p)) p ms" if p: "p < length ms"
    using cur p c [OF p] by (cases "mg_direction m = kForward") (simp_all add: back_count_def tag_count_Suc)
  ultimately show ?thesis using cur ms by (intro exI [of _ ms] exI [of _ pos']) (auto split: if_splits)
qed

lemma current_at:
  assumes "merge_at ops at cmp kvalid target_ok es p m"
  shows "merge_valid m \<longleftrightarrow> p < length es"
    "p < length es \<Longrightarrow> merge_key m = fst (es ! p) \<and> merge_value ops m = snd (es ! p)"
proof -
  obtain ms pos' where ms: "es = map snd ms" "p \<le> length ms" "children_at ops at ms pos' (mg_children m)"
    "p < length ms \<longrightarrow> mg_current m = Some (fst (ms ! p)) \<and> fst (ms ! p) < length (mg_children m) \<and>
      pos' (fst (ms ! p)) = tag_count (fst (ms ! p)) p ms"
    "p = length ms \<longrightarrow> mg_current m = None"
    using merge_atD [OF assms] by blast
  from ms(1,2,4,5) show "merge_valid m \<longleftrightarrow> p < length es" by (cases "p = length ms") (auto simp: merge_valid_def)
  assume "p < length es"
  then have p: "p < length ms" using ms(1) by simp
  from mp [OF ms(4) p] child_entry(2,3) [OF ms(3), of "fst (ms ! p)"] tag_nth [OF p refl]
  show "merge_key m = fst (es ! p) \<and> merge_value ops m = snd (es ! p)"
    using p by (simp add: ms(1) merge_key_def merge_value_def)
qed

lemma update_current:
  assumes "children_at ops at ms pos' cs" and "c < length cs" and "wrap_at ops at (tag_entries c ms) i w"
  shows "children_at ops at ms (pos'(c := i)) (cs[c := w])"
  using assms by (simp add: children_at_def nth_list_update)

lemma children_cong:
  "children_at ops at ms f cs \<Longrightarrow> (\<And>j. j < length cs \<Longrightarrow> f j = g j) \<Longrightarrow> children_at ops at ms g cs"
  by (simp add: children_at_def)

lemma merge_next:
  assumes "merge_at ops at cmp kvalid target_ok es p m" and "p < length es"
  shows "\<exists>r. MergeNext cmp ops m = Some r \<and> merge_at ops at cmp kvalid target_ok es (Suc p) r"
proof -
  obtain ms pos' where ms: "es = map snd ms" "merge_entries_ok cmp kvalid target_ok (length (mg_children m)) ms"
    "children_at ops at ms pos' (mg_children m)"
    "p < length ms \<longrightarrow> mg_current m = Some (fst (ms ! p)) \<and> fst (ms ! p) < length (mg_children m) \<and>
      pos' (fst (ms ! p)) = tag_count (fst (ms ! p)) p ms"
    "p < length ms \<longrightarrow> mg_direction m = kForward \<longrightarrow> (\<forall>j < length (mg_children m). pos' j = tag_count j p ms)"
    using merge_atD [OF assms(1)] by blast
  let ?c = "fst (ms ! p)" and ?cs = "mg_children m"
  have p: "p < length ms" using assms(2) ms(1) by simp
  note cur = mp [OF ms(4) p]
  have key: "merge_key m = fst (snd (ms ! p))" using current_at(2) [OF assms] p by (simp add: ms(1))
  let ?turn = "\<lambda>i child. if i \<noteq> ?c then turn_forward cmp ops (merge_key m) child else Some child"
  have "\<exists>cs'. (if mg_direction m \<noteq> kForward then each_child ?turn 0 ?cs else Some ?cs) = Some cs' \<and>
      length cs' = length ?cs \<and> children_at ops at ms (\<lambda>j. tag_count j p ms) cs'"
  proof (cases "mg_direction m = kForward")
    case True
    then show ?thesis using children_cong [OF ms(3)] ms(5) p True by simp
  next
    case False
    have "\<exists>r. ?turn j c = Some r \<and> wrap_at ops at (tag_entries j ms) (tag_count j p ms) r"
      if j: "j < length ?cs" "wrap_at ops at (tag_entries j ms) (pos' j) c" for j c
    proof (cases "j = ?c")
      case True
      with j cur show ?thesis by simp
    next
      case other: False
      obtain r where r: "WrapSeek ops (merge_key m) c = Some r" "wrap_at ops at (tag_entries j ms) (tag_count j p ms) r"
        using seek_key [OF ms(2) p j(2)] key by auto
      have "cmp (merge_key m) (w_key r) \<noteq> 0" if v: "w_valid r"
      proof -
        have l: "tag_count j p ms < length (tag_entries j ms)" using wrap.at_valid [OF r(2)] v by simp
        from tag_next [OF l] obtain q where q: "p \<le> q" "q < length ms" "fst (ms ! q) = j" "tag_count j q ms = tag_count j p ms" by blast
        then have "p < q" using other by (metis le_neq_implies_less)
        moreover have "w_key r = fst (snd (ms ! q))" using wrap.at_key [OF r(2) l] tag_nth(2) [OF q(2,3)] q(4) by simp
        ultimately show ?thesis using entries_lt(1) [OF ms(2) _ q(2), of p] key by simp
      qed
      with r other show ?thesis by (auto simp: turn_forward_def)
    qed
    from each_at [OF ms(3), of ?turn "\<lambda>j. tag_count j p ms", OF this] False show ?thesis by simp
  qed
  then obtain cs' where cs': "(if mg_direction m \<noteq> kForward then each_child ?turn 0 ?cs else Some ?cs) = Some cs'"
    "length cs' = length ?cs" "children_at ops at ms (\<lambda>j. tag_count j p ms) cs'" by blast
  have c: "?c < length cs'" using cur cs'(2) by simp
  then have "wrap_at ops at (tag_entries ?c ms) (tag_count ?c p ms) (cs' ! ?c)" using cs'(3) by (simp add: children_at_def)
  from wrap.at_next [OF this tag_nth(1) [OF p refl]] obtain w where
    w: "WrapNext ops (cs' ! ?c) = Some w" "wrap_at ops at (tag_entries ?c ms) (Suc (tag_count ?c p ms)) w" by blast
  have "children_at ops at ms (\<lambda>j. tag_count j (Suc p) ms) (cs'[?c := w])"
    by (rule children_cong [OF update_current [OF cs'(3) c w(2)]]) (simp add: tag_count_Suc p)
  then have "merge_at ops at cmp kvalid target_ok es (Suc p)
      (m\<lparr>mg_children := cs'[?c := w], mg_current := FindSmallest cmp (cs'[?c := w]), mg_direction := kForward\<rparr>)"
    using merge_atI [of "cs'[?c := w]" ms "Suc p" m] ms(1,2) p cs'(2) by simp
  moreover have "MergeNext cmp ops m =
      Some (m\<lparr>mg_children := cs'[?c := w], mg_current := FindSmallest cmp (cs'[?c := w]), mg_direction := kForward\<rparr>)"
    unfolding MergeNext_def conjunct1 [OF cur] option.case cs'(1) w(1) Let_def ..
  ultimately show ?thesis by blast
qed

lemma merge_prev:
  assumes "merge_at ops at cmp kvalid target_ok es p m" and "p < length es"
  shows "\<exists>r. MergePrev cmp ops m = Some r \<and> merge_at ops at cmp kvalid target_ok es (if p = 0 then length es else p - 1) r"
proof -
  obtain ms pos' where ms: "es = map snd ms" "merge_entries_ok cmp kvalid target_ok (length (mg_children m)) ms"
    "children_at ops at ms pos' (mg_children m)"
    "p < length ms \<longrightarrow> mg_current m = Some (fst (ms ! p)) \<and> fst (ms ! p) < length (mg_children m) \<and>
      pos' (fst (ms ! p)) = tag_count (fst (ms ! p)) p ms"
    "p < length ms \<longrightarrow> mg_direction m = kReverse \<longrightarrow> (\<forall>j < length (mg_children m). pos' j = back_count j (Suc p) ms)"
    using merge_atD [OF assms(1)] by blast
  let ?c = "fst (ms ! p)" and ?cs = "mg_children m"
  have p: "p < length ms" using assms(2) ms(1) by simp
  note cur = mp [OF ms(4) p]
  have key: "merge_key m = fst (snd (ms ! p))" using current_at(2) [OF assms] p by (simp add: ms(1))
  let ?turn = "\<lambda>i child. if i \<noteq> ?c then turn_reverse ops (merge_key m) child else Some child"
  let ?pos = "\<lambda>j. if j = ?c then tag_count j p ms else back_count j p ms"
  have "\<exists>cs'. (if mg_direction m \<noteq> kReverse then each_child ?turn 0 ?cs else Some ?cs) = Some cs' \<and>
      length cs' = length ?cs \<and> children_at ops at ms ?pos cs'"
  proof (cases "mg_direction m = kReverse")
    case True
    have "pos' j = ?pos j" if "j < length ?cs" for j
      using ms(5) p True that p cur by (simp add: back_count_def tag_count_Suc)
    with True show ?thesis using children_cong [OF ms(3)] by simp
  next
    case False
    have "\<exists>r. ?turn j c = Some r \<and> wrap_at ops at (tag_entries j ms) (?pos j) r"
      if j: "j < length ?cs" "wrap_at ops at (tag_entries j ms) (pos' j) c" for j c
    proof (cases "j = ?c")
      case True
      with j cur show ?thesis by simp
    next
      case other: False
      obtain r where r: "WrapSeek ops (merge_key m) c = Some r" "wrap_at ops at (tag_entries j ms) (tag_count j p ms) r"
        using seek_key [OF ms(2) p j(2)] key by auto
      show ?thesis
      proof (cases "w_valid r")
        case True
        then have l: "tag_count j p ms < length (tag_entries j ms)" using wrap.at_valid [OF r(2)] by simp
        from wrap.at_prev [OF r(2) l] True r(1) other show ?thesis by (auto simp: turn_reverse_def back_count_def)
      next
        case end': False
        then have l: "tag_count j p ms = length (tag_entries j ms)"
          using wrap.at_valid [OF r(2)] tag_count_le [of j p ms] by simp
        from wrap.at_last [OF r(2)] end' r(1) other l show ?thesis
          by (auto simp: turn_reverse_def back_count_def)
      qed
    qed
    from each_at [OF ms(3), of ?turn ?pos, OF this] False show ?thesis by (cases "mg_direction m") simp_all
  qed
  then obtain cs' where cs': "(if mg_direction m \<noteq> kReverse then each_child ?turn 0 ?cs else Some ?cs) = Some cs'"
    "length cs' = length ?cs" "children_at ops at ms ?pos cs'" by blast
  have c: "?c < length cs'" using cur cs'(2) by simp
  then have "wrap_at ops at (tag_entries ?c ms) (tag_count ?c p ms) (cs' ! ?c)"
    using spec [OF cs'(3) [unfolded children_at_def], of ?c] by simp
  from wrap.at_prev [OF this tag_nth(1) [OF p refl]] obtain w where
    w: "WrapPrev ops (cs' ! ?c) = Some w" "wrap_at ops at (tag_entries ?c ms) (back_count ?c p ms) w"
    by (auto simp: back_count_def)
  have "children_at ops at ms (\<lambda>j. back_count j p ms) (cs'[?c := w])"
    by (rule children_cong [OF update_current [OF cs'(3) c w(2)]]) simp
  then have "merge_at ops at cmp kvalid target_ok es (if p = 0 then length es else p - 1)
      (m\<lparr>mg_children := cs'[?c := w], mg_current := FindLargest cmp (cs'[?c := w]), mg_direction := kReverse\<rparr>)"
    using merge_at_revI [of "cs'[?c := w]" ms p m] ms(1,2) p cs'(2) by (cases "p = 0") simp_all
  moreover have "MergePrev cmp ops m =
      Some (m\<lparr>mg_children := cs'[?c := w], mg_current := FindLargest cmp (cs'[?c := w]), mg_direction := kReverse\<rparr>)"
    unfolding MergePrev_def conjunct1 [OF cur] option.case cs'(1) w(1) Let_def ..
  ultimately show ?thesis by blast
qed

end

sublocale merge_laws < merge: iterator_laws cmp merge_valid merge_key "merge_value ops" "MergeSeekToFirst cmp ops"
  "MergeSeekToLast cmp ops" "MergeSeek cmp ops" "MergeNext cmp ops" "MergePrev cmp ops" "merge_at ops at cmp kvalid target_ok" target_ok
proof unfold_locales
  fix es p m
  assume m: "merge_at ops at cmp kvalid target_ok es p m"
  then obtain ms pos' where ms: "es = map snd ms" "merge_entries_ok cmp kvalid target_ok (length (mg_children m)) ms"
    "p \<le> length ms" "children_at ops at ms pos' (mg_children m)" using merge_atD by blast
  show "p \<le> length es" using ms(1,3) by simp
  show "merge_valid m = (p < length es)" by (rule current_at [OF m])
  show "merge_key m = fst (es ! p)" "merge_value ops m = snd (es ! p)" if "p < length es"
    using current_at(2) [OF m that] by simp_all
  show "\<exists>r. MergeNext cmp ops m = Some r \<and> merge_at ops at cmp kvalid target_ok es (Suc p) r" if "p < length es"
    by (rule merge_next [OF m that])
  show "\<exists>r. MergePrev cmp ops m = Some r \<and> merge_at ops at cmp kvalid target_ok es (if p = 0 then length es else p - 1) r"
    if "p < length es" by (rule merge_prev [OF m that])
  show "\<exists>r. MergeSeekToFirst cmp ops m = Some r \<and> merge_at ops at cmp kvalid target_ok es 0 r"
  proof -
    have "\<exists>r. WrapSeekToFirst ops c = Some r \<and> wrap_at ops at (tag_entries j ms) (tag_count j 0 ms) r"
      if "wrap_at ops at (tag_entries j ms) (pos' j) c" for j c using wrap.at_first [OF that] by simp
    from each_at [OF ms(4), of "\<lambda>i. WrapSeekToFirst ops" "\<lambda>j. tag_count j 0 ms", OF this] merge_atI [of _ ms 0 m] ms(1,2)
    show ?thesis by (auto simp: MergeSeekToFirst_def)
  qed
  show "\<exists>r. MergeSeekToLast cmp ops m = Some r \<and> merge_at ops at cmp kvalid target_ok es (length es - 1) r"
  proof -
    have "\<exists>r. WrapSeekToLast ops c = Some r \<and> wrap_at ops at (tag_entries j ms) (back_count j (length ms) ms) r"
      if "wrap_at ops at (tag_entries j ms) (pos' j) c" for j c
      using wrap.at_last [OF that] tag_count_end [of ms "length ms" j] by (auto simp: back_count_def)
    from each_at [OF ms(4), of "\<lambda>i. WrapSeekToLast ops" "\<lambda>j. back_count j (length ms) ms", OF this]
      merge_at_revI [of _ ms "length ms" m] ms(1,2)
    show ?thesis by (cases "ms = []") (auto simp: MergeSeekToLast_def)
  qed
  show "\<exists>r. MergeSeek cmp ops t m = Some r \<and> merge_at ops at cmp kvalid target_ok es (seek_pos cmp t es) r"
    if t: "target_ok t" "sorted_for cmp t es" for t
  proof -
    let ?q = "seek_pos cmp t es"
    have s: "seek_pos cmp t (tag_entries j ms) = tag_count j ?q ms" for j
      by (rule seek_pos_tags; rule sorted_for_split [OF t(2) [unfolded ms(1)]]) (simp_all add: ms(1))
    have "\<exists>r. WrapSeek ops t c = Some r \<and> wrap_at ops at (tag_entries j ms) (tag_count j ?q ms) r"
      if "wrap_at ops at (tag_entries j ms) (pos' j) c" for j c
      using wrap.at_seek [OF that t(1)] sorted_for_tags [of cmp t ms j] t(2) s by (simp add: ms(1))
    from each_at [OF ms(4), of "\<lambda>i. WrapSeek ops t" "\<lambda>j. tag_count j ?q ms", OF this] merge_atI [of _ ms ?q m] ms(1,2)
      seek_pos_le [of cmp t es]
    show ?thesis by (auto simp: MergeSeek_def)
  qed
qed

text \<open>A merging iterator is an iterator like its children.\<close>

definition merge_ops :: "(byte list \<Rightarrow> byte list \<Rightarrow> int) \<Rightarrow> 'it iterator_ops \<Rightarrow> 'it merging_iter iterator_ops" where
  "merge_ops compare_op ops =
     \<lparr>op_valid = merge_valid, op_key = merge_key, op_value = merge_value ops, op_first = MergeSeekToFirst compare_op ops,
      op_last = MergeSeekToLast compare_op ops, op_seek = MergeSeek compare_op ops, op_next = MergeNext compare_op ops,
      op_prev = MergePrev compare_op ops,
      op_status = (\<lambda>m. case merge_status ops (mg_children m) of None \<Rightarrow> OK | Some s \<Rightarrow> s)\<rparr>"

sublocale merge_laws < merged: iterator_impl "merge_ops cmp ops" cmp "merge_at ops at cmp kvalid target_ok" target_ok
  unfolding merge_ops_def iterator_impl_def iterator_ops.simps by (rule merge.iterator_laws_axioms)

context merge_laws
begin

lemma new_merging:
  assumes "merge_entries_ok cmp kvalid target_ok (length its) ms"
    and "\<forall>j < length its. at (tag_entries j ms) (length (tag_entries j ms)) (its ! j)"
  shows "merge_at ops at cmp kvalid target_ok (map snd ms) (length ms) (MergingIterator ops its)"
  unfolding merge_at_def using assms
  by (intro exI [of _ ms] conjI exI [of _ "\<lambda>j. length (tag_entries j ms)"])
    (auto simp: MergingIterator_def children_at_def wrap_set)

lemma new_merging_follows:
  assumes "merge_entries_ok cmp kvalid target_ok (length its) ms" and "\<And>t. target_ok t \<Longrightarrow> kvalid t"
    and "\<forall>j < length its. at (tag_entries j ms) (length (tag_entries j ms)) (its ! j)"
  shows "follows (merge_ops cmp ops) cmp target_ok (map snd ms) (length ms) (MergingIterator ops its)"
proof (rule merged.follows_at [OF new_merging [OF assms(1,3)]])
  have "kvalid k" if "(k, v) \<in> set (map snd ms)" for k v using assms(1) that by (force simp: merge_entries_ok_def)
  then show "sorted_for cmp t (map snd ms)" if "target_ok t" for t
    using assms(1,2) that by (intro in_order_sorted_for) (auto simp: merge_entries_ok_def)
qed

end

subsection \<open>Merging memtables\<close>

lemma mem_merge:
  assumes "user_comparator c"
  shows "merge_laws (mem_ops c) (internal_compare c) (mem_at c) mem_target_ok (\<lambda>_. True)"
  by (intro merge_laws.intro mem_source.iterator_impl_axioms internal_order assms)

interpretation bytewise_merge: merge_laws "mem_ops BytewiseComparator" "internal_compare BytewiseComparator"
  "mem_at BytewiseComparator" mem_target_ok "\<lambda>_. True"
  by (rule mem_merge [OF bytewise.user_comparator_axioms])

subsection \<open>Properties\<close>



end
