(* ===== verification/LDB_FilterBlock.thy ===== *)
theory LDB_FilterBlock
  imports LDB_DbFormat
begin

text \<open>
  Filter blocks of tables (\<open>table/filter_block.cc\<close>): the builder, which makes one filter per
  2 KB of block offsets, and the reader. The filter policy is a parameter; the proofs are in
  the locale \<open>filter_policy\<close>, and hold for the Bloom filter through its interpretation.
\<close>

unbundle bit_operations_syntax

subsection \<open>The builder and the reader\<close>

definition kFilterBaseLg :: nat where "kFilterBaseLg = 11"

definition kFilterBase :: u64 where "kFilterBase = push_bit kFilterBaseLg 1"

text \<open>
  \<open>create\<close> and \<open>may_match\<close> are the virtual methods of the policy. The keys are kept
  flattened, with the index where each starts.
\<close>

record FilterBlockBuilder =
  fb_keys :: "byte list"
  fb_start :: "nat list"
  fb_result :: "byte list"
  filter_offsets :: "u32 list"

definition new_builder :: FilterBlockBuilder where
  "new_builder = \<lparr>fb_keys = [], fb_start = [], fb_result = [], filter_offsets = []\<rparr>"

definition GenerateFilter ::
  "(byte list list \<Rightarrow> byte list \<Rightarrow> byte list) \<Rightarrow> FilterBlockBuilder \<Rightarrow> FilterBlockBuilder" where
  "GenerateFilter create b =
     (let num_keys = length (fb_start b)
      in if num_keys = 0
         then b\<lparr>filter_offsets := filter_offsets b @ [word_of_nat (length (fb_result b))]\<rparr>
         else
           let st = fb_start b @ [length (fb_keys b)];
               tmp_keys =
                 map (\<lambda>i. take (st ! (i + 1) - st ! i) (drop (st ! i) (fb_keys b))) [0..<num_keys]
           in b\<lparr>filter_offsets := filter_offsets b @ [word_of_nat (length (fb_result b))],
                fb_result := create tmp_keys (fb_result b), fb_keys := [], fb_start := []\<rparr>)"

lemma GenerateFilter_offsets [simp]:
  "length (filter_offsets (GenerateFilter create b)) = Suc (length (filter_offsets b))"
  by (simp add: GenerateFilter_def Let_def)

text \<open>The loop of \<open>StartBlock\<close>.\<close>

function StartBlockLoop ::
  "(byte list list \<Rightarrow> byte list \<Rightarrow> byte list) \<Rightarrow> nat \<Rightarrow> FilterBlockBuilder \<Rightarrow> FilterBlockBuilder" where
  "StartBlockLoop create filter_index b =
     (if filter_index > length (filter_offsets b)
      then StartBlockLoop create filter_index (GenerateFilter create b) else b)"
  by pat_completeness auto
termination
  by (relation "measure (\<lambda>(create, i, b). i - length (filter_offsets b))") auto

declare StartBlockLoop.simps [simp del]

definition StartBlock ::
  "(byte list list \<Rightarrow> byte list \<Rightarrow> byte list) \<Rightarrow> u64 \<Rightarrow> FilterBlockBuilder \<Rightarrow> FilterBlockBuilder" where
  "StartBlock create block_offset b =
     (let filter_index = block_offset div kFilterBase in StartBlockLoop create (unat filter_index) b)"

definition AddKey :: "byte list \<Rightarrow> FilterBlockBuilder \<Rightarrow> FilterBlockBuilder" where
  "AddKey key b =
     b\<lparr>fb_start := fb_start b @ [length (fb_keys b)], fb_keys := fb_keys b @ key\<rparr>"

definition FilterFinish ::
  "(byte list list \<Rightarrow> byte list \<Rightarrow> byte list) \<Rightarrow> FilterBlockBuilder \<Rightarrow> byte list" where
  "FilterFinish create b =
     (let b = (if fb_start b \<noteq> [] then GenerateFilter create b else b);
          array_offset = word_of_nat (length (fb_result b));
          res = foldl PutFixed32 (fb_result b) (filter_offsets b);
          res = PutFixed32 res array_offset
      in res @ [word_of_nat kFilterBaseLg])"

record FilterBlockReader =
  fr_data :: "byte list"
  fr_offset :: nat
  fr_num :: nat
  fr_base_lg :: nat

text \<open>
  \<open>data_\<close> stays null where the contents are too short or inconsistent, with \<open>num_\<close> 0; the
  offset array starts \<open>fr_offset\<close> bytes behind \<open>data_\<close>. \<open>base_lg_\<close> is a sign-extended char.
\<close>

definition NewFilterBlockReader :: "byte list \<Rightarrow> FilterBlockReader" where
  "NewFilterBlockReader contents =
     (let n = length contents;
          none = \<lparr>fr_data = [], fr_offset = 0, fr_num = 0, fr_base_lg = 0\<rparr>
      in if n < 5 then none
         else
           let lg = unat (scast (contents ! (n - 1)) :: u64);
               last_word = DecodeFixed32 (drop (n - 5) contents)
           in if unat last_word > n - 5 then none\<lparr>fr_base_lg := lg\<rparr>
              else \<lparr>fr_data = contents, fr_offset = unat last_word,
                    fr_num = (n - 5 - unat last_word) div 4, fr_base_lg = lg\<rparr>)"

definition FilterKeyMayMatch ::
  "(byte list \<Rightarrow> byte list \<Rightarrow> bool) \<Rightarrow> FilterBlockReader \<Rightarrow> u64 \<Rightarrow> byte list \<Rightarrow> bool" where
  "FilterKeyMayMatch may_match r block_offset key =
     (let i = unat (drop_bit (fr_base_lg r) block_offset)
      in if i < fr_num r
         then
           let st = unat (DecodeFixed32 (drop (fr_offset r + i * 4) (fr_data r)));
               limit = unat (DecodeFixed32 (drop (fr_offset r + i * 4 + 4) (fr_data r)))
           in if st \<le> limit \<and> limit \<le> fr_offset r
              then may_match key (take (limit - st) (drop st (fr_data r)))
              else if st = limit then False
              else True
         else True)"

subsection \<open>What a builder stands for\<close>

text \<open>
  The keys of each finished filter, and those of the filter being collected. Filters of no
  keys take no bytes.
\<close>

definition flat_keys :: "byte list \<Rightarrow> nat list \<Rightarrow> byte list list" where
  "flat_keys keys st =
     map (\<lambda>i. take ((st @ [length keys]) ! (i + 1) - (st @ [length keys]) ! i)
                (drop ((st @ [length keys]) ! i) keys)) [0..<length st]"

fun starts :: "nat \<Rightarrow> byte list list \<Rightarrow> nat list" where
  "starts n [] = []"
| "starts n (k # ks) = n # starts (n + length k) ks"

lemma starts_length [simp]: "length (starts n ks) = length ks"
  by (induction ks arbitrary: n) simp_all

lemma starts_append: "starts n (ks @ ls) = starts n ks @ starts (n + length (concat ks)) ls"
  by (induction ks arbitrary: n) (simp_all add: ac_simps)

lemma starts_nth: "i \<le> length ks \<Longrightarrow>
  (starts n ks @ [n + length (concat ks)]) ! i = n + length (concat (take i ks))"
proof (induction ks arbitrary: n i)
  case (Cons k ks)
  show ?case
  proof (cases i)
    case (Suc j)
    with Cons(1) [of j "n + length k"] Cons(2) show ?thesis by (simp add: add.assoc)
  qed simp
qed simp

lemma flat_keys_concat: "flat_keys (concat ks) (starts 0 ks) = ks"
proof (rule nth_equalityI)
  show "length (flat_keys (concat ks) (starts 0 ks)) = length ks" by (simp add: flat_keys_def)
  fix i assume "i < length (flat_keys (concat ks) (starts 0 ks))"
  then have i: "i < length ks" by (simp add: flat_keys_def)
  then have t: "take (Suc i) ks = take i ks @ [ks ! i]" by (rule take_Suc_conv_app_nth)
  have s: "(starts 0 ks @ [length (concat ks)]) ! j = length (concat (take j ks))" if "j \<le> length ks" for j
    using starts_nth [OF that, of 0] by simp
  have c: "concat ks = concat (take i ks) @ ks ! i @ concat (drop (Suc i) ks)"
    using id_take_nth_drop [OF i] by (metis concat.simps(2) concat_append)
  have "flat_keys (concat ks) (starts 0 ks) ! i
      = take (length (ks ! i)) (drop (length (concat (take i ks))) (concat ks))"
    using i by (simp add: flat_keys_def s t)
  also have "\<dots> = ks ! i" unfolding arg_cong [OF c, of "drop (length (concat (take i ks)))"] by simp
  finally show "flat_keys (concat ks) (starts 0 ks) ! i = ks ! i" .
qed

text \<open>Blocks with their offsets and keys, as the table builder hands them over.\<close>

fun add_blocks ::
  "(byte list list \<Rightarrow> byte list \<Rightarrow> byte list) \<Rightarrow> (u64 \<times> byte list list) list \<Rightarrow> FilterBlockBuilder
   \<Rightarrow> FilterBlockBuilder" where
  "add_blocks create [] b = b"
| "add_blocks create ((off, ks) # blocks) b =
     add_blocks create blocks (fold AddKey ks (StartBlock create off b))"

text \<open>Where the keys of the blocks are.\<close>

definition holds_keys :: "byte list list list \<Rightarrow> byte list list \<Rightarrow> (u64 \<times> byte list list) list \<Rightarrow> bool" where
  "holds_keys F cur blocks \<longleftrightarrow> (\<forall>(off, ks) \<in> set blocks. \<forall>k \<in> set ks.
     k \<in> set ((F @ [cur]) ! unat (off div kFilterBase)) \<and> unat (off div kFilterBase) \<le> length F)"

lemma holds_mono:
  assumes "holds_keys F cur done" and "G @ [cur'] = F @ (cur @ ks) # H"
  shows "holds_keys G cur' done"
proof -
  have "length F \<le> length G" using arg_cong [OF assms(2), of length] by simp
  then show ?thesis
    using assms(1) unfolding holds_keys_def assms(2)
    by (fastforce simp: nth_append split: if_splits prod.splits)
qed

context filter_policy
begin

definition one_filter :: "byte list list \<Rightarrow> byte list" where
  "one_filter ks = (if ks = [] then [] else create ks [])"

definition filters_bytes :: "byte list list list \<Rightarrow> byte list" where
  "filters_bytes F = concat (map one_filter F)"

definition filters_offsets :: "byte list list list \<Rightarrow> nat list" where
  "filters_offsets F = map (\<lambda>i. length (filters_bytes (take i F))) [0..<length F]"

definition stands_for :: "FilterBlockBuilder \<Rightarrow> byte list list list \<Rightarrow> byte list list \<Rightarrow> bool" where
  "stands_for b F cur \<longleftrightarrow>
     fb_keys b = concat cur \<and> fb_start b = starts 0 cur \<and> fb_result b = filters_bytes F \<and>
     filter_offsets b = map word_of_nat (filters_offsets F)"

lemma stands_new: "stands_for new_builder [] []"
  by (simp add: stands_for_def new_builder_def filters_bytes_def filters_offsets_def)

lemma stands_count: "stands_for b F cur \<Longrightarrow> length (filter_offsets b) = length F"
  by (simp add: stands_for_def filters_offsets_def)

lemma stands_add: "stands_for b F cur \<Longrightarrow> stands_for (AddKey k b) F (cur @ [k])"
  by (simp add: stands_for_def AddKey_def starts_append)

lemma filters_bytes_snoc: "filters_bytes (F @ [ks]) = filters_bytes F @ one_filter ks"
  by (simp add: filters_bytes_def)

lemma filters_offsets_snoc: "filters_offsets (F @ [ks]) = filters_offsets F @ [length (filters_bytes F)]"
  by (simp add: filters_offsets_def)

lemma stands_generate:
  assumes "stands_for b F cur"
  shows "stands_for (GenerateFilter create b) (F @ [cur]) []"
proof (cases "cur = []")
  case True
  with assms show ?thesis
    by (simp add: stands_for_def GenerateFilter_def filters_bytes_snoc filters_offsets_snoc one_filter_def)
next
  case False
  then have "starts 0 cur \<noteq> []" by (metis length_0_conv starts_length)
  moreover have "flat_keys (fb_keys b) (fb_start b) = cur"
    using assms by (simp add: stands_for_def flat_keys_concat)
  ultimately show ?thesis
    using assms False appends [of cur "filters_bytes F"]
    by (simp add: stands_for_def GenerateFilter_def Let_def filters_bytes_snoc filters_offsets_snoc
        one_filter_def flat_keys_def)
qed

lemma stands_start_loop:
  "stands_for b F cur \<Longrightarrow> length F \<le> i \<Longrightarrow>
   \<exists>G cur'. stands_for (StartBlockLoop create i b) G cur' \<and> length G = i \<and>
     (if i = length F then G = F \<and> cur' = cur
      else cur' = [] \<and> (\<exists>H. G = F @ cur # H))"
proof (induction "i - length F" arbitrary: b F cur)
  case 0
  then show ?case
    by (intro exI [of _ F] exI [of _ cur]) (simp add: StartBlockLoop.simps [of create _ b] stands_count)
next
  case (Suc n)
  then have l: "length F < i" by simp
  have e: "StartBlockLoop create i b = StartBlockLoop create i (GenerateFilter create b)"
    using l Suc(3) by (simp add: StartBlockLoop.simps [of create i b] stands_count)
  have n: "n = i - length (F @ [cur])" using Suc(2) by simp
  from Suc(1) [OF n stands_generate [OF Suc(3)]] l obtain G cur' where g: "stands_for (StartBlockLoop create i (GenerateFilter create b)) G cur'"
    "length G = i" "if i = length (F @ [cur]) then G = F @ [cur] \<and> cur' = []
      else cur' = [] \<and> (\<exists>H. G = (F @ [cur]) @ [] # H)" by auto
  then show ?case
    using l unfolding e by (intro exI [of _ G] exI [of _ cur']) (auto split: if_splits)
qed

lemma stands_start:
  assumes "stands_for b F cur" and "length F \<le> unat (off div kFilterBase)"
  shows "\<exists>G cur'. stands_for (StartBlock create off b) G cur' \<and> length G = unat (off div kFilterBase) \<and>
     (if unat (off div kFilterBase) = length F then G = F \<and> cur' = cur
      else cur' = [] \<and> (\<exists>H. G = F @ cur # H))"
  using stands_start_loop [OF assms] by (simp add: StartBlock_def)

lemma stands_adds: "stands_for b F cur \<Longrightarrow> stands_for (fold AddKey ks b) F (cur @ ks)"
  by (induction ks arbitrary: b cur) (use stands_add in fastforce)+

lemma stands_blocks:
  assumes "stands_for b F cur" and "holds_keys F cur done"
    and "sorted (map (\<lambda>(off, ks). unat (off div kFilterBase)) blocks)"
    and "\<forall>(off, ks) \<in> set blocks. length F \<le> unat (off div kFilterBase)"
  shows "\<exists>G cur'. stands_for (add_blocks create blocks b) G cur' \<and> holds_keys G cur' (done @ blocks)"
  using assms
proof (induction blocks arbitrary: b F cur "done")
  case Nil
  then show ?case by auto
next
  case (Cons x blocks)
  obtain off ks where x: "x = (off, ks)" by fastforce
  let ?i = "unat (off div kFilterBase)"
  from Cons(5) have i: "length F \<le> ?i" by (simp add: x)
  from stands_start [OF Cons(2) i] obtain G c where g:
    "stands_for (StartBlock create off b) G c" "length G = ?i"
    "if ?i = length F then G = F \<and> c = cur else c = [] \<and> (\<exists>H. G = F @ cur # H)" by blast
  have s: "stands_for (fold AddKey ks (StartBlock create off b)) G (c @ ks)"
    by (rule stands_adds [OF g(1)])
  have "holds_keys G (c @ ks) done"
  proof (cases "?i = length F")
    case True
    with g(3) show ?thesis by (intro holds_mono [OF Cons(3), of G "c @ ks" ks "[]"]) simp
  next
    case False
    with g(3) obtain H where "G = F @ cur # H" "c = []" by auto
    then show ?thesis by (intro holds_mono [OF Cons(3), of G "c @ ks" "[]" "H @ [ks]"]) simp
  qed
  then have "holds_keys G (c @ ks) (done @ [x])"
    using g(2) by (auto simp: holds_keys_def x nth_append)
  moreover have "\<forall>(off', ks') \<in> set blocks. length G \<le> unat (off' div kFilterBase)"
    using Cons(4) g(2) by (auto simp: x)
  moreover have "sorted (map (\<lambda>(off, ks). unat (off div kFilterBase)) blocks)"
    using Cons(4) by (simp add: x)
  ultimately show ?case using Cons(1) [OF s, of "done @ [x]"] by (simp add: x)
qed

end

subsection \<open>Reading a filter block\<close>

context filter_policy
begin

text \<open>The bytes of a filter block: filters, offsets, their place, the parameter.\<close>

definition layout :: "byte list list list \<Rightarrow> byte list" where
  "layout F = filters_bytes F @
     concat (map EncodeFixed32 (map word_of_nat (filters_offsets F @ [length (filters_bytes F)]))) @ [11]"

lemma finish_layout:
  assumes "stands_for b F cur"
  shows "\<exists>G. FilterFinish create b = layout G \<and> G = F @ (if cur = [] then [] else [cur])"
proof -
  have *: "foldl PutFixed32 (fb_result c) (filter_offsets c) @ EncodeFixed32 (word_of_nat (length (fb_result c)))
      @ [word_of_nat kFilterBaseLg] = layout G" if "stands_for c G ks" for c G ks
    using that by (simp add: stands_for_def layout_def foldl_PutFixed32 kFilterBaseLg_def)
  show ?thesis
  proof (cases "cur = []")
    case True
    with assms have "fb_start b = []" by (simp add: stands_for_def)
    with True * [OF assms] show ?thesis by (simp add: FilterFinish_def Let_def PutFixed32_def)
  next
    case False
    with assms have "fb_start b \<noteq> []" by (metis length_0_conv starts_length stands_for_def)
    with False * [OF stands_generate [OF assms]] show ?thesis
      by (simp add: FilterFinish_def Let_def PutFixed32_def)
  qed
qed

lemma filters_offsets_nth:
  "i \<le> length F \<Longrightarrow> (filters_offsets F @ [length (filters_bytes F)]) ! i = length (filters_bytes (take i F))"
  by (cases "i = length F") (simp_all add: filters_offsets_def nth_append)

lemma filters_bytes_append: "filters_bytes (F @ G) = filters_bytes F @ filters_bytes G"
  by (simp add: filters_bytes_def)

lemma filters_bytes_take: "length (filters_bytes (take i F)) \<le> length (filters_bytes F)"
  using arg_cong [OF filters_bytes_append [of "take i F" "drop i F"], of length] by simp

lemma filters_bytes_nth:
  assumes "i < length F"
  shows "filters_bytes F = filters_bytes (take i F) @ one_filter (F ! i) @ filters_bytes (drop (Suc i) F)"
proof -
  have "filters_bytes F = filters_bytes (take i F @ F ! i # drop (Suc i) F)"
    by (simp only: id_take_nth_drop [OF assms, symmetric])
  then show ?thesis by (simp add: filters_bytes_def)
qed

lemma layout_offset:
  assumes "i \<le> length F" and "length (filters_bytes F) < 2 ^ 32"
  shows "unat (DecodeFixed32 (drop (length (filters_bytes F) + i * 4) (layout F)))
    = length (filters_bytes (take i F))"
proof -
  let ?ws = "map word_of_nat (filters_offsets F @ [length (filters_bytes F)]) :: u32 list"
  have "i < length ?ws" using assms(1) by (simp add: filters_offsets_def)
  from nth_fixed32 [OF this, of "[11]"]
  have "DecodeFixed32 (drop (length (filters_bytes F) + i * 4) (layout F)) = ?ws ! i"
    by (simp add: layout_def mult.commute)
  also have "\<dots> = word_of_nat (length (filters_bytes (take i F)))"
    using \<open>i < length ?ws\<close> filters_offsets_nth [OF assms(1)] by (simp only: nth_map length_map)
  finally show ?thesis
    using filters_bytes_take [of i F] assms(2) by (simp add: unat_of_nat)
qed

lemma layout_length: "length (layout F) = length (filters_bytes F) + 4 * (length F + 1) + 1"
  unfolding layout_def length_append concat_fixed_length by (simp add: filters_offsets_def)

lemma layout_reader:
  assumes "length (filters_bytes F) < 2 ^ 32"
  shows "NewFilterBlockReader (layout F) =
    \<lparr>fr_data = layout F, fr_offset = length (filters_bytes F), fr_num = length F, fr_base_lg = 11\<rparr>"
proof -
  let ?L = "length (filters_bytes F)"
  have n: "length (layout F) - 5 = ?L + length F * 4" by (simp add: layout_length)
  have "unat (DecodeFixed32 (drop (length (layout F) - 5) (layout F))) = ?L"
    unfolding n using layout_offset [of "length F" F] assms by simp
  moreover have "layout F ! (length (layout F) - 1) = 11"
    by (metis last_conv_nth layout_def last_appendR last_snoc append_is_Nil_conv not_Cons_self2)
  moreover have "unat (scast (11 :: byte) :: u64) = 11" by simp
  ultimately show ?thesis
    using n by (simp add: NewFilterBlockReader_def Let_def layout_length)
qed

lemma layout_match:
  assumes "length (filters_bytes F) < 2 ^ 32" and "unat (drop_bit 11 off) < length F"
    and "k \<in> set (F ! unat (drop_bit 11 off))"
  shows "FilterKeyMayMatch may_match (NewFilterBlockReader (layout F)) off k"
proof -
  let ?i = "unat (drop_bit 11 off)"
  let ?L = "length (filters_bytes F)"
  have s: "unat (DecodeFixed32 (drop (?L + ?i * 4) (layout F))) = length (filters_bytes (take ?i F))"
    by (rule layout_offset) (use assms in simp_all)
  have l: "unat (DecodeFixed32 (drop (?L + ?i * 4 + 4) (layout F)))
      = length (filters_bytes (take ?i F)) + length (one_filter (F ! ?i))"
    using layout_offset [of "Suc ?i" F] assms(1,2)
    by (simp add: take_Suc_conv_app_nth filters_bytes_snoc ac_simps)
  have "take (length (one_filter (F ! ?i))) (drop (length (filters_bytes (take ?i F))) (layout F))
      = one_filter (F ! ?i)"
  proof -
    have "layout F = filters_bytes (take ?i F) @ one_filter (F ! ?i) @ filters_bytes (drop (Suc ?i) F) @
        concat (map EncodeFixed32 (map word_of_nat (filters_offsets F @ [?L]))) @ [11]"
      unfolding layout_def using filters_bytes_nth [OF assms(2)] by simp
    then show ?thesis by simp
  qed
  moreover have "may_match k (one_filter (F ! ?i))"
    using assms(3) matches by (auto simp: one_filter_def)
  moreover have "length (filters_bytes (take ?i F)) + length (one_filter (F ! ?i)) \<le> ?L"
    using arg_cong [OF filters_bytes_nth [OF assms(2)], of length] by simp
  ultimately show ?thesis
    using assms(2) by (simp add: layout_reader [OF assms(1)] FilterKeyMayMatch_def Let_def s l)
qed

lemma div_base: "unat (off div kFilterBase) = unat (drop_bit 11 off)"
  by (simp add: kFilterBase_def kFilterBaseLg_def drop_bit_eq_div push_bit_eq_mult)

lemma filter_block_matches:
  assumes "sorted (map (\<lambda>(off, ks). off) blocks)" and "(off, ks) \<in> set blocks" and "k \<in> set ks"
    and "length (FilterFinish create (add_blocks create blocks new_builder)) < 2 ^ 32"
  shows "FilterKeyMayMatch may_match
    (NewFilterBlockReader (FilterFinish create (add_blocks create blocks new_builder))) off k"
proof -
  have "sorted (map (\<lambda>(off, ks). unat (off div kFilterBase)) blocks)"
    using assms(1) by (induction blocks)
      (auto simp: div_base drop_bit_eq_div unat_div word_le_nat_alt intro!: div_le_mono)
  from stands_blocks [OF stands_new, of "[]", OF _ this] obtain G cur where
    g: "stands_for (add_blocks create blocks new_builder) G cur" "holds_keys G cur blocks"
    by (auto simp: holds_keys_def)
  from finish_layout [OF g(1)] obtain F where
    f: "FilterFinish create (add_blocks create blocks new_builder) = layout F"
    "F = G @ (if cur = [] then [] else [cur])" by blast
  let ?i = "unat (drop_bit 11 off)"
  have "k \<in> set ((G @ [cur]) ! ?i)" "?i \<le> length G"
    using g(2) assms(2,3) by (auto simp: holds_keys_def div_base)
  then have "?i < length F" "k \<in> set (F ! ?i)"
    by (auto simp: f(2) nth_append split: if_splits)
  moreover have "length (filters_bytes F) < 2 ^ 32"
    using assms(4) by (simp add: f(1) layout_length)
  ultimately show ?thesis unfolding f(1) by (intro layout_match)
qed

end

subsection \<open>Properties\<close>

text \<open>
  C35 (ldb_filter_block). A filter block built with the Bloom filter over internal keys
  never rules out a key at the offset of the block it was added for, when the blocks come in
  the order of their offsets and the filter block has less than 2^32 bytes.
\<close>

theorem ldb_filter_block:
  assumes "sorted (map (\<lambda>(off, ks). off) blocks)" and "(off, ks) \<in> set blocks" and "k \<in> set ks"
    and "create = InternalCreateFilter (CreateFilter (BloomFilterPolicy bits))"
    and "length (FilterFinish create (add_blocks create blocks new_builder)) < 2 ^ 32"
  shows "FilterKeyMayMatch (InternalKeyMayMatch KeyMayMatch)
    (NewFilterBlockReader (FilterFinish create (add_blocks create blocks new_builder))) off k"
  using internal_bloom.filter_block_matches [of blocks off ks k bits] assms by simp

theorem ldb_filter_block_witness:
  "\<exists>create. FilterKeyMayMatch (InternalKeyMayMatch KeyMayMatch)
    (NewFilterBlockReader (FilterFinish create (add_blocks create [(0, [InternalKey [1] 5 kTypeValue])] new_builder)))
    0 (InternalKey [1] 5 kTypeValue)"
proof -
  let ?c = "InternalCreateFilter (CreateFilter (BloomFilterPolicy 10))"
  let ?k = "InternalKey [1] 5 kTypeValue"
  have "length (FilterFinish ?c (add_blocks ?c [(0, [?k])] new_builder)) < 2 ^ 32"
    by (simp add: StartBlock_def StartBlockLoop.simps [of _ 0] new_builder_def AddKey_def FilterFinish_def
        GenerateFilter_def PutFixed32_def InternalCreateFilter_def CreateFilter_def bloom_bytes_def
        BloomFilterPolicy_def Let_def)
  from ldb_filter_block [OF _ _ _ refl this, of 0 "[?k]" ?k] show ?thesis by auto
qed

text \<open>
  Theorem (ldb_filter_block_errors). A filter block that is too short, or whose offset array
  would start behind its end, rules out nothing: errors are potential matches.
\<close>

theorem ldb_filter_block_errors:
  "length contents < 5 \<or> unat (DecodeFixed32 (drop (length contents - 5) contents)) > length contents - 5 \<Longrightarrow>
   FilterKeyMayMatch may_match (NewFilterBlockReader contents) off key"
proof -
  assume "length contents < 5 \<or> unat (DecodeFixed32 (drop (length contents - 5) contents)) > length contents - 5"
  then have "fr_num (NewFilterBlockReader contents) = 0"
    by (cases "length contents < 5") (simp_all add: NewFilterBlockReader_def Let_def)
  then show ?thesis by (simp add: FilterKeyMayMatch_def Let_def)
qed

theorem ldb_filter_block_errors_witness:
  "FilterKeyMayMatch (\<lambda>k f. False) (NewFilterBlockReader [1, 2, 3]) 4096 [9]"
  using ldb_filter_block_errors [of "[1, 2, 3]" "\<lambda>k f. False" 4096 "[9]"] by simp

end
