(* ===== verification/LDB_Format.thy ===== *)
theory LDB_Format
  imports LDB_Crc32c LDB_Log LDB_Iterator
begin

text \<open>
  The format of table files (\<open>table/format.cc\<close>): block handles, the footer, and the reading
  of a block with its type and checksum. What a table builder writes for a block is read back;
  a handle whose size wraps around makes the reader leave its buffer.
\<close>

unbundle bit_operations_syntax

subsection \<open>Handles and the footer\<close>

record BlockHandle =
  bh_offset :: u64
  bh_size :: u64

definition NewBlockHandle :: BlockHandle where
  "NewBlockHandle = \<lparr>bh_offset = 0xFFFFFFFFFFFFFFFF, bh_size = 0xFFFFFFFFFFFFFFFF\<rparr>"

definition HandleEncodeTo :: "BlockHandle \<Rightarrow> byte list \<Rightarrow> byte list" where
  "HandleEncodeTo h dst = PutVarint64 (PutVarint64 dst (bh_offset h)) (bh_size h)"

definition HandleDecodeFrom :: "byte list \<Rightarrow> Status + BlockHandle \<times> byte list" where
  "HandleDecodeFrom input =
     (case GetVarint64 input of None \<Rightarrow> Inl (Corruption ''bad block handle'')
      | Some (offset', input) \<Rightarrow>
          (case GetVarint64 input of None \<Rightarrow> Inl (Corruption ''bad block handle'')
           | Some (size', input) \<Rightarrow> Inr (\<lparr>bh_offset = offset', bh_size = size'\<rparr>, input)))"

definition kMaxEncodedLength :: nat where "kMaxEncodedLength = 20"

definition kEncodedLength :: nat where "kEncodedLength = 2 * kMaxEncodedLength + 8"

definition kTableMagicNumber :: u64 where "kTableMagicNumber = 0xdb4775248b80fb57"

definition kBlockTrailerSize :: u64 where "kBlockTrailerSize = 5"

record Footer =
  metaindex_handle :: BlockHandle
  index_handle :: BlockHandle

definition resize_bytes :: "nat \<Rightarrow> byte list \<Rightarrow> byte list" where
  "resize_bytes n s = take n s @ replicate (n - length s) 0"

definition FooterEncodeTo :: "Footer \<Rightarrow> byte list \<Rightarrow> byte list" where
  "FooterEncodeTo f dst =
     (let dst = HandleEncodeTo (metaindex_handle f) dst;
          dst = HandleEncodeTo (index_handle f) dst;
          dst = resize_bytes (2 * kMaxEncodedLength) dst;
          dst = PutFixed32 dst (ucast (kTableMagicNumber AND 0xffffffff))
      in PutFixed32 dst (ucast (drop_bit 32 kTableMagicNumber)))"

text \<open>\<open>None\<close>: the input is shorter than a footer, and the magic number lies outside of it.\<close>

definition FooterDecodeFrom :: "byte list \<Rightarrow> (Status + Footer \<times> byte list) option" where
  "FooterDecodeFrom input =
     (if length input < kEncodedLength then None
      else Some
        (let magic_ptr = drop (kEncodedLength - 8) input;
             magic_lo = DecodeFixed32 magic_ptr;
             magic_hi = DecodeFixed32 (drop 4 magic_ptr);
             magic = push_bit 32 (ucast magic_hi) OR ucast magic_lo
         in if magic \<noteq> kTableMagicNumber then Inl (Corruption ''not an sstable (bad magic number)'')
            else case HandleDecodeFrom input of Inl s \<Rightarrow> Inl s
               | Inr (metaindex, rest) \<Rightarrow>
                   (case HandleDecodeFrom rest of Inl s \<Rightarrow> Inl s
                    | Inr (index, rest) \<Rightarrow>
                        Inr (\<lparr>metaindex_handle = metaindex, index_handle = index\<rparr>, drop 8 magic_ptr))))"

subsection \<open>Reading a block\<close>

text \<open>
  A file answers a read at an offset with a status, the bytes it got, at most as many as asked
  for, and whether it put them into the buffer of the caller. The two functions of the
  Snappy library give \<open>None\<close> where they return \<open>false\<close>.
\<close>

record random_file =
  file_read :: "u64 \<Rightarrow> nat \<Rightarrow> Status \<times> byte list \<times> bool"

record snappy =
  snappy_compress :: "byte list \<Rightarrow> byte list option"
  snappy_length :: "byte list \<Rightarrow> nat option"
  snappy_uncompress :: "byte list \<Rightarrow> byte list option"

record BlockContents =
  bc_data :: "byte list"
  bc_cachable :: bool
  bc_heap_allocated :: bool

text \<open>\<open>None\<close>: bytes behind the buffer are read.\<close>

definition ReadBlock ::
  "snappy \<Rightarrow> random_file \<Rightarrow> bool \<Rightarrow> BlockHandle \<Rightarrow> (Status + BlockContents) option" where
  "ReadBlock sn f verify_checksums handle =
     (let n = bh_size handle;
          (s, contents, in_buffer) = file_read f (bh_offset handle) (unat (n + kBlockTrailerSize))
      in if s \<noteq> OK then Some (Inl s)
         else if length contents \<noteq> unat (n + kBlockTrailerSize) then Some (Inl (Corruption ''truncated block read''))
         else if length contents < unat n + 5 then None
         else if verify_checksums \<and>
                 Value (take (unat n + 1) contents) \<noteq> Unmask (DecodeFixed32 (drop (unat n + 1) contents))
              then Some (Inl (Corruption ''block checksum mismatch''))
         else if contents ! unat n = 0 then
           Some (Inr \<lparr>bc_data = take (unat n) contents, bc_cachable = in_buffer, bc_heap_allocated = in_buffer\<rparr>)
         else if contents ! unat n = 1 then
           (case snappy_length sn (take (unat n) contents) of
              None \<Rightarrow> Some (Inl (Corruption ''corrupted compressed block contents''))
            | Some ulength \<Rightarrow>
                (case snappy_uncompress sn (take (unat n) contents) of
                   None \<Rightarrow> Some (Inl (Corruption ''corrupted compressed block contents''))
                 | Some u \<Rightarrow>
                     Some (Inr \<lparr>bc_data = resize_bytes ulength u, bc_cachable = True, bc_heap_allocated = True\<rparr>)))
         else Some (Inl (Corruption ''bad block type'')))"

text \<open>A file whose bytes are known, which reads what there is into the buffer of the caller.\<close>

definition bytes_file :: "byte list \<Rightarrow> random_file" where
  "bytes_file bs = \<lparr>file_read = (\<lambda>off n. (OK, take n (drop (unat off) bs), True))\<rparr>"

subsection \<open>Round trips\<close>

lemma Varint64_length: "length (EncodeVarint64 v) \<le> 10"
  unfolding EncodeVarint64_eq by (rule varint_length_10)

lemma HandleEncodeTo_append: "HandleEncodeTo h dst = dst @ HandleEncodeTo h []"
  by (simp add: HandleEncodeTo_def PutVarint64_def)

lemma HandleEncodeTo_length: "length (HandleEncodeTo h []) \<le> 20"
  using Varint64_length [of "bh_offset h"] Varint64_length [of "bh_size h"]
  by (simp add: HandleEncodeTo_def PutVarint64_def)

lemma handle_reads_back: "HandleDecodeFrom (HandleEncodeTo h [] @ r) = Inr (h, r)"
  by (simp add: HandleDecodeFrom_def HandleEncodeTo_def PutVarint64_def Varint64_reads_back)

definition footer_bytes :: "Footer \<Rightarrow> byte list" where
  "footer_bytes f = HandleEncodeTo (metaindex_handle f) [] @ HandleEncodeTo (index_handle f) []"

lemma footer_eq:
  "FooterEncodeTo f [] = footer_bytes f @ replicate (40 - length (footer_bytes f)) 0 @
     EncodeFixed32 (ucast (kTableMagicNumber AND 0xffffffff)) @ EncodeFixed32 (ucast (drop_bit 32 kTableMagicNumber))"
  "length (footer_bytes f) \<le> 40"
proof -
  show l: "length (footer_bytes f) \<le> 40"
    using HandleEncodeTo_length [of "metaindex_handle f"] HandleEncodeTo_length [of "index_handle f"]
    by (simp add: footer_bytes_def)
  have "HandleEncodeTo (index_handle f) (HandleEncodeTo (metaindex_handle f) []) = footer_bytes f"
    unfolding footer_bytes_def by (rule HandleEncodeTo_append)
  with l show "FooterEncodeTo f [] = footer_bytes f @ replicate (40 - length (footer_bytes f)) 0 @
     EncodeFixed32 (ucast (kTableMagicNumber AND 0xffffffff)) @ EncodeFixed32 (ucast (drop_bit 32 kTableMagicNumber))"
    by (simp add: FooterEncodeTo_def resize_bytes_def PutFixed32_def kMaxEncodedLength_def Let_def)
qed

lemma footer_length: "length (FooterEncodeTo f []) = 48"
  using footer_eq(2) [of f] by (simp add: footer_eq(1))

lemma footer_reads_back: "FooterDecodeFrom (FooterEncodeTo f [] @ r) = Some (Inr (f, r))"
proof -
  let ?lo = "EncodeFixed32 (ucast (kTableMagicNumber AND 0xffffffff))" and ?hi = "EncodeFixed32 (ucast (drop_bit 32 kTableMagicNumber))"
  let ?pad = "replicate (40 - length (footer_bytes f)) 0 :: byte list"
  have e: "FooterEncodeTo f [] @ r = HandleEncodeTo (metaindex_handle f) [] @ HandleEncodeTo (index_handle f) [] @ ?pad @ ?lo @ ?hi @ r"
    by (simp add: footer_eq(1) footer_bytes_def)
  have d: "drop 40 (FooterEncodeTo f [] @ r) = ?lo @ ?hi @ r" using footer_eq(2) [of f] by (simp add: footer_eq(1))
  have m: "push_bit 32 (ucast (ucast (drop_bit 32 kTableMagicNumber) :: u32)) OR
      ucast (ucast (kTableMagicNumber AND 0xffffffff) :: u32) = kTableMagicNumber"
    by (simp add: kTableMagicNumber_def)
  have "drop 4 (?lo @ ?hi @ r) = ?hi @ r" by simp
  moreover have "DecodeFixed32 (?lo @ ?hi @ r) = ucast (kTableMagicNumber AND 0xffffffff)" "DecodeFixed32 (?hi @ r) = ucast (drop_bit 32 kTableMagicNumber)"
    by (simp_all add: DecodeFixed32_Encode)
  moreover have "HandleDecodeFrom (FooterEncodeTo f [] @ r) = Inr (metaindex_handle f, HandleEncodeTo (index_handle f) [] @ ?pad @ ?lo @ ?hi @ r)"
    unfolding e by (rule handle_reads_back)
  moreover have "drop 8 (?lo @ ?hi @ r) = r" by simp
  moreover have "\<not> length (FooterEncodeTo f [] @ r) < kEncodedLength"
    by (simp add: footer_length kEncodedLength_def kMaxEncodedLength_def)
  ultimately show ?thesis
    using d by (simp add: FooterDecodeFrom_def kEncodedLength_def kMaxEncodedLength_def Let_def m handle_reads_back del: drop_append)
qed


text \<open>What the builder stores for a block: contents, type and masked checksum of both.\<close>

definition stored_block :: "byte list \<Rightarrow> byte \<Rightarrow> byte list" where
  "stored_block contents type' = contents @ type' # EncodeFixed32 (Mask (Value (contents @ [type'])))"

lemma stored_block_length [simp]: "length (stored_block contents type') = length contents + 5"
  by (simp add: stored_block_def)

text \<open>A file that answers reads inside its bytes with exactly the bytes that were asked for.\<close>

definition holds_bytes :: "random_file \<Rightarrow> byte list \<Rightarrow> bool" where
  "holds_bytes f bs \<longleftrightarrow>
     (\<forall>off n. unat off + n \<le> length bs \<longrightarrow> (\<exists>b. file_read f off n = (OK, take n (drop (unat off) bs), b)))"

lemma bytes_file_holds: "holds_bytes (bytes_file bs) bs"
  unfolding holds_bytes_def
proof (intro allI impI)
  fix off n
  show "\<exists>b. file_read (bytes_file bs) off n = (OK, take n (drop (unat off) bs), b)"
    by (rule exI [of _ True]) (simp add: bytes_file_def)
qed

lemma read_stored:
  assumes "holds_bytes f (a @ stored_block contents 0 @ r)" and "unat (bh_offset h) = length a"
    and "unat (bh_size h) = length contents" and "length contents + 5 < 2 ^ 64"
  shows "\<exists>b. ReadBlock sn f verify h = Some (Inr \<lparr>bc_data = contents, bc_cachable = b, bc_heap_allocated = b\<rparr>)"
proof -
  let ?n = "bh_size h"
  have n: "unat (?n + kBlockTrailerSize) = length contents + 5"
    using assms(3,4) by (simp add: kBlockTrailerSize_def unat_word_ariths)
  have "unat (bh_offset h) + (length contents + 5) \<le> length (a @ stored_block contents 0 @ r)" using assms(2) by simp
  with assms(1) obtain b where "file_read f (bh_offset h) (length contents + 5) =
      (OK, take (length contents + 5) (drop (length a) (a @ stored_block contents 0 @ r)), b)"
    unfolding holds_bytes_def using assms(2) by metis
  then have rd: "file_read f (bh_offset h) (unat (?n + kBlockTrailerSize)) = (OK, stored_block contents 0, b)"
    unfolding n by simp
  have "take (length contents + 1) (stored_block contents 0) = contents @ [0]"
    "drop (length contents + 1) (stored_block contents 0) = EncodeFixed32 (Mask (Value (contents @ [0])))"
    by (simp_all add: stored_block_def)
  moreover have "DecodeFixed32 (EncodeFixed32 (Mask (Value (contents @ [0])))) = Mask (Value (contents @ [0]))"
    using DecodeFixed32_Encode [of _ "[]"] by simp
  moreover have "stored_block contents 0 ! length contents = 0" by (simp add: stored_block_def nth_append)
  moreover have "take (length contents) (stored_block contents 0) = contents" by (simp add: stored_block_def)
  ultimately show ?thesis
    unfolding ReadBlock_def Let_def rd by (simp add: n assms(3) Unmask_Mask)
qed

lemma read_defined:
  assumes "unat (bh_size h) + 5 < 2 ^ 64"
  shows "ReadBlock sn f verify h \<noteq> None"
proof -
  have n: "unat (bh_size h + kBlockTrailerSize) = unat (bh_size h) + 5"
    using assms by (simp add: kBlockTrailerSize_def unat_word_ariths)
  obtain s contents b where rd: "file_read f (bh_offset h) (unat (bh_size h) + 5) = (s, contents, b)"
    by (cases "file_read f (bh_offset h) (unat (bh_size h) + 5)")
  show ?thesis unfolding ReadBlock_def Let_def n rd by (simp split: option.splits)
qed

subsection \<open>Properties\<close>

text \<open>
  Theorem (ldb_footer_roundtrip). A footer always takes 48 bytes, and is read back with what
  follows it; shorter input is not looked at, other magic numbers are refused.
\<close>

theorem ldb_footer_roundtrip:
  "length (FooterEncodeTo f []) = kEncodedLength \<and> FooterDecodeFrom (FooterEncodeTo f [] @ r) = Some (Inr (f, r)) \<and>
   HandleDecodeFrom (HandleEncodeTo h [] @ r) = Inr (h, r) \<and> length (HandleEncodeTo h []) \<le> kMaxEncodedLength"
  using footer_length [of f] footer_reads_back [of f r] handle_reads_back [of h r] HandleEncodeTo_length [of h]
  by (simp add: kEncodedLength_def kMaxEncodedLength_def)

text \<open>
  C29 (ldb_read_block_overflow). The size of a block plus its trailer is computed in 64 bits: a
  handle of size 2^64 - 5 makes \<open>ReadBlock\<close> ask for no bytes and then look at bytes before its
  buffer, whatever the file holds. Handles of smaller sizes never do.
\<close>

theorem ldb_read_block_overflow:
  "ReadBlock sn (bytes_file bs) verify \<lparr>bh_offset = off, bh_size = 0xFFFFFFFFFFFFFFFB\<rparr> = None \<and>
   (unat (bh_size h) + 5 < 2 ^ 64 \<longrightarrow> ReadBlock sn f verify h \<noteq> None)"
  proof (intro conjI impI)
  show "ReadBlock sn (bytes_file bs) verify \<lparr>bh_offset = off, bh_size = 0xFFFFFFFFFFFFFFFB\<rparr> = None"
    by (simp add: ReadBlock_def bytes_file_def kBlockTrailerSize_def)
qed (rule read_defined)

theorem ldb_read_block_overflow_witness:
  "ReadBlock \<lparr>snappy_compress = \<lambda>x. None, snappy_length = \<lambda>x. None, snappy_uncompress = \<lambda>x. None\<rparr>
    (bytes_file (stored_block [7, 8] 0)) True \<lparr>bh_offset = 0, bh_size = 2\<rparr> \<noteq> None"
  by (rule mp [OF conjunct2 [OF ldb_read_block_overflow]]) simp

end
