(* ===== verification/LDB_Cache.thy ===== *)
theory LDB_Cache
  imports LDB_Bloom "HOL-Library.Multiset"
begin

text \<open>
  The cache of LevelDB (\<open>util/cache.cc\<close>

unbundle bit_operations_syntax): a hash table of handles with reference counts, two
  lists of handles, in use and not, and sixteen shards of all that. Handles are addresses in a
  heap. The chains of the buckets and the circular lists are kept as the lists of their
  elements, the list \<open>lru\<close> with its oldest element first. Mutexes make every
  operation one step. Addresses are never used again, and the counts of references and of elements,
  \<open>uint32_t\<close> in the source, are natural numbers: the memory for the objects that they count
  bounds them. \<open>key()\<close> of an entry whose \<open>next\<close> is itself is left out: no such entry is made here.
\<close>

subsection \<open>Handles and the hash table\<close>

type_synonym lru_addr = nat

record 'v LRUHandle =
  lh_value :: 'v
  lh_key :: "byte list"
  lh_hash :: u32
  lh_charge :: u64
  lh_in_cache :: bool
  lh_refs :: nat

type_synonym 'v handles = "lru_addr \<Rightarrow> 'v LRUHandle"

record HandleTable =
  ht_length :: nat
  ht_elems :: nat
  ht_list :: "lru_addr list list"

text \<open>\<open>FindPointer\<close>: the bucket, and the position in it of the entry or of its end.\<close>

definition ht_bucket :: "nat \<Rightarrow> u32 \<Rightarrow> nat" where
  "ht_bucket len hash = unat (hash AND (word_of_nat len - 1))"

definition FindPointer :: "'v handles \<Rightarrow> byte list \<Rightarrow> u32 \<Rightarrow> HandleTable \<Rightarrow> nat \<times> nat" where
  "FindPointer heap key hash t =
     (let b = ht_bucket (ht_length t) hash
      in (b, length (takeWhile (\<lambda>e. lh_hash (heap e) \<noteq> hash \<or> key \<noteq> lh_key (heap e)) (ht_list t ! b))))"

definition HandleLookup :: "'v handles \<Rightarrow> byte list \<Rightarrow> u32 \<Rightarrow> HandleTable \<Rightarrow> lru_addr option" where
  "HandleLookup heap key hash t =
     (let (b, p) = FindPointer heap key hash t
      in if p < length (ht_list t ! b) then Some (ht_list t ! b ! p) else None)"

function resize_length :: "nat \<Rightarrow> nat \<Rightarrow> nat" where
  "resize_length n elems = (if 0 < n \<and> n < elems then resize_length (n * 2) elems else n)"
  by pat_completeness auto
termination by (relation "measure (\<lambda>(n, elems). elems - n)") auto

declare resize_length.simps [simp del]

definition push_handle :: "'v handles \<Rightarrow> nat \<Rightarrow> lru_addr \<Rightarrow> lru_addr list list \<Rightarrow> lru_addr list list" where
  "push_handle heap len e new_list =
     (let b = ht_bucket len (lh_hash (heap e)) in new_list[b := e # new_list ! b])"

definition Resize :: "'v handles \<Rightarrow> HandleTable \<Rightarrow> HandleTable" where
  "Resize heap t =
     (let new_length = resize_length 4 (ht_elems t);
          new_list = fold (push_handle heap new_length) (concat (ht_list t)) (replicate new_length [])
      in t\<lparr>ht_list := new_list, ht_length := new_length\<rparr>)"

definition NewHandleTable :: "'v handles \<Rightarrow> HandleTable" where
  "NewHandleTable heap = Resize heap \<lparr>ht_length = 0, ht_elems = 0, ht_list = []\<rparr>"

definition HandleInsert :: "'v handles \<Rightarrow> lru_addr \<Rightarrow> HandleTable \<Rightarrow> lru_addr option \<times> HandleTable" where
  "HandleInsert heap h t =
     (let (b, p) = FindPointer heap (lh_key (heap h)) (lh_hash (heap h)) t;
          chain = ht_list t ! b
      in if p < length chain
         then (Some (chain ! p), t\<lparr>ht_list := (ht_list t)[b := chain[p := h]]\<rparr>)
         else
           let t = t\<lparr>ht_list := (ht_list t)[b := chain @ [h]], ht_elems := ht_elems t + 1\<rparr>
           in (None, if ht_elems t > ht_length t then Resize heap t else t))"

definition HandleRemove :: "'v handles \<Rightarrow> byte list \<Rightarrow> u32 \<Rightarrow> HandleTable \<Rightarrow> lru_addr option \<times> HandleTable" where
  "HandleRemove heap key hash t =
     (let (b, p) = FindPointer heap key hash t;
          chain = ht_list t ! b
      in if p < length chain
         then (Some (chain ! p),
               t\<lparr>ht_list := (ht_list t)[b := take p chain @ drop (Suc p) chain], ht_elems := ht_elems t - 1\<rparr>)
         else (None, t))"

subsection \<open>One shard\<close>

text \<open>
  \<open>c_fresh\<close> is the next address that \<open>malloc\<close> returns; \<open>c_deleted\<close> the handles, in order, whose
  key and value were given to their deleter before they were freed.
\<close>

record 'v LRUCache =
  c_capacity :: u64
  c_usage :: u64
  c_heap :: "'v handles"
  c_fresh :: lru_addr
  c_lru :: "lru_addr list"
  c_in_use :: "lru_addr list"
  c_table :: HandleTable
  c_deleted :: "lru_addr list"

definition NewLRUCache :: "'v handles \<Rightarrow> u64 \<Rightarrow> 'v LRUCache" where
  "NewLRUCache heap capacity =
     \<lparr>c_capacity = capacity, c_usage = 0, c_heap = heap, c_fresh = 0, c_lru = [], c_in_use = [],
      c_table = NewHandleTable heap, c_deleted = []\<rparr>"

definition SetCapacity :: "u64 \<Rightarrow> 'v LRUCache \<Rightarrow> 'v LRUCache" where
  "SetCapacity capacity c = c\<lparr>c_capacity := capacity\<rparr>"

definition TotalCharge :: "'v LRUCache \<Rightarrow> u64" where
  "TotalCharge c = c_usage c"

definition upd_handle :: "lru_addr \<Rightarrow> ('v LRUHandle \<Rightarrow> 'v LRUHandle) \<Rightarrow> 'v LRUCache \<Rightarrow> 'v LRUCache" where
  "upd_handle e f c = c\<lparr>c_heap := (c_heap c)(e := f (c_heap c e))\<rparr>"

text \<open>The entry is on one of the lists when it is removed.\<close>

definition LRU_Remove :: "lru_addr \<Rightarrow> 'v LRUCache \<Rightarrow> 'v LRUCache" where
  "LRU_Remove e c = c\<lparr>c_lru := remove1 e (c_lru c), c_in_use := remove1 e (c_in_use c)\<rparr>"

definition LRU_Append_lru :: "lru_addr \<Rightarrow> 'v LRUCache \<Rightarrow> 'v LRUCache" where
  "LRU_Append_lru e c = c\<lparr>c_lru := c_lru c @ [e]\<rparr>"

definition LRU_Append_in_use :: "lru_addr \<Rightarrow> 'v LRUCache \<Rightarrow> 'v LRUCache" where
  "LRU_Append_in_use e c = c\<lparr>c_in_use := c_in_use c @ [e]\<rparr>"

definition Ref :: "lru_addr \<Rightarrow> 'v LRUCache \<Rightarrow> 'v LRUCache" where
  "Ref e c =
     (let c = (if lh_refs (c_heap c e) = 1 \<and> lh_in_cache (c_heap c e) then LRU_Append_in_use e (LRU_Remove e c) else c)
      in upd_handle e (\<lambda>h. h\<lparr>lh_refs := lh_refs h + 1\<rparr>) c)"

definition Unref :: "lru_addr \<Rightarrow> 'v LRUCache \<Rightarrow> 'v LRUCache" where
  "Unref e c =
     (let c = upd_handle e (\<lambda>h. h\<lparr>lh_refs := lh_refs h - 1\<rparr>) c
      in if lh_refs (c_heap c e) = 0 then c\<lparr>c_deleted := c_deleted c @ [e]\<rparr>
         else if lh_in_cache (c_heap c e) \<and> lh_refs (c_heap c e) = 1 then LRU_Append_lru e (LRU_Remove e c)
         else c)"

definition FinishErase :: "lru_addr option \<Rightarrow> 'v LRUCache \<Rightarrow> bool \<times> 'v LRUCache" where
  "FinishErase entry c =
     (case entry of
        None \<Rightarrow> (False, c)
      | Some e \<Rightarrow>
          let c = LRU_Remove e c;
              c = upd_handle e (\<lambda>h. h\<lparr>lh_in_cache := False\<rparr>) c;
              c = c\<lparr>c_usage := c_usage c - lh_charge (c_heap c e)\<rparr>
          in (True, Unref e c))"

definition CacheLookup :: "byte list \<Rightarrow> u32 \<Rightarrow> 'v LRUCache \<Rightarrow> lru_addr option \<times> 'v LRUCache" where
  "CacheLookup key hash c =
     (case HandleLookup (c_heap c) key hash (c_table c) of
        None \<Rightarrow> (None, c) | Some e \<Rightarrow> (Some e, Ref e c))"

definition Release :: "lru_addr \<Rightarrow> 'v LRUCache \<Rightarrow> 'v LRUCache" where
  "Release handle c = Unref handle c"

definition remove_and_finish :: "byte list \<Rightarrow> u32 \<Rightarrow> 'v LRUCache \<Rightarrow> bool \<times> 'v LRUCache" where
  "remove_and_finish key hash c =
     (let (e, t) = HandleRemove (c_heap c) key hash (c_table c) in FinishErase e (c\<lparr>c_table := t\<rparr>))"

definition Erase :: "byte list \<Rightarrow> u32 \<Rightarrow> 'v LRUCache \<Rightarrow> 'v LRUCache" where
  "Erase key hash c = snd (remove_and_finish key hash c)"

text \<open>
  The loops that drop the oldest entry. They end only if every entry of the list is in the hash table, so
  that not ending is \<open>None\<close>.
\<close>

partial_function (option) drop_oldest :: "('v LRUCache \<Rightarrow> bool) \<Rightarrow> 'v LRUCache \<Rightarrow> 'v LRUCache option" where
  "drop_oldest busy c =
     (case c_lru c of
        [] \<Rightarrow> Some c
      | old # rest \<Rightarrow>
          if busy c
          then drop_oldest busy (snd (remove_and_finish (lh_key (c_heap c old)) (lh_hash (c_heap c old)) c))
          else Some c)"

definition Evict :: "'v LRUCache \<Rightarrow> 'v LRUCache option" where
  "Evict = drop_oldest (\<lambda>c. c_usage c > c_capacity c)"

definition Prune :: "'v LRUCache \<Rightarrow> 'v LRUCache option" where
  "Prune = drop_oldest (\<lambda>c. True)"

definition new_handle :: "byte list \<Rightarrow> u32 \<Rightarrow> 'v \<Rightarrow> u64 \<Rightarrow> 'v LRUHandle" where
  "new_handle key hash val charge =
     \<lparr>lh_value = val, lh_key = key, lh_hash = hash, lh_charge = charge, lh_in_cache = False, lh_refs = 1\<rparr>"

definition put_in_cache :: "lru_addr \<Rightarrow> 'v LRUCache \<Rightarrow> 'v LRUCache" where
  "put_in_cache e c =
     (let c = upd_handle e (\<lambda>h. h\<lparr>lh_refs := lh_refs h + 1, lh_in_cache := True\<rparr>) c;
          c = LRU_Append_in_use e c;
          c = c\<lparr>c_usage := c_usage c + lh_charge (c_heap c e)\<rparr>;
          (old, t) = HandleInsert (c_heap c) e (c_table c)
      in snd (FinishErase old (c\<lparr>c_table := t\<rparr>)))"

definition CacheInsert ::
  "byte list \<Rightarrow> u32 \<Rightarrow> 'v \<Rightarrow> u64 \<Rightarrow> 'v LRUCache \<Rightarrow> (lru_addr \<times> 'v LRUCache) option" where
  "CacheInsert key hash val charge c =
     (let e = c_fresh c;
          c = c\<lparr>c_heap := (c_heap c)(e := new_handle key hash val charge), c_fresh := c_fresh c + 1\<rparr>;
          c = (if c_capacity c > 0 then put_in_cache e c else c)
      in map_option (\<lambda>c. (e, c)) (Evict c))"



subsection \<open>The sharded cache\<close>

definition kNumShardBits :: nat where "kNumShardBits = 4"

definition kNumShards :: nat where "kNumShards = push_bit kNumShardBits 1"

record 'v ShardedLRUCache =
  sc_shard :: "'v LRUCache list"
  sc_last_id :: u64

definition HashSlice :: "byte list \<Rightarrow> u32" where
  "HashSlice s = Hash s 0"

definition Shard :: "u32 \<Rightarrow> nat" where
  "Shard hash = unat (drop_bit (32 - kNumShardBits) hash)"

definition NewShardedLRUCache :: "'v handles \<Rightarrow> u64 \<Rightarrow> 'v ShardedLRUCache" where
  "NewShardedLRUCache heap capacity =
     (let per_shard = (capacity + (word_of_nat kNumShards - 1)) div word_of_nat kNumShards
      in \<lparr>sc_shard = map (\<lambda>s. SetCapacity per_shard (NewLRUCache heap 0)) [0..<kNumShards], sc_last_id = 0\<rparr>)"

definition ShardedInsert ::
  "byte list \<Rightarrow> 'v \<Rightarrow> u64 \<Rightarrow> 'v ShardedLRUCache \<Rightarrow> ((nat \<times> lru_addr) \<times> 'v ShardedLRUCache) option" where
  "ShardedInsert key val charge c =
     (let hash = HashSlice key; s = Shard hash
      in map_option (\<lambda>(e, shard). ((s, e), c\<lparr>sc_shard := (sc_shard c)[s := shard]\<rparr>))
           (CacheInsert key hash val charge (sc_shard c ! s)))"

definition ShardedLookup :: "byte list \<Rightarrow> 'v ShardedLRUCache \<Rightarrow> (nat \<times> lru_addr) option \<times> 'v ShardedLRUCache" where
  "ShardedLookup key c =
     (let hash = HashSlice key; s = Shard hash; (e, shard) = CacheLookup key hash (sc_shard c ! s)
      in (map_option (\<lambda>e. (s, e)) e, c\<lparr>sc_shard := (sc_shard c)[s := shard]\<rparr>))"

definition ShardedRelease :: "nat \<times> lru_addr \<Rightarrow> 'v ShardedLRUCache \<Rightarrow> 'v ShardedLRUCache" where
  "ShardedRelease handle c =
     (let s = Shard (lh_hash (c_heap (sc_shard c ! fst handle) (snd handle)))
      in c\<lparr>sc_shard := (sc_shard c)[s := Release (snd handle) (sc_shard c ! s)]\<rparr>)"

definition ShardedErase :: "byte list \<Rightarrow> 'v ShardedLRUCache \<Rightarrow> 'v ShardedLRUCache" where
  "ShardedErase key c =
     (let hash = HashSlice key; s = Shard hash
      in c\<lparr>sc_shard := (sc_shard c)[s := Erase key hash (sc_shard c ! s)]\<rparr>)"

definition CacheValue :: "nat \<times> lru_addr \<Rightarrow> 'v ShardedLRUCache \<Rightarrow> 'v" where
  "CacheValue handle c = lh_value (c_heap (sc_shard c ! fst handle) (snd handle))"

definition NewId :: "'v ShardedLRUCache \<Rightarrow> u64 \<times> 'v ShardedLRUCache" where
  "NewId c = (let i = sc_last_id c + 1 in (i, c\<lparr>sc_last_id := i\<rparr>))"

fun prune_all :: "'v LRUCache list \<Rightarrow> 'v LRUCache list option" where
  "prune_all [] = Some []"
| "prune_all (c # cs) = Option.bind (Prune c) (\<lambda>c. map_option ((#) c) (prune_all cs))"

definition ShardedPrune :: "'v ShardedLRUCache \<Rightarrow> 'v ShardedLRUCache option" where
  "ShardedPrune c = map_option (\<lambda>s. c\<lparr>sc_shard := s\<rparr>) (prune_all (sc_shard c))"

definition ShardedTotalCharge :: "'v ShardedLRUCache \<Rightarrow> u64" where
  "ShardedTotalCharge c = sum_list (map TotalCharge (sc_shard c))"

subsection \<open>The hash table holds handles by key\<close>

definition same_keys :: "'v handles \<Rightarrow> 'v handles \<Rightarrow> lru_addr set \<Rightarrow> bool" where
  "same_keys h h' A \<longleftrightarrow> (\<forall>e \<in> A. lh_key (h' e) = lh_key (h e) \<and> lh_hash (h' e) = lh_hash (h e))"

definition ht_handles :: "HandleTable \<Rightarrow> lru_addr set" where
  "ht_handles t = set (concat (ht_list t))"

definition has_key :: "'v handles \<Rightarrow> byte list \<Rightarrow> u32 \<Rightarrow> lru_addr \<Rightarrow> bool" where
  "has_key heap key hash e \<longleftrightarrow> lh_hash (heap e) = hash \<and> lh_key (heap e) = key"

text \<open>
  The number of buckets is a power of two, every handle is in the bucket of its hash, and no two
  handles have the same key and hash.
\<close>

definition buckets_ok :: "'v handles \<Rightarrow> lru_addr list list \<Rightarrow> bool" where
  "buckets_ok heap bs \<longleftrightarrow>
     (\<exists>k. length bs = 2 ^ k) \<and> distinct (concat bs) \<and>
     (\<forall>b < length bs. \<forall>e \<in> set (bs ! b). ht_bucket (length bs) (lh_hash (heap e)) = b) \<and>
     inj_on (\<lambda>e. (lh_key (heap e), lh_hash (heap e))) (set (concat bs))"

definition table_ok :: "'v handles \<Rightarrow> HandleTable \<Rightarrow> bool" where
  "table_ok heap t \<longleftrightarrow> ht_length t = length (ht_list t) \<and> ht_elems t = length (concat (ht_list t)) \<and> buckets_ok heap (ht_list t)"

lemma bucket_less: "ht_bucket (2 ^ k) hash < 2 ^ k"
proof (cases "k < 32")
  case True
  have "unat (hash AND (word_of_nat (2 ^ k) - 1)) \<le> unat (word_of_nat (2 ^ k) - 1 :: u32)"
    by (metis word_and_le1 word_le_nat_alt)
  also have "unat (word_of_nat (2 ^ k) - 1 :: u32) = 2 ^ k - 1"
  proof -
    have "(2 :: nat) ^ k < 2 ^ 32" using True by (intro power_strict_increasing) auto
    then have u: "unat (word_of_nat (2 ^ k) :: u32) = 2 ^ k" unfolding unat_of_nat by simp
    then have "unat (1 :: u32) \<le> unat (word_of_nat (2 ^ k) :: u32)" unfolding u by simp
    then show ?thesis using u by (metis unat_1 unat_sub word_le_nat_alt)
  qed
  finally show ?thesis by (simp add: ht_bucket_def le_less_trans [of _ "2 ^ k - 1"])
next
  case False
  have "unat (hash AND (word_of_nat (2 ^ k) - 1)) < 2 ^ 32" by (rule order_less_le_trans [OF unsigned_less]) simp
  also have "(2 :: nat) ^ 32 \<le> 2 ^ k" using False by (intro power_increasing) auto
  finally show ?thesis by (simp add: ht_bucket_def)
qed

lemma resize_power: "\<exists>k. resize_length (2 ^ j) elems = 2 ^ k"
proof (induction "2 ^ j :: nat" elems arbitrary: j rule: resize_length.induct)
  case (1 elems)
  show ?case
  proof (cases "2 ^ j < elems")
    case True
    with 1 [of "Suc j"] show ?thesis by (subst resize_length.simps) (simp add: mult.commute)
  next
    case False
    then show ?thesis by (subst resize_length.simps) auto
  qed
qed

lemma in_bucket:
  assumes "buckets_ok heap bs"
  shows "e \<in> set (concat bs) \<longleftrightarrow> e \<in> set (bs ! ht_bucket (length bs) (lh_hash (heap e)))"
    and "ht_bucket (length bs) hash < length bs"
proof -
  show l: "ht_bucket (length bs) hash < length bs" for hash using assms bucket_less by (auto simp: buckets_ok_def)
  show "e \<in> set (concat bs) \<longleftrightarrow> e \<in> set (bs ! ht_bucket (length bs) (lh_hash (heap e)))"
  proof
    assume "e \<in> set (concat bs)"
    then obtain b where "b < length bs" "e \<in> set (bs ! b)" by (metis UN_iff in_set_conv_nth set_concat)
    with assms show "e \<in> set (bs ! ht_bucket (length bs) (lh_hash (heap e)))" by (auto simp: buckets_ok_def)
  next
    assume "e \<in> set (bs ! ht_bucket (length bs) (lh_hash (heap e)))"
    with l show "e \<in> set (concat bs)" by (auto intro: nth_mem)
  qed
qed

text \<open>Where \<open>FindPointer\<close> stops.\<close>

lemma take_while_find:
  fixes heap :: "'v handles" and chain :: "lru_addr list" and key :: "byte list" and hash :: u32
  defines "P \<equiv> \<lambda>e. lh_hash (heap e) \<noteq> hash \<or> key \<noteq> lh_key (heap e)"
  shows "length (takeWhile P chain) < length chain \<Longrightarrow> has_key heap key hash (chain ! length (takeWhile P chain))"
    and "\<not> length (takeWhile P chain) < length chain \<Longrightarrow> e \<in> set chain \<Longrightarrow> \<not> has_key heap key hash e"
    and "length (takeWhile P chain) \<le> length chain"
proof -
  show "length (takeWhile P chain) < length chain \<Longrightarrow> has_key heap key hash (chain ! length (takeWhile P chain))"
    using nth_length_takeWhile [of P chain] by (auto simp: has_key_def P_def)
  show "length (takeWhile P chain) \<le> length chain" by (rule length_takeWhile_le)
  assume "\<not> length (takeWhile P chain) < length chain" and e: "e \<in> set chain"
  then have "takeWhile P chain = chain"
    by (metis append_eq_conv_conj length_append linorder_not_less nat_less_le takeWhile_dropWhile_id append_Nil2 drop_all takeWhile_eq_take take_all)
  with e have "P e" by (metis set_takeWhileD)
  then show "\<not> has_key heap key hash e" by (auto simp: has_key_def P_def)
qed

lemma find_pointer:
  assumes ok: "table_ok heap t" and f: "FindPointer heap key hash t = (b, p)"
  shows "b = ht_bucket (length (ht_list t)) hash" and "b < length (ht_list t)" and "p \<le> length (ht_list t ! b)"
    and "p < length (ht_list t ! b) \<longrightarrow> ht_list t ! b ! p \<in> ht_handles t \<and> has_key heap key hash (ht_list t ! b ! p)"
    and "\<not> p < length (ht_list t ! b) \<longrightarrow> (\<forall>e \<in> ht_handles t. \<not> has_key heap key hash e)"
proof -
  have bo: "buckets_ok heap (ht_list t)" using ok by (simp add: table_ok_def)
  show b: "b = ht_bucket (length (ht_list t)) hash" using ok f by (auto simp: FindPointer_def table_ok_def Let_def)
  then show bl: "b < length (ht_list t)" using in_bucket(2) [OF bo] by simp
  have p: "p = length (takeWhile (\<lambda>e. lh_hash (heap e) \<noteq> hash \<or> key \<noteq> lh_key (heap e)) (ht_list t ! b))"
    using f by (auto simp: FindPointer_def Let_def)
  show "p \<le> length (ht_list t ! b)" unfolding p by (rule take_while_find(3))
  show "p < length (ht_list t ! b) \<longrightarrow> ht_list t ! b ! p \<in> ht_handles t \<and> has_key heap key hash (ht_list t ! b ! p)"
    using take_while_find(1) [of heap hash key "ht_list t ! b", folded p] bl by (auto simp: ht_handles_def intro: nth_mem)
  show "\<not> p < length (ht_list t ! b) \<longrightarrow> (\<forall>e \<in> ht_handles t. \<not> has_key heap key hash e)"
  proof (intro impI ballI notI)
    fix e assume n: "\<not> p < length (ht_list t ! b)" and e: "e \<in> ht_handles t" and k: "has_key heap key hash e"
    from e k have "e \<in> set (ht_list t ! b)"
      using in_bucket(1) [OF bo, of e] by (simp add: ht_handles_def has_key_def b)
    with take_while_find(2) [of heap hash key "ht_list t ! b" e, folded p] n k show False by simp
  qed
qed

lemma key_unique:
  assumes "table_ok heap t" and "e \<in> ht_handles t" and "e' \<in> ht_handles t"
    and "has_key heap key hash e" and "has_key heap key hash e'"
  shows "e = e'"
  using assms by (auto simp: table_ok_def buckets_ok_def ht_handles_def has_key_def inj_on_def)

lemma handle_lookup:
  assumes "table_ok heap t"
  shows "HandleLookup heap key hash t = Some e \<longleftrightarrow> e \<in> ht_handles t \<and> has_key heap key hash e"
proof -
  obtain b p where f: "FindPointer heap key hash t = (b, p)" by fastforce
  from find_pointer [OF assms f] key_unique [OF assms] show ?thesis
    by (auto simp: HandleLookup_def f)
qed

lemma concat_update:
  assumes "b < length bs"
  shows "concat (bs[b := c]) = concat (take b bs) @ c @ concat (drop (Suc b) bs)"
    and "concat bs = concat (take b bs) @ bs ! b @ concat (drop (Suc b) bs)"
proof -
  show "concat (bs[b := c]) = concat (take b bs) @ c @ concat (drop (Suc b) bs)"
    using assms by (simp add: upd_conv_take_nth_drop)
  show "concat bs = concat (take b bs) @ bs ! b @ concat (drop (Suc b) bs)"
    by (subst id_take_nth_drop [OF assms]) simp
qed

lemma buckets_push:
  assumes ok: "buckets_ok heap bs" and new: "e \<notin> set (concat bs)"
    and "\<forall>x \<in> set (concat bs). (lh_key (heap x), lh_hash (heap x)) \<noteq> (lh_key (heap e), lh_hash (heap e))"
    and b: "b = ht_bucket (length bs) (lh_hash (heap e))" and c: "mset c = add_mset e (mset (bs ! b))"
  shows "buckets_ok heap (bs[b := c]) \<and> mset (concat (bs[b := c])) = add_mset e (mset (concat bs))"
proof -
  have bl: "b < length bs" using in_bucket(2) [OF ok] b by simp
  have m: "mset (concat (bs[b := c])) = add_mset e (mset (concat bs))"
    using concat_update(1) [OF bl, of c] c by (simp add: concat_update(2) [OF bl])
  then have s: "set (concat (bs[b := c])) = insert e (set (concat bs))" by (metis set_mset_add_mset_insert set_mset_mset)
  have sc: "set c = insert e (set (bs ! b))" using c by (metis set_mset_add_mset_insert set_mset_mset)
  have "distinct (concat (bs[b := c]))"
    using m new ok by (metis buckets_ok_def distinct.simps(2) mset.simps(2) mset_eq_imp_distinct_iff)
  moreover have "inj_on (\<lambda>e. (lh_key (heap e), lh_hash (heap e))) (set (concat (bs[b := c])))"
    unfolding s using ok assms(3) by (fastforce simp: buckets_ok_def)
  ultimately show ?thesis
    using ok b bl sc m by (auto simp: buckets_ok_def nth_list_update)
qed

lemma buckets_empty: "buckets_ok heap (replicate (2 ^ k) [])"
  by (auto simp: buckets_ok_def)

lemma fold_push:
  assumes "buckets_ok heap bs" and "distinct (es @ concat bs)"
    and "inj_on (\<lambda>e. (lh_key (heap e), lh_hash (heap e))) (set (es @ concat bs))"
  shows "buckets_ok heap (fold (push_handle heap (length bs)) es bs) \<and>
    mset (concat (fold (push_handle heap (length bs)) es bs)) = mset es + mset (concat bs) \<and>
    length (fold (push_handle heap (length bs)) es bs) = length bs"
  using assms
proof (induction es arbitrary: bs)
  case (Cons e es)
  let ?b = "ht_bucket (length bs) (lh_hash (heap e))"
  let ?bs = "bs[?b := e # bs ! ?b]"
  have "\<forall>x \<in> set (concat bs). (lh_key (heap x), lh_hash (heap x)) \<noteq> (lh_key (heap e), lh_hash (heap e))"
    using Cons.prems(2,3) by (auto simp: inj_on_def)
  then have p: "buckets_ok heap ?bs \<and> mset (concat ?bs) = add_mset e (mset (concat bs))"
    using Cons.prems by (intro buckets_push) auto
  then have s: "set (concat ?bs) = insert e (set (concat bs))" by (metis set_mset_add_mset_insert set_mset_mset)
  have d: "distinct (concat ?bs)" using p by (simp add: buckets_ok_def)
  have "distinct (es @ concat ?bs)" using Cons.prems(2) d s by auto
  moreover have "inj_on (\<lambda>e. (lh_key (heap e), lh_hash (heap e))) (set (es @ concat ?bs))"
    using Cons.prems(3) s by (auto simp: insert_commute)
  moreover have "push_handle heap (length bs) e bs = ?bs" by (simp add: push_handle_def Let_def)
  ultimately show ?case using Cons.IH [of ?bs] p by simp
qed simp

lemma resize_ok:
  assumes "table_ok heap t"
  shows "table_ok heap (Resize heap t) \<and> ht_handles (Resize heap t) = ht_handles t"
proof -
  obtain k where k: "resize_length 4 (ht_elems t) = 2 ^ k" using resize_power [of 2 "ht_elems t"] by auto
  let ?bs = "fold (push_handle heap (2 ^ k)) (concat (ht_list t)) (replicate (2 ^ k) [])"
  have b: "buckets_ok heap ?bs \<and> mset (concat ?bs) = mset (concat (ht_list t)) \<and> length ?bs = 2 ^ k"
    using fold_push [OF buckets_empty [of heap k], of "concat (ht_list t)"] assms
    by (auto simp: table_ok_def buckets_ok_def)
  then have "set (concat ?bs) = set (concat (ht_list t))" "length (concat ?bs) = length (concat (ht_list t))"
    using mset_eq_setD mset_eq_length by blast+
  moreover have "Resize heap t = t\<lparr>ht_list := ?bs, ht_length := 2 ^ k\<rparr>" by (simp add: Resize_def k Let_def)
  ultimately show ?thesis
    using b assms by (simp add: table_ok_def ht_handles_def)
qed

lemma new_table_ok: "table_ok heap (NewHandleTable heap) \<and> ht_handles (NewHandleTable heap) = {}"
proof -
  have "resize_length 4 0 = 2 ^ 2" by (simp add: resize_length.simps)
  then show ?thesis
    using buckets_empty [of heap 2] by (simp add: NewHandleTable_def Resize_def table_ok_def ht_handles_def)
qed

lemma same_keys_has: "same_keys h h' A \<Longrightarrow> e \<in> A \<Longrightarrow> has_key h' key hash e = has_key h key hash e"
  by (simp add: same_keys_def has_key_def)

lemma table_ok_same:
  assumes "table_ok h t" and s: "same_keys h h' (ht_handles t)"
  shows "table_ok h' t"
proof -
  have "\<forall>b < length (ht_list t). \<forall>e \<in> set (ht_list t ! b). lh_hash (h' e) = lh_hash (h e)"
    using s by (auto simp: same_keys_def ht_handles_def)
  moreover have "inj_on (\<lambda>e. (lh_key (h' e), lh_hash (h' e))) (set (concat (ht_list t))) =
      inj_on (\<lambda>e. (lh_key (h e), lh_hash (h e))) (set (concat (ht_list t)))"
    using s by (intro inj_on_cong) (auto simp: same_keys_def ht_handles_def)
  ultimately show ?thesis using assms(1) by (simp add: table_ok_def buckets_ok_def)
qed

lemma handle_remove:
  assumes ok: "table_ok heap t" and r: "HandleRemove heap key hash t = (old, t')"
  shows "table_ok heap t'"
    and "\<forall>x. old = Some x \<longleftrightarrow> x \<in> ht_handles t \<and> has_key heap key hash x"
    and "ht_handles t' = {e \<in> ht_handles t. \<not> has_key heap key hash e}"
proof -
  obtain b p where f: "FindPointer heap key hash t = (b, p)" by fastforce
  note fp = find_pointer [OF ok f]
  let ?bs = "ht_list t"
  have bo: "buckets_ok heap ?bs" using ok by (simp add: table_ok_def)
  show "table_ok heap t'"
    and "\<forall>x. old = Some x \<longleftrightarrow> x \<in> ht_handles t \<and> has_key heap key hash x"
    and "ht_handles t' = {e \<in> ht_handles t. \<not> has_key heap key hash e}"
  proof (atomize (full), cases "p < length (?bs ! b)")
    case False
    with fp(5) r ok have "old = None" "t' = t" "\<forall>e \<in> ht_handles t. \<not> has_key heap key hash e"
      by (auto simp: HandleRemove_def f Let_def)
    with ok show "table_ok heap t' \<and>
      (\<forall>x. old = Some x \<longleftrightarrow> x \<in> ht_handles t \<and> has_key heap key hash x) \<and>
      ht_handles t' = {e \<in> ht_handles t. \<not> has_key heap key hash e}" by auto
  next
    case True
    let ?e = "?bs ! b ! p" and ?c = "take p (?bs ! b) @ drop (Suc p) (?bs ! b)"
    have e: "?e \<in> ht_handles t" "has_key heap key hash ?e" using fp(4) True by auto
    have t': "old = Some ?e" "t' = t\<lparr>ht_list := ?bs[b := ?c], ht_elems := ht_elems t - 1\<rparr>"
      using r True by (auto simp: HandleRemove_def f Let_def)
    have m: "mset (?bs ! b) = add_mset ?e (mset ?c)" by (subst id_take_nth_drop [OF True]) simp
    have mc: "mset (concat ?bs) = add_mset ?e (mset (concat (?bs[b := ?c])))"
      using m by (simp add: concat_update(1) [OF fp(2)] concat_update(2) [OF fp(2)])
    have d: "distinct (?e # concat (?bs[b := ?c]))"
      using bo mc by (metis buckets_ok_def mset.simps(2) mset_eq_imp_distinct_iff)
    have s: "set (concat ?bs) = insert ?e (set (concat (?bs[b := ?c])))"
      using mc by (metis set_mset_add_mset_insert set_mset_mset)
    have sub: "set ?c \<subseteq> set (?bs ! b)" by (auto dest: in_set_takeD in_set_dropD)
    have "buckets_ok heap (?bs[b := ?c])"
      using bo d s sub fp(2) unfolding buckets_ok_def
      by (auto simp: nth_list_update simp del: set_concat intro: inj_on_subset)
    moreover have "length (concat ?bs) = Suc (length (concat (?bs[b := ?c])))" using mc by (metis mset.simps(2) size_mset size_add_mset)
    ultimately have ok': "table_ok heap t'" using ok by (simp add: t' table_ok_def)
    have h: "ht_handles t' = ht_handles t - {?e}" using s d by (auto simp: t' ht_handles_def)
    have u: "\<forall>x. x \<in> ht_handles t \<and> has_key heap key hash x \<longleftrightarrow> x = ?e"
      using key_unique [OF ok _ e(1) _ e(2)] e by blast
    have "ht_handles t' = {e \<in> ht_handles t. \<not> has_key heap key hash e}" unfolding h using u by blast
    with ok' u show "table_ok heap t' \<and>
      (\<forall>x. old = Some x \<longleftrightarrow> x \<in> ht_handles t \<and> has_key heap key hash x) \<and>
      ht_handles t' = {e \<in> ht_handles t. \<not> has_key heap key hash e}"
      unfolding t'(1) by (simp only: u option.inject) blast
  qed
qed

lemma handle_insert:
  assumes ok: "table_ok heap t" and new: "e \<notin> ht_handles t" and r: "HandleInsert heap e t = (old, t')"
    and k: "key = lh_key (heap e)" "hash = lh_hash (heap e)"
  shows "table_ok heap t'"
    and "\<forall>x. old = Some x \<longleftrightarrow> x \<in> ht_handles t \<and> has_key heap key hash x"
    and "ht_handles t' = insert e {e \<in> ht_handles t. \<not> has_key heap key hash e}"
proof -
  obtain b p where f: "FindPointer heap key hash t = (b, p)" by fastforce
  note fp = find_pointer [OF ok f]
  let ?bs = "ht_list t"
  have bo: "buckets_ok heap ?bs" using ok by (simp add: table_ok_def)
  show "table_ok heap t'"
    and "\<forall>x. old = Some x \<longleftrightarrow> x \<in> ht_handles t \<and> has_key heap key hash x"
    and "ht_handles t' = insert e {e \<in> ht_handles t. \<not> has_key heap key hash e}"
  proof (atomize (full), cases "p < length (?bs ! b)")
    case False
    then have none: "\<forall>x \<in> ht_handles t. \<not> has_key heap key hash x" using fp(5) by blast
    let ?t = "t\<lparr>ht_list := ?bs[b := ?bs ! b @ [e]], ht_elems := ht_elems t + 1\<rparr>"
    have t': "old = None" "t' = (if ht_elems ?t > ht_length ?t then Resize heap ?t else ?t)"
      using r False f k by (auto simp: HandleInsert_def Let_def)
    have p: "buckets_ok heap (?bs[b := ?bs ! b @ [e]]) \<and> mset (concat (?bs[b := ?bs ! b @ [e]])) = add_mset e (mset (concat ?bs))"
      using none new fp(1) k by (intro buckets_push [OF bo]) (auto simp: ht_handles_def has_key_def)
    then have "length (concat (?bs[b := ?bs ! b @ [e]])) = Suc (length (concat ?bs))"
      "set (concat (?bs[b := ?bs ! b @ [e]])) = insert e (set (concat ?bs))"
      by (metis size_mset size_add_mset) (use p in \<open>metis set_mset_add_mset_insert set_mset_mset\<close>)
    with p ok have "table_ok heap ?t" "ht_handles ?t = insert e (ht_handles t)"
      by (simp_all add: table_ok_def ht_handles_def)
    with resize_ok [of heap ?t] have "table_ok heap t'" "ht_handles t' = insert e (ht_handles t)"
      unfolding t'(2) by auto
    with none t'(1) show "table_ok heap t' \<and>
      (\<forall>x. old = Some x \<longleftrightarrow> x \<in> ht_handles t \<and> has_key heap key hash x) \<and>
      ht_handles t' = insert e {e \<in> ht_handles t. \<not> has_key heap key hash e}" by auto
  next
    case True
    obtain o2 t2 where r2: "HandleRemove heap key hash t = (o2, t2)" by fastforce
    note rm = handle_remove [OF ok r2]
    have b2: "ht_list t2 = ?bs[b := take p (?bs ! b) @ drop (Suc p) (?bs ! b)]" "ht_elems t2 = ht_elems t - 1" "o2 = Some (?bs ! b ! p)"
      "ht_length t2 = ht_length t"
      using r2 True f by (auto simp: HandleRemove_def Let_def)
    have t': "old = o2" "t' = t\<lparr>ht_list := ?bs[b := (?bs ! b)[p := e]]\<rparr>"
      using r True f k b2(3) by (auto simp: HandleInsert_def Let_def)
    have e2: "e \<notin> ht_handles t2" "\<forall>x \<in> ht_handles t2. \<not> has_key heap key hash x" using new rm(3) by auto
    have eq: "(ht_list t2)[b := (?bs ! b)[p := e]] = ht_list t'" by (simp add: b2 t')
    have c: "mset ((?bs ! b)[p := e]) = add_mset e (mset (ht_list t2 ! b))"
      unfolding b2(1) nth_list_update_eq [OF fp(2)] upd_conv_take_nth_drop [OF True] by simp
    have p: "buckets_ok heap (ht_list t') \<and> mset (concat (ht_list t')) = add_mset e (mset (concat (ht_list t2)))"
      unfolding eq [symmetric]
      using e2 rm(1) k fp(1) c by (intro buckets_push) (auto simp: table_ok_def ht_handles_def has_key_def b2)
    then have "length (concat (ht_list t')) = Suc (length (concat (ht_list t2)))"
      "set (concat (ht_list t')) = insert e (set (concat (ht_list t2)))"
      by (metis size_mset size_add_mset) (use p in \<open>metis set_mset_add_mset_insert set_mset_mset\<close>)
    moreover have "0 < length (concat ?bs)" using True by (simp only: concat_update(2) [OF fp(2)] length_append)
    moreover have "length (concat (ht_list t2)) = ht_elems t2" using rm(1) by (simp add: table_ok_def)
    moreover have "ht_elems t = length (concat ?bs)" using ok by (simp add: table_ok_def)
    moreover have "ht_elems t' = ht_elems t" "ht_length t' = ht_length t" "length (ht_list t') = length ?bs" by (simp_all add: t')
    moreover have "ht_length t = length ?bs" using ok by (simp add: table_ok_def)
    ultimately have "table_ok heap t'" "ht_handles t' = insert e (ht_handles t2)"
      using p b2(2) unfolding table_ok_def ht_handles_def by linarith+
    with rm(2,3) t'(1) show "table_ok heap t' \<and>
      (\<forall>x. old = Some x \<longleftrightarrow> x \<in> ht_handles t \<and> has_key heap key hash x) \<and>
      ht_handles t' = insert e {e \<in> ht_handles t. \<not> has_key heap key hash e}" by simp
  qed
qed

subsection \<open>The invariant of a shard\<close>

text \<open>
  \<open>ext\<close> counts the handles that the clients hold, and \<open>H\<close> is what the hash table holds. An entry in
  the cache is on \<open>lru\<close> or on \<open>in_use\<close>, according to whether a client holds it; it has one reference
  for every client and one for the cache; and the deleter has run, once, on exactly the entries that
  have no reference left.
\<close>

definition linked :: "(lru_addr \<Rightarrow> nat) \<Rightarrow> lru_addr set \<Rightarrow> 'v LRUCache \<Rightarrow> bool" where
  "linked ext H c \<longleftrightarrow>
     H = {e. e < c_fresh c \<and> lh_in_cache (c_heap c e)} \<and>
     distinct (c_lru c) \<and> set (c_lru c) = {e \<in> H. ext e = 0} \<and>
     distinct (c_in_use c) \<and> set (c_in_use c) = {e \<in> H. 0 < ext e} \<and>
     (\<forall>e < c_fresh c. lh_refs (c_heap c e) = ext e + (if lh_in_cache (c_heap c e) then 1 else 0)) \<and>
     (\<forall>e \<ge> c_fresh c. ext e = 0) \<and>
     distinct (c_deleted c) \<and> set (c_deleted c) = {e. e < c_fresh c \<and> lh_refs (c_heap c e) = 0} \<and>
     c_usage c = (\<Sum>e \<in> H. lh_charge (c_heap c e))"

definition cache_inv :: "(lru_addr \<Rightarrow> nat) \<Rightarrow> 'v LRUCache \<Rightarrow> bool" where
  "cache_inv ext c \<longleftrightarrow> table_ok (c_heap c) (c_table c) \<and> linked ext (ht_handles (c_table c)) c"

text \<open>What no operation changes: the capacity, and the keys, values and charges of the handles.\<close>

definition same_entries :: "'v LRUCache \<Rightarrow> 'v LRUCache \<Rightarrow> bool" where
  "same_entries c c' \<longleftrightarrow>
     c_capacity c' = c_capacity c \<and> c_fresh c \<le> c_fresh c' \<and>
     (\<forall>e < c_fresh c. lh_key (c_heap c' e) = lh_key (c_heap c e) \<and> lh_hash (c_heap c' e) = lh_hash (c_heap c e) \<and>
        lh_value (c_heap c' e) = lh_value (c_heap c e) \<and> lh_charge (c_heap c' e) = lh_charge (c_heap c e))"

lemma same_entries_refl [simp]: "same_entries c c"
  by (simp add: same_entries_def)

lemma same_entries_trans [trans]: "same_entries a b \<Longrightarrow> same_entries b c \<Longrightarrow> same_entries a c"
  by (auto simp: same_entries_def)

lemma linked_table [simp]: "linked ext H (c\<lparr>c_table := t\<rparr>) = linked ext H c"
  by (simp add: linked_def)

lemma linked_handles: "linked ext H c \<Longrightarrow> finite H \<and> (\<forall>e \<in> H. e < c_fresh c \<and> lh_in_cache (c_heap c e) \<and> lh_refs (c_heap c e) = ext e + 1)"
  by (auto simp: linked_def)

lemma same_entries_table:
  assumes "table_ok (c_heap c) t" and "same_entries c c'" and "\<forall>e \<in> ht_handles t. e < c_fresh c"
  shows "table_ok (c_heap c') t"
proof (rule table_ok_same [OF assms(1)])
  show "same_keys (c_heap c) (c_heap c') (ht_handles t)"
    using assms(2,3) unfolding same_keys_def same_entries_def by blast
qed

text \<open>The states after the operations, written out.\<close>

lemma finish_erase_state:
  "FinishErase (Some e) c = (True, c\<lparr>c_lru := remove1 e (c_lru c), c_in_use := remove1 e (c_in_use c),
     c_heap := (c_heap c)(e := (c_heap c e)\<lparr>lh_in_cache := False, lh_refs := lh_refs (c_heap c e) - 1\<rparr>),
     c_usage := c_usage c - lh_charge (c_heap c e),
     c_deleted := (if lh_refs (c_heap c e) \<le> 1 then c_deleted c @ [e] else c_deleted c)\<rparr>)"
  by (cases "lh_refs (c_heap c e) \<le> 1") (simp_all add: FinishErase_def LRU_Remove_def upd_handle_def Unref_def Let_def)

lemma linkedI:
  assumes "H = {e. e < c_fresh c \<and> lh_in_cache (c_heap c e)}"
    and "distinct (c_lru c)" and "set (c_lru c) = {e \<in> H. ext e = 0}"
    and "distinct (c_in_use c)" and "set (c_in_use c) = {e \<in> H. 0 < ext e}"
    and "\<And>e. e < c_fresh c \<Longrightarrow> lh_refs (c_heap c e) = ext e + (if lh_in_cache (c_heap c e) then 1 else 0)"
    and "\<And>e. c_fresh c \<le> e \<Longrightarrow> ext e = 0"
    and "distinct (c_deleted c)" and "set (c_deleted c) = {e. e < c_fresh c \<and> lh_refs (c_heap c e) = 0}"
    and "c_usage c = (\<Sum>e \<in> H. lh_charge (c_heap c e))"
  shows "linked ext H c"
  using assms unfolding linked_def by simp

lemma linkedD:
  assumes "linked ext H c"
  shows "H = {e. e < c_fresh c \<and> lh_in_cache (c_heap c e)}"
    and "distinct (c_lru c)" and "set (c_lru c) = {e \<in> H. ext e = 0}"
    and "distinct (c_in_use c)" and "set (c_in_use c) = {e \<in> H. 0 < ext e}"
    and "e < c_fresh c \<Longrightarrow> lh_refs (c_heap c e) = ext e + (if lh_in_cache (c_heap c e) then 1 else 0)"
    and "c_fresh c \<le> e \<Longrightarrow> ext e = 0"
    and "distinct (c_deleted c)" and "set (c_deleted c) = {e. e < c_fresh c \<and> lh_refs (c_heap c e) = 0}"
    and "c_usage c = (\<Sum>e \<in> H. lh_charge (c_heap c e))"
  using assms unfolding linked_def by simp_all

lemma finish_erase_ok:
  assumes l: "linked ext H c" and e: "e \<in> H" and f: "FinishErase (Some e) c = (b, c')"
  shows "linked ext (H - {e}) c'" and "same_entries c c'" and "b" and "c_table c' = c_table c"
    and "c_lru c' = remove1 e (c_lru c)" and "c_fresh c' = c_fresh c"
    and "c_usage c' = c_usage c - lh_charge (c_heap c e)"
proof -
  have h: "finite H" "e < c_fresh c" "lh_in_cache (c_heap c e)" "lh_refs (c_heap c e) = ext e + 1"
    using linked_handles [OF l] e by auto
  have c': "c' = snd (FinishErase (Some e) c)" and b: "b" using f by (simp_all add: finish_erase_state)
  then show "same_entries c c'" "b" "c_table c' = c_table c" and lru: "c_lru c' = remove1 e (c_lru c)" and "c_fresh c' = c_fresh c"
    and us: "c_usage c' = c_usage c - lh_charge (c_heap c e)"
    by (simp_all add: finish_erase_state same_entries_def)
  have u: "(\<Sum>x \<in> H - {e}. lh_charge (c_heap c x)) = c_usage c - lh_charge (c_heap c e)"
    using l h(1) e by (simp add: linked_def sum_diff1)
  have u': "(\<Sum>x \<in> H - {e}. lh_charge (c_heap c' x)) = (\<Sum>x \<in> H - {e}. lh_charge (c_heap c x))"
    by (intro sum.cong) (auto simp: c' finish_erase_state)
  note d = linkedD [OF l]
  have heap: "c_heap c' = (c_heap c)(e := (c_heap c e)\<lparr>lh_in_cache := False, lh_refs := ext e\<rparr>)" "c_fresh c' = c_fresh c"
    "c_in_use c' = remove1 e (c_in_use c)" "c_deleted c' = (if ext e = 0 then c_deleted c @ [e] else c_deleted c)"
    by (simp_all add: c' finish_erase_state h(4))
  have ne: "e \<notin> set (c_deleted c)" using d(9) h by simp
  show "linked ext (H - {e}) c'"
  proof (rule linkedI)
    show "H - {e} = {x. x < c_fresh c' \<and> lh_in_cache (c_heap c' x)}" using d(1) by (auto simp: heap)
    show "set (c_lru c') = {x \<in> H - {e}. ext x = 0}" "set (c_in_use c') = {x \<in> H - {e}. 0 < ext x}"
      using d(2-5) by (auto simp: heap lru)
    show "distinct (c_lru c')" "distinct (c_in_use c')" using d(2,4) by (simp_all add: heap lru)
    show "lh_refs (c_heap c' x) = ext x + (if lh_in_cache (c_heap c' x) then 1 else 0)" if "x < c_fresh c'" for x
      using d(6) [of x] that by (simp add: heap)
    show "ext x = 0" if "c_fresh c' \<le> x" for x using d(7) that by (simp add: heap)
    show "distinct (c_deleted c')" using d(8) ne by (simp add: heap)
    show "set (c_deleted c') = {x. x < c_fresh c' \<and> lh_refs (c_heap c' x) = 0}"
      using h(2-4) by (cases "ext e = 0") (auto simp: heap d(9))
    show "c_usage c' = (\<Sum>x \<in> H - {e}. lh_charge (c_heap c' x))" using u u' us by simp
  qed
qed

lemma ref_ok:
  assumes l: "linked ext H c" and e: "e \<in> H"
  shows "linked (ext(e := ext e + 1)) H (Ref e c)" and "same_entries c (Ref e c)" and "c_table (Ref e c) = c_table c"
    and "c_fresh (Ref e c) = c_fresh c" and "c_usage (Ref e c) = c_usage c" and "c_deleted (Ref e c) = c_deleted c"
proof -
  have h: "e < c_fresh c" "lh_in_cache (c_heap c e)" "lh_refs (c_heap c e) = ext e + 1"
    using linked_handles [OF l] e by auto
  note d = linkedD [OF l]
  have heap: "c_heap (Ref e c) = (c_heap c)(e := (c_heap c e)\<lparr>lh_refs := ext e + 2\<rparr>)"
    "c_lru (Ref e c) = (if ext e = 0 then remove1 e (c_lru c) else c_lru c)"
    "c_in_use (Ref e c) = (if ext e = 0 then remove1 e (c_in_use c) @ [e] else c_in_use c)"
    using h by (simp_all add: Ref_def LRU_Append_in_use_def LRU_Remove_def upd_handle_def Let_def)
  show same: "c_table (Ref e c) = c_table c" "c_fresh (Ref e c) = c_fresh c" "c_usage (Ref e c) = c_usage c"
    "c_deleted (Ref e c) = c_deleted c"
    by (simp_all add: Ref_def LRU_Append_in_use_def LRU_Remove_def upd_handle_def Let_def)
  have "c_capacity (Ref e c) = c_capacity c"
    by (simp add: Ref_def LRU_Append_in_use_def LRU_Remove_def upd_handle_def Let_def)
  then show "same_entries c (Ref e c)" using same(2) by (simp add: same_entries_def heap)
  show "linked (ext(e := ext e + 1)) H (Ref e c)"
  proof (rule linkedI, unfold same)
    show "H = {x. x < c_fresh c \<and> lh_in_cache (c_heap (Ref e c) x)}" using d(1) by (auto simp: heap)
    show "distinct (c_lru (Ref e c))" "distinct (c_in_use (Ref e c))"
      using d(2,4,5) e by (simp_all add: heap)
    show "set (c_lru (Ref e c)) = {x \<in> H. (ext(e := ext e + 1)) x = 0}"
      using e by (cases "ext e = 0") (auto simp: heap d(2,3))
    show "set (c_in_use (Ref e c)) = {x \<in> H. 0 < (ext(e := ext e + 1)) x}"
      using e by (cases "ext e = 0") (auto simp: heap d(4,5))
    show "lh_refs (c_heap (Ref e c) x) = (ext(e := ext e + 1)) x + (if lh_in_cache (c_heap (Ref e c) x) then 1 else 0)"
      if "x < c_fresh c" for x
      using d(6) [OF that] h by (simp add: heap)
    show "(ext(e := ext e + 1)) x = 0" if "c_fresh c \<le> x" for x using d(7) [OF that] that h(1) by simp
    show "distinct (c_deleted c)" by (rule d(8))
    show "set (c_deleted c) = {x. x < c_fresh c \<and> lh_refs (c_heap (Ref e c) x) = 0}" unfolding d(9) by (simp add: heap h(3) cong: conj_cong) (use h in auto)
    have "(\<Sum>x \<in> H. lh_charge (c_heap (Ref e c) x)) = (\<Sum>x \<in> H. lh_charge (c_heap c x))"
      by (intro sum.cong) (auto simp: heap)
    then show "c_usage c = (\<Sum>x \<in> H. lh_charge (c_heap (Ref e c) x))" using d(10) by simp
  qed
qed

lemma unref_ok:
  assumes l: "linked ext H c" and x: "0 < ext e"
  shows "linked (ext(e := ext e - 1)) H (Unref e c)" and "same_entries c (Unref e c)" and "c_table (Unref e c) = c_table c"
    and "c_fresh (Unref e c) = c_fresh c" and "c_usage (Unref e c) = c_usage c"
    and "c_deleted (Unref e c) = (if ext e = 1 \<and> e \<notin> H then c_deleted c @ [e] else c_deleted c)"
proof -
  note d = linkedD [OF l]
  have h: "e < c_fresh c" using d(7) [of e] x by (metis linorder_not_less less_numeral_extra(3))
  define i :: nat where "i = (if lh_in_cache (c_heap c e) then 1 else 0)"
  have r: "lh_refs (c_heap c e) = ext e + i" and i: "e \<in> H \<longleftrightarrow> i = 1" "lh_in_cache (c_heap c e) \<longleftrightarrow> i = 1"
    using d(6) [OF h] d(1) h by (simp_all add: i_def)
  have i01: "i = 0 \<or> i = 1" by (simp add: i_def)
  have s: "ext e + i - 1 = 0 \<longleftrightarrow> ext e = 1 \<and> e \<notin> H" "i = 1 \<and> ext e + i - 1 = 1 \<longleftrightarrow> ext e = 1 \<and> e \<in> H"
    using x i01 by (auto simp: i(1))
  have U: "Unref e c = (let c1 = upd_handle e (\<lambda>h. h\<lparr>lh_refs := ext e + i - 1\<rparr>) c
    in if ext e = 1 \<and> e \<notin> H then c1\<lparr>c_deleted := c_deleted c1 @ [e]\<rparr>
       else if ext e = 1 \<and> e \<in> H then LRU_Append_lru e (LRU_Remove e c1) else c1)"
    unfolding s [symmetric] by (simp add: Unref_def upd_handle_def Let_def r i(2))
  have heap: "c_heap (Unref e c) = (c_heap c)(e := (c_heap c e)\<lparr>lh_refs := ext e + i - 1\<rparr>)"
    "c_lru (Unref e c) = (if ext e = 1 \<and> e \<in> H then remove1 e (c_lru c) @ [e] else c_lru c)"
    "c_in_use (Unref e c) = (if ext e = 1 \<and> e \<in> H then remove1 e (c_in_use c) else c_in_use c)"
    "c_capacity (Unref e c) = c_capacity c"
    by (simp_all add: U LRU_Append_lru_def LRU_Remove_def upd_handle_def Let_def)
  show del: "c_deleted (Unref e c) = (if ext e = 1 \<and> e \<notin> H then c_deleted c @ [e] else c_deleted c)"
    by (simp add: U LRU_Append_lru_def LRU_Remove_def upd_handle_def Let_def)
  show same: "c_table (Unref e c) = c_table c" "c_fresh (Unref e c) = c_fresh c" "c_usage (Unref e c) = c_usage c"
    by (simp_all add: U LRU_Append_lru_def LRU_Remove_def upd_handle_def Let_def)
  show "same_entries c (Unref e c)" using same(2) heap(4) by (simp add: same_entries_def heap(1))
  show "linked (ext(e := ext e - 1)) H (Unref e c)"
  proof (rule linkedI, unfold same)
    show "H = {y. y < c_fresh c \<and> lh_in_cache (c_heap (Unref e c) y)}" using d(1) by (auto simp: heap)
    show "distinct (c_lru (Unref e c))" "distinct (c_in_use (Unref e c))" using d(2,3,4) x by (simp_all add: heap)
    show "set (c_lru (Unref e c)) = {y \<in> H. (ext(e := ext e - 1)) y = 0}"
      using x by (cases "ext e = 1 \<and> e \<in> H") (auto simp: heap d(2,3))
    show "set (c_in_use (Unref e c)) = {y \<in> H. 0 < (ext(e := ext e - 1)) y}"
      using x by (cases "ext e = 1 \<and> e \<in> H") (auto simp: heap d(4,5))
    show "lh_refs (c_heap (Unref e c) y) = (ext(e := ext e - 1)) y + (if lh_in_cache (c_heap (Unref e c) y) then 1 else 0)"
      if "y < c_fresh c" for y
      using d(6) [OF that] r x by (simp add: heap(1) i(2)) (simp add: i_def)
    show "(ext(e := ext e - 1)) y = 0" if "c_fresh c \<le> y" for y using d(7) [OF that] by (cases "y = e") simp_all
    have ne: "e \<notin> set (c_deleted c)" using d(9) r x by simp
    then show "distinct (c_deleted (Unref e c))" using d(8) by (simp add: del)
    show "set (c_deleted (Unref e c)) = {y. y < c_fresh c \<and> lh_refs (c_heap (Unref e c) y) = 0}"
      using ne h x s(1) by (cases "ext e = 1 \<and> e \<notin> H") (auto simp: del heap(1) d(9))
    have "(\<Sum>y \<in> H. lh_charge (c_heap (Unref e c) y)) = (\<Sum>y \<in> H. lh_charge (c_heap c y))"
      by (intro sum.cong) (auto simp: heap)
    then show "c_usage c = (\<Sum>y \<in> H. lh_charge (c_heap (Unref e c) y))" using d(10) by simp
  qed
qed

subsection \<open>The operations of a shard keep the invariant\<close>

lemma cache_inv_below: "cache_inv ext c \<Longrightarrow> \<forall>e \<in> ht_handles (c_table c). e < c_fresh c"
  using linked_handles by (auto simp: cache_inv_def)

lemma cache_lookup_ok:
  assumes i: "cache_inv ext c" and l: "CacheLookup key hash c = (r, c')"
  shows "\<forall>e. r = Some e \<longleftrightarrow> e \<in> ht_handles (c_table c) \<and> has_key (c_heap c) key hash e"
    and "cache_inv (case r of None \<Rightarrow> ext | Some e \<Rightarrow> ext(e := ext e + 1)) c'"
    and "same_entries c c'" and "c_table c' = c_table c" and "c_fresh c' = c_fresh c" and "c_usage c' = c_usage c"
    and "c_deleted c' = c_deleted c"
proof -
  have t: "table_ok (c_heap c) (c_table c)" and li: "linked ext (ht_handles (c_table c)) c" using i by (simp_all add: cache_inv_def)
  have r: "r = HandleLookup (c_heap c) key hash (c_table c)" using l by (auto simp: CacheLookup_def split: option.splits)
  then show h: "\<forall>e. r = Some e \<longleftrightarrow> e \<in> ht_handles (c_table c) \<and> has_key (c_heap c) key hash e"
    using handle_lookup [OF t] by simp
  have c': "c' = (case r of None \<Rightarrow> c | Some e \<Rightarrow> Ref e c)"
    using l r by (auto simp: CacheLookup_def split: option.splits)
  have "same_entries c c' \<and> c_table c' = c_table c \<and> c_fresh c' = c_fresh c \<and> c_usage c' = c_usage c \<and> c_deleted c' = c_deleted c \<and>
    linked (case r of None \<Rightarrow> ext | Some e \<Rightarrow> ext(e := ext e + 1)) (ht_handles (c_table c)) c'"
  proof (cases r)
    case None
    then show ?thesis using c' li by simp
  next
    case (Some e)
    then have "e \<in> ht_handles (c_table c)" using h by simp
    from ref_ok [OF li this] show ?thesis unfolding c' Some option.case by blast
  qed
  then show "same_entries c c'" "c_table c' = c_table c" "c_fresh c' = c_fresh c" "c_usage c' = c_usage c" "c_deleted c' = c_deleted c"
    and "cache_inv (case r of None \<Rightarrow> ext | Some e \<Rightarrow> ext(e := ext e + 1)) c'"
    using same_entries_table [OF t, of c'] cache_inv_below [OF i] by (simp_all add: cache_inv_def)
qed

lemma cache_release_ok:
  assumes i: "cache_inv ext c" and x: "0 < ext e"
  shows "cache_inv (ext(e := ext e - 1)) (Release e c)"
    and "same_entries c (Release e c)" and "c_table (Release e c) = c_table c" and "c_usage (Release e c) = c_usage c"
    and "c_deleted (Release e c) = (if ext e = 1 \<and> e \<notin> ht_handles (c_table c) then c_deleted c @ [e] else c_deleted c)"
proof -
  have t: "table_ok (c_heap c) (c_table c)" and li: "linked ext (ht_handles (c_table c)) c" using i by (simp_all add: cache_inv_def)
  note u = unref_ok [OF li x, folded Release_def]
  show "same_entries c (Release e c)" "c_table (Release e c) = c_table c" "c_usage (Release e c) = c_usage c"
    "c_deleted (Release e c) = (if ext e = 1 \<and> e \<notin> ht_handles (c_table c) then c_deleted c @ [e] else c_deleted c)"
    by (fact u)+
  show "cache_inv (ext(e := ext e - 1)) (Release e c)"
    using u(1) same_entries_table [OF t u(2) cache_inv_below [OF i]] by (simp add: cache_inv_def u(3))
qed

lemma remove_and_finish_ok:
  assumes i: "cache_inv ext c" and r: "remove_and_finish key hash c = (b, c')"
  shows "cache_inv ext c'" and "same_entries c c'" and "c_fresh c' = c_fresh c"
    and "ht_handles (c_table c') = {e \<in> ht_handles (c_table c). \<not> has_key (c_heap c) key hash e}"
    and "\<forall>e \<in> ht_handles (c_table c). has_key (c_heap c) key hash e \<longrightarrow>
      c_lru c' = remove1 e (c_lru c) \<and> c_usage c' = c_usage c - lh_charge (c_heap c e)"
proof -
  have t: "table_ok (c_heap c) (c_table c)" and li: "linked ext (ht_handles (c_table c)) c" using i by (simp_all add: cache_inv_def)
  obtain old t' where h: "HandleRemove (c_heap c) key hash (c_table c) = (old, t')" by fastforce
  note hr = handle_remove [OF t h]
  let ?c = "c\<lparr>c_table := t'\<rparr>"
  have f: "FinishErase old ?c = (b, c')" using r by (simp add: remove_and_finish_def h)
  have "cache_inv ext c' \<and> same_entries c c' \<and> c_fresh c' = c_fresh c \<and> c_table c' = t' \<and>
    (\<forall>e \<in> ht_handles (c_table c). has_key (c_heap c) key hash e \<longrightarrow>
      c_lru c' = remove1 e (c_lru c) \<and> c_usage c' = c_usage c - lh_charge (c_heap c e))"
  proof (cases old)
    case None
    then have none: "\<forall>e \<in> ht_handles (c_table c). \<not> has_key (c_heap c) key hash e" using hr(2) by blast
    then have "ht_handles t' = ht_handles (c_table c)" unfolding hr(3) by blast
    moreover have "c' = ?c" using f None by (simp add: FinishErase_def)
    ultimately show ?thesis using hr(1) li none by (simp add: cache_inv_def linked_def same_entries_def)
  next
    case (Some e)
    then have e: "e \<in> ht_handles (c_table c)" "has_key (c_heap c) key hash e" using hr(2) by auto
    have t': "ht_handles t' = ht_handles (c_table c) - {e}"
      unfolding hr(3) using e key_unique [OF t _ e(1) _ e(2)] by blast
    have "linked ext (ht_handles (c_table c)) ?c" using li by (simp add: linked_def)
    from finish_erase_ok [OF this e(1) f [unfolded Some]]
    have fe: "linked ext (ht_handles t') c'" "same_entries ?c c'" "c_table c' = t'" "c_lru c' = remove1 e (c_lru c)"
      "c_fresh c' = c_fresh c" "c_usage c' = c_usage c - lh_charge (c_heap c e)"
      unfolding t' by simp_all
    have s: "same_entries c c'" using fe(2) by (simp add: same_entries_def)
    have "table_ok (c_heap c') t'"
      using same_entries_table [OF hr(1) s] cache_inv_below [OF i] unfolding hr(3) by blast
    moreover have "\<forall>x \<in> ht_handles (c_table c). has_key (c_heap c) key hash x \<longrightarrow> x = e"
      using key_unique [OF t _ e(1) _ e(2)] by blast
    ultimately show ?thesis using fe s by (auto simp: cache_inv_def)
  qed
  then show "cache_inv ext c'" "same_entries c c'" "c_fresh c' = c_fresh c"
    "ht_handles (c_table c') = {e \<in> ht_handles (c_table c). \<not> has_key (c_heap c) key hash e}"
    "\<forall>e \<in> ht_handles (c_table c). has_key (c_heap c) key hash e \<longrightarrow>
      c_lru c' = remove1 e (c_lru c) \<and> c_usage c' = c_usage c - lh_charge (c_heap c e)"
    using hr(3) by blast+
qed

text \<open>The loops drop a number of the oldest entries, as long as the usage demands it, and end.\<close>

definition dropped :: "(u64 \<Rightarrow> u64 \<Rightarrow> bool) \<Rightarrow> nat \<Rightarrow> 'v LRUCache \<Rightarrow> 'v LRUCache \<Rightarrow> bool" where
  "dropped over n c c' \<longleftrightarrow>
     (let usage = \<lambda>m. c_usage c - (\<Sum>e\<leftarrow>take m (c_lru c). lh_charge (c_heap c e))
      in n \<le> length (c_lru c) \<and> c_lru c' = drop n (c_lru c) \<and>
         ht_handles (c_table c') = ht_handles (c_table c) - set (take n (c_lru c)) \<and>
         c_usage c' = usage n \<and> (\<forall>m < n. over (usage m) (c_capacity c)) \<and>
         (n = length (c_lru c) \<or> \<not> over (usage n) (c_capacity c)))"

lemma remove_oldest:
  assumes i: "cache_inv ext c" and l: "c_lru c = old # rest"
    and r: "remove_and_finish (lh_key (c_heap c old)) (lh_hash (c_heap c old)) c = (b, c')"
  shows "cache_inv ext c'" and "same_entries c c'" and "c_fresh c' = c_fresh c" and "c_lru c' = rest"
    and "ht_handles (c_table c') = ht_handles (c_table c) - {old}" and "c_usage c' = c_usage c - lh_charge (c_heap c old)"
    and "\<forall>e \<in> set rest. e < c_fresh c"
proof -
  have t: "table_ok (c_heap c) (c_table c)" and li: "linked ext (ht_handles (c_table c)) c" using i by (simp_all add: cache_inv_def)
  let ?k = "has_key (c_heap c) (lh_key (c_heap c old)) (lh_hash (c_heap c old))"
  have old: "old \<in> ht_handles (c_table c)" "?k old" using linkedD(3) [OF li] l by (auto simp: has_key_def)
  note rf = remove_and_finish_ok [OF i r]
  show "cache_inv ext c'" "same_entries c c'" "c_fresh c' = c_fresh c" by (fact rf)+
  show "c_lru c' = rest" "c_usage c' = c_usage c - lh_charge (c_heap c old)" using rf(5) old l by auto
  have "\<forall>x \<in> ht_handles (c_table c). ?k x \<longrightarrow> x = old" using key_unique [OF t _ old(1) _ old(2)] by blast
  then show "ht_handles (c_table c') = ht_handles (c_table c) - {old}" unfolding rf(4) using old by blast
  show "\<forall>e \<in> set rest. e < c_fresh c" using cache_inv_below [OF i] linkedD(3) [OF li] l by auto
qed

lemma drop_oldest_ok:
  assumes "cache_inv ext c"
  shows "\<exists>n c'. drop_oldest (\<lambda>c. over (c_usage c) (c_capacity c)) c = Some c' \<and> cache_inv ext c' \<and> same_entries c c' \<and>
    c_fresh c' = c_fresh c \<and> dropped over n c c'"
  using assms
proof (induction "c_lru c" arbitrary: c)
  case Nil
  have "drop_oldest (\<lambda>c. over (c_usage c) (c_capacity c)) c = Some c"
    by (subst drop_oldest.simps) (simp add: Nil.hyps [symmetric])
  moreover have "dropped over 0 c c" using Nil.hyps by (simp add: dropped_def)
  ultimately show ?case using Nil.prems by auto
next
  case (Cons old rest)
  note l = Cons.hyps(2) [symmetric]
  show ?case
  proof (cases "over (c_usage c) (c_capacity c)")
    case False
    have "drop_oldest (\<lambda>c. over (c_usage c) (c_capacity c)) c = Some c"
      by (subst drop_oldest.simps) (simp add: l False)
    moreover have "dropped over 0 c c" using False by (simp add: dropped_def)
    ultimately show ?thesis using Cons.prems by auto
  next
    case True
    obtain b c1 where r: "remove_and_finish (lh_key (c_heap c old)) (lh_hash (c_heap c old)) c = (b, c1)" by fastforce
    note ro = remove_oldest [OF Cons.prems l r]
    obtain n c' where n: "drop_oldest (\<lambda>c. over (c_usage c) (c_capacity c)) c1 = Some c'" "cache_inv ext c'" "same_entries c1 c'"
      "c_fresh c' = c_fresh c1" "dropped over n c1 c'"
      using Cons.hyps(1) [OF ro(4) [symmetric] ro(1)] by blast
    have "drop_oldest (\<lambda>c. over (c_usage c) (c_capacity c)) c = Some c'"
      by (subst drop_oldest.simps) (simp add: l True r n(1))
    moreover have "same_entries c c'" using ro(2) n(3) by (rule same_entries_trans)
    moreover have "dropped over (Suc n) c c'"
    proof -
      have ch: "map (\<lambda>e. lh_charge (c_heap c1 e)) (take m rest) = map (\<lambda>e. lh_charge (c_heap c e)) (take m rest)" for m
      proof (rule map_cong [OF refl])
        fix e assume "e \<in> set (take m rest)"
        then have "e < c_fresh c" using ro(7) in_set_takeD by fast
        with ro(2) show "lh_charge (c_heap c1 e) = lh_charge (c_heap c e)" unfolding same_entries_def by blast
      qed
      have cap: "c_capacity c1 = c_capacity c" using ro(2) by (simp add: same_entries_def)
      have "\<forall>m < Suc n. over (c_usage c - (\<Sum>e\<leftarrow>take m (c_lru c). lh_charge (c_heap c e))) (c_capacity c)"
        using n(5) True by (auto simp: dropped_def Let_def l less_Suc_eq_0_disj ro(4,6) ch cap diff_diff_eq)
      then show ?thesis
        using n(5) by (simp add: dropped_def Let_def l ro(4-6) ch cap diff_diff_eq
          Diff_insert2 [of "ht_handles (c_table c)" old "set (take n rest)"])
    qed
    ultimately show ?thesis using n(2,4) ro(3) by auto
  qed
qed

lemma evict_ok:
  assumes "cache_inv ext c"
  shows "\<exists>n c'. Evict c = Some c' \<and> cache_inv ext c' \<and> same_entries c c' \<and> c_fresh c' = c_fresh c \<and> dropped (>) n c c'"
  using drop_oldest_ok [OF assms, of "(>)"] by (simp add: Evict_def)

lemma prune_ok:
  assumes "cache_inv ext c"
  shows "\<exists>c'. Prune c = Some c' \<and> cache_inv ext c' \<and> same_entries c c' \<and> c_fresh c' = c_fresh c \<and>
    ht_handles (c_table c') = {e \<in> ht_handles (c_table c). 0 < ext e}"
proof -
  obtain n c' where n: "Prune c = Some c'" "cache_inv ext c'" "same_entries c c'" "c_fresh c' = c_fresh c"
    "dropped (\<lambda>_ _. True) n c c'"
    using drop_oldest_ok [OF assms, of "\<lambda>_ _. True"] by (auto simp: Prune_def)
  have "set (c_lru c) = {e \<in> ht_handles (c_table c). ext e = 0}"
    using assms linkedD(3) by (auto simp: cache_inv_def)
  with n(5) have "ht_handles (c_table c') = {e \<in> ht_handles (c_table c). 0 < ext e}"
    by (auto simp: dropped_def Let_def)
  with n show ?thesis by blast
qed

definition alloc_handle :: "'v LRUHandle \<Rightarrow> 'v LRUCache \<Rightarrow> 'v LRUCache" where
  "alloc_handle h c = c\<lparr>c_heap := (c_heap c)(c_fresh c := h), c_fresh := c_fresh c + 1\<rparr>"

lemma alloc_ok:
  assumes i: "cache_inv ext c"
  shows "cache_inv (ext(c_fresh c := 1)) (alloc_handle (new_handle key hash val charge) c)" (is "cache_inv ?ext ?c")
    and "same_entries c (alloc_handle (new_handle key hash val charge) c)"
proof -
  have t: "table_ok (c_heap c) (c_table c)" and li: "linked ext (ht_handles (c_table c)) c" using i by (simp_all add: cache_inv_def)
  note d = linkedD [OF li]
  have nh: "lh_in_cache (new_handle key hash val charge) = False" "lh_refs (new_handle key hash val charge) = 1"
    by (simp_all add: new_handle_def)
  have heap: "c_heap ?c = (c_heap c)(c_fresh c := new_handle key hash val charge)" "c_fresh ?c = Suc (c_fresh c)"
    "c_lru ?c = c_lru c" "c_in_use ?c = c_in_use c" "c_deleted ?c = c_deleted c" "c_usage ?c = c_usage c" "c_table ?c = c_table c"
    by (simp_all add: alloc_handle_def)
  show s: "same_entries c ?c" by (simp add: same_entries_def alloc_handle_def)
  have new: "c_fresh c \<notin> ht_handles (c_table c)" using cache_inv_below [OF i] by blast
  have old: "\<forall>x \<in> ht_handles (c_table c). x \<noteq> c_fresh c" using new by blast
  have "linked ?ext (ht_handles (c_table c)) ?c"
  proof (rule linkedI, unfold heap(2-6))
    show "ht_handles (c_table c) = {x. x < Suc (c_fresh c) \<and> lh_in_cache (c_heap ?c x)}"
      unfolding d(1) by (auto simp: heap(1) nh less_Suc_eq)
    show "distinct (c_lru c)" "distinct (c_in_use c)" "distinct (c_deleted c)" by (fact d)+
    show "set (c_lru c) = {x \<in> ht_handles (c_table c). ?ext x = 0}" "set (c_in_use c) = {x \<in> ht_handles (c_table c). 0 < ?ext x}"
      unfolding d(3,5) using old by (auto split: if_splits)
    show "lh_refs (c_heap ?c x) = ?ext x + (if lh_in_cache (c_heap ?c x) then 1 else 0)" if "x < Suc (c_fresh c)" for x
      using d(6) [of x] that by (cases "x = c_fresh c") (simp_all add: heap(1) nh)
    show "?ext x = 0" if "Suc (c_fresh c) \<le> x" for x using d(7) [of x] that by simp
    show "set (c_deleted c) = {x. x < Suc (c_fresh c) \<and> lh_refs (c_heap ?c x) = 0}"
      unfolding d(9) by (auto simp: heap(1) nh less_Suc_eq)
    have "(\<Sum>x \<in> ht_handles (c_table c). lh_charge (c_heap ?c x)) = (\<Sum>x \<in> ht_handles (c_table c). lh_charge (c_heap c x))"
      using old by (intro sum.cong) (simp_all add: heap(1))
    then show "c_usage c = (\<Sum>x \<in> ht_handles (c_table c). lh_charge (c_heap ?c x))" using d(10) by simp
  qed
  moreover have "table_ok (c_heap ?c) (c_table c)" using same_entries_table [OF t s cache_inv_below [OF i]] .
  ultimately show "cache_inv ?ext ?c" by (simp add: cache_inv_def heap(7))
qed

text \<open>A handle that one client has and the cache does not have yet gets its place in the cache.\<close>

definition cache_reference :: "lru_addr \<Rightarrow> 'v LRUCache \<Rightarrow> 'v LRUCache" where
  "cache_reference e c =
     (let c = LRU_Append_in_use e (upd_handle e (\<lambda>h. h\<lparr>lh_refs := lh_refs h + 1, lh_in_cache := True\<rparr>) c)
      in c\<lparr>c_usage := c_usage c + lh_charge (c_heap c e)\<rparr>)"

lemma put_in_cache_alt:
  "put_in_cache e c =
     (let c = cache_reference e c; (old, t) = HandleInsert (c_heap c) e (c_table c) in snd (FinishErase old (c\<lparr>c_table := t\<rparr>)))"
  by (simp add: put_in_cache_def cache_reference_def Let_def)

lemma cache_reference_ok:
  assumes l: "linked ext H c" and e: "e < c_fresh c" "e \<notin> H" "0 < ext e"
  shows "linked ext (insert e H) (cache_reference e c)" and "same_entries c (cache_reference e c)"
    and "c_table (cache_reference e c) = c_table c" and "c_lru (cache_reference e c) = c_lru c"
    and "c_fresh (cache_reference e c) = c_fresh c"
proof -
  let ?c = "cache_reference e c"
  note d = linkedD [OF l]
  have nc: "\<not> lh_in_cache (c_heap c e)" using d(1) e by blast
  then have r: "lh_refs (c_heap c e) = ext e" using d(6) [OF e(1)] by simp
  have heap: "c_heap ?c = (c_heap c)(e := (c_heap c e)\<lparr>lh_refs := ext e + 1, lh_in_cache := True\<rparr>)"
    "c_in_use ?c = c_in_use c @ [e]" "c_usage ?c = c_usage c + lh_charge (c_heap c e)" "c_deleted ?c = c_deleted c"
    "c_capacity ?c = c_capacity c"
    by (simp_all add: cache_reference_def LRU_Append_in_use_def upd_handle_def Let_def r)
  show same: "c_table ?c = c_table c" "c_lru ?c = c_lru c" "c_fresh ?c = c_fresh c"
    by (simp_all add: cache_reference_def LRU_Append_in_use_def upd_handle_def Let_def)
  show "same_entries c ?c" using same(3) heap(5) by (simp add: same_entries_def heap(1))
  show "linked ext (insert e H) ?c"
  proof (rule linkedI, unfold same heap(2,4))
    show "insert e H = {x. x < c_fresh c \<and> lh_in_cache (c_heap ?c x)}" unfolding d(1) using e(1) by (auto simp: heap(1))
    show "distinct (c_lru c)" "distinct (c_deleted c)" by (fact d)+
    show "distinct (c_in_use c @ [e])" using d(4,5) e(2) by simp
    show "set (c_lru c) = {x \<in> insert e H. ext x = 0}" "set (c_in_use c @ [e]) = {x \<in> insert e H. 0 < ext x}"
      using e(3) by (auto simp: d(3,5))
    show "lh_refs (c_heap ?c x) = ext x + (if lh_in_cache (c_heap ?c x) then 1 else 0)" if "x < c_fresh c" for x
      using d(6) [OF that] by (simp add: heap(1))
    show "ext x = 0" if "c_fresh c \<le> x" for x using d(7) [OF that] .
    show "set (c_deleted c) = {x. x < c_fresh c \<and> lh_refs (c_heap ?c x) = 0}" unfolding d(9) using r e by (auto simp: heap(1))
    have "(\<Sum>x \<in> H. lh_charge (c_heap ?c x)) = (\<Sum>x \<in> H. lh_charge (c_heap c x))"
      by (intro sum.cong) (auto simp: heap(1))
    then show "c_usage ?c = (\<Sum>x \<in> insert e H. lh_charge (c_heap ?c x))"
      using linked_handles [OF l] d(10) e(2) by (simp add: heap add.commute)
  qed
qed

lemma put_in_cache_ok:
  assumes i: "cache_inv ext c" and e: "e < c_fresh c" "e \<notin> ht_handles (c_table c)" "0 < ext e"
  shows "cache_inv ext (put_in_cache e c)" and "same_entries c (put_in_cache e c)"
    and "ht_handles (c_table (put_in_cache e c)) =
      insert e {x \<in> ht_handles (c_table c). \<not> has_key (c_heap c) (lh_key (c_heap c e)) (lh_hash (c_heap c e)) x}"
    and "c_lru (put_in_cache e c) = filter (\<lambda>x. \<not> has_key (c_heap c) (lh_key (c_heap c e)) (lh_hash (c_heap c e)) x) (c_lru c)"
    and "c_fresh (put_in_cache e c) = c_fresh c"
proof -
  have t: "table_ok (c_heap c) (c_table c)" and li: "linked ext (ht_handles (c_table c)) c" using i by (simp_all add: cache_inv_def)
  let ?k = "has_key (c_heap c) (lh_key (c_heap c e)) (lh_hash (c_heap c e))" and ?H = "ht_handles (c_table c)"
  let ?c = "cache_reference e c"
  note cr = cache_reference_ok [OF li e]
  have keys: "has_key (c_heap ?c) (lh_key (c_heap ?c e)) (lh_hash (c_heap ?c e)) x = ?k x" if "x < c_fresh c" for x
    using cr(2) e(1) that unfolding same_entries_def has_key_def by simp
  have t1: "table_ok (c_heap ?c) (c_table c)" using same_entries_table [OF t cr(2) cache_inv_below [OF i]] .
  obtain old t' where h: "HandleInsert (c_heap ?c) e (c_table c) = (old, t')" by fastforce
  note hi = handle_insert [OF t1 e(2) h refl refl]
  have ht: "ht_handles t' = insert e {x \<in> ?H. \<not> ?k x}" unfolding hi(3) using keys cache_inv_below [OF i] by auto
  have old: "\<forall>x. old = Some x \<longleftrightarrow> x \<in> ?H \<and> ?k x" using hi(2) keys cache_inv_below [OF i] by blast
  define c1 where "c1 = ?c\<lparr>c_table := t'\<rparr>"
  have p: "put_in_cache e c = snd (FinishErase old c1)" by (simp add: put_in_cache_alt cr(3) h c1_def)
  have l1: "linked ext (insert e ?H) c1" using cr(1) by (simp add: c1_def)
  have s1: "same_entries c c1" "c_table c1 = t'" "c_lru c1 = c_lru c" "c_fresh c1 = c_fresh c"
    using cr by (simp_all add: same_entries_def c1_def)
  have lru: "set (c_lru c) \<subseteq> ?H" "distinct (c_lru c)" using linkedD(2,3) [OF li] by auto
  have "linked ext (ht_handles t') (put_in_cache e c) \<and> same_entries c1 (put_in_cache e c) \<and> c_table (put_in_cache e c) = t' \<and>
    c_lru (put_in_cache e c) = filter (\<lambda>x. \<not> ?k x) (c_lru c) \<and> c_fresh (put_in_cache e c) = c_fresh c"
  proof (cases old)
    case None
    then have none: "\<forall>x \<in> ?H. \<not> ?k x" using old by blast
    then have "ht_handles t' = insert e ?H" unfolding ht by blast
    moreover have "filter (\<lambda>x. \<not> ?k x) (c_lru c) = c_lru c" using none lru(1) by (auto simp: filter_id_conv)
    ultimately show ?thesis using l1 s1 p None by (simp add: FinishErase_def)
  next
    case (Some x)
    then have x: "x \<in> ?H" "?k x" using old by auto
    have u: "\<forall>y \<in> ?H. ?k y \<longleftrightarrow> y = x" using key_unique [OF t _ x(1) _ x(2)] x(2) by blast
    then have "ht_handles t' = insert e ?H - {x}" unfolding ht using x(1) e(2) by blast
    moreover obtain b c' where f: "FinishErase (Some x) c1 = (b, c')" by fastforce
    moreover have "remove1 x (c_lru c) = filter (\<lambda>x. \<not> ?k x) (c_lru c)"
      unfolding distinct_remove1_removeAll [OF lru(2)] removeAll_filter_not_eq using u lru(1) by (intro filter_cong) auto
    moreover note finish_erase_ok [OF l1 _ f]
    ultimately show ?thesis using s1 x(1) p Some by simp
  qed
  then have r: "linked ext (ht_handles t') (put_in_cache e c)" "same_entries c1 (put_in_cache e c)" "c_table (put_in_cache e c) = t'"
    "c_lru (put_in_cache e c) = filter (\<lambda>x. \<not> ?k x) (c_lru c)" "c_fresh (put_in_cache e c) = c_fresh c"
    by blast+
  then show "ht_handles (c_table (put_in_cache e c)) = insert e {x \<in> ?H. \<not> ?k x}"
    "c_lru (put_in_cache e c) = filter (\<lambda>x. \<not> ?k x) (c_lru c)" "c_fresh (put_in_cache e c) = c_fresh c"
    using ht by simp_all
  show "same_entries c (put_in_cache e c)" using s1(1) r(2) by (rule same_entries_trans)
  have "table_ok (c_heap c1) t'" using hi(1) by (simp add: c1_def)
  moreover have "\<forall>x \<in> ht_handles t'. x < c_fresh c1" unfolding ht s1(4) using e(1) cache_inv_below [OF i] by blast
  ultimately have "table_ok (c_heap (put_in_cache e c)) t'" using same_entries_table [OF _ r(2)] by blast
  then show "cache_inv ext (put_in_cache e c)" using r(1,3) by (simp add: cache_inv_def)
qed

lemma CacheInsert_alt:
  "CacheInsert key hash val charge c =
     (let e = c_fresh c; c = alloc_handle (new_handle key hash val charge) c
      in map_option (\<lambda>c. (e, c)) (Evict (if 0 < c_capacity c then put_in_cache e c else c)))"
  by (simp add: CacheInsert_def alloc_handle_def Let_def)

definition cache_entry_of :: "'v LRUCache \<Rightarrow> lru_addr \<Rightarrow> byte list \<times> u32 \<times> 'v \<times> u64" where
  "cache_entry_of c e = (lh_key (c_heap c e), lh_hash (c_heap c e), lh_value (c_heap c e), lh_charge (c_heap c e))"

lemma same_entries_of: "same_entries c c' \<Longrightarrow> e < c_fresh c \<Longrightarrow> cache_entry_of c' e = cache_entry_of c e"
  by (simp add: same_entries_def cache_entry_of_def)

lemma cache_insert_ok:
  assumes i: "cache_inv ext c"
  shows "\<exists>n c1 c'. CacheInsert key hash val charge c = Some (c_fresh c, c') \<and> cache_inv (ext(c_fresh c := 1)) c' \<and>
    same_entries c c' \<and> cache_entry_of c' (c_fresh c) = (key, hash, val, charge) \<and>
    ht_handles (c_table c1) = (if 0 < c_capacity c
      then insert (c_fresh c) {e \<in> ht_handles (c_table c). \<not> has_key (c_heap c) key hash e} else ht_handles (c_table c)) \<and>
    c_lru c1 = (if 0 < c_capacity c then filter (\<lambda>e. \<not> has_key (c_heap c) key hash e) (c_lru c) else c_lru c) \<and>
    c_capacity c1 = c_capacity c \<and> c_fresh c' = Suc (c_fresh c) \<and> dropped (>) n c1 c'"
proof -
  let ?e = "c_fresh c" and ?ext = "ext(c_fresh c := 1)"
  define a where "a = alloc_handle (new_handle key hash val charge) c"
  note al = alloc_ok [OF i, of key hash val charge, folded a_def]
  have a: "c_fresh a = Suc ?e" "c_table a = c_table c" "c_lru a = c_lru c" "c_capacity a = c_capacity c"
    "cache_entry_of a ?e = (key, hash, val, charge)"
    by (simp_all add: a_def alloc_handle_def new_handle_def cache_entry_of_def)
  define c1 where "c1 = (if 0 < c_capacity a then put_in_cache ?e a else a)"
  have below: "\<forall>e \<in> ht_handles (c_table c). e < ?e" by (rule cache_inv_below [OF i])
  have lru: "set (c_lru c) \<subseteq> ht_handles (c_table c)" using i linkedD(3) by (auto simp: cache_inv_def)
  have k: "has_key (c_heap a) (lh_key (c_heap a ?e)) (lh_hash (c_heap a ?e)) x = has_key (c_heap c) key hash x"
    if "x < ?e" for x
    using that by (simp add: has_key_def a_def alloc_handle_def new_handle_def)
  have "cache_inv ?ext c1 \<and> same_entries a c1 \<and> c_fresh c1 = c_fresh a \<and>
    ht_handles (c_table c1) = (if 0 < c_capacity c
      then insert ?e {e \<in> ht_handles (c_table c). \<not> has_key (c_heap c) key hash e} else ht_handles (c_table c)) \<and>
    c_lru c1 = (if 0 < c_capacity c then filter (\<lambda>e. \<not> has_key (c_heap c) key hash e) (c_lru c) else c_lru c)"
  proof (cases "0 < c_capacity c")
    case True
    have p: "?e < c_fresh a" "?e \<notin> ht_handles (c_table a)" "0 < ?ext ?e" using below a by auto
    have "{x \<in> ht_handles (c_table c). \<not> has_key (c_heap a) (lh_key (c_heap a ?e)) (lh_hash (c_heap a ?e)) x} =
        {x \<in> ht_handles (c_table c). \<not> has_key (c_heap c) key hash x}" using k below by blast
    moreover have "filter (\<lambda>x. \<not> has_key (c_heap a) (lh_key (c_heap a ?e)) (lh_hash (c_heap a ?e)) x) (c_lru c) =
        filter (\<lambda>x. \<not> has_key (c_heap c) key hash x) (c_lru c)" using k below lru by (intro filter_cong) auto
    ultimately show ?thesis using True put_in_cache_ok [OF al(1) p] a by (simp add: c1_def del: fun_upd_apply)
  next
    case False
    then show ?thesis using al(1) a by (simp add: c1_def)
  qed
  then have c1: "cache_inv ?ext c1" "same_entries a c1" "c_fresh c1 = c_fresh a"
    "ht_handles (c_table c1) = (if 0 < c_capacity c
      then insert ?e {e \<in> ht_handles (c_table c). \<not> has_key (c_heap c) key hash e} else ht_handles (c_table c))"
    "c_lru c1 = (if 0 < c_capacity c then filter (\<lambda>e. \<not> has_key (c_heap c) key hash e) (c_lru c) else c_lru c)"
    by blast+
  obtain n c' where n: "Evict c1 = Some c'" "cache_inv ?ext c'" "same_entries c1 c'" "c_fresh c' = c_fresh c1" "dropped (>) n c1 c'"
    using evict_ok [OF c1(1)] by blast
  have ac: "same_entries a c'" by (rule same_entries_trans [OF c1(2) n(3)])
  have "CacheInsert key hash val charge c = Some (?e, c')"
    using n(1) unfolding c1_def by (simp add: CacheInsert_alt Let_def a_def [symmetric])
  moreover have "same_entries c c'" by (rule same_entries_trans [OF al(2) ac])
  moreover have "cache_entry_of c' ?e = (key, hash, val, charge)" using same_entries_of [OF ac, of ?e] a by simp
  moreover have "c_capacity c1 = c_capacity c" using c1(2) a(4) by (simp add: same_entries_def)
  moreover have "c_fresh c' = Suc ?e" using n(4) c1(3) a(1) by simp
  ultimately show ?thesis using n(2,5) c1(4,5) by blast
qed

subsection \<open>Runs of a shard\<close>


lemma new_cache_inv: "cache_inv (\<lambda>_. 0) (SetCapacity capacity (NewLRUCache heap any))"
  using new_table_ok [of heap] by (simp add: cache_inv_def linked_def SetCapacity_def NewLRUCache_def)

lemma erase_inv: "cache_inv ext c \<Longrightarrow> cache_inv ext (Erase key hash c)"
  by (cases "remove_and_finish key hash c") (simp add: Erase_def remove_and_finish_ok)


text \<open>What the cache maps a key to.\<close>

definition cache_map :: "'v LRUCache \<Rightarrow> byte list \<times> u32 \<Rightarrow> 'v option" where
  "cache_map c = (\<lambda>(key, hash). map_option (\<lambda>e. lh_value (c_heap c e)) (HandleLookup (c_heap c) key hash (c_table c)))"

lemma cache_map_Some:
  assumes "cache_inv ext c"
  shows "cache_map c (key, hash) = Some v \<longleftrightarrow>
    (\<exists>e \<in> ht_handles (c_table c). has_key (c_heap c) key hash e \<and> lh_value (c_heap c e) = v)"
  using assms handle_lookup [of "c_heap c" "c_table c" key hash]
  by (auto simp: cache_map_def cache_inv_def)

lemma cache_map_None:
  assumes "cache_inv ext c"
  shows "cache_map c (key, hash) = None \<longleftrightarrow> (\<forall>e \<in> ht_handles (c_table c). \<not> has_key (c_heap c) key hash e)"
  using cache_map_Some [OF assms, of key hash] by (metis option.exhaust_sel option.distinct(1))

lemma key_map_eqI:
  fixes f g :: "'a \<times> 'b \<Rightarrow> 'c option"
  assumes "\<And>k h v. f (k, h) = Some v \<longleftrightarrow> g (k, h) = Some v"
  shows "f = g"
proof
  fix x show "f x = g x" using assms [of "fst x" "snd x"] by (cases "f x"; cases "g x") auto
qed

text \<open>When the same handles stay, or some go, the map stays or shrinks.\<close>

lemma has_key_entry: "has_key (c_heap c) key hash e \<and> lh_value (c_heap c e) = v \<longleftrightarrow> (\<exists>n. cache_entry_of c e = (key, hash, v, n))"
  by (auto simp: has_key_def cache_entry_of_def)

lemma cache_map_entry:
  assumes "cache_inv ext c"
  shows "cache_map c (key, hash) = Some v \<longleftrightarrow> (\<exists>e \<in> ht_handles (c_table c). \<exists>n. cache_entry_of c e = (key, hash, v, n))"
  by (simp add: cache_map_Some [OF assms] has_key_entry)

lemma cache_map_same:
  assumes i: "cache_inv ext c" "cache_inv ext' c'" and s: "same_entries c c'"
    and h: "ht_handles (c_table c') = {e \<in> ht_handles (c_table c). P e}"
  shows "cache_map c' (key, hash) = Some v \<longleftrightarrow> (\<exists>e \<in> ht_handles (c_table c). P e \<and> (\<exists>n. cache_entry_of c e = (key, hash, v, n)))"
  using same_entries_of [OF s] cache_inv_below [OF i(1)] by (auto simp: cache_map_entry [OF i(2)] h)

lemma cache_map_lookup:
  assumes i: "cache_inv ext c" and l: "CacheLookup key hash c = (r, c')"
  shows "cache_map c' = cache_map c" and "map_option (\<lambda>e. lh_value (c_heap c' e)) r = cache_map c (key, hash)"
proof -
  note ok = cache_lookup_ok [OF i l]
  have "cache_map c' (k, h) = Some v \<longleftrightarrow> cache_map c (k, h) = Some v" for k h v
    using cache_map_same [OF i ok(2,3), of "\<lambda>_. True" k h v] cache_map_entry [OF i, of k h v] ok(4) by simp
  then show m: "cache_map c' = cache_map c" by (rule key_map_eqI)
  have "HandleLookup (c_heap c) key hash (c_table c) = r" using l by (auto simp: CacheLookup_def split: option.splits)
  moreover have "lh_value (c_heap c' e) = lh_value (c_heap c e)" if "r = Some e" for e
    using ok(1,3) that cache_inv_below [OF i] unfolding same_entries_def by blast
  ultimately show "map_option (\<lambda>e. lh_value (c_heap c' e)) r = cache_map c (key, hash)"
    by (cases r) (simp_all add: cache_map_def)
qed

lemma cache_map_erase:
  assumes i: "cache_inv ext c"
  shows "cache_map (Erase key hash c) = (cache_map c)((key, hash) := None)"
proof -
  obtain b c' where r: "remove_and_finish key hash c = (b, c')" by fastforce
  note ok = remove_and_finish_ok [OF i r]
  have "cache_map c' (k, h) = Some v \<longleftrightarrow> ((cache_map c)((key, hash) := None)) (k, h) = Some v" for k h v
  proof -
    have "has_key (c_heap c) key hash e \<longleftrightarrow> (k, h) = (key, hash)" if "cache_entry_of c e = (k, h, v, n)" for e n
      using that by (auto simp: has_key_def cache_entry_of_def)
    then have "cache_map c' (k, h) = Some v \<longleftrightarrow>
        (\<exists>e \<in> ht_handles (c_table c). \<exists>n. cache_entry_of c e = (k, h, v, n)) \<and> (k, h) \<noteq> (key, hash)"
      unfolding cache_map_same [OF i ok(1,2,4)] by blast
    then show ?thesis unfolding cache_map_entry [OF i, symmetric] by (simp del: not_Some_eq)
  qed
  then have "cache_map c' = (cache_map c)((key, hash) := None)" by (rule key_map_eqI)
  then show ?thesis by (simp add: Erase_def r)
qed

text \<open>Insertion: the map gets the new entry and loses those of the handles that were dropped.\<close>

lemma cache_map_insert:
  assumes i: "cache_inv ext c" and r: "CacheInsert key hash val charge c = Some (e, c')"
  shows "cache_map c' \<subseteq>\<^sub>m (if 0 < c_capacity c then (cache_map c)((key, hash) \<mapsto> val) else cache_map c)"
    and "0 < c_capacity c \<Longrightarrow> cache_map c' (key, hash) = Some val"
    and "lh_value (c_heap c' e) = val"
    and "c_usage c' \<le> c_capacity c' \<or> c_lru c' = []"
    and "0 < c_capacity c \<Longrightarrow> \<exists>n. let old = filter (\<lambda>x. \<not> has_key (c_heap c) key hash x) (c_lru c) in
      c_lru c' = drop n old \<and> ht_handles (c_table c') =
        insert e {x \<in> ht_handles (c_table c). \<not> has_key (c_heap c) key hash x} - set (take n old)"
proof -
  let ?H = "ht_handles (c_table c)" and ?k = "has_key (c_heap c) key hash"
  obtain n c1 where e: "e = c_fresh c" and ok: "cache_inv (ext(c_fresh c := 1)) c'" "same_entries c c'"
    "cache_entry_of c' (c_fresh c) = (key, hash, val, charge)"
    "ht_handles (c_table c1) = (if 0 < c_capacity c then insert (c_fresh c) {e \<in> ?H. \<not> ?k e} else ?H)"
    "c_lru c1 = (if 0 < c_capacity c then filter (\<lambda>e. \<not> ?k e) (c_lru c) else c_lru c)"
    "c_capacity c1 = c_capacity c" "dropped (>) n c1 c'"
    using cache_insert_ok [OF i, of key hash val charge] r by (auto simp del: fun_upd_apply)
  have below: "\<forall>x \<in> ?H. x < c_fresh c" by (rule cache_inv_below [OF i])
  have lru: "set (c_lru c) \<subseteq> ?H" using i linkedD(3) by (auto simp: cache_inv_def)
  have d: "c_lru c' = drop n (c_lru c1)" "ht_handles (c_table c') = ht_handles (c_table c1) - set (take n (c_lru c1))"
    "n = length (c_lru c1) \<or> \<not> c_usage c' > c_capacity c"
    using ok(7) unfolding dropped_def Let_def ok(6) by auto
  show "lh_value (c_heap c' e) = val" using ok(3) e by (simp add: cache_entry_of_def)
  show "c_usage c' \<le> c_capacity c' \<or> c_lru c' = []" using d(1,3) ok(2) by (auto simp: same_entries_def)
  show "\<exists>n. let old = filter (\<lambda>x. \<not> ?k x) (c_lru c) in c_lru c' = drop n old \<and>
      ht_handles (c_table c') = insert e {x \<in> ?H. \<not> ?k x} - set (take n old)" if "0 < c_capacity c"
    using d(1,2) that e by (intro exI [of _ n]) (simp add: Let_def ok(4,5))
  have same: "cache_entry_of c' x = cache_entry_of c x" if "x \<in> ?H" for x using same_entries_of [OF ok(2)] below that by blast
  have hk: "?k x \<longleftrightarrow> (k, h) = (key, hash)" if "cache_entry_of c x = (k, h, v, m)" for x k h v m
    using that by (auto simp: has_key_def cache_entry_of_def)
  show "cache_map c' \<subseteq>\<^sub>m (if 0 < c_capacity c then (cache_map c)((key, hash) \<mapsto> val) else cache_map c)"
  proof -
    have "(if 0 < c_capacity c then (cache_map c)((key, hash) \<mapsto> val) else cache_map c) (k, h) = Some v"
      if "cache_map c' (k, h) = Some v" for k h v
    proof -
      from that obtain x m where x: "x \<in> ht_handles (c_table c1)" "cache_entry_of c' x = (k, h, v, m)"
        unfolding cache_map_entry [OF ok(1)] d(2) by blast
      show ?thesis
      proof (cases "0 < c_capacity c \<and> x = c_fresh c")
        case True
        with x(2) ok(3) show ?thesis by simp
      next
        case False
        with x(1) have "x \<in> ?H" and nk: "0 < c_capacity c \<longrightarrow> \<not> ?k x" by (auto simp: ok(4) split: if_splits)
        with x(2) have ex: "cache_entry_of c x = (k, h, v, m)" using same by simp
        then have "cache_map c (k, h) = Some v" using \<open>x \<in> ?H\<close> cache_map_entry [OF i] by blast
        with nk hk [OF ex] show ?thesis by auto
      qed
    qed
    then show ?thesis unfolding map_le_def by (metis domD surj_pair)
  qed
  show "cache_map c' (key, hash) = Some val" if "0 < c_capacity c"
  proof -
    have "c_fresh c \<notin> set (take n (c_lru c1))" using lru below that by (auto simp: ok(5) dest!: in_set_takeD)
    then have "c_fresh c \<in> ht_handles (c_table c')" using that by (simp add: d(2) ok(4))
    with ok(3) show ?thesis using cache_map_entry [OF ok(1)] by blast
  qed
qed

subsection \<open>The end of a shard\<close>



subsection \<open>The shards together\<close>

definition sharded_inv :: "(nat \<Rightarrow> lru_addr \<Rightarrow> nat) \<Rightarrow> 'v ShardedLRUCache \<Rightarrow> bool" where
  "sharded_inv ext c \<longleftrightarrow> length (sc_shard c) = kNumShards \<and> (\<forall>s < kNumShards. cache_inv (ext s) (sc_shard c ! s))"

definition sharded_map :: "'v ShardedLRUCache \<Rightarrow> byte list \<Rightarrow> 'v option" where
  "sharded_map c key = cache_map (sc_shard c ! Shard (HashSlice key)) (key, HashSlice key)"

lemma Shard_less: "Shard h < kNumShards"
proof -
  have "unat (drop_bit 28 h) = unat h div 2 ^ 28" unfolding unat_drop_bit_eq by (simp only: drop_bit_eq_div)
  moreover have "unat h < 2 ^ 28 * 16" using unsigned_less [of h] by simp
  ultimately have "unat (drop_bit 28 h) < 16" by (metis less_mult_imp_div_less mult.commute)
  then show ?thesis by (simp add: Shard_def kNumShards_def kNumShardBits_def)
qed

text \<open>An operation of one shard, seen from the whole.\<close>

lemma sharded_step:
  assumes i: "sharded_inv ext c" and "s < kNumShards" and n: "cache_inv ext' shard"
  shows "sharded_inv (ext(s := ext')) (c\<lparr>sc_shard := (sc_shard c)[s := shard]\<rparr>)"
    and "cache_inv (ext s) (sc_shard c ! s)"
    and "sharded_map (c\<lparr>sc_shard := (sc_shard c)[s := shard]\<rparr>) k =
      (if Shard (HashSlice k) = s then cache_map shard (k, HashSlice k) else sharded_map c k)"
  using assms by (auto simp: sharded_inv_def sharded_map_def nth_list_update)

text \<open>A handle that a client holds and that names its shard.\<close>

definition releasable :: "(nat \<Rightarrow> lru_addr \<Rightarrow> nat) \<Rightarrow> nat \<times> lru_addr \<Rightarrow> 'v ShardedLRUCache \<Rightarrow> bool" where
  "releasable ext h c \<longleftrightarrow>
     fst h < kNumShards \<and> Shard (lh_hash (c_heap (sc_shard c ! fst h) (snd h))) = fst h \<and> 0 < ext (fst h) (snd h)"

lemma new_sharded_inv: "sharded_inv (\<lambda>_ _. 0) (NewShardedLRUCache heap capacity)"
  by (simp add: sharded_inv_def NewShardedLRUCache_def Let_def new_cache_inv)

lemma new_sharded_map: "sharded_map (NewShardedLRUCache heap capacity) k = None"
proof -
  have "cache_map (SetCapacity cap (NewLRUCache heap any)) (k, h) = None" for cap any h
    using new_table_ok [of heap] cache_map_None [OF new_cache_inv [of cap heap any]]
    by (simp add: SetCapacity_def NewLRUCache_def)
  then show ?thesis using Shard_less [of "HashSlice k"] by (simp add: sharded_map_def NewShardedLRUCache_def Let_def)
qed

lemma sharded_lookup:
  assumes i: "sharded_inv ext c" and l: "ShardedLookup key c = (h, c')"
  shows "\<exists>ext'. sharded_inv ext' c' \<and> (\<forall>x. h = Some x \<longrightarrow> releasable ext' x c')" and "sharded_map c' = sharded_map c"
    and "map_option (\<lambda>h. CacheValue h c') h = sharded_map c key"
proof -
  let ?s = "Shard (HashSlice key)"
  have s: "?s < kNumShards" by (rule Shard_less)
  obtain e shard where cl: "CacheLookup key (HashSlice key) (sc_shard c ! ?s) = (e, shard)" by fastforce
  have inv: "cache_inv (ext ?s) (sc_shard c ! ?s)" using i s by (simp add: sharded_inv_def)
  note lo = cache_lookup_ok [OF inv cl]
  note ok = lo(2) and m = cache_map_lookup [OF inv cl]
  have c': "c' = c\<lparr>sc_shard := (sc_shard c)[?s := shard]\<rparr>" and h: "h = map_option (\<lambda>e. (?s, e)) e"
    using l cl by (simp_all add: ShardedLookup_def Let_def)
  note st = sharded_step [OF i s ok, folded c']
  let ?ext = "ext(?s := case e of None \<Rightarrow> ext ?s | Some e \<Rightarrow> (ext ?s)(e := ext ?s e + 1))"
  have "releasable ?ext x c'" if "h = Some x" for x
  proof -
    from that h obtain a where a: "e = Some a" "x = (?s, a)" by auto
    with lo(1,3) cache_inv_below [OF inv] have "lh_hash (c_heap shard a) = HashSlice key"
      unfolding same_entries_def has_key_def by metis
    then show ?thesis using a s i by (simp add: releasable_def c' sharded_inv_def)
  qed
  with st(1) show "\<exists>ext'. sharded_inv ext' c' \<and> (\<forall>x. h = Some x \<longrightarrow> releasable ext' x c')" by blast
  show "sharded_map c' = sharded_map c" unfolding st(3) m(1) by (rule ext) (simp add: sharded_map_def)
  have "length (sc_shard c) = kNumShards" using i by (simp add: sharded_inv_def)
  then show "map_option (\<lambda>h. CacheValue h c') h = sharded_map c key"
    using m(2) s by (simp add: h c' sharded_map_def CacheValue_def option.map_comp comp_def)
qed

lemma sharded_insert:
  assumes i: "sharded_inv ext c"
  shows "\<exists>h c'. ShardedInsert key val charge c = Some (h, c') \<and> (\<exists>ext'. sharded_inv ext' c' \<and> releasable ext' h c') \<and>
    CacheValue h c' = val \<and> (sharded_map c' \<subseteq>\<^sub>m (sharded_map c)(key \<mapsto> val) \<or> sharded_map c' \<subseteq>\<^sub>m sharded_map c)"
proof -
  let ?s = "Shard (HashSlice key)" and ?h = "HashSlice key"
  have s: "?s < kNumShards" by (rule Shard_less)
  have inv: "cache_inv (ext ?s) (sc_shard c ! ?s)" using i s by (simp add: sharded_inv_def)
  define e where "e = c_fresh (sc_shard c ! ?s)"
  obtain shard where ci: "CacheInsert key ?h val charge (sc_shard c ! ?s) = Some (e, shard)"
    and iv: "cache_inv ((ext ?s)(e := 1)) shard" and en: "cache_entry_of shard e = (key, ?h, val, charge)"
    unfolding e_def using cache_insert_ok [OF inv, of key ?h val charge] by blast
  note m = cache_map_insert [OF inv ci]
  define c' where "c' = c\<lparr>sc_shard := (sc_shard c)[?s := shard]\<rparr>"
  note st = sharded_step [OF i s iv, folded c'_def]
  have "ShardedInsert key val charge c = Some ((?s, e), c')" by (simp add: ShardedInsert_def Let_def ci c'_def)
  moreover have "releasable (ext(?s := (ext ?s)(e := 1))) (?s, e) c'"
    using en s i by (simp add: releasable_def c'_def sharded_inv_def cache_entry_of_def)
  moreover have "CacheValue (?s, e) c' = val"
    using m(3) i s by (simp add: CacheValue_def c'_def sharded_inv_def)
  moreover have "sharded_map c' \<subseteq>\<^sub>m (sharded_map c)(key \<mapsto> val) \<or> sharded_map c' \<subseteq>\<^sub>m sharded_map c"
  proof -
    have keep: "sharded_map c' k = sharded_map c k" if "Shard (HashSlice k) \<noteq> ?s" for k using st(3) that by simp
    have cm: "cache_map (sc_shard c ! ?s) (k, HashSlice k) = sharded_map c k" if "Shard (HashSlice k) = ?s" for k
      using that by (simp add: sharded_map_def)
    show ?thesis
    proof (cases "0 < c_capacity (sc_shard c ! ?s)")
      case True
      then have le: "cache_map shard \<subseteq>\<^sub>m (cache_map (sc_shard c ! ?s))((key, ?h) \<mapsto> val)" using m(1) by simp
      have "((sharded_map c)(key \<mapsto> val)) k = Some v" if sk: "sharded_map c' k = Some v" for k v
      proof (cases "Shard (HashSlice k) = ?s")
        case True
        then have "cache_map shard (k, HashSlice k) = Some v" using sk st(3) by simp
        then have "((cache_map (sc_shard c ! ?s))((key, ?h) \<mapsto> val)) (k, HashSlice k) = Some v"
          using le by (metis domI map_le_def)
        with cm [OF True] show ?thesis by (auto split: if_splits)
      next
        case False
        with keep sk show ?thesis by auto
      qed
      then show ?thesis unfolding map_le_def by (metis domD)
    next
      case False
      then have le: "cache_map shard \<subseteq>\<^sub>m cache_map (sc_shard c ! ?s)" using m(1) by simp
      have "sharded_map c k = Some v" if "sharded_map c' k = Some v" for k v
        using that st(3) [of k] cm [of k] le unfolding map_le_def by (metis domI)
      then show ?thesis unfolding map_le_def by (metis domD)
    qed
  qed
  ultimately show ?thesis using st(1) by blast
qed

lemma sharded_erase:
  assumes i: "sharded_inv ext c"
  shows "sharded_inv ext (ShardedErase key c)" and "sharded_map (ShardedErase key c) = (sharded_map c)(key := None)"
proof -
  let ?s = "Shard (HashSlice key)" and ?h = "HashSlice key"
  have s: "?s < kNumShards" by (rule Shard_less)
  have inv: "cache_inv (ext ?s) (sc_shard c ! ?s)" using i s by (simp add: sharded_inv_def)
  have e: "ShardedErase key c = c\<lparr>sc_shard := (sc_shard c)[?s := Erase key ?h (sc_shard c ! ?s)]\<rparr>"
    by (simp add: ShardedErase_def Let_def)
  note st = sharded_step [OF i s erase_inv [OF inv, of key ?h], folded e]
  show "sharded_inv ext (ShardedErase key c)" using st(1) by simp
  show "sharded_map (ShardedErase key c) = (sharded_map c)(key := None)"
    unfolding st(3) cache_map_erase [OF inv] by (rule ext) (auto simp: sharded_map_def)
qed

lemma sharded_prune:
  assumes i: "sharded_inv ext c"
  shows "\<exists>c'. ShardedPrune c = Some c' \<and> sharded_inv ext c'"
proof -
  have "\<exists>cs'. prune_all cs = Some cs' \<and> length cs' = length cs \<and> (\<forall>s < length cs. cache_inv (x s) (cs' ! s))"
    if "\<forall>s < length cs. cache_inv (x s) (cs ! s)" for cs :: "'a LRUCache list" and x
    using that
  proof (induction cs arbitrary: x)
    case (Cons c cs)
    obtain c' where c': "Prune c = Some c'" "cache_inv (x 0) c'" using prune_ok [of "x 0" c] Cons.prems by fastforce
    have "\<forall>s < length cs. cache_inv (x (Suc s)) (cs ! s)" using Cons.prems by fastforce
    from Cons.IH [OF this] obtain cs' where "prune_all cs = Some cs'" "length cs' = length cs"
      "\<forall>s < length cs. cache_inv (x (Suc s)) (cs' ! s)" by blast
    then have "prune_all (c # cs) = Some (c' # cs')" "length (c' # cs') = length (c # cs)"
      "\<forall>s < length (c # cs). cache_inv (x s) ((c' # cs') ! s)"
      using c' by (auto simp: nth_Cons split: nat.split)
    then show ?case by blast
  qed simp
  from this [of "sc_shard c" ext] i show ?thesis by (auto simp: sharded_inv_def ShardedPrune_def)
qed

text \<open>A handle goes back to the shard it came from, which its hash names.\<close>

lemma sharded_release:
  assumes i: "sharded_inv ext c" and h: "releasable ext h c"
  shows "\<exists>ext'. sharded_inv ext' (ShardedRelease h c)" and "sharded_map (ShardedRelease h c) = sharded_map c"
proof -
  obtain s e where se: "h = (s, e)" by fastforce
  have s: "s < kNumShards" and n: "Shard (lh_hash (c_heap (sc_shard c ! s) e)) = s" and x: "0 < ext s e"
    using h by (simp_all add: se releasable_def)
  have inv: "cache_inv (ext s) (sc_shard c ! s)" using i s by (simp add: sharded_inv_def)
  note ok = cache_release_ok [OF inv x]
  have r: "ShardedRelease h c = c\<lparr>sc_shard := (sc_shard c)[s := Release e (sc_shard c ! s)]\<rparr>"
    by (simp add: ShardedRelease_def se n Let_def)
  note st = sharded_step [OF i s ok(1), folded r]
  show "\<exists>ext'. sharded_inv ext' (ShardedRelease h c)" using st(1) by blast
  have "cache_map (Release e (sc_shard c ! s)) (k, h) = Some v \<longleftrightarrow> cache_map (sc_shard c ! s) (k, h) = Some v" for k h v
    using cache_map_same [OF inv ok(1,2), of "\<lambda>_. True" k h v] cache_map_entry [OF inv, of k h v] ok(3) by simp
  then have m: "cache_map (Release e (sc_shard c ! s)) = cache_map (sc_shard c ! s)" by (rule key_map_eqI)
  show "sharded_map (ShardedRelease h c) = sharded_map c"
    unfolding st(3) m by (rule ext) (simp add: sharded_map_def)
qed

text \<open>
  What the tables ask of a cache of blocks: it answers with what was inserted under a key, if with
  anything; \<open>held\<close> says which blocks it may answer with.
\<close>

record ('v, 'c) cache_ops =
  cache_new_id :: "'c \<Rightarrow> u64 \<times> 'c"
  cache_lookup :: "byte list \<Rightarrow> 'c \<Rightarrow> 'v option \<times> 'c"
  cache_insert :: "byte list \<Rightarrow> 'v \<Rightarrow> nat \<Rightarrow> 'c \<Rightarrow> 'c option"

locale block_cache =
  fixes ops :: "('v, 'c) cache_ops"
    and invar :: "'c \<Rightarrow> bool"
    and held :: "'c \<Rightarrow> byte list \<Rightarrow> 'v \<Rightarrow> bool"
  assumes lookup_held: "invar c \<Longrightarrow> cache_lookup ops k c = (r, c') \<Longrightarrow>
      invar c' \<and> (\<forall>b. r = Some b \<longrightarrow> held c k b) \<and> (\<forall>k' b. held c' k' b \<longrightarrow> held c k' b)"
    and insert_held: "invar c \<Longrightarrow> \<exists>c'. cache_insert ops k b n c = Some c' \<and> invar c' \<and>
      (\<forall>k' b'. held c' k' b' \<longrightarrow> held c k' b' \<or> k' = k \<and> b' = b)"

text \<open>
  The numbers that \<open>NewId\<close> gives out: \<open>issued\<close> are those given so far, \<open>room\<close> says how many
  are left before they repeat.
\<close>

locale numbered_cache = block_cache ops invar held
  for ops :: "('v, 'c) cache_ops" and invar held +
  fixes issued :: "'c \<Rightarrow> u64 set"
    and room :: "'c \<Rightarrow> nat"
  assumes new_id_held: "invar c \<Longrightarrow> cache_new_id ops c = (i, c') \<Longrightarrow> invar c' \<and> (\<forall>k b. held c' k b \<longrightarrow> held c k b)"
    and new_id_fresh: "0 < room c \<Longrightarrow> cache_new_id ops c = (i, c') \<Longrightarrow>
      i \<notin> issued c \<and> issued c' = insert i (issued c) \<and> room c = Suc (room c')"
    and lookup_ids: "cache_lookup ops k c = (r, c') \<Longrightarrow> issued c' = issued c \<and> room c' = room c"
    and insert_ids: "cache_insert ops k b n c = Some c' \<Longrightarrow> issued c' = issued c \<and> room c' = room c"
begin

text \<open>Reading through the cache gives out no number.\<close>

lemma fixed_ids: "block_cache ops (\<lambda>c. invar c \<and> issued c = I \<and> room c = r) held"
proof
  fix c c' :: 'c and k res
  assume "invar c \<and> issued c = I \<and> room c = r" and "cache_lookup ops k c = (res, c')"
  then show "(invar c' \<and> issued c' = I \<and> room c' = r) \<and> (\<forall>b. res = Some b \<longrightarrow> held c k b) \<and>
      (\<forall>k' b. held c' k' b \<longrightarrow> held c k' b)"
    using lookup_held [of c k res c'] lookup_ids [of k c res c'] by simp
next
  fix c :: 'c and k b n
  assume "invar c \<and> issued c = I \<and> room c = r"
  then show "\<exists>c'. cache_insert ops k b n c = Some c' \<and> (invar c' \<and> issued c' = I \<and> room c' = r) \<and>
      (\<forall>k' b'. held c' k' b' \<longrightarrow> held c k' b' \<or> k' = k \<and> b' = b)"
    using insert_held [of c k b n] insert_ids [of k b n c] by blast
qed

end

text \<open>
  The sharded cache as the tables use it. The handle of a lookup or an insertion is held by the
  iterator over the block, which releases it when it is destroyed.
\<close>

definition lru_cache_ops :: "('v, 'v ShardedLRUCache) cache_ops" where
  "lru_cache_ops =
     \<lparr>cache_new_id = NewId,
      cache_lookup = (\<lambda>key c. let (h, c) = ShardedLookup key c in (map_option (\<lambda>h. CacheValue h c) h, c)),
      cache_insert = (\<lambda>key v n c. map_option snd (ShardedInsert key v (word_of_nat n) c))\<rparr>"

definition lru_held :: "'v ShardedLRUCache \<Rightarrow> byte list \<Rightarrow> 'v \<Rightarrow> bool" where
  "lru_held c k v \<longleftrightarrow> sharded_map c k = Some v"

definition lru_invar :: "'v ShardedLRUCache \<Rightarrow> bool" where
  "lru_invar c \<longleftrightarrow> (\<exists>ext. sharded_inv ext c)"

definition lru_issued :: "'v ShardedLRUCache \<Rightarrow> u64 set" where
  "lru_issued c = {i. i \<le> sc_last_id c}"

definition lru_room :: "'v ShardedLRUCache \<Rightarrow> nat" where
  "lru_room c = 2 ^ 64 - 1 - unat (sc_last_id c)"

interpretation lru: numbered_cache lru_cache_ops lru_invar lru_held lru_issued lru_room
proof unfold_locales
  fix c c' :: "'v ShardedLRUCache" and k r
  assume "lru_invar c" and l: "cache_lookup lru_cache_ops k c = (r, c')"
  then obtain ext where i: "sharded_inv ext c" by (auto simp: lru_invar_def)
  obtain h where h: "ShardedLookup k c = (h, c')" "r = map_option (\<lambda>h. CacheValue h c') h"
    using l by (auto simp: lru_cache_ops_def Let_def split: prod.splits)
  from sharded_lookup [OF i h(1)] h(2)
  show "lru_invar c' \<and> (\<forall>b. r = Some b \<longrightarrow> lru_held c k b) \<and> (\<forall>k' b. lru_held c' k' b \<longrightarrow> lru_held c k' b)"
    unfolding lru_invar_def lru_held_def by (intro conjI) (blast | simp)+
next
  fix c :: "'v ShardedLRUCache" and k b n
  assume "lru_invar c"
  then obtain ext where i: "sharded_inv ext c" by (auto simp: lru_invar_def)
  obtain h c' where r: "ShardedInsert k b (word_of_nat n) c = Some (h, c')" "\<exists>ext'. sharded_inv ext' c'"
    "sharded_map c' \<subseteq>\<^sub>m (sharded_map c)(k \<mapsto> b) \<or> sharded_map c' \<subseteq>\<^sub>m sharded_map c"
    using sharded_insert [OF i, of k b "word_of_nat n"] by blast
  have "lru_held c k' b' \<or> k' = k \<and> b' = b" if "lru_held c' k' b'" for k' b'
  proof -
    have "((sharded_map c)(k \<mapsto> b)) k' = Some b' \<or> sharded_map c k' = Some b'"
      using r(3) that unfolding lru_held_def map_le_def by (metis domI)
    then show ?thesis by (auto simp: lru_held_def split: if_splits)
  qed
  then show "\<exists>c'. cache_insert lru_cache_ops k b n c = Some c' \<and> lru_invar c' \<and>
      (\<forall>k' b'. lru_held c' k' b' \<longrightarrow> lru_held c k' b' \<or> k' = k \<and> b' = b)"
    using r(1,2) by (simp add: lru_cache_ops_def lru_invar_def)
next
  fix c c' :: "'v ShardedLRUCache" and i
  assume "lru_invar c" and "cache_new_id lru_cache_ops c = (i, c')"
  then show "lru_invar c' \<and> (\<forall>k b. lru_held c' k b \<longrightarrow> lru_held c k b)"
    by (auto simp: lru_cache_ops_def NewId_def Let_def lru_invar_def lru_held_def sharded_inv_def sharded_map_def) blast
next
  fix c c' :: "'v ShardedLRUCache" and i
  assume r: "0 < lru_room c" and "cache_new_id lru_cache_ops c = (i, c')"
  then have c': "i = sc_last_id c + 1" "sc_last_id c' = sc_last_id c + 1"
    by (auto simp: lru_cache_ops_def NewId_def Let_def)
  have u: "unat (sc_last_id c + 1) = unat (sc_last_id c) + 1"
    using r unsigned_less [of "sc_last_id c"] by (simp add: lru_room_def unat_word_ariths)
  show "i \<notin> lru_issued c \<and> lru_issued c' = insert i (lru_issued c) \<and> lru_room c = Suc (lru_room c')"
    using r u by (auto simp: lru_issued_def lru_room_def c' word_le_nat_alt word_unat_eq_iff)
next
  fix c c' :: "'v ShardedLRUCache" and k r
  assume "cache_lookup lru_cache_ops k c = (r, c')"
  then show "lru_issued c' = lru_issued c \<and> lru_room c' = lru_room c"
    by (auto simp: lru_cache_ops_def ShardedLookup_def lru_issued_def lru_room_def Let_def split: prod.splits)
next
  fix c c' :: "'v ShardedLRUCache" and k b n
  assume "cache_insert lru_cache_ops k b n c = Some c'"
  then show "lru_issued c' = lru_issued c \<and> lru_room c' = lru_room c"
    by (auto simp: lru_cache_ops_def ShardedInsert_def lru_issued_def lru_room_def Let_def split: prod.splits)
qed

subsection \<open>Properties\<close>













end
