(* ===== verification/LDB_TableBuilder.thy ===== *)
theory LDB_TableBuilder
  imports LDB_FilterBlock LDB_Block LDB_Format LDB_Cache
begin

unbundle bit_operations_syntax

text \<open>
  The builder of table files (\<open>table/table_builder.cc\<close>). Blocks of entries go to the file as they
  fill up; the index gets one entry per block, with a key that separates it from the next
  one and is only known when that one begins. \<open>table_bytes\<close> specifies the file, and the builder
  is shown to write it.
\<close>

subsection \<open>Options\<close>

datatype CompressionType = kNoCompression | kSnappyCompression

fun compression_code :: "CompressionType \<Rightarrow> byte" where
  "compression_code kNoCompression = 0"
| "compression_code kSnappyCompression = 1"

text \<open>The virtual functions of a filter policy.\<close>

record filter_ops =
  filter_name :: "byte list"
  create_filter :: "byte list list \<Rightarrow> byte list \<Rightarrow> byte list"
  filter_may_match :: "byte list \<Rightarrow> byte list \<Rightarrow> bool"

text \<open>
  The options that tables depend on; the cache of blocks has the state \<open>'c\<close>. Comparators are compared by their addresses, which
  \<open>comparator_at\<close> stands for.
\<close>

record 'c Options =
  opt_comparator :: comparator
  comparator_at :: nat
  opt_paranoid_checks :: bool
  opt_block_cache :: "(Block, 'c) cache_ops option"
  opt_block_size :: nat
  opt_block_restart_interval :: nat
  opt_compression :: CompressionType
  opt_filter_policy :: "filter_ops option"

text \<open>\<open>port/port_posix.h\<close> without \<open>SNAPPY\<close>, as this application is built: the functions fail.\<close>

definition Snappy_Compress :: "byte list \<Rightarrow> byte list option" where
  "Snappy_Compress input = None"

definition Snappy_GetUncompressedLength :: "byte list \<Rightarrow> nat option" where
  "Snappy_GetUncompressedLength input = None"

definition Snappy_Uncompress :: "byte list \<Rightarrow> byte list option" where
  "Snappy_Uncompress input = None"

definition port_snappy :: snappy where
  "port_snappy = \<lparr>snappy_compress = Snappy_Compress, snappy_length = Snappy_GetUncompressedLength,
     snappy_uncompress = Snappy_Uncompress\<rparr>"

subsection \<open>The builder\<close>

text \<open>\<open>tb_file\<close> is the state of the file that the builder writes to.\<close>

record ('f, 'c) TableBuilder =
  tb_options :: "'c Options"
  tb_index_options :: "'c Options"
  tb_file :: 'f
  tb_offset :: u64
  tb_status :: Status
  tb_data_block :: BlockBuilder
  tb_index_block :: BlockBuilder
  tb_last_key :: "byte list"
  tb_num_entries :: int
  tb_closed :: bool
  tb_filter_block :: "FilterBlockBuilder option"
  tb_pending_index_entry :: bool
  tb_pending_handle :: BlockHandle
  tb_compressed_output :: "byte list"

definition filter_create :: "'c Options \<Rightarrow> byte list list \<Rightarrow> byte list \<Rightarrow> byte list" where
  "filter_create options = (case opt_filter_policy options of Some p \<Rightarrow> create_filter p | None \<Rightarrow> (\<lambda>keys dst. dst))"

definition NewTableBuilder :: "'c Options \<Rightarrow> 'f \<Rightarrow> ('f, 'c) TableBuilder" where
  "NewTableBuilder options f =
     \<lparr>tb_options = options, tb_index_options = options\<lparr>opt_block_restart_interval := 1\<rparr>, tb_file = f, tb_offset = 0,
      tb_status = OK, tb_data_block = NewBlockBuilder, tb_index_block = NewBlockBuilder, tb_last_key = [],
      tb_num_entries = 0, tb_closed = False,
      tb_filter_block =
        (case opt_filter_policy options of None \<Rightarrow> None | Some p \<Rightarrow> Some (StartBlock (create_filter p) 0 new_builder)),
      tb_pending_index_entry = False, tb_pending_handle = NewBlockHandle, tb_compressed_output = []\<rparr>"

definition ChangeOptions :: "'c Options \<Rightarrow> ('f, 'c) TableBuilder \<Rightarrow> Status \<times> ('f, 'c) TableBuilder" where
  "ChangeOptions options r =
     (if comparator_at options \<noteq> comparator_at (tb_options r)
      then (InvalidArgument ''changing comparator while building table'', r)
      else (OK, r\<lparr>tb_options := options, tb_index_options := options\<lparr>opt_block_restart_interval := 1\<rparr>\<rparr>))"

definition WriteRawBlock ::
  "'f writable_ops \<Rightarrow> byte list \<Rightarrow> CompressionType \<Rightarrow> ('f, 'c) TableBuilder \<Rightarrow> BlockHandle \<times> ('f, 'c) TableBuilder" where
  "WriteRawBlock fops block_contents ty r =
     (let handle = \<lparr>bh_offset = tb_offset r, bh_size = word_of_nat (length block_contents)\<rparr>;
          (s, f) = Append_op fops block_contents (tb_file r);
          r = r\<lparr>tb_status := s, tb_file := f\<rparr>
      in if s \<noteq> OK then (handle, r)
         else
           let crc = Value block_contents;
               crc = crc_extend crc [compression_code ty];
               trailer = compression_code ty # EncodeFixed32 (Mask crc);
               (s, f) = Append_op fops trailer (tb_file r);
               r = r\<lparr>tb_status := s, tb_file := f\<rparr>
           in if s \<noteq> OK then (handle, r)
              else (handle, r\<lparr>tb_offset := tb_offset r + (word_of_nat (length block_contents) + kBlockTrailerSize)\<rparr>))"

text \<open>\<open>WriteBlock\<close> returns the handle and the block builder as it leaves them.\<close>

definition WriteBlock ::
  "'f writable_ops \<Rightarrow> snappy \<Rightarrow> BlockBuilder \<Rightarrow> ('f, 'c) TableBuilder \<Rightarrow> BlockHandle \<times> BlockBuilder \<times> ('f, 'c) TableBuilder" where
  "WriteBlock fops sn block r =
     (let (raw, block) = BlockFinish block;
          (block_contents, ty, output) =
            (case opt_compression (tb_options r) of
               kNoCompression \<Rightarrow> (raw, kNoCompression, tb_compressed_output r)
             | kSnappyCompression \<Rightarrow>
                 (case snappy_compress sn raw of
                    Some compressed \<Rightarrow>
                      if length compressed < length raw - length raw div 8
                      then (compressed, kSnappyCompression, compressed) else (raw, kNoCompression, compressed)
                  | None \<Rightarrow> (raw, kNoCompression, tb_compressed_output r)));
          (handle, r) = WriteRawBlock fops block_contents ty (r\<lparr>tb_compressed_output := output\<rparr>)
      in (handle, BlockReset block, r\<lparr>tb_compressed_output := []\<rparr>))"

definition TableFlush :: "'f writable_ops \<Rightarrow> snappy \<Rightarrow> ('f, 'c) TableBuilder \<Rightarrow> ('f, 'c) TableBuilder" where
  "TableFlush fops sn r =
     (if tb_status r \<noteq> OK then r
      else if bb_buffer (tb_data_block r) = [] then r
      else
        let (handle, block, r) = WriteBlock fops sn (tb_data_block r) r;
            r = r\<lparr>tb_data_block := block, tb_pending_handle := handle\<rparr>;
            r = (if tb_status r = OK
                 then let (s, f) = Flush_op fops (tb_file r)
                      in r\<lparr>tb_pending_index_entry := True, tb_status := s, tb_file := f\<rparr>
                 else r)
        in r\<lparr>tb_filter_block := map_option (StartBlock (filter_create (tb_options r)) (tb_offset r)) (tb_filter_block r)\<rparr>)"

text \<open>Both \<open>Add\<close> and \<open>Finish\<close> give the pending entry to the index, with a key of their choice.\<close>

definition add_index_entry :: "byte list \<Rightarrow> ('f, 'c) TableBuilder \<Rightarrow> ('f, 'c) TableBuilder" where
  "add_index_entry key r =
     r\<lparr>tb_last_key := key,
       tb_index_block :=
         BlockAdd (opt_block_restart_interval (tb_index_options r)) key (HandleEncodeTo (tb_pending_handle r) []) (tb_index_block r),
       tb_pending_index_entry := False\<rparr>"

definition TableAdd ::
  "'f writable_ops \<Rightarrow> snappy \<Rightarrow> byte list \<Rightarrow> byte list \<Rightarrow> ('f, 'c) TableBuilder \<Rightarrow> ('f, 'c) TableBuilder" where
  "TableAdd fops sn key value r =
     (if tb_status r \<noteq> OK then r
      else
        let r = (if tb_pending_index_entry r
                 then add_index_entry (FindShortestSeparator (opt_comparator (tb_options r)) (tb_last_key r) key) r else r);
            r = r\<lparr>tb_filter_block := map_option (AddKey key) (tb_filter_block r)\<rparr>;
            r = r\<lparr>tb_last_key := key, tb_num_entries := tb_num_entries r + 1,
                  tb_data_block := BlockAdd (opt_block_restart_interval (tb_options r)) key value (tb_data_block r)\<rparr>
        in if CurrentSizeEstimate (tb_data_block r) \<ge> opt_block_size (tb_options r) then TableFlush fops sn r else r)"

definition filter_key :: "'c Options \<Rightarrow> byte list" where
  "filter_key options =
     map (\<lambda>c. of_char c) ''filter.'' @ (case opt_filter_policy options of Some p \<Rightarrow> filter_name p | None \<Rightarrow> [])"

text \<open>The steps of \<open>Finish\<close>, each of which is skipped once there is an error.\<close>

definition write_filter_block ::
  "'f writable_ops \<Rightarrow> ('f, 'c) TableBuilder \<Rightarrow> BlockHandle \<times> ('f, 'c) TableBuilder" where
  "write_filter_block fops r =
     (case tb_filter_block r of
        Some fb \<Rightarrow> if tb_status r = OK
                   then WriteRawBlock fops (FilterFinish (filter_create (tb_options r)) fb) kNoCompression r
                   else (NewBlockHandle, r)
      | None \<Rightarrow> (NewBlockHandle, r))"

definition write_metaindex_block ::
  "'f writable_ops \<Rightarrow> snappy \<Rightarrow> BlockHandle \<Rightarrow> ('f, 'c) TableBuilder \<Rightarrow> BlockHandle \<times> ('f, 'c) TableBuilder" where
  "write_metaindex_block fops sn filter_handle r =
     (if tb_status r = OK
      then
        let meta_index_block =
              (if tb_filter_block r \<noteq> None
               then BlockAdd (opt_block_restart_interval (tb_options r)) (filter_key (tb_options r))
                      (HandleEncodeTo filter_handle []) NewBlockBuilder
               else NewBlockBuilder);
            (handle, block, r) = WriteBlock fops sn meta_index_block r
        in (handle, r)
      else (NewBlockHandle, r))"

definition write_index_block ::
  "'f writable_ops \<Rightarrow> snappy \<Rightarrow> ('f, 'c) TableBuilder \<Rightarrow> BlockHandle \<times> ('f, 'c) TableBuilder" where
  "write_index_block fops sn r =
     (if tb_status r = OK
      then
        let r = (if tb_pending_index_entry r
                 then add_index_entry (FindShortSuccessor (opt_comparator (tb_options r)) (tb_last_key r)) r else r);
            (handle, block, r) = WriteBlock fops sn (tb_index_block r) r
        in (handle, r\<lparr>tb_index_block := block\<rparr>)
      else (NewBlockHandle, r))"

definition write_footer ::
  "'f writable_ops \<Rightarrow> BlockHandle \<Rightarrow> BlockHandle \<Rightarrow> ('f, 'c) TableBuilder \<Rightarrow> ('f, 'c) TableBuilder" where
  "write_footer fops metaindex index r =
     (if tb_status r = OK
      then
        let footer_encoding = FooterEncodeTo \<lparr>metaindex_handle = metaindex, index_handle = index\<rparr> [];
            (s, f) = Append_op fops footer_encoding (tb_file r);
            r = r\<lparr>tb_status := s, tb_file := f\<rparr>
        in if s = OK then r\<lparr>tb_offset := tb_offset r + word_of_nat (length footer_encoding)\<rparr> else r
      else r)"

definition TableFinish :: "'f writable_ops \<Rightarrow> snappy \<Rightarrow> ('f, 'c) TableBuilder \<Rightarrow> Status \<times> ('f, 'c) TableBuilder" where
  "TableFinish fops sn r =
     (let r = TableFlush fops sn r;
          r = r\<lparr>tb_closed := True\<rparr>;
          (filter_handle, r) = write_filter_block fops r;
          (metaindex, r) = write_metaindex_block fops sn filter_handle r;
          (index, r) = write_index_block fops sn r;
          r = write_footer fops metaindex index r
      in (tb_status r, r))"

definition Abandon :: "('f, 'c) TableBuilder \<Rightarrow> ('f, 'c) TableBuilder" where
  "Abandon r = r\<lparr>tb_closed := True\<rparr>"

definition NumEntries :: "('f, 'c) TableBuilder \<Rightarrow> u64" where
  "NumEntries r = word_of_int (tb_num_entries r)"

definition FileSize :: "('f, 'c) TableBuilder \<Rightarrow> u64" where
  "FileSize r = tb_offset r"

subsection \<open>The file of a table\<close>

definition data_bytes :: "nat \<Rightarrow> entries list \<Rightarrow> byte list" where
  "data_bytes n blocks = concat (map (\<lambda>b. stored_block (block_bytes n b) 0) blocks)"

definition handle_at :: "byte list \<Rightarrow> byte list \<Rightarrow> BlockHandle" where
  "handle_at before bs = \<lparr>bh_offset = word_of_nat (length before), bh_size = word_of_nat (length bs)\<rparr>"

definition block_handle :: "nat \<Rightarrow> entries list \<Rightarrow> nat \<Rightarrow> BlockHandle" where
  "block_handle n blocks i = handle_at (data_bytes n (take i blocks)) (block_bytes n (blocks ! i))"

definition index_key :: "comparator \<Rightarrow> entries list \<Rightarrow> nat \<Rightarrow> byte list" where
  "index_key c blocks i =
     (if Suc i < length blocks
      then FindShortestSeparator c (fst (last (blocks ! i))) (fst (hd (blocks ! Suc i)))
      else FindShortSuccessor c (fst (last (blocks ! i))))"

definition index_entries :: "comparator \<Rightarrow> nat \<Rightarrow> entries list \<Rightarrow> entries" where
  "index_entries c n blocks =
     map (\<lambda>i. (index_key c blocks i, HandleEncodeTo (block_handle n blocks i) [])) [0..<length blocks]"

definition filter_input :: "nat \<Rightarrow> entries list \<Rightarrow> (u64 \<times> byte list list) list" where
  "filter_input n blocks =
     map (\<lambda>i. (word_of_nat (length (data_bytes n (take i blocks))), map fst (blocks ! i))) [0..<length blocks]"

definition filter_bytes :: "filter_ops \<Rightarrow> nat \<Rightarrow> entries list \<Rightarrow> byte list" where
  "filter_bytes p n blocks =
     FilterFinish (create_filter p) (add_blocks (create_filter p) (filter_input n (blocks @ [[]])) new_builder)"

text \<open>The parts of the file: data, filter, metaindex, index, footer.\<close>

definition filter_part :: "'c Options \<Rightarrow> entries list \<Rightarrow> byte list" where
  "filter_part opts blocks =
     (case opt_filter_policy opts of None \<Rightarrow> []
      | Some p \<Rightarrow> stored_block (filter_bytes p (opt_block_restart_interval opts) blocks) 0)"

definition before_meta :: "'c Options \<Rightarrow> entries list \<Rightarrow> byte list" where
  "before_meta opts blocks = data_bytes (opt_block_restart_interval opts) blocks @ filter_part opts blocks"

definition filter_handle :: "filter_ops \<Rightarrow> nat \<Rightarrow> entries list \<Rightarrow> BlockHandle" where
  "filter_handle p n blocks = handle_at (data_bytes n blocks) (filter_bytes p n blocks)"

definition meta_entries :: "'c Options \<Rightarrow> entries list \<Rightarrow> entries" where
  "meta_entries opts blocks =
     (case opt_filter_policy opts of None \<Rightarrow> []
      | Some p \<Rightarrow> [(filter_key opts, HandleEncodeTo (filter_handle p (opt_block_restart_interval opts) blocks) [])])"

definition meta_bytes :: "'c Options \<Rightarrow> entries list \<Rightarrow> byte list" where
  "meta_bytes opts blocks = block_bytes (opt_block_restart_interval opts) (meta_entries opts blocks)"

definition before_index :: "'c Options \<Rightarrow> entries list \<Rightarrow> byte list" where
  "before_index opts blocks = before_meta opts blocks @ stored_block (meta_bytes opts blocks) 0"

definition index_bytes :: "'c Options \<Rightarrow> entries list \<Rightarrow> byte list" where
  "index_bytes opts blocks =
     block_bytes 1 (index_entries (opt_comparator opts) (opt_block_restart_interval opts) blocks)"

definition table_footer :: "'c Options \<Rightarrow> entries list \<Rightarrow> Footer" where
  "table_footer opts blocks =
     \<lparr>metaindex_handle = handle_at (before_meta opts blocks) (meta_bytes opts blocks),
      index_handle = handle_at (before_index opts blocks) (index_bytes opts blocks)\<rparr>"

definition table_bytes :: "'c Options \<Rightarrow> entries list \<Rightarrow> byte list" where
  "table_bytes opts blocks =
     before_index opts blocks @ stored_block (index_bytes opts blocks) 0 @ FooterEncodeTo (table_footer opts blocks) []"

subsection \<open>Writing blocks\<close>

text \<open>A file that takes what it is given; the blocks are stored as they are.\<close>

definition plain_file :: "'f writable_ops \<Rightarrow> ('f \<Rightarrow> byte list) \<Rightarrow> bool" where
  "plain_file fops contents \<longleftrightarrow>
     (\<forall>bs f. fst (Append_op fops bs f) = OK \<and> contents (snd (Append_op fops bs f)) = contents f @ bs) \<and>
     (\<forall>f. fst (Flush_op fops f) = OK \<and> contents (snd (Flush_op fops f)) = contents f)"

lemma plain_append:
  assumes "plain_file fops contents"
  obtains f' where "Append_op fops bs f = (OK, f')" "contents f' = contents f @ bs"
proof -
  have "Append_op fops bs f = (OK, snd (Append_op fops bs f))" using assms by (simp add: plain_file_def prod_eq_iff)
  with assms that show thesis unfolding plain_file_def by blast
qed

lemma plain_flush:
  assumes "plain_file fops contents"
  obtains f' where "Flush_op fops f = (OK, f')" "contents f' = contents f"
proof -
  have "Flush_op fops f = (OK, snd (Flush_op fops f))" using assms by (simp add: plain_file_def prod_eq_iff)
  with assms that show thesis unfolding plain_file_def by blast
qed

definition plain_blocks :: "snappy \<Rightarrow> 'c Options \<Rightarrow> bool" where
  "plain_blocks sn opts \<longleftrightarrow> opt_compression opts = kNoCompression \<or> (\<forall>bs. snappy_compress sn bs = None)"

lemma port_plain: "plain_blocks port_snappy opts"
  by (simp add: plain_blocks_def port_snappy_def Snappy_Compress_def)

lemma raw_block:
  assumes "plain_file fops contents" and "tb_offset r = word_of_nat (length (contents (tb_file r)))"
  shows "\<exists>f. WriteRawBlock fops bs kNoCompression r = (handle_at (contents (tb_file r)) bs,
      r\<lparr>tb_status := OK, tb_file := f, tb_offset := word_of_nat (length (contents f))\<rparr>) \<and>
    contents f = contents (tb_file r) @ stored_block bs 0"
proof -
  obtain f where f: "Append_op fops bs (tb_file r) = (OK, f)" "contents f = contents (tb_file r) @ bs"
    using assms(1) by (rule plain_append)
  obtain g where g: "Append_op fops (0 # EncodeFixed32 (Mask (Value (bs @ [0])))) f = (OK, g)"
    "contents g = contents f @ 0 # EncodeFixed32 (Mask (Value (bs @ [0])))"
    using assms(1) by (rule plain_append)
  have c: "contents g = contents (tb_file r) @ stored_block bs 0" by (simp add: f(2) g(2) stored_block_def)
  have "WriteRawBlock fops bs kNoCompression r = (handle_at (contents (tb_file r)) bs,
      r\<lparr>tb_status := OK, tb_file := g, tb_offset := word_of_nat (length (contents g))\<rparr>)"
    using assms(2) by (simp add: WriteRawBlock_def f(1) g(1) Value_extend handle_at_def c kBlockTrailerSize_def)
  with c show ?thesis by blast
qed

lemma block_adds_Nil: "block_adds n [] = NewBlockBuilder" by (simp add: block_adds_def)

lemma block_adds_snoc: "BlockAdd n k v (block_adds n es) = block_adds n (es @ [(k, v)])" by (simp add: block_adds_def)

lemma whole_block:
  assumes "plain_file fops contents" and "tb_offset r = word_of_nat (length (contents (tb_file r)))"
    and "plain_blocks sn (tb_options r)" and "0 < n"
  shows "\<exists>f. WriteBlock fops sn (block_adds n es) r = (handle_at (contents (tb_file r)) (block_bytes n es), NewBlockBuilder,
      r\<lparr>tb_status := OK, tb_file := f, tb_offset := word_of_nat (length (contents f)), tb_compressed_output := []\<rparr>) \<and>
    contents f = contents (tb_file r) @ stored_block (block_bytes n es) 0"
proof -
  obtain b where b: "BlockFinish (block_adds n es) = (block_bytes n es, b)"
    using block_finish [OF assms(4), of es] by (cases "BlockFinish (block_adds n es)") simp
  have b': "BlockReset b = NewBlockBuilder" by (simp add: BlockReset_def NewBlockBuilder_def)
  have out: "(case opt_compression (tb_options r) of
               kNoCompression \<Rightarrow> (block_bytes n es, kNoCompression, tb_compressed_output r)
             | kSnappyCompression \<Rightarrow>
                 (case snappy_compress sn (block_bytes n es) of
                    Some compressed \<Rightarrow>
                      if length compressed < length (block_bytes n es) - length (block_bytes n es) div 8
                      then (compressed, kSnappyCompression, compressed) else (block_bytes n es, kNoCompression, compressed)
                  | None \<Rightarrow> (block_bytes n es, kNoCompression, tb_compressed_output r))) = (block_bytes n es, kNoCompression, tb_compressed_output r)"
    using assms(3) by (auto simp: plain_blocks_def split: CompressionType.splits)
  obtain f where "WriteRawBlock fops (block_bytes n es) kNoCompression r =
      (handle_at (contents (tb_file r)) (block_bytes n es),
       r\<lparr>tb_status := OK, tb_file := f, tb_offset := word_of_nat (length (contents f))\<rparr>)"
    "contents f = contents (tb_file r) @ stored_block (block_bytes n es) 0"
    using raw_block [OF assms(1,2), of "block_bytes n es"] by auto
  then show ?thesis by (intro exI [of _ f]) (simp add: WriteBlock_def b b' out)
qed

subsection \<open>What a builder has written\<close>

lemma data_bytes_snoc: "data_bytes n (blocks @ [b]) = data_bytes n blocks @ stored_block (block_bytes n b) 0"
  by (simp add: data_bytes_def)

lemma block_handle_append: "i < length blocks \<Longrightarrow> block_handle n (blocks @ bs) i = block_handle n blocks i"
  by (simp add: block_handle_def nth_append)

lemma index_entries_length [simp]: "length (index_entries c n blocks) = length blocks"
  by (simp add: index_entries_def)

lemma index_entries_nth [simp]:
  "i < length blocks \<Longrightarrow> index_entries c n blocks ! i = (index_key c blocks i, HandleEncodeTo (block_handle n blocks i) [])"
  by (simp add: index_entries_def)

lemma filter_input_snoc:
  "filter_input n (blocks @ [b]) = filter_input n blocks @ [(word_of_nat (length (data_bytes n blocks)), map fst b)]"
  by (simp add: filter_input_def nth_append)

lemma add_blocks_append: "add_blocks create (xs @ ys) b = add_blocks create ys (add_blocks create xs b)"
  by (induction create xs b rule: add_blocks.induct) simp_all

lemma filter_add_key:
  "AddKey k (add_blocks create (filter_input n (blocks @ [cur])) b) =
   add_blocks create (filter_input n (blocks @ [cur @ [(k, v)]])) b"
  by (simp add: filter_input_snoc add_blocks_append)

lemma filter_start:
  "StartBlock create (word_of_nat (length (data_bytes n blocks))) (add_blocks create (filter_input n blocks) b) =
   add_blocks create (filter_input n (blocks @ [[]])) b"
  by (simp add: filter_input_snoc add_blocks_append)

text \<open>The index as long as the key of its last entry is open.\<close>

definition index_open :: "comparator \<Rightarrow> nat \<Rightarrow> entries list \<Rightarrow> entries" where
  "index_open c n blocks = take (length blocks - 1) (index_entries c n blocks)"

lemma index_close:
  assumes "blocks \<noteq> []"
  shows "index_open c n blocks @ [(FindShortSuccessor c (fst (last (last blocks))),
      HandleEncodeTo (block_handle n blocks (length blocks - 1)) [])] = index_entries c n blocks"
proof -
  let ?l = "length blocks - 1"
  have l: "?l < length blocks" using assms by (cases blocks) auto
  have "index_entries c n blocks = take (Suc ?l) (index_entries c n blocks)" using l by simp
  also have "\<dots> = index_open c n blocks @ [index_entries c n blocks ! ?l]"
    using l by (simp only: index_open_def take_Suc_conv_app_nth index_entries_length)
  finally show ?thesis using l assms by (simp add: index_key_def last_conv_nth)
qed

lemma index_open_next:
  assumes "blocks \<noteq> []"
  shows "index_open c n (blocks @ [[e]]) = index_open c n blocks @
    [(FindShortestSeparator c (fst (last (last blocks))) (fst e), HandleEncodeTo (block_handle n blocks (length blocks - 1)) [])]"
proof (rule nth_equalityI)
  have l: "length blocks - 1 < length blocks" using assms by (cases blocks) auto
  then show "length (index_open c n (blocks @ [[e]])) = length (index_open c n blocks @
    [(FindShortestSeparator c (fst (last (last blocks))) (fst e), HandleEncodeTo (block_handle n blocks (length blocks - 1)) [])])"
    by (simp add: index_open_def)
  fix i assume "i < length (index_open c n (blocks @ [[e]]))"
  then have i: "i < length blocks" by (simp add: index_open_def)
  show "index_open c n (blocks @ [[e]]) ! i = (index_open c n blocks @
    [(FindShortestSeparator c (fst (last (last blocks))) (fst e), HandleEncodeTo (block_handle n blocks (length blocks - 1)) [])]) ! i"
  proof (cases "i = length blocks - 1")
    case True
    then show ?thesis using i l assms
      by (simp add: index_open_def nth_append block_handle_append index_key_def last_conv_nth)
  next
    case False
    with i have "i < length blocks - 1" "Suc i < length blocks" by auto
    then show ?thesis by (simp add: index_open_def nth_append block_handle_append index_key_def)
  qed
qed

lemma index_open_grow:
  assumes "cur \<noteq> []"
  shows "index_open c n (blocks @ [cur @ [e]]) = index_open c n (blocks @ [cur])"
  using assms by (intro nth_equalityI)
    (auto simp: index_open_def nth_append block_handle_append index_key_def split: if_splits)

definition begun :: "entries list \<Rightarrow> entries \<Rightarrow> entries list" where
  "begun blocks cur = (if cur = [] then blocks else blocks @ [cur])"

text \<open>\<open>blocks\<close> are in the file and \<open>cur\<close> in the data block.\<close>

definition builds ::
  "('f \<Rightarrow> byte list) \<Rightarrow> 'c Options \<Rightarrow> entries list \<Rightarrow> entries \<Rightarrow> ('f, 'c) TableBuilder \<Rightarrow> bool" where
  "builds contents opts blocks cur r \<longleftrightarrow>
     tb_options r = opts \<and> tb_index_options r = opts\<lparr>opt_block_restart_interval := 1\<rparr> \<and> tb_status r = OK \<and>
     contents (tb_file r) = data_bytes (opt_block_restart_interval opts) blocks \<and>
     tb_offset r = word_of_nat (length (contents (tb_file r))) \<and>
     tb_data_block r = block_adds (opt_block_restart_interval opts) cur \<and>
     tb_index_block r =
       block_adds 1 (index_open (opt_comparator opts) (opt_block_restart_interval opts) (begun blocks cur)) \<and>
     (begun blocks cur \<noteq> [] \<longrightarrow> tb_last_key r = fst (last (last (begun blocks cur)))) \<and>
     (tb_pending_index_entry r \<longleftrightarrow> cur = [] \<and> blocks \<noteq> []) \<and>
     (tb_pending_index_entry r \<longrightarrow>
        tb_pending_handle r = block_handle (opt_block_restart_interval opts) blocks (length blocks - 1)) \<and>
     tb_filter_block r = map_option (\<lambda>p. add_blocks (create_filter p)
       (filter_input (opt_block_restart_interval opts) (blocks @ [cur])) new_builder) (opt_filter_policy opts) \<and>
     tb_num_entries r = int (length (concat (blocks @ [cur]))) \<and> [] \<notin> set blocks"

lemma builds_new:
  assumes "contents f = []"
  shows "builds contents opts [] [] (NewTableBuilder opts f)"
  using assms by (simp add: builds_def NewTableBuilder_def data_bytes_def block_adds_Nil index_open_def index_entries_def
      begun_def filter_input_def split: option.splits)

lemma filter_create_eq: "opt_filter_policy opts = Some p \<Longrightarrow> filter_create opts = create_filter p"
  by (simp add: filter_create_def)

lemma buffer_empty: "0 < n \<Longrightarrow> bb_buffer (block_adds n es) = [] \<longleftrightarrow> es = []"
proof (cases es)
  case (Cons e es')
  assume "0 < n"
  moreover have "entry_at n es 0 \<noteq> []" using entry_at_pos [of n es 0] by auto
  ultimately show ?thesis using Cons entries_from_Cons [of 0 es n] by (simp add: block_adds_state)
qed (simp add: block_adds_Nil NewBlockBuilder_def)

lemma builds_flush:
  assumes b: "builds contents opts blocks cur r" and pf: "plain_file fops contents" and "plain_blocks sn opts"
    and n: "0 < opt_block_restart_interval opts"
  shows "builds contents opts (begun blocks cur) [] (TableFlush fops sn r)"
proof (cases "cur = []")
  case True
  then have "TableFlush fops sn r = r"
    using b n by (simp add: builds_def TableFlush_def buffer_empty)
  with b True show ?thesis by (simp add: begun_def)
next
  case False
  let ?n = "opt_block_restart_interval opts"
  have o: "tb_offset r = word_of_nat (length (contents (tb_file r)))" "tb_options r = opts" "tb_status r = OK"
    "tb_data_block r = block_adds ?n cur" "contents (tb_file r) = data_bytes ?n blocks"
    using b by (simp_all add: builds_def)
  obtain f where w: "WriteBlock fops sn (block_adds ?n cur) r = (handle_at (contents (tb_file r)) (block_bytes ?n cur), NewBlockBuilder,
      r\<lparr>tb_status := OK, tb_file := f, tb_offset := word_of_nat (length (contents f)), tb_compressed_output := []\<rparr>)"
    and f: "contents f = contents (tb_file r) @ stored_block (block_bytes ?n cur) 0"
    using whole_block [OF pf o(1) _ n, of sn] assms(3) o(2) by blast
  obtain g where g: "Flush_op fops f = (OK, g)" "contents g = contents f" using pf by (rule plain_flush)
  have c: "contents g = data_bytes ?n (blocks @ [cur])" using f g(2) o(5) by (simp add: data_bytes_snoc)
  with g(2) have c': "contents f = data_bytes ?n (blocks @ [cur])" by simp
  have h: "handle_at (contents (tb_file r)) (block_bytes ?n cur) = block_handle ?n (blocks @ [cur]) (length blocks)"
    by (simp add: block_handle_def o(5))
  have fb: "map_option (StartBlock (filter_create opts) (word_of_nat (length (contents f)))) (tb_filter_block r) =
      map_option (\<lambda>p. add_blocks (create_filter p) (filter_input ?n ((blocks @ [cur]) @ [[]])) new_builder) (opt_filter_policy opts)"
  proof (cases "opt_filter_policy opts")
    case (Some p)
    then have "tb_filter_block r = Some (add_blocks (create_filter p) (filter_input ?n (blocks @ [cur])) new_builder)"
      using b by (simp add: builds_def)
    then show ?thesis using c g(2) by (simp add: Some filter_create_eq filter_start del: append_assoc)
  qed (use b in \<open>simp add: builds_def\<close>)
  have "TableFlush fops sn r = r\<lparr>tb_status := OK, tb_file := g, tb_offset := word_of_nat (length (contents f)),
      tb_compressed_output := [], tb_data_block := NewBlockBuilder,
      tb_pending_handle := block_handle ?n (blocks @ [cur]) (length blocks), tb_pending_index_entry := True,
      tb_filter_block := map_option (StartBlock (filter_create opts) (word_of_nat (length (contents f)))) (tb_filter_block r)\<rparr>"
    using False by (simp add: TableFlush_def o(2-4) buffer_empty [OF n] w g(1) h)
  then show ?thesis
    unfolding fb using b False c c' by (simp add: builds_def begun_def block_adds_Nil)
qed

lemma builds_add:
  assumes b: "builds contents opts blocks cur r" and pf: "plain_file fops contents" and pb: "plain_blocks sn opts"
    and n: "0 < opt_block_restart_interval opts"
  shows "\<exists>blocks' cur'. builds contents opts blocks' cur' (TableAdd fops sn k v r) \<and>
    concat blocks' @ cur' = concat blocks @ cur @ [(k, v)]"
proof -
  let ?n = "opt_block_restart_interval opts" and ?c = "opt_comparator opts"
  define r1 where "r1 = (if tb_pending_index_entry r
    then add_index_entry (FindShortestSeparator (opt_comparator (tb_options r)) (tb_last_key r) k) r else r)"
  define r2 where "r2 = r1\<lparr>tb_filter_block := map_option (AddKey k) (tb_filter_block r1), tb_last_key := k,
    tb_num_entries := tb_num_entries r1 + 1,
    tb_data_block := BlockAdd (opt_block_restart_interval (tb_options r1)) k v (tb_data_block r1)\<rparr>"
  have r1: "tb_options r1 = opts" "tb_index_options r1 = opts\<lparr>opt_block_restart_interval := 1\<rparr>" "tb_status r1 = OK"
    "contents (tb_file r1) = data_bytes ?n blocks" "tb_offset r1 = word_of_nat (length (contents (tb_file r1)))"
    "tb_data_block r1 = block_adds ?n cur" "tb_filter_block r1 = tb_filter_block r" "\<not> tb_pending_index_entry r1"
    "tb_num_entries r1 = tb_num_entries r"
    using b by (simp_all add: builds_def r1_def add_index_entry_def)
  have ix: "tb_index_block r1 = block_adds 1 (index_open ?c ?n (blocks @ [cur @ [(k, v)]]))"
  proof (cases "cur = []")
    case True
    show ?thesis
    proof (cases "blocks = []")
      case False
      with True b show ?thesis
        by (simp add: r1_def builds_def begun_def add_index_entry_def index_open_next block_adds_snoc)
    qed (use True b in \<open>simp add: r1_def builds_def begun_def index_open_def\<close>)
  next
    case False
    with b show ?thesis by (simp add: r1_def builds_def begun_def index_open_grow)
  qed
  have fb: "map_option (AddKey k) (tb_filter_block r) =
      map_option (\<lambda>p. add_blocks (create_filter p) (filter_input ?n (blocks @ [cur @ [(k, v)]])) new_builder) (opt_filter_policy opts)"
    using b by (simp add: builds_def option.map_comp comp_def filter_add_key [where v = v])
  have "builds contents opts blocks (cur @ [(k, v)]) r2"
    using r1 ix fb b by (simp add: r2_def builds_def begun_def block_adds_snoc)
  moreover have "TableAdd fops sn k v r =
      (if CurrentSizeEstimate (tb_data_block r2) \<ge> opt_block_size (tb_options r2) then TableFlush fops sn r2 else r2)"
    unfolding TableAdd_def Let_def r1_def [symmetric] using b by (simp add: builds_def r2_def)
  ultimately show ?thesis
    using builds_flush [OF _ pf pb n, of blocks "cur @ [(k, v)]" r2]
    by (cases "CurrentSizeEstimate (tb_data_block r2) \<ge> opt_block_size (tb_options r2)")
      (fastforce simp: begun_def)+
qed

text \<open>All entries are added in turn.\<close>

definition TableAdds ::
  "'f writable_ops \<Rightarrow> snappy \<Rightarrow> entries \<Rightarrow> ('f, 'c) TableBuilder \<Rightarrow> ('f, 'c) TableBuilder" where
  "TableAdds fops sn es r = fold (\<lambda>(k, v). TableAdd fops sn k v) es r"

lemma builds_adds:
  assumes "builds contents opts blocks cur r" and pf: "plain_file fops contents" and pb: "plain_blocks sn opts"
    and n: "0 < opt_block_restart_interval opts"
  shows "\<exists>blocks' cur'. builds contents opts blocks' cur' (TableAdds fops sn es r) \<and>
    concat blocks' @ cur' = concat blocks @ cur @ es"
  using assms(1)
proof (induction es arbitrary: blocks cur r)
  case (Cons e es)
  obtain k v where e: "e = (k, v)" by fastforce
  from builds_add [OF Cons.prems pf pb n, of k v] obtain bs c where
    s: "builds contents opts bs c (TableAdd fops sn k v r)" "concat bs @ c = concat blocks @ cur @ [(k, v)]" by blast
  from Cons.IH [OF s(1)] obtain bs' c' where
    "builds contents opts bs' c' (TableAdds fops sn es (TableAdd fops sn k v r))" "concat bs' @ c' = concat bs @ c @ es" by blast
  with s(2) show ?case
    by (intro exI [of _ bs'] exI [of _ c']) (simp add: TableAdds_def e flip: append_assoc)
qed (auto simp: TableAdds_def)

subsection \<open>The finished file\<close>

lemma write_filter_builds:
  assumes b: "builds contents opts blocks [] r" and pf: "plain_file fops contents"
  shows "\<exists>h f. write_filter_block fops r =
      (h, r\<lparr>tb_file := f, tb_offset := word_of_nat (length (contents f))\<rparr>) \<and>
    contents f = before_meta opts blocks \<and>
    (\<forall>p. opt_filter_policy opts = Some p \<longrightarrow> h = filter_handle p (opt_block_restart_interval opts) blocks)"
proof (cases "opt_filter_policy opts")
  case None
  with b show ?thesis
    by (intro exI [of _ NewBlockHandle] exI [of _ "tb_file r"])
      (simp add: builds_def write_filter_block_def before_meta_def filter_part_def)
next
  case (Some p)
  let ?n = "opt_block_restart_interval opts"
  have r: "tb_offset r = word_of_nat (length (contents (tb_file r)))" "contents (tb_file r) = data_bytes ?n blocks"
    "tb_status r = OK" "tb_options r = opts"
    using b by (simp_all add: builds_def)
  obtain f where f: "WriteRawBlock fops (filter_bytes p ?n blocks) kNoCompression r = (handle_at (contents (tb_file r)) (filter_bytes p ?n blocks),
      r\<lparr>tb_status := OK, tb_file := f, tb_offset := word_of_nat (length (contents f))\<rparr>)"
    "contents f = contents (tb_file r) @ stored_block (filter_bytes p ?n blocks) 0"
    using raw_block [OF pf r(1)] by blast
  have "tb_filter_block r = Some (add_blocks (create_filter p) (filter_input ?n (blocks @ [[]])) new_builder)"
    using b Some by (simp add: builds_def)
  then have "write_filter_block fops r = WriteRawBlock fops (filter_bytes p ?n blocks) kNoCompression r"
    by (simp add: write_filter_block_def r(3,4) filter_create_eq [OF Some] filter_bytes_def)
  with f Some r(2,3) show ?thesis
    by (intro exI [of _ "filter_handle p ?n blocks"] exI [of _ f])
      (simp add: filter_handle_def before_meta_def filter_part_def)
qed

lemma write_block_fields:
  assumes "plain_file fops contents" and "tb_offset r = word_of_nat (length (contents (tb_file r)))"
    and "plain_blocks sn (tb_options r)" and "0 < n" and "tb_status r = OK"
  obtains f where "WriteBlock fops sn (block_adds n es) r = (handle_at (contents (tb_file r)) (block_bytes n es), NewBlockBuilder,
      r\<lparr>tb_file := f, tb_offset := word_of_nat (length (contents f)), tb_compressed_output := []\<rparr>)"
    "contents f = contents (tb_file r) @ stored_block (block_bytes n es) 0"
proof -
  have "r\<lparr>tb_status := OK, tb_file := f, tb_offset := word_of_nat (length (contents f)), tb_compressed_output := []\<rparr> =
      r\<lparr>tb_file := f, tb_offset := word_of_nat (length (contents f)), tb_compressed_output := []\<rparr>" for f
    using assms(5) by (cases r) simp
  with whole_block [OF assms(1-4), of es] that show thesis by metis
qed

lemma finish_builds:
  assumes b: "builds contents opts blocks cur r" and pf: "plain_file fops contents" and pb: "plain_blocks sn opts"
    and n: "0 < opt_block_restart_interval opts"
  shows "\<exists>r'. TableFinish fops sn r = (OK, r') \<and> contents (tb_file r') = table_bytes opts (begun blocks cur) \<and>
    FileSize r' = word_of_nat (length (table_bytes opts (begun blocks cur))) \<and> tb_closed r' \<and>
    tb_num_entries r' = int (length (concat (begun blocks cur)))"
proof -
  let ?n = "opt_block_restart_interval opts" and ?bs = "begun blocks cur" and ?c = "opt_comparator opts"
  let ?r0 = "TableFlush fops sn r\<lparr>tb_closed := True\<rparr>"
  have b0: "builds contents opts ?bs [] ?r0" using builds_flush [OF b pf pb n] by (simp add: builds_def)
  obtain fh f1 where w1: "write_filter_block fops ?r0 = (fh, ?r0\<lparr>tb_file := f1, tb_offset := word_of_nat (length (contents f1))\<rparr>)"
    "contents f1 = before_meta opts ?bs" "\<forall>p. opt_filter_policy opts = Some p \<longrightarrow> fh = filter_handle p ?n ?bs"
    using write_filter_builds [OF b0 pf] by blast
  let ?r1 = "?r0\<lparr>tb_file := f1, tb_offset := word_of_nat (length (contents f1))\<rparr>"
  have r1: "tb_options ?r1 = opts" "tb_status ?r1 = OK" "tb_index_options ?r1 = opts\<lparr>opt_block_restart_interval := 1\<rparr>"
    using b0 by (simp_all add: builds_def)
  have meta: "(if tb_filter_block ?r1 \<noteq> None
               then BlockAdd (opt_block_restart_interval (tb_options ?r1)) (filter_key (tb_options ?r1)) (HandleEncodeTo fh []) NewBlockBuilder
               else NewBlockBuilder) = block_adds ?n (meta_entries opts ?bs)"
    using w1(3) b0 by (cases "opt_filter_policy opts") (auto simp: builds_def meta_entries_def block_adds_def)
  obtain f2 where w2: "WriteBlock fops sn (block_adds ?n (meta_entries opts ?bs)) ?r1 =
      (handle_at (contents (tb_file ?r1)) (block_bytes ?n (meta_entries opts ?bs)), NewBlockBuilder,
       ?r1\<lparr>tb_file := f2, tb_offset := word_of_nat (length (contents f2)), tb_compressed_output := []\<rparr>)"
    "contents f2 = contents (tb_file ?r1) @ stored_block (block_bytes ?n (meta_entries opts ?bs)) 0"
    by (rule write_block_fields [of fops contents ?r1 sn ?n "meta_entries opts ?bs", OF pf]) (use r1 pb n in auto)
  let ?r2 = "?r1\<lparr>tb_file := f2, tb_offset := word_of_nat (length (contents f2)), tb_compressed_output := []\<rparr>"
  have c2: "contents f2 = before_index opts ?bs" using w1(2) w2(2) by (simp add: before_index_def meta_bytes_def)
  have m: "write_metaindex_block fops sn fh ?r1 = (handle_at (before_meta opts ?bs) (meta_bytes opts ?bs), ?r2)"
    unfolding write_metaindex_block_def Let_def meta w2(1) using r1(2) w1(2) by (simp add: meta_bytes_def)
  let ?r3 = "if tb_pending_index_entry ?r2
    then add_index_entry (FindShortSuccessor (opt_comparator (tb_options ?r2)) (tb_last_key ?r2)) ?r2 else ?r2"
  have i: "tb_index_block ?r3 = block_adds 1 (index_entries ?c ?n ?bs)"
  proof (cases "?bs = []")
    case True
    with b0 show ?thesis by (simp add: builds_def begun_def index_open_def index_entries_def)
  next
    case False
    then have "index_entries ?c ?n ?bs = index_open ?c ?n ?bs @ [(FindShortSuccessor ?c (fst (last (last ?bs))),
        HandleEncodeTo (block_handle ?n ?bs (length ?bs - 1)) [])]" by (rule index_close [symmetric])
    with b0 False show ?thesis
      by (simp add: builds_def begun_def [of ?bs "[]"] add_index_entry_def block_adds_snoc)
  qed
  have r3: "tb_options ?r3 = opts" "tb_status ?r3 = OK" "tb_file ?r3 = f2" "tb_offset ?r3 = word_of_nat (length (contents f2))"
    "tb_closed ?r3" "tb_num_entries ?r3 = tb_num_entries ?r0"
    using b0 by (simp_all add: builds_def add_index_entry_def)
  obtain f4 where w4: "WriteBlock fops sn (block_adds 1 (index_entries ?c ?n ?bs)) ?r3 =
      (handle_at (contents (tb_file ?r3)) (block_bytes 1 (index_entries ?c ?n ?bs)), NewBlockBuilder,
       ?r3\<lparr>tb_file := f4, tb_offset := word_of_nat (length (contents f4)), tb_compressed_output := []\<rparr>)"
    "contents f4 = contents (tb_file ?r3) @ stored_block (block_bytes 1 (index_entries ?c ?n ?bs)) 0"
    by (rule write_block_fields [of fops contents ?r3 sn 1 "index_entries ?c ?n ?bs", OF pf]) (use r3 pb in auto)
  let ?r4 = "?r3\<lparr>tb_file := f4, tb_offset := word_of_nat (length (contents f4)), tb_compressed_output := [], tb_index_block := NewBlockBuilder\<rparr>"
  have x: "write_index_block fops sn ?r2 = (handle_at (before_index opts ?bs) (index_bytes opts ?bs), ?r4)"
    unfolding write_index_block_def Let_def i w4(1) using r1(2) r3(3) c2 by (simp add: index_bytes_def)
  have c4: "contents f4 = before_index opts ?bs @ stored_block (index_bytes opts ?bs) 0"
    using w4(2) r3(3) c2 by (simp add: index_bytes_def)
  obtain f5 where w5: "Append_op fops (FooterEncodeTo (table_footer opts ?bs) []) f4 = (OK, f5)"
    "contents f5 = contents f4 @ FooterEncodeTo (table_footer opts ?bs) []"
    using pf by (rule plain_append)
  have c5: "contents f5 = table_bytes opts ?bs" using c4 w5(2) by (simp add: table_bytes_def)
  let ?r5 = "?r4\<lparr>tb_status := OK, tb_file := f5, tb_offset := tb_offset ?r4 + word_of_nat (length (FooterEncodeTo (table_footer opts ?bs) []))\<rparr>"
  have "write_footer fops (handle_at (before_meta opts ?bs) (meta_bytes opts ?bs)) (handle_at (before_index opts ?bs) (index_bytes opts ?bs)) ?r4 = ?r5"
    using r3(2) w5(1) by (simp add: write_footer_def table_footer_def)
  then have "TableFinish fops sn r = (OK, ?r5)"
    unfolding TableFinish_def Let_def w1(1) prod.case m x by simp
  moreover have "FileSize ?r5 = word_of_nat (length (table_bytes opts ?bs))"
    using c5 w5(2) by (simp add: FileSize_def flip: c5)
  moreover have "tb_num_entries ?r5 = int (length (concat ?bs))" using b0 r3(6) by (simp add: builds_def)
  ultimately show ?thesis using c5 r3(5) by (intro exI [of _ ?r5]) simp
qed

lemma table_built:
  assumes pf: "plain_file fops contents" and "contents f = []" and pb: "plain_blocks sn opts"
    and n: "0 < opt_block_restart_interval opts"
  shows "\<exists>blocks r. TableFinish fops sn (TableAdds fops sn es (NewTableBuilder opts f)) = (OK, r) \<and>
    contents (tb_file r) = table_bytes opts blocks \<and> FileSize r = word_of_nat (length (table_bytes opts blocks)) \<and>
    NumEntries r = word_of_nat (length es) \<and> concat blocks = es \<and> [] \<notin> set blocks"
proof -
  from builds_adds [OF builds_new [of contents f opts, OF assms(2)] pf pb n, of es] obtain bs cur where
    b: "builds contents opts bs cur (TableAdds fops sn es (NewTableBuilder opts f))" "concat bs @ cur = es" by auto
  have c: "concat (begun bs cur) = es" "[] \<notin> set (begun bs cur)" using b by (auto simp: begun_def builds_def)
  with finish_builds [OF b(1) pf pb n] show ?thesis
    by (intro exI [of _ "begun bs cur"]) (auto simp: NumEntries_def)
qed

text \<open>After an error nothing more is written and the error is what \<open>Finish\<close> returns.\<close>

lemma builder_stuck:
  assumes "tb_status r \<noteq> OK"
  shows "TableAdd fops sn k v r = r" and "TableFlush fops sn r = r"
    and "TableFinish fops sn r = (tb_status r, r\<lparr>tb_closed := True\<rparr>)"
  using assms by (simp_all add: TableAdd_def TableFlush_def TableFinish_def write_filter_block_def
      write_metaindex_block_def write_index_block_def write_footer_def Let_def split: option.splits)

end
