(* ===== verification/LDB_TwoLevel.thy ===== *)
theory LDB_TwoLevel
  imports LDB_Wrapper
begin

text \<open>
  The two-level iterator (\<open>table/two_level_iterator.cc\<close>): an index iterator whose values are
  handles, and the iterator that a function opens on the handle it stands on. If both
  keep the contract of iterators and the index keys separate the blocks, so does the whole, on
  the concatenation of the blocks; empty blocks are passed over in both directions.
\<close>

subsection \<open>The iterator\<close>

text \<open>
  The block function may change an environment, such as a cache of blocks, which the iterator
  keeps in \<open>tl_env\<close>; it is \<open>None\<close> where it would leave the memory it may read.
\<close>

record ('i, 'd, 'e) two_level =
  tl_status :: Status
  tl_index :: "'i wrapper"
  tl_data :: "'d wrapper"
  tl_handle :: "byte list"
  tl_env :: 'e

type_synonym ('d, 'e) block_function = "byte list \<Rightarrow> 'e \<Rightarrow> ('d \<times> 'e) option"

definition NewTwoLevelIterator :: "'i iterator_ops \<Rightarrow> 'i \<Rightarrow> 'e \<Rightarrow> ('i, 'd, 'e) two_level" where
  "NewTwoLevelIterator iops index env =
     \<lparr>tl_status = OK, tl_index = WrapSet iops (Some index) NewWrapper, tl_data = NewWrapper, tl_handle = [], tl_env = env\<rparr>"

definition SaveError :: "Status \<Rightarrow> ('i, 'd, 'e) two_level \<Rightarrow> ('i, 'd, 'e) two_level" where
  "SaveError s t = (if tl_status t = OK \<and> s \<noteq> OK then t\<lparr>tl_status := s\<rparr> else t)"

definition SetDataIterator ::
  "'d iterator_ops \<Rightarrow> 'd option \<Rightarrow> ('i, 'd, 'e) two_level \<Rightarrow> ('i, 'd, 'e) two_level" where
  "SetDataIterator dops data_iter t =
     (let t = (case w_iter (tl_data t) of None \<Rightarrow> t | Some it \<Rightarrow> SaveError (op_status dops it) t)
      in t\<lparr>tl_data := WrapSet dops data_iter (tl_data t)\<rparr>)"

definition InitDataBlock ::
  "'i iterator_ops \<Rightarrow> 'd iterator_ops \<Rightarrow> ('d, 'e) block_function \<Rightarrow> ('i, 'd, 'e) two_level \<Rightarrow> ('i, 'd, 'e) two_level option" where
  "InitDataBlock iops dops block_fn t =
     (if \<not> w_valid (tl_index t) then Some (SetDataIterator dops None t)
      else
        let handle = w_value iops (tl_index t)
        in if w_iter (tl_data t) \<noteq> None \<and> slice_compare handle (tl_handle t) = 0 then Some t
           else map_option (\<lambda>(iter, env). SetDataIterator dops (Some iter) (t\<lparr>tl_handle := handle, tl_env := env\<rparr>))
                  (block_fn handle (tl_env t)))"

text \<open>\<open>if (data_iter_.iter() != NULL) data_iter_.f()\<close>, alone and after \<open>InitDataBlock\<close>, and a move of the index iterator.\<close>

definition on_data :: "('d wrapper \<Rightarrow> 'd wrapper option) \<Rightarrow> ('i, 'd, 'e) two_level \<Rightarrow> ('i, 'd, 'e) two_level option" where
  "on_data f t =
     (if w_iter (tl_data t) = None then Some t else map_option (\<lambda>w. t\<lparr>tl_data := w\<rparr>) (f (tl_data t)))"

definition load_data ::
  "'i iterator_ops \<Rightarrow> 'd iterator_ops \<Rightarrow> ('d, 'e) block_function \<Rightarrow> ('d wrapper \<Rightarrow> 'd wrapper option) \<Rightarrow>
   ('i, 'd, 'e) two_level \<Rightarrow> ('i, 'd, 'e) two_level option" where
  "load_data iops dops block_fn f t = Option.bind (InitDataBlock iops dops block_fn t) (on_data f)"

definition on_index :: "('i wrapper \<Rightarrow> 'i wrapper option) \<Rightarrow> ('i, 'd, 'e) two_level \<Rightarrow> ('i, 'd, 'e) two_level option" where
  "on_index f t = map_option (\<lambda>w. t\<lparr>tl_index := w\<rparr>) (f (tl_index t))"

partial_function (option) SkipEmptyDataBlocksForward ::
  "'i iterator_ops \<Rightarrow> 'd iterator_ops \<Rightarrow> ('d, 'e) block_function \<Rightarrow> ('i, 'd, 'e) two_level \<Rightarrow> ('i, 'd, 'e) two_level option" where
  "SkipEmptyDataBlocksForward iops dops block_fn t =
     (if w_iter (tl_data t) = None \<or> \<not> w_valid (tl_data t)
      then if \<not> w_valid (tl_index t) then Some (SetDataIterator dops None t)
           else Option.bind (on_index (WrapNext iops) t) (\<lambda>t.
                Option.bind (load_data iops dops block_fn (WrapSeekToFirst dops) t) (\<lambda>t.
                SkipEmptyDataBlocksForward iops dops block_fn t))
      else Some t)"

partial_function (option) SkipEmptyDataBlocksBackward ::
  "'i iterator_ops \<Rightarrow> 'd iterator_ops \<Rightarrow> ('d, 'e) block_function \<Rightarrow> ('i, 'd, 'e) two_level \<Rightarrow> ('i, 'd, 'e) two_level option" where
  "SkipEmptyDataBlocksBackward iops dops block_fn t =
     (if w_iter (tl_data t) = None \<or> \<not> w_valid (tl_data t)
      then if \<not> w_valid (tl_index t) then Some (SetDataIterator dops None t)
           else Option.bind (on_index (WrapPrev iops) t) (\<lambda>t.
                Option.bind (load_data iops dops block_fn (WrapSeekToLast dops) t) (\<lambda>t.
                SkipEmptyDataBlocksBackward iops dops block_fn t))
      else Some t)"

definition two_valid :: "('i, 'd, 'e) two_level \<Rightarrow> bool" where
  "two_valid t \<longleftrightarrow> w_valid (tl_data t)"

definition two_key :: "('i, 'd, 'e) two_level \<Rightarrow> byte list" where
  "two_key t = w_key (tl_data t)"

definition two_value :: "'d iterator_ops \<Rightarrow> ('i, 'd, 'e) two_level \<Rightarrow> byte list" where
  "two_value dops t = w_value dops (tl_data t)"

definition two_status :: "'i iterator_ops \<Rightarrow> 'd iterator_ops \<Rightarrow> ('i, 'd, 'e) two_level \<Rightarrow> Status" where
  "two_status iops dops t =
     (case w_status iops (tl_index t) of
        Some s \<Rightarrow> if s \<noteq> OK then s
                  else (case w_status dops (tl_data t) of Some d \<Rightarrow> if d \<noteq> OK then d else tl_status t | None \<Rightarrow> tl_status t)
      | None \<Rightarrow> tl_status t)"

definition TwoSeek ::
  "'i iterator_ops \<Rightarrow> 'd iterator_ops \<Rightarrow> ('d, 'e) block_function \<Rightarrow> byte list \<Rightarrow> ('i, 'd, 'e) two_level \<Rightarrow> ('i, 'd, 'e) two_level option" where
  "TwoSeek iops dops block_fn target t =
     Option.bind (on_index (WrapSeek iops target) t) (\<lambda>t.
     Option.bind (load_data iops dops block_fn (WrapSeek dops target) t) (\<lambda>t.
     SkipEmptyDataBlocksForward iops dops block_fn t))"

definition TwoSeekToFirst ::
  "'i iterator_ops \<Rightarrow> 'd iterator_ops \<Rightarrow> ('d, 'e) block_function \<Rightarrow> ('i, 'd, 'e) two_level \<Rightarrow> ('i, 'd, 'e) two_level option" where
  "TwoSeekToFirst iops dops block_fn t =
     Option.bind (on_index (WrapSeekToFirst iops) t) (\<lambda>t.
     Option.bind (load_data iops dops block_fn (WrapSeekToFirst dops) t) (\<lambda>t.
     SkipEmptyDataBlocksForward iops dops block_fn t))"

definition TwoSeekToLast ::
  "'i iterator_ops \<Rightarrow> 'd iterator_ops \<Rightarrow> ('d, 'e) block_function \<Rightarrow> ('i, 'd, 'e) two_level \<Rightarrow> ('i, 'd, 'e) two_level option" where
  "TwoSeekToLast iops dops block_fn t =
     Option.bind (on_index (WrapSeekToLast iops) t) (\<lambda>t.
     Option.bind (load_data iops dops block_fn (WrapSeekToLast dops) t) (\<lambda>t.
     SkipEmptyDataBlocksBackward iops dops block_fn t))"

text \<open>\<open>Next\<close> and \<open>Prev\<close> require a valid position, hence a data iterator.\<close>

definition TwoNext ::
  "'i iterator_ops \<Rightarrow> 'd iterator_ops \<Rightarrow> ('d, 'e) block_function \<Rightarrow> ('i, 'd, 'e) two_level \<Rightarrow> ('i, 'd, 'e) two_level option" where
  "TwoNext iops dops block_fn t =
     Option.bind (WrapNext dops (tl_data t)) (\<lambda>w. SkipEmptyDataBlocksForward iops dops block_fn (t\<lparr>tl_data := w\<rparr>))"

definition TwoPrev ::
  "'i iterator_ops \<Rightarrow> 'd iterator_ops \<Rightarrow> ('d, 'e) block_function \<Rightarrow> ('i, 'd, 'e) two_level \<Rightarrow> ('i, 'd, 'e) two_level option" where
  "TwoPrev iops dops block_fn t =
     Option.bind (WrapPrev dops (tl_data t)) (\<lambda>w. SkipEmptyDataBlocksBackward iops dops block_fn (t\<lparr>tl_data := w\<rparr>))"

definition two_ops ::
  "'i iterator_ops \<Rightarrow> 'd iterator_ops \<Rightarrow> ('d, 'e) block_function \<Rightarrow> ('i, 'd, 'e) two_level iterator_ops" where
  "two_ops iops dops block_fn =
     \<lparr>op_valid = two_valid, op_key = two_key, op_value = two_value dops, op_first = TwoSeekToFirst iops dops block_fn,
      op_last = TwoSeekToLast iops dops block_fn, op_seek = TwoSeek iops dops block_fn,
      op_next = TwoNext iops dops block_fn, op_prev = TwoPrev iops dops block_fn, op_status = two_status iops dops\<rparr>"

subsection \<open>Positions\<close>

definition tl_entries :: "(byte list \<Rightarrow> entries) \<Rightarrow> entries \<Rightarrow> entries" where
  "tl_entries block_of xs = concat (map (\<lambda>x. block_of (snd x)) xs)"

definition tl_offset :: "(byte list \<Rightarrow> entries) \<Rightarrow> entries \<Rightarrow> nat \<Rightarrow> nat" where
  "tl_offset block_of xs b = length (tl_entries block_of (take b xs))"

text \<open>
  An index is sound for blocks: its keys are ordered, none is below a key of its block or at
  or above one of a later block, and the block function opens an iterator on the block.
\<close>

definition index_ok ::
  "(byte list \<Rightarrow> byte list \<Rightarrow> int) \<Rightarrow> (byte list \<Rightarrow> bool) \<Rightarrow> ('d, 'e) block_function \<Rightarrow> (byte list \<Rightarrow> entries) \<Rightarrow>
   (entries \<Rightarrow> nat \<Rightarrow> 'd \<Rightarrow> bool) \<Rightarrow> ('e \<Rightarrow> bool) \<Rightarrow> entries \<Rightarrow> bool" where
  "index_ok cmp kvalid block_fn block_of dat env_ok xs \<longleftrightarrow>
     in_order cmp xs \<and>
     (\<forall>(k, h) \<in> set xs. kvalid k \<and> (\<forall>(a, v) \<in> set (block_of h). kvalid a \<and> cmp a k \<le> 0) \<and>
       (\<forall>e. env_ok e \<longrightarrow> (\<exists>d e' i. block_fn h e = Some (d, e') \<and> env_ok e' \<and> dat (block_of h) i d))) \<and>
     sorted_wrt (\<lambda>(k, h) (k', h'). \<forall>(a, v) \<in> set (block_of h'). cmp k a < 0) xs"

lemma tl_entries_split: "tl_entries block_of xs = tl_entries block_of (take b xs) @ tl_entries block_of (drop b xs)"
  unfolding tl_entries_def by (metis append_take_drop_id concat_append map_append)

lemma tl_offset_0 [simp]: "tl_offset block_of xs 0 = 0" by (simp add: tl_offset_def tl_entries_def)

lemma tl_offset_end: "length xs \<le> b \<Longrightarrow> tl_offset block_of xs b = length (tl_entries block_of xs)"
  by (simp add: tl_offset_def)

lemma tl_offset_Suc:
  "b < length xs \<Longrightarrow> tl_offset block_of xs (Suc b) = tl_offset block_of xs b + length (block_of (snd (xs ! b)))"
  by (simp add: tl_offset_def tl_entries_def take_Suc_conv_app_nth)

lemma tl_entries_nth:
  assumes "b < length xs" and "i < length (block_of (snd (xs ! b)))"
  shows "tl_offset block_of xs b + i < length (tl_entries block_of xs)"
    "tl_entries block_of xs ! (tl_offset block_of xs b + i) = block_of (snd (xs ! b)) ! i"
proof -
  have "tl_entries block_of xs =
      tl_entries block_of (take b xs) @ block_of (snd (xs ! b)) @ tl_entries block_of (drop (Suc b) xs)"
    using assms(1) by (subst id_take_nth_drop [OF assms(1)]) (simp add: tl_entries_def)
  then show "tl_offset block_of xs b + i < length (tl_entries block_of xs)"
    "tl_entries block_of xs ! (tl_offset block_of xs b + i) = block_of (snd (xs ! b)) ! i"
    using assms(2) by (simp_all add: tl_offset_def nth_append)
qed

locale two_level_laws =
  index: iterator_impl iops cmp iat target_ok +
  data: iterator_impl dops cmp dat target_ok +
  key_order cmp kvalid
  for iops :: "'i iterator_ops" and dops :: "'d iterator_ops" and cmp iat dat target_ok kvalid +
  fixes block_fn :: "('d, 'e) block_function"
    and block_of :: "byte list \<Rightarrow> entries"
    and env_ok :: "'e \<Rightarrow> bool"
begin

definition loose :: "entries \<Rightarrow> nat \<Rightarrow> ('i, 'd, 'e) two_level \<Rightarrow> bool" where
  "loose xs b t \<longleftrightarrow> index_ok cmp kvalid block_fn block_of dat env_ok xs \<and> wrap_at iops iat xs b (tl_index t) \<and> env_ok (tl_env t) \<and>
     (w_iter (tl_data t) = None \<and> \<not> w_valid (tl_data t) \<or>
      (\<exists>i. wrap_at dops dat (block_of (tl_handle t)) i (tl_data t)))"

definition placed :: "entries \<Rightarrow> nat \<Rightarrow> nat \<Rightarrow> ('i, 'd, 'e) two_level \<Rightarrow> bool" where
  "placed xs b i t \<longleftrightarrow> index_ok cmp kvalid block_fn block_of dat env_ok xs \<and> wrap_at iops iat xs b (tl_index t) \<and> env_ok (tl_env t) \<and>
     b < length xs \<and> tl_handle t = snd (xs ! b) \<and> wrap_at dops dat (block_of (snd (xs ! b))) i (tl_data t)"

definition ended :: "entries \<Rightarrow> nat \<Rightarrow> ('i, 'd, 'e) two_level \<Rightarrow> bool" where
  "ended xs b t \<longleftrightarrow> index_ok cmp kvalid block_fn block_of dat env_ok xs \<and> wrap_at iops iat xs b (tl_index t) \<and> env_ok (tl_env t) \<and>
     w_iter (tl_data t) = None \<and> \<not> w_valid (tl_data t)"

definition two_at :: "entries \<Rightarrow> nat \<Rightarrow> ('i, 'd, 'e) two_level \<Rightarrow> bool" where
  "two_at es p t \<longleftrightarrow> (\<exists>xs b. es = tl_entries block_of xs \<and>
     (ended xs b t \<and> p = length es \<or>
      (\<exists>i. placed xs b i t \<and> i < length (block_of (snd (xs ! b))) \<and> p = tl_offset block_of xs b + i)))"

lemma placed_loose: "placed xs b i t \<Longrightarrow> loose xs b t"
  by (auto simp: placed_def loose_def)

lemma ended_loose: "ended xs b t \<Longrightarrow> loose xs b t"
  by (auto simp: ended_def loose_def)

lemma set_data [simp]:
  "tl_index (SetDataIterator dops d t) = tl_index t" "tl_env (SetDataIterator dops d t) = tl_env t"
  "tl_handle (SetDataIterator dops d t) = tl_handle t" "tl_data (SetDataIterator dops d t) = WrapSet dops d (tl_data t)"
  by (auto simp: SetDataIterator_def SaveError_def Let_def split: option.splits)

lemma set_none [simp]: "w_iter (WrapSet dops None w) = None" "\<not> w_valid (WrapSet dops None w)"
  by (simp_all add: WrapSet_def)

lemma init_data:
  assumes "loose xs b t"
  shows "\<exists>r. InitDataBlock iops dops block_fn t = Some r \<and> (if b < length xs then \<exists>i. placed xs b i r else ended xs b r)"
proof (cases "b < length xs")
  case True
  from assms have ok: "index_ok cmp kvalid block_fn block_of dat env_ok xs" and ix: "wrap_at iops iat xs b (tl_index t)"
    and iv: "env_ok (tl_env t)" by (simp_all add: loose_def)
  let ?h = "snd (xs ! b)"
  have v: "w_valid (tl_index t)" "w_value iops (tl_index t) = ?h"
    using index.wrap.at_valid [OF ix] index.wrap.at_val [OF ix] True by simp_all
  show ?thesis
  proof (cases "w_iter (tl_data t) \<noteq> None \<and> slice_compare ?h (tl_handle t) = 0")
    case same: True
    then have "tl_handle t = ?h" by (simp add: slice_compare_eq)
    with same assms True v show ?thesis by (auto simp: InitDataBlock_def placed_def loose_def Let_def)
  next
    case False
    have "(fst (xs ! b), ?h) \<in> set xs" using True by simp
    with ok iv obtain d e i where d: "block_fn ?h (tl_env t) = Some (d, e)" and i: "env_ok e" "dat (block_of ?h) i d"
      unfolding index_ok_def by blast
    then have "placed xs b i (SetDataIterator dops (Some d) (t\<lparr>tl_handle := ?h, tl_env := e\<rparr>))"
      using True ok ix by (simp add: placed_def data.wrap_set)
    with False True v d show ?thesis by (auto simp: InitDataBlock_def Let_def)
  qed
next
  case False
  then have "\<not> w_valid (tl_index t)" using assms index.wrap.at_valid by (auto simp: loose_def)
  with False assms show ?thesis by (simp add: InitDataBlock_def ended_def loose_def)
qed

lemma index_move:
  assumes "loose xs b t" and "\<exists>w. f (tl_index t) = Some w \<and> wrap_at iops iat xs b' w"
  shows "\<exists>t'. on_index f t = Some t' \<and> loose xs b' t'"
  using assms by (auto simp: on_index_def loose_def)

lemma data_move:
  assumes "placed xs b i t" and "\<exists>w. f (tl_data t) = Some w \<and> wrap_at dops dat (block_of (snd (xs ! b))) j w"
  shows "\<exists>t'. on_data f t = Some t' \<and> placed xs b j t'"
proof -
  have "w_iter (tl_data t) \<noteq> None" using assms(1) by (auto simp: placed_def wrap_at_def)
  with assms show ?thesis by (auto simp: on_data_def placed_def)
qed

lemma load_placed:
  assumes "loose xs b t" and "b < length xs"
    and "\<forall>w k. wrap_at dops dat (block_of (snd (xs ! b))) k w \<longrightarrow>
      (\<exists>r. f w = Some r \<and> wrap_at dops dat (block_of (snd (xs ! b))) j r)"
  shows "\<exists>r. load_data iops dops block_fn f t = Some r \<and> placed xs b j r"
proof -
  obtain r k where r: "InitDataBlock iops dops block_fn t = Some r" "placed xs b k r"
    using init_data [OF assms(1)] assms(2) by auto
  from r(2) have "wrap_at dops dat (block_of (snd (xs ! b))) k (tl_data r)" by (simp add: placed_def)
  with assms(3) have "\<exists>w. f (tl_data r) = Some w \<and> wrap_at dops dat (block_of (snd (xs ! b))) j w" by blast
  from data_move [where f = f and j = j, OF r(2) this] r(1) show ?thesis by (simp add: load_data_def)
qed

lemma load_ended:
  assumes "loose xs (length xs) t"
  shows "\<exists>r. load_data iops dops block_fn f t = Some r \<and> ended xs (length xs) r"
proof -
  obtain r where "InitDataBlock iops dops block_fn t = Some r" "ended xs (length xs) r"
    using init_data [OF assms] by auto
  then show ?thesis by (simp add: load_data_def on_data_def ended_def)
qed

lemma placed_data:
  assumes "placed xs b i t"
  shows "wrap_at dops dat (block_of (snd (xs ! b))) i (tl_data t)" "i \<le> length (block_of (snd (xs ! b)))"
    "w_valid (tl_data t) \<longleftrightarrow> i < length (block_of (snd (xs ! b)))" "w_iter (tl_data t) \<noteq> None" "w_valid (tl_index t)"
proof -
  show w: "wrap_at dops dat (block_of (snd (xs ! b))) i (tl_data t)" using assms by (simp add: placed_def)
  show "i \<le> length (block_of (snd (xs ! b)))" by (rule data.wrap.at_le [OF w])
  show "w_valid (tl_data t) \<longleftrightarrow> i < length (block_of (snd (xs ! b)))" by (rule data.wrap.at_valid [OF w])
  show "w_iter (tl_data t) \<noteq> None" using w by (auto simp: wrap_at_def)
  show "w_valid (tl_index t)" using assms index.wrap.at_valid by (auto simp: placed_def)
qed

lemma two_at_placed:
  "placed xs b i t \<Longrightarrow> i < length (block_of (snd (xs ! b))) \<Longrightarrow> two_at (tl_entries block_of xs) (tl_offset block_of xs b + i) t"
  unfolding two_at_def by blast

lemma two_at_ended: "ended xs b t \<Longrightarrow> two_at (tl_entries block_of xs) (length (tl_entries block_of xs)) t"
  unfolding two_at_def by blast

text \<open>The loops, first where there is no block to go to.\<close>

lemma skip_ended:
  assumes "ended xs (length xs) t"
  shows "\<exists>r. SkipEmptyDataBlocksForward iops dops block_fn t = Some r \<and> two_at (tl_entries block_of xs) (length (tl_entries block_of xs)) r"
    "\<exists>r. SkipEmptyDataBlocksBackward iops dops block_fn t = Some r \<and> two_at (tl_entries block_of xs) (length (tl_entries block_of xs)) r"
proof -
  have "w_iter (tl_data t) = None" "\<not> w_valid (tl_index t)"
    using assms index.wrap.at_valid [of xs "length xs" "tl_index t"] by (auto simp: ended_def)
  moreover have "two_at (tl_entries block_of xs) (length (tl_entries block_of xs)) (SetDataIterator dops None t)"
    using assms by (intro two_at_ended [of _ "length xs"]) (simp add: ended_def)
  ultimately show "\<exists>r. SkipEmptyDataBlocksForward iops dops block_fn t = Some r \<and> two_at (tl_entries block_of xs) (length (tl_entries block_of xs)) r"
    "\<exists>r. SkipEmptyDataBlocksBackward iops dops block_fn t = Some r \<and> two_at (tl_entries block_of xs) (length (tl_entries block_of xs)) r"
    by (simp_all add: SkipEmptyDataBlocksForward.simps SkipEmptyDataBlocksBackward.simps)
qed

lemma skip_forward:
  assumes "placed xs b i t"
  shows "\<exists>r. SkipEmptyDataBlocksForward iops dops block_fn t = Some r \<and>
    two_at (tl_entries block_of xs) (tl_offset block_of xs b + i) r"
  using assms
proof (induction "length xs - b" arbitrary: b i t)
  case 0
  then show ?case by (simp add: placed_def)
next
  case (Suc n)
  note d = placed_data [OF Suc.prems]
  have b: "b < length xs" using Suc.prems by (simp add: placed_def)
  show ?case
  proof (cases "i < length (block_of (snd (xs ! b)))")
    case True
    with d(3,4) two_at_placed [OF Suc.prems True] show ?thesis by (subst SkipEmptyDataBlocksForward.simps) auto
  next
    case False
    then have i: "i = length (block_of (snd (xs ! b)))" using d(2) by simp
    have off: "tl_offset block_of xs b + i = tl_offset block_of xs (Suc b)" using b i by (simp add: tl_offset_Suc)
    have "wrap_at iops iat xs b (tl_index t)" using Suc.prems by (simp add: placed_def)
    from index_move [where f = "WrapNext iops" and b' = "Suc b", OF placed_loose [OF Suc.prems] index.wrap.at_next [OF this b]] obtain t1 where
      t1: "on_index (WrapNext iops) t = Some t1" "loose xs (Suc b) t1" by blast
    have step: "SkipEmptyDataBlocksForward iops dops block_fn t =
        Option.bind (load_data iops dops block_fn (WrapSeekToFirst dops) t1) (SkipEmptyDataBlocksForward iops dops block_fn)"
      using False d(3,5) t1(1) by (subst SkipEmptyDataBlocksForward.simps) simp
    show ?thesis
    proof (cases "Suc b < length xs")
      case True
      from load_placed [where f = "WrapSeekToFirst dops" and j = 0, OF t1(2) this] data.wrap.at_first obtain t3 where
        t3: "load_data iops dops block_fn (WrapSeekToFirst dops) t1 = Some t3" "placed xs (Suc b) 0 t3" by blast
      have "n = length xs - Suc b" using Suc.hyps(2) by simp
      from Suc.hyps(1) [OF this t3(2)] show ?thesis unfolding step off by (simp add: t3(1))
    next
      case end': False
      then have l: "Suc b = length xs" using b by simp
      with load_ended [where f = "WrapSeekToFirst dops", of xs t1] t1(2) obtain t3 where
        t3: "load_data iops dops block_fn (WrapSeekToFirst dops) t1 = Some t3" "ended xs (length xs) t3" by auto
      from skip_ended(1) [OF t3(2)] show ?thesis unfolding step off using t3(1) l by (simp add: tl_offset_end)
    qed
  qed
qed

definition before :: "entries \<Rightarrow> nat \<Rightarrow> nat" where
  "before es p = (if p = 0 then length es else p - 1)"

lemma skip_backward:
  assumes "placed xs b i t"
  shows "\<exists>r. SkipEmptyDataBlocksBackward iops dops block_fn t = Some r \<and>
    two_at (tl_entries block_of xs)
      (if i < length (block_of (snd (xs ! b))) then tl_offset block_of xs b + i
       else before (tl_entries block_of xs) (tl_offset block_of xs b)) r"
  using assms
proof (induction b arbitrary: i t)
  case (0 i t)
  note d = placed_data [OF 0]
  show ?case
  proof (cases "i < length (block_of (snd (xs ! 0)))")
    case True
    with d(3,4) two_at_placed [OF 0 True] show ?thesis by (subst SkipEmptyDataBlocksBackward.simps) auto
  next
    case False
    have ne: "0 < length xs" and w: "wrap_at iops iat xs 0 (tl_index t)" using 0 by (auto simp: placed_def)
    have "\<exists>r. WrapPrev iops (tl_index t) = Some r \<and> wrap_at iops iat xs (length xs) r"
      using index.wrap.at_prev [OF w ne] by simp
    from index_move [where f = "WrapPrev iops" and b' = "length xs", OF placed_loose [OF 0] this] obtain t1 where
      t1: "on_index (WrapPrev iops) t = Some t1" "loose xs (length xs) t1" by blast
    from load_ended [where f = "WrapSeekToLast dops", OF t1(2)] obtain t2 where
      t2: "load_data iops dops block_fn (WrapSeekToLast dops) t1 = Some t2" and e: "ended xs (length xs) t2" by blast
    then have "SkipEmptyDataBlocksBackward iops dops block_fn t = SkipEmptyDataBlocksBackward iops dops block_fn t2"
      using False d(3,5) t1(1) by (subst SkipEmptyDataBlocksBackward.simps) simp
    with skip_ended(2) [OF e] False show ?thesis by (simp add: before_def)
  qed
next
  case (Suc b i t)
  note d = placed_data [OF Suc.prems]
  have b: "Suc b < length xs" and w: "wrap_at iops iat xs (Suc b) (tl_index t)" using Suc.prems by (auto simp: placed_def)
  show ?case
  proof (cases "i < length (block_of (snd (xs ! Suc b)))")
    case True
    with d(3,4) two_at_placed [OF Suc.prems True] show ?thesis by (subst SkipEmptyDataBlocksBackward.simps) auto
  next
    case False
    have "\<exists>r. WrapPrev iops (tl_index t) = Some r \<and> wrap_at iops iat xs b r"
      using index.wrap.at_prev [OF w b] by simp
    from index_move [where f = "WrapPrev iops" and b' = b, OF placed_loose [OF Suc.prems] this] obtain t1 where
      t1: "on_index (WrapPrev iops) t = Some t1" "loose xs b t1" by blast
    have b': "b < length xs" using b by simp
    let ?l = "length (block_of (snd (xs ! b)))"
    from load_placed [where f = "WrapSeekToLast dops" and j = "?l - 1", OF t1(2) b'] data.wrap.at_last obtain t3 where
      t3: "load_data iops dops block_fn (WrapSeekToLast dops) t1 = Some t3" "placed xs b (?l - 1) t3" by blast
    have step: "SkipEmptyDataBlocksBackward iops dops block_fn t = SkipEmptyDataBlocksBackward iops dops block_fn t3"
      using False d(3,5) t1(1) t3(1) by (subst SkipEmptyDataBlocksBackward.simps) simp
    have "before (tl_entries block_of xs) (tl_offset block_of xs (Suc b)) =
        (if ?l - 1 < ?l then tl_offset block_of xs b + (?l - 1) else before (tl_entries block_of xs) (tl_offset block_of xs b))"
      using b' by (auto simp: before_def tl_offset_Suc)
    with Suc.IH [OF t3(2)] False show ?thesis unfolding step by simp
  qed
qed

end

context two_level_laws
begin

lemma two_at_cases:
  assumes "two_at es p t"
  obtains (ended) xs b where "es = tl_entries block_of xs" "ended xs b t" "p = length es"
  | (placed) xs b i where "es = tl_entries block_of xs" "placed xs b i t" "i < length (block_of (snd (xs ! b)))"
      "b < length xs" "p = tl_offset block_of xs b + i" "p < length es" "es ! p = block_of (snd (xs ! b)) ! i"
proof -
  from assms obtain xs b where es: "es = tl_entries block_of xs" and c: "ended xs b t \<and> p = length es \<or>
      (\<exists>i. placed xs b i t \<and> i < length (block_of (snd (xs ! b))) \<and> p = tl_offset block_of xs b + i)"
    unfolding two_at_def by blast
  from c show thesis
  proof (elim disjE exE conjE)
    assume "ended xs b t" "p = length es"
    with ended es show thesis by blast
  next
    fix i assume p: "placed xs b i t" "i < length (block_of (snd (xs ! b)))" "p = tl_offset block_of xs b + i"
    then have b: "b < length xs" by (simp add: placed_def)
    from placed [OF es p(1,2) b p(3)] tl_entries_nth [where block_of = block_of and b = b and i = i and xs = xs, OF b p(2)] p(3) es show thesis by simp
  qed
qed

lemma two_at_loose:
  assumes "two_at es p t"
  obtains xs b where "es = tl_entries block_of xs" "loose xs b t"
  using assms by (cases rule: two_at_cases) (auto intro: placed_loose ended_loose)

text \<open>
  A move of both levels: the index goes to block \<open>b\<close>, the data iterator, if there is a block,
  to entry \<open>i\<close> of it.
\<close>

lemma both_levels:
  assumes "loose xs b0 t" and "\<And>w. wrap_at iops iat xs b0 w \<Longrightarrow> \<exists>r. fi w = Some r \<and> wrap_at iops iat xs b r"
    and "\<And>w k. b < length xs \<Longrightarrow> wrap_at dops dat (block_of (snd (xs ! b))) k w \<Longrightarrow>
      \<exists>r. fd w = Some r \<and> wrap_at dops dat (block_of (snd (xs ! b))) i r"
  obtains t1 t2 where "on_index fi t = Some t1" "load_data iops dops block_fn fd t1 = Some t2"
    "if b < length xs then placed xs b i t2 else ended xs (length xs) t2"
proof -
  have "wrap_at iops iat xs b0 (tl_index t)" using assms(1) by (simp add: loose_def)
  from index_move [where f = fi and b' = b, OF assms(1) assms(2) [OF this]] obtain t1 where t1: "on_index fi t = Some t1" "loose xs b t1" by blast
  have "b \<le> length xs" using t1(2) index.wrap.at_le by (auto simp: loose_def)
  show thesis
  proof (cases "b < length xs")
    case True
    from load_placed [where f = fd and j = i, OF t1(2) True] assms(3) [OF True] that [OF t1(1)] True show thesis by auto
  next
    case False
    then have "b = length xs" using \<open>b \<le> length xs\<close> by simp
    with load_ended [where f = fd, of xs t1] t1(2) that [OF t1(1)] show thesis by auto
  qed
qed

text \<open>The position of a seek in the concatenation.\<close>

lemma seek_pos_split:
  assumes "\<forall>(k, v) \<in> set a. cmp k t < 0" and "\<forall>(k, v) \<in> set c. \<not> cmp k t < 0"
  shows "seek_pos cmp t (a @ m @ c) = length a + seek_pos cmp t m"
proof -
  have "takeWhile (\<lambda>(k, v). cmp k t < 0) (a @ m @ c) = a @ takeWhile (\<lambda>(k, v). cmp k t < 0) (m @ c)"
    using assms(1) by (intro takeWhile_append2) auto
  also have "takeWhile (\<lambda>(k, v). cmp k t < 0) (m @ c) = takeWhile (\<lambda>(k, v). cmp k t < 0) m"
    using assms(2) by (cases c; induction m) auto
  finally show ?thesis by (simp add: seek_pos_def)
qed

lemma blocks_below:
  assumes ok: "index_ok cmp kvalid block_fn block_of dat env_ok xs" and t: "kvalid t" and b: "b = seek_pos cmp t xs"
  shows "\<forall>(k, v) \<in> set (tl_entries block_of (take b xs)). cmp k t < 0"
proof (clarify)
  fix k v assume "(k, v) \<in> set (tl_entries block_of (take b xs))"
  then obtain ik h where x: "(ik, h) \<in> set (take b xs)" "(k, v) \<in> set (block_of h)" by (auto simp: tl_entries_def)
  from x(1) obtain j where j: "j < b" "xs ! j = (ik, h)" using seek_pos_le [of cmp t xs] b by (auto simp: in_set_conv_nth)
  have lt: "cmp ik t < 0" using seek_pos_below [of j cmp t xs] j b by simp
  have "(ik, h) \<in> set xs" using x(1) by (rule in_set_takeD)
  with ok x(2) have "kvalid ik" "kvalid k" "cmp k ik \<le> 0" by (auto simp: index_ok_def)
  with lt t show "cmp k t < 0" by (blast intro: le_less_trans)
qed

lemma blocks_above:
  assumes ok: "index_ok cmp kvalid block_fn block_of dat env_ok xs" and t: "kvalid t" and b: "b = seek_pos cmp t xs" "b < length xs"
  shows "\<forall>(k, v) \<in> set (tl_entries block_of (drop (Suc b) xs)). \<not> cmp k t < 0"
proof (clarify)
  fix k v assume m: "(k, v) \<in> set (tl_entries block_of (drop (Suc b) xs))" and lt: "cmp k t < 0"
  then obtain ik h where x: "(ik, h) \<in> set (drop (Suc b) xs)" "(k, v) \<in> set (block_of h)" by (auto simp: tl_entries_def)
  obtain ib hb where ib: "xs ! b = (ib, hb)" by fastforce
  have at: "\<not> cmp ib t < 0" using seek_pos_at [of cmp t xs] b ib by simp
  have set: "(ib, hb) \<in> set xs" "(ik, h) \<in> set xs" using nth_mem [OF b(2)] ib x(1) by (auto dest: in_set_dropD)
  have "xs = take b xs @ (ib, hb) # drop (Suc b) xs" using id_take_nth_drop [OF b(2)] ib by simp
  then have "sorted_wrt (\<lambda>(k, h) (k', h'). \<forall>(a, v) \<in> set (block_of h'). cmp k a < 0) (take b xs @ (ib, hb) # drop (Suc b) xs)"
    using ok by (simp add: index_ok_def)
  then have "cmp ib k < 0" using x by (auto simp: sorted_wrt_append)
  moreover have "kvalid ib" "kvalid k" using ok set x(2) by (auto simp: index_ok_def)
  ultimately have "cmp ib t < 0" using lt t less_le_trans [of ib k t] by simp
  with at show False by simp
qed

lemma seek_concat:
  assumes "index_ok cmp kvalid block_fn block_of dat env_ok xs" and "kvalid t" and "b = seek_pos cmp t xs"
  shows "seek_pos cmp t (tl_entries block_of xs) =
    (if b < length xs then tl_offset block_of xs b + seek_pos cmp t (block_of (snd (xs ! b))) else length (tl_entries block_of xs))"
proof (cases "b < length xs")
  case True
  have "tl_entries block_of xs =
      tl_entries block_of (take b xs) @ block_of (snd (xs ! b)) @ tl_entries block_of (drop (Suc b) xs)"
    by (subst id_take_nth_drop [OF True]) (simp add: tl_entries_def)
  then show ?thesis
    using seek_pos_split [OF blocks_below [OF assms] blocks_above [OF assms True]] True by (simp add: tl_offset_def)
next
  case False
  then have "take b xs = xs" by simp
  with blocks_below [OF assms] have "\<forall>(k, v) \<in> set (tl_entries block_of xs). cmp k t < 0" by simp
  then have "seek_pos cmp t (tl_entries block_of xs) = length (tl_entries block_of xs)"
    using seek_pos_split [of "tl_entries block_of xs" t "[]" "[]"] by (simp add: seek_pos_def)
  with False show ?thesis by simp
qed

lemma sorted_block:
  assumes "sorted_for cmp t (tl_entries block_of xs)" and "b < length xs"
  shows "sorted_for cmp t (block_of (snd (xs ! b)))"
proof -
  have "tl_entries block_of xs =
      tl_entries block_of (take b xs) @ block_of (snd (xs ! b)) @ tl_entries block_of (drop (Suc b) xs)"
    by (subst id_take_nth_drop [OF assms(2)]) (simp add: tl_entries_def)
  with assms(1) show ?thesis by (simp add: sorted_for_def sorted_wrt_append)
qed

lemma two_first:
  assumes "two_at es p t"
  shows "\<exists>r. TwoSeekToFirst iops dops block_fn t = Some r \<and> two_at es 0 r"
proof -
  obtain xs b0 where es: "es = tl_entries block_of xs" and l: "loose xs b0 t" using assms by (rule two_at_loose)
  obtain t1 t2 where t: "on_index (WrapSeekToFirst iops) t = Some t1"
    "load_data iops dops block_fn (WrapSeekToFirst dops) t1 = Some t2"
    "if 0 < length xs then placed xs 0 0 t2 else ended xs (length xs) t2"
    by (rule both_levels [where fi = "WrapSeekToFirst iops" and fd = "WrapSeekToFirst dops" and b = 0 and i = 0,
        OF l index.wrap.at_first data.wrap.at_first])
  show ?thesis
  proof (cases xs)
    case Nil
    then have "tl_entries block_of xs = []" by (simp add: tl_entries_def)
    with skip_ended(1) [of xs t2] t Nil es show ?thesis by (simp add: TwoSeekToFirst_def)
  next
    case (Cons x ys)
    with skip_forward [of xs 0 0 t2] t es show ?thesis by (simp add: TwoSeekToFirst_def)
  qed
qed

lemma two_last:
  assumes "two_at es p t"
  shows "\<exists>r. TwoSeekToLast iops dops block_fn t = Some r \<and> two_at es (length es - 1) r"
proof -
  obtain xs b0 where es: "es = tl_entries block_of xs" and l: "loose xs b0 t" using assms by (rule two_at_loose)
  let ?b = "length xs - 1"
  let ?l = "length (block_of (snd (xs ! ?b)))"
  obtain t1 t2 where t: "on_index (WrapSeekToLast iops) t = Some t1"
    "load_data iops dops block_fn (WrapSeekToLast dops) t1 = Some t2"
    "if ?b < length xs then placed xs ?b (?l - 1) t2 else ended xs (length xs) t2"
    by (rule both_levels [where fi = "WrapSeekToLast iops" and fd = "WrapSeekToLast dops" and b = ?b and i = "?l - 1",
        OF l index.wrap.at_last data.wrap.at_last])
  show ?thesis
  proof (cases "?b < length xs")
    case False
    then have "xs = []" by (cases xs) auto
    then have "tl_entries block_of xs = []" by (simp add: tl_entries_def)
    with skip_ended(2) [of xs t2] t \<open>xs = []\<close> es show ?thesis by (simp add: TwoSeekToLast_def)
  next
    case True
    then have "length (tl_entries block_of xs) = tl_offset block_of xs ?b + ?l"
      using tl_offset_Suc [OF True, of block_of] tl_offset_end [of xs "Suc ?b" block_of] by simp
    then have "length es - 1 = (if ?l - 1 < ?l then tl_offset block_of xs ?b + (?l - 1)
        else before (tl_entries block_of xs) (tl_offset block_of xs ?b))"
      by (cases ?l) (simp_all add: es before_def)
    with skip_backward [of xs ?b "?l - 1" t2] t True es show ?thesis by (simp add: TwoSeekToLast_def)
  qed
qed

lemma two_seek:
  assumes "two_at es p t" and "target_ok k" and "kvalid k" and "sorted_for cmp k es"
  shows "\<exists>r. TwoSeek iops dops block_fn k t = Some r \<and> two_at es (seek_pos cmp k es) r"
proof -
  obtain xs b0 where es: "es = tl_entries block_of xs" and l: "loose xs b0 t" using assms(1) by (rule two_at_loose)
  from l have ok: "index_ok cmp kvalid block_fn block_of dat env_ok xs" by (simp add: loose_def)
  let ?b = "seek_pos cmp k xs"
  let ?i = "seek_pos cmp k (block_of (snd (xs ! ?b)))"
  have sx: "sorted_for cmp k xs"
    using ok assms(3) by (intro in_order_sorted_for) (auto simp: index_ok_def)
  obtain t1 t2 where t: "on_index (WrapSeek iops k) t = Some t1"
    "load_data iops dops block_fn (WrapSeek dops k) t1 = Some t2"
    "if ?b < length xs then placed xs ?b ?i t2 else ended xs (length xs) t2"
    by (rule both_levels [where fi = "WrapSeek iops k" and fd = "WrapSeek dops k" and b = ?b and i = ?i,
        OF l index.wrap.at_seek [OF _ assms(2) sx]
        data.wrap.at_seek [OF _ assms(2) sorted_block [OF assms(4) [unfolded es]]]])
  show ?thesis
    using skip_ended(1) [of xs t2] skip_forward [of xs ?b ?i t2] t seek_concat [OF ok assms(3) refl] es
    by (cases "?b < length xs") (simp_all add: TwoSeek_def)
qed

end

sublocale two_level_laws < two: iterator_laws cmp two_valid two_key "two_value dops" "TwoSeekToFirst iops dops block_fn"
  "TwoSeekToLast iops dops block_fn" "TwoSeek iops dops block_fn" "TwoNext iops dops block_fn" "TwoPrev iops dops block_fn"
  two_at "\<lambda>k. target_ok k \<and> kvalid k"
proof unfold_locales
  fix es p t
  assume t: "two_at es p t"
  show "p \<le> length es" using t by (cases rule: two_at_cases) auto
  show "two_valid t = (p < length es)"
    using t by (cases rule: two_at_cases) (auto simp: two_valid_def ended_def placed_data(3))
  show "two_key t = fst (es ! p)" if "p < length es"
    using t by (cases rule: two_at_cases)
      (use that data.wrap.at_key [OF placed_data(1)] in \<open>auto simp: two_key_def\<close>)
  show "two_value dops t = snd (es ! p)" if "p < length es"
    using t by (cases rule: two_at_cases)
      (use that data.wrap.at_val [OF placed_data(1)] in \<open>auto simp: two_value_def\<close>)
  show "\<exists>r. TwoSeekToFirst iops dops block_fn t = Some r \<and> two_at es 0 r" by (rule two_first [OF t])
  show "\<exists>r. TwoSeekToLast iops dops block_fn t = Some r \<and> two_at es (length es - 1) r" by (rule two_last [OF t])
  show "\<exists>r. TwoSeek iops dops block_fn k t = Some r \<and> two_at es (seek_pos cmp k es) r"
    if "target_ok k \<and> kvalid k" "sorted_for cmp k es" for k using two_seek [OF t] that by blast
  show "\<exists>r. TwoNext iops dops block_fn t = Some r \<and> two_at es (Suc p) r" if l: "p < length es"
    using t
  proof (cases rule: two_at_cases)
    case (placed xs b i)
    from data.wrap.at_next [OF placed_data(1) [OF placed(2)] placed(3)] obtain w where
      w: "WrapNext dops (tl_data t) = Some w" "wrap_at dops dat (block_of (snd (xs ! b))) (Suc i) w" by blast
    then have "placed xs b (Suc i) (t\<lparr>tl_data := w\<rparr>)" using placed(2) by (simp add: placed_def)
    from skip_forward [OF this] w(1) placed(1,5) show ?thesis by (simp add: TwoNext_def)
  qed (use l in simp)
  show "\<exists>r. TwoPrev iops dops block_fn t = Some r \<and> two_at es (if p = 0 then length es else p - 1) r" if l: "p < length es"
    using t
  proof (cases rule: two_at_cases)
    case (placed xs b i)
    let ?l = "length (block_of (snd (xs ! b)))" and ?j = "if i = 0 then length (block_of (snd (xs ! b))) else i - 1"
    from data.wrap.at_prev [OF placed_data(1) [OF placed(2)] placed(3)] obtain w where
      w: "WrapPrev dops (tl_data t) = Some w" "wrap_at dops dat (block_of (snd (xs ! b))) ?j w" by blast
    then have "placed xs b ?j (t\<lparr>tl_data := w\<rparr>)" using placed(2) by (simp add: placed_def)
    from skip_backward [OF this] w(1) have "\<exists>r. TwoPrev iops dops block_fn t = Some r \<and> two_at (tl_entries block_of xs)
        (if ?j < ?l then tl_offset block_of xs b + ?j else before (tl_entries block_of xs) (tl_offset block_of xs b)) r"
      by (simp add: TwoPrev_def)
    moreover have "(if ?j < ?l then tl_offset block_of xs b + ?j else before (tl_entries block_of xs) (tl_offset block_of xs b))
        = (if p = 0 then length es else p - 1)"
      using placed by (auto simp: before_def)
    ultimately show ?thesis using placed(1) by simp
  qed (use l in simp)
qed

sublocale two_level_laws < two_level: iterator_impl "two_ops iops dops block_fn" cmp two_at "\<lambda>k. target_ok k \<and> kvalid k"
  unfolding two_ops_def iterator_impl_def iterator_ops.simps by (rule two.iterator_laws_axioms)

context two_level_laws
begin

lemma new_two_level:
  assumes "index_ok cmp kvalid block_fn block_of dat env_ok xs" and "iat xs b index" and "env_ok env"
  shows "two_at (tl_entries block_of xs) (length (tl_entries block_of xs)) (NewTwoLevelIterator iops index env)"
  using assms by (intro two_at_ended [of _ b]) (simp add: ended_def NewTwoLevelIterator_def index.wrap_set NewWrapper_def)

lemma new_follows:
  assumes "index_ok cmp kvalid block_fn block_of dat env_ok xs" and "iat xs b index" and "env_ok env"
    and "\<And>k. kvalid k \<Longrightarrow> sorted_for cmp k (tl_entries block_of xs)"
  shows "follows (two_ops iops dops block_fn) cmp (\<lambda>k. target_ok k \<and> kvalid k) (tl_entries block_of xs)
    (length (tl_entries block_of xs)) (NewTwoLevelIterator iops index env)"
  using two_level.follows_at [OF new_two_level [OF assms(1-3)]] assms(4) by blast

end

subsection \<open>Blocks of blocks\<close>

interpretation block_levels: two_level_laws "any_ops slice_compare" "any_ops slice_compare" slice_compare
  "any_at n" "any_at m" "\<lambda>_. True" "\<lambda>_. True" block_fn block_of env_ok for n m block_fn block_of env_ok
  by (intro two_level_laws.intro any_source.iterator_impl_axioms slice_order)

end
