(* ===== verification/LDB_Table.thy ===== *)
theory LDB_Table
  imports LDB_TableBuilder LDB_TwoLevel
begin

text \<open>
  Table files (\<open>table/table.cc\<close>): opening, the reader of blocks with its cache, iterators, lookups
  and offsets. On the file that a table builder wrote, a table iterates over the entries that
  were added, and finds each of them.
\<close>

subsection \<open>The table\<close>

text \<open>Of \<open>ReadOptions\<close>, the fields that tables use.\<close>

record ReadOptions =
  verify_checksums :: bool
  fill_cache :: bool

definition NewReadOptions :: ReadOptions where
  "NewReadOptions = \<lparr>verify_checksums = False, fill_cache = True\<rparr>"

record 'c Table =
  t_options :: "'c Options"
  t_file :: random_file
  t_cache_id :: u64
  t_filter :: "FilterBlockReader option"
  t_metaindex_handle :: BlockHandle
  t_index_block :: Block

text \<open>\<open>None\<close> throughout: memory outside a buffer is read.\<close>

definition paranoid :: "'c Options \<Rightarrow> bool" where
  "paranoid options = (if opt_paranoid_checks options then True else verify_checksums NewReadOptions)"

definition ReadFilter :: "snappy \<Rightarrow> byte list \<Rightarrow> 'c Table \<Rightarrow> 'c Table option" where
  "ReadFilter sn filter_handle_value t =
     (case HandleDecodeFrom filter_handle_value of Inl s \<Rightarrow> Some t
      | Inr (handle, rest) \<Rightarrow>
          map_option (\<lambda>res. case res of Inl s \<Rightarrow> t
                      | Inr block \<Rightarrow> t\<lparr>t_filter := Some (NewFilterBlockReader (bc_data block))\<rparr>)
            (ReadBlock sn (t_file t) (paranoid (t_options t)) handle))"

definition ReadMeta :: "snappy \<Rightarrow> Footer \<Rightarrow> 'c Table \<Rightarrow> 'c Table option" where
  "ReadMeta sn footer t =
     (if opt_filter_policy (t_options t) = None then Some t
      else case ReadBlock sn (t_file t) (paranoid (t_options t)) (metaindex_handle footer) of
             None \<Rightarrow> None
           | Some (Inl s) \<Rightarrow> Some t
           | Some (Inr contents) \<Rightarrow>
               let ops = any_ops (Compare BytewiseComparator);
                   key = filter_key (t_options t)
               in Option.bind (op_seek ops key (NewIterator (NewBlock (bc_data contents)))) (\<lambda>it.
                    if op_valid ops it \<and> op_key ops it = key then ReadFilter sn (op_value ops it) t else Some t))"

definition TableOpen :: "snappy \<Rightarrow> 'c Options \<Rightarrow> random_file \<Rightarrow> u64 \<Rightarrow> 'c \<Rightarrow> ((Status + 'c Table) \<times> 'c) option" where
  "TableOpen sn options f len c =
     (if unat len < kEncodedLength then Some (Inl (Corruption ''file is too short to be an sstable''), c)
      else
        let (s, footer_input, in_buffer) = file_read f (len - word_of_nat kEncodedLength) kEncodedLength
        in if s \<noteq> OK then Some (Inl s, c)
           else case FooterDecodeFrom footer_input of
                  None \<Rightarrow> None
                | Some (Inl s) \<Rightarrow> Some (Inl s, c)
                | Some (Inr (footer, rest)) \<Rightarrow>
                    (case ReadBlock sn f (paranoid options) (index_handle footer) of
                       None \<Rightarrow> None
                     | Some (Inl s) \<Rightarrow> Some (Inl s, c)
                     | Some (Inr contents) \<Rightarrow>
                         let (cache_id, c) = (case opt_block_cache options of Some ops \<Rightarrow> cache_new_id ops c | None \<Rightarrow> (0, c));
                             t = \<lparr>t_options = options, t_file = f, t_cache_id = cache_id, t_filter = None,
                                  t_metaindex_handle = metaindex_handle footer, t_index_block = NewBlock (bc_data contents)\<rparr>
                         in map_option (\<lambda>t. (Inr t, c)) (ReadMeta sn footer t)))"

definition cache_key :: "u64 \<Rightarrow> u64 \<Rightarrow> byte list" where
  "cache_key cache_id off = EncodeFixed64 cache_id @ EncodeFixed64 off"

text \<open>
  The blocks that iterators and the cache own are values here; the functions that free them and
  release the cache are not modelled.
\<close>

definition BlockReader :: "snappy \<Rightarrow> 'c Table \<Rightarrow> ReadOptions \<Rightarrow> (any_iter, 'c) block_function" where
  "BlockReader sn t options index_value c =
     (case HandleDecodeFrom index_value of
        Inl s \<Rightarrow> Some (EmptyIterator s, c)
      | Inr (handle, rest) \<Rightarrow>
          (case opt_block_cache (t_options t) of
             Some ops \<Rightarrow>
               let key = cache_key (t_cache_id t) (bh_offset handle);
                   (found, c) = cache_lookup ops key c
               in (case found of
                     Some block \<Rightarrow> Some (NewIterator block, c)
                   | None \<Rightarrow>
                       Option.bind (ReadBlock sn (t_file t) (verify_checksums options) handle) (\<lambda>res. case res of
                           Inl s \<Rightarrow> Some (EmptyIterator s, c)
                         | Inr contents \<Rightarrow>
                             let block = NewBlock (bc_data contents)
                             in map_option (\<lambda>c. (NewIterator block, c))
                                  (if bc_cachable contents \<and> fill_cache options
                                   then cache_insert ops key block (blk_size block) c else Some c)))
           | None \<Rightarrow>
               map_option (\<lambda>res. case res of
                   Inl s \<Rightarrow> (EmptyIterator s, c)
                 | Inr contents \<Rightarrow> (NewIterator (NewBlock (bc_data contents)), c))
                 (ReadBlock sn (t_file t) (verify_checksums options) handle)))"

definition table_index_ops :: "'c Table \<Rightarrow> any_iter iterator_ops" where
  "table_index_ops t = any_ops (Compare (opt_comparator (t_options t)))"

definition table_ops :: "snappy \<Rightarrow> 'c Table \<Rightarrow> ReadOptions \<Rightarrow> (any_iter, any_iter, 'c) two_level iterator_ops" where
  "table_ops sn t options = two_ops (table_index_ops t) (table_index_ops t) (BlockReader sn t options)"

definition TableNewIterator :: "'c Table \<Rightarrow> 'c \<Rightarrow> (any_iter, any_iter, 'c) two_level" where
  "TableNewIterator t c = NewTwoLevelIterator (table_index_ops t) (NewIterator (t_index_block t)) c"

text \<open>\<open>saver\<close> is the callback, whose argument is \<open>arg\<close>.\<close>

definition filter_excludes :: "'c Table \<Rightarrow> byte list \<Rightarrow> byte list \<Rightarrow> bool" where
  "filter_excludes t handle_value k =
     (case (t_filter t, opt_filter_policy (t_options t), HandleDecodeFrom handle_value) of
        (Some reader, Some p, Inr (handle, rest)) \<Rightarrow> \<not> FilterKeyMayMatch (filter_may_match p) reader (bh_offset handle) k
      | _ \<Rightarrow> False)"

definition InternalGet ::
  "snappy \<Rightarrow> 'c Table \<Rightarrow> ReadOptions \<Rightarrow> byte list \<Rightarrow> (byte list \<Rightarrow> byte list \<Rightarrow> 's \<Rightarrow> 's) \<Rightarrow> 's \<Rightarrow> 'c
   \<Rightarrow> (Status \<times> 's \<times> 'c) option" where
  "InternalGet sn t options k saver arg c =
     Option.bind (op_seek (table_index_ops t) k (NewIterator (t_index_block t))) (\<lambda>iiter.
     Option.bind
       (if op_valid (table_index_ops t) iiter \<and> \<not> filter_excludes t (op_value (table_index_ops t) iiter) k
        then Option.bind (BlockReader sn t options (op_value (table_index_ops t) iiter) c) (\<lambda>(block_iter, c).
             map_option (\<lambda>block_iter.
                 (op_status (table_index_ops t) block_iter,
                  if op_valid (table_index_ops t) block_iter
                  then saver (op_key (table_index_ops t) block_iter) (op_value (table_index_ops t) block_iter) arg else arg, c))
               (op_seek (table_index_ops t) k block_iter))
        else Some (OK, arg, c)) (\<lambda>(s, arg, c).
     Some (if s = OK then op_status (table_index_ops t) iiter else s, arg, c)))"

definition ApproximateOffsetOf :: "'c Table \<Rightarrow> byte list \<Rightarrow> u64 option" where
  "ApproximateOffsetOf t key =
     map_option (\<lambda>index_iter.
         if op_valid (table_index_ops t) index_iter
         then (case HandleDecodeFrom (op_value (table_index_ops t) index_iter) of
                 Inr (handle, rest) \<Rightarrow> bh_offset handle | Inl s \<Rightarrow> bh_offset (t_metaindex_handle t))
         else bh_offset (t_metaindex_handle t))
       (op_seek (table_index_ops t) key (NewIterator (t_index_block t)))"

subsection \<open>Reading the parts of a table\<close>

definition table_file_holds :: "'c Options \<Rightarrow> entries list \<Rightarrow> random_file \<Rightarrow> bool" where
  "table_file_holds opts blocks f \<longleftrightarrow>
     holds_bytes f (table_bytes opts blocks) \<and> length (table_bytes opts blocks) < 2 ^ 32 \<and> 0 < opt_block_restart_interval opts"

lemma read_part:
  assumes "table_file_holds opts blocks f" and e: "table_bytes opts blocks = a @ stored_block bs 0 @ r"
  shows "\<exists>b. ReadBlock sn f verify (handle_at a bs) = Some (Inr \<lparr>bc_data = bs, bc_cachable = b, bc_heap_allocated = b\<rparr>)"
    and "length bs < 2 ^ 32" and "length a < 2 ^ 32"
proof -
  have l: "length a + length bs + 5 < 2 ^ 32" using assms by (simp add: table_file_holds_def)
  then show "length bs < 2 ^ 32" "length a < 2 ^ 32" by simp_all
  have u: "unat (word_of_nat m :: u64) = m" if "m < 2 ^ 32" for m using that by (simp add: unat_of_nat)
  show "\<exists>b. ReadBlock sn f verify (handle_at a bs) = Some (Inr \<lparr>bc_data = bs, bc_cachable = b, bc_heap_allocated = b\<rparr>)"
    using assms l u [of "length a"] u [of "length bs"]
    by (intro read_stored [of f a bs r]) (simp_all add: table_file_holds_def handle_at_def)
qed

lemma data_block_part:
  assumes "i < length blocks"
  shows "data_bytes n blocks = data_bytes n (take i blocks) @ stored_block (block_bytes n (blocks ! i)) 0 @ data_bytes n (drop (Suc i) blocks)"
  by (subst id_take_nth_drop [OF assms]) (simp add: data_bytes_def)

lemma block_part:
  assumes "i < length blocks" and "n = opt_block_restart_interval opts"
  obtains r where "table_bytes opts blocks = data_bytes n (take i blocks) @ stored_block (block_bytes n (blocks ! i)) 0 @ r"
  using data_block_part [OF assms(1), of n] assms(2) by (simp add: table_bytes_def before_index_def before_meta_def)

lemma filter_found:
  assumes "opt_filter_policy opts = Some p" and "n = opt_block_restart_interval opts"
  obtains r where "table_bytes opts blocks = data_bytes n blocks @ stored_block (filter_bytes p n blocks) 0 @ r"
  using assms by (simp add: table_bytes_def before_index_def before_meta_def filter_part_def)

lemma meta_part:
  obtains r where "table_bytes opts blocks = before_meta opts blocks @ stored_block (meta_bytes opts blocks) 0 @ r"
  by (simp add: table_bytes_def before_index_def)

lemma index_part:
  obtains r where "table_bytes opts blocks = before_index opts blocks @ stored_block (index_bytes opts blocks) 0 @ r"
  by (simp add: table_bytes_def)

lemma footer_read:
  assumes h: "table_file_holds opts blocks f" and l: "len = word_of_nat (length (table_bytes opts blocks))"
  shows "\<exists>b. file_read f (len - word_of_nat kEncodedLength) kEncodedLength = (OK, FooterEncodeTo (table_footer opts blocks) [], b)"
    and "\<not> unat len < kEncodedLength"
proof -
  let ?t = "table_bytes opts blocks" and ?f = "FooterEncodeTo (table_footer opts blocks) []"
  obtain a where t: "?t = a @ ?f" by (simp add: table_bytes_def)
  then have len: "length ?t = length a + 48" by (simp add: footer_length)
  have big: "unat (word_of_nat m :: u64) = m" if "m < 2 ^ 32" for m using that by (simp add: unat_of_nat)
  have s: "length ?t < 2 ^ 32" using h by (simp add: table_file_holds_def)
  have u: "unat (word_of_nat (length a) :: u64) = length a" "unat len = length ?t"
    unfolding l using s len by (intro big; simp)+
  have w: "len - word_of_nat kEncodedLength = word_of_nat (length a)"
    by (simp add: l len kEncodedLength_def kMaxEncodedLength_def)
  have "\<exists>b. file_read f (word_of_nat (length a)) 48 = (OK, take 48 (drop (length a) ?t), b)"
    using h u(1) len unfolding table_file_holds_def holds_bytes_def by (metis order_refl)
  then show "\<exists>b. file_read f (len - word_of_nat kEncodedLength) kEncodedLength = (OK, ?f, b)"
    unfolding w by (simp add: kEncodedLength_def kMaxEncodedLength_def t footer_length)
  show "\<not> unat len < kEncodedLength" by (simp add: u(2) len kEncodedLength_def kMaxEncodedLength_def)
qed

text \<open>An iterator on a block of the table.\<close>

lemma block_iterator:
  assumes "0 < n" and "length (block_bytes n es) < 2 ^ 32"
  shows "any_at n es (length es) (NewIterator (NewBlock (block_bytes n es)))"
  using NewIterator_block [OF assms] by auto

lemma meta_sought:
  assumes h: "table_file_holds opts blocks f" and p: "opt_filter_policy opts = Some p"
  shows "\<exists>it. op_seek (any_ops slice_compare) (filter_key opts) (NewIterator (NewBlock (meta_bytes opts blocks))) = Some it \<and>
    op_valid (any_ops slice_compare) it \<and> op_key (any_ops slice_compare) it = filter_key opts \<and>
    op_value (any_ops slice_compare) it = HandleEncodeTo (filter_handle p (opt_block_restart_interval opts) blocks) []"
proof -
  let ?n = "opt_block_restart_interval opts" and ?v = "HandleEncodeTo (filter_handle p (opt_block_restart_interval opts) blocks) []"
  let ?es = "[(filter_key opts, ?v)]"
  have m: "meta_bytes opts blocks = block_bytes ?n ?es" by (simp add: meta_bytes_def meta_entries_def p)
  obtain r where "table_bytes opts blocks = before_meta opts blocks @ stored_block (meta_bytes opts blocks) 0 @ r"
    by (rule meta_part)
  from read_part(2) [OF h this] have "length (block_bytes ?n ?es) < 2 ^ 32" by (simp add: m)
  then have at: "any_at ?n ?es (length ?es) (NewIterator (NewBlock (meta_bytes opts blocks)))"
    unfolding m using h by (intro block_iterator) (simp_all add: table_file_holds_def)
  have "sorted_for slice_compare (filter_key opts) ?es" by (simp add: sorted_for_def)
  from any_source.it.at_seek [OF at _ this] obtain it where
    it: "op_seek (any_ops slice_compare) (filter_key opts) (NewIterator (NewBlock (meta_bytes opts blocks))) = Some it"
    "any_at ?n ?es (seek_pos slice_compare (filter_key opts) ?es) it" by blast
  have s: "seek_pos slice_compare (filter_key opts) ?es = 0"
    using slice_compare_eq [of "filter_key opts" "filter_key opts"] by (simp add: seek_pos_def)
  from it any_source.it.at_valid [OF it(2)] any_source.it.at_key [OF it(2)] any_source.it.at_val [OF it(2)]
  show ?thesis by (simp add: s)
qed

definition opened :: "'c Options \<Rightarrow> entries list \<Rightarrow> random_file \<Rightarrow> 'c Table \<Rightarrow> bool" where
  "opened opts blocks f t \<longleftrightarrow>
     t_options t = opts \<and> t_file t = f \<and> t_index_block t = NewBlock (index_bytes opts blocks) \<and>
     t_metaindex_handle t = handle_at (before_meta opts blocks) (meta_bytes opts blocks) \<and>
     t_filter t = map_option (\<lambda>p. NewFilterBlockReader (filter_bytes p (opt_block_restart_interval opts) blocks))
       (opt_filter_policy opts)"

lemma bytewise_compare: "Compare BytewiseComparator = slice_compare"
  by (simp add: BytewiseComparator_def)

lemma read_meta:
  assumes h: "table_file_holds opts blocks f"
    and t: "t = \<lparr>t_options = opts, t_file = f, t_cache_id = i, t_filter = None,
      t_metaindex_handle = handle_at (before_meta opts blocks) (meta_bytes opts blocks),
      t_index_block = NewBlock (index_bytes opts blocks)\<rparr>"
  shows "\<exists>t'. ReadMeta sn (table_footer opts blocks) t = Some t' \<and> opened opts blocks f t' \<and> t_cache_id t' = i"
proof (cases "opt_filter_policy opts")
  case None
  then show ?thesis by (simp add: ReadMeta_def t opened_def)
next
  case (Some p)
  let ?n = "opt_block_restart_interval opts"
  obtain r where m: "table_bytes opts blocks = before_meta opts blocks @ stored_block (meta_bytes opts blocks) 0 @ r"
    by (rule meta_part)
  from read_part(1) [OF h m] obtain b where
    b: "ReadBlock sn f (paranoid opts) (metaindex_handle (table_footer opts blocks)) =
      Some (Inr \<lparr>bc_data = meta_bytes opts blocks, bc_cachable = b, bc_heap_allocated = b\<rparr>)"
    by (auto simp: table_footer_def)
  obtain it where it: "op_seek (any_ops slice_compare) (filter_key opts) (NewIterator (NewBlock (meta_bytes opts blocks))) = Some it"
    "op_valid (any_ops slice_compare) it" "op_key (any_ops slice_compare) it = filter_key opts"
    "op_value (any_ops slice_compare) it = HandleEncodeTo (filter_handle p ?n blocks) []"
    using meta_sought [OF h Some] by blast
  obtain r' where fl: "table_bytes opts blocks = data_bytes ?n blocks @ stored_block (filter_bytes p ?n blocks) 0 @ r'"
    by (rule filter_found [OF Some refl])
  from read_part(1) [OF h fl] obtain b' where
    b': "ReadBlock sn f (paranoid opts) (filter_handle p ?n blocks) =
      Some (Inr \<lparr>bc_data = filter_bytes p ?n blocks, bc_cachable = b', bc_heap_allocated = b'\<rparr>)"
    by (auto simp: filter_handle_def)
  have "HandleDecodeFrom (HandleEncodeTo (filter_handle p ?n blocks) []) = Inr (filter_handle p ?n blocks, [])"
    using handle_reads_back [of _ "[]"] by simp
  then show ?thesis
    using Some b b' it by (simp add: ReadMeta_def t bytewise_compare ReadFilter_def opened_def)
qed

lemma open_table:
  assumes h: "table_file_holds opts blocks f" and l: "len = word_of_nat (length (table_bytes opts blocks))"
  shows "\<exists>t c'. TableOpen sn opts f len c = Some (Inr t, c') \<and> opened opts blocks f t \<and>
    (t_cache_id t, c') = (case opt_block_cache opts of Some ops \<Rightarrow> cache_new_id ops c | None \<Rightarrow> (0, c))"
proof -
  obtain b where fr: "file_read f (len - word_of_nat kEncodedLength) kEncodedLength =
      (OK, FooterEncodeTo (table_footer opts blocks) [], b)" and nl: "\<not> unat len < kEncodedLength"
    using footer_read [OF h l] by blast
  have fd: "FooterDecodeFrom (FooterEncodeTo (table_footer opts blocks) []) = Some (Inr (table_footer opts blocks, []))"
    using footer_reads_back [of _ "[]"] by simp
  obtain r where x: "table_bytes opts blocks = before_index opts blocks @ stored_block (index_bytes opts blocks) 0 @ r"
    by (rule index_part)
  from read_part(1) [OF h x] obtain b where
    b: "ReadBlock sn f (paranoid opts) (index_handle (table_footer opts blocks)) =
      Some (Inr \<lparr>bc_data = index_bytes opts blocks, bc_cachable = b, bc_heap_allocated = b\<rparr>)"
    by (auto simp: table_footer_def)
  obtain i c' where i: "(case opt_block_cache opts of Some ops \<Rightarrow> cache_new_id ops c | None \<Rightarrow> (0, c)) = (i, c')" by fastforce
  from read_meta [OF h refl, of sn i] obtain t where
    t: "ReadMeta sn (table_footer opts blocks) \<lparr>t_options = opts, t_file = f, t_cache_id = i, t_filter = None,
      t_metaindex_handle = handle_at (before_meta opts blocks) (meta_bytes opts blocks),
      t_index_block = NewBlock (index_bytes opts blocks)\<rparr> = Some t" "opened opts blocks f t" "t_cache_id t = i" by blast
  have "metaindex_handle (table_footer opts blocks) = handle_at (before_meta opts blocks) (meta_bytes opts blocks)"
    by (simp add: table_footer_def)
  then show ?thesis
    using nl t by (intro exI [of _ t] exI [of _ c']) (simp add: TableOpen_def fr fd b i)
qed

subsection \<open>The index separates the blocks\<close>

text \<open>The entries of the block that an index value names.\<close>

definition block_of_handle :: "nat \<Rightarrow> entries list \<Rightarrow> byte list \<Rightarrow> entries" where
  "block_of_handle n blocks h =
     (case map_of (map (\<lambda>i. (HandleEncodeTo (block_handle n blocks i) [], blocks ! i)) [0..<length blocks]) h of
        Some b \<Rightarrow> b | None \<Rightarrow> [])"

lemma data_bytes_take_less:
  assumes "i < j" and "j \<le> length blocks"
  shows "length (data_bytes n (take i blocks)) < length (data_bytes n (take j blocks))"
  using data_block_part [of i "take j blocks" n] assms by (simp add: min_def)

lemma block_handle_parts:
  assumes h: "table_file_holds opts blocks f" and n: "n = opt_block_restart_interval opts" and i: "i < length blocks"
  shows "unat (bh_offset (block_handle n blocks i)) = length (data_bytes n (take i blocks))"
proof -
  obtain r where "table_bytes opts blocks = data_bytes n (take i blocks) @ stored_block (block_bytes n (blocks ! i)) 0 @ r"
    by (rule block_part [OF i n])
  from read_part(3) [OF h this] show ?thesis by (simp add: block_handle_def handle_at_def unat_of_nat)
qed

lemma block_handle_inj:
  assumes h: "table_file_holds opts blocks f" and n: "n = opt_block_restart_interval opts"
    and i: "i < length blocks" and j: "j < length blocks"
    and e: "bh_offset (block_handle n blocks i) = bh_offset (block_handle n blocks j)"
  shows "i = j"
  using block_handle_parts [OF h n i] block_handle_parts [OF h n j] e
    data_bytes_take_less [of i j blocks n] data_bytes_take_less [of j i blocks n] i j by (cases i j rule: linorder_cases) auto

lemma decode_handle [simp]: "HandleDecodeFrom (HandleEncodeTo h []) = Inr (h, [])"
  using handle_reads_back [of h "[]"] by simp

lemma block_of_handle_nth:
  assumes h: "table_file_holds opts blocks f" and n: "n = opt_block_restart_interval opts" and i: "i < length blocks"
  shows "block_of_handle n blocks (HandleEncodeTo (block_handle n blocks i) []) = blocks ! i"
proof -
  let ?m = "map (\<lambda>i. (HandleEncodeTo (block_handle n blocks i) [], blocks ! i)) [0..<length blocks]"
  have "inj_on (\<lambda>i. HandleEncodeTo (block_handle n blocks i) []) {0..<length blocks}"
  proof (rule inj_onI)
    fix a b assume ab: "a \<in> {0..<length blocks}" "b \<in> {0..<length blocks}"
      and "HandleEncodeTo (block_handle n blocks a) [] = HandleEncodeTo (block_handle n blocks b) []"
    then have "HandleDecodeFrom (HandleEncodeTo (block_handle n blocks a) []) = HandleDecodeFrom (HandleEncodeTo (block_handle n blocks b) [])"
      by simp
    then have "block_handle n blocks a = block_handle n blocks b" by simp
    with block_handle_inj [OF h n] ab show "a = b" by simp
  qed
  then have "distinct (map fst ?m)" by (simp add: distinct_map comp_def)
  moreover have "(HandleEncodeTo (block_handle n blocks i) [], blocks ! i) \<in> set ?m" using i by force
  ultimately have "map_of ?m (HandleEncodeTo (block_handle n blocks i) []) = Some (blocks ! i)" by simp
  then show ?thesis by (simp only: block_of_handle_def option.case)
qed

lemma tl_entries_index:
  assumes "table_file_holds opts blocks f" and "n = opt_block_restart_interval opts"
  shows "tl_entries (block_of_handle n blocks) (index_entries c n blocks) = concat blocks"
proof -
  have "map (\<lambda>x. block_of_handle n blocks (snd x)) (index_entries c n blocks) = blocks"
    by (rule nth_equalityI) (simp_all add: block_of_handle_nth [OF assms])
  then show ?thesis by (simp add: tl_entries_def)
qed

locale ordered_tables =
  comparator_laws "Compare c" "FindShortestSeparator c" "FindShortSuccessor c" valid for c :: comparator and valid
begin

definition table_entries :: "entries list \<Rightarrow> bool" where
  "table_entries blocks \<longleftrightarrow>
     in_order (Compare c) (concat blocks) \<and> (\<forall>(k, v) \<in> set (concat blocks). valid k) \<and> [] \<notin> set blocks"

lemma entries_across:
  assumes t: "table_entries blocks" and ij: "i < j" "j < length blocks" and a: "a \<in> set (blocks ! i)" and b: "b \<in> set (blocks ! j)"
  shows "Compare c (fst a) (fst b) < 0"
proof -
  have "concat blocks = concat (take j blocks) @ concat (drop j blocks)" by (simp flip: concat_append)
  moreover have "a \<in> set (concat (take j blocks))"
    using a ij by (auto simp: in_set_conv_nth [of _ "take j blocks"] intro!: bexI [of _ "blocks ! i"] exI [of _ i])
  moreover have "b \<in> set (concat (drop j blocks))"
    using b ij(2) by (auto simp flip: Cons_nth_drop_Suc)
  ultimately show ?thesis
    using t by (auto simp: table_entries_def in_order_def sorted_wrt_append case_prod_beta)
qed

lemma block_sorted:
  assumes t: "table_entries blocks" and i: "i < length blocks"
  shows "sorted_wrt (\<lambda>(k, v) (k', v'). Compare c k k' < 0) (blocks ! i)"
proof -
  have "concat blocks = concat (take i blocks) @ blocks ! i @ concat (drop (Suc i) blocks)"
    by (subst id_take_nth_drop [OF i]) simp
  with t show ?thesis by (simp add: table_entries_def in_order_def sorted_wrt_append)
qed

lemma entry_valid:
  assumes "table_entries blocks" and "i < length blocks" and "a \<in> set (blocks ! i)"
  shows "valid (fst a)"
  using assms by (force simp: table_entries_def)

lemma block_ends:
  assumes "table_entries blocks" and "i < length blocks"
  shows "hd (blocks ! i) \<in> set (blocks ! i)" "last (blocks ! i) \<in> set (blocks ! i)"
proof -
  have "blocks ! i \<noteq> []" using assms(1) nth_mem [OF assms(2)] unfolding table_entries_def by metis
  then show "hd (blocks ! i) \<in> set (blocks ! i)" "last (blocks ! i) \<in> set (blocks ! i)" by simp_all
qed

lemma block_upto_last:
  assumes t: "table_entries blocks" and i: "i < length blocks" and a: "a \<in> set (blocks ! i)"
  shows "Compare c (fst a) (fst (last (blocks ! i))) \<le> 0"
proof -
  have ne: "blocks ! i \<noteq> []" using a by auto
  then have "blocks ! i = butlast (blocks ! i) @ [last (blocks ! i)]" by simp
  with block_sorted [OF t i] have "\<forall>x \<in> set (butlast (blocks ! i)). Compare c (fst x) (fst (last (blocks ! i))) < 0"
    by (metis (no_types, lifting) case_prod_beta list.set_intros(1) sorted_wrt_append)
  moreover have "a \<in> set (butlast (blocks ! i)) \<or> a = last (blocks ! i)"
    using a ne by (metis append_butlast_last_id in_set_conv_decomp rotate1.simps(2) set_ConsD set_rotate1)
  ultimately show ?thesis using refl0 [OF entry_valid [OF t i a]] by (auto simp: less_imp_le)
qed

lemma index_key_laws:
  assumes t: "table_entries blocks" and i: "i < length blocks"
  shows "valid (index_key c blocks i)" "Compare c (fst (last (blocks ! i))) (index_key c blocks i) \<le> 0"
    "Suc i < length blocks \<Longrightarrow> Compare c (index_key c blocks i) (fst (hd (blocks ! Suc i))) < 0"
proof -
  have vl: "valid (fst (last (blocks ! i)))" by (rule entry_valid [OF t i block_ends(2) [OF t i]])
  have *: "valid (index_key c blocks i) \<and> Compare c (fst (last (blocks ! i))) (index_key c blocks i) \<le> 0 \<and>
      (Suc i < length blocks \<longrightarrow> Compare c (index_key c blocks i) (fst (hd (blocks ! Suc i))) < 0)"
  proof (cases "Suc i < length blocks")
    case True
    have "valid (fst (hd (blocks ! Suc i)))" by (rule entry_valid [OF t True block_ends(1) [OF t True]])
    moreover have "Compare c (fst (last (blocks ! i))) (fst (hd (blocks ! Suc i))) < 0"
      using entries_across [OF t _ True block_ends(2) [OF t i] block_ends(1) [OF t True]] by simp
    ultimately show ?thesis using separates [OF vl] True by (simp add: index_key_def)
  next
    case False
    then show ?thesis using succeeds [OF vl] by (simp add: index_key_def)
  qed
  then show "valid (index_key c blocks i)" "Compare c (fst (last (blocks ! i))) (index_key c blocks i) \<le> 0"
    "Suc i < length blocks \<Longrightarrow> Compare c (index_key c blocks i) (fst (hd (blocks ! Suc i))) < 0" by blast+
qed

lemma entry_below_index:
  assumes t: "table_entries blocks" and i: "i < length blocks" and a: "a \<in> set (blocks ! i)"
  shows "Compare c (fst a) (index_key c blocks i) \<le> 0"
  using trans_le [OF entry_valid [OF t i a] entry_valid [OF t i block_ends(2) [OF t i]] index_key_laws(1) [OF t i]
      block_upto_last [OF t i a] index_key_laws(2) [OF t i]] .

lemma hd_le:
  assumes t: "table_entries blocks" and i: "i < length blocks" and a: "a \<in> set (blocks ! i)"
  shows "Compare c (fst (hd (blocks ! i))) (fst a) \<le> 0"
proof (cases "blocks ! i")
  case (Cons x xs)
  with block_sorted [OF t i] a have "a = x \<or> Compare c (fst x) (fst a) < 0" by (auto simp: case_prod_beta)
  then show ?thesis using Cons refl0 [OF entry_valid [OF t i a]] by auto
qed (use a in simp)

lemma index_below_later:
  assumes t: "table_entries blocks" and ij: "i < j" "j < length blocks" and a: "a \<in> set (blocks ! j)"
  shows "Compare c (index_key c blocks i) (fst a) < 0"
proof -
  have i: "i < length blocks" "Suc i < length blocks" using ij by auto
  have v: "valid (index_key c blocks i)" "valid (fst (hd (blocks ! Suc i)))" "valid (fst a)"
    using index_key_laws(1) [OF t i(1)] entry_valid [OF t i(2) block_ends(1) [OF t i(2)]] entry_valid [OF t ij(2) a] .
  have "Compare c (fst (hd (blocks ! Suc i))) (fst a) \<le> 0"
  proof (cases "j = Suc i")
    case True
    with hd_le [OF t ij(2) a] show ?thesis by simp
  next
    case False
    then have "Suc i < j" using ij(1) by simp
    from entries_across [OF t this ij(2) block_ends(1) [OF t i(2)] a] show ?thesis by simp
  qed
  from less_le_trans [OF v index_key_laws(3) [OF t i] this] show ?thesis .
qed

lemma index_sorted:
  assumes t: "table_entries blocks" and ij: "i < j" "j < length blocks"
  shows "Compare c (index_key c blocks i) (index_key c blocks j) < 0"
proof -
  have l: "last (blocks ! j) \<in> set (blocks ! j)" by (rule block_ends(2) [OF t ij(2)])
  have "i < length blocks" using ij by simp
  from less_le_trans [OF index_key_laws(1) [OF t this] entry_valid [OF t ij(2) l] index_key_laws(1) [OF t ij(2)]
      index_below_later [OF t ij l] index_key_laws(2) [OF t ij(2)]] show ?thesis .
qed

end

subsection \<open>Reading blocks through the cache\<close>

text \<open>
  \<open>R\<close> says what may be in the cache under a key: under the keys of a table its blocks and nothing
  else.
\<close>

definition permits :: "(byte list \<Rightarrow> Block \<Rightarrow> bool) \<Rightarrow> 'c Options \<Rightarrow> entries list \<Rightarrow> u64 \<Rightarrow> bool" where
  "permits R opts blocks i \<longleftrightarrow>
     (\<forall>j b. j < length blocks \<longrightarrow>
       R (cache_key i (bh_offset (block_handle (opt_block_restart_interval opts) blocks j))) b =
       (b = NewBlock (block_bytes (opt_block_restart_interval opts) (blocks ! j))))"

definition cache_fits ::
  "'c Options \<Rightarrow> entries list \<Rightarrow> 'c Table \<Rightarrow> ('c \<Rightarrow> bool) \<Rightarrow> ('c \<Rightarrow> byte list \<Rightarrow> Block \<Rightarrow> bool) \<Rightarrow>
   (byte list \<Rightarrow> Block \<Rightarrow> bool) \<Rightarrow> 'c \<Rightarrow> bool" where
  "cache_fits opts blocks t invar held R c \<longleftrightarrow>
     (case opt_block_cache opts of None \<Rightarrow> True
      | Some ops \<Rightarrow> block_cache ops invar held \<and> invar c \<and> permits R opts blocks (t_cache_id t) \<and> (\<forall>k b. held c k b \<longrightarrow> R k b))"

lemma cache_key_inj: "cache_key i a = cache_key i' b \<longleftrightarrow> i = i' \<and> a = b"
proof -
  have "cache_key x y = cache_key x' y' \<Longrightarrow> x = x' \<and> y = y'" for x y x' y'
  proof -
    assume "cache_key x y = cache_key x' y'"
    then have "EncodeFixed64 x @ EncodeFixed64 y = EncodeFixed64 x' @ EncodeFixed64 y'" by (simp add: cache_key_def)
    then have "EncodeFixed64 x = EncodeFixed64 x'" "EncodeFixed64 y = EncodeFixed64 y'"
      by (simp_all add: append_eq_append_conv fixed64_length)
    moreover have "EncodeFixed64 a = EncodeFixed64 b \<Longrightarrow> a = b" for a b
      using DecodeFixed64_Encode [of a "[]"] DecodeFixed64_Encode [of b "[]"] by metis
    ultimately show "x = x' \<and> y = y'" by blast
  qed
  then show ?thesis by auto
qed

text \<open>What a table alone allows, and a table with a new number beside others.\<close>

definition add_blocks_of ::
  "'c Options \<Rightarrow> entries list \<Rightarrow> u64 \<Rightarrow> (byte list \<Rightarrow> Block \<Rightarrow> bool) \<Rightarrow> byte list \<Rightarrow> Block \<Rightarrow> bool" where
  "add_blocks_of opts blocks i R k b \<longleftrightarrow> R k b \<or>
     (\<exists>j < length blocks. k = cache_key i (bh_offset (block_handle (opt_block_restart_interval opts) blocks j)) \<and>
        b = NewBlock (block_bytes (opt_block_restart_interval opts) (blocks ! j)))"

lemma permits_new:
  assumes h: "table_file_holds opts blocks f" and "\<forall>off b. \<not> R (cache_key i off) b"
  shows "permits (add_blocks_of opts blocks i R) opts blocks i"
    and "i' \<noteq> i \<Longrightarrow> permits (add_blocks_of opts blocks i R) opts' blocks' i' = permits R opts' blocks' i'"
  using assms(2) block_handle_inj [OF h refl]
  by (auto simp: permits_def add_blocks_of_def cache_key_inj)

lemma new_cache_fits:
  assumes "(t_cache_id t, c') = (case opt_block_cache opts of Some ops \<Rightarrow> cache_new_id ops c | None \<Rightarrow> (0, c))"
    and "\<And>ops. opt_block_cache opts = Some ops \<Longrightarrow> block_cache ops invar held \<and>
      (\<forall>i c'. cache_new_id ops c = (i, c') \<longrightarrow> invar c' \<and> (\<forall>off b. \<not> held c' (cache_key i off) b))"
    and h: "table_file_holds opts blocks f"
  shows "\<exists>R. cache_fits opts blocks t invar held R c'"
proof (cases "opt_block_cache opts")
  case (Some ops)
  let ?R = "\<lambda>k b. (\<forall>off. k \<noteq> cache_key (t_cache_id t) off)"
  from Some assms(1) have "cache_new_id ops c = (t_cache_id t, c')" by simp
  with assms(2) [OF Some] have l: "block_cache ops invar held" "invar c'" "\<forall>off b. \<not> held c' (cache_key (t_cache_id t) off) b"
    by blast+
  have "\<forall>off b. \<not> ?R (cache_key (t_cache_id t) off) b" by blast
  from permits_new(1) [OF h this] l Some show ?thesis
    by (intro exI [of _ "add_blocks_of opts blocks (t_cache_id t) ?R"]) (auto simp: cache_fits_def add_blocks_of_def)
qed (simp add: cache_fits_def)

lemma block_reader:
  assumes h: "table_file_holds opts blocks f" and o: "opened opts blocks f t" and i: "i < length blocks"
    and n: "n = opt_block_restart_interval opts" and c: "cache_fits opts blocks t invar held R c"
  shows "\<exists>c'. BlockReader sn t options (HandleEncodeTo (block_handle n blocks i) []) c =
      Some (NewIterator (NewBlock (block_bytes n (blocks ! i))), c') \<and> cache_fits opts blocks t invar held R c'"
proof -
  obtain r where p: "table_bytes opts blocks = data_bytes n (take i blocks) @ stored_block (block_bytes n (blocks ! i)) 0 @ r"
    by (rule block_part [OF i n])
  obtain b where b: "ReadBlock sn f (verify_checksums options) (block_handle n blocks i) =
      Some (Inr \<lparr>bc_data = block_bytes n (blocks ! i), bc_cachable = b, bc_heap_allocated = b\<rparr>)"
    using read_part(1) [OF h p] by (auto simp: block_handle_def)
  have t: "t_options t = opts" "t_file t = f" using o by (simp_all add: opened_def)
  show ?thesis
  proof (cases "opt_block_cache opts")
    case None
    with b c show ?thesis by (simp add: BlockReader_def t cache_fits_def)
  next
    case (Some ops)
    with c have laws: "block_cache ops invar held" and inv: "invar c" and right: "permits R opts blocks (t_cache_id t)"
      and sub: "\<forall>k b. held c k b \<longrightarrow> R k b"
      by (simp_all add: cache_fits_def)
    let ?k = "cache_key (t_cache_id t) (bh_offset (block_handle n blocks i))" and ?b = "NewBlock (block_bytes n (blocks ! i))"
    have R: "R ?k b = (b = ?b)" for b using right i n by (simp add: permits_def)
    obtain found c1 where l: "cache_lookup ops ?k c = (found, c1)" by fastforce
    note lh = block_cache.lookup_held [OF laws inv l]
    then have c1: "invar c1" "\<forall>k b. held c1 k b \<longrightarrow> R k b" using sub by blast+
    show ?thesis
    proof (cases found)
      case None
      obtain c2 where c2: "cache_insert ops ?k ?b (blk_size ?b) c1 = Some c2" "invar c2" "\<forall>k b. held c2 k b \<longrightarrow> R k b"
        using block_cache.insert_held [OF laws c1(1), of ?k ?b "blk_size ?b"] c1(2) R by metis
      with b l Some c1 laws None right show ?thesis
        by (cases "b \<and> fill_cache options") (auto simp: BlockReader_def t cache_fits_def Let_def)
    next
      case (Some blk)
      with lh sub R have "blk = ?b" by blast
      with l Some \<open>opt_block_cache opts = Some ops\<close> c1 laws right show ?thesis by (simp add: BlockReader_def t cache_fits_def)
    qed
  qed
qed

subsection \<open>Iterators and lookups\<close>

context ordered_tables
begin

lemma index_is_ok:
  assumes te: "table_entries blocks" and h: "table_file_holds opts blocks f" and o: "opened opts blocks f t"
    and oc: "opt_comparator opts = c" and n: "n = opt_block_restart_interval opts"
  shows "index_ok (Compare c) valid (BlockReader sn t options) (block_of_handle n blocks) (any_at n)
    (cache_fits opts blocks t invar held R) (index_entries c n blocks)"
  unfolding index_ok_def
proof (intro conjI)
  let ?b = "block_of_handle n blocks" and ?xs = "index_entries c n blocks"
  note nth = block_of_handle_nth [OF h n]
  show "in_order (Compare c) ?xs"
    using index_sorted [OF te] by (auto simp: in_order_def sorted_wrt_iff_nth_less)
  show "sorted_wrt (\<lambda>(k, h) (k', h'). \<forall>(a, v) \<in> set (?b h'). Compare c k a < 0) ?xs"
    using index_below_later [OF te] by (auto simp: sorted_wrt_iff_nth_less nth)
  show "\<forall>(k, h) \<in> set ?xs. valid k \<and> (\<forall>(a, v) \<in> set (?b h). valid a \<and> Compare c a k \<le> 0) \<and>
      (\<forall>e. cache_fits opts blocks t invar held R e \<longrightarrow>
        (\<exists>d e' i. BlockReader sn t options h e = Some (d, e') \<and> cache_fits opts blocks t invar held R e' \<and> any_at n (?b h) i d))"
  proof (clarsimp simp only: in_set_conv_nth index_entries_length)
    fix k hh i assume i: "i < length blocks" and e: "index_entries c n blocks ! i = (k, hh)"
    then have k: "k = index_key c blocks i" "hh = HandleEncodeTo (block_handle n blocks i) []" by simp_all
    obtain r where p: "table_bytes opts blocks = data_bytes n (take i blocks) @ stored_block (block_bytes n (blocks ! i)) 0 @ r"
      by (rule block_part [OF i n])
    have at: "any_at n (blocks ! i) (length (blocks ! i)) (NewIterator (NewBlock (block_bytes n (blocks ! i))))"
      using h n by (intro block_iterator read_part(2) [OF h p]) (simp add: table_file_holds_def)
    show "valid k \<and> (\<forall>x \<in> set (?b hh). case x of (a, v) \<Rightarrow> valid a \<and> Compare c a k \<le> 0) \<and>
      (\<forall>e. cache_fits opts blocks t invar held R e \<longrightarrow>
        (\<exists>d e' i. BlockReader sn t options hh e = Some (d, e') \<and> cache_fits opts blocks t invar held R e' \<and> any_at n (?b hh) i d))"
      using index_key_laws(1) [OF te i] entry_valid [OF te i] entry_below_index [OF te i] block_reader [OF h o i n] at
      by (fastforce simp: k nth [OF i])
  qed
qed

lemma table_laws:
  "two_level_laws (any_ops (Compare c)) (any_ops (Compare c)) (Compare c) (any_at 1) (any_at n) (\<lambda>_. True) valid"
  by (intro two_level_laws.intro any_source.iterator_impl_axioms key_order_axioms)

lemma index_iterator:
  assumes h: "table_file_holds opts blocks f" and o: "opened opts blocks f t"
    and oc: "opt_comparator opts = c" and n: "n = opt_block_restart_interval opts"
  shows "any_at 1 (index_entries c n blocks) (length blocks) (NewIterator (t_index_block t))"
proof -
  obtain r where "table_bytes opts blocks = before_index opts blocks @ stored_block (index_bytes opts blocks) 0 @ r"
    by (rule index_part)
  from read_part(2) [OF h this] have "length (block_bytes 1 (index_entries c n blocks)) < 2 ^ 32"
    by (simp add: index_bytes_def oc n)
  from block_iterator [OF _ this] o show ?thesis by (simp add: opened_def index_bytes_def oc n)
qed

lemma table_iterator:
  assumes te: "table_entries blocks" and h: "table_file_holds opts blocks f" and o: "opened opts blocks f t"
    and oc: "opt_comparator opts = c" and cf: "cache_fits opts blocks t invar held R ca"
  shows "follows (table_ops sn t options) (Compare c) valid (concat blocks) (length (concat blocks)) (TableNewIterator t ca)"
proof -
  let ?n = "opt_block_restart_interval opts"
  have to: "table_index_ops t = any_ops (Compare c)" using o oc by (simp add: opened_def table_index_ops_def)
  have es: "tl_entries (block_of_handle ?n blocks) (index_entries c ?n blocks) = concat blocks"
    by (rule tl_entries_index [OF h refl])
  have so: "sorted_for (Compare c) k (concat blocks)" if "valid k" for k
    using te that by (intro in_order_sorted_for) (auto simp: table_entries_def)
  have "follows (two_ops (any_ops (Compare c)) (any_ops (Compare c)) (BlockReader sn t options)) (Compare c)
      (\<lambda>k. True \<and> valid k) (tl_entries (block_of_handle ?n blocks) (index_entries c ?n blocks))
      (length (tl_entries (block_of_handle ?n blocks) (index_entries c ?n blocks)))
      (NewTwoLevelIterator (any_ops (Compare c)) (NewIterator (t_index_block t)) ca)"
    by (rule two_level_laws.new_follows [OF table_laws index_is_ok [OF te h o oc refl] index_iterator [OF h o oc refl] cf])
      (simp add: es so)
  then show ?thesis by (simp add: es table_ops_def TableNewIterator_def to)
qed

end

subsection \<open>Lookups\<close>

lemma block_sought:
  assumes at: "at_entry n es i it" and s: "sorted_for cmp k es"
  shows "\<exists>it'. op_seek (any_ops cmp) k (BlockIterator it) = Some (BlockIterator it') \<and> at_entry n es (seek_pos cmp k es) it'"
proof -
  from block.at_seek [OF at _ s] obtain r where "BlockSeek cmp k it = Some r" "at_entry n es (seek_pos cmp k es) r" by blast
  then show ?thesis by (simp add: any_ops_def)
qed

lemma seek_new_block:
  assumes "0 < n" and "length (block_bytes n es) < 2 ^ 32" and s: "sorted_for cmp k es"
  shows "\<exists>it. op_seek (any_ops cmp) k (NewIterator (NewBlock (block_bytes n es))) = Some it \<and>
    op_valid (any_ops cmp) it = (seek_pos cmp k es < length es) \<and> op_status (any_ops cmp) it = OK \<and>
    (seek_pos cmp k es < length es \<longrightarrow> op_key (any_ops cmp) it = fst (es ! seek_pos cmp k es) \<and>
      op_value (any_ops cmp) it = snd (es ! seek_pos cmp k es))"
proof -
  obtain it where it: "NewIterator (NewBlock (block_bytes n es)) = BlockIterator it" "at_entry n es (length es) it"
    using NewIterator_block [OF assms(1,2)] by blast
  obtain r where r: "op_seek (any_ops cmp) k (BlockIterator it) = Some (BlockIterator r)" "at_entry n es (seek_pos cmp k es) r"
    using block_sought [OF it(2) s] by blast
  have a: "any_at n es (seek_pos cmp k es) (BlockIterator r)" using r(2) by simp
  show ?thesis
    by (rule exI [of _ "BlockIterator r"])
      (use it(1) r any_source.it.at_valid [OF a] any_source.it.at_key [OF a] any_source.it.at_val [OF a]
       in \<open>simp_all add: any_ops_def at_entry_def\<close>)
qed

lemma filter_matches:
  assumes h: "table_file_holds opts blocks f" and o: "opened opts blocks f t" and i: "i < length blocks"
    and n: "n = opt_block_restart_interval opts" and e: "e \<in> set (blocks ! i)"
    and laws: "\<And>q. opt_filter_policy opts = Some q \<Longrightarrow>
      filter_policy (create_filter q) (filter_may_match q) \<and> (\<forall>x. filter_may_match q k x = filter_may_match q (fst e) x)"
  shows "\<not> filter_excludes t (HandleEncodeTo (block_handle n blocks i) []) k"
proof (cases "opt_filter_policy opts")
  case None
  with o show ?thesis by (simp add: filter_excludes_def opened_def)
next
  case (Some q)
  let ?create = "create_filter q" and ?in = "filter_input n (blocks @ [[]])"
  obtain r where "table_bytes opts blocks = data_bytes n blocks @ stored_block (filter_bytes q n blocks) 0 @ r"
    by (rule filter_found [OF Some n])
  from read_part(2,3) [OF h this] have l: "length (filter_bytes q n blocks) < 2 ^ 32" "length (data_bytes n blocks) < 2 ^ 32" by simp_all
  have mono: "length (data_bytes n (take a blocks)) \<le> length (data_bytes n (take b blocks))" if "a \<le> b" "b \<le> length blocks" for a b
    using data_bytes_take_less [of a b blocks n] that by (cases "a = b") auto
  have sm: "length (data_bytes n (take a blocks)) < 2 ^ 32" for a
    using mono [of "min a (length blocks)" "length blocks"] l(2) by (cases "a \<le> length blocks") simp_all
  have nth: "map (\<lambda>(off, ks). off) ?in ! a = word_of_nat (length (data_bytes n (take a blocks)))" if "a \<le> length blocks" for a
    using that by (simp add: filter_input_def del: upt_Suc)
  have "sorted (map (\<lambda>(off, ks). off) ?in)"
    unfolding sorted_iff_nth_mono_less
  proof (intro allI impI)
    fix a b assume ab: "a < b" "b < length (map (\<lambda>(off, ks). off) ?in)"
    then have b: "a \<le> b" "b \<le> length blocks" by (simp_all add: filter_input_def)
    then show "map (\<lambda>(off, ks). off) ?in ! a \<le> map (\<lambda>(off, ks). off) ?in ! b"
      using mono [OF b] sm [of a] sm [of b] by (simp add: nth word_le_nat_alt unat_of_nat)
  qed
  moreover have "(bh_offset (block_handle n blocks i), map fst (blocks ! i)) \<in> set ?in"
    using i by (auto simp: filter_input_def block_handle_def handle_at_def nth_append intro!: rev_image_eqI [of i])
  moreover have "fst e \<in> set (map fst (blocks ! i))" using e by simp
  ultimately have "FilterKeyMayMatch (filter_may_match q) (NewFilterBlockReader (filter_bytes q n blocks))
      (bh_offset (block_handle n blocks i)) (fst e)"
    unfolding filter_bytes_def
    by (rule filter_policy.filter_block_matches [OF conjunct1 [OF laws [OF Some]]]) (use l(1) in \<open>simp add: filter_bytes_def\<close>)
  moreover have "FilterKeyMayMatch (filter_may_match q) reader off k = FilterKeyMayMatch (filter_may_match q) reader off (fst e)" for reader off
    using laws [OF Some] by (simp add: FilterKeyMayMatch_def)
  ultimately show ?thesis using o Some n by (simp add: filter_excludes_def opened_def)
qed

context ordered_tables
begin

lemma get_block:
  assumes te: "table_entries blocks" and h: "table_file_holds opts blocks f" and o: "opened opts blocks f t"
    and oc: "opt_comparator opts = c" and cf: "cache_fits opts blocks t invar held R ca" and k: "valid k"
    and b: "b = seek_pos (Compare c) k (index_entries c (opt_block_restart_interval opts) blocks)"
  shows "\<exists>ca'. cache_fits opts blocks t invar held R ca' \<and>
    InternalGet sn t options k saver arg ca = Some (OK,
      if b < length blocks \<and> \<not> filter_excludes t (HandleEncodeTo (block_handle (opt_block_restart_interval opts) blocks b) []) k \<and>
         seek_pos (Compare c) k (blocks ! b) < length (blocks ! b)
      then saver (fst (blocks ! b ! seek_pos (Compare c) k (blocks ! b))) (snd (blocks ! b ! seek_pos (Compare c) k (blocks ! b))) arg
      else arg, ca')"
proof -
  let ?n = "opt_block_restart_interval opts" and ?cmp = "Compare c" and ?xs = "index_entries c (opt_block_restart_interval opts) blocks"
  let ?h = "HandleEncodeTo (block_handle ?n blocks b) []"
  have to: "table_index_ops t = any_ops ?cmp" using o oc by (simp add: opened_def table_index_ops_def)
  have ok: "index_ok ?cmp valid (BlockReader sn t options) (block_of_handle ?n blocks) (any_at ?n) (cache_fits opts blocks t invar held R) ?xs"
    by (rule index_is_ok [OF te h o oc refl])
  obtain r where "table_bytes opts blocks = before_index opts blocks @ stored_block (index_bytes opts blocks) 0 @ r"
    by (rule index_part)
  from read_part(2) [OF h this] have li: "length (block_bytes 1 ?xs) < 2 ^ 32" by (simp add: index_bytes_def oc)
  have si: "sorted_for ?cmp k ?xs"
    using ok k by (intro in_order_sorted_for) (auto simp: index_ok_def)
  obtain it where it: "op_seek (any_ops ?cmp) k (NewIterator (t_index_block t)) = Some it"
    "op_valid (any_ops ?cmp) it = (b < length blocks)" "op_status (any_ops ?cmp) it = OK"
    "b < length blocks \<longrightarrow> op_value (any_ops ?cmp) it = ?h"
    using seek_new_block [OF _ li si] o oc b by (auto simp: opened_def index_bytes_def)
  show ?thesis
  proof (cases "b < length blocks \<and> \<not> filter_excludes t ?h k")
    case False
    with it cf show ?thesis by (intro exI [of _ ca]) (auto simp: InternalGet_def to)
  next
    case True
    obtain ca' where br: "BlockReader sn t options ?h ca = Some (NewIterator (NewBlock (block_bytes ?n (blocks ! b))), ca')"
      "cache_fits opts blocks t invar held R ca'"
      using block_reader [OF h o conjunct1 [OF True] refl cf] by blast
    obtain r where "table_bytes opts blocks = data_bytes ?n (take b blocks) @ stored_block (block_bytes ?n (blocks ! b)) 0 @ r"
      by (rule block_part [OF conjunct1 [OF True] refl])
    from read_part(2) [OF h this] have lb: "length (block_bytes ?n (blocks ! b)) < 2 ^ 32" .
    have n0: "0 < ?n" using h by (simp add: table_file_holds_def)
    have sb: "sorted_for ?cmp k (blocks ! b)"
      using block_sorted [OF te conjunct1 [OF True]] entry_valid [OF te conjunct1 [OF True]] k
      by (intro in_order_sorted_for) (auto simp: in_order_def)
    obtain bi where bi: "op_seek (any_ops ?cmp) k (NewIterator (NewBlock (block_bytes ?n (blocks ! b)))) = Some bi"
      "op_valid (any_ops ?cmp) bi = (seek_pos ?cmp k (blocks ! b) < length (blocks ! b))" "op_status (any_ops ?cmp) bi = OK"
      "seek_pos ?cmp k (blocks ! b) < length (blocks ! b) \<longrightarrow> op_key (any_ops ?cmp) bi = fst (blocks ! b ! seek_pos ?cmp k (blocks ! b)) \<and>
        op_value (any_ops ?cmp) bi = snd (blocks ! b ! seek_pos ?cmp k (blocks ! b))"
      using seek_new_block [OF n0 lb sb] by blast
    show ?thesis
      using True it br bi by (intro exI [of _ ca']) (auto simp: InternalGet_def to)
  qed
qed

text \<open>
  Which entry a lookup delivers: the first one that is not below the key, at the least when no
  separator in front of it reaches the key and the filter treats both alike.
\<close>

lemma get_entry:
  assumes te: "table_entries blocks" and h: "table_file_holds opts blocks f" and o: "opened opts blocks f t"
    and oc: "opt_comparator opts = c" and cf: "cache_fits opts blocks t invar held R ca" and k: "valid k"
    and p: "p = seek_pos (Compare c) k (concat blocks)"
  shows "\<exists>arg' ca'. InternalGet sn t options k saver arg ca = Some (OK, arg', ca') \<and> cache_fits opts blocks t invar held R ca' \<and>
    (arg' = arg \<or> p < length (concat blocks) \<and> arg' = saver (fst (concat blocks ! p)) (snd (concat blocks ! p)) arg) \<and>
    (p < length (concat blocks) \<longrightarrow>
     (\<forall>e \<in> set (concat blocks). Compare c (fst e) k < 0 \<longrightarrow>
        Compare c (FindShortestSeparator c (fst e) (fst (concat blocks ! p))) k < 0) \<longrightarrow>
     (\<forall>q. opt_filter_policy opts = Some q \<longrightarrow> filter_policy (create_filter q) (filter_may_match q) \<and>
        (\<forall>x. filter_may_match q k x = filter_may_match q (fst (concat blocks ! p)) x)) \<longrightarrow>
     arg' = saver (fst (concat blocks ! p)) (snd (concat blocks ! p)) arg)"
proof -
  let ?n = "opt_block_restart_interval opts" and ?cmp = "Compare c" and ?xs = "index_entries c (opt_block_restart_interval opts) blocks"
  let ?es = "concat blocks"
  define b where "b = seek_pos ?cmp k ?xs"
  let ?h = "HandleEncodeTo (block_handle ?n blocks b) []" and ?i = "seek_pos ?cmp k (blocks ! b)"
  have ok: "index_ok ?cmp valid (BlockReader sn t options) (block_of_handle ?n blocks) (any_at ?n) (cache_fits opts blocks t invar held R) ?xs"
    by (rule index_is_ok [OF te h o oc refl])
  have es: "tl_entries (block_of_handle ?n blocks) ?xs = ?es" by (rule tl_entries_index [OF h refl])
  have bx: "block_of_handle ?n blocks (snd (?xs ! j)) = blocks ! j" if "j < length blocks" for j
    using that by (simp add: block_of_handle_nth [OF h refl])
  have pos: "p = (if b < length blocks then tl_offset (block_of_handle ?n blocks) ?xs b + ?i else length ?es)"
    using two_level_laws.seek_concat [OF table_laws ok k b_def] bx by (simp add: p es)
  have at: "?es ! p = blocks ! b ! ?i" "p < length ?es" if "b < length blocks" "?i < length (blocks ! b)"
    using tl_entries_nth [where block_of = "block_of_handle ?n blocks" and xs = ?xs and b = b and i = ?i] that bx pos by (simp_all add: es)
  obtain ca' where g: "cache_fits opts blocks t invar held R ca'" "InternalGet sn t options k saver arg ca = Some (OK,
      if b < length blocks \<and> \<not> filter_excludes t ?h k \<and> ?i < length (blocks ! b)
      then saver (fst (blocks ! b ! ?i)) (snd (blocks ! b ! ?i)) arg else arg, ca')"
    using get_block [OF te h o oc cf k b_def, of sn options saver arg] by blast
  have found: "b < length blocks \<and> \<not> filter_excludes t ?h k \<and> ?i < length (blocks ! b)"
    if pl: "p < length ?es"
      and sp: "\<forall>e \<in> set ?es. ?cmp (fst e) k < 0 \<longrightarrow> ?cmp (FindShortestSeparator c (fst e) (fst (?es ! p))) k < 0"
      and fl: "\<forall>q. opt_filter_policy opts = Some q \<longrightarrow> filter_policy (create_filter q) (filter_may_match q) \<and>
        (\<forall>x. filter_may_match q k x = filter_may_match q (fst (?es ! p)) x)"
  proof -
    have bl: "b < length blocks" using pl pos by (auto split: if_splits)
    have "?i < length (blocks ! b)"
    proof (rule ccontr)
      assume "\<not> ?i < length (blocks ! b)"
      then have i: "?i = length (blocks ! b)" using seek_pos_le [of ?cmp k "blocks ! b"] by simp
      have pe: "p = tl_offset (block_of_handle ?n blocks) ?xs (Suc b)" using pos bl i bx by (simp add: tl_offset_Suc)
      with pl es have sb: "Suc b < length blocks"
        using tl_offset_end [of ?xs "Suc b" "block_of_handle ?n blocks"] by (cases "Suc b < length blocks") auto
      have hd: "?es ! p = hd (blocks ! Suc b)"
      proof -
        have ne: "blocks ! Suc b \<noteq> []" using block_ends(1) [OF te sb] by auto
        then show ?thesis
          using tl_entries_nth(2) [where block_of = "block_of_handle ?n blocks" and xs = ?xs and b = "Suc b" and i = 0] sb bx pe es
          by (simp add: hd_conv_nth)
      qed
      have l: "last (blocks ! b) \<in> set (blocks ! b)" by (rule block_ends(2) [OF te bl])
      then have ne: "blocks ! b \<noteq> []" by auto
      then have "?cmp (fst (last (blocks ! b))) k < 0"
        using seek_pos_below [of "length (blocks ! b) - 1" ?cmp k "blocks ! b"] i by (simp add: last_conv_nth)
      moreover have "last (blocks ! b) \<in> set ?es" using l bl by auto
      ultimately have "?cmp (FindShortestSeparator c (fst (last (blocks ! b))) (fst (?es ! p))) k < 0" using sp by blast
      then have "?cmp (index_key c blocks b) k < 0" using hd sb by (simp add: index_key_def)
      moreover have "\<not> ?cmp (fst (?xs ! b)) k < 0" using seek_pos_at [of ?cmp k ?xs] bl by (simp add: b_def)
      ultimately show False using bl by simp
    qed
    moreover have "\<not> filter_excludes t ?h k"
      using fl at [OF bl calculation] nth_mem [OF calculation]
      by (intro filter_matches [OF h o bl refl, of "blocks ! b ! ?i"]) simp_all
    ultimately show ?thesis using bl by blast
  qed
  show ?thesis
  proof (cases "b < length blocks \<and> \<not> filter_excludes t ?h k \<and> ?i < length (blocks ! b)")
    case True
    then have "?es ! p = blocks ! b ! ?i" "p < length ?es" using at by blast+
    with g True show ?thesis
      by (intro exI [of _ "saver (fst (?es ! p)) (snd (?es ! p)) arg"] exI [of _ ca']) simp
  next
    case False
    with g(2) have "InternalGet sn t options k saver arg ca = Some (OK, arg, ca')" by (simp only: if_False)
    with g(1) found False show ?thesis by blast
  qed
qed

lemma seek_pos_stored:
  assumes "in_order (Compare c) es" and "\<forall>(k, v) \<in> set es. valid k" and q: "q < length es"
  shows "seek_pos (Compare c) (fst (es ! q)) es = q"
proof -
  have lt: "Compare c (fst (es ! i)) (fst (es ! q)) < 0" if "i < q" for i
    using assms(1) that q by (auto simp: in_order_def sorted_wrt_iff_nth_less case_prod_beta)
  have "\<not> Compare c (fst (es ! q)) (fst (es ! q)) < 0"
    using refl0 assms(2) nth_mem [OF q] by (metis (no_types, lifting) case_prodD less_irrefl prod.collapse)
  then show ?thesis
    using lt q unfolding seek_pos_def
    by (intro takeWhile_eq_take_P_nth [THEN arg_cong, of q es _ length, simplified, THEN trans])
      (auto simp: case_prod_beta)
qed

end

interpretation bytewise_tables: ordered_tables BytewiseComparator "\<lambda>_. True"
  by (intro ordered_tables.intro bytewise.comparator_laws_axioms)

context user_comparator
begin

lemma internal_tables: "ordered_tables (InternalKeyComparator c) (\<lambda>k. 8 \<le> length k)"
  by (intro ordered_tables.intro internal.comparator_laws_axioms)

end

text \<open>What a table builder is asked to do, and the bounds under which it is proved to do it.\<close>

definition builds_table ::
  "'f writable_ops \<Rightarrow> ('f \<Rightarrow> byte list) \<Rightarrow> snappy \<Rightarrow> 'c Options \<Rightarrow> (byte list \<Rightarrow> bool) \<Rightarrow> entries \<Rightarrow> bool" where
  "builds_table fops contents sn opts valid es \<longleftrightarrow>
     plain_file fops contents \<and> plain_blocks sn opts \<and> 0 < opt_block_restart_interval opts \<and>
     ordered_tables (opt_comparator opts) valid \<and> in_order (Compare (opt_comparator opts)) es \<and> (\<forall>(k, v) \<in> set es. valid k)"

lemma built_and_opened:
  assumes b: "builds_table fops contents sn opts valid es" and f: "contents f = []"
    and fin: "TableFinish fops sn (TableAdds fops sn es (NewTableBuilder opts f)) = (s, r)"
    and l: "length (contents (tb_file r)) < 2 ^ 32" and h: "holds_bytes rf (contents (tb_file r))"
  shows "s = OK \<and> (\<exists>blocks t c'. concat blocks = es \<and> ordered_tables.table_entries (opt_comparator opts) valid blocks \<and>
    contents (tb_file r) = table_bytes opts blocks \<and>
    table_file_holds opts blocks rf \<and> TableOpen sn opts rf (FileSize r) c = Some (Inr t, c') \<and> opened opts blocks rf t \<and>
    (t_cache_id t, c') = (case opt_block_cache opts of Some ops \<Rightarrow> cache_new_id ops c | None \<Rightarrow> (0, c)))"
proof -
  note d = b [unfolded builds_table_def]
  obtain blocks where bl: "s = OK" "contents (tb_file r) = table_bytes opts blocks"
    "FileSize r = word_of_nat (length (table_bytes opts blocks))" "concat blocks = es" "[] \<notin> set blocks"
    using table_built [of fops contents f sn opts es] d f fin by auto
  have te: "ordered_tables.table_entries (opt_comparator opts) valid blocks"
    using d bl(4,5) by (simp add: ordered_tables.table_entries_def)
  have th: "table_file_holds opts blocks rf" using d h l bl(2) by (simp add: table_file_holds_def)
  from open_table [OF th bl(3)] bl(1,2,4) te th show ?thesis by blast
qed

text \<open>A table of two entries for the witnesses, with a bound on the length of its file.\<close>

definition sample_cache :: "Block ShardedLRUCache" where
  "sample_cache = NewShardedLRUCache (\<lambda>_. new_handle [] 0 (NewBlock []) 0) 4096"

definition sample_options :: "Block ShardedLRUCache Options" where
  "sample_options = \<lparr>opt_comparator = BytewiseComparator, comparator_at = 1, opt_paranoid_checks = True, opt_block_cache = Some lru_cache_ops,
     opt_block_size = 10, opt_block_restart_interval = 2, opt_compression = kSnappyCompression, opt_filter_policy = None\<rparr>"

definition sample_entries :: entries where
  "sample_entries = [([1], [7]), ([3, 1], [])]"

definition sample_table :: "(byte list, Block ShardedLRUCache) TableBuilder" where
  "sample_table = snd (TableFinish mem_writable port_snappy
     (TableAdds mem_writable port_snappy sample_entries (NewTableBuilder sample_options [])))"

lemma entry_at_length:
  "length (entry_at n es i) \<le> 15 + length (fst (es ! i)) + length (snd (es ! i))"
  using EncodeVarint32_length [of "word_of_nat (shared_at n es i)"]
    EncodeVarint32_length [of "word_of_nat (length (fst (es ! i)) - shared_at n es i)"]
    EncodeVarint32_length [of "word_of_nat (length (snd (es ! i)))"]
  by (simp add: entry_at_def entry_bytes_def)

lemma block_bytes_length: "length (block_bytes n es) \<le> 8 + (\<Sum>(k, v) \<leftarrow> es. 19 + length k + length v)"
proof -
  have "entry_off n es i \<le> (\<Sum>(k, v) \<leftarrow> take i es. 15 + length k + length v)" if "i \<le> length es" for i
    using that
  proof (induction i)
    case (Suc i)
    with entry_at_length [of n es i] show ?case
      by (simp add: entry_off_Suc take_Suc_conv_app_nth case_prod_beta)
  qed (simp add: entry_off_def)
  from this [of "length es"] have "entry_off n es (length es) \<le> (\<Sum>(k, v) \<leftarrow> es. 15 + length k + length v)" by simp
  moreover have "restart_count n es \<le> length es + 1"
    unfolding restart_count_def using div_le_dividend [of "length es - 1" n] by linarith
  moreover have "(\<Sum>(k, v) \<leftarrow> es. 19 + length k + length v) = (\<Sum>(k, v) \<leftarrow> es. 15 + length k + length v) + 4 * length es"
    by (induction es) auto
  ultimately show ?thesis by (simp add: block_length)
qed

lemma all_nil: "\<forall>x \<in> set xs. x = [] \<Longrightarrow> [] \<notin> set xs \<Longrightarrow> xs = []"
  by (cases xs) auto

lemma two_blocks:
  assumes "concat blocks = [a, b]" and "[] \<notin> set blocks"
  shows "blocks = [[a, b]] \<or> blocks = [[a], [b]]"
  using assms
  by (cases blocks; cases "hd blocks"; cases "tl (hd blocks)"; cases "tl blocks"; cases "hd (tl blocks)")
    (auto simp: Cons_eq_append_conv append_eq_Cons_conv concat_eq_Nil_conv neq_Nil_conv all_nil)

lemma mem_plain: "plain_file mem_writable (\<lambda>f. f)"
  by (simp add: plain_file_def mem_writable_def)

lemma sample_builds: "builds_table mem_writable (\<lambda>f. f) port_snappy sample_options (\<lambda>_. True) sample_entries"
  using mem_plain port_plain bytewise_tables.ordered_tables_axioms
  by (simp add: builds_table_def sample_options_def sample_entries_def in_order_def BytewiseComparator_def)

lemma sample_file:
  "\<exists>blocks. concat blocks = sample_entries \<and> tb_file sample_table = table_bytes sample_options blocks"
  "length (tb_file sample_table) < 2 ^ 32"
proof -
  obtain blocks r where b: "TableFinish mem_writable port_snappy
      (TableAdds mem_writable port_snappy sample_entries (NewTableBuilder sample_options [])) = (OK, r)"
    "tb_file r = table_bytes sample_options blocks" "concat blocks = sample_entries" "[] \<notin> set blocks"
    using table_built [OF mem_plain, of "[]" port_snappy sample_options sample_entries] port_plain
    by (auto simp: sample_options_def)
  from b(1-3) show "\<exists>blocks. concat blocks = sample_entries \<and> tb_file sample_table = table_bytes sample_options blocks"
    by (auto simp: sample_table_def)
  let ?c = BytewiseComparator
  have d: "length (data_bytes 2 bs) \<le> (\<Sum>b \<leftarrow> bs. 13 + (\<Sum>(k, v) \<leftarrow> b. 19 + length k + length v))" for bs
  proof (induction bs)
    case (Cons b bs)
    with block_bytes_length [of 2 b] show ?case by (simp add: data_bytes_def)
  qed (simp add: data_bytes_def)
  have h: "length (HandleEncodeTo (block_handle 2 blocks i) []) \<le> 20" for i by (rule HandleEncodeTo_length)
  have "length (block_bytes 1 (index_entries ?c 2 blocks)) < 1000" "length (data_bytes 2 blocks) < 1000"
    using two_blocks [of blocks] b(3,4) block_bytes_length [of 1 "index_entries ?c 2 blocks"] d [of blocks] h [of 0] h [of 1]
    by (auto simp: sample_entries_def index_entries_def index_key_def BytewiseComparator_def bytewise_separator_def
        bytewise_successor_def successor_loop.simps)
  moreover have "length (block_bytes 2 []) \<le> 8" using block_bytes_length [of 2 "[]"] by simp
  ultimately show "length (tb_file sample_table) < 2 ^ 32"
    using b(1,2) by (simp add: sample_table_def table_bytes_def before_index_def before_meta_def filter_part_def
      meta_bytes_def meta_entries_def index_bytes_def footer_length) (simp add: sample_options_def)
qed

lemma sample_facts:
  "Compare (opt_comparator sample_options) = slice_compare"
  "opt_filter_policy sample_options = None" "([3, 1], []) \<in> set sample_entries"
  by (simp_all add: sample_options_def BytewiseComparator_def sample_entries_def)

lemma sample_cache_right:
  assumes "opt_block_cache sample_options = Some ops"
  shows "block_cache ops lru_invar lru_held \<and>
    (\<forall>i c'. cache_new_id ops sample_cache = (i, c') \<longrightarrow> lru_invar c' \<and> (\<forall>off b. \<not> lru_held c' (cache_key i off) b))"
proof -
  have ops: "ops = lru_cache_ops" using assms by (simp add: sample_options_def)
  have i: "lru_invar sample_cache" unfolding lru_invar_def sample_cache_def using new_sharded_inv by blast
  have n: "\<not> lru_held sample_cache k b" for k b by (simp add: lru_held_def sample_cache_def new_sharded_map)
  show ?thesis
    unfolding ops using lru.block_cache_axioms i n lru.new_id_held [OF i] by blast
qed

lemma sample_finish:
  "TableFinish mem_writable port_snappy (TableAdds mem_writable port_snappy sample_entries (NewTableBuilder sample_options []))
   = (fst (TableFinish mem_writable port_snappy (TableAdds mem_writable port_snappy sample_entries (NewTableBuilder sample_options []))), sample_table)"
  by (simp add: sample_table_def)

subsection \<open>Properties\<close>

text \<open>
  C16 (ldb_table_roundtrip). The file that a table builder makes of entries in the order of its
  comparator can be opened, and the table's iterator follows these entries through every
  sequence of calls, also through a cache of blocks that never answers with anything but
  what was put in. Neither sees an error; every write is assumed to succeed.
\<close>

theorem ldb_table_roundtrip:
  assumes "builds_table fops contents sn opts valid es" and "contents f = []"
    and "TableFinish fops sn (TableAdds fops sn es (NewTableBuilder opts f)) = (s, r)"
    and "length (contents (tb_file r)) < 2 ^ 32" and "holds_bytes rf (contents (tb_file r))"
    and "\<And>ops. opt_block_cache opts = Some ops \<Longrightarrow> block_cache ops invar held \<and>
      (\<forall>i c'. cache_new_id ops c = (i, c') \<longrightarrow> invar c' \<and> (\<forall>off b. \<not> held c' (cache_key i off) b))"
  shows "s = OK \<and> NumEntries r = word_of_nat (length es) \<and>
    (\<exists>t c'. TableOpen sn opts rf (FileSize r) c = Some (Inr t, c') \<and>
      follows (table_ops sn t options) (Compare (opt_comparator opts)) valid es (length es) (TableNewIterator t c'))"
proof -
  obtain blocks t c' where b: "s = OK" "concat blocks = es" "ordered_tables.table_entries (opt_comparator opts) valid blocks"
    "table_file_holds opts blocks rf" "TableOpen sn opts rf (FileSize r) c = Some (Inr t, c')" "opened opts blocks rf t"
    "(t_cache_id t, c') = (case opt_block_cache opts of Some ops \<Rightarrow> cache_new_id ops c | None \<Rightarrow> (0, c))"
    using built_and_opened [OF assms(1-5)] by blast
  obtain R where cf: "cache_fits opts blocks t invar held R c'" using new_cache_fits [OF b(7) assms(6) b(4)] by blast
  from ordered_tables.table_iterator [OF _ b(3,4,6) refl cf] b(2,5) assms(1)
  have "follows (table_ops sn t options) (Compare (opt_comparator opts)) valid es (length es) (TableNewIterator t c')"
    by (simp add: builds_table_def)
  moreover have "NumEntries r = word_of_nat (length es)"
    using table_built [of fops contents f sn opts es] assms(1-3) by (auto simp: builds_table_def)
  ultimately show ?thesis using b(1,5) by blast
qed

theorem ldb_table_roundtrip_witness:
  "\<exists>t c'. TableOpen port_snappy sample_options (bytes_file (tb_file sample_table)) (FileSize sample_table) sample_cache = Some (Inr t, c') \<and>
    follows (table_ops port_snappy t NewReadOptions) slice_compare (\<lambda>_. True) sample_entries (length sample_entries) (TableNewIterator t c')"
  using ldb_table_roundtrip [OF sample_builds _ sample_finish sample_file(2) bytes_file_holds sample_cache_right, where options = NewReadOptions]
  by (simp add: sample_facts)

text \<open>
  C17 (ldb_table_get). In a table opened on a built file, \<open>InternalGet\<close> hands to its callback at
  most the first entry at or after the key, and for the key of an entry it hands over that
  entry; the filter never hides it, and there is no error.
\<close>

theorem ldb_table_get:
  assumes "builds_table fops contents sn opts valid es" and "contents f = []"
    and "TableFinish fops sn (TableAdds fops sn es (NewTableBuilder opts f)) = (s, r)"
    and "length (contents (tb_file r)) < 2 ^ 32" and "holds_bytes rf (contents (tb_file r))"
    and "\<And>ops. opt_block_cache opts = Some ops \<Longrightarrow> block_cache ops invar held \<and>
      (\<forall>i c'. cache_new_id ops c = (i, c') \<longrightarrow> invar c' \<and> (\<forall>off b. \<not> held c' (cache_key i off) b))"
    and "valid k"
    and "\<And>q. opt_filter_policy opts = Some q \<Longrightarrow> filter_policy (create_filter q) (filter_may_match q)"
    and "p = seek_pos (Compare (opt_comparator opts)) k es"
  shows "\<exists>t c' arg' c2. TableOpen sn opts rf (FileSize r) c = Some (Inr t, c') \<and>
    InternalGet sn t options k saver arg c' = Some (OK, arg', c2) \<and>
    (arg' = arg \<or> p < length es \<and> arg' = saver (fst (es ! p)) (snd (es ! p)) arg) \<and>
    (\<forall>v. (k, v) \<in> set es \<longrightarrow> arg' = saver k v arg)"
proof -
  let ?c = "opt_comparator opts"
  obtain blocks t c' where b: "s = OK" "concat blocks = es" "ordered_tables.table_entries ?c valid blocks"
    "table_file_holds opts blocks rf" "TableOpen sn opts rf (FileSize r) c = Some (Inr t, c')" "opened opts blocks rf t"
    "(t_cache_id t, c') = (case opt_block_cache opts of Some ops \<Rightarrow> cache_new_id ops c | None \<Rightarrow> (0, c))"
    using built_and_opened [OF assms(1-5)] by blast
  have ot: "ordered_tables ?c valid" and io: "in_order (Compare ?c) es" and va: "\<forall>(k, v) \<in> set es. valid k"
    using assms(1) by (simp_all add: builds_table_def)
  obtain R where cf: "cache_fits opts blocks t invar held R c'" using new_cache_fits [OF b(7) assms(6) b(4)] by blast
  from ordered_tables.get_entry [OF ot b(3,4,6) refl cf assms(7) assms(9) [folded b(2)], of sn options saver arg, unfolded b(2)]
  obtain arg' c2 where g: "InternalGet sn t options k saver arg c' = Some (OK, arg', c2)"
    "arg' = arg \<or> p < length es \<and> arg' = saver (fst (es ! p)) (snd (es ! p)) arg"
    "p < length es \<longrightarrow> (\<forall>e \<in> set es. Compare ?c (fst e) k < 0 \<longrightarrow> Compare ?c (FindShortestSeparator ?c (fst e) (fst (es ! p))) k < 0) \<longrightarrow>
     (\<forall>q. opt_filter_policy opts = Some q \<longrightarrow> filter_policy (create_filter q) (filter_may_match q) \<and>
        (\<forall>x. filter_may_match q k x = filter_may_match q (fst (es ! p)) x)) \<longrightarrow> arg' = saver (fst (es ! p)) (snd (es ! p)) arg"
    by blast
  have "arg' = saver k v arg" if kv: "(k, v) \<in> set es" for v
  proof -
    from kv obtain q where q: "q < length es" "es ! q = (k, v)" by (auto simp: in_set_conv_nth)
    then have p: "p = q" using ordered_tables.seek_pos_stored [OF ot io va q(1)] assms(9) by simp
    have "Compare ?c (FindShortestSeparator ?c (fst e) k) k < 0" if "e \<in> set es" "Compare ?c (fst e) k < 0" for e
      using comparator_laws.separates [OF ordered_tables.axioms [OF ot] _ assms(7) that(2)] va that(1) by auto
    with g(3) q assms(8) show ?thesis by (simp add: p)
  qed
  with b(5) g(1,2) show ?thesis by blast
qed

theorem ldb_table_get_witness:
  "\<exists>t c' c2. TableOpen port_snappy sample_options (bytes_file (tb_file sample_table)) (FileSize sample_table) sample_cache = Some (Inr t, c') \<and>
    InternalGet port_snappy t NewReadOptions [3, 1] (\<lambda>k v x. x @ [(k, v)]) [] c' = Some (OK, [([3, 1], [])], c2)"
  using ldb_table_get [OF sample_builds _ sample_finish sample_file(2) bytes_file_holds sample_cache_right _ _ refl, where options = NewReadOptions and k = "[3, 1]"
    and saver = "\<lambda>k v x. x @ [(k, v)]" and arg = "[]"]
  sample_facts by auto

text \<open>
  Theorem (ldb_table_open_short). \<open>Table::Open\<close> does not look at how many bytes the file returned for the
  footer: with a file that answers with fewer bytes and no error, the footer's magic number
  is read from behind them.
\<close>

theorem ldb_table_open_short:
  "48 \<le> unat len \<Longrightarrow> length bs < 48 \<Longrightarrow> TableOpen sn opts \<lparr>file_read = \<lambda>off n. (OK, bs, b)\<rparr> len c = None"
  by (simp add: TableOpen_def FooterDecodeFrom_def kEncodedLength_def kMaxEncodedLength_def)

theorem ldb_table_open_short_witness:
  "TableOpen port_snappy (opts :: unit Options) \<lparr>file_read = \<lambda>off n. (OK, [1, 2, 3], True)\<rparr> 100 () = None"
  by (rule ldb_table_open_short) simp_all

end
