(* ===== verification/LDB_TableCache.thy ===== *)
theory LDB_TableCache
  imports LDB_Table LDB_Filename
begin

text \<open>
  The cache of open tables (\<open>db/table_cache.cc\<close>): a sharded cache from file numbers to open tables. A
  lookup in a table goes through it and leaves no handle behind; whatever was opened, dropped and
  opened again, the tables in the cache are the files of the database.
\<close>

subsection \<open>The cache of tables\<close>

record 'c TableAndFile =
  tf_file :: random_file
  tf_table :: "'c Table"

text \<open>
  \<open>tc_blocks\<close> is the state of the cache of blocks in the options. Opening a file for reading is an
  operation of the environment: \<open>open_op\<close> takes the name and returns an error or the file.
\<close>

record 'c TableCache =
  tc_dbname :: string
  tc_options :: "'c Options"
  tc_cache :: "'c TableAndFile ShardedLRUCache"
  tc_blocks :: 'c

type_synonym open_op = "string \<Rightarrow> Status + random_file"

definition NewTableCache :: "'c TableAndFile handles \<Rightarrow> string \<Rightarrow> 'c Options \<Rightarrow> int \<Rightarrow> 'c \<Rightarrow> 'c TableCache" where
  "NewTableCache heap dbname options entries blocks =
     \<lparr>tc_dbname = dbname, tc_options = options, tc_cache = NewShardedLRUCache heap (word_of_int entries), tc_blocks = blocks\<rparr>"

definition open_table_file :: "open_op \<Rightarrow> string \<Rightarrow> u64 \<Rightarrow> Status + random_file" where
  "open_table_file NewRandomAccessFile dbname number =
     (case NewRandomAccessFile (TableFileName dbname number) of
        Inr f \<Rightarrow> Inr f
      | Inl s \<Rightarrow>
          (case NewRandomAccessFile (SSTTableFileName dbname number) of Inr f \<Rightarrow> Inr f | Inl _ \<Rightarrow> Inl s))"

definition FindTable ::
  "snappy \<Rightarrow> open_op \<Rightarrow> u64 \<Rightarrow> u64 \<Rightarrow> 'c TableCache \<Rightarrow> (Status \<times> (nat \<times> nat) option \<times> 'c TableCache) option" where
  "FindTable sn open_file file_number file_size tc =
     (let key = EncodeFixed64 file_number;
          (h, cache) = ShardedLookup key (tc_cache tc);
          tc = tc\<lparr>tc_cache := cache\<rparr>
      in case h of
           Some h \<Rightarrow> Some (OK, Some h, tc)
         | None \<Rightarrow>
             (case open_table_file open_file (tc_dbname tc) file_number of
                Inl s \<Rightarrow> Some (s, None, tc)
              | Inr f \<Rightarrow>
                  Option.bind (TableOpen sn (tc_options tc) f file_size (tc_blocks tc)) (\<lambda>(r, blocks).
                  let tc = tc\<lparr>tc_blocks := blocks\<rparr>
                  in case r of
                       Inl s \<Rightarrow> Some (s, None, tc)
                     | Inr t \<Rightarrow>
                         map_option (\<lambda>(h, cache). (OK, Some h, tc\<lparr>tc_cache := cache\<rparr>))
                           (ShardedInsert key \<lparr>tf_file = f, tf_table = t\<rparr> 1 (tc_cache tc)))))"

text \<open>The iterator is one that only has an error, or the iterator of the table, which takes the cache of blocks along.\<close>

definition TableCacheNewIterator ::
  "snappy \<Rightarrow> open_op \<Rightarrow> u64 \<Rightarrow> u64 \<Rightarrow> 'c TableCache \<Rightarrow>
   ((Status + 'c Table \<times> (any_iter, any_iter, 'c) two_level) \<times> 'c TableCache) option" where
  "TableCacheNewIterator sn open_file file_number file_size tc =
     Option.bind (FindTable sn open_file file_number file_size tc) (\<lambda>(s, h, tc).
     case h of
       None \<Rightarrow> Some (Inl s, tc)
     | Some h \<Rightarrow>
         let table = tf_table (CacheValue h (tc_cache tc))
         in Some (Inr (table, TableNewIterator table (tc_blocks tc)), tc))"

definition TableCacheGet ::
  "snappy \<Rightarrow> open_op \<Rightarrow> ReadOptions \<Rightarrow> u64 \<Rightarrow> u64 \<Rightarrow> byte list \<Rightarrow> (byte list \<Rightarrow> byte list \<Rightarrow> 'a \<Rightarrow> 'a) \<Rightarrow> 'a \<Rightarrow>
   'c TableCache \<Rightarrow> (Status \<times> 'a \<times> 'c TableCache) option" where
  "TableCacheGet sn open_file options file_number file_size k saver arg tc =
     Option.bind (FindTable sn open_file file_number file_size tc) (\<lambda>(s, h, tc).
     case h of
       None \<Rightarrow> Some (s, arg, tc)
     | Some h \<Rightarrow>
         let t = tf_table (CacheValue h (tc_cache tc))
         in map_option (\<lambda>(s, arg, blocks). (s, arg, tc\<lparr>tc_blocks := blocks, tc_cache := ShardedRelease h (tc_cache tc)\<rparr>))
              (InternalGet sn t options k saver arg (tc_blocks tc)))"

definition TableCacheEvict :: "u64 \<Rightarrow> 'c TableCache \<Rightarrow> 'c TableCache" where
  "TableCacheEvict file_number tc = tc\<lparr>tc_cache := ShardedErase (EncodeFixed64 file_number) (tc_cache tc)\<rparr>"

subsection \<open>The tables in the cache are the files\<close>

text \<open>
  A database directory: the numbers of its table files, the blocks and the bytes of each, and an
  environment that opens them.
\<close>

record table_files =
  td_live :: "u64 set"
  td_blocks :: "u64 \<Rightarrow> entries list"
  td_file :: "u64 \<Rightarrow> random_file"

definition files_ok :: "open_op \<Rightarrow> string \<Rightarrow> 'c Options \<Rightarrow> table_files \<Rightarrow> bool" where
  "files_ok open_file dbname opts td \<longleftrightarrow>
     (\<forall>n \<in> td_live td. table_file_holds opts (td_blocks td n) (td_file td n) \<and>
        open_table_file open_file dbname n = Inr (td_file td n))"

definition live_size :: "'c Options \<Rightarrow> table_files \<Rightarrow> u64 \<Rightarrow> u64" where
  "live_size opts td n = word_of_nat (length (table_bytes opts (td_blocks td n)))"

type_synonym block_lru = "Block ShardedLRUCache"

definition blocks_in_order :: "(byte list \<Rightarrow> Block \<Rightarrow> bool) \<Rightarrow> nat \<Rightarrow> block_lru \<Rightarrow> bool" where
  "blocks_in_order R r c \<longleftrightarrow>
     lru_invar c \<and> r \<le> lru_room c \<and> (\<forall>k b. lru_held c k b \<longrightarrow> R k b) \<and>
     (\<forall>k b. R k b \<longrightarrow> (\<exists>i \<in> lru_issued c. \<exists>off. k = cache_key i off))"

text \<open>
  The invariant of the table cache: what it holds under a number is the opened table of this
  file, and the cache of blocks, if there is one, holds blocks of such tables only. \<open>r\<close> more tables
  can be opened before the numbers of \<open>NewId\<close> repeat.
\<close>

definition table_in ::
  "(byte list \<Rightarrow> Block \<Rightarrow> bool) \<Rightarrow> block_lru Options \<Rightarrow> table_files \<Rightarrow> block_lru \<Rightarrow> u64 \<Rightarrow> block_lru Table \<Rightarrow> bool" where
  "table_in R opts td c n t \<longleftrightarrow>
     n \<in> td_live td \<and> opened opts (td_blocks td n) (td_file td n) t \<and>
     (opt_block_cache opts \<noteq> None \<longrightarrow> permits R opts (td_blocks td n) (t_cache_id t) \<and> t_cache_id t \<in> lru_issued c)"

definition tables_with ::
  "(byte list \<Rightarrow> Block \<Rightarrow> bool) \<Rightarrow> block_lru Options \<Rightarrow> table_files \<Rightarrow> nat \<Rightarrow> block_lru TableCache \<Rightarrow> bool" where
  "tables_with R opts td r tc \<longleftrightarrow>
     tc_options tc = opts \<and> lru_invar (tc_cache tc) \<and>
     (opt_block_cache opts \<noteq> None \<longrightarrow> blocks_in_order R r (tc_blocks tc)) \<and>
     (\<forall>k tf. lru_held (tc_cache tc) k tf \<longrightarrow> (\<exists>n. k = EncodeFixed64 n \<and> table_in R opts td (tc_blocks tc) n (tf_table tf)))"

definition tables_ok :: "block_lru Options \<Rightarrow> table_files \<Rightarrow> nat \<Rightarrow> block_lru TableCache \<Rightarrow> bool" where
  "tables_ok opts td r tc \<longleftrightarrow> (\<exists>R. tables_with R opts td r tc)"

text \<open>A new table cache is in order if the cache of blocks is.\<close>

lemma new_table_cache_ok:
  assumes "opt_block_cache opts \<noteq> None \<longrightarrow> blocks_in_order R r blocks"
  shows "tables_ok opts td r (NewTableCache heap dbname opts entries blocks)"
  using assms new_sharded_inv [of heap "word_of_int entries"]
  by (auto simp: tables_ok_def tables_with_def NewTableCache_def lru_invar_def lru_held_def new_sharded_map)

lemma fixed64_inj [simp]: "EncodeFixed64 a = EncodeFixed64 b \<longleftrightarrow> a = b"
  using DecodeFixed64_Encode [of a "[]"] DecodeFixed64_Encode [of b "[]"] by metis

lemma blocks_in_order_mono: "blocks_in_order R r c \<Longrightarrow> r' \<le> r \<Longrightarrow> blocks_in_order R r' c"
  by (simp add: blocks_in_order_def)

lemma tables_ok_mono:
  assumes "tables_ok opts td r tc" and "r' \<le> r"
  shows "tables_ok opts td r' tc"
proof -
  obtain R where "tables_with R opts td r tc" using assms(1) by (auto simp: tables_ok_def)
  then have "tables_with R opts td r' tc"
    using blocks_in_order_mono [of R r "tc_blocks tc" r'] assms(2) by (simp add: tables_with_def)
  then show ?thesis by (auto simp: tables_ok_def)
qed

text \<open>A new number for a new table.\<close>

lemma blocks_new_table:
  assumes b: "blocks_in_order R (Suc r) c" and i: "cache_new_id lru_cache_ops c = (i, c')"
    and h: "table_file_holds opts blocks f"
  shows "blocks_in_order (add_blocks_of opts blocks i R) r c'" and "\<forall>off b. \<not> R (cache_key i off) b"
    and "i \<notin> lru_issued c" and "lru_issued c' = insert i (lru_issued c)"
proof -
  have c: "lru_invar c" "Suc r \<le> lru_room c" "\<forall>k b. lru_held c k b \<longrightarrow> R k b"
    "\<forall>k b. R k b \<longrightarrow> (\<exists>i \<in> lru_issued c. \<exists>off. k = cache_key i off)"
    using b by (simp_all add: blocks_in_order_def)
  have f: "i \<notin> lru_issued c" "lru_issued c' = insert i (lru_issued c)" "lru_room c = Suc (lru_room c')"
    using lru.new_id_fresh [OF _ i] c(2) by auto
  note n = lru.new_id_held [OF c(1) i]
  show "i \<notin> lru_issued c" "lru_issued c' = insert i (lru_issued c)" by (fact f)+
  show "\<forall>off b. \<not> R (cache_key i off) b" using c(4) f(1) by (metis cache_key_inj)
  show "blocks_in_order (add_blocks_of opts blocks i R) r c'"
    unfolding blocks_in_order_def
  proof (intro conjI allI impI)
    show "lru_invar c'" using n by blast
    show "r \<le> lru_room c'" using c(2) f(3) by simp
    show "add_blocks_of opts blocks i R k b" if "lru_held c' k b" for k b
      using n c(3) that by (auto simp: add_blocks_of_def)
    show "\<exists>i \<in> lru_issued c'. \<exists>off. k = cache_key i off" if "add_blocks_of opts blocks i R k b" for k b
      using that c(4) f(2) unfolding add_blocks_of_def by (metis insert_iff)
  qed
qed

text \<open>\<open>FindTable\<close> comes back with the table of a file that is there.\<close>

lemma find_table:
  assumes w: "tables_with R opts td (Suc r) tc" and fo: "files_ok open_file (tc_dbname tc) opts td"
    and n: "n \<in> td_live td" and oc: "opt_block_cache opts \<in> {None, Some lru_cache_ops}"
  shows "\<exists>R' h tc' t ext. FindTable sn open_file n (live_size opts td n) tc = Some (OK, Some h, tc') \<and>
    tables_with R' opts td r tc' \<and> tc_dbname tc' = tc_dbname tc \<and> tf_table (CacheValue h (tc_cache tc')) = t \<and>
    table_in R' opts td (tc_blocks tc') n t \<and> sharded_inv ext (tc_cache tc') \<and> releasable ext h (tc_cache tc')"
proof -
  have li: "lru_invar (tc_cache tc)" and op: "tc_options tc = opts"
    and held: "\<forall>k tf. lru_held (tc_cache tc) k tf \<longrightarrow> (\<exists>n. k = EncodeFixed64 n \<and> table_in R opts td (tc_blocks tc) n (tf_table tf))"
    and bl: "opt_block_cache opts \<noteq> None \<longrightarrow> blocks_in_order R (Suc r) (tc_blocks tc)"
    using w by (simp_all add: tables_with_def)
  obtain ext where i: "sharded_inv ext (tc_cache tc)" using li by (auto simp: lru_invar_def)
  obtain h ca where l: "ShardedLookup (EncodeFixed64 n) (tc_cache tc) = (h, ca)" by fastforce
  note sl = sharded_lookup [OF i l]
  have hc: "lru_held ca k tf = lru_held (tc_cache tc) k tf" for k tf using sl(2) by (simp add: lru_held_def)
  obtain ext' where e: "sharded_inv ext' ca" "\<forall>x. h = Some x \<longrightarrow> releasable ext' x ca" using sl(1) by blast
  show ?thesis
  proof (cases h)
    case (Some x)
    let ?tc = "tc\<lparr>tc_cache := ca\<rparr>"
    have F: "FindTable sn open_file n (live_size opts td n) tc = Some (OK, Some x, ?tc)"
      using l Some by (simp add: FindTable_def)
    have "lru_held (tc_cache tc) (EncodeFixed64 n) (CacheValue x ca)" using sl(3) Some by (simp add: lru_held_def)
    then obtain m where "EncodeFixed64 n = EncodeFixed64 m" "table_in R opts td (tc_blocks tc) m (tf_table (CacheValue x ca))"
      using held by blast
    then have "table_in R opts td (tc_blocks tc) n (tf_table (CacheValue x ca))" by simp
    moreover have "tables_with R opts td r ?tc"
      using bl blocks_in_order_mono [of R "Suc r" _ r] op e(1) held hc by (auto simp: tables_with_def lru_invar_def)
    ultimately show ?thesis using F e Some by (intro exI [of _ R] exI [of _ x] exI [of _ ?tc]) auto
  next
    case None
    have of': "open_table_file open_file (tc_dbname tc) n = Inr (td_file td n)"
      and h': "table_file_holds opts (td_blocks td n) (td_file td n)" using fo n by (simp_all add: files_ok_def)
    obtain t blocks where t: "TableOpen sn opts (td_file td n) (live_size opts td n) (tc_blocks tc) = Some (Inr t, blocks)"
      "opened opts (td_blocks td n) (td_file td n) t"
      "(t_cache_id t, blocks) = (case opt_block_cache opts of Some ops \<Rightarrow> cache_new_id ops (tc_blocks tc) | None \<Rightarrow> (0, tc_blocks tc))"
      using open_table [OF h' live_size_def] by blast
    let ?tf = "\<lparr>tf_file = td_file td n, tf_table = t\<rparr>"
    obtain x ca' ext2 where ins: "ShardedInsert (EncodeFixed64 n) ?tf 1 ca = Some (x, ca')" "sharded_inv ext2 ca'" "releasable ext2 x ca'"
      "CacheValue x ca' = ?tf" "sharded_map ca' \<subseteq>\<^sub>m (sharded_map ca)(EncodeFixed64 n \<mapsto> ?tf) \<or> sharded_map ca' \<subseteq>\<^sub>m sharded_map ca"
      using sharded_insert [OF e(1), of "EncodeFixed64 n" ?tf 1] by blast
    let ?tc = "tc\<lparr>tc_blocks := blocks, tc_cache := ca'\<rparr>"
    have F: "FindTable sn open_file n (live_size opts td n) tc = Some (OK, Some x, ?tc)"
      using l None of' t(1) ins(1) by (simp add: FindTable_def Let_def op)
    have hc': "lru_held (tc_cache tc) k tf \<or> k = EncodeFixed64 n \<and> tf = ?tf" if "lru_held ca' k tf" for k tf
    proof -
      have "((sharded_map ca)(EncodeFixed64 n \<mapsto> ?tf)) k = Some tf \<or> sharded_map ca k = Some tf"
        using ins(5) that unfolding lru_held_def map_le_def by (metis domI)
      then show ?thesis using hc by (auto simp: lru_held_def split: if_splits)
    qed
    define R' where "R' = (if opt_block_cache opts = None then R else add_blocks_of opts (td_blocks td n) (t_cache_id t) R)"
    have keep: "table_in R' opts td blocks m (tf_table tf)" if "table_in R opts td (tc_blocks tc) m (tf_table tf)" for m tf
    proof (cases "opt_block_cache opts")
      case (Some ops)
      with oc t(3) bl have i: "cache_new_id lru_cache_ops (tc_blocks tc) = (t_cache_id t, blocks)"
        and b: "blocks_in_order R (Suc r) (tc_blocks tc)" by simp_all
      note nt = blocks_new_table [OF b i h']
      from that Some have m: "permits R opts (td_blocks td m) (t_cache_id (tf_table tf))" "t_cache_id (tf_table tf) \<in> lru_issued (tc_blocks tc)"
        by (simp_all add: table_in_def)
      with nt(3) have "t_cache_id (tf_table tf) \<noteq> t_cache_id t" by metis
      from permits_new(2) [OF h' nt(2) this, of opts "td_blocks td m"] m nt(4) that Some show ?thesis by (simp add: table_in_def R'_def)
    qed (use that in \<open>simp add: table_in_def\<close>)
    have new: "table_in R' opts td blocks n t \<and> (opt_block_cache opts \<noteq> None \<longrightarrow> blocks_in_order R' r blocks)"
    proof (cases "opt_block_cache opts")
      case (Some ops)
      with oc t(3) bl have i: "cache_new_id lru_cache_ops (tc_blocks tc) = (t_cache_id t, blocks)"
        and b: "blocks_in_order R (Suc r) (tc_blocks tc)" by simp_all
      note nt = blocks_new_table [OF b i h']
      from permits_new(1) [OF h' nt(2)] nt(1,4) t(2) n Some show ?thesis by (simp add: table_in_def R'_def)
    qed (use t(2) n in \<open>simp add: table_in_def\<close>)
    have "tables_with R' opts td r ?tc"
      unfolding tables_with_def
    proof (intro conjI allI impI)
      show "lru_invar (tc_cache ?tc)" using ins(2) by (auto simp: lru_invar_def)
      fix k tf assume "lru_held (tc_cache ?tc) k tf"
      then have "lru_held (tc_cache tc) k tf \<or> k = EncodeFixed64 n \<and> tf = ?tf" using hc' by simp
      then show "\<exists>n. k = EncodeFixed64 n \<and> table_in R' opts td (tc_blocks ?tc) n (tf_table tf)"
      proof
        assume "lru_held (tc_cache tc) k tf"
        then obtain m where m: "k = EncodeFixed64 m" "table_in R opts td (tc_blocks tc) m (tf_table tf)" using held by blast
        from m(1) keep [OF m(2)] show ?thesis by auto
      next
        assume "k = EncodeFixed64 n \<and> tf = ?tf"
        with new show ?thesis by auto
      qed
    qed (use op new in simp_all)
    with F ins new show ?thesis by (intro exI [of _ R'] exI [of _ x] exI [of _ ?tc]) auto
  qed
qed

text \<open>A lookup goes through the cache and finds what the table of the file has.\<close>

lemma table_cache_get:
  assumes ot: "ordered_tables c valid" and oc: "opt_comparator opts = c" and te: "ordered_tables.table_entries c valid (td_blocks td n)"
    and w: "tables_ok opts td (Suc r) tc" and fo: "files_ok open_file (tc_dbname tc) opts td"
    and n: "n \<in> td_live td" and bc: "opt_block_cache opts \<in> {None, Some lru_cache_ops}"
    and k: "valid k" and es: "es = concat (td_blocks td n)" and p: "p = seek_pos (Compare c) k es"
  shows "\<exists>arg' tc'. TableCacheGet sn open_file options n (live_size opts td n) k saver arg tc = Some (OK, arg', tc') \<and>
    tables_ok opts td r tc' \<and> tc_dbname tc' = tc_dbname tc \<and>
    (arg' = arg \<or> p < length es \<and> arg' = saver (fst (es ! p)) (snd (es ! p)) arg) \<and>
    (p < length es \<longrightarrow>
     (\<forall>e \<in> set es. Compare c (fst e) k < 0 \<longrightarrow> Compare c (FindShortestSeparator c (fst e) (fst (es ! p))) k < 0) \<longrightarrow>
     (\<forall>q. opt_filter_policy opts = Some q \<longrightarrow> filter_policy (create_filter q) (filter_may_match q) \<and>
        (\<forall>x. filter_may_match q k x = filter_may_match q (fst (es ! p)) x)) \<longrightarrow>
     arg' = saver (fst (es ! p)) (snd (es ! p)) arg)"
proof -
  obtain R where w: "tables_with R opts td (Suc r) tc" using w by (auto simp: tables_ok_def)
  obtain R' h tc1 t ext where f: "FindTable sn open_file n (live_size opts td n) tc = Some (OK, Some h, tc1)"
    "tables_with R' opts td r tc1" "tc_dbname tc1 = tc_dbname tc" "tf_table (CacheValue h (tc_cache tc1)) = t"
    "table_in R' opts td (tc_blocks tc1) n t" "sharded_inv ext (tc_cache tc1)" "releasable ext h (tc_cache tc1)"
    using find_table [OF w fo n bc, of sn] by blast
  have h: "table_file_holds opts (td_blocks td n) (td_file td n)" using fo n by (simp add: files_ok_def)
  have o: "opened opts (td_blocks td n) (td_file td n) t" using f(5) by (simp add: table_in_def)
  let ?inv = "\<lambda>c. lru_invar c \<and> lru_issued c = lru_issued (tc_blocks tc1) \<and> lru_room c = lru_room (tc_blocks tc1)"
  have cf: "cache_fits opts (td_blocks td n) t ?inv lru_held R' (tc_blocks tc1)"
    using f(2,5) bc lru.fixed_ids by (auto simp: cache_fits_def tables_with_def table_in_def blocks_in_order_def)
  obtain arg' ca' where g: "InternalGet sn t options k saver arg (tc_blocks tc1) = Some (OK, arg', ca')"
    "cache_fits opts (td_blocks td n) t ?inv lru_held R' ca'"
    "arg' = arg \<or> p < length es \<and> arg' = saver (fst (es ! p)) (snd (es ! p)) arg"
    "p < length es \<longrightarrow>
     (\<forall>e \<in> set es. Compare c (fst e) k < 0 \<longrightarrow> Compare c (FindShortestSeparator c (fst e) (fst (es ! p))) k < 0) \<longrightarrow>
     (\<forall>q. opt_filter_policy opts = Some q \<longrightarrow> filter_policy (create_filter q) (filter_may_match q) \<and>
        (\<forall>x. filter_may_match q k x = filter_may_match q (fst (es ! p)) x)) \<longrightarrow> arg' = saver (fst (es ! p)) (snd (es ! p)) arg"
    using ordered_tables.get_entry [OF ot te h o oc cf k p [unfolded es], of sn options saver arg, folded es] by blast
  let ?tc = "tc1\<lparr>tc_blocks := ca', tc_cache := ShardedRelease h (tc_cache tc1)\<rparr>"
  have G: "TableCacheGet sn open_file options n (live_size opts td n) k saver arg tc = Some (OK, arg', ?tc)"
    using f(1,4) g(1) by (simp add: TableCacheGet_def Let_def)
  note rel = sharded_release [OF f(6,7)]
  have bl: "opt_block_cache opts \<noteq> None \<longrightarrow> blocks_in_order R' r ca' \<and> lru_issued ca' = lru_issued (tc_blocks tc1)"
  proof (cases "opt_block_cache opts")
    case (Some ops)
    with f(2) have "blocks_in_order R' r (tc_blocks tc1)" by (simp add: tables_with_def)
    with g(2) Some show ?thesis unfolding cache_fits_def blocks_in_order_def by simp
  qed simp
  have "tables_with R' opts td r ?tc"
    unfolding tables_with_def
  proof (intro conjI allI impI)
    show "tc_options ?tc = opts" using f(2) by (simp add: tables_with_def)
    show "lru_invar (tc_cache ?tc)" using rel(1) by (simp add: lru_invar_def)
    show "blocks_in_order R' r (tc_blocks ?tc)" if "opt_block_cache opts \<noteq> None" using that bl by simp
    fix k tf assume "lru_held (tc_cache ?tc) k tf"
    then have "lru_held (tc_cache tc1) k tf" using rel(2) by (simp add: lru_held_def)
    with f(2) obtain m where "k = EncodeFixed64 m" "table_in R' opts td (tc_blocks tc1) m (tf_table tf)"
      unfolding tables_with_def by blast
    with bl show "\<exists>m. k = EncodeFixed64 m \<and> table_in R' opts td (tc_blocks ?tc) m (tf_table tf)"
      by (auto simp: table_in_def)
  qed
  with G f(3) g(3,4) show ?thesis by (intro exI [of _ arg'] exI [of _ ?tc]) (simp add: tables_ok_def, blast)
qed

lemma table_cache_evict_ok:
  assumes "tables_ok opts td r tc"
  shows "tables_ok opts td r (TableCacheEvict n tc)" and "\<not> lru_held (tc_cache (TableCacheEvict n tc)) (EncodeFixed64 n) tf"
proof -
  obtain R where w: "tables_with R opts td r tc" using assms by (auto simp: tables_ok_def)
  then obtain ext where "sharded_inv ext (tc_cache tc)" by (auto simp: tables_with_def lru_invar_def)
  note e = sharded_erase [OF this, of "EncodeFixed64 n"]
  have "lru_held (tc_cache (TableCacheEvict n tc)) k tf \<longleftrightarrow> lru_held (tc_cache tc) k tf \<and> k \<noteq> EncodeFixed64 n" for k tf
    using e(2) by (simp add: TableCacheEvict_def lru_held_def)
  then show "\<not> lru_held (tc_cache (TableCacheEvict n tc)) (EncodeFixed64 n) tf"
    and "tables_ok opts td r (TableCacheEvict n tc)"
    using w e(1) by (auto simp: tables_ok_def tables_with_def TableCacheEvict_def lru_invar_def intro!: exI [of _ R])
qed

end
