(* ===== verification/LDB_Version.thy ===== *)
theory LDB_Version
  imports Complex_Main LDB_TableCache LDB_MemTable LDB_VersionEdit
begin

text \<open>
  Versions (\<open>db/version_set.cc\<close>): the table files of each level, the iterator over the files of a
  level, and the search for a key: it gives what the newest entry in all the files says. Files are
  pointers into a heap of \<open>FileMetaData\<close> that versions share; the counts of references, which only
  decide when objects are freed, are left out.
\<close>

subsection \<open>Files of a level\<close>

type_synonym file_ptr = nat
type_synonym file_heap = "file_ptr \<Rightarrow> FileMetaData"

function find_file_loop :: "comparator \<Rightarrow> FileMetaData list \<Rightarrow> byte list \<Rightarrow> nat \<Rightarrow> nat \<Rightarrow> nat" where
  "find_file_loop c files key left right =
     (if left < right
      then let mid = (left + right) div 2
           in if internal_compare c (f_largest (files ! mid)) key < 0 then find_file_loop c files key (mid + 1) right
              else find_file_loop c files key left mid
      else right)"
  by pat_completeness auto
termination by (relation "measure (\<lambda>(c, files, key, left, right). right - left)") auto

declare find_file_loop.simps [simp del]

definition FindFile :: "comparator \<Rightarrow> FileMetaData list \<Rightarrow> byte list \<Rightarrow> nat" where
  "FindFile c files key = find_file_loop c files key 0 (length files)"

subsection \<open>The iterator over the files of a level\<close>

record level_file_iter =
  lf_files :: "FileMetaData list"
  lf_index :: nat

definition NewLevelFileNumIterator :: "FileMetaData list \<Rightarrow> level_file_iter" where
  "NewLevelFileNumIterator files = \<lparr>lf_files = files, lf_index = length files\<rparr>"

definition lf_valid :: "level_file_iter \<Rightarrow> bool" where
  "lf_valid it \<longleftrightarrow> lf_index it < length (lf_files it)"

definition lf_seek :: "comparator \<Rightarrow> byte list \<Rightarrow> level_file_iter \<Rightarrow> level_file_iter option" where
  "lf_seek c target it = Some (it\<lparr>lf_index := FindFile c (lf_files it) target\<rparr>)"

definition lf_first :: "level_file_iter \<Rightarrow> level_file_iter option" where
  "lf_first it = Some (it\<lparr>lf_index := 0\<rparr>)"

definition lf_last :: "level_file_iter \<Rightarrow> level_file_iter option" where
  "lf_last it = Some (it\<lparr>lf_index := (if lf_files it = [] then 0 else length (lf_files it) - 1)\<rparr>)"

definition lf_next :: "level_file_iter \<Rightarrow> level_file_iter option" where
  "lf_next it = Some (it\<lparr>lf_index := lf_index it + 1\<rparr>)"

definition lf_prev :: "level_file_iter \<Rightarrow> level_file_iter option" where
  "lf_prev it = Some (it\<lparr>lf_index := (if lf_index it = 0 then length (lf_files it) else lf_index it - 1)\<rparr>)"

definition lf_key :: "level_file_iter \<Rightarrow> byte list" where
  "lf_key it = f_largest (lf_files it ! lf_index it)"

definition lf_value :: "level_file_iter \<Rightarrow> byte list" where
  "lf_value it =
     (let f = lf_files it ! lf_index it in EncodeFixed64 (f_number f) @ EncodeFixed64 (f_file_size f))"

definition level_file_ops :: "comparator \<Rightarrow> level_file_iter iterator_ops" where
  "level_file_ops c =
     \<lparr>op_valid = lf_valid, op_key = lf_key, op_value = lf_value, op_first = lf_first, op_last = lf_last,
      op_seek = lf_seek c, op_next = lf_next, op_prev = lf_prev, op_status = (\<lambda>_. OK)\<rparr>"

text \<open>\<open>GetFileIterator\<close> opens the file that such a value names.\<close>

definition GetFileIterator ::
  "snappy \<Rightarrow> open_op \<Rightarrow> byte list \<Rightarrow> 'c TableCache \<Rightarrow>
   ((Status + 'c Table \<times> (any_iter, any_iter, 'c) two_level) \<times> 'c TableCache) option" where
  "GetFileIterator sn open_file file_value tc =
     (if length file_value \<noteq> 16 then Some (Inl (Corruption ''FileReader invoked with unexpected value''), tc)
      else TableCacheNewIterator sn open_file (DecodeFixed64 file_value) (DecodeFixed64 (drop 8 file_value)) tc)"

subsection \<open>Versions and lookups\<close>

record Version =
  v_files :: "nat \<Rightarrow> file_ptr list"
  v_file_to_compact :: "file_ptr option"
  v_file_to_compact_level :: int
  v_compaction_score :: rat
  v_compaction_level :: int

definition NewVersion :: Version where
  "NewVersion =
     \<lparr>v_files = (\<lambda>_. []), v_file_to_compact = None, v_file_to_compact_level = -1, v_compaction_score = -1,
      v_compaction_level = -1\<rparr>"

datatype SaverState = kNotFound | kFound | kDeleted | kCorrupt

record Saver =
  sv_state :: SaverState
  sv_ucmp :: comparator
  sv_user_key :: "byte list"
  sv_value :: "byte list"

definition SaveValue :: "byte list \<Rightarrow> byte list \<Rightarrow> Saver \<Rightarrow> Saver" where
  "SaveValue ikey v s =
     (case ParseInternalKey ikey of
        None \<Rightarrow> s\<lparr>sv_state := kCorrupt\<rparr>
      | Some parsed_key \<Rightarrow>
          if Compare (sv_ucmp s) (user_key parsed_key) (sv_user_key s) = 0
          then if key_type parsed_key = kTypeValue then s\<lparr>sv_state := kFound, sv_value := v\<rparr>
               else s\<lparr>sv_state := kDeleted\<rparr>
          else s)"

definition NewestFirst :: "FileMetaData \<Rightarrow> FileMetaData \<Rightarrow> bool" where
  "NewestFirst a b \<longleftrightarrow> f_number b < f_number a"

text \<open>\<open>std::sort\<close> with \<open>NewestFirst\<close>: the numbers of files differ, so that there is one result.\<close>

definition sort_newest :: "file_heap \<Rightarrow> file_ptr list \<Rightarrow> file_ptr list" where
  "sort_newest h fs = rev (sort_key (\<lambda>f. f_number (h f)) fs)"

lemma sort_newest_order:
  "sorted_wrt (\<lambda>f g. \<not> NewestFirst (h g) (h f)) (sort_newest h fs)" and "set (sort_newest h fs) = set fs"
  using sorted_sort_key [of "\<lambda>f. f_number (h f)" fs]
  by (simp_all add: sort_newest_def NewestFirst_def sorted_wrt_rev sorted_wrt_map not_less)

definition level0_files :: "comparator \<Rightarrow> file_heap \<Rightarrow> byte list \<Rightarrow> file_ptr list \<Rightarrow> file_ptr list" where
  "level0_files c h ukey files =
     sort_newest h (filter (\<lambda>f. Compare c ukey (ExtractUserKey (f_smallest (h f))) \<ge> 0 \<and>
                                Compare c ukey (ExtractUserKey (f_largest (h f))) \<le> 0) files)"

definition sorted_level_file :: "comparator \<Rightarrow> file_heap \<Rightarrow> byte list \<Rightarrow> byte list \<Rightarrow> file_ptr list \<Rightarrow> file_ptr list" where
  "sorted_level_file c h ukey ikey files =
     (let index = FindFile c (map h files) ikey
      in if length files \<le> index then []
         else if Compare c ukey (ExtractUserKey (f_smallest (h (files ! index)))) < 0 then []
         else [files ! index])"

definition files_to_search :: "comparator \<Rightarrow> file_heap \<Rightarrow> byte list \<Rightarrow> byte list \<Rightarrow> Version \<Rightarrow> nat \<Rightarrow> file_ptr list" where
  "files_to_search c h ukey ikey v level =
     (if level = 0 then level0_files c h ukey (v_files v 0)
      else sorted_level_file c h ukey ikey (v_files v level))"

text \<open>\<open>Version::Get\<close>: the statistics, the file read last, what \<open>value\<close> points to, and the table cache.\<close>

record GetStats =
  gs_seek_file :: "file_ptr option"
  gs_seek_file_level :: int

record 'c get_state =
  gt_stats :: GetStats
  gt_last :: "(file_ptr \<times> int) option"
  gt_value :: "byte list"
  gt_tables :: "'c TableCache"

definition charge_seek :: "'c get_state \<Rightarrow> 'c get_state" where
  "charge_seek g =
     (case (gt_last g, gs_seek_file (gt_stats g)) of
        (Some (f, level), None) \<Rightarrow> g\<lparr>gt_stats := \<lparr>gs_seek_file = Some f, gs_seek_file_level = level\<rparr>\<rparr>
      | _ \<Rightarrow> g)"

definition corrupted_key :: "byte list \<Rightarrow> string" where
  "corrupted_key ukey =
     ''corrupted key for '' @ (if ukey = [] then [] else '': '' @ map (\<lambda>b. char_of (unat b)) ukey)"

text \<open>The files of one level; \<open>Inl\<close> is \<open>return\<close>, \<open>Inr\<close> that the search goes on.\<close>

fun search_files ::
  "snappy \<Rightarrow> open_op \<Rightarrow> ReadOptions \<Rightarrow> comparator \<Rightarrow> file_heap \<Rightarrow> byte list \<Rightarrow> byte list \<Rightarrow> nat \<Rightarrow> file_ptr list \<Rightarrow>
   'c get_state \<Rightarrow> (Status \<times> 'c get_state + 'c get_state) option" where
  "search_files sn open_file options c h ukey ikey level [] g = Some (Inr g)"
| "search_files sn open_file options c h ukey ikey level (f # fs) g =
     (let g = (charge_seek g)\<lparr>gt_last := Some (f, int level)\<rparr>;
          saver = \<lparr>sv_state = kNotFound, sv_ucmp = c, sv_user_key = ukey, sv_value = gt_value g\<rparr>
      in Option.bind (TableCacheGet sn open_file options (f_number (h f)) (f_file_size (h f)) ikey SaveValue saver (gt_tables g))
           (\<lambda>(s, saver, tc).
           let g = g\<lparr>gt_tables := tc, gt_value := sv_value saver\<rparr>
           in if s \<noteq> OK then Some (Inl (s, g))
              else case sv_state saver of
                kNotFound \<Rightarrow> search_files sn open_file options c h ukey ikey level fs g
              | kFound \<Rightarrow> Some (Inl (s, g))
              | kDeleted \<Rightarrow> Some (Inl (NotFound [], g))
              | kCorrupt \<Rightarrow> Some (Inl (Corruption (corrupted_key ukey), g))))"

fun search_levels ::
  "snappy \<Rightarrow> open_op \<Rightarrow> ReadOptions \<Rightarrow> comparator \<Rightarrow> file_heap \<Rightarrow> byte list \<Rightarrow> byte list \<Rightarrow> Version \<Rightarrow> nat list \<Rightarrow>
   'c get_state \<Rightarrow> (Status \<times> 'c get_state + 'c get_state) option" where
  "search_levels sn open_file options c h ukey ikey v [] g = Some (Inr g)"
| "search_levels sn open_file options c h ukey ikey v (level # levels) g =
     Option.bind (search_files sn open_file options c h ukey ikey level (files_to_search c h ukey ikey v level) g) (\<lambda>r.
       case r of Inl res \<Rightarrow> Some (Inl res)
       | Inr g \<Rightarrow> search_levels sn open_file options c h ukey ikey v levels g)"

definition VersionGet ::
  "snappy \<Rightarrow> open_op \<Rightarrow> ReadOptions \<Rightarrow> comparator \<Rightarrow> file_heap \<Rightarrow> Version \<Rightarrow> lookup_key \<Rightarrow> byte list \<Rightarrow> 'c TableCache \<Rightarrow>
   (Status \<times> byte list \<times> GetStats \<times> 'c TableCache) option" where
  "VersionGet sn open_file options c h v k val tc =
     map_option (\<lambda>r. case r of
         Inl (s, g) \<Rightarrow> (s, gt_value g, gt_stats g, gt_tables g)
       | Inr g \<Rightarrow> (NotFound [], gt_value g, gt_stats g, gt_tables g))
       (search_levels sn open_file options c h (lookup_user_key k) (lookup_internal_key k) v [0..<kNumLevels]
          \<lparr>gt_stats = \<lparr>gs_seek_file = None, gs_seek_file_level = -1\<rparr>, gt_last = None, gt_value = val, gt_tables = tc\<rparr>)"

subsection \<open>Seeks\<close>

text \<open>\<open>allowed_seeks\<close> is counted down without a bound here.\<close>

definition UpdateStats :: "GetStats \<Rightarrow> file_heap \<Rightarrow> Version \<Rightarrow> bool \<times> file_heap \<times> Version" where
  "UpdateStats stats h v =
     (case gs_seek_file stats of
        None \<Rightarrow> (False, h, v)
      | Some f \<Rightarrow>
          let h = h(f := (h f)\<lparr>f_allowed_seeks := f_allowed_seeks (h f) - 1\<rparr>)
          in if f_allowed_seeks (h f) \<le> 0 \<and> v_file_to_compact v = None
             then (True, h, v\<lparr>v_file_to_compact := Some f, v_file_to_compact_level := gs_seek_file_level stats\<rparr>)
             else (False, h, v))"

text \<open>The callback of \<open>ForEachOverlapping\<close> has a state, and ends the search by \<open>False\<close>.\<close>

fun each_file :: "('a \<Rightarrow> nat \<Rightarrow> file_ptr \<Rightarrow> bool \<times> 'a) \<Rightarrow> 'a \<Rightarrow> (nat \<times> file_ptr) list \<Rightarrow> 'a" where
  "each_file func arg [] = arg"
| "each_file func arg ((level, f) # fs) =
     (let (continue, arg) = func arg level f in if continue then each_file func arg fs else arg)"

definition overlapping_files :: "comparator \<Rightarrow> file_heap \<Rightarrow> byte list \<Rightarrow> byte list \<Rightarrow> Version \<Rightarrow> (nat \<times> file_ptr) list" where
  "overlapping_files c h ukey ikey v =
     map (Pair 0) (level0_files c h ukey (v_files v 0)) @
     concat (map (\<lambda>level. map (Pair level) (sorted_level_file c h ukey ikey (v_files v level))) [1..<kNumLevels])"

definition ForEachOverlapping ::
  "comparator \<Rightarrow> file_heap \<Rightarrow> byte list \<Rightarrow> byte list \<Rightarrow> ('a \<Rightarrow> nat \<Rightarrow> file_ptr \<Rightarrow> bool \<times> 'a) \<Rightarrow> 'a \<Rightarrow> Version \<Rightarrow> 'a" where
  "ForEachOverlapping c h ukey ikey func arg v = each_file func arg (overlapping_files c h ukey ikey v)"

record sample_state =
  ss_stats :: GetStats
  ss_matches :: nat

definition Match :: "sample_state \<Rightarrow> nat \<Rightarrow> file_ptr \<Rightarrow> bool \<times> sample_state" where
  "Match state level f =
     (let state = state\<lparr>ss_matches := ss_matches state + 1\<rparr>;
          state = if ss_matches state = 1
                  then state\<lparr>ss_stats := \<lparr>gs_seek_file = Some f, gs_seek_file_level = int level\<rparr>\<rparr> else state
      in (ss_matches state < 2, state))"

text \<open>The statistics of a sample are only read after a match has set them.\<close>

definition RecordReadSample :: "comparator \<Rightarrow> byte list \<Rightarrow> file_heap \<Rightarrow> Version \<Rightarrow> bool \<times> file_heap \<times> Version" where
  "RecordReadSample c ikey h v =
     (case ParseInternalKey ikey of
        None \<Rightarrow> (False, h, v)
      | Some parsed_key \<Rightarrow>
          let state = ForEachOverlapping c h (user_key parsed_key) ikey Match
                        \<lparr>ss_stats = \<lparr>gs_seek_file = None, gs_seek_file_level = 0\<rparr>, ss_matches = 0\<rparr> v
          in if 2 \<le> ss_matches state then UpdateStats (ss_stats state) h v else (False, h, v))"

text \<open>A sample charges the first file that a lookup would search, if there is a second one.\<close>

lemma sample_matches:
  "each_file Match \<lparr>ss_stats = st, ss_matches = 0\<rparr> fs =
     (case fs of [] \<Rightarrow> \<lparr>ss_stats = st, ss_matches = 0\<rparr>
      | [(l, f)] \<Rightarrow> \<lparr>ss_stats = \<lparr>gs_seek_file = Some f, gs_seek_file_level = int l\<rparr>, ss_matches = 1\<rparr>
      | (l, f) # _ \<Rightarrow> \<lparr>ss_stats = \<lparr>gs_seek_file = Some f, gs_seek_file_level = int l\<rparr>, ss_matches = 2\<rparr>)"
  by (cases fs rule: list.exhaust; cases "tl fs") (auto simp: Match_def Let_def split: list.split)

lemma record_read_sample:
  assumes "ParseInternalKey ikey = Some p"
  shows "RecordReadSample c ikey h v =
    (case overlapping_files c h (user_key p) ikey v of
       (l, f) # _ # _ \<Rightarrow> UpdateStats \<lparr>gs_seek_file = Some f, gs_seek_file_level = int l\<rparr> h v | _ \<Rightarrow> (False, h, v))"
  using assms by (simp add: RecordReadSample_def ForEachOverlapping_def sample_matches Let_def split: list.split)

subsection \<open>The binary search\<close>

lemma find_file_loop_ok:
  assumes "\<forall>i j. i < j \<longrightarrow> j < length files \<longrightarrow> internal_compare c (f_largest (files ! j)) key < 0 \<longrightarrow>
      internal_compare c (f_largest (files ! i)) key < 0"
    and "left \<le> right" and "right \<le> length files"
    and "\<forall>i < left. internal_compare c (f_largest (files ! i)) key < 0"
    and "\<forall>i. right \<le> i \<longrightarrow> i < length files \<longrightarrow> \<not> internal_compare c (f_largest (files ! i)) key < 0"
  shows "find_file_loop c files key left right \<le> length files \<and>
    (\<forall>i < find_file_loop c files key left right. internal_compare c (f_largest (files ! i)) key < 0) \<and>
    (\<forall>i. find_file_loop c files key left right \<le> i \<longrightarrow> i < length files \<longrightarrow> \<not> internal_compare c (f_largest (files ! i)) key < 0)"
  using assms
proof (induction c files key left right rule: find_file_loop.induct)
  case (1 c files key left right)
  let ?P = "\<lambda>i. internal_compare c (f_largest (files ! i)) key < 0" and ?mid = "(left + right) div 2"
  show ?case
  proof (cases "left < right")
    case False
    with "1.prems" show ?thesis by (subst (1 2 3) find_file_loop.simps) auto
  next
    case True
    then have m: "left \<le> ?mid" "?mid < right" by auto
    then have ml: "?mid < length files" using "1.prems"(3) by simp
    show ?thesis
    proof (cases "?P ?mid")
      case P: True
      have "\<forall>i < ?mid + 1. ?P i" using "1.prems"(1) P ml by (metis less_Suc_eq Suc_eq_plus1)
      with "1.IH"(1) [OF True refl P] "1.prems" m True P show ?thesis
        by (subst (1 2 3) find_file_loop.simps) (simp add: Let_def)
    next
      case P: False
      have "\<forall>i. ?mid \<le> i \<longrightarrow> i < length files \<longrightarrow> \<not> ?P i" using "1.prems"(1) P ml by (metis le_neq_implies_less)
      with "1.IH"(2) [OF True refl P] "1.prems" m True P show ?thesis
        by (subst (1 2 3) find_file_loop.simps) (simp add: Let_def)
    qed
  qed
qed

text \<open>Files whose largest keys are in order, and the first of them that reaches a key.\<close>

definition largest_in_order :: "comparator \<Rightarrow> FileMetaData list \<Rightarrow> byte list \<Rightarrow> bool" where
  "largest_in_order c files key \<longleftrightarrow>
     sorted_wrt (\<lambda>f g. internal_compare c (f_largest g) key < 0 \<longrightarrow> internal_compare c (f_largest f) key < 0) files"

lemma FindFile_ok:
  assumes "largest_in_order c files key"
  shows "FindFile c files key \<le> length files"
    and "\<forall>i < FindFile c files key. internal_compare c (f_largest (files ! i)) key < 0"
    and "\<forall>i. FindFile c files key \<le> i \<longrightarrow> i < length files \<longrightarrow> \<not> internal_compare c (f_largest (files ! i)) key < 0"
proof -
  have "\<forall>i j. i < j \<longrightarrow> j < length files \<longrightarrow> internal_compare c (f_largest (files ! j)) key < 0 \<longrightarrow>
      internal_compare c (f_largest (files ! i)) key < 0"
    using assms by (simp add: largest_in_order_def sorted_wrt_iff_nth_less)
  from find_file_loop_ok [OF this, of 0 "length files", folded FindFile_def]
  show "FindFile c files key \<le> length files"
    and "\<forall>i < FindFile c files key. internal_compare c (f_largest (files ! i)) key < 0"
    and "\<forall>i. FindFile c files key \<le> i \<longrightarrow> i < length files \<longrightarrow> \<not> internal_compare c (f_largest (files ! i)) key < 0"
    by simp_all
qed

lemma FindFile_takeWhile:
  assumes "largest_in_order c files key"
  shows "FindFile c files key = length (takeWhile (\<lambda>f. internal_compare c (f_largest f) key < 0) files)"
proof -
  note f = FindFile_ok [OF assms]
  have "takeWhile (\<lambda>f. internal_compare c (f_largest f) key < 0) files = take (FindFile c files key) files"
    using f(2,3) by (intro takeWhile_eq_take_P_nth) blast+
  with f(1) show ?thesis by simp
qed

text \<open>The iterator over a level is an iterator on the largest keys of its files, each with its number and size.\<close>

definition file_entry :: "FileMetaData \<Rightarrow> byte list \<times> byte list" where
  "file_entry f = (f_largest f, EncodeFixed64 (f_number f) @ EncodeFixed64 (f_file_size f))"

definition level_at :: "entries \<Rightarrow> nat \<Rightarrow> level_file_iter \<Rightarrow> bool" where
  "level_at es i it \<longleftrightarrow> es = map file_entry (lf_files it) \<and> i = lf_index it \<and> lf_index it \<le> length es"

lemma FindFile_seek_pos:
  assumes "sorted_for (internal_compare c) t (map file_entry files)"
  shows "FindFile c files t = seek_pos (internal_compare c) t (map file_entry files)"
proof -
  have "largest_in_order c files t"
    using assms by (simp add: largest_in_order_def sorted_for_def sorted_wrt_map file_entry_def case_prod_unfold)
  from FindFile_takeWhile [OF this] show ?thesis
    by (simp add: seek_pos_def takeWhile_map o_def file_entry_def case_prod_unfold)
qed

interpretation level_source: iterator_impl "level_file_ops c" "internal_compare c" level_at "\<lambda>_. True" for c
proof unfold_locales
  fix es i it
  assume at: "level_at es i it"
  then have e: "es = map file_entry (lf_files it)" "i = lf_index it" "lf_index it \<le> length (lf_files it)"
    by (auto simp: level_at_def)
  note ops = level_file_ops_def iterator_ops.simps
  show "i \<le> length es" using e by simp
  show "op_valid (level_file_ops c) it = (i < length es)" using e by (simp add: ops lf_valid_def)
  show "op_key (level_file_ops c) it = fst (es ! i)" "op_value (level_file_ops c) it = snd (es ! i)" if "i < length es"
    using e that by (simp_all add: ops lf_key_def lf_value_def file_entry_def Let_def)
  show "\<exists>r. op_first (level_file_ops c) it = Some r \<and> level_at es 0 r" using e by (simp add: ops lf_first_def level_at_def)
  show "\<exists>r. op_last (level_file_ops c) it = Some r \<and> level_at es (length es - 1) r"
    using e by (simp add: ops lf_last_def level_at_def)
  show "\<exists>r. op_seek (level_file_ops c) t it = Some r \<and> level_at es (seek_pos (internal_compare c) t es) r"
    if "sorted_for (internal_compare c) t es" for t
    using e FindFile_seek_pos [OF that [unfolded e(1)]] seek_pos_le [of "internal_compare c" t es]
    by (simp add: ops lf_seek_def level_at_def)
  show "\<exists>r. op_next (level_file_ops c) it = Some r \<and> level_at es (Suc i) r" if "i < length es"
    using e that by (simp add: ops lf_next_def level_at_def)
  show "\<exists>r. op_prev (level_file_ops c) it = Some r \<and> level_at es (if i = 0 then length es else i - 1) r"
    if "i < length es" using e that by (auto simp: ops lf_prev_def level_at_def)
qed

subsection \<open>What a version holds\<close>

text \<open>
  The entries of the table files as operations with their sequence numbers, and what the metadata
  of a file says about them.
\<close>

type_synonym file_ops = "u64 \<Rightarrow> mem_op list"

definition ops_ok :: "comparator \<Rightarrow> mem_op list \<Rightarrow> bool" where
  "ops_ok c ops \<longleftrightarrow> ops \<noteq> [] \<and> (\<forall>x \<in> set ops. op_ok x) \<and> (\<forall>x \<in> set ops. \<forall>y \<in> set ops. same_slot c x y \<longrightarrow> x = y) \<and>
     in_order (internal_compare c) (map op_entry ops)"

definition table_file_ok :: "comparator \<Rightarrow> block_lru Options \<Rightarrow> table_files \<Rightarrow> file_ops \<Rightarrow> FileMetaData \<Rightarrow> bool" where
  "table_file_ok c opts td fops f \<longleftrightarrow>
     f_number f \<in> td_live td \<and> f_file_size f = live_size opts td (f_number f) \<and>
     ops_ok c (fops (f_number f)) \<and> concat (td_blocks td (f_number f)) = map op_entry (fops (f_number f)) \<and>
     [] \<notin> set (td_blocks td (f_number f)) \<and>
     f_smallest f = fst (op_entry (hd (fops (f_number f)))) \<and> f_largest f = fst (op_entry (last (fops (f_number f))))"

text \<open>The options of a database: internal keys, and a filter policy that looks at user keys.\<close>

definition db_options :: "comparator \<Rightarrow> block_lru Options \<Rightarrow> bool" where
  "db_options c opts \<longleftrightarrow>
     opt_comparator opts = InternalKeyComparator c \<and> opt_block_cache opts \<in> {None, Some lru_cache_ops} \<and>
     (\<forall>q. opt_filter_policy opts = Some q \<longrightarrow> filter_policy (create_filter q) (filter_may_match q) \<and>
        (\<forall>k k' x. ExtractUserKey k = ExtractUserKey k' \<longrightarrow> filter_may_match q k x = filter_may_match q k' x))"

lemma newest_append:
  "newest c u s (xs @ ys) =
     (case newest c u s ys of
        None \<Rightarrow> newest c u s xs
      | Some y \<Rightarrow> (case newest c u s xs of None \<Rightarrow> Some y | Some x \<Rightarrow> if fst y < fst x then Some x else Some y))"
proof (induction xs)
  case (Cons x xs)
  then show ?case
    by (cases "newest c u s ys"; cases "newest c u s xs") (auto dest: less_trans simp: not_less)
qed (auto split: option.splits)

subsection \<open>One file\<close>

context user_comparator
begin

lemma internal_sep_below:
  assumes "8 \<le> length k" and "internal_compare c e (InternalKey u s kTypeValue) < 0" and "ExtractUserKey k = u"
  shows "internal_compare c (internal_separator c e k) (InternalKey u s kTypeValue) < 0"
proof -
  let ?tmp = "FindShortestSeparator c (ExtractUserKey e) u"
  show ?thesis
  proof (cases "length ?tmp < length (ExtractUserKey e) \<and> Compare c (ExtractUserKey e) ?tmp < 0")
    case True
    have le: "Compare c (ExtractUserKey e) u \<le> 0"
      using assms(2) by (auto simp: internal_compare_cases InternalKey_eq split: if_splits)
    have "Compare c (ExtractUserKey e) u < 0"
    proof (rule ccontr)
      assume "\<not> Compare c (ExtractUserKey e) u < 0"
      then have "?tmp = ExtractUserKey e" by (intro no_room) simp_all
      with True show False by simp
    qed
    then have "Compare c ?tmp u < 0" using separates by simp
    then show ?thesis using True assms(3) by (simp add: internal_separator_def Let_def internal_compare_cases InternalKey_eq)
  next
    case False
    then have "internal_separator c e k = e" unfolding internal_separator_def Let_def assms(3) by (rule if_not_P)
    then show ?thesis using assms(2) by simp
  qed
qed

text \<open>What \<open>SaveValue\<close> makes of an entry.\<close>

lemma save_entry:
  assumes "op_ok (n, t, k, v)" and "sv_ucmp sv = c" and "sv_user_key sv = u"
  shows "SaveValue (InternalKey k n t) v sv =
    (if Compare c k u = 0 then (case t of kTypeValue \<Rightarrow> sv\<lparr>sv_state := kFound, sv_value := v\<rparr> | kTypeDeletion \<Rightarrow> sv\<lparr>sv_state := kDeleted\<rparr>)
     else sv)"
  using assms ParseInternalKey_InternalKey [of n k t] by (cases t) (simp_all add: SaveValue_def op_ok_def)

definition saved :: "get_result \<Rightarrow> Saver \<Rightarrow> Saver" where
  "saved r sv = (case r of NotPresent \<Rightarrow> sv | FoundValue v \<Rightarrow> sv\<lparr>sv_state := kFound, sv_value := v\<rparr>
     | Deleted \<Rightarrow> sv\<lparr>sv_state := kDeleted\<rparr>)"

lemma file_get:
  assumes f: "table_file_ok c opts td fops f" and op: "db_options c opts" and eq: "\<forall>a b. Compare c a b = 0 \<longrightarrow> a = b"
    and t: "tables_ok opts td (Suc r) tc" and fo: "files_ok open_file (tc_dbname tc) opts td"
    and s: "s \<le> kMaxSequenceNumber" and sv: "sv_ucmp sv = c" "sv_user_key sv = u"
  shows "\<exists>tc'. TableCacheGet sn open_file options (f_number f) (f_file_size f) (InternalKey u s kTypeValue) SaveValue sv tc =
      Some (OK, saved (outcome (newest c u s (fops (f_number f)))) sv, tc') \<and>
    tables_ok opts td r tc' \<and> tc_dbname tc' = tc_dbname tc"
proof -
  let ?ik = "InternalKey u s kTypeValue" and ?ic = "internal_compare c" and ?ops = "fops (f_number f)"
  let ?es = "map op_entry ?ops"
  define p where "p = seek_pos ?ic ?ik ?es"
  have o: "ops_ok c ?ops" and b: "concat (td_blocks td (f_number f)) = ?es" "[] \<notin> set (td_blocks td (f_number f))"
    and n: "f_number f \<in> td_live td" "f_file_size f = live_size opts td (f_number f)"
    using f by (simp_all add: table_file_ok_def)
  have io: "in_order ?ic ?es" and ok: "\<forall>x \<in> set ?ops. op_ok x"
    and slot: "\<forall>x \<in> set ?ops. \<forall>y \<in> set ?ops. same_slot c x y \<longrightarrow> x = y" using o by (simp_all add: ops_ok_def)
  have ot: "ordered_tables (InternalKeyComparator c) (\<lambda>k. 8 \<le> length k)" by (rule internal_tables)
  have oc: "opt_comparator opts = InternalKeyComparator c" and bc: "opt_block_cache opts \<in> {None, Some lru_cache_ops}"
    using op by (simp_all add: db_options_def)
  have cmp: "Compare (InternalKeyComparator c) = ?ic" "FindShortestSeparator (InternalKeyComparator c) = internal_separator c"
    by (simp_all add: InternalKeyComparator_def)
  have va: "\<forall>(k, v) \<in> set ?es. 8 \<le> length k" by (auto simp: op_entry_def InternalKey_eq)
  have te: "ordered_tables.table_entries (InternalKeyComparator c) (\<lambda>k. 8 \<le> length k) (td_blocks td (f_number f))"
    unfolding ordered_tables.table_entries_def [OF ot] b(1) cmp using io va b(2) by blast
  have ik8: "8 \<le> length ?ik" by (simp add: InternalKey_eq)
  obtain arg' tc' where g: "TableCacheGet sn open_file options (f_number f) (live_size opts td (f_number f)) ?ik SaveValue sv tc =
      Some (OK, arg', tc')" "tables_ok opts td r tc'" "tc_dbname tc' = tc_dbname tc"
    "arg' = sv \<or> p < length ?es \<and> arg' = SaveValue (fst (?es ! p)) (snd (?es ! p)) sv"
    "p < length ?es \<longrightarrow>
     (\<forall>e \<in> set ?es. ?ic (fst e) ?ik < 0 \<longrightarrow> ?ic (internal_separator c (fst e) (fst (?es ! p))) ?ik < 0) \<longrightarrow>
     (\<forall>q. opt_filter_policy opts = Some q \<longrightarrow> filter_policy (create_filter q) (filter_may_match q) \<and>
        (\<forall>x. filter_may_match q ?ik x = filter_may_match q (fst (?es ! p)) x)) \<longrightarrow>
     arg' = SaveValue (fst (?es ! p)) (snd (?es ! p)) sv"
    using table_cache_get [OF ot oc te t fo n(1) bc ik8 b(1) [symmetric] p_def [folded cmp(1)],
      of sn options SaveValue sv, unfolded cmp] by blast
  have found: "found_at c u (drop p ?es) = outcome (newest c u s ?ops)"
    using found_newest [OF io _ ok slot s, of u] unfolding p_def seek_pos_def
    by (simp add: dropWhile_eq_drop)
  have "arg' = saved (outcome (newest c u s ?ops)) sv"
  proof (cases "p < length ?es")
    case False
    with g(4) found show ?thesis by (simp add: found_at_def saved_def)
  next
    case True
    obtain m t k v where x: "?ops ! p = (m, t, k, v)" by (cases "?ops ! p")
    have xo: "op_ok (m, t, k, v)" using ok True nth_mem [of p ?ops] by (simp add: x)
    have e: "?es ! p = (InternalKey k m t, v)" using True by (simp add: x op_entry_def)
    have dp: "drop p ?es = op_entry (m, t, k, v) # drop (Suc p) ?es"
      using Cons_nth_drop_Suc [OF True] e by (simp add: op_entry_def)
    show ?thesis
    proof (cases "Compare c k u = 0")
      case ku: True
      then have k: "k = u" using eq by blast
      have "\<forall>e \<in> set ?es. ?ic (fst e) ?ik < 0 \<longrightarrow> ?ic (internal_separator c (fst e) (fst (?es ! p))) ?ik < 0"
        using internal_sep_below [of "InternalKey k m t"] by (simp add: e k InternalKey_eq)
      moreover have "\<forall>q. opt_filter_policy opts = Some q \<longrightarrow> filter_policy (create_filter q) (filter_may_match q) \<and>
        (\<forall>x. filter_may_match q ?ik x = filter_may_match q (fst (?es ! p)) x)"
        using op unfolding db_options_def e k by (simp add: InternalKey_eq)
      ultimately have "arg' = SaveValue (InternalKey k m t) v sv" using g(5) True by (simp add: e)
      moreover have "outcome (newest c u s ?ops) = outcome (Some (m, t, k, v))" using found found_op [OF xo ku] by (simp add: dp)
      ultimately show ?thesis using save_entry [OF xo sv] ku by (cases t) (simp_all add: saved_def)
    next
      case False
      then have "SaveValue (InternalKey k m t) v sv = sv" using save_entry [OF xo sv] by simp
      with g(4) have "arg' = sv" by (auto simp: e)
      moreover have "outcome (newest c u s ?ops) = NotPresent"
        using found [unfolded dp] False by (simp add: found_at_def op_entry_def InternalKey_eq)
      ultimately show ?thesis by (simp add: saved_def)
    qed
  qed
  with g(1-3) n(2) show ?thesis by auto
qed

end

subsection \<open>All files\<close>

definition newer_first :: "comparator \<Rightarrow> mem_op list list \<Rightarrow> bool" where
  "newer_first c opss \<longleftrightarrow>
     sorted_wrt (\<lambda>xs ys. \<forall>x \<in> set xs. \<forall>y \<in> set ys. Compare c (fst (snd (snd x))) (fst (snd (snd y))) = 0 \<longrightarrow> fst y < fst x) opss"

text \<open>The newest file first.\<close>

definition newest_files :: "file_heap \<Rightarrow> file_ptr list \<Rightarrow> file_ptr list" where
  "newest_files h fs = rev (sort_key (\<lambda>f. f_number (h f)) fs)"

text \<open>The order in which a lookup goes through the files: level 0 from the newest file on, then the levels.\<close>

definition search_order :: "file_heap \<Rightarrow> Version \<Rightarrow> file_ptr list" where
  "search_order h v = newest_files h (v_files v 0) @ concat (map (v_files v) [1..<kNumLevels])"

definition ops_of :: "file_ops \<Rightarrow> file_heap \<Rightarrow> file_ptr list \<Rightarrow> mem_op list list" where
  "ops_of fops h fs = map (\<lambda>f. fops (f_number (h f))) fs"

lemma ops_of_simps [simp]:
  "ops_of fops h [] = []" "ops_of fops h (f # fs) = fops (f_number (h f)) # ops_of fops h fs"
  "ops_of fops h (fs @ gs) = ops_of fops h fs @ ops_of fops h gs"
  by (simp_all add: ops_of_def)

text \<open>Levels above 0 have their files in order, with no overlap.\<close>

definition level_in_order :: "comparator \<Rightarrow> FileMetaData list \<Rightarrow> bool" where
  "level_in_order c files \<longleftrightarrow> sorted_wrt (\<lambda>f g. internal_compare c (f_largest f) (f_smallest g) < 0) files"

definition version_ok :: "comparator \<Rightarrow> block_lru Options \<Rightarrow> table_files \<Rightarrow> file_ops \<Rightarrow> file_heap \<Rightarrow> Version \<Rightarrow> bool" where
  "version_ok c opts td fops h v \<longleftrightarrow>
     (\<forall>level < kNumLevels. \<forall>f \<in> set (v_files v level). table_file_ok c opts td fops (h f)) \<and>
     (\<forall>level. 0 < level \<longrightarrow> level < kNumLevels \<longrightarrow> level_in_order c (map h (v_files v level))) \<and>
     newer_first c (ops_of fops h (search_order h v))"

context user_comparator
begin

lemma newest_first:
  assumes "\<forall>x \<in> set xs. \<forall>y \<in> set ys. Compare c (fst (snd (snd x))) (fst (snd (snd y))) = 0 \<longrightarrow> fst y < fst x"
  shows "newest c u s (xs @ ys) = (case newest c u s xs of None \<Rightarrow> newest c u s ys | Some x \<Rightarrow> Some x)"
proof (cases "newest c u s xs")
  case (Some x)
  show ?thesis
  proof (cases "newest c u s ys")
    case (Some y)
    from newest_Some [OF \<open>newest c u s xs = Some x\<close>] newest_Some [OF Some]
    have "x \<in> set xs" "y \<in> set ys" "Compare c (fst (snd (snd x))) u = 0" "Compare c (fst (snd (snd y))) u = 0"
      by (auto simp: visible_op_def split: prod.splits)
    moreover then have "Compare c (fst (snd (snd x))) (fst (snd (snd y))) = 0"
      using eq_trans [of _ u] swap_eq by simp
    ultimately have "fst y < fst x" using assms by blast
    then show ?thesis by (simp add: newest_append Some \<open>newest c u s xs = Some x\<close>)
  qed (simp add: newest_append Some)
qed (simp add: newest_append split: option.splits)

lemma newest_concat:
  assumes "newer_first c (xs # xss)"
  shows "newest c u s (concat (xs # xss)) = (case newest c u s xs of None \<Rightarrow> newest c u s (concat xss) | Some x \<Rightarrow> Some x)"
  using assms newest_first [of xs "concat xss" u s] by (fastforce simp: newer_first_def)

text \<open>Files without an entry that the reader sees can be left out.\<close>

lemma newest_filter:
  assumes "newer_first c (ops_of fops h fs)" and "\<forall>f \<in> set fs. \<not> Q f \<longrightarrow> newest c u s (fops (f_number (h f))) = None"
  shows "newest c u s (concat (ops_of fops h (filter Q fs))) = newest c u s (concat (ops_of fops h fs))"
    and "newer_first c (ops_of fops h (filter Q fs))"
proof -
  have n: "newer_first c (ops_of fops h (filter Q fs))" if "newer_first c (ops_of fops h fs)" for fs
    using that by (auto simp: newer_first_def ops_of_def sorted_wrt_map intro: sorted_wrt_filter)
  show "newest c u s (concat (ops_of fops h (filter Q fs))) = newest c u s (concat (ops_of fops h fs))"
    using assms
  proof (induction fs)
    case (Cons f fs)
    have nf: "newer_first c (ops_of fops h fs)" using Cons.prems(1) by (simp add: newer_first_def)
    note IH = Cons.IH [OF nf] and cc = newest_concat [OF Cons.prems(1) [unfolded ops_of_simps]]
    show ?case
    proof (cases "Q f")
      case True
      have "newer_first c (fops (f_number (h f)) # ops_of fops h (filter Q fs))"
        using n [OF Cons.prems(1)] True by simp
      from newest_concat [OF this, of u s] cc [of u s] IH Cons.prems(2) True show ?thesis by (simp split: option.split)
    next
      case False
      with cc [of u s] IH Cons.prems(2) show ?thesis by simp
    qed
  qed simp
  show "newer_first c (ops_of fops h (filter Q fs))" by (rule n [OF assms(1)])
qed

end

subsection \<open>The search\<close>

context user_comparator
begin

text \<open>What a reader gets from the files, in order.\<close>

lemma search_files_ok:
  assumes "\<forall>f \<in> set fs. table_file_ok c opts td fops (h f)" and "newer_first c (ops_of fops h fs)"
    and "tables_ok opts td (length fs + r) (gt_tables g)" and "files_ok open_file (tc_dbname (gt_tables g)) opts td"
    and op: "db_options c opts" and eq: "\<forall>a b. Compare c a b = 0 \<longrightarrow> a = b" and s: "s \<le> kMaxSequenceNumber"
  shows "\<exists>g'. search_files sn open_file options c h u (InternalKey u s kTypeValue) level fs g =
      Some (case outcome (newest c u s (concat (ops_of fops h fs))) of
        NotPresent \<Rightarrow> Inr g' | FoundValue v \<Rightarrow> Inl (OK, g') | Deleted \<Rightarrow> Inl (NotFound [], g')) \<and>
    tables_ok opts td r (gt_tables g') \<and> tc_dbname (gt_tables g') = tc_dbname (gt_tables g) \<and>
    gt_value g' = (case outcome (newest c u s (concat (ops_of fops h fs))) of FoundValue v \<Rightarrow> v | _ \<Rightarrow> gt_value g)"
  using assms(1-4)
proof (induction fs arbitrary: g)
  case Nil
  then show ?case by simp
next
  case (Cons f fs)
  define g1 where "g1 = (charge_seek g)\<lparr>gt_last := Some (f, int level)\<rparr>"
  have g1: "gt_tables g1 = gt_tables g" "gt_value g1 = gt_value g"
    by (simp_all add: g1_def charge_seek_def split: option.splits)
  let ?sv = "\<lparr>sv_state = kNotFound, sv_ucmp = c, sv_user_key = u, sv_value = gt_value g1\<rparr>"
  let ?r = "outcome (newest c u s (fops (f_number (h f))))"
  have fo: "table_file_ok c opts td fops (h f)" using Cons.prems(1) by simp
  have t: "tables_ok opts td (Suc (length fs + r)) (gt_tables g1)" using Cons.prems(3) g1 by simp
  have fo': "files_ok open_file (tc_dbname (gt_tables g1)) opts td" using Cons.prems(4) g1 by simp
  obtain tc' where G: "TableCacheGet sn open_file options (f_number (h f)) (f_file_size (h f)) (InternalKey u s kTypeValue) SaveValue ?sv (gt_tables g1) =
      Some (OK, saved ?r ?sv, tc')" "tables_ok opts td (length fs + r) tc'" "tc_dbname tc' = tc_dbname (gt_tables g1)"
    using file_get [OF fo op eq t fo' s, of ?sv u sn options] by auto
  let ?g = "g1\<lparr>gt_tables := tc', gt_value := sv_value (saved ?r ?sv)\<rparr>"
  have nc: "newest c u s (concat (ops_of fops h (f # fs))) =
      (case newest c u s (fops (f_number (h f))) of None \<Rightarrow> newest c u s (concat (ops_of fops h fs)) | Some x \<Rightarrow> Some x)"
    using newest_concat Cons.prems(2) by simp
  have S: "search_files sn open_file options c h u (InternalKey u s kTypeValue) level (f # fs) g =
      (case ?r of NotPresent \<Rightarrow> search_files sn open_file options c h u (InternalKey u s kTypeValue) level fs ?g
       | FoundValue v \<Rightarrow> Some (Inl (OK, ?g)) | Deleted \<Rightarrow> Some (Inl (NotFound [], ?g)))"
    using G(1) by (simp add: g1_def [symmetric] Let_def saved_def split: get_result.split)
  show ?case
  proof (cases "newest c u s (fops (f_number (h f)))")
    case (Some x)
    then have n: "newest c u s (concat (ops_of fops h (f # fs))) = Some x" using nc by simp
    have t': "tables_ok opts td r tc'" using G(2) tables_ok_mono by (metis le_add2)
    obtain m t k v where x: "x = (m, t, k, v)" by (cases x)
    show ?thesis
      unfolding S n Some x by (cases t) (simp_all add: t' G(3) g1 saved_def)
  next
    case None
    have nf: "newer_first c (ops_of fops h fs)" using Cons.prems(2) by (simp add: newer_first_def)
    have v: "gt_value ?g = gt_value g" using None g1 by (simp add: saved_def)
    have "tables_ok opts td (length fs + r) (gt_tables ?g)" "files_ok open_file (tc_dbname (gt_tables ?g)) opts td"
      using G(2,3) fo' by simp_all
    note IH = Cons.IH [OF _ nf this]
    have n: "newest c u s (concat (ops_of fops h (f # fs))) = newest c u s (concat (ops_of fops h fs))" using nc None by simp
    obtain g' where "search_files sn open_file options c h u (InternalKey u s kTypeValue) level fs ?g =
      Some (case outcome (newest c u s (concat (ops_of fops h fs))) of
        NotPresent \<Rightarrow> Inr g' | FoundValue v \<Rightarrow> Inl (OK, g') | Deleted \<Rightarrow> Inl (NotFound [], g'))"
      "tables_ok opts td r (gt_tables g')" "tc_dbname (gt_tables g') = tc_dbname (gt_tables ?g)"
      "gt_value g' = (case outcome (newest c u s (concat (ops_of fops h fs))) of FoundValue v \<Rightarrow> v | _ \<Rightarrow> gt_value ?g)"
      using IH Cons.prems(1) by (meson list.set_intros(2))
    then show ?thesis unfolding S n unfolding None by (intro exI [of _ g']) (simp add: G(3) g1 saved_def cong: get_result.case_cong)
  qed
qed

end

subsection \<open>The files that are searched\<close>

lemma sorted_wrt_ends:
  assumes "sorted_wrt P xs" and "x \<in> set xs"
  shows "x = hd xs \<or> P (hd xs) x" and "x = last xs \<or> P x (last xs)"
proof -
  show "x = hd xs \<or> P (hd xs) x" using assms by (cases xs) auto
  show "x = last xs \<or> P x (last xs)"
    using assms by (cases xs rule: rev_cases) (auto simp: sorted_wrt_append)
qed

context user_comparator
begin

abbreviation io_less :: "byte list \<Rightarrow> byte list \<Rightarrow> bool" where
  "io_less a b \<equiv> internal_compare c a b < 0"

lemma user_le: "internal_compare c a b \<le> 0 \<Longrightarrow> Compare c (ExtractUserKey a) (ExtractUserKey b) \<le> 0"
  by (auto simp: internal_compare_cases split: if_splits)

text \<open>The range of a file.\<close>

lemma file_range:
  assumes f: "table_file_ok c opts td fops f" and x: "(n, t, k, v) \<in> set (fops (f_number f))"
  shows "internal_compare c (f_smallest f) (InternalKey k n t) \<le> 0" and "internal_compare c (InternalKey k n t) (f_largest f) \<le> 0"
    and "Compare c (ExtractUserKey (f_smallest f)) k \<le> 0" and "Compare c k (ExtractUserKey (f_largest f)) \<le> 0"
proof -
  let ?ops = "fops (f_number f)"
  have "sorted_wrt (\<lambda>x y. internal_compare c (fst x) (fst y) < 0) (map op_entry ?ops)"
    using f by (simp add: table_file_ok_def ops_ok_def in_order_def case_prod_unfold)
  moreover have "op_entry (n, t, k, v) \<in> set (map op_entry ?ops)" using x by simp
  ultimately have "op_entry (n, t, k, v) = hd (map op_entry ?ops) \<or> io_less (fst (hd (map op_entry ?ops))) (fst (op_entry (n, t, k, v)))"
    "op_entry (n, t, k, v) = last (map op_entry ?ops) \<or> io_less (fst (op_entry (n, t, k, v))) (fst (last (map op_entry ?ops)))"
    by (rule sorted_wrt_ends)+
  moreover have "?ops \<noteq> []" using x by auto
  then have "fst (hd (map op_entry ?ops)) = f_smallest f" "fst (last (map op_entry ?ops)) = f_largest f"
    using f by (simp_all add: table_file_ok_def hd_map last_map)
  moreover have "fst (op_entry (n, t, k, v)) = InternalKey k n t" by (simp add: op_entry_def)
  ultimately have "f_smallest f = InternalKey k n t \<or> io_less (f_smallest f) (InternalKey k n t)"
    "f_largest f = InternalKey k n t \<or> io_less (InternalKey k n t) (f_largest f)" by metis+
  then show r: "internal_compare c (f_smallest f) (InternalKey k n t) \<le> 0" "internal_compare c (InternalKey k n t) (f_largest f) \<le> 0"
    using key_order.refl0 [OF internal_order [OF user_comparator_axioms]] by auto
  from user_le [OF r(1)] user_le [OF r(2)]
  show "Compare c (ExtractUserKey (f_smallest f)) k \<le> 0" "Compare c k (ExtractUserKey (f_largest f)) \<le> 0"
    by (simp_all add: InternalKey_eq)
qed

text \<open>Files that have nothing for a reader.\<close>

lemma nothing_outside:
  assumes f: "table_file_ok c opts td fops f"
    and "Compare c u (ExtractUserKey (f_smallest f)) < 0 \<or> 0 < Compare c u (ExtractUserKey (f_largest f))"
  shows "newest c u s (fops (f_number f)) = None"
  unfolding newest_None
proof
  fix x assume x: "x \<in> set (fops (f_number f))"
  obtain n t k v where e: "x = (n, t, k, v)" by (cases x)
  note r = file_range(3,4) [OF f x [unfolded e]]
  have "Compare c k u \<noteq> 0"
  proof
    assume z: "Compare c k u = 0"
    then have "Compare c u k = 0" using swap_eq by simp
    with z r have "Compare c (ExtractUserKey (f_smallest f)) u \<le> 0" "Compare c u (ExtractUserKey (f_largest f)) \<le> 0"
      using trans_le [of "ExtractUserKey (f_smallest f)" k u] trans_le [of u k "ExtractUserKey (f_largest f)"] by simp_all
    with assms(2) show False using swap [of u "ExtractUserKey (f_smallest f)"] by simp
  qed
  then show "\<not> visible_op c u s x" by (simp add: e visible_op_def)
qed

lemma nothing_before:
  assumes f: "table_file_ok c opts td fops f" and "io_less (f_largest f) (InternalKey u s kTypeValue)" and s: "s \<le> kMaxSequenceNumber"
  shows "newest c u s (fops (f_number f)) = None"
  unfolding newest_None
proof
  fix x assume x: "x \<in> set (fops (f_number f))"
  obtain n t k v where e: "x = (n, t, k, v)" by (cases x)
  have ok: "op_ok (n, t, k, v)" using f x e by (simp add: table_file_ok_def ops_ok_def)
  have "io_less (InternalKey k n t) (InternalKey u s kTypeValue)"
    using key_order.le_less_trans [OF internal_order [OF user_comparator_axioms] _ _ _ file_range(2) [OF f x [unfolded e]] assms(2)]
    by simp
  then show "\<not> visible_op c u s x" using op_below [OF s ok] by (auto simp: e visible_op_def)
qed

text \<open>A file that reaches the sought key: it has something for the reader, or its largest key is a larger one.\<close>

lemma beyond:
  assumes f: "table_file_ok c opts td fops f" and "\<not> io_less (f_largest f) (InternalKey u s kTypeValue)" and s: "s \<le> kMaxSequenceNumber"
    and n: "newest c u s (fops (f_number f)) = None"
  shows "Compare c u (ExtractUserKey (f_largest f)) < 0"
proof -
  let ?x = "last (fops (f_number f))"
  obtain m t k v where e: "?x = (m, t, k, v)" by (cases ?x)
  have x: "(m, t, k, v) \<in> set (fops (f_number f))" using f last_in_set [of "fops (f_number f)"] e by (simp add: table_file_ok_def ops_ok_def)
  have l: "f_largest f = InternalKey k m t" using f by (simp add: table_file_ok_def e op_entry_def)
  have ok: "op_ok (m, t, k, v)" using f x by (simp add: table_file_ok_def ops_ok_def)
  have "\<not> visible_op c u s (m, t, k, v)" using n x by (simp add: newest_None)
  then have "Compare c k u \<noteq> 0 \<or> s < m" by (auto simp: visible_op_def)
  moreover have "\<not> (Compare c k u < 0 \<or> Compare c k u = 0 \<and> s < m)"
    using assms(2) unfolding l op_below [OF s ok] .
  ultimately have "0 < Compare c k u" by linarith
  then have "Compare c u k < 0" using swap [of u k] by simp
  then show ?thesis by (simp add: l InternalKey_eq)
qed

lemma newest_skip: "newest c u s ys = None \<Longrightarrow> newest c u s (xs @ ys) = newest c u s xs"
  "newest c u s xs = None \<Longrightarrow> newest c u s (xs @ ys) = newest c u s ys"
  by (simp_all add: newest_append split: option.split)

lemma nothing_in: "\<forall>f \<in> set fs. newest c u s (fops (f_number (h f))) = None \<Longrightarrow> newest c u s (concat (ops_of fops h fs)) = None"
  by (induction fs) (simp_all add: newest_skip)

text \<open>Level 0: the files whose range has the key, the newest first.\<close>

lemma level0_ok:
  assumes "\<forall>f \<in> set fs. table_file_ok c opts td fops (h f)" and nf: "newer_first c (ops_of fops h (newest_files h fs))"
  shows "newest c u s (concat (ops_of fops h (level0_files c h u fs))) = newest c u s (concat (ops_of fops h (newest_files h fs)))"
    and "newer_first c (ops_of fops h (level0_files c h u fs))"
proof -
  let ?Q = "\<lambda>f. Compare c u (ExtractUserKey (f_smallest (h f))) \<ge> 0 \<and> Compare c u (ExtractUserKey (f_largest (h f))) \<le> 0"
  have e: "level0_files c h u fs = filter ?Q (newest_files h fs)"
    by (simp add: level0_files_def sort_newest_def newest_files_def filter_sort rev_filter [symmetric])
  have "\<forall>f \<in> set (newest_files h fs). \<not> ?Q f \<longrightarrow> newest c u s (fops (f_number (h f))) = None"
    using assms(1) nothing_outside by (auto simp: newest_files_def not_le)
  from newest_filter [OF nf this]
  show "newest c u s (concat (ops_of fops h (level0_files c h u fs))) = newest c u s (concat (ops_of fops h (newest_files h fs)))"
    and "newer_first c (ops_of fops h (level0_files c h u fs))" by (simp_all only: e)
qed

lemma level_largest_in_order:
  assumes "level_in_order c files" and "\<forall>f \<in> set files. table_file_ok c opts td fops f"
  shows "largest_in_order c files key"
  unfolding largest_in_order_def
proof (rule sorted_wrt_mono_rel [OF _ assms(1) [unfolded level_in_order_def]])
  fix f g assume fg: "f \<in> set files" "g \<in> set files" "io_less (f_largest f) (f_smallest g)"
  let ?x = "hd (fops (f_number g))"
  obtain m t k v where e: "?x = (m, t, k, v)" by (cases ?x)
  have g: "table_file_ok c opts td fops g" using assms(2) fg(2) by blast
  then have x: "(m, t, k, v) \<in> set (fops (f_number g))" using hd_in_set [of "fops (f_number g)"] e by (simp add: table_file_ok_def ops_ok_def)
  have sm: "f_smallest g = InternalKey k m t" using g by (simp add: table_file_ok_def e op_entry_def)
  note o = internal_order [OF user_comparator_axioms]
  have "io_less (f_largest f) (f_largest g)"
    using key_order.less_le_trans [OF o _ _ _ fg(3) file_range(2) [OF g x, folded sm]] by simp
  then show "io_less (f_largest g) key \<longrightarrow> io_less (f_largest f) key"
    using key_order.less_le_trans [OF o, of "f_largest f" "f_largest g" key] by simp
qed

text \<open>A file behind one that ends above a key has nothing for it.\<close>

lemma nothing_behind:
  assumes g: "table_file_ok c opts td fops g" and "io_less (f_largest f) (f_smallest g)"
    and "Compare c u (ExtractUserKey (f_largest f)) < 0"
  shows "newest c u s (fops (f_number g)) = None"
proof (rule nothing_outside [OF g])
  have "Compare c (ExtractUserKey (f_largest f)) (ExtractUserKey (f_smallest g)) \<le> 0" using user_le assms(2) by simp
  then show "Compare c u (ExtractUserKey (f_smallest g)) < 0 \<or> 0 < Compare c u (ExtractUserKey (f_largest g))"
    using less_le_trans assms(3) by blast
qed

text \<open>A level above 0: the first file that reaches the sought key, unless it begins above the key.\<close>

lemma level_ok:
  assumes ok: "\<forall>f \<in> set fs. table_file_ok c opts td fops (h f)" and lo: "level_in_order c (map h fs)"
    and nf: "newer_first c (ops_of fops h fs)" and s: "s \<le> kMaxSequenceNumber"
  shows "newest c u s (concat (ops_of fops h (sorted_level_file c h u (InternalKey u s kTypeValue) fs))) =
    newest c u s (concat (ops_of fops h fs))"
    and "newer_first c (ops_of fops h (sorted_level_file c h u (InternalKey u s kTypeValue) fs))"
proof -
  let ?ik = "InternalKey u s kTypeValue"
  define i where "i = FindFile c (map h fs) ?ik"
  have "largest_in_order c (map h fs) ?ik" using level_largest_in_order [OF lo] ok by simp
  note ff = FindFile_ok [OF this, folded i_def, simplified]
  show "newer_first c (ops_of fops h (sorted_level_file c h u ?ik fs))"
    by (simp add: sorted_level_file_def newer_first_def Let_def)
  have pre: "newest c u s (concat (ops_of fops h (take i fs))) = None"
  proof (rule nothing_in, rule ballI)
    fix f assume "f \<in> set (take i fs)"
    then obtain j where j: "j < i" "j < length fs" "f = fs ! j" by (auto simp: in_set_conv_nth)
    then have "io_less (f_largest (h f)) ?ik" using ff(2) [rule_format, OF j(1)] by simp
    moreover have "table_file_ok c opts td fops (h f)" using ok j by simp
    ultimately show "newest c u s (fops (f_number (h f))) = None" using nothing_before s by blast
  qed
  show "newest c u s (concat (ops_of fops h (sorted_level_file c h u ?ik fs))) = newest c u s (concat (ops_of fops h fs))"
  proof (cases "length fs \<le> i")
    case True
    then show ?thesis using pre by (simp add: sorted_level_file_def i_def [symmetric] Let_def)
  next
    case False
    let ?f = "fs ! i" and ?post = "drop (Suc i) fs"
    have split: "fs = take i fs @ ?f # ?post" using False id_take_nth_drop [of i fs] by simp
    have f: "table_file_ok c opts td fops (h ?f)" using ok False by simp
    have all: "newest c u s (concat (ops_of fops h fs)) = newest c u s (fops (f_number (h ?f)) @ concat (ops_of fops h ?post))"
      by (subst split) (simp add: newest_skip(2) [OF pre])
    have behind: "newest c u s (concat (ops_of fops h ?post)) = None" if "Compare c u (ExtractUserKey (f_largest (h ?f))) < 0"
    proof (rule nothing_in, rule ballI)
      fix g assume "g \<in> set ?post"
      then obtain j where j: "j < length fs - Suc i" "g = fs ! (Suc i + j)" by (auto simp: in_set_conv_nth)
      have "io_less (f_largest (h ?f)) (f_smallest (h g))"
        using lo j by (auto simp: level_in_order_def sorted_wrt_iff_nth_less)
      moreover have "table_file_ok c opts td fops (h g)" using ok j by simp
      ultimately show "newest c u s (fops (f_number (h g))) = None" using nothing_behind that by blast
    qed
    show ?thesis
    proof (cases "Compare c u (ExtractUserKey (f_smallest (h ?f))) < 0")
      case True
      have "fops (f_number (h ?f)) \<noteq> []" using f by (simp add: table_file_ok_def ops_ok_def)
      then obtain n t k v where x: "(n, t, k, v) \<in> set (fops (f_number (h ?f)))" by (metis list.set_sel(1) prod_cases4)
      have "Compare c (ExtractUserKey (f_smallest (h ?f))) (ExtractUserKey (f_largest (h ?f))) \<le> 0"
        using trans_le file_range(3,4) [OF f x] by blast
      with True have "Compare c u (ExtractUserKey (f_largest (h ?f))) < 0" using less_le_trans by blast
      with behind nothing_outside [OF f] True all False show ?thesis
        by (simp add: sorted_level_file_def i_def [symmetric] Let_def newest_skip)
    next
      case first: False
      have nfp: "newer_first c (ops_of fops h (?f # ?post))"
        using nf by (subst (asm) split) (simp add: newer_first_def sorted_wrt_append)
      show ?thesis
      proof (cases "newest c u s (fops (f_number (h ?f)))")
        case None
        have "\<not> io_less (f_largest (h ?f)) ?ik" using ff(3) False by simp
        from behind [OF beyond [OF f this s None]] all False first show ?thesis
          by (simp add: sorted_level_file_def i_def [symmetric] Let_def newest_skip)
      next
        case (Some x)
        from newest_concat [OF nfp [unfolded ops_of_simps], of u s] all Some False first show ?thesis
          by (simp add: sorted_level_file_def i_def [symmetric] Let_def)
      qed
    qed
  qed
qed

end

subsection \<open>A lookup\<close>

lemma newer_first_append:
  "newer_first c (xss @ yss) \<Longrightarrow> newer_first c xss" "newer_first c (xss @ yss) \<Longrightarrow> newer_first c yss"
  by (simp_all add: newer_first_def sorted_wrt_append)

lemma newer_first_across:
  "newer_first c (xss @ yss) \<Longrightarrow>
   \<forall>x \<in> set (concat xss). \<forall>y \<in> set (concat yss). Compare c (fst (snd (snd x))) (fst (snd (snd y))) = 0 \<longrightarrow> fst y < fst x"
  by (fastforce simp: newer_first_def sorted_wrt_append)

text \<open>The files of a level in the order of the search.\<close>

definition level_order :: "file_heap \<Rightarrow> Version \<Rightarrow> nat \<Rightarrow> file_ptr list" where
  "level_order h v level = (if level = 0 then newest_files h (v_files v 0) else v_files v level)"

text \<open>How many files the levels have: each may be opened, and each opened file takes a new number.\<close>

definition files_in :: "Version \<Rightarrow> nat list \<Rightarrow> nat" where
  "files_in v levels = sum_list (map (\<lambda>l. length (v_files v l)) levels)"

context user_comparator
begin

lemma files_to_search_ok:
  fixes u :: "byte list"
  assumes "\<forall>f \<in> set (v_files v level). table_file_ok c opts td fops (h f)"
    and "0 < level \<longrightarrow> level_in_order c (map h (v_files v level))"
    and "newer_first c (ops_of fops h (level_order h v level))" and "s \<le> kMaxSequenceNumber"
  defines "fs \<equiv> files_to_search c h u (InternalKey u s kTypeValue) v level"
  shows "newest c u s (concat (ops_of fops h fs)) = newest c u s (concat (ops_of fops h (level_order h v level)))"
    and "newer_first c (ops_of fops h fs)" and "set fs \<subseteq> set (v_files v level)" and "length fs \<le> length (v_files v level)"
proof -
  have "newest c u s (concat (ops_of fops h fs)) = newest c u s (concat (ops_of fops h (level_order h v level))) \<and>
    newer_first c (ops_of fops h fs)"
    using assms(1-4) level0_ok [of "v_files v 0"] level_ok [of "v_files v level"]
    by (cases "level = 0") (simp_all add: fs_def files_to_search_def level_order_def)
  then show "newest c u s (concat (ops_of fops h fs)) = newest c u s (concat (ops_of fops h (level_order h v level)))"
    and "newer_first c (ops_of fops h fs)" by blast+
  show "set fs \<subseteq> set (v_files v level)" "length fs \<le> length (v_files v level)"
    by (auto simp: fs_def files_to_search_def level0_files_def sort_newest_def newest_files_def sorted_level_file_def Let_def
        split: if_splits)
qed

lemma search_levels_ok:
  assumes "\<forall>l \<in> set levels. \<forall>f \<in> set (v_files v l). table_file_ok c opts td fops (h f)"
    and "\<forall>l \<in> set levels. 0 < l \<longrightarrow> level_in_order c (map h (v_files v l))"
    and "newer_first c (ops_of fops h (concat (map (level_order h v) levels)))"
    and "tables_ok opts td (files_in v levels + r) (gt_tables g)" and "files_ok open_file (tc_dbname (gt_tables g)) opts td"
    and op: "db_options c opts" and eq: "\<forall>a b. Compare c a b = 0 \<longrightarrow> a = b" and s: "s \<le> kMaxSequenceNumber"
  shows "\<exists>g'. search_levels sn open_file options c h u (InternalKey u s kTypeValue) v levels g =
      Some (case outcome (newest c u s (concat (ops_of fops h (concat (map (level_order h v) levels))))) of
        NotPresent \<Rightarrow> Inr g' | FoundValue v \<Rightarrow> Inl (OK, g') | Deleted \<Rightarrow> Inl (NotFound [], g')) \<and>
    tables_ok opts td r (gt_tables g') \<and> tc_dbname (gt_tables g') = tc_dbname (gt_tables g) \<and>
    gt_value g' = (case outcome (newest c u s (concat (ops_of fops h (concat (map (level_order h v) levels))))) of
      FoundValue v \<Rightarrow> v | _ \<Rightarrow> gt_value g)"
  using assms(1-5)
proof (induction levels arbitrary: g)
  case Nil
  then show ?case by (simp add: files_in_def ops_of_def)
next
  case (Cons l ls)
  let ?ik = "InternalKey u s kTypeValue" and ?os = "ops_of fops h (level_order h v l)"
    and ?os' = "ops_of fops h (concat (map (level_order h v) ls))"
  let ?fs = "files_to_search c h u ?ik v l"
  have nf: "newer_first c (?os @ ?os')" using Cons.prems(3) by simp
  note fsok = files_to_search_ok [OF _ _ newer_first_append(1) [OF nf] s, of opts td u]
  have fs: "newest c u s (concat (ops_of fops h ?fs)) = newest c u s (concat ?os)" "newer_first c (ops_of fops h ?fs)"
    "set ?fs \<subseteq> set (v_files v l)" "length ?fs \<le> length (v_files v l)" using fsok Cons.prems(1,2) by simp_all
  have ok: "\<forall>f \<in> set ?fs. table_file_ok c opts td fops (h f)" using Cons.prems(1) fs(3) by auto
  have t: "tables_ok opts td (length ?fs + (files_in v ls + r)) (gt_tables g)"
    using tables_ok_mono [OF Cons.prems(4)] fs(4) by (simp add: files_in_def)
  obtain g1 where g1: "search_files sn open_file options c h u ?ik l ?fs g =
      Some (case outcome (newest c u s (concat ?os)) of
        NotPresent \<Rightarrow> Inr g1 | FoundValue v \<Rightarrow> Inl (OK, g1) | Deleted \<Rightarrow> Inl (NotFound [], g1))"
    "tables_ok opts td (files_in v ls + r) (gt_tables g1)" "tc_dbname (gt_tables g1) = tc_dbname (gt_tables g)"
    "gt_value g1 = (case outcome (newest c u s (concat ?os)) of FoundValue v \<Rightarrow> v | _ \<Rightarrow> gt_value g)"
    using search_files_ok [OF ok fs(2) t Cons.prems(5) op eq s, of sn options u l, unfolded fs(1)] by blast
  have nc: "newest c u s (concat (?os @ ?os')) =
      (case newest c u s (concat ?os) of None \<Rightarrow> newest c u s (concat ?os') | Some x \<Rightarrow> Some x)"
    using newest_first [OF newer_first_across [OF nf], of u s] by simp
  have e: "ops_of fops h (concat (map (level_order h v) (l # ls))) = ?os @ ?os'" by simp
  show ?case
  proof (cases "newest c u s (concat ?os)")
    case (Some x)
    obtain n t k w where x: "x = (n, t, k, w)" by (cases x)
    have "tables_ok opts td r (gt_tables g1)" using tables_ok_mono [OF g1(2)] by simp
    then show ?thesis
      unfolding e nc Some x using g1(1,3,4) unfolding Some x by (cases t) (auto intro!: exI [of _ g1])
  next
    case None
    have "files_ok open_file (tc_dbname (gt_tables g1)) opts td" using Cons.prems(5) g1(3) by simp
    note IH = Cons.IH [OF _ _ newer_first_append(2) [OF nf] g1(2) this]
    obtain g' where "search_levels sn open_file options c h u ?ik v ls g1 =
        Some (case outcome (newest c u s (concat ?os')) of
          NotPresent \<Rightarrow> Inr g' | FoundValue v \<Rightarrow> Inl (OK, g') | Deleted \<Rightarrow> Inl (NotFound [], g'))"
      "tables_ok opts td r (gt_tables g')" "tc_dbname (gt_tables g') = tc_dbname (gt_tables g1)"
      "gt_value g' = (case outcome (newest c u s (concat ?os')) of FoundValue v \<Rightarrow> v | _ \<Rightarrow> gt_value g1)"
      using IH Cons.prems(1,2) by (meson list.set_intros(2))
    then show ?thesis
      unfolding e nc using g1(1,3,4) unfolding None by (intro exI [of _ g']) (simp cong: get_result.case_cong)
  qed
qed

text \<open>\<open>Version::Get\<close> gives what is newest in all the files at or below the sequence number.\<close>

lemma version_get:
  assumes v: "version_ok c opts td fops h v" and op: "db_options c opts" and eq: "\<forall>a b. Compare c a b = 0 \<longrightarrow> a = b"
    and s: "s \<le> kMaxSequenceNumber"
    and t: "tables_ok opts td (files_in v [0..<kNumLevels] + r) tc" and fo: "files_ok open_file (tc_dbname tc) opts td"
  shows "\<exists>stats tc'. VersionGet sn open_file options c h v (LookupKey u s) val tc =
      Some (case outcome (newest c u s (concat (ops_of fops h (search_order h v)))) of
        NotPresent \<Rightarrow> (NotFound [], val, stats, tc') | FoundValue w \<Rightarrow> (OK, w, stats, tc') | Deleted \<Rightarrow> (NotFound [], val, stats, tc')) \<and>
    tables_ok opts td r tc' \<and> tc_dbname tc' = tc_dbname tc"
proof -
  have m: "map (level_order h v) [1..<kNumLevels] = map (v_files v) [1..<kNumLevels]" by (simp add: level_order_def)
  have "concat (map (level_order h v) [0..<kNumLevels]) = level_order h v 0 @ concat (map (level_order h v) [1..<kNumLevels])"
    using upt_conv_Cons [of 0 kNumLevels] by simp
  then have so: "concat (map (level_order h v) [0..<kNumLevels]) = search_order h v"
    unfolding m search_order_def by (simp add: level_order_def)
  let ?g = "\<lparr>gt_stats = \<lparr>gs_seek_file = None, gs_seek_file_level = -1\<rparr>, gt_last = None, gt_value = val, gt_tables = tc\<rparr>"
  have k: "lookup_user_key (LookupKey u s) = u" "lookup_internal_key (LookupKey u s) = InternalKey u s kTypeValue"
    by (fact LookupKey_parts)+
  obtain g' where "search_levels sn open_file options c h u (InternalKey u s kTypeValue) v [0..<kNumLevels] ?g =
      Some (case outcome (newest c u s (concat (ops_of fops h (search_order h v)))) of
        NotPresent \<Rightarrow> Inr g' | FoundValue v \<Rightarrow> Inl (OK, g') | Deleted \<Rightarrow> Inl (NotFound [], g'))"
    "tables_ok opts td r (gt_tables g')" "tc_dbname (gt_tables g') = tc_dbname tc"
    "gt_value g' = (case outcome (newest c u s (concat (ops_of fops h (search_order h v)))) of FoundValue v \<Rightarrow> v | _ \<Rightarrow> val)"
    using search_levels_ok [of "[0..<kNumLevels]" v opts td fops h r ?g open_file s sn options u] v op eq s t fo
    unfolding so get_state.select_convs by (auto simp: version_ok_def)
  then show ?thesis
    unfolding VersionGet_def k
    by (intro exI [of _ "gt_stats g'"] exI [of _ "gt_tables g'"]) (simp split: get_result.split)
qed

end

subsection \<open>What a lookup gives\<close>

text \<open>
  C18 (ldb_version_get). \<open>Version::Get\<close> gives what the newest entry for the key at or below the
  sequence number says, over all files of the version: its value, or that the key is not there,
  if the entry is a deletion or there is none. It searches at most the files whose range has the
  key, and opens them through the table cache, which stays in order; it needs that no two
  different keys compare equal.
\<close>

theorem ldb_version_get:
  assumes "user_comparator c" and "\<forall>a b. Compare c a b = 0 \<longrightarrow> a = b"
    and "version_ok c opts td fops h v" and "db_options c opts" and "s \<le> kMaxSequenceNumber"
    and "tables_ok opts td (files_in v [0..<kNumLevels] + r) tc" and "files_ok open_file (tc_dbname tc) opts td"
  shows "\<exists>stats tc'. VersionGet sn open_file options c h v (LookupKey u s) val tc =
      Some (case outcome (newest c u s (concat (ops_of fops h (search_order h v)))) of
        NotPresent \<Rightarrow> (NotFound [], val, stats, tc') | FoundValue w \<Rightarrow> (OK, w, stats, tc') | Deleted \<Rightarrow> (NotFound [], val, stats, tc')) \<and>
    tables_ok opts td r tc' \<and> tc_dbname tc' = tc_dbname tc"
  using user_comparator.version_get [OF assms(1,3,4,2,5-7)] .

text \<open>A version for the witness: a deletion in level 0, and an older value in level 1.\<close>

definition internal_options :: "block_lru Options" where
  "internal_options = sample_options\<lparr>opt_comparator := InternalKeyComparator BytewiseComparator\<rparr>"

definition sample_ops :: file_ops where
  "sample_ops n = (if n = 5 then [(9, kTypeDeletion, [1], [])] else [(3, kTypeValue, [1], [7])])"

definition sample_blocks :: "u64 \<Rightarrow> entries list" where
  "sample_blocks n = [map op_entry (sample_ops n)]"

definition sample_tables :: table_files where
  "sample_tables = \<lparr>td_live = {4, 5}, td_blocks = sample_blocks,
     td_file = (\<lambda>n. bytes_file (table_bytes internal_options (sample_blocks n)))\<rparr>"

definition sample_open :: open_op where
  "sample_open name = Inr (td_file sample_tables (if name = TableFileName [] 5 then 5 else 4))"

definition sample_meta :: "u64 \<Rightarrow> FileMetaData" where
  "sample_meta n = NewFileMetaData n (live_size internal_options sample_tables n)
     (fst (op_entry (hd (sample_ops n)))) (fst (op_entry (last (sample_ops n))))"

definition sample_heap :: file_heap where
  "sample_heap p = sample_meta (if p = 0 then 5 else 4)"

definition sample_version :: Version where
  "sample_version = NewVersion\<lparr>v_files := (\<lambda>_. [])(0 := [0], 1 := [1])\<rparr>"

lemma internal_successor_length: "8 \<le> length k \<Longrightarrow> length (internal_successor c k) \<le> length k"
  by (simp add: internal_successor_def Let_def PutFixed64_def ExtractUserKey_def) linarith

lemma sample_table_small: "length (table_bytes internal_options (sample_blocks n)) < 2 ^ 32"
proof -
  let ?c = "InternalKeyComparator BytewiseComparator" and ?b = "sample_blocks n"
  have d: "length (data_bytes 2 ?b) < 1000"
    using block_bytes_length [of 2 "map op_entry (sample_ops n)"]
    by (auto simp: data_bytes_def sample_blocks_def sample_ops_def op_entry_def InternalKey_eq PutFixed64_def)
  have h: "length (HandleEncodeTo (block_handle 2 ?b 0) []) \<le> 20" by (rule HandleEncodeTo_length)
  have k: "length (index_key ?c ?b 0) \<le> 17" 
    using internal_successor_length [of "InternalKey [1] 9 kTypeDeletion" BytewiseComparator]
      internal_successor_length [of "InternalKey [1] 3 kTypeValue" BytewiseComparator]
    by (simp add: index_key_def sample_blocks_def InternalKeyComparator_def sample_ops_def op_entry_def InternalKey_eq PutFixed64_def)
  have "length (block_bytes 1 (index_entries ?c 2 ?b)) < 1000"
    using block_bytes_length [of 1 "index_entries ?c 2 ?b"] h k
    by (simp add: index_entries_def sample_blocks_def)
  moreover have "length (block_bytes 2 []) \<le> 8" using block_bytes_length [of 2 "[]"] by simp
  ultimately show ?thesis using d
    by (simp add: internal_options_def sample_options_def table_bytes_def before_index_def before_meta_def filter_part_def
      meta_bytes_def meta_entries_def index_bytes_def footer_length)
qed

lemma sample_files_ok: "files_ok sample_open [] internal_options sample_tables"
proof -
  have "TableFileName [] 4 \<noteq> TableFileName [] 5" by code_simp
  then show ?thesis
    using sample_table_small bytes_file_holds
    by (auto simp: files_ok_def sample_tables_def table_file_holds_def internal_options_def sample_options_def
        open_table_file_def sample_open_def)
qed

lemma sample_heap_ok: "table_file_ok BytewiseComparator internal_options sample_tables sample_ops (sample_heap p)"
  by (auto simp: table_file_ok_def sample_heap_def sample_meta_def NewFileMetaData_def sample_tables_def sample_blocks_def ops_ok_def
      in_order_def sample_ops_def op_ok_def kMaxSequenceNumber_def)

lemma sample_version_ok: "version_ok BytewiseComparator internal_options sample_tables sample_ops sample_heap sample_version"
  unfolding version_ok_def
  using sample_heap_ok
  by (auto simp: sample_version_def NewVersion_def level_in_order_def newer_first_def ops_of_def search_order_def
      newest_files_def sample_heap_def sample_meta_def NewFileMetaData_def sample_ops_def upt_rec)

lemma sample_cache_ok: "tables_ok internal_options sample_tables 9 (NewTableCache heap [] internal_options 100 sample_cache)"
proof (rule new_table_cache_ok, rule impI)
  have "lru_invar sample_cache" unfolding lru_invar_def sample_cache_def using new_sharded_inv by blast
  moreover have "9 \<le> lru_room sample_cache" by (simp add: lru_room_def sample_cache_def NewShardedLRUCache_def)
  moreover have "\<not> lru_held sample_cache k b" for k b by (simp add: lru_held_def sample_cache_def new_sharded_map)
  ultimately show "blocks_in_order (\<lambda>_ _. False) 9 sample_cache" by (simp add: blocks_in_order_def)
qed

lemma bytewise_eq: "\<forall>a b. Compare BytewiseComparator a b = 0 \<longrightarrow> a = b"
  by (simp add: BytewiseComparator_def slice_compare_eq)

theorem ldb_version_get_witness:
  "\<forall>heap. \<exists>stats tc'. VersionGet port_snappy sample_open NewReadOptions BytewiseComparator sample_heap sample_version (LookupKey [1] 3) []
     (NewTableCache heap [] internal_options 100 sample_cache) = Some (OK, [7], stats, tc')"
proof
  fix heap
  have o: "db_options BytewiseComparator internal_options"
    by (simp add: db_options_def internal_options_def sample_options_def)
  have "files_in sample_version [0..<kNumLevels] = 2" by (simp add: files_in_def sample_version_def NewVersion_def upt_rec)
  then have t: "tables_ok internal_options sample_tables (files_in sample_version [0..<kNumLevels] + 7)
      (NewTableCache heap [] internal_options 100 sample_cache)"
    using sample_cache_ok [of heap] by simp
  have s: "(3 :: u64) \<le> kMaxSequenceNumber" by (simp add: kMaxSequenceNumber_def)
  have n: "newest BytewiseComparator [1] 3 (concat (ops_of sample_ops sample_heap (search_order sample_heap sample_version))) =
      Some (3, kTypeValue, [1], [7])"
    by (simp add: search_order_def sample_version_def NewVersion_def newest_files_def upt_rec sample_heap_def sample_meta_def
        NewFileMetaData_def sample_ops_def visible_op_def BytewiseComparator_def)
  have "files_ok sample_open (tc_dbname (NewTableCache heap [] internal_options 100 sample_cache)) internal_options sample_tables"
    using sample_files_ok by (simp add: NewTableCache_def)
  from ldb_version_get [OF bytewise.user_comparator_axioms bytewise_eq sample_version_ok o s t this, where u = "[1]" and sn = port_snappy and options = NewReadOptions and val = "[]", unfolded n]
  show "\<exists>stats tc'. VersionGet port_snappy sample_open NewReadOptions BytewiseComparator sample_heap sample_version (LookupKey [1] 3) []
     (NewTableCache heap [] internal_options 100 sample_cache) = Some (OK, [7], stats, tc')" by auto
qed

end
