(* ===== verification/LDB_Levels.thy ===== *)
theory LDB_Levels
  imports LDB_Version
begin

text \<open>
  Files that overlap a range (\<open>db/version_set.cc\<close>): the test whether a level has one, the inputs
  of a compaction, for which level 0 widens the range until it is closed, and the level at which
  the table of a memtable is placed, above all data that it could hide behind.
\<close>

subsection \<open>Sizes\<close>

text \<open>\<open>options->max_file_size\<close> becomes an \<open>int\<close>, and so does its product with 10 or 25.\<close>

definition TargetFileSize :: "u64 \<Rightarrow> 32 word" where
  "TargetFileSize max_file_size = ucast max_file_size"

definition MaxGrandParentOverlapBytes :: "u64 \<Rightarrow> int" where
  "MaxGrandParentOverlapBytes max_file_size = sint (10 * TargetFileSize max_file_size)"

definition ExpandedCompactionByteSizeLimit :: "u64 \<Rightarrow> int" where
  "ExpandedCompactionByteSizeLimit max_file_size = sint (25 * TargetFileSize max_file_size)"

definition MaxFileSizeForLevel :: "u64 \<Rightarrow> nat \<Rightarrow> u64" where
  "MaxFileSizeForLevel max_file_size level = scast (TargetFileSize max_file_size)"

definition TotalFileSize :: "FileMetaData list \<Rightarrow> int" where
  "TotalFileSize files = sint (sum_list (map f_file_size files))"

subsection \<open>Overlap\<close>

definition AfterFile :: "comparator \<Rightarrow> byte list option \<Rightarrow> FileMetaData \<Rightarrow> bool" where
  "AfterFile c ukey f =
     (case ukey of None \<Rightarrow> False | Some k \<Rightarrow> Compare c k (ExtractUserKey (f_largest f)) > 0)"

definition BeforeFile :: "comparator \<Rightarrow> byte list option \<Rightarrow> FileMetaData \<Rightarrow> bool" where
  "BeforeFile c ukey f =
     (case ukey of None \<Rightarrow> False | Some k \<Rightarrow> Compare c k (ExtractUserKey (f_smallest f)) < 0)"

definition SomeFileOverlapsRange ::
  "comparator \<Rightarrow> bool \<Rightarrow> FileMetaData list \<Rightarrow> byte list option \<Rightarrow> byte list option \<Rightarrow> bool" where
  "SomeFileOverlapsRange c disjoint_sorted_files files smallest_user_key largest_user_key =
     (if \<not> disjoint_sorted_files
      then list_ex (\<lambda>f. \<not> (AfterFile c smallest_user_key f \<or> BeforeFile c largest_user_key f)) files
      else
        let index = (case smallest_user_key of None \<Rightarrow> 0
                     | Some k \<Rightarrow> FindFile c files (InternalKey k kMaxSequenceNumber kValueTypeForSeek))
        in if length files \<le> index then False
           else \<not> BeforeFile c largest_user_key (files ! index))"

definition OverlapInLevel :: "comparator \<Rightarrow> file_heap \<Rightarrow> Version \<Rightarrow> nat \<Rightarrow> byte list option \<Rightarrow> byte list option \<Rightarrow> bool" where
  "OverlapInLevel c h v level smallest_user_key largest_user_key =
     SomeFileOverlapsRange c (0 < level) (map h (v_files v level)) smallest_user_key largest_user_key"

text \<open>The bounds of \<open>GetOverlappingInputs\<close>; without a bound nothing is outside.\<close>

definition below_begin :: "comparator \<Rightarrow> byte list \<Rightarrow> byte list option \<Rightarrow> bool" where
  "below_begin c k user_begin = (case user_begin of None \<Rightarrow> False | Some b \<Rightarrow> Compare c k b < 0)"

definition above_end :: "comparator \<Rightarrow> byte list \<Rightarrow> byte list option \<Rightarrow> bool" where
  "above_end c k user_end = (case user_end of None \<Rightarrow> False | Some e \<Rightarrow> Compare c k e > 0)"

text \<open>The loop of level 0 starts again whenever a file widens the range.\<close>

partial_function (option) overlap_loop ::
  "comparator \<Rightarrow> bool \<Rightarrow> file_heap \<Rightarrow> file_ptr list \<Rightarrow> nat \<Rightarrow> byte list option \<Rightarrow> byte list option \<Rightarrow> file_ptr list \<Rightarrow>
   file_ptr list option" where
  "overlap_loop c level0 h files i user_begin user_end inputs =
     (if i < length files
      then let f = files ! i;
               file_start = ExtractUserKey (f_smallest (h f));
               file_limit = ExtractUserKey (f_largest (h f))
           in if below_begin c file_limit user_begin then overlap_loop c level0 h files (i + 1) user_begin user_end inputs
              else if above_end c file_start user_end then overlap_loop c level0 h files (i + 1) user_begin user_end inputs
              else if level0 \<and> below_begin c file_start user_begin
                then overlap_loop c level0 h files 0 (Some file_start) user_end []
              else if level0 \<and> above_end c file_limit user_end
                then overlap_loop c level0 h files 0 user_begin (Some file_limit) []
              else overlap_loop c level0 h files (i + 1) user_begin user_end (inputs @ [f])
      else Some inputs)"

definition GetOverlappingInputs ::
  "comparator \<Rightarrow> file_heap \<Rightarrow> Version \<Rightarrow> nat \<Rightarrow> byte list option \<Rightarrow> byte list option \<Rightarrow> file_ptr list option" where
  "GetOverlappingInputs c h v level range_begin range_end =
     overlap_loop c (level = 0) h (v_files v level) 0 (map_option ExtractUserKey range_begin)
       (map_option ExtractUserKey range_end) []"

subsection \<open>The level for a memtable\<close>

abbreviation kMaxMemCompactLevel :: nat where "kMaxMemCompactLevel \<equiv> 2"

function pick_level ::
  "comparator \<Rightarrow> u64 \<Rightarrow> file_heap \<Rightarrow> Version \<Rightarrow> byte list \<Rightarrow> byte list \<Rightarrow> nat \<Rightarrow> nat option" where
  "pick_level c max_file_size h v smallest_user_key largest_user_key level =
     (if level < kMaxMemCompactLevel
      then if OverlapInLevel c h v (level + 1) (Some smallest_user_key) (Some largest_user_key) then Some level
           else if level + 2 < kNumLevels
             then Option.bind (GetOverlappingInputs c h v (level + 2)
                    (Some (InternalKey smallest_user_key kMaxSequenceNumber kValueTypeForSeek))
                    (Some (InternalKey largest_user_key 0 kTypeDeletion))) (\<lambda>overlaps.
                  if TotalFileSize (map h overlaps) > MaxGrandParentOverlapBytes max_file_size then Some level
                  else pick_level c max_file_size h v smallest_user_key largest_user_key (level + 1))
             else pick_level c max_file_size h v smallest_user_key largest_user_key (level + 1)
      else Some level)"
  by pat_completeness auto
termination by (relation "measure (\<lambda>(c, m, h, v, a, b, level). kMaxMemCompactLevel - level)") auto

declare pick_level.simps [simp del]

definition PickLevelForMemTableOutput ::
  "comparator \<Rightarrow> u64 \<Rightarrow> file_heap \<Rightarrow> Version \<Rightarrow> byte list \<Rightarrow> byte list \<Rightarrow> nat option" where
  "PickLevelForMemTableOutput c max_file_size h v smallest_user_key largest_user_key =
     (if OverlapInLevel c h v 0 (Some smallest_user_key) (Some largest_user_key) then Some 0
      else pick_level c max_file_size h v smallest_user_key largest_user_key 0)"

subsection \<open>The inputs of a compaction\<close>

definition in_range :: "comparator \<Rightarrow> file_heap \<Rightarrow> byte list option \<Rightarrow> byte list option \<Rightarrow> file_ptr \<Rightarrow> bool" where
  "in_range c h b e f \<longleftrightarrow>
     \<not> below_begin c (ExtractUserKey (f_largest (h f))) b \<and> \<not> above_end c (ExtractUserKey (f_smallest (h f))) e"

definition inside :: "comparator \<Rightarrow> file_heap \<Rightarrow> byte list option \<Rightarrow> byte list option \<Rightarrow> file_ptr \<Rightarrow> bool" where
  "inside c h b e f \<longleftrightarrow>
     \<not> below_begin c (ExtractUserKey (f_smallest (h f))) b \<and> \<not> above_end c (ExtractUserKey (f_largest (h f))) e"

text \<open>Above level 0 the inputs are the files in the range.\<close>

lemma overlap_loop_filter:
  "i \<le> length files \<Longrightarrow> overlap_loop c False h files i b e acc = Some (acc @ filter (in_range c h b e) (drop i files))"
proof (induction "length files - i" arbitrary: i acc)
  case 0
  then show ?case by (subst overlap_loop.simps) simp
next
  case (Suc n)
  then have i: "i < length files" "n = length files - (i + 1)" "i + 1 \<le> length files" by auto
  then have d: "drop i files = files ! i # drop (i + 1) files" by (simp add: Cons_nth_drop_Suc)
  note IH = Suc.hyps(1) [OF i(2,3), unfolded Suc_eq_plus1 [symmetric]]
  show ?case
    by (subst overlap_loop.simps) (simp add: i(1) IH d Let_def in_range_def)
qed

text \<open>The ends that a range can take: its own, or those of files.\<close>

definition wider_begin :: "comparator \<Rightarrow> byte list option \<Rightarrow> byte list option \<Rightarrow> bool" where
  "wider_begin c b b' = (case (b, b') of (None, None) \<Rightarrow> True | (Some x, Some y) \<Rightarrow> Compare c y x \<le> 0 | _ \<Rightarrow> False)"

definition wider_end :: "comparator \<Rightarrow> byte list option \<Rightarrow> byte list option \<Rightarrow> bool" where
  "wider_end c e e' = (case (e, e') of (None, None) \<Rightarrow> True | (Some x, Some y) \<Rightarrow> Compare c x y \<le> 0 | _ \<Rightarrow> False)"

definition wider :: "comparator \<Rightarrow> byte list option \<Rightarrow> byte list option \<Rightarrow> byte list option \<Rightarrow> byte list option \<Rightarrow> bool" where
  "wider c b e b' e' \<longleftrightarrow> wider_begin c b b' \<and> wider_end c e e'"

definition closed_range :: "comparator \<Rightarrow> file_heap \<Rightarrow> file_ptr list \<Rightarrow> byte list option \<Rightarrow> byte list option \<Rightarrow> bool" where
  "closed_range c h files b e \<longleftrightarrow> (\<forall>f \<in> set files. in_range c h b e f \<longrightarrow> inside c h b e f)"

text \<open>The least range around a given one that has every file that it meets inside.\<close>

definition least_range ::
  "comparator \<Rightarrow> file_heap \<Rightarrow> file_ptr list \<Rightarrow> byte list option \<Rightarrow> byte list option \<Rightarrow> byte list option \<Rightarrow>
   byte list option \<Rightarrow> bool" where
  "least_range c h files b e b' e' \<longleftrightarrow> wider c b e b' e' \<and> closed_range c h files b' e' \<and>
     (\<forall>b2 e2. wider c b e b2 e2 \<longrightarrow> closed_range c h files b2 e2 \<longrightarrow> wider c b' e' b2 e2)"

definition widenings :: "comparator \<Rightarrow> file_heap \<Rightarrow> file_ptr list \<Rightarrow> byte list option \<Rightarrow> byte list option \<Rightarrow> nat" where
  "widenings c h files b e =
     card {f \<in> set files. below_begin c (ExtractUserKey (f_smallest (h f))) b} +
     card {f \<in> set files. above_end c (ExtractUserKey (f_largest (h f))) e}"

context user_comparator
begin

lemma wider_refl: "wider c b e b e"
  using refl0 by (simp add: wider_def wider_begin_def wider_end_def split: option.split)

lemma wider_begin_trans: "wider_begin c b b1 \<Longrightarrow> wider_begin c b1 b2 \<Longrightarrow> wider_begin c b b2"
  by (auto simp: wider_begin_def split: option.splits) (blast intro: trans_le)

lemma wider_end_trans: "wider_end c e e1 \<Longrightarrow> wider_end c e1 e2 \<Longrightarrow> wider_end c e e2"
  by (auto simp: wider_end_def split: option.splits) (blast intro: trans_le)

lemma wider_trans: "wider c b e b1 e1 \<Longrightarrow> wider c b1 e1 b2 e2 \<Longrightarrow> wider c b e b2 e2"
  unfolding wider_def using wider_begin_trans wider_end_trans by blast

lemma widen_begin:
  assumes "f \<in> set files" and "below_begin c (ExtractUserKey (f_smallest (h f))) b"
  shows "widenings c h files (Some (ExtractUserKey (f_smallest (h f)))) e < widenings c h files b e"
    and "wider c b e (Some (ExtractUserKey (f_smallest (h f)))) e"
proof -
  obtain x where b: "b = Some x" and lt: "Compare c (ExtractUserKey (f_smallest (h f))) x < 0"
    using assms(2) by (auto simp: below_begin_def split: option.splits)
  let ?A = "{g \<in> set files. below_begin c (ExtractUserKey (f_smallest (h g))) (Some (ExtractUserKey (f_smallest (h f))))}"
  let ?B = "{g \<in> set files. below_begin c (ExtractUserKey (f_smallest (h g))) b}"
  have "?A \<subseteq> ?B" using less_le_trans [OF _ _ _ _ less_imp_le [OF lt]] by (auto simp: below_begin_def b)
  moreover have "f \<in> ?B" "f \<notin> ?A" using assms refl0 [of "ExtractUserKey (f_smallest (h f))"] by (simp_all add: below_begin_def)
  ultimately have "?A \<subset> ?B" by blast
  then show "widenings c h files (Some (ExtractUserKey (f_smallest (h f)))) e < widenings c h files b e"
    by (simp add: widenings_def psubset_card_mono)
  show "wider c b e (Some (ExtractUserKey (f_smallest (h f)))) e" using lt refl0 by (simp add: wider_def wider_begin_def wider_end_def b split: option.split)
qed

lemma widen_end:
  assumes "f \<in> set files" and "above_end c (ExtractUserKey (f_largest (h f))) e"
  shows "widenings c h files b (Some (ExtractUserKey (f_largest (h f)))) < widenings c h files b e"
    and "wider c b e b (Some (ExtractUserKey (f_largest (h f))))"
proof -
  let ?l = "\<lambda>f. ExtractUserKey (f_largest (h f))"
  obtain x where e: "e = Some x" and lt: "Compare c x (?l f) < 0"
    using assms(2) swap by (auto simp: above_end_def split: option.splits)
  have gt: "0 < Compare c k x" if "0 < Compare c k (?l f)" for k
    using that lt swap [of k] le_less_trans [of x "?l f" k] less_imp_le by (metis swap)
  let ?A = "{g \<in> set files. above_end c (?l g) (Some (?l f))}" and ?B = "{g \<in> set files. above_end c (?l g) e}"
  have "?A \<subseteq> ?B" using gt by (auto simp: above_end_def e)
  moreover have "f \<in> ?B" "f \<notin> ?A" using assms refl0 [of "?l f"] by (simp_all add: above_end_def)
  ultimately have "?A \<subset> ?B" by blast
  then show "widenings c h files b (Some (?l f)) < widenings c h files b e"
    by (simp add: widenings_def psubset_card_mono)
  show "wider c b e b (Some (?l f))" using lt refl0 by (simp add: wider_def wider_begin_def wider_end_def e split: option.split)
qed

text \<open>A closed range around another one has the files that widen that one.\<close>

lemma below_wider: "wider_begin c b b2 \<Longrightarrow> below_begin c k b2 \<Longrightarrow> below_begin c k b"
  by (auto simp: wider_begin_def below_begin_def split: option.splits) (blast intro: less_le_trans)

lemma above_wider:
  assumes "wider_end c e e2" and "above_end c k e2"
  shows "above_end c k e"
proof (cases e)
  case (Some x)
  with assms(1) obtain y where y: "e2 = Some y" "Compare c x y \<le> 0" by (auto simp: wider_end_def split: option.splits)
  then have "Compare c y k < 0" using assms(2) swap [of y k] by (simp add: above_end_def)
  then have "Compare c x k < 0" using y(2) le_less_trans by blast
  then show ?thesis using swap [of x k] by (simp add: above_end_def Some)
qed (use assms in \<open>auto simp: wider_end_def above_end_def split: option.splits\<close>)

lemma in_range_wider: "wider c b e b2 e2 \<Longrightarrow> in_range c h b e f \<Longrightarrow> in_range c h b2 e2 f"
  using below_wider above_wider unfolding wider_def in_range_def by blast

lemma closed_begin:
  assumes "closed_range c h files b2 e2" and w: "wider c b e b2 e2" and f: "f \<in> set files" "in_range c h b e f"
    and "below_begin c (ExtractUserKey (f_smallest (h f))) b"
  shows "wider c (Some (ExtractUserKey (f_smallest (h f)))) e b2 e2"
proof -
  have "\<not> below_begin c (ExtractUserKey (f_smallest (h f))) b2"
    using assms(1) f in_range_wider [OF w] by (auto simp: closed_range_def inside_def)
  moreover obtain y where "b2 = Some y" using w assms(5) by (auto simp: wider_def wider_begin_def below_begin_def split: option.splits)
  ultimately show ?thesis
    using w le_swap by (auto simp: wider_def wider_begin_def below_begin_def not_less)
qed

lemma closed_end:
  assumes "closed_range c h files b2 e2" and w: "wider c b e b2 e2" and f: "f \<in> set files" "in_range c h b e f"
    and "above_end c (ExtractUserKey (f_largest (h f))) e"
  shows "wider c b (Some (ExtractUserKey (f_largest (h f)))) b2 e2"
proof -
  have "\<not> above_end c (ExtractUserKey (f_largest (h f))) e2"
    using assms(1) f in_range_wider [OF w] by (auto simp: closed_range_def inside_def)
  moreover obtain y where "e2 = Some y" using w assms(5) by (auto simp: wider_def wider_end_def above_end_def split: option.splits)
  ultimately show ?thesis using w by (auto simp: wider_def wider_end_def above_end_def not_less)
qed

lemma least_range_from:
  assumes "least_range c h files b1 e1 b' e'" and "wider c b e b1 e1"
    and "\<And>b2 e2. closed_range c h files b2 e2 \<Longrightarrow> wider c b e b2 e2 \<Longrightarrow> wider c b1 e1 b2 e2"
  shows "least_range c h files b e b' e'"
  using assms wider_trans unfolding least_range_def by blast

text \<open>In level 0 the search ends, with the files of a range that has all of them inside.\<close>

lemma overlap_loop_closed:
  assumes "i \<le> length files" and "acc = filter (in_range c h b e) (take i files)" and "\<forall>f \<in> set acc. inside c h b e f"
  shows "\<exists>b' e'. overlap_loop c True h files i b e acc = Some (filter (in_range c h b' e') files) \<and>
    least_range c h files b e b' e'"
  using assms
proof (induction "widenings c h files b e * Suc (length files) + (length files - i)" arbitrary: i b e acc rule: less_induct)
  case less
  show ?case
  proof (cases "i < length files")
    case False
    then have "overlap_loop c True h files i b e acc = Some (filter (in_range c h b e) files)"
      using less.prems(1,2) by (subst overlap_loop.simps) simp
    moreover have "closed_range c h files b e" using False less.prems by (simp add: closed_range_def)
    ultimately show ?thesis using wider_refl unfolding least_range_def by blast
  next
    case True
    let ?f = "files ! i"
    let ?s = "ExtractUserKey (f_smallest (h ?f))" and ?l = "ExtractUserKey (f_largest (h ?f))"
    have f: "?f \<in> set files" using True by simp
    have restart: "\<exists>b' e'. overlap_loop c True h files 0 b1 e1 [] = Some (filter (in_range c h b' e') files) \<and>
        least_range c h files b e b' e'"
      if w: "widenings c h files b1 e1 < widenings c h files b e" "wider c b e b1 e1"
        and l: "\<And>b2 e2. closed_range c h files b2 e2 \<Longrightarrow> wider c b e b2 e2 \<Longrightarrow> wider c b1 e1 b2 e2" for b1 e1
    proof -
      have "Suc (widenings c h files b1 e1) * Suc (length files) \<le> widenings c h files b e * Suc (length files)"
        using w(1) by (intro mult_le_mono1) simp
      then have "widenings c h files b1 e1 * Suc (length files) + (length files - 0)
          < widenings c h files b e * Suc (length files) + (length files - i)" by simp
      from less.hyps [OF this, of "[]"] obtain b' e' where
        r: "overlap_loop c True h files 0 b1 e1 [] = Some (filter (in_range c h b' e') files)" "least_range c h files b1 e1 b' e'" by auto
      have "least_range c h files b e b' e'" using least_range_from [OF r(2) w(2)] l by blast
      with r(1) show ?thesis by blast
    qed
    have skip: "\<exists>b' e'. overlap_loop c True h files (i + 1) b e acc' = Some (filter (in_range c h b' e') files) \<and>
        least_range c h files b e b' e'"
      if "acc' = filter (in_range c h b e) (take (i + 1) files)" "\<forall>f \<in> set acc'. inside c h b e f" for acc'
      using that True by (intro less.hyps) auto
    have t: "take (i + 1) files = take i files @ [?f]" using True by (simp add: take_Suc_conv_app_nth)
    consider (below) "below_begin c ?l b" | (above) "\<not> below_begin c ?l b" "above_end c ?s e"
      | (low) "in_range c h b e ?f" "below_begin c ?s b" | (high) "in_range c h b e ?f" "\<not> below_begin c ?s b" "above_end c ?l e"
      | (take) "in_range c h b e ?f" "inside c h b e ?f"
      by (auto simp: in_range_def inside_def)
    then show ?thesis
    proof cases
      case low
      then show ?thesis using restart [OF widen_begin(1) [where f = ?f and h = h and b = b, OF f low(2)] widen_begin(2) [where f = ?f and h = h and b = b, OF f low(2)] closed_begin [OF _ _ f low]] True
        by (subst overlap_loop.simps) (simp add: Let_def in_range_def)
    next
      case high
      then show ?thesis using restart [OF widen_end(1) [where f = ?f and h = h and e = e, OF f high(3)] widen_end(2) [where f = ?f and h = h and e = e, OF f high(3)] closed_end [OF _ _ f high(1,3)]] True
        by (subst overlap_loop.simps) (simp add: Let_def in_range_def)
    next
      case take
      then show ?thesis using skip [of "acc @ [?f]"] less.prems True t
        by (subst overlap_loop.simps) (auto simp: Let_def in_range_def inside_def)
    qed (use skip [of acc] less.prems True t in \<open>subst overlap_loop.simps, auto simp: Let_def in_range_def\<close>)+
  qed
qed

subsection \<open>A level without the range\<close>

lemma ends_before:
  assumes f: "table_file_ok c opts td fops f"
  shows "io_less (f_largest f) (InternalKey k kMaxSequenceNumber kValueTypeForSeek) \<longleftrightarrow> AfterFile c (Some k) f"
proof -
  let ?x = "last (fops (f_number f))"
  obtain m t k' v where e: "?x = (m, t, k', v)" by (cases ?x)
  have x: "(m, t, k', v) \<in> set (fops (f_number f))" using f last_in_set [of "fops (f_number f)"] e by (simp add: table_file_ok_def ops_ok_def)
  have l: "f_largest f = InternalKey k' m t" using f by (simp add: table_file_ok_def e op_entry_def)
  have ok: "op_ok (m, t, k', v)" using f x by (simp add: table_file_ok_def ops_ok_def)
  then have "\<not> kMaxSequenceNumber < m" by (simp add: op_ok_def not_less)
  then have "io_less (InternalKey k' m t) (InternalKey k kMaxSequenceNumber kTypeValue) \<longleftrightarrow> Compare c k' k < 0"
    using op_below [OF order_refl ok] by simp
  also have "\<dots> \<longleftrightarrow> 0 < Compare c k k'" using swap [of k' k] by simp
  finally show ?thesis by (simp add: l AfterFile_def kValueTypeForSeek_def InternalKey_eq)
qed

lemma starts_in_order:
  assumes lo: "level_in_order c fs" and ok: "\<forall>f \<in> set fs. table_file_ok c opts td fops f" and j: "i \<le> j" "j < length fs"
    and b: "BeforeFile c b (fs ! i)"
  shows "BeforeFile c b (fs ! j)"
proof (cases "i = j")
  case False
  with j have ij: "i < j" "i < length fs" by simp_all
  then have lt: "io_less (f_largest (fs ! i)) (f_smallest (fs ! j))"
    using lo j(2) by (simp add: level_in_order_def sorted_wrt_iff_nth_less)
  have f: "table_file_ok c opts td fops (fs ! i)" using ok ij(2) by simp
  then have "fops (f_number (fs ! i)) \<noteq> []" by (simp add: table_file_ok_def ops_ok_def)
  then obtain n t k v where x: "(n, t, k, v) \<in> set (fops (f_number (fs ! i)))" by (metis list.set_sel(1) prod_cases4)
  have "Compare c (ExtractUserKey (f_smallest (fs ! i))) (ExtractUserKey (f_largest (fs ! i))) \<le> 0"
    using trans_le file_range(3,4) [OF f x] by blast
  then have "Compare c (ExtractUserKey (f_smallest (fs ! i))) (ExtractUserKey (f_smallest (fs ! j))) \<le> 0"
    using trans_le user_le [OF less_imp_le [OF lt]] by blast
  then show ?thesis using b less_le_trans by (auto simp: BeforeFile_def split: option.splits)
qed (use b in simp)

text \<open>The binary search of a level in order finds what the search through all files finds.\<close>

lemma overlap_binary:
  assumes lo: "level_in_order c fs" and ok: "\<forall>f \<in> set fs. table_file_ok c opts td fops f"
  shows "SomeFileOverlapsRange c True fs a b = SomeFileOverlapsRange c False fs a b"
proof -
  define i where "i = (case a of None \<Rightarrow> 0 | Some k \<Rightarrow> FindFile c fs (InternalKey k kMaxSequenceNumber kValueTypeForSeek))"
  have after: "AfterFile c a (fs ! j) \<longleftrightarrow> j < i" if j: "j < length fs" for j
  proof (cases a)
    case (Some k)
    note ff = FindFile_ok [OF level_largest_in_order [OF lo ok]]
    have "table_file_ok c opts td fops (fs ! j)" using ok j by simp
    from ends_before [OF this, of k] show ?thesis
      using ff(2,3) [of "InternalKey k kMaxSequenceNumber kValueTypeForSeek"] j unfolding i_def Some option.case
      by (metis not_less)
  qed (simp add: i_def AfterFile_def)
  have "(\<exists>j < length fs. \<not> j < i \<and> \<not> BeforeFile c b (fs ! j)) \<longleftrightarrow> i < length fs \<and> \<not> BeforeFile c b (fs ! i)"
  proof
    assume "\<exists>j < length fs. \<not> j < i \<and> \<not> BeforeFile c b (fs ! j)"
    then obtain j where j: "j < length fs" "i \<le> j" "\<not> BeforeFile c b (fs ! j)" by auto
    with starts_in_order [OF lo ok j(2,1)] show "i < length fs \<and> \<not> BeforeFile c b (fs ! i)" by auto
  qed auto
  moreover have "SomeFileOverlapsRange c False fs a b \<longleftrightarrow> (\<exists>j < length fs. \<not> j < i \<and> \<not> BeforeFile c b (fs ! j))"
    using after by (auto simp: SomeFileOverlapsRange_def list_ex_length)
  moreover have "SomeFileOverlapsRange c True fs a b \<longleftrightarrow> i < length fs \<and> \<not> BeforeFile c b (fs ! i)"
    by (auto simp: SomeFileOverlapsRange_def i_def Let_def)
  ultimately show ?thesis by simp
qed

lemma no_overlap_nothing:
  assumes "\<not> SomeFileOverlapsRange c False fs (Some a) (Some b)" and f: "f \<in> set fs" and ok: "table_file_ok c opts td fops f"
    and x: "(n, t, k, w) \<in> set (fops (f_number f))"
  shows "\<not> (Compare c a k \<le> 0 \<and> Compare c k b \<le> 0)"
proof
  assume k: "Compare c a k \<le> 0 \<and> Compare c k b \<le> 0"
  note r = file_range(3,4) [OF ok x]
  have "Compare c a (ExtractUserKey (f_largest f)) \<le> 0" "Compare c (ExtractUserKey (f_smallest f)) b \<le> 0"
    using trans_le k r by blast+
  then have "\<not> AfterFile c (Some a) f" "\<not> BeforeFile c (Some b) f"
    using swap [of b "ExtractUserKey (f_smallest f)"] swap [of "ExtractUserKey (f_smallest f)" b]
    by (auto simp: AfterFile_def BeforeFile_def)
  with assms(1) f show False by (auto simp: SomeFileOverlapsRange_def list_ex_iff)
qed

text \<open>The level for a memtable: neither it nor a level above it has the range.\<close>

lemma pick_level_ok:
  assumes "level \<le> kMaxMemCompactLevel" and "\<forall>l \<le> level. \<not> OverlapInLevel c h v l (Some a) (Some b)"
  shows "\<exists>r. pick_level c m h v a b level = Some r \<and> r \<le> kMaxMemCompactLevel \<and>
    (\<forall>l \<le> r. \<not> OverlapInLevel c h v l (Some a) (Some b))"
  using assms
proof (induction "kMaxMemCompactLevel - level" arbitrary: level)
  case 0
  then show ?case by (subst pick_level.simps) auto
next
  case (Suc n)
  then have l: "level < kMaxMemCompactLevel" "n = kMaxMemCompactLevel - (level + 1)" by simp_all
  have g: "\<exists>ovs. GetOverlappingInputs c h v (level + 2) x y = Some ovs" for x y
    by (simp add: GetOverlappingInputs_def overlap_loop_filter)
  obtain ovs where o: "GetOverlappingInputs c h v (level + 2) (Some (InternalKey a kMaxSequenceNumber kValueTypeForSeek))
      (Some (InternalKey b 0 kTypeDeletion)) = Some ovs" using g by blast
  show ?case
  proof (cases "OverlapInLevel c h v (level + 1) (Some a) (Some b)")
    case True
    then show ?thesis using Suc.prems l(1) by (subst pick_level.simps) simp
  next
    case False
    then have "\<forall>l \<le> level + 1. \<not> OverlapInLevel c h v l (Some a) (Some b)" using Suc.prems(2) by (auto simp: le_Suc_eq)
    with Suc.hyps(1) [OF l(2)] l(1) have IH: "\<exists>r. pick_level c m h v a b (level + 1) = Some r \<and> r \<le> kMaxMemCompactLevel \<and>
      (\<forall>l \<le> r. \<not> OverlapInLevel c h v l (Some a) (Some b))" by simp
    have "pick_level c m h v a b level =
      (if level + 2 < kNumLevels \<and> MaxGrandParentOverlapBytes m < TotalFileSize (map h ovs) then Some level
       else pick_level c m h v a b (level + 1))"
      using False l(1) o by (subst pick_level.simps) simp
    then show ?thesis using IH Suc.prems by auto
  qed
qed

end

subsection \<open>Results\<close>

text \<open>
  C20 (ldb_overlapping_inputs). \<open>GetOverlappingInputs\<close> always returns, although its loop starts again
  whenever a file of level 0 widens the range: above level 0 it gives the files that meet the range,
  in level 0 those that meet the least range around it that has every file it meets inside.
\<close>

theorem ldb_overlapping_inputs:
  assumes "user_comparator c"
  shows "\<exists>b e. GetOverlappingInputs c h v level range_begin range_end = Some (filter (in_range c h b e) (v_files v level)) \<and>
    (if level = 0
     then least_range c h (v_files v 0) (map_option ExtractUserKey range_begin) (map_option ExtractUserKey range_end) b e
     else b = map_option ExtractUserKey range_begin \<and> e = map_option ExtractUserKey range_end)"
  using user_comparator.overlap_loop_closed [OF assms, of 0 "v_files v 0" "[]"]
  by (cases "level = 0") (simp_all add: GetOverlappingInputs_def overlap_loop_filter)

theorem ldb_overlapping_inputs_witness:
  "\<exists>b e. GetOverlappingInputs BytewiseComparator sample_heap sample_version 0 (Some (InternalKey [0] 9 kTypeValue)) None =
      Some (filter (in_range BytewiseComparator sample_heap b e) [0]) \<and>
    least_range BytewiseComparator sample_heap [0] (Some [0]) None b e"
  using ldb_overlapping_inputs [OF bytewise.user_comparator_axioms, of sample_heap sample_version 0 "Some (InternalKey [0] 9 kTypeValue)" None]
  by (simp add: sample_version_def InternalKey_eq)

text \<open>
  C19 (ldb_memtable_level). \<open>PickLevelForMemTableOutput\<close> always returns a level of at most 2. If it is not
  level 0, no file in this level or above it has an entry for a key of the range, so that newer
  entries are not placed behind older ones.
\<close>

theorem ldb_memtable_level:
  assumes "user_comparator c" and "version_ok c opts td fops h v"
  shows "\<exists>r. PickLevelForMemTableOutput c max_file_size h v a b = Some r \<and> r \<le> kMaxMemCompactLevel \<and>
    (0 < r \<longrightarrow> (\<forall>l \<le> r. \<forall>f \<in> set (v_files v l). \<forall>(n, t, k, w) \<in> set (fops (f_number (h f))).
       \<not> (Compare c a k \<le> 0 \<and> Compare c k b \<le> 0)))"
proof (cases "OverlapInLevel c h v 0 (Some a) (Some b)")
  case False
  then have "\<forall>l \<le> 0. \<not> OverlapInLevel c h v l (Some a) (Some b)" by simp
  from user_comparator.pick_level_ok [OF assms(1) _ this, of max_file_size]
  obtain r where r: "PickLevelForMemTableOutput c max_file_size h v a b = Some r" "r \<le> kMaxMemCompactLevel"
    "\<forall>l \<le> r. \<not> OverlapInLevel c h v l (Some a) (Some b)"
    using False by (auto simp: PickLevelForMemTableOutput_def)
  have "\<not> (Compare c a k \<le> 0 \<and> Compare c k b \<le> 0)"
    if l: "l \<le> r" and f: "f \<in> set (v_files v l)" and x: "(n, t, k, w) \<in> set (fops (f_number (h f)))" for l f n t k w
  proof -
    have "l < kNumLevels" using l r(2) by simp
    then have ok: "\<forall>g \<in> set (map h (v_files v l)). table_file_ok c opts td fops g"
      and lo: "0 < l \<longrightarrow> level_in_order c (map h (v_files v l))"
      using assms(2) by (simp_all add: version_ok_def)
    have "\<not> SomeFileOverlapsRange c False (map h (v_files v l)) (Some a) (Some b)"
      using r(3) l lo user_comparator.overlap_binary [OF assms(1) _ ok] by (cases "l = 0") (auto simp: OverlapInLevel_def)
    moreover have "h f \<in> set (map h (v_files v l))" "table_file_ok c opts td fops (h f)" using ok f by simp_all
    ultimately show ?thesis using user_comparator.no_overlap_nothing [OF assms(1)] x by blast
  qed
  with r(1,2) show ?thesis by (intro exI [of _ r]) auto
qed (simp add: PickLevelForMemTableOutput_def)

theorem ldb_memtable_level_witness:
  "\<exists>r. PickLevelForMemTableOutput BytewiseComparator 2097152 sample_heap sample_version [2] [3] = Some r \<and> r \<le> kMaxMemCompactLevel"
  using ldb_memtable_level [OF bytewise.user_comparator_axioms sample_version_ok, of 2097152 "[2]" "[3]"] by blast

text \<open>
  Theorem (ldb_grandparent_overflow). The bound on the overlap with the level after the next is computed in
  32 bits: files of 256 MB make it negative on a machine that wraps around.
\<close>

theorem ldb_grandparent_overflow: "MaxGrandParentOverlapBytes (push_bit 28 1) = - 1610612736"
  by (simp add: MaxGrandParentOverlapBytes_def TargetFileSize_def)

end
