(* ===== verification/Spec2Isabelle.thy ===== *)
theory Spec2Isabelle
  imports PB_DecodeSpec FBase64 LDB_VersionEdit LDB_Filename LDB_Merger LDB_Table LDB_TableCache LDB_Levels
begin

text \<open>
  Verification of the C and C++ core that this chat application ships: the protocol buffer
  library nanopb (\<open>Quick-Chat/Pods/nanopb\<close>), the base64 codec of the database's web socket
  (\<open>fbase64.c\<close>), and LevelDB (\<open>Quick-Chat/Pods/leveldb-library\<close>), in which the Firebase
  database keeps its local data.

  \<^bold>\<open>Parts and interaction.\<close> nanopb encodes C structures described by generated
  descriptor arrays. \<open>pb_common.c\<close> iterates over a descriptor, \<open>pb_encode.c\<close> and
  \<open>pb_decode.c\<close> walk it with the iterator and read or write the structure in memory
  through streams, which are buffers, sizing streams or user functions.
  In LevelDB every update is a write batch; its bytes are one record of the log, and after a
  crash the batches that the log reader recovers are inserted into the memtable again. Internal
  keys order the entries, checksums guard the log, filter blocks spare table reads. All of it is
  built on the encodings of \<open>util/coding.cc\<close>.

  \<^bold>\<open>Theories of nanopb and base64.\<close>
  \<^item> \<open>PB_Prelude\<close>: words, the result shapes of the C code, little-endian bytes, memory.
  \<^item> \<open>PB_Types\<close>: \<open>pb.h\<close>, descriptors with their macros, streams, user code.
  \<^item> \<open>PB_Iter\<close>: \<open>pb_common.c\<close>, field iterator; closed form of the addresses, search.
  \<^item> \<open>PB_IStream\<close>, \<open>PB_OStream\<close>: streams and primitive decoders and encoders.
  \<^item> \<open>PB_Wire\<close>: the wire format; each primitive decoder reads what its encoder writes
    (locale \<open>wire_codec\<close>).
  \<^item> \<open>PB_Encode\<close>, \<open>PB_EncodeSpec\<close>: the message encoder, its single-pass
    specification and the refinement between them (locale \<open>value_encoder\<close>).
  \<^item> \<open>PB_Decode\<close>, \<open>PB_DecodeSafe\<close>, \<open>PB_DecodeSpec\<close>: the message decoder, its
    safety on every input (locales \<open>field_decoder\<close>, \<open>submsg_decoder\<close>), the check of
    required fields and the value round trips (locale \<open>value_codec\<close>).
  \<^item> \<open>FBase64\<close>: \<open>f_b64_ntop\<close> and \<open>f_b64_pton\<close>.

  \<^bold>\<open>Theories of LevelDB.\<close>
  \<^item> \<open>LDB_Coding\<close>: \<open>util/coding.cc\<close>; decoders take a prefix (locale \<open>slice_reader\<close>) and
    read back what the encoders write (locale \<open>slice_codec\<close>).
  \<^item> \<open>LDB_Bloom\<close>: \<open>util/hash.cc\<close>, \<open>util/bloom.cc\<close>; no false negatives (locale
    \<open>filter_policy\<close>, the contract of filters).
  \<^item> \<open>LDB_Crc32c\<close>: \<open>util/crc32c.cc\<close> and its accelerated version equal the bitwise
    CRC-32C; the tables are spans of eight computed values.
  \<^item> \<open>LDB_Log\<close>: \<open>db/log_writer.cc\<close>, \<open>db/log_reader.cc\<close>; the layout of fragments in blocks,
    the relation \<open>sync\<close> between a reader and the bytes to come, round trip, truncation, reopening.
  \<^item> \<open>LDB_DbFormat\<close>: \<open>util/comparator.cc\<close>, \<open>db/dbformat.cc\<close>; orders, separators (locales
    \<open>comparator_laws\<close>, \<open>user_comparator\<close>, the second giving the first for internal keys).
  \<^item> \<open>LDB_WriteBatch\<close>: \<open>db/write_batch.cc\<close>; a batch represents a list of operations.
  \<^item> \<open>LDB_FilterBlock\<close>: \<open>table/filter_block.cc\<close>; builder and reader, for any filter policy.
  \<^item> \<open>LDB_Iterator\<close>: the contract of \<open>include/leveldb/iterator.h\<close> (locale
    \<open>iterator_laws\<close>): moves over an ordered list; what scans and seeks then deliver.
  \<^item> \<open>LDB_Block\<close>: \<open>table/block_builder.cc\<close>, \<open>table/block.cc\<close>; the iterator keeps the contract on
    the blocks of the builder and stays inside on all others, but for an overflow.
  \<^item> \<open>LDB_SkipList\<close>: \<open>db/skiplist.h\<close>, \<open>util/random.h\<close>; searches end and find their place in
    every skip list, insertions keep it one, also for readers between two stores of a writer.
  \<^item> \<open>LDB_MemTable\<close>: \<open>db/memtable.cc\<close>; the table refines a list of additions, lookups find the
    newest one visible, batches update the map from keys to results.
  \<^item> \<open>LDB_Wrapper\<close>: virtual functions as a record and \<open>table/iterator_wrapper.h\<close>; what follows its
    entries through every sequence of calls (locale \<open>iterator_impl\<close>).
  \<^item> \<open>LDB_Merger\<close>: \<open>table/merger.cc\<close>; the merging iterator is an iterator on the merge of
    its sources (locale \<open>merge_laws\<close>).
  \<^item> \<open>LDB_TwoLevel\<close>: \<open>table/two_level_iterator.cc\<close>; an iterator on the blocks that an index names
    (locale \<open>two_level_laws\<close>).
  \<^item> \<open>LDB_Format\<close>: \<open>table/format.cc\<close>; handles, footer, reading a block.
  \<^item> \<open>LDB_Cache\<close>: \<open>util/cache.cc\<close>; hash table, reference counts and lists of a shard with their
    invariant, runs of calls, the map that a shard refines; the sharded cache as an instance of
    what tables ask of a cache of blocks (locales \<open>block_cache\<close>, \<open>numbered_cache\<close>).
  \<^item> \<open>LDB_TableBuilder\<close>: \<open>table/table_builder.cc\<close>; the builder writes the file that \<open>table_bytes\<close>
    specifies.
  \<^item> \<open>LDB_Table\<close>: \<open>table/table.cc\<close>; a built file is opened, iterated and searched as its entries say,
    also through the cache and the filter (locale \<open>ordered_tables\<close>).
  \<^item> \<open>LDB_VersionEdit\<close>: \<open>db/version_edit.cc\<close>; encoding and decoding of edits.
  \<^item> \<open>LDB_Filename\<close>: \<open>db/filename.cc\<close>, \<open>util/logging.cc\<close>, \<open>SetCurrentFile\<close> over a file system
    with the laws \<open>env_laws\<close>.
  \<^item> \<open>LDB_TableCache\<close>: \<open>db/table_cache.cc\<close>; the tables in the cache are the files of the
    database, a lookup goes through it and leaves no handle behind.
  \<^item> \<open>LDB_Version\<close>: \<open>db/version_set.cc\<close>; \<open>Version::Get\<close> gives what is newest in all files of a
    version, whose levels above 0 are in order and have newer data above older data.
  \<^item> \<open>LDB_Levels\<close>: also \<open>db/version_set.cc\<close>; overlaps with a range, the inputs of a compaction as
    those of the least closed range, and a level for a memtable that hides no newer data.
  \<^item> This theory: a sample message for nanopb, the recovery of write batches from a log, and
    lookups in the memtable that recovery builds.

  \<^bold>\<open>State.\<close> Streams are records with the members of \<open>pb_istream_t\<close> and
  \<open>pb_ostream_t\<close>; message structures live in a byte-addressed memory. A C function
  that returns \<open>false\<close> returns \<open>None\<close> or \<open>False\<close> with the mutated stream. Steps that C
  leaves undefined are the outcome \<open>Undefined\<close>. The classes of LevelDB are records with their
  members, or their single member; a \<open>Slice\<close> is a byte list, a null pointer or \<open>false\<close> with
  an output parameter is \<open>None\<close>, a \<open>Status\<close> its code and message.

  \<^bold>\<open>Fuel and loops.\<close> nanopb's encoder and decoder take a fuel that bounds the nesting depth of
  the descriptor, the tags of a message, the rounds of a callback and the length of an
  extension chain. \<open>pb_decode_safe\<close> shows that more fuel than bytes of input and
  levels of nesting is always enough; \<open>message_spec\<close> is \<open>Some\<close> only if the fuel is
  enough for the encoder. In LevelDB the loops are functions with a measure, or partial
  functions where their end depends on the data or on user code: reading a log, searching the
  skip list, evicting from the cache, skipping empty blocks, overlapping inputs. The properties
  state that they return.

  \<^bold>\<open>Parameters.\<close> Field callbacks and extension types are user code behind function
  pointers: they are the record \<open>pb_env\<close>. What the encoder proofs need of them is
  \<open>user_refines\<close>; the decoder is proved safe for descriptors without them. In LevelDB the
  parameters are the file operations of the environment, user comparators and filter policies,
  the handler of a batch and the CRC instructions of the processor.

  \<^bold>\<open>Not modelled.\<close> The allocation branches of nanopb (\<open>PB_ENABLE_MALLOC\<close> is not set
  in this build), the Objective-C libraries and the Swift user interface. Of LevelDB: the arena,
  which only hands out memory; of \<open>db/version_set.cc\<close> the choice of compactions beyond their inputs, the application of
  edits to versions and the descriptor log; the database class with its threads, its iterator
  and its repair; the interface to the operating system and the C interface, which only call
  what lies below them.
\<close>

unbundle bit_operations_syntax

section \<open>A sample message\<close>

text \<open>
  The witnesses run the models without user code on a message with one required
  \<open>int32\<close> and one optional string of 8 bytes.
\<close>

definition no_user_code :: "unit pb_env" where
  "no_user_code =
     \<lparr>decode_func = (\<lambda>_ s _ _ h. (False, s, h)),
      encode_func = (\<lambda>_ s _ _ _. (False, s)),
      ext_type_at = (\<lambda>_. \<lparr>ext_decode = None, ext_encode = None, ext_arg = PB_LAST_FIELD\<rparr>)\<rparr>"

definition demo_fields :: "pb_field list" where
  "demo_fields =
     [PB_REQUIRED_STATIC 1 (PB_DATAOFFSET_FIRST 0) 4 PB_LTYPE_VARINT NullPtr,
      PB_OPTIONAL_STATIC 2 (PB_DATAOFFSET_OTHER 5 0 4) (-1) 8 PB_LTYPE_STRING NullPtr]"

lemma demo_eq: "demo_fields = [PbField 1 0 0 0 4 0 NullPtr, PbField 2 0x16 1 0xFFFFFFFF 8 0 NullPtr]"
  by (simp add: demo_fields_def descriptor_macros)

lemma demo_n: "n_fields demo_fields = 2"
  by (simp add: demo_eq n_fields_def)

lemma demo_field: "field_at demo_fields 0 = PbField 1 0 0 0 4 0 NullPtr"
 "field_at demo_fields 1 = PbField 2 0x16 1 0xFFFFFFFF 8 0 NullPtr"
 "field_at demo_fields (Suc 0) = PbField 2 0x16 1 0xFFFFFFFF 8 0 NullPtr"
  by (simp_all add: demo_eq field_at_def)

lemma upt_2: "[0..<2] = [0, Suc 0]"
  by (simp add: upt_rec)

lemma demo_required: "required_ok demo_fields"
proof -
  have "n_required demo_fields = required_before demo_fields (Suc (Suc 0))"
    by (simp add: n_required_def demo_n numeral_2_eq_2)
  then show ?thesis by (simp add: required_ok_def demo_field pb_type_defs)
qed

lemma demo_wf: "wf_message (Suc n) demo_fields 13"
  unfolding wf_message_def demo_n upt_2
  by (simp add: demo_required demo_field it_ok_def type_ok_def pb_type_defs field_extent_def same_union_def)
     (simp add: demo_eq tags_ok_def)
definition no_user_spec :: user_spec where
  "no_user_spec = \<lparr>callback_spec = (\<lambda>_ _ _ _. Some ([], FailsSilently)),
                   extension_spec = (\<lambda>_ _ _. None)\<rparr>"

lemma no_user_refines: "user_refines no_user_spec no_user_code"
  by (simp add: user_refines_def no_user_spec_def no_user_code_def refines_Some encodes_silent)

definition demo_memory :: heap where
  "demo_memory = store_bytes (\<lambda>_. 0) 1000 [42, 0, 0, 0, 1, 65]"

lemma demo_iter: "iter_fields demo_fields dest = [iter_at demo_fields dest 0, iter_at demo_fields dest (Suc 0)]"
  by (simp add: iter_fields_eq demo_n upt_2)

lemma demo_pos: "data_pos demo_fields 0 = 0" "size_pos demo_fields 0 = 0"
  "data_pos demo_fields (Suc 0) = 5" "size_pos demo_fields (Suc 0) = 4"
  by (simp_all add: demo_field same_union_def field_extent_def pb_type_defs)

lemma demo_int: "load_int demo_memory 1000 4 = 42"
  by (simp add: load_int_def load_nat_def load_bytes_def demo_memory_def store_bytes_def upt_rec)

lemma demo_str: "strnlen_loop demo_memory 1005 0 8 = 1" "load_bytes demo_memory 1005 1 = [65]" "load_bytes demo_memory 1005 (Suc 0) = [65]"
 by (simp_all add: strnlen_loop.simps demo_memory_def load_bytes_def store_bytes_def upt_rec)

lemma demo_has: "demo_memory 1004 = 1"
  by (simp add: demo_memory_def store_bytes_def)

lemma demo_spec: "message_spec (Suc n) us env demo_memory demo_fields 1000
    = Some ([0x08, 0x2A, 0x12, 0x01, 0x41], Complete)"
  by (simp add: demo_iter demo_pos demo_field field_spec_def basic_field_spec_def tag_spec_def
     value_spec_def text_spec_def string_spec_def pb_type_defs wire_type_of_def int_size_def demo_int demo_str
     tag_value_def varint_bytes_def Let_def demo_has del: data_pos.simps size_pos.simps)

section \<open>Decoding\<close>

text \<open>
  C1 (pb_decode_safe): with fuel above the length of the input, \<open>pb_decode\<close> of a
  well-formed descriptor without callbacks and extensions always returns: no input
  makes it loop or reach undefined behaviour; it writes inside the structure only,
  keeps the stream within its buffer, and on success has only consumed bytes from
  the front of the stream.
\<close>

theorem pb_decode_safe:
  assumes "wf_message n flds sz" and "bytes_left s < n"
  shows "\<exists>ok s' h'. pb_decode n env s flds dest h = Ret (ok, s', h')
    \<and> same_outside h h' dest (dest + sz)
    \<and> bytes_left s' \<le> bytes_left s \<and> (istream_ok s \<longrightarrow> istream_ok s')
    \<and> (ok \<longrightarrow> advances s s')"
  by (rule returns_outcome [OF pb_decode_returns [OF assms]])

lemma pb_decode_safe_witness:
  "\<exists>ok s' h'. pb_decode 20 no_user_code (pb_istream_from_buffer [0x08, 0x2A, 0x12, 0x01, 0x41] 5)
       demo_fields 1000 (\<lambda>_. 7) = Ret (ok, s', h')
    \<and> same_outside (\<lambda>_. 7) h' 1000 1013 \<and> bytes_left s' \<le> 5"
  using pb_decode_safe [OF demo_wf [of 19], of "pb_istream_from_buffer [0x08, 0x2A, 0x12, 0x01, 0x41] 5"
      no_user_code 1000 "\<lambda>_. 7"]
  by (auto simp: pb_istream_from_buffer_def)

text \<open>
  Theorem (pb_decode_delimited_safe): the same holds for \<open>pb_decode_delimited\<close>.
\<close>

theorem pb_decode_delimited_safe:
  assumes "wf_message n flds sz" and "bytes_left s < n"
  shows "\<exists>ok s' h'. pb_decode_delimited n env s flds dest h = Ret (ok, s', h')
    \<and> same_outside h h' dest (dest + sz)
    \<and> bytes_left s' \<le> bytes_left s \<and> (istream_ok s \<longrightarrow> istream_ok s')
    \<and> (ok \<longrightarrow> advances s s')"
  by (rule returns_outcome [OF pb_decode_delimited_returns [OF assms]])

lemma pb_decode_delimited_safe_witness:
  "\<exists>ok s' h'. pb_decode_delimited 20 no_user_code (pb_istream_from_buffer [0x02, 0x08, 0x2A] 3)
       demo_fields 1000 (\<lambda>_. 7) = Ret (ok, s', h') \<and> same_outside (\<lambda>_. 7) h' 1000 1013"
  using pb_decode_delimited_safe [OF demo_wf [of 19], of "pb_istream_from_buffer [0x02, 0x08, 0x2A] 3"
      no_user_code 1000 "\<lambda>_. 7"]
  by (auto simp: pb_istream_from_buffer_def)

text \<open>
  Theorem (pb_defaults_safe): setting a message to its defaults always returns and writes
  only inside the structure.
\<close>

theorem pb_defaults_safe:
  assumes "wf_message n flds sz"
  shows "\<exists>h'. pb_message_set_to_defaults n env flds dest h = Ret h' \<and> same_outside h h' dest (dest + sz)"
  using sets_defaults [OF assms, of dest h env] by (simp add: sets_def)

lemma pb_defaults_safe_witness:
  "\<exists>h'. pb_message_set_to_defaults 3 no_user_code demo_fields 50 (\<lambda>_. 7) = Ret h'
     \<and> same_outside (\<lambda>_. 7) h' 50 63"
  using pb_defaults_safe [OF demo_wf [of 2], of no_user_code 50 "\<lambda>_. 7"] by (simp add: numeral_3_eq_3)

section \<open>Encoding\<close>

text \<open>
  C2 (pb_encode_writes_spec): on a stream with room, \<open>pb_encode\<close> succeeds and writes
  exactly the bytes of the single-pass specification, whatever sizing and writing passes
  the submessages and packed arrays take.
\<close>

theorem pb_encode_writes_spec:
  assumes "user_refines us env" and "message_spec n us env h flds src = Some (bs, Complete)"
    and "ostream_ok s" and "fits s (length bs)"
  shows "pb_encode n env h s flds src = Ret (True, emit s bs)"
  using pb_encode_refines [OF assms(1), of n h flds src] assms(2-4)
  by (auto simp: refines_def dest: encodesD)

lemma pb_encode_writes_spec_witness:
  "pb_encode 1 no_user_code demo_memory (pb_ostream_from_buffer 5) demo_fields 1000
     = Ret (True, emit (pb_ostream_from_buffer 5) [0x08, 0x2A, 0x12, 0x01, 0x41])"
proof -
  have ok: "ostream_ok (pb_ostream_from_buffer 5 :: unit pb_ostream)" by (simp add: buffer_ok)
  have fits: "fits (pb_ostream_from_buffer 5 :: unit pb_ostream) (length [0x08, 0x2A, 0x12, 0x01, 0x41 :: byte])"
    by (simp add: fits_def pb_ostream_from_buffer_def)
  from pb_encode_writes_spec [OF no_user_refines demo_spec [of 0] ok fits] show ?thesis by simp
qed

text \<open>
  Theorem (pb_encode_all_ends): whenever the specification makes a promise, \<open>pb_encode\<close>
  ends as it says: it returns \<open>false\<close> with the specified message after the bytes before
  the failing field, and on a buffer without room it stops with \<open>stream full\<close> after a
  prefix that fits.
\<close>

theorem pb_encode_all_ends:
  assumes "user_refines us env" and "message_spec n us env h flds src = Some (bs, e)" and "ostream_ok s"
  shows "if fits s (length bs) then pb_encode n env h s flds src = Ret (finish e (emit s bs))
    else \<exists>t. pb_encode n env h s flds src = Ret (False, t) \<and> stream_full s bs t"
  using pb_encode_refines [OF assms(1), of n h flds src] assms(2,3)
  by (auto simp: refines_def dest: encodesD)

lemma pb_encode_all_ends_witness:
  "\<exists>t. pb_encode 1 no_user_code demo_memory (pb_ostream_from_buffer 3) demo_fields 1000 = Ret (False, t)
     \<and> stream_full (pb_ostream_from_buffer 3) [0x08, 0x2A, 0x12, 0x01, 0x41] t"
proof -
  have ok: "ostream_ok (pb_ostream_from_buffer 3 :: unit pb_ostream)" by (simp add: buffer_ok)
  have "\<not> fits (pb_ostream_from_buffer 3 :: unit pb_ostream) (length [0x08, 0x2A, 0x12, 0x01, 0x41 :: byte])"
    by (simp add: fits_def pb_ostream_from_buffer_def)
  with pb_encode_all_ends [OF no_user_refines demo_spec [of 0] ok] show ?thesis
    unfolding One_nat_def by (simp only: if_False)
qed

text \<open>
  Theorem (size_then_encode): \<open>pb_get_encoded_size\<close> returns the exact number of bytes: a
  buffer of that size takes the message, every smaller one is reported full.
\<close>

theorem size_then_encode:
  fixes env :: "'s pb_env"
  assumes "user_refines us env" and "message_spec n us env h flds src = Some (bs, Complete)"
    and "length bs < 2 ^ 63"
  shows "pb_get_encoded_size n env h flds src = Ret (Some (length bs))
    \<and> pb_encode n env h (pb_ostream_from_buffer (length bs)) flds src =
        Ret (True, \<lparr>o_sink = BufWrite bs, max_size = length bs, bytes_written = length bs, o_errmsg = None\<rparr>)
    \<and> (m < length bs \<longrightarrow> (\<exists>t. pb_encode n env h (pb_ostream_from_buffer m) flds src = Ret (False, t)
        \<and> o_errmsg t = Some ''stream full''))"
proof (intro conjI impI)
  let ?b = "pb_ostream_from_buffer m :: 's pb_ostream"
  have e: "encodes (\<lambda>s. pb_encode n env h s flds src) (bs, Complete)"
    using pb_encode_refines [OF assms(1), of n h flds src] assms(2) by (simp add: refines_def)
  show "pb_get_encoded_size n env h flds src = Ret (Some (length bs))"
    using encodesD(1) [OF e sizing_ok] assms(3)
    by (simp add: pb_get_encoded_size_def size_add_def)
  show "pb_encode n env h (pb_ostream_from_buffer (length bs)) flds src =
        Ret (True, \<lparr>o_sink = BufWrite bs, max_size = length bs, bytes_written = length bs, o_errmsg = None\<rparr>)"
    using encodesD(1) [OF e buffer_ok [OF assms(3)]] assms(3)
    by (simp add: fits_def pb_ostream_from_buffer_def emit_def size_add_def)
  assume m: "m < length bs"
  with assms(3) have "m < 2 ^ 63" by simp
  from encodesD(2) [OF e buffer_ok [OF this]] m
  show "\<exists>t. pb_encode n env h ?b flds src = Ret (False, t) \<and> o_errmsg t = Some ''stream full''"
    by (auto simp: fits_def pb_ostream_from_buffer_def stream_full_def set_oerror_def)
qed

lemma size_then_encode_witness:
  "pb_get_encoded_size 1 no_user_code demo_memory demo_fields 1000 = Ret (Some 5)
   \<and> (\<exists>t. pb_encode 1 no_user_code demo_memory (pb_ostream_from_buffer 4) demo_fields 1000 = Ret (False, t)
        \<and> o_errmsg t = Some ''stream full'')"
proof -
  have len: "length [0x08, 0x2A, 0x12, 0x01, 0x41 :: byte] = 5" by simp
  have "length [0x08, 0x2A, 0x12, 0x01, 0x41 :: byte] < 2 ^ 63" by simp
  from size_then_encode [OF no_user_refines demo_spec [of 0] this, of 4] show ?thesis
    unfolding len One_nat_def by simp
qed

text \<open>
  Theorem (pb_encode_delimited_spec): \<open>pb_encode_delimited\<close> writes the length of the message
  as a varint and then the message.
\<close>

theorem pb_encode_delimited_spec:
  assumes "user_refines us env" and "message_spec n us env h flds src = Some (bs, Complete)"
    and "length bs < 2 ^ 63" and "ostream_ok s" and "fits s (length (varint_bytes (word_of_nat (length bs)) @ bs))"
  shows "pb_encode_delimited n env h s flds src
    = Ret (True, emit s (varint_bytes (word_of_nat (length bs)) @ bs))"
proof -
  from refines_delimited [where rec = "pb_encode n env h", OF pb_encode_refines [OF assms(1), of n h flds src]] assms(2-5) show ?thesis
    by (auto simp: pb_encode_delimited_def string_spec_def refines_def dest: encodesD)
qed

lemma pb_encode_delimited_spec_witness:
  "pb_encode_delimited 1 no_user_code demo_memory (pb_ostream_from_buffer 6) demo_fields 1000
     = Ret (True, emit (pb_ostream_from_buffer 6) [0x05, 0x08, 0x2A, 0x12, 0x01, 0x41])"
proof -
  let ?bs = "[0x08, 0x2A, 0x12, 0x01, 0x41 :: byte]"
  have ok: "ostream_ok (pb_ostream_from_buffer 6 :: unit pb_ostream)" by (simp add: buffer_ok)
  have v: "varint_bytes (word_of_nat (length ?bs)) = [0x05]" by (simp add: varint_bytes_def)
  have fits: "fits (pb_ostream_from_buffer 6 :: unit pb_ostream) (length (varint_bytes (word_of_nat (length ?bs)) @ ?bs))"
    unfolding v by (simp add: fits_def pb_ostream_from_buffer_def)
  from pb_encode_delimited_spec [OF no_user_refines demo_spec [of 0] _ ok fits] show ?thesis
    unfolding v One_nat_def by simp
qed

section \<open>Recovery\<close>












end
